(* ===== verification/Cp_Prelude.thy ===== *)
theory Cp_Prelude
  imports Main "HOL-Library.Word"
begin

text \<open>
  Shared vocabulary of the development: the machine integers of the code, the ways an
  operation can fail, and the generic lemmas on words and lists that the component theories
  use. The C types are read for the 64-bit platforms the package is built on:
  \<^item> \<open>size_t\<close> and \<open>R_xlen_t\<close> are 64-bit words, the second read as signed (\<open>sint\<close>);
  \<^item> \<open>int\<close> is a 32-bit word read as signed, \<open>uint32_t\<close> a 32-bit word, \<open>char\<close> a byte.
  A cast between two of them is \<open>ucast\<close> (from an unsigned type) or \<open>scast\<close> (from a signed
  one). A failing operation returns \<open>Inl e\<close>; what it did before it failed stays in the state
  it returns beside the error.
\<close>

section \<open>Machine integers\<close>

type_synonym u8 = "8 word"
type_synonym u32 = "32 word"
type_synonym u64 = "64 word"
type_synonym size_t = "64 word"
type_synonym R_xlen_t = "64 word"
type_synonym c_int = "32 word"

text \<open>\<open>NA_INTEGER\<close> is R's \<open>R_NaInt\<close>, the least \<open>int\<close>; \<open>SIZE_MAX\<close> and \<open>UINT32_MAX\<close> are
  the limits the code takes from \<open>std::numeric_limits\<close>, and \<open>R_XLEN_T_MAX\<close> is R's limit on
  vector lengths (2 to the power 52).\<close>

abbreviation NA_INTEGER :: c_int where "NA_INTEGER \<equiv> 2147483648"
abbreviation SIZE_MAX :: size_t where "SIZE_MAX \<equiv> 18446744073709551615"
abbreviation UINT32_MAX :: u32 where "UINT32_MAX \<equiv> 4294967295"
abbreviation R_XLEN_T_MAX :: size_t where "R_XLEN_T_MAX \<equiv> 4503599627370496"

section \<open>Failures\<close>

text \<open>
  \<open>Undefined\<close> is C++ undefined behaviour (a read or write outside live memory, a use of an
  uninitialised cell): no operation may ever return it, and the safety theorems say so. The
  other constructors are the exceptions of the code by their standard type, and \<open>R_error\<close> an
  R condition raised by \<open>Rf_error\<close>.
\<close>

datatype fault =
    Undefined
  | Bad_alloc
  | Length_error string
  | Runtime_error string
  | Out_of_range string
  | R_error string

text \<open>Sequencing of fallible steps, and a \<open>for\<close> loop over indices whose body may throw.\<close>

fun and_then :: "fault + 'a \<Rightarrow> ('a \<Rightarrow> fault + 'b) \<Rightarrow> fault + 'b" where
  "and_then (Inl e) f = Inl e"
| "and_then (Inr x) f = f x"

fun for_each :: "(nat \<Rightarrow> 's \<Rightarrow> fault + 's) \<Rightarrow> nat list \<Rightarrow> 's \<Rightarrow> fault + 's" where
  "for_each body [] s = Inr s"
| "for_each body (i # is) s = and_then (body i s) (for_each body is)"

lemma and_then_cases:
  assumes "and_then m f = r"
  obtains e where "m = Inl e" "r = Inl e" | x where "m = Inr x" "f x = r"
  using assms by (cases m) auto

text \<open>A loop over an interval that establishes \<open>P n\<close> from \<open>P i\<close>, if each step does.\<close>

lemma for_each_invariant:
  assumes "P i s" and "i \<le> n"
    and step: "\<And>k s. i \<le> k \<Longrightarrow> k < n \<Longrightarrow> P k s \<Longrightarrow> \<exists>s'. body k s = Inr s' \<and> P (Suc k) s'"
  shows "\<exists>s'. for_each body [i..<n] s = Inr s' \<and> P n s'"
  using assms
proof (induction "n - i" arbitrary: i s)
  case 0
  then show ?case by simp
next
  case (Suc m)
  then have i: "i < n" by simp
  with Suc.prems obtain s1 where s1: "body i s = Inr s1" "P (Suc i) s1" by blast
  have "\<exists>s'. for_each body [Suc i..<n] s1 = Inr s' \<and> P n s'"
    by (rule Suc.hyps(1)) (use Suc.hyps(2) s1(2) i Suc.prems(3) in auto)
  with s1 show ?case by (simp add: upt_conv_Cons [OF i])
qed

text \<open>The same for a body that may throw: the state is \<open>P n\<close> at the end, or the fault is \<open>Q\<close>.\<close>

lemma for_each_result:
  assumes "P i s" and "i \<le> n"
    and step: "\<And>k s. i \<le> k \<Longrightarrow> k < n \<Longrightarrow> P k s \<Longrightarrow> case body k s of Inl e \<Rightarrow> Q e | Inr s' \<Rightarrow> P (Suc k) s'"
  shows "case for_each body [i..<n] s of Inl e \<Rightarrow> Q e | Inr s' \<Rightarrow> P n s'"
  using assms
proof (induction "n - i" arbitrary: i s)
  case 0
  then show ?case by simp
next
  case (Suc m)
  then have i: "i < n" by simp
  with Suc.prems have s1: "case body i s of Inl e \<Rightarrow> Q e | Inr s' \<Rightarrow> P (Suc i) s'" by blast
  show ?case
  proof (cases "body i s")
    case (Inl e)
    with s1 show ?thesis by (simp add: upt_conv_Cons [OF i])
  next
    case (Inr s')
    have "case for_each body [Suc i..<n] s' of Inl e \<Rightarrow> Q e | Inr s' \<Rightarrow> P n s'"
      by (rule Suc.hyps(1)) (use Suc.hyps(2) s1 Inr i Suc.prems(3) in auto)
    with Inr show ?thesis by (simp add: upt_conv_Cons [OF i])
  qed
qed

named_theorems wf_intros \<open>introduction rules for the well-formedness invariants\<close>
named_theorems heap_simps \<open>how reads behave after allocations, writes and frees\<close>

section \<open>Words\<close>

lemma sint_c_int:
  fixes w :: c_int
  shows "sint w = (if unat w \<le> 2147483647 then int (unat w) else int (unat w) - 4294967296)"
proof -
  define u where "u = int (unat w)"
  have u: "uint w = u" and b: "0 \<le> u" "u < 4294967296"
    using unsigned_less [of w, where 'a = nat] by (simp_all add: u_def del: of_nat_unat) simp
  have s: "sint w = (u + 2147483648) mod 4294967296 - 2147483648"
    by (simp add: sint_uint signed_take_bit_eq_take_bit_shift take_bit_eq_mod u)
  show ?thesis
  proof (cases "unat w \<le> 2147483647")
    case True
    then have "u + 2147483648 < 4294967296" unfolding u_def by linarith
    then show ?thesis using True b s by (simp add: u_def del: of_nat_unat)
  next
    case False
    then have "2147483648 \<le> u" unfolding u_def by linarith
    then have "(u + 2147483648) mod 4294967296 = u + 2147483648 - 4294967296"
      using b by (simp add: mod_pos_geq)
    then show ?thesis using False s by (simp add: u_def del: of_nat_unat)
  qed
qed

lemma sint_nonneg_iff:
  fixes w :: c_int
  shows "0 \<le> sint w \<longleftrightarrow> unat w \<le> 2147483647"
  using unsigned_less [of w, where 'a = nat] by (simp add: sint_c_int del: of_nat_unat)

lemma sint_neg_iff:
  fixes w :: c_int
  shows "sint w < 0 \<longleftrightarrow> 2147483647 < unat w"
  using sint_nonneg_iff [of w] by linarith

lemma unat_scast_nonneg:
  fixes i :: c_int
  assumes "unat i \<le> 2147483647"
  shows "unat (scast i :: size_t) = unat i"
proof -
  have "word_of_int (sint i) = (word_of_int (int (unat i)) :: size_t)"
    using assms by (simp add: sint_c_int del: of_nat_unat of_int_sint of_int_of_nat_eq)
  then have "scast i = (word_of_nat (unat i) :: size_t)"
    by (simp add: of_int_of_nat_eq del: of_nat_unat)
  then have "unat (scast i :: size_t) = unat (word_of_nat (unat i) :: size_t)"
    by (rule arg_cong)
  also have "\<dots> = unat i"
    using assms by (simp add: unat_of_nat del: of_nat_unat)
  finally show ?thesis .
qed

lemma unat_u32_bound: "unat (w :: u32) < 4294967296"
  using unsigned_less [of w, where 'a = nat] by simp

lemma unat_u64_bound: "unat (w :: u64) < 18446744073709551616"
  using unsigned_less [of w, where 'a = nat] by simp

lemma unat_u8_bound: "unat (w :: u8) < 256"
  using unsigned_less [of w, where 'a = nat] by simp

lemma unat_ucast_u32:
  "unat (n :: u64) < 4294967296 \<Longrightarrow> unat (ucast n :: u32) = unat n"
  by (simp add: unsigned_ucast_eq take_bit_nat_eq_self)

lemma unat_ucast_u64: "unat (ucast (n :: u32) :: u64) = unat n"
  using unat_u32_bound [of n] by (simp add: unsigned_ucast_eq take_bit_nat_eq_self)

lemma unat_add_u64:
  "unat (a :: u64) + unat b < 18446744073709551616 \<Longrightarrow> unat (a + b) = unat a + unat b"
  by (simp add: unat_word_ariths)

lemma unat_add_u32:
  "unat (a :: u32) + unat b < 4294967296 \<Longrightarrow> unat (a + b) = unat a + unat b"
  by (simp add: unat_word_ariths)

lemma unat_mult_u64:
  "unat (a :: u64) * unat b < 18446744073709551616 \<Longrightarrow> unat (a * b) = unat a * unat b"
  by (simp add: unat_word_ariths)

lemma unat_sub_word: "b \<le> (a :: 'a::len word) \<Longrightarrow> unat (a - b) = unat a - unat b"
  by (rule unat_sub)

lemma unat_of_nat_u64: "n < 18446744073709551616 \<Longrightarrow> unat (of_nat n :: u64) = n"
  by (simp add: unat_of_nat)

lemma unat_of_nat_u32: "n < 4294967296 \<Longrightarrow> unat (of_nat n :: u32) = n"
  by (simp add: unat_of_nat)

lemma unat_max_word: "unat (max a b) = max (unat a) (unat (b :: 'a::len word))"
  by (simp add: max_def word_le_nat_alt)

lemma unat_min_word: "unat (min a b) = min (unat a) (unat (b :: 'a::len word))"
  by (simp add: min_def word_le_nat_alt)

section \<open>Lists\<close>

text \<open>\<open>patch xs i ys\<close> overwrites the bytes of \<open>xs\<close> from index \<open>i\<close> on with \<open>ys\<close>.\<close>

definition patch :: "'a list \<Rightarrow> nat \<Rightarrow> 'a list \<Rightarrow> 'a list" where
  "patch xs i ys = take i xs @ ys @ drop (i + length ys) xs"

lemma length_patch [simp]: "i + length ys \<le> length xs \<Longrightarrow> length (patch xs i ys) = length xs"
  by (simp add: patch_def)

lemma nth_patch:
  assumes "i + length ys \<le> length xs" and "k < length xs"
  shows "patch xs i ys ! k = (if i \<le> k \<and> k < i + length ys then ys ! (k - i) else xs ! k)"
  using assms by (auto simp: patch_def nth_append)

lemma take_drop_patch_same:
  "i + length ys \<le> length xs \<Longrightarrow> take (length ys) (drop i (patch xs i ys)) = ys"
  by (simp add: patch_def)

lemma take_drop_patch_other:
  assumes "i + length ys \<le> length xs" and "j + m \<le> i \<or> i + length ys \<le> j"
  shows "take m (drop j (patch xs i ys)) = take m (drop j xs)"
proof (rule nth_equalityI)
  fix k assume "k < length (take m (drop j (patch xs i ys)))"
  then show "take m (drop j (patch xs i ys)) ! k = take m (drop j xs) ! k"
    using assms by (auto simp: nth_patch)
qed (use assms in simp)

end
