(* ===== verification/Cp_Heap.thy ===== *)
theory Cp_Heap
  imports Cp_Prelude
begin

text \<open>
  Byte memory as the code uses it: blocks obtained from \<open>operator new\<close>, typed accesses
  through \<open>memcpy\<close>, \<open>memmove\<close> and \<open>memcmp\<close>, and frees. A pointer is null, the address of
  the static empty string (\<open>components::empty_data()\<close>), or a byte offset in a block.
  Accesses outside a live block are undefined behaviour and come back as \<open>None\<close> or
  \<open>Undefined\<close>. Whether an allocation succeeds is decided by the environment
  (\<open>can_alloc\<close>: the attempt's number and its size), and fresh memory holds arbitrary bytes
  (\<open>junk\<close>), so every theorem holds for each allocator behaviour and each initial content.
\<close>

section \<open>Heaps\<close>

type_synonym blk = nat

datatype ptr = Null | Empty | At blk nat

record heap =
  blocks :: "blk \<Rightarrow> u8 list option"
  next_blk :: blk
  attempts :: nat
  can_alloc :: "nat \<Rightarrow> nat \<Rightarrow> bool"
  junk :: "blk \<Rightarrow> nat \<Rightarrow> u8"

definition heap_ok :: "heap \<Rightarrow> bool" where
  "heap_ok h \<longleftrightarrow> (\<forall>b. next_blk h \<le> b \<longrightarrow> blocks h b = None)"

text \<open>One attempt to allocate \<open>n\<close> bytes.\<close>

definition try_alloc :: "nat \<Rightarrow> heap \<Rightarrow> bool \<times> heap" where
  "try_alloc n h = (can_alloc h (attempts h) n, h\<lparr>attempts := Suc (attempts h)\<rparr>)"

text \<open>
  \<open>operator new\<close> for a request of \<open>req\<close> bytes of which the last \<open>n\<close> are the payload the
  model tracks (the rest is a header the code never exposes).
\<close>

definition alloc_block :: "nat \<Rightarrow> nat \<Rightarrow> heap \<Rightarrow> (fault + blk) \<times> heap" where
  "alloc_block req n h =
     (let (ok, h1) = try_alloc req h
      in if ok
         then (Inr (next_blk h1),
               h1\<lparr>blocks := (blocks h1)(next_blk h1 \<mapsto> map (junk h1 (next_blk h1)) [0..<n]),
                  next_blk := Suc (next_blk h1)\<rparr>)
         else (Inl Bad_alloc, h1))"

definition free_block :: "blk \<Rightarrow> heap \<Rightarrow> heap" where
  "free_block b h = h\<lparr>blocks := (blocks h)(b := None)\<rparr>"

section \<open>Access\<close>

fun mem_read :: "heap \<Rightarrow> ptr \<Rightarrow> nat \<Rightarrow> u8 list option" where
  "mem_read h Null n = None"
| "mem_read h Empty n = (if n \<le> 1 then Some (replicate n 0) else None)"
| "mem_read h (At b off) n =
     (case blocks h b of
        None \<Rightarrow> None
      | Some bs \<Rightarrow> if off + n \<le> length bs then Some (take n (drop off bs)) else None)"

fun mem_write :: "heap \<Rightarrow> ptr \<Rightarrow> u8 list \<Rightarrow> heap option" where
  "mem_write h Null ys = None"
| "mem_write h Empty ys = (if ys = [] then Some h else None)"
| "mem_write h (At b off) ys =
     (case blocks h b of
        None \<Rightarrow> None
      | Some bs \<Rightarrow>
          if off + length ys \<le> length bs
          then Some (h\<lparr>blocks := (blocks h)(b \<mapsto> patch bs off ys)\<rparr>) else None)"

text \<open>Two regions of the given sizes share no byte.\<close>

fun disjoint :: "ptr \<Rightarrow> nat \<Rightarrow> ptr \<Rightarrow> nat \<Rightarrow> bool" where
  "disjoint (At b o1) n (At c o2) m \<longleftrightarrow> b \<noteq> c \<or> o1 + n \<le> o2 \<or> o2 + m \<le> o1"
| "disjoint p n q m \<longleftrightarrow> True"

text \<open>
  \<open>memmove\<close> copies through a temporary; \<open>memcpy\<close> is undefined on overlapping regions.
\<close>

definition memmove :: "heap \<Rightarrow> ptr \<Rightarrow> ptr \<Rightarrow> nat \<Rightarrow> (fault + unit) \<times> heap" where
  "memmove h dest src n =
     (case mem_read h src n of
        None \<Rightarrow> (Inl Undefined, h)
      | Some bs \<Rightarrow>
          (case mem_write h dest bs of
             None \<Rightarrow> (Inl Undefined, h)
           | Some h' \<Rightarrow> (Inr (), h')))"

definition memcpy :: "heap \<Rightarrow> ptr \<Rightarrow> ptr \<Rightarrow> nat \<Rightarrow> (fault + unit) \<times> heap" where
  "memcpy h dest src n =
     (if disjoint dest n src n then memmove h dest src n else (Inl Undefined, h))"

text \<open>Equality of two regions by \<open>memcmp\<close>.\<close>

definition memcmp_eq :: "heap \<Rightarrow> ptr \<Rightarrow> ptr \<Rightarrow> nat \<Rightarrow> fault + bool" where
  "memcmp_eq h p q n =
     (case mem_read h p n of
        None \<Rightarrow> Inl Undefined
      | Some xs \<Rightarrow> (case mem_read h q n of None \<Rightarrow> Inl Undefined | Some ys \<Rightarrow> Inr (xs = ys)))"

section \<open>Facts about heaps\<close>

text \<open>The block a pointer lies in.\<close>

fun ptr_blk :: "ptr \<Rightarrow> blk option" where
  "ptr_blk (At b off) = Some b"
| "ptr_blk p = None"

lemma length_mem_read: "mem_read h p n = Some bs \<Longrightarrow> length bs = n"
  by (cases p) (auto split: if_splits option.splits)

lemma mem_read_Null [simp]: "mem_read h Null n = Some bs \<longleftrightarrow> False"
  by simp

lemma mem_read_cong:
  "(\<And>b. ptr_blk p = Some b \<Longrightarrow> blocks h' b = blocks h b) \<Longrightarrow> mem_read h' p n = mem_read h p n"
  by (cases p) auto

text \<open>\<open>h'\<close> keeps every live block of \<open>h\<close> with its bytes.\<close>

definition keeps_live :: "heap \<Rightarrow> heap \<Rightarrow> bool" where
  "keeps_live h h' \<longleftrightarrow> (\<forall>b bs. blocks h b = Some bs \<longrightarrow> blocks h' b = Some bs)"

lemma keeps_live_refl [simp]: "keeps_live h h"
  by (simp add: keeps_live_def)

lemma keeps_live_trans: "keeps_live h h1 \<Longrightarrow> keeps_live h1 h2 \<Longrightarrow> keeps_live h h2"
  by (simp add: keeps_live_def)

lemma keeps_live_same: "blocks h' = blocks h \<Longrightarrow> keeps_live h h'"
  by (simp add: keeps_live_def)

lemma keeps_live_read: "keeps_live h h' \<Longrightarrow> mem_read h p n = Some bs \<Longrightarrow> mem_read h' p n = Some bs"
  by (cases p) (auto simp: keeps_live_def split: option.splits if_splits)

text \<open>\<open>h'\<close> has the same live blocks as \<open>h\<close>, of the same sizes.\<close>

definition same_shape :: "heap \<Rightarrow> heap \<Rightarrow> bool" where
  "same_shape h h' \<longleftrightarrow>
     (\<forall>b. map_option length (blocks h' b) = map_option length (blocks h b)) \<and>
     next_blk h' = next_blk h"

lemma same_shape_refl [simp]: "same_shape h h"
  by (simp add: same_shape_def)

lemma same_shape_trans: "same_shape h h1 \<Longrightarrow> same_shape h1 h2 \<Longrightarrow> same_shape h h2"
  by (simp add: same_shape_def)

lemma same_shape_length:
  "same_shape h h' \<Longrightarrow> blocks h b = Some bs \<Longrightarrow> \<exists>bs'. blocks h' b = Some bs' \<and> length bs' = length bs"
  unfolding same_shape_def by (metis map_option_eq_Some)

lemma same_shape_heap_ok: "same_shape h h' \<Longrightarrow> heap_ok h \<Longrightarrow> heap_ok h'"
  unfolding same_shape_def heap_ok_def by (metis option.map_disc_iff)

lemma try_alloc_blocks [simp]:
  "blocks (snd (try_alloc n h)) = blocks h" "next_blk (snd (try_alloc n h)) = next_blk h"
  by (simp_all add: try_alloc_def)

lemma heap_ok_try_alloc [wf_intros]: "heap_ok h \<Longrightarrow> heap_ok (snd (try_alloc n h))"
  by (simp add: heap_ok_def)

lemma alloc_block_fail:
  "alloc_block req n h = (Inl e, h') \<Longrightarrow>
     e = Bad_alloc \<and> blocks h' = blocks h \<and> next_blk h' = next_blk h"
  by (auto simp: alloc_block_def try_alloc_def split: if_splits)

text \<open>No operation changes the allocator's behaviour.\<close>

lemma alloc_block_can_alloc: "alloc_block req n h = (r, h') \<Longrightarrow> can_alloc h' = can_alloc h"
  by (auto simp: alloc_block_def try_alloc_def split: if_splits)

lemma memcpy_can_alloc: "memcpy h dest src n = (r, h') \<Longrightarrow> can_alloc h' = can_alloc h"
  by (cases dest) (auto simp: memcpy_def memmove_def split: if_splits option.splits)

lemma alloc_block_oom: "alloc_block req n h = (Inl e, h') \<Longrightarrow> \<not> can_alloc h (attempts h) req"
  by (auto simp: alloc_block_def try_alloc_def split: if_splits)

lemma alloc_block_ok:
  "alloc_block req n h = (Inr b, h') \<Longrightarrow>
     b = next_blk h \<and> next_blk h' = Suc b \<and>
     blocks h' = (blocks h)(b \<mapsto> map (junk h b) [0..<n])"
  by (auto simp: alloc_block_def try_alloc_def split: if_splits)

lemma alloc_block_keeps:
  assumes "heap_ok h" and "alloc_block req n h = (r, h')"
  shows "keeps_live h h'"
proof (cases r)
  case (Inl e)
  with assms show ?thesis by (auto dest: alloc_block_fail intro: keeps_live_same)
next
  case (Inr b)
  with assms show ?thesis
    by (auto simp: keeps_live_def heap_ok_def dest!: alloc_block_ok)
qed

lemma alloc_block_heap_ok:
  assumes "heap_ok h" and "alloc_block req n h = (r, h')"
  shows "heap_ok h'"
proof (cases r)
  case (Inl e)
  with assms show ?thesis by (auto simp: heap_ok_def dest!: alloc_block_fail)
next
  case (Inr b)
  with assms show ?thesis by (auto simp: heap_ok_def dest!: alloc_block_ok)
qed

lemma mem_write_shape: "mem_write h p ys = Some h' \<Longrightarrow> same_shape h h'"
  by (cases p) (auto simp: same_shape_def split: option.splits if_splits)

lemma mem_write_frame:
  "mem_write h p ys = Some h' \<Longrightarrow> ptr_blk p \<noteq> Some b \<Longrightarrow> blocks h' b = blocks h b"
  by (cases p) (auto split: option.splits if_splits)

lemma mem_write_read_same:
  assumes "mem_write h (At b off) ys = Some h'"
  shows "mem_read h' (At b off) (length ys) = Some ys"
  using assms by (auto simp: take_drop_patch_same split: option.splits if_splits)

lemma mem_write_read_disjoint:
  assumes w: "mem_write h p ys = Some h'" and "disjoint p (length ys) q m"
  shows "mem_read h' q m = mem_read h q m"
proof (cases p)
  case [simp]: (At b off)
  show ?thesis
  proof (cases q)
    case [simp]: (At c o2)
    show ?thesis
    proof (cases "b = c")
      case True
      with assms show ?thesis
        by (auto simp: take_drop_patch_other split: option.splits if_splits)
    next
      case False
      with w show ?thesis by (auto split: option.splits if_splits)
    qed
  qed simp_all
qed (use w in \<open>auto split: if_splits\<close>)

lemma memmove_ok:
  assumes "mem_read h src n = Some bs" and "blocks h b = Some xs" and "off + n \<le> length xs"
  obtains h' where "memmove h (At b off) src n = (Inr (), h')"
    and "mem_write h (At b off) bs = Some h'"
  using assms length_mem_read [OF assms(1)] by (simp add: memmove_def)

lemma memcpy_ok:
  assumes "mem_read h src n = Some bs" and "blocks h b = Some xs" and "off + n \<le> length xs"
    and "disjoint (At b off) n src n"
  obtains h' where "memcpy h (At b off) src n = (Inr (), h')"
    and "mem_write h (At b off) bs = Some h'"
  using assms length_mem_read [OF assms(1)] by (simp add: memcpy_def memmove_def)

lemma disjoint_blk: "ptr_blk p \<noteq> ptr_blk q \<Longrightarrow> disjoint p n q m"
  by (cases p; cases q) auto

lemma disjoint_sym: "disjoint p n q m \<Longrightarrow> disjoint q m p n"
  by (cases p; cases q) auto

end
