(* ===== verification/Cp_Types.thy ===== *)
theory Cp_Types
  imports Cp_Heap
begin

text \<open>
  The element-view ABI of \<open>inst/include/charport/interop/types.h\<close>: the status codes of the
  access callbacks, the one-byte encoding tag, and the two view structs with their null tests
  and equality operators; and the abstract string elements the whole development reads views
  as.
\<close>

section \<open>Status codes and their exceptions\<close>

definition CHARPORT_STATUS_OK :: c_int where "CHARPORT_STATUS_OK = 0"
definition CHARPORT_STATUS_ERROR :: c_int where "CHARPORT_STATUS_ERROR = 1"
definition CHARPORT_STATUS_NO_MEMORY :: c_int where "CHARPORT_STATUS_NO_MEMORY = 2"
definition CHARPORT_STATUS_OUT_OF_RANGE :: c_int where "CHARPORT_STATUS_OUT_OF_RANGE = 3"

lemmas status_defs = CHARPORT_STATUS_OK_def CHARPORT_STATUS_ERROR_def
  CHARPORT_STATUS_NO_MEMORY_def CHARPORT_STATUS_OUT_OF_RANGE_def

text \<open>\<open>detail::throw_access_error\<close> and \<open>detail::check_access\<close> of \<open>reader.h\<close>.\<close>

definition throw_access_error :: "c_int \<Rightarrow> fault" where
  "throw_access_error status =
     (if status = CHARPORT_STATUS_NO_MEMORY then Bad_alloc
      else if status = CHARPORT_STATUS_OUT_OF_RANGE
      then Out_of_range ''charport Reader access is out of range''
      else Runtime_error ''charport Reader access failed'')"

definition check_access :: "c_int \<Rightarrow> fault + unit" where
  "check_access status =
     (if status \<noteq> CHARPORT_STATUS_OK then Inl (throw_access_error status) else Inr ())"

text \<open>\<open>convert_current_exception_to_status\<close>: the catch clauses in their order. (An R condition
  is a longjmp, not a C++ exception, and never reaches a catch clause.)\<close>

fun convert_exception_to_status :: "fault \<Rightarrow> c_int" where
  "convert_exception_to_status Bad_alloc = CHARPORT_STATUS_NO_MEMORY"
| "convert_exception_to_status (Out_of_range m) = CHARPORT_STATUS_OUT_OF_RANGE"
| "convert_exception_to_status e = CHARPORT_STATUS_ERROR"

section \<open>Encoding tags\<close>

text \<open>\<open>cetype_ext_t\<close> is a struct of one byte; its \<open>==\<close> compares the byte.\<close>

datatype cetype_ext_t = Cetype (tag_value: u8)

definition CETYPE_EXT_NATIVE :: cetype_ext_t where "CETYPE_EXT_NATIVE = Cetype 0"
definition CETYPE_EXT_UTF8 :: cetype_ext_t where "CETYPE_EXT_UTF8 = Cetype 1"
definition CETYPE_EXT_LATIN1 :: cetype_ext_t where "CETYPE_EXT_LATIN1 = Cetype 2"
definition CETYPE_EXT_BYTES :: cetype_ext_t where "CETYPE_EXT_BYTES = Cetype 3"
definition CETYPE_EXT_ASCII_OR_UTF8 :: cetype_ext_t where "CETYPE_EXT_ASCII_OR_UTF8 = Cetype 100"
definition CETYPE_EXT_ASCII :: cetype_ext_t where "CETYPE_EXT_ASCII = Cetype 254"
definition CETYPE_EXT_NA :: cetype_ext_t where "CETYPE_EXT_NA = Cetype 255"

lemmas cetype_defs = CETYPE_EXT_NATIVE_def CETYPE_EXT_UTF8_def CETYPE_EXT_LATIN1_def
  CETYPE_EXT_BYTES_def CETYPE_EXT_ASCII_OR_UTF8_def CETYPE_EXT_ASCII_def CETYPE_EXT_NA_def

definition charport_cetype_ext :: "u8 \<Rightarrow> cetype_ext_t" where
  "charport_cetype_ext value = Cetype value"

definition cetype_eq :: "cetype_ext_t \<Rightarrow> cetype_ext_t \<Rightarrow> bool" where
  "cetype_eq a b \<longleftrightarrow> tag_value a = tag_value b"

lemma cetype_eq_iff [simp]: "cetype_eq a b \<longleftrightarrow> a = b"
  by (cases a; cases b) (simp add: cetype_eq_def)

text \<open>\<open>valid_view_encoding\<close> of \<open>charvec_altrep.h\<close>: the tags the switch lists.\<close>

definition valid_view_encoding :: "cetype_ext_t \<Rightarrow> bool" where
  "valid_view_encoding enc \<longleftrightarrow>
     tag_value enc = tag_value CETYPE_EXT_NATIVE \<or>
     tag_value enc = tag_value CETYPE_EXT_UTF8 \<or>
     tag_value enc = tag_value CETYPE_EXT_LATIN1 \<or>
     tag_value enc = tag_value CETYPE_EXT_BYTES \<or>
     tag_value enc = tag_value CETYPE_EXT_ASCII_OR_UTF8 \<or>
     tag_value enc = tag_value CETYPE_EXT_ASCII \<or>
     tag_value enc = tag_value CETYPE_EXT_NA"

section \<open>Views\<close>

record charport_byteview =
  bv_ptr :: ptr
  bv_len :: c_int

record charport_strview =
  sv_ptr :: ptr
  sv_len :: c_int
  sv_enc :: cetype_ext_t

definition make_byteview :: "ptr \<Rightarrow> c_int \<Rightarrow> charport_byteview" where
  "make_byteview p l = \<lparr>bv_ptr = p, bv_len = l\<rparr>"

definition make_strview :: "ptr \<Rightarrow> c_int \<Rightarrow> cetype_ext_t \<Rightarrow> charport_strview" where
  "make_strview p l e = \<lparr>sv_ptr = p, sv_len = l, sv_enc = e\<rparr>"

lemma make_strview_sel [simp]:
  "sv_ptr (make_strview p l e) = p" "sv_len (make_strview p l e) = l" "sv_enc (make_strview p l e) = e"
  by (simp_all add: make_strview_def)

definition byteview_is_na :: "charport_byteview \<Rightarrow> bool" where
  "byteview_is_na v \<longleftrightarrow> bv_ptr v = Null \<or> bv_len v = NA_INTEGER"

definition strview_is_na :: "charport_strview \<Rightarrow> bool" where
  "strview_is_na v \<longleftrightarrow> sv_ptr v = Null \<or> sv_len v = NA_INTEGER \<or> sv_enc v = CETYPE_EXT_NA"

text \<open>\<open>view_is_na\<close> of \<open>charvec_altrep.h\<close>, the same test on the three parts.\<close>

definition view_is_na :: "ptr \<Rightarrow> c_int \<Rightarrow> cetype_ext_t \<Rightarrow> bool" where
  "view_is_na p l e \<longleftrightarrow> p = Null \<or> l = NA_INTEGER \<or> e = CETYPE_EXT_NA"

text \<open>
  The equality operators. The length reaches \<open>memcmp\<close> as \<open>static_cast<size_t>(len)\<close>, a sign
  extension.
\<close>

definition byteview_eq :: "heap \<Rightarrow> charport_byteview \<Rightarrow> charport_byteview \<Rightarrow> fault + bool" where
  "byteview_eq h a b =
     (if byteview_is_na a \<and> byteview_is_na b then Inr True
      else if byteview_is_na a \<or> byteview_is_na b then Inr False
      else if bv_len a \<noteq> bv_len b then Inr False
      else if bv_ptr a = bv_ptr b then Inr True
      else memcmp_eq h (bv_ptr a) (bv_ptr b) (unat (scast (bv_len a) :: size_t)))"

definition strview_eq :: "heap \<Rightarrow> charport_strview \<Rightarrow> charport_strview \<Rightarrow> fault + bool" where
  "strview_eq h a b =
     (if strview_is_na a \<and> strview_is_na b then Inr True
      else if strview_is_na a \<or> strview_is_na b then Inr False
      else if sv_len a \<noteq> sv_len b \<or> \<not> cetype_eq (sv_enc a) (sv_enc b) then Inr False
      else if sv_ptr a = sv_ptr b then Inr True
      else memcmp_eq h (sv_ptr a) (sv_ptr b) (unat (scast (sv_len a) :: size_t)))"

section \<open>Abstract elements\<close>

text \<open>
  What a view stands for: a missing string, or bytes with an encoding. \<open>view_content\<close> is
  \<open>None\<close> for a view whose bytes are not in live memory (or whose length is negative).
\<close>

datatype element = NA | Str "u8 list" cetype_ext_t

definition view_content :: "heap \<Rightarrow> charport_strview \<Rightarrow> element option" where
  "view_content h v =
     (if strview_is_na v then Some NA
      else if sint (sv_len v) < 0 then None
      else (case mem_read h (sv_ptr v) (unat (sv_len v)) of
              None \<Rightarrow> None
            | Some bs \<Rightarrow> Some (Str bs (sv_enc v))))"

lemma view_content_cong:
  "(\<not> strview_is_na v \<Longrightarrow> mem_read h' (sv_ptr v) (unat (sv_len v)) = mem_read h (sv_ptr v) (unat (sv_len v)))
   \<Longrightarrow> view_content h' v = view_content h v"
  by (simp add: view_content_def)

lemma view_content_keeps_live:
  "keeps_live h h' \<Longrightarrow> view_content h v = Some x \<Longrightarrow> view_content h' v = Some x"
  by (auto simp: view_content_def keeps_live_read split: if_splits option.splits)

lemma view_content_Str:
  "view_content h v = Some (Str bs e) \<longleftrightarrow>
     \<not> strview_is_na v \<and> unat (sv_len v) \<le> 2147483647 \<and> e = sv_enc v \<and>
     mem_read h (sv_ptr v) (unat (sv_len v)) = Some bs"
  by (auto simp: view_content_def sint_neg_iff split: option.splits)

lemma view_content_NA: "view_content h v = Some NA \<longleftrightarrow> strview_is_na v"
  by (auto simp: view_content_def split: option.splits)

lemma memcmp_eq_len:
  assumes "unat l \<le> 2147483647"
    and "mem_read h p (unat l) = Some xs" and "mem_read h q (unat l) = Some ys"
  shows "memcmp_eq h p q (unat (scast (l :: c_int) :: size_t)) = Inr (xs = ys)"
  using assms by (simp add: memcmp_eq_def unat_scast_nonneg)

lemma strview_eq_content:
  assumes "view_content h a = Some x" and "view_content h b = Some y"
  shows "strview_eq h a b = Inr (x = y)"
proof (cases x)
  case NA
  with assms show ?thesis
    by (cases y) (auto simp: strview_eq_def view_content_NA view_content_Str)
next
  case (Str xs e)
  show ?thesis
  proof (cases y)
    case NA
    with Str assms show ?thesis
      by (auto simp: strview_eq_def view_content_NA view_content_Str)
  next
    case (Str ys f)
    have "xs = ys \<Longrightarrow> sv_len a = sv_len b"
      using assms Str \<open>x = Str xs e\<close>
      by (auto simp: view_content_Str word_unat_eq_iff dest!: length_mem_read)
    with \<open>x = Str xs e\<close> Str assms show ?thesis
      by (auto simp: strview_eq_def view_content_Str memcmp_eq_len)
  qed
qed

lemma convert_throw_roundtrip:
  "convert_exception_to_status (throw_access_error s) =
     (if s = CHARPORT_STATUS_NO_MEMORY \<or> s = CHARPORT_STATUS_OUT_OF_RANGE then s
      else CHARPORT_STATUS_ERROR)"
  by (simp add: throw_access_error_def status_defs)

section \<open>Properties\<close>

text \<open>\<open>charport_strview\<close>'s \<open>==\<close> decides equality of what two views stand for: for views of
  live memory it never faults, and it is true exactly when both are NA or both have the same
  bytes and the same encoding, wherever the bytes are.\<close>

theorem strview_eq_decides_content:
  assumes "view_content h a = Some x" and "view_content h b = Some y"
  shows "strview_eq h a b = Inr (x = y)"
  using assms by (rule strview_eq_content)

definition demo_heap :: heap where
  "demo_heap = \<lparr>blocks = [0 \<mapsto> [104, 105, 104, 105]], next_blk = 1, attempts = 0,
     can_alloc = (\<lambda>i n. True), junk = (\<lambda>b i. 0)\<rparr>"

theorem strview_eq_decides_content_witness:
  "strview_eq demo_heap (make_strview (At 0 0) 2 CETYPE_EXT_UTF8) (make_strview (At 0 2) 2 CETYPE_EXT_UTF8)
     = Inr True"
proof -
  have "view_content demo_heap (make_strview (At 0 0) 2 CETYPE_EXT_UTF8) = Some (Str [104, 105] CETYPE_EXT_UTF8)"
    "view_content demo_heap (make_strview (At 0 2) 2 CETYPE_EXT_UTF8) = Some (Str [104, 105] CETYPE_EXT_UTF8)"
    by (simp_all add: view_content_Str strview_is_na_def demo_heap_def cetype_defs)
  from strview_eq_decides_content [OF this] show ?thesis by simp
qed

end
