(* ===== verification/Cp_Detail.thy ===== *)
theory Cp_Detail
  imports Cp_Types "HOL-Library.While_Combinator"
begin

unbundle bit_operations_syntax

text \<open>
  The R-free helpers of \<open>inst/include/charport/charvec/detail.h\<close>: the ASCII scan in its
  portable and its AVX2 form, the limits on R strings, the checked size arithmetic and the
  two rounding functions. Sizes are 64-bit words, so every sum and product wraps as in C++
  unless the code tests it first.
\<close>

section \<open>ASCII scan\<close>

text \<open>The portable loop over the bytes \<open>p8[0], ..., p8[len - 1]\<close>.\<close>

fun check_ascii :: "u8 list \<Rightarrow> bool" where
  "check_ascii [] = True"
| "check_ascii (b # p8) = (if b > 127 then False else check_ascii p8)"

text \<open>
  The AVX2 form. A vector register is the list of its bytes; \<open>_mm256_or_si256\<close> is the
  lane-wise OR and \<open>movemask_epi8\<close> collects the top bit of every lane.
\<close>

definition or_lanes :: "u8 list \<Rightarrow> u8 list \<Rightarrow> u8 list" where
  "or_lanes xs ys = map2 (OR) xs ys"

fun movemask_epi8 :: "u8 list \<Rightarrow> nat" where
  "movemask_epi8 [] = 0"
| "movemask_epi8 (b # lanes) = (if bit b 7 then 1 else 0) + 2 * movemask_epi8 lanes"

function avx2_main :: "u8 list \<Rightarrow> nat \<Rightarrow> u8 list \<Rightarrow> u8 list \<times> nat" where
  "avx2_main p8 i acc =
     (if i + 32 \<le> length p8
      then avx2_main p8 (i + 32) (or_lanes acc (take 32 (drop i p8)))
      else (acc, i))"
  by pat_completeness auto
termination
  by (relation "measure (\<lambda>(p8, i, acc). length p8 - i)") auto

declare avx2_main.simps [simp del]

definition avx2_tail :: "u8 list \<Rightarrow> nat \<Rightarrow> bool" where
  "avx2_tail p8 i =
     (if i + 16 \<le> length p8
      then if movemask_epi8 (take 16 (drop i p8)) \<noteq> 0 then False
           else check_ascii (drop (i + 16) p8)
      else check_ascii (drop i p8))"

definition check_ascii_avx2 :: "u8 list \<Rightarrow> bool" where
  "check_ascii_avx2 p8 =
     (if 32 \<le> length p8
      then let (acc, i) = avx2_main p8 0 (replicate 32 0)
           in if movemask_epi8 acc \<noteq> 0 then False else avx2_tail p8 i
      else avx2_tail p8 0)"

section \<open>Limits\<close>

definition r_string_size_max :: u32 where
  "r_string_size_max = 2147483647"

text \<open>\<open>check_r_string_len\<close> for the unsigned argument types (\<open>size_t\<close>, \<open>uint64_t\<close>,
  \<open>uint32_t\<close>, each widened to 64 bits) and for \<open>int\<close>.\<close>

definition check_r_string_len :: "u64 \<Rightarrow> bool" where
  "check_r_string_len value \<longleftrightarrow> value \<le> ucast r_string_size_max"

definition check_r_string_len_int :: "c_int \<Rightarrow> bool" where
  "check_r_string_len_int value \<longleftrightarrow>
     0 \<le> sint value \<and> (scast value :: u64) \<le> ucast r_string_size_max"

section \<open>Checked arithmetic\<close>

definition checked_u32 :: "size_t \<Rightarrow> string \<Rightarrow> fault + u32" where
  "checked_u32 n what =
     (if n > ucast UINT32_MAX then Inl (Runtime_error (what @ '' exceeds uint32_t storage''))
      else Inr (ucast n))"

definition checked_add_size :: "size_t \<Rightarrow> size_t \<Rightarrow> string \<Rightarrow> fault + size_t" where
  "checked_add_size lhs rhs what =
     (if lhs > SIZE_MAX - rhs then Inl (Runtime_error (what @ '' overflow'')) else Inr (lhs + rhs))"

definition checked_mul_size :: "size_t \<Rightarrow> size_t \<Rightarrow> string \<Rightarrow> fault + size_t" where
  "checked_mul_size lhs rhs what =
     (if lhs \<noteq> 0 \<and> rhs > SIZE_MAX div lhs then Inl (Runtime_error (what @ '' overflow''))
      else Inr (lhs * rhs))"

section \<open>Rounding\<close>

definition round_up :: "size_t \<Rightarrow> size_t \<Rightarrow> size_t" where
  "round_up value multiple =
     (if value = 0 \<or> multiple = 0 then value
      else let rem = value mod multiple
           in if rem = 0 then value else value + (multiple - rem))"

definition npot_guard :: "size_t \<Rightarrow> size_t \<Rightarrow> bool" where
  "npot_guard value out \<longleftrightarrow> out < value \<and> out \<le> drop_bit 1 SIZE_MAX"

definition npot_step :: "size_t \<Rightarrow> size_t" where
  "npot_step out = push_bit 1 out"

definition next_power_of_two :: "size_t \<Rightarrow> size_t" where
  "next_power_of_two value =
     (if value \<le> 1 then 1
      else let out = while (npot_guard value) npot_step 1
           in if out < value then value else out)"

section \<open>The ASCII scans agree\<close>

definition ascii :: "u8 list \<Rightarrow> bool" where
  "ascii bs \<longleftrightarrow> (\<forall>b \<in> set bs. b \<le> 127)"

lemma ascii_simps [simp]:
  "ascii []" "ascii (b # bs) \<longleftrightarrow> b \<le> 127 \<and> ascii bs"
  by (simp_all add: ascii_def)

lemma ascii_append [simp]: "ascii (xs @ ys) \<longleftrightarrow> ascii xs \<and> ascii ys"
  by (auto simp: ascii_def)

lemma ascii_replicate_0 [simp]: "ascii (replicate n 0)"
  by (simp add: ascii_def)

lemma ascii_take_drop: "ascii bs \<longleftrightarrow> ascii (take n bs) \<and> ascii (drop n bs)"
  by (subst append_take_drop_id [of n bs, symmetric]) (rule ascii_append)

lemma check_ascii_iff: "check_ascii p8 \<longleftrightarrow> ascii p8"
  by (induction p8) (auto simp: not_less)

lemma bit7_iff: "bit (b :: u8) 7 \<longleftrightarrow> \<not> b \<le> 127"
proof -
  have b: "unat b < 256" by (rule unat_u8_bound)
  have "bit b 7 \<longleftrightarrow> bit (unat b) 7" by (simp add: bit_unsigned_iff)
  also have "\<dots> \<longleftrightarrow> odd (unat b div 2 ^ 7)" by (rule bit_iff_odd)
  also have "unat b div 2 ^ 7 = (if unat b \<le> 127 then 0 else 1)"
    using b by (auto simp: div_nat_eqI)
  finally show ?thesis by (simp add: word_le_nat_alt)
qed

lemma movemask_eq_0_iff: "movemask_epi8 lanes = 0 \<longleftrightarrow> ascii lanes"
  by (induction lanes) (auto simp: bit7_iff)

lemma or_le_127_iff: "(a OR b :: u8) \<le> 127 \<longleftrightarrow> a \<le> 127 \<and> b \<le> 127"
  using bit7_iff [of "a OR b"] bit7_iff [of a] bit7_iff [of b] by (auto simp: bit_or_iff)

lemma or_lanes_ascii:
  "length xs = length ys \<Longrightarrow> ascii (or_lanes xs ys) \<longleftrightarrow> ascii xs \<and> ascii ys"
  unfolding or_lanes_def by (induction xs ys rule: list_induct2) (auto simp: or_le_127_iff)

lemma avx2_main_spec:
  assumes "length acc = 32" and "i \<le> length p8" and "avx2_main p8 i acc = (s, j)"
  shows "i \<le> j \<and> j \<le> length p8 \<and>
    (ascii s \<longleftrightarrow> ascii acc \<and> ascii (take (j - i) (drop i p8)))"
  using assms
proof (induction p8 i acc rule: avx2_main.induct)
  case (1 p8 i acc)
  show ?case
  proof (cases "i + 32 \<le> length p8")
    case True
    let ?load = "take 32 (drop i p8)"
    have len: "length acc = length ?load" using True "1.prems" by simp
    have step: "avx2_main p8 (i + 32) (or_lanes acc ?load) = (s, j)"
      using True "1.prems" by (simp add: avx2_main.simps [of p8 i])
    have "length (or_lanes acc ?load) = 32" using len "1.prems" by (simp add: or_lanes_def)
    from "1.IH" [OF True this _ step] True
    have ih: "i + 32 \<le> j" "j \<le> length p8"
      "ascii s \<longleftrightarrow> ascii (or_lanes acc ?load) \<and> ascii (take (j - (i + 32)) (drop (i + 32) p8))"
      by simp_all
    have "take (j - i) (drop i p8) = ?load @ take (j - (i + 32)) (drop (i + 32) p8)"
      using ih(1) take_add [of 32 "j - (i + 32)" "drop i p8"] by (simp add: add.commute)
    with ih or_lanes_ascii [OF len] show ?thesis by auto
  next
    case False
    with "1.prems" show ?thesis by (simp add: avx2_main.simps [of p8 i])
  qed
qed

lemma avx2_tail_iff: "avx2_tail p8 i \<longleftrightarrow> ascii (drop i p8)"
proof (cases "i + 16 \<le> length p8")
  case True
  have "drop i p8 = take 16 (drop i p8) @ drop (i + 16) p8"
    by (metis append_take_drop_id drop_drop add.commute)
  then have "ascii (drop i p8) \<longleftrightarrow> ascii (take 16 (drop i p8)) \<and> ascii (drop (i + 16) p8)"
    by (metis ascii_append)
  with True show ?thesis
    unfolding avx2_tail_def movemask_eq_0_iff check_ascii_iff by argo
next
  case False
  then show ?thesis unfolding avx2_tail_def check_ascii_iff by argo
qed

lemma check_ascii_avx2_iff: "check_ascii_avx2 p8 \<longleftrightarrow> ascii p8"
proof (cases "32 \<le> length p8")
  case True
  obtain s j where m: "avx2_main p8 0 (replicate 32 0) = (s, j)" by force
  have "length (replicate 32 (0 :: u8)) = 32" and "0 \<le> length p8" by simp_all
  from avx2_main_spec [OF this m] have "ascii s \<longleftrightarrow> ascii (take j p8)" by simp
  with True m ascii_take_drop [of p8 j] show ?thesis
    by (simp add: check_ascii_avx2_def movemask_eq_0_iff avx2_tail_iff)
next
  case False
  then show ?thesis by (simp add: check_ascii_avx2_def avx2_tail_iff)
qed

section \<open>Limits and checked arithmetic, as facts about numbers\<close>

lemma check_r_string_len_iff [simp]: "check_r_string_len v \<longleftrightarrow> unat v \<le> 2147483647"
  by (simp add: check_r_string_len_def r_string_size_max_def word_le_nat_alt)

lemma check_r_string_len_int_iff: "check_r_string_len_int v \<longleftrightarrow> 0 \<le> sint v"
  by (auto simp: check_r_string_len_int_def r_string_size_max_def word_le_nat_alt
      sint_nonneg_iff unat_scast_nonneg)

lemma checked_u32_cases:
  "checked_u32 n what =
     (if unat n < 4294967296 then Inr (ucast n)
      else Inl (Runtime_error (what @ '' exceeds uint32_t storage'')))"
  by (auto simp: checked_u32_def word_less_nat_alt)

lemma checked_add_size_cases:
  "checked_add_size a b what =
     (if unat a + unat b < 18446744073709551616 then Inr (a + b)
      else Inl (Runtime_error (what @ '' overflow'')))"
proof -
  have "unat (SIZE_MAX - b) = 18446744073709551615 - unat b"
    by (subst unat_sub) (simp_all add: word_le_nat_alt, use unat_u64_bound [of b] in simp)
  then show ?thesis
    using unat_u64_bound [of b] by (auto simp: checked_add_size_def word_less_nat_alt)
qed

lemma mult_le_div_iff: "0 < a \<Longrightarrow> (b \<le> m div a) = (a * b \<le> (m :: nat))"
  by (simp add: less_eq_div_iff_mult_less_eq mult.commute)

lemma checked_mul_size_cases:
  "checked_mul_size a b what =
     (if unat a * unat b < 18446744073709551616 then Inr (a * b)
      else Inl (Runtime_error (what @ '' overflow'')))"
proof (cases "a = 0")
  case True
  then show ?thesis by (simp add: checked_mul_size_def)
next
  case False
  then have pos: "0 < unat a" by (simp add: unat_gt_0)
  have "b > SIZE_MAX div a \<longleftrightarrow> \<not> unat b \<le> 18446744073709551615 div unat a"
    by (simp add: word_less_nat_alt unat_div not_le)
  also have "\<dots> \<longleftrightarrow> \<not> unat a * unat b \<le> 18446744073709551615"
    using mult_le_div_iff [OF pos] by simp
  finally show ?thesis using False by (auto simp: checked_mul_size_def)
qed

section \<open>Rounding, as facts about numbers\<close>

lemma round_up_spec:
  assumes m: "0 < unat m" and fit: "unat v + unat m \<le> 18446744073709551616"
  shows "unat m dvd unat (round_up v m) \<and> unat v \<le> unat (round_up v m) \<and>
    unat (round_up v m) < unat v + unat m"
proof (cases "v = 0 \<or> unat v mod unat m = 0")
  case True
  then have "v = 0 \<or> v mod m = 0" by (metis unat_mod unat_eq_zero)
  then have "round_up v m = v" by (auto simp: round_up_def Let_def)
  with True m show ?thesis by auto
next
  case False
  let ?r = "unat v mod unat m"
  have r: "0 < ?r" "?r < unat m" using False m by simp_all
  have "v mod m \<noteq> 0" using False by (metis unat_mod unat_0)
  moreover have "m \<noteq> 0" using m by auto
  ultimately have ru: "round_up v m = v + (m - v mod m)" using False by (simp add: round_up_def)
  have "unat (m - v mod m) = unat m - ?r"
    using r by (subst unat_sub) (simp_all add: word_le_nat_alt unat_mod)
  moreover have "unat v + (unat m - ?r) < 18446744073709551616" using r fit by linarith
  ultimately have u: "unat (round_up v m) = unat v + (unat m - ?r)"
    by (simp add: ru unat_add_u64)
  have "(unat v div unat m + 1) * unat m = unat v div unat m * unat m + unat m" by simp
  then have "unat v + (unat m - ?r) = (unat v div unat m + 1) * unat m"
    using r div_mult_mod_eq [of "unat v" "unat m"] by linarith
  then have "unat m dvd unat (round_up v m)" by (simp add: u)
  with u r show ?thesis by simp
qed

lemma round_up_0 [simp]: "round_up 0 m = 0"
  by (simp add: round_up_def)

definition npot_inv :: "size_t \<Rightarrow> size_t \<Rightarrow> bool" where
  "npot_inv v out \<longleftrightarrow> (\<exists>k \<le> 63. unat out = 2 ^ k \<and> (k = 0 \<or> 2 ^ k < 2 * unat v))"

lemma npot_inv_1: "npot_inv v 1"
  by (auto simp: npot_inv_def intro!: exI [of _ 0])

lemma npot_guard_iff:
  "npot_guard v out \<longleftrightarrow> unat out < unat v \<and> unat out < 9223372036854775808"
proof -
  have "unat (drop_bit 1 SIZE_MAX :: size_t) = 9223372036854775807" by simp
  then show ?thesis by (auto simp: npot_guard_def word_less_nat_alt word_le_nat_alt)
qed

lemma npot_step_unat:
  assumes "npot_guard v out"
  shows "unat (npot_step out) = 2 * unat out"
proof -
  have "npot_step out = 2 * out" by (simp add: npot_step_def push_bit_eq_mult)
  with assms show ?thesis by (simp add: npot_guard_iff unat_mult_u64)
qed

lemma npot_inv_step:
  assumes "npot_inv v out" and g: "npot_guard v out"
  shows "npot_inv v (npot_step out)"
proof -
  from assms obtain k where k: "k \<le> 63" "unat out = 2 ^ k" by (auto simp: npot_inv_def)
  have "(2::nat) ^ k < 2 ^ 63" using g k by (simp add: npot_guard_iff)
  then have "k < 63" using power_less_imp_less_exp [of "2 :: nat" k 63] by simp
  with k g show ?thesis
    unfolding npot_inv_def npot_step_unat [OF g]
    by (intro exI [of _ "Suc k"]) (auto simp: npot_guard_iff)
qed

lemma npot_decreases:
  assumes "npot_inv v out" and g: "npot_guard v out"
  shows "unat v - unat (npot_step out) < unat v - unat out"
proof -
  have "0 < unat out" using assms by (auto simp: npot_inv_def)
  moreover have "unat out < unat v" using g by (simp add: npot_guard_iff)
  ultimately show ?thesis unfolding npot_step_unat [OF g] by linarith
qed

lemma npot_loop_terminates: "\<exists>out. while_option (npot_guard v) npot_step 1 = Some out"
  by (rule measure_while_option_Some [where P = "npot_inv v" and f = "\<lambda>out. unat v - unat out"])
    (simp_all add: npot_inv_1 npot_inv_step npot_decreases)

lemma npot_loop_result:
  "npot_inv v (while (npot_guard v) npot_step 1) \<and>
   \<not> npot_guard v (while (npot_guard v) npot_step 1)"
  by (rule while_rule [where P = "npot_inv v" and r = "measure (\<lambda>out. unat v - unat out)"])
    (simp_all add: npot_inv_1 npot_inv_step npot_decreases)

lemma next_power_of_two_spec:
  assumes "unat v \<le> 9223372036854775808"
  shows "\<exists>k \<le> 63. unat (next_power_of_two v) = 2 ^ k \<and> unat v \<le> 2 ^ k \<and> (k = 0 \<or> 2 ^ k < 2 * unat v)"
proof (cases "v \<le> 1")
  case True
  then show ?thesis
    by (intro exI [of _ 0]) (simp add: next_power_of_two_def word_le_nat_alt)
next
  case False
  let ?out = "while (npot_guard v) npot_step 1"
  obtain k where k: "k \<le> 63" "unat ?out = 2 ^ k" "k = 0 \<or> 2 ^ k < 2 * unat v"
    using npot_loop_result [of v] by (auto simp: npot_inv_def)
  have "unat v \<le> unat ?out"
    using npot_loop_result [of v] assms by (auto simp: npot_guard_iff)
  then have "next_power_of_two v = ?out"
    using False by (simp add: next_power_of_two_def word_less_nat_alt)
  with k \<open>unat v \<le> unat ?out\<close> show ?thesis by auto
qed

lemma next_power_of_two_large:
  assumes "9223372036854775808 < unat v"
  shows "next_power_of_two v = v"
proof -
  let ?out = "while (npot_guard v) npot_step 1"
  obtain k where k: "k \<le> 63" "unat ?out = 2 ^ k"
    using npot_loop_result [of v] by (auto simp: npot_inv_def)
  have "(2::nat) ^ k \<le> 2 ^ 63" using k(1) by (rule power_increasing) simp
  with k assms have "?out < v" by (simp add: word_less_nat_alt)
  moreover have "\<not> v \<le> 1" using assms by (simp add: word_le_nat_alt)
  ultimately show ?thesis by (simp add: next_power_of_two_def)
qed

section \<open>Properties\<close>

text \<open>C39. The AVX2 scan, with its 32-byte main loop, its 16-byte step and its byte tail, and
  the portable loop give the same answer on every input: whether all bytes are at most 127.\<close>

theorem ascii_scans_agree:
  "check_ascii_avx2 p8 = check_ascii p8 \<and> (check_ascii p8 \<longleftrightarrow> set p8 \<subseteq> {b. b \<le> 127})"
  by (auto simp: check_ascii_avx2_iff check_ascii_iff ascii_def)

text \<open>\<open>round_up\<close> returns the least multiple of its second argument that is not below its
  first, whenever the sum of the two does not wrap.\<close>

theorem round_up_least_multiple:
  assumes "0 < unat m" and "unat v + unat m \<le> 18446744073709551616"
  shows "unat m dvd unat (round_up v m) \<and> unat v \<le> unat (round_up v m) \<and>
    (\<forall>k. unat m dvd k \<longrightarrow> unat v \<le> k \<longrightarrow> unat (round_up v m) \<le> k)"
proof -
  note r = round_up_spec [OF assms]
  have "unat (round_up v m) \<le> k" if k: "unat m dvd k" "unat v \<le> k" for k
  proof (rule ccontr)
    assume "\<not> unat (round_up v m) \<le> k"
    then have lt: "k < unat (round_up v m)" by simp
    have "unat m dvd unat (round_up v m) - k" using r k by (simp add: dvd_diff_nat)
    with lt have "unat m \<le> unat (round_up v m) - k" by (simp add: dvd_imp_le)
    with r k lt show False by linarith
  qed
  with r show ?thesis by blast
qed

theorem round_up_least_multiple_witness:
  "64 dvd unat (round_up 100 64) \<and> 100 \<le> unat (round_up 100 64) \<and> unat (round_up 100 64) \<le> 128"
  using round_up_least_multiple [of "64 :: size_t" 100] by simp

text \<open>C40. The doubling loop of \<open>next_power_of_two\<close> terminates on every argument, and the
  result is the least power of two that is not below it; above 2 to the power 63, where there
  is none in 64 bits, it is the argument itself.\<close>

theorem next_power_of_two_total:
  "(\<exists>out. while_option (npot_guard v) npot_step 1 = Some out) \<and>
   (if unat v \<le> 2 ^ 63
    then (\<exists>k. unat (next_power_of_two v) = 2 ^ k) \<and> unat v \<le> unat (next_power_of_two v) \<and>
         {j. unat v \<le> 2 ^ j \<and> 2 ^ j < unat (next_power_of_two v)} = {}
    else next_power_of_two v = v)"
proof -
  have "(\<exists>k. unat (next_power_of_two v) = 2 ^ k) \<and> unat v \<le> unat (next_power_of_two v) \<and>
         {j. unat v \<le> 2 ^ j \<and> 2 ^ j < unat (next_power_of_two v)} = {}" if "unat v \<le> 2 ^ 63"
  proof -
    have "unat v \<le> 9223372036854775808" using that by simp
    from next_power_of_two_spec [OF this] obtain k where k: "unat (next_power_of_two v) = 2 ^ k"
      "unat v \<le> 2 ^ k" "k = 0 \<or> 2 ^ k < 2 * unat v" by blast
    have "\<not> (unat v \<le> 2 ^ j \<and> (2 :: nat) ^ j < 2 ^ k)" for j
    proof
      assume j: "unat v \<le> 2 ^ j \<and> (2 :: nat) ^ j < 2 ^ k"
      then have "Suc j \<le> k" by simp
      then have "(2 :: nat) ^ Suc j \<le> 2 ^ k" by (rule power_increasing) simp
      with j k(3) \<open>Suc j \<le> k\<close> show False by simp
    qed
    with k show ?thesis by auto
  qed
  then show ?thesis
    using npot_loop_terminates next_power_of_two_large by (simp add: not_le)
qed

text \<open>The checked size operations never wrap: each either returns the exact sum or
  product of its arguments or throws, and it throws exactly when 64 bits cannot hold it.\<close>

theorem checked_sizes_exact:
  "(case checked_add_size a b what of
      Inr n \<Rightarrow> unat n = unat a + unat b
    | Inl e \<Rightarrow> 2 ^ 64 \<le> unat a + unat b \<and> e = Runtime_error (what @ '' overflow'')) \<and>
   (case checked_mul_size a b what of
      Inr n \<Rightarrow> unat n = unat a * unat b
    | Inl e \<Rightarrow> 2 ^ 64 \<le> unat a * unat b \<and> e = Runtime_error (what @ '' overflow'')) \<and>
   (case checked_u32 a what of
      Inr n \<Rightarrow> unat n = unat a
    | Inl e \<Rightarrow> 2 ^ 32 \<le> unat a \<and> e = Runtime_error (what @ '' exceeds uint32_t storage''))"
  by (simp add: checked_add_size_cases checked_mul_size_cases checked_u32_cases
      unat_add_u64 unat_mult_u64 unat_ucast_u32)

end
