(* ===== verification/Cp_Wire.thy ===== *)
theory Cp_Wire
  imports Cp_Detail
begin

text \<open>
  Words on the wire (\<open>src/charvec_altrep.h\<close>): \<open>memcpy\<close> of a word to and from bytes on a
  little-endian or big-endian host (the parameter \<open>le\<close>, the answer of
  \<open>charvec_host_is_little_endian\<close>), the byte swaps as the code writes them, and the readers
  and writers built on both. Buffers are byte lists; an access outside one is \<open>Undefined\<close>.
\<close>

section \<open>Words and bytes\<close>

fun le_word :: "u8 list \<Rightarrow> 'a::len word" where
  "le_word [] = 0"
| "le_word (b # bs) = ucast b OR push_bit 8 (le_word bs)"

definition le_bytes :: "nat \<Rightarrow> 'a::len word \<Rightarrow> u8 list" where
  "le_bytes k x = map (\<lambda>i. ucast (drop_bit (8 * i) x)) [0..<k]"

text \<open>A \<open>memcpy\<close> between a word of \<open>k\<close> bytes and memory.\<close>

definition load_word :: "bool \<Rightarrow> u8 list \<Rightarrow> 'a::len word" where
  "load_word le bs = le_word (if le then bs else rev bs)"

definition store_word :: "bool \<Rightarrow> nat \<Rightarrow> 'a::len word \<Rightarrow> u8 list" where
  "store_word le k x = (if le then le_bytes k x else rev (le_bytes k x))"

definition charvec_native_endian_flag :: "bool \<Rightarrow> u8" where
  "charvec_native_endian_flag le = (if le then 1 else 2)"

definition charvec_bswap32 :: "u32 \<Rightarrow> u32" where
  "charvec_bswap32 x =
     push_bit 24 (x AND 0x000000ff) OR
     push_bit 8 (x AND 0x0000ff00) OR
     drop_bit 8 (x AND 0x00ff0000) OR
     drop_bit 24 (x AND 0xff000000)"

definition charvec_bswap64 :: "u64 \<Rightarrow> u64" where
  "charvec_bswap64 x =
     push_bit 56 (x AND 0x00000000000000ff) OR
     push_bit 40 (x AND 0x000000000000ff00) OR
     push_bit 24 (x AND 0x0000000000ff0000) OR
     push_bit 8 (x AND 0x00000000ff000000) OR
     drop_bit 8 (x AND 0x000000ff00000000) OR
     drop_bit 24 (x AND 0x0000ff0000000000) OR
     drop_bit 40 (x AND 0x00ff000000000000) OR
     drop_bit 56 (x AND 0xff00000000000000)"

section \<open>Buffers\<close>

definition get_bytes :: "u8 list \<Rightarrow> nat \<Rightarrow> nat \<Rightarrow> fault + u8 list" where
  "get_bytes raw off k = (if off + k \<le> length raw then Inr (take k (drop off raw)) else Inl Undefined)"

definition put_bytes :: "u8 list \<Rightarrow> nat \<Rightarrow> u8 list \<Rightarrow> fault + u8 list" where
  "put_bytes raw off ys = (if off + length ys \<le> length raw then Inr (patch raw off ys) else Inl Undefined)"

definition charvec_read_u64 :: "bool \<Rightarrow> u8 list \<Rightarrow> nat \<Rightarrow> bool \<Rightarrow> fault + u64" where
  "charvec_read_u64 le raw off swap =
     (case get_bytes raw off 8 of
        Inl e \<Rightarrow> Inl e
      | Inr bs \<Rightarrow> Inr (let out = load_word le bs in if swap then charvec_bswap64 out else out))"

definition charvec_read_u32 :: "bool \<Rightarrow> u8 list \<Rightarrow> nat \<Rightarrow> bool \<Rightarrow> fault + u32" where
  "charvec_read_u32 le raw off swap =
     (case get_bytes raw off 4 of
        Inl e \<Rightarrow> Inl e
      | Inr bs \<Rightarrow> Inr (let out = load_word le bs in if swap then charvec_bswap32 out else out))"

definition charvec_read_u32_advance :: "bool \<Rightarrow> u8 list \<Rightarrow> nat \<Rightarrow> bool \<Rightarrow> fault + u32 \<times> nat" where
  "charvec_read_u32_advance le raw off swap =
     (case charvec_read_u32 le raw off swap of Inl e \<Rightarrow> Inl e | Inr x \<Rightarrow> Inr (x, off + 4))"

definition charvec_write_u64_le :: "bool \<Rightarrow> u8 list \<Rightarrow> nat \<Rightarrow> u64 \<Rightarrow> fault + u8 list" where
  "charvec_write_u64_le le raw off x =
     put_bytes raw off (store_word le 8 (if le then x else charvec_bswap64 x))"

definition charvec_write_u32_le :: "bool \<Rightarrow> u8 list \<Rightarrow> nat \<Rightarrow> u32 \<Rightarrow> fault + u8 list" where
  "charvec_write_u32_le le raw off x =
     put_bytes raw off (store_word le 4 (if le then x else charvec_bswap32 x))"

section \<open>Bits of words and bytes\<close>

lemma bit_le_word:
  "bit (le_word bs :: 'a::len word) n \<longleftrightarrow>
     n < LENGTH('a) \<and> n < 8 * length bs \<and> bit (bs ! (n div 8)) (n mod 8)"
proof (induction bs arbitrary: n)
  case Nil
  then show ?case by simp
next
  case (Cons b bs)
  show ?case
  proof (cases "n < 8")
    case True
    then show ?thesis by (auto simp: bit_or_iff bit_push_bit_iff bit_ucast_iff)
  next
    case False
    then have nd: "n div 8 = Suc ((n - 8) div 8)" and nm: "n mod 8 = (n - 8) mod 8"
      by (simp_all add: le_div_geq le_mod_geq not_less)
    have "\<not> bit (ucast b :: 'a word) n"
      using False bit_imp_le_length [of b n] by (auto simp: bit_ucast_iff)
    moreover have "bit (push_bit 8 (le_word bs) :: 'a word) n \<longleftrightarrow> n < LENGTH('a) \<and> bit (le_word bs :: 'a word) (n - 8)"
      using False by (auto simp: bit_push_bit_iff)
    ultimately show ?thesis
      using False Cons.IH [of "n - 8"] nd nm by (auto simp: bit_or_iff)
  qed
qed

lemma length_le_bytes [simp]: "length (le_bytes k x) = k"
  by (simp add: le_bytes_def)

lemma length_store_word [simp]: "length (store_word le k x) = k"
  by (simp add: store_word_def)

lemma bit_le_bytes:
  "i < k \<Longrightarrow> m < 8 \<Longrightarrow> bit (le_bytes k x ! i) m \<longleftrightarrow> bit x (8 * i + m)"
  by (simp add: le_bytes_def bit_ucast_iff bit_drop_bit_eq add.commute)

lemma le_word_bytes:
  assumes "LENGTH('a::len) \<le> 8 * k"
  shows "(le_word (le_bytes k x) :: 'a word) = x"
proof (rule bit_word_eqI)
  fix n assume n: "n < LENGTH('a)"
  have "n div 8 < k" using n assms by (simp add: div_less_iff_less_mult mult.commute)
  then have "bit (le_bytes k x ! (n div 8)) (n mod 8) \<longleftrightarrow> bit x (8 * (n div 8) + n mod 8)"
    by (rule bit_le_bytes) simp
  moreover have "8 * (n div 8) + n mod 8 = n" by simp
  ultimately show "bit (le_word (le_bytes k x) :: 'a word) n = bit x n"
    using n assms by (simp only: bit_le_word length_le_bytes) auto
qed

lemma load_store_word: "LENGTH('a::len) \<le> 8 * k \<Longrightarrow> load_word le (store_word le k x) = (x :: 'a word)"
  by (simp add: load_word_def store_word_def le_word_bytes)

lemma le_bytes_word:
  assumes "length bs = k" and "8 * k \<le> LENGTH('a::len)"
  shows "le_bytes k (le_word bs :: 'a word) = bs"
proof (rule nth_equalityI)
  show "length (le_bytes k (le_word bs :: 'a word)) = length bs" using assms by simp
  fix i assume "i < length (le_bytes k (le_word bs :: 'a word))"
  then have i: "i < k" by simp
  show "le_bytes k (le_word bs :: 'a word) ! i = bs ! i"
  proof (rule bit_word_eqI)
    fix m assume "m < LENGTH(8)"
    then have m: "m < 8" by simp
    have "(8 * i + m) div 8 = i" "(8 * i + m) mod 8 = m" using m by simp_all
    moreover have "8 * i + m < 8 * k" using i m by simp
    ultimately show "bit (le_bytes k (le_word bs :: 'a word) ! i) m = bit (bs ! i) m"
      using assms by (simp add: bit_le_bytes [OF i m] bit_le_word)
  qed
qed

lemma store_load_word:
  "length bs = k \<Longrightarrow> 8 * k \<le> LENGTH('a::len) \<Longrightarrow> store_word le k (load_word le bs :: 'a word) = bs"
  by (simp add: load_word_def store_word_def le_bytes_word)

section \<open>Byte swaps\<close>

text \<open>The masks as shifted bytes.\<close>

lemma byte_masks32:
  "(0x000000ff :: u32) = mask 8" "(0x0000ff00 :: u32) = push_bit 8 (mask 8)"
  "(0x00ff0000 :: u32) = push_bit 16 (mask 8)" "(0xff000000 :: u32) = push_bit 24 (mask 8)"
  by (simp_all add: mask_eq_exp_minus_1 push_bit_eq_mult)

lemma byte_masks64:
  "(0x00000000000000ff :: u64) = mask 8" "(0x000000000000ff00 :: u64) = push_bit 8 (mask 8)"
  "(0x0000000000ff0000 :: u64) = push_bit 16 (mask 8)" "(0x00000000ff000000 :: u64) = push_bit 24 (mask 8)"
  "(0x000000ff00000000 :: u64) = push_bit 32 (mask 8)" "(0x0000ff0000000000 :: u64) = push_bit 40 (mask 8)"
  "(0x00ff000000000000 :: u64) = push_bit 48 (mask 8)" "(0xff00000000000000 :: u64) = push_bit 56 (mask 8)"
  by (simp_all add: mask_eq_exp_minus_1 push_bit_eq_mult)

lemma bit_bswap32:
  assumes "m < 8" and "j < 4"
  shows "bit (charvec_bswap32 x) (8 * j + m) = bit x (8 * (3 - j) + m)"
proof -
  consider "j = 0" | "j = 1" | "j = 2" | "j = 3" using assms(2) by linarith
  then show ?thesis
    unfolding charvec_bswap32_def byte_masks32
    by cases (use assms(1) in \<open>auto simp: bit_or_iff bit_and_iff bit_push_bit_iff bit_drop_bit_eq bit_mask_iff add.commute\<close>)
qed

lemma bit_bswap64:
  assumes "m < 8" and "j < 8"
  shows "bit (charvec_bswap64 x) (8 * j + m) = bit x (8 * (7 - j) + m)"
proof -
  consider "j = 0" | "j = 1" | "j = 2" | "j = 3" | "j = 4" | "j = 5" | "j = 6" | "j = 7"
    using assms(2) by linarith
  then show ?thesis
    unfolding charvec_bswap64_def byte_masks64
    by cases (use assms(1) in \<open>auto simp: bit_or_iff bit_and_iff bit_push_bit_iff bit_drop_bit_eq bit_mask_iff add.commute\<close>)
qed

lemma bswap32_le_word:
  assumes "length bs = 4"
  shows "charvec_bswap32 (le_word bs) = le_word (rev bs)"
proof (rule bit_word_eqI)
  fix n assume "n < LENGTH(32)"
  then have n: "n div 8 < 4" "n mod 8 < 8" and e: "8 * (n div 8) + n mod 8 = n" by simp_all
  have r: "3 - n div 8 < 4" "(8 * (3 - n div 8) + n mod 8) div 8 = 3 - n div 8"
    "(8 * (3 - n div 8) + n mod 8) mod 8 = n mod 8" "8 * (3 - n div 8) + n mod 8 < 32"
    using n by auto
  have "bit (charvec_bswap32 (le_word bs)) n = bit (le_word bs :: u32) (8 * (3 - n div 8) + n mod 8)"
    using bit_bswap32 [OF n(2,1)] e by simp
  also have "\<dots> = bit (bs ! (3 - n div 8)) (n mod 8)" using r assms by (simp add: bit_le_word)
  also have "\<dots> = bit (le_word (rev bs) :: u32) n"
    using assms n \<open>n < LENGTH(32)\<close> by (simp add: bit_le_word rev_nth)
  finally show "bit (charvec_bswap32 (le_word bs)) n = bit (le_word (rev bs) :: u32) n" .
qed

lemma bswap64_le_word:
  assumes "length bs = 8"
  shows "charvec_bswap64 (le_word bs) = le_word (rev bs)"
proof (rule bit_word_eqI)
  fix n assume "n < LENGTH(64)"
  then have n: "n div 8 < 8" "n mod 8 < 8" and e: "8 * (n div 8) + n mod 8 = n" by simp_all
  have r: "7 - n div 8 < 8" "(8 * (7 - n div 8) + n mod 8) div 8 = 7 - n div 8"
    "(8 * (7 - n div 8) + n mod 8) mod 8 = n mod 8" "8 * (7 - n div 8) + n mod 8 < 64"
    using n by auto
  have "bit (charvec_bswap64 (le_word bs)) n = bit (le_word bs :: u64) (8 * (7 - n div 8) + n mod 8)"
    using bit_bswap64 [OF n(2,1)] e by simp
  also have "\<dots> = bit (bs ! (7 - n div 8)) (n mod 8)" using r assms by (simp add: bit_le_word)
  also have "\<dots> = bit (le_word (rev bs) :: u64) n"
    using assms n \<open>n < LENGTH(64)\<close> by (simp add: bit_le_word rev_nth)
  finally show "bit (charvec_bswap64 (le_word bs)) n = bit (le_word (rev bs) :: u64) n" .
qed

lemma bswap32_bytes: "rev (le_bytes 4 x) = le_bytes 4 (charvec_bswap32 x)"
proof -
  have "charvec_bswap32 x = le_word (rev (le_bytes 4 x))"
    using bswap32_le_word [of "le_bytes 4 x"] by (simp add: le_word_bytes)
  then show ?thesis by (simp add: le_bytes_word)
qed

lemma bswap64_bytes: "rev (le_bytes 8 x) = le_bytes 8 (charvec_bswap64 x)"
proof -
  have "charvec_bswap64 x = le_word (rev (le_bytes 8 x))"
    using bswap64_le_word [of "le_bytes 8 x"] by (simp add: le_word_bytes)
  then show ?thesis by (simp add: le_bytes_word)
qed

lemma bswap32_involutive [simp]: "charvec_bswap32 (charvec_bswap32 x) = x"
proof -
  have "le_bytes 4 (charvec_bswap32 (charvec_bswap32 x)) = le_bytes 4 x"
    unfolding bswap32_bytes [symmetric] by (rule rev_rev_ident)
  then have "le_word (le_bytes 4 (charvec_bswap32 (charvec_bswap32 x))) = (le_word (le_bytes 4 x) :: u32)"
    by (rule arg_cong)
  then show ?thesis by (simp add: le_word_bytes)
qed

lemma bswap64_involutive [simp]: "charvec_bswap64 (charvec_bswap64 x) = x"
proof -
  have "le_bytes 8 (charvec_bswap64 (charvec_bswap64 x)) = le_bytes 8 x"
    unfolding bswap64_bytes [symmetric] by (rule rev_rev_ident)
  then have "le_word (le_bytes 8 (charvec_bswap64 (charvec_bswap64 x))) = (le_word (le_bytes 8 x) :: u64)"
    by (rule arg_cong)
  then show ?thesis by (simp add: le_word_bytes)
qed

section \<open>Host-independent reading and writing\<close>

text \<open>The value of a field whose bytes are in the order \<open>lsb\<close> first, whatever the host.\<close>

definition wire_word :: "bool \<Rightarrow> u8 list \<Rightarrow> 'a::len word" where
  "wire_word lsb bs = le_word (if lsb then bs else rev bs)"

text \<open>A reader swaps when the order differs from the host's.\<close>

lemma read_u64_wire:
  "charvec_read_u64 le raw off (lsb \<noteq> le) =
     (if off + 8 \<le> length raw then Inr (wire_word lsb (take 8 (drop off raw))) else Inl Undefined)"
  by (auto simp: charvec_read_u64_def get_bytes_def load_word_def wire_word_def bswap64_le_word Let_def)

lemma read_u32_wire:
  "charvec_read_u32 le raw off (lsb \<noteq> le) =
     (if off + 4 \<le> length raw then Inr (wire_word lsb (take 4 (drop off raw))) else Inl Undefined)"
  by (auto simp: charvec_read_u32_def get_bytes_def load_word_def wire_word_def bswap32_le_word Let_def)

lemma write_u64_wire: "charvec_write_u64_le le raw off x = put_bytes raw off (le_bytes 8 x)"
  using bswap64_bytes [of "charvec_bswap64 x"] by (simp add: charvec_write_u64_le_def store_word_def)

lemma write_u32_wire: "charvec_write_u32_le le raw off x = put_bytes raw off (le_bytes 4 x)"
  using bswap32_bytes [of "charvec_bswap32 x"] by (simp add: charvec_write_u32_le_def store_word_def)

lemma wire_word_le_bytes:
  "LENGTH('a::len) \<le> 8 * k \<Longrightarrow> wire_word True (le_bytes k x) = (x :: 'a word)"
  by (simp add: wire_word_def le_word_bytes)

lemma get_put_bytes:
  assumes "put_bytes raw off ys = Inr raw'"
  shows "length raw' = length raw" and "get_bytes raw' off (length ys) = Inr ys"
    and "off + length ys \<le> length raw"
    and "\<And>j k. j + k \<le> off \<or> off + length ys \<le> j \<Longrightarrow> get_bytes raw' j k = get_bytes raw j k"
  using assms by (auto simp: put_bytes_def get_bytes_def take_drop_patch_same take_drop_patch_other
      split: if_splits)

section \<open>Properties\<close>

text \<open>What the package writes on one host it reads back on any other: a \<open>u64\<close> or \<open>u32\<close>
  field written by \<open>charvec_write_u64_le\<close> or \<open>charvec_write_u32_le\<close>, on a host of either
  byte order, is the same number to \<open>charvec_read_u64\<close> or \<open>charvec_read_u32_advance\<close> on a host
  of either byte order that swaps when the flag (1, little-endian) is not its own; the write
  keeps the buffer's size and every byte outside the field.\<close>

theorem wire_fields_cross_host:
  assumes "charvec_write_u64_le le raw off x = Inr raw1"
    and "charvec_write_u32_le le raw off' y = Inr raw2"
  shows "charvec_read_u64 le' raw1 off (1 \<noteq> charvec_native_endian_flag le') = Inr x \<and>
    charvec_read_u32_advance le' raw2 off' (1 \<noteq> charvec_native_endian_flag le') = Inr (y, off' + 4) \<and>
    take off raw1 = take off raw \<and> drop (off + 8) raw1 = drop (off + 8) raw \<and>
    take off' raw2 = take off' raw \<and> drop (off' + 4) raw2 = drop (off' + 4) raw"
proof -
  have sw: "(1 \<noteq> charvec_native_endian_flag le') = (True \<noteq> le')"
    by (simp add: charvec_native_endian_flag_def)
  note p1 = assms(1) [unfolded write_u64_wire] and p2 = assms(2) [unfolded write_u32_wire]
  have "charvec_read_u64 le' raw1 off (1 \<noteq> charvec_native_endian_flag le') = Inr x"
    unfolding sw using get_put_bytes(2,3) [OF p1] get_put_bytes(1) [OF p1]
    by (subst read_u64_wire) (auto simp: get_bytes_def wire_word_le_bytes)
  moreover have "charvec_read_u32_advance le' raw2 off' (1 \<noteq> charvec_native_endian_flag le') = Inr (y, off' + 4)"
    unfolding sw charvec_read_u32_advance_def using get_put_bytes(2,3) [OF p2] get_put_bytes(1) [OF p2]
    by (subst read_u32_wire) (auto simp: get_bytes_def wire_word_le_bytes)
  moreover have "take off raw1 = take off raw" "drop (off + 8) raw1 = drop (off + 8) raw"
    "take off' raw2 = take off' raw" "drop (off' + 4) raw2 = drop (off' + 4) raw"
    using p1 p2 by (auto simp: put_bytes_def patch_def split: if_splits)
  ultimately show ?thesis by blast
qed

theorem wire_fields_cross_host_witness:
  "charvec_write_u64_le False (replicate 9 0) 1 0x0102030405060708 = Inr [0, 8, 7, 6, 5, 4, 3, 2, 1] \<and>
   charvec_read_u64 True [0, 8, 7, 6, 5, 4, 3, 2, 1] 1 (1 \<noteq> charvec_native_endian_flag True)
     = Inr 0x0102030405060708"
proof -
  have w: "charvec_write_u64_le False (replicate 9 0) 1 0x0102030405060708 = Inr [0, 8, 7, 6, 5, 4, 3, 2, 1]"
    by code_simp
  have v: "charvec_write_u32_le False (replicate 9 0) 0 7 = Inr [7, 0, 0, 0, 0, 0, 0, 0, 0]"
    by code_simp
  from w wire_fields_cross_host [OF w v, of True] show ?thesis by simp
qed

end
