(* ===== verification/Cp_Slices.thy ===== *)
theory Cp_Slices
  imports Cp_Detail
begin

text \<open>
  \<open>SliceChain\<close> of \<open>inst/include/charport/charvec/store.h\<close>: the singly linked list of payload
  slices a store owns. It is modelled twice. The linked operations (\<open>ll_...\<close>) are the code's
  own loops over the \<open>next\<close> pointers of the nodes. The list operations (\<open>slice_...\<close>) are the
  contract the rest of the development uses: a chain is the list of its slices, head first.
  The locale \<open>slice_chain\<close> states the contract, both implementations interpret it, and what
  its clients need (splicing the chains of several shards into a store) is proved in it once.
\<close>

section \<open>The linked nodes\<close>

text \<open>
  The state is the \<open>next\<close> field of every live node; a chain is its \<open>head_\<close> pointer. A walk
  through a dead node, or one that never reaches a null pointer, has no result (\<open>None\<close>).
\<close>

type_synonym links = "blk \<rightharpoonup> blk option"

definition ll_push_front :: "blk \<Rightarrow> blk option \<Rightarrow> links \<Rightarrow> blk option \<times> links" where
  "ll_push_front node head lk = (Some node, lk(node \<mapsto> head))"

fun ll_data_slice :: "links \<Rightarrow> blk option \<Rightarrow> nat \<Rightarrow> blk option option" where
  "ll_data_slice lk None idx = Some None"
| "ll_data_slice lk (Some node) 0 = Some (Some node)"
| "ll_data_slice lk (Some node) (Suc idx) =
     (case lk node of None \<Rightarrow> None | Some nx \<Rightarrow> ll_data_slice lk nx idx)"

partial_function (option) ll_count :: "links \<Rightarrow> blk option \<Rightarrow> nat \<Rightarrow> nat option" where
  "ll_count lk node cnt =
     (case node of
        None \<Rightarrow> Some cnt
      | Some b \<Rightarrow> (case lk b of None \<Rightarrow> None | Some nx \<Rightarrow> ll_count lk nx (Suc cnt)))"

partial_function (option) ll_clear :: "links \<Rightarrow> blk option \<Rightarrow> (blk option \<times> links) option" where
  "ll_clear lk head =
     (case head of
        None \<Rightarrow> Some (None, lk)
      | Some b \<Rightarrow> (case lk b of None \<Rightarrow> None | Some nx \<Rightarrow> ll_clear (lk(b := None)) nx))"

partial_function (option) ll_tail :: "links \<Rightarrow> blk \<Rightarrow> blk option" where
  "ll_tail lk tail =
     (case lk tail of
        None \<Rightarrow> None
      | Some nx \<Rightarrow> (case nx of None \<Rightarrow> Some tail | Some b \<Rightarrow> ll_tail lk b))"

text \<open>\<open>prepend(other)\<close>: the new head of this chain, the head left in \<open>other\<close>, the nodes.\<close>

definition ll_prepend ::
    "blk option \<Rightarrow> blk option \<Rightarrow> links \<Rightarrow> (blk option \<times> blk option \<times> links) option" where
  "ll_prepend other head lk =
     (case other of
        None \<Rightarrow> Some (head, other, lk)
      | Some b \<Rightarrow>
          (case ll_tail lk b of
             None \<Rightarrow> None
           | Some tail \<Rightarrow> Some (Some b, None, lk(tail \<mapsto> head))))"

section \<open>Chains as lists\<close>

text \<open>
  The operations on the list of slices. \<open>slice_push_front\<close> is \<open>push_front\<close> with
  \<open>allocate\<close>: the node's header is \<open>sizeof(Slice)\<close>, 8 bytes, in front of the payload.
\<close>

definition slice_push_front :: "size_t \<Rightarrow> blk list \<Rightarrow> heap \<Rightarrow> (fault + ptr) \<times> blk list \<times> heap" where
  "slice_push_front payload_bytes slices h =
     (if payload_bytes > SIZE_MAX - 8 then (Inl Bad_alloc, slices, h)
      else (case alloc_block (8 + unat payload_bytes) (unat payload_bytes) h of
              (Inl e, h') \<Rightarrow> (Inl e, slices, h')
            | (Inr b, h') \<Rightarrow> (Inr (At b 0), b # slices, h')))"

fun slice_front_data :: "blk list \<Rightarrow> ptr" where
  "slice_front_data [] = Null"
| "slice_front_data (b # bs) = At b 0"

fun slice_data_slice :: "blk list \<Rightarrow> nat \<Rightarrow> blk option" where
  "slice_data_slice [] idx = None"
| "slice_data_slice (b # bs) 0 = Some b"
| "slice_data_slice (b # bs) (Suc idx) = slice_data_slice bs idx"

definition slice_prepend :: "blk list \<Rightarrow> blk list \<Rightarrow> blk list \<times> blk list" where
  "slice_prepend other slices = (other @ slices, [])"

fun slice_clear :: "blk list \<Rightarrow> heap \<Rightarrow> blk list \<times> heap" where
  "slice_clear [] h = ([], h)"
| "slice_clear (b # bs) h = slice_clear bs (free_block b h)"

section \<open>The contract of a chain\<close>

text \<open>
  \<open>rep s c xs\<close>: in the node state \<open>s\<close> the chain \<open>c\<close> is the list \<open>xs\<close> of slices.
\<close>

locale slice_chain =
  fixes rep :: "'s \<Rightarrow> 'c \<Rightarrow> blk list \<Rightarrow> bool"
    and empty :: "'c"
    and push :: "blk \<Rightarrow> 'c \<Rightarrow> 's \<Rightarrow> 'c \<times> 's"
    and prepend :: "'c \<Rightarrow> 'c \<Rightarrow> 's \<Rightarrow> ('c \<times> 'c \<times> 's) option"
    and count :: "'s \<Rightarrow> 'c \<Rightarrow> nat option"
    and fresh :: "'s \<Rightarrow> blk \<Rightarrow> bool"
  assumes rep_empty: "rep s empty []"
    and rep_push:
      "rep s c xs \<Longrightarrow> fresh s b \<Longrightarrow> push b c s = (c', s') \<Longrightarrow> rep s' c' (b # xs)"
    and rep_push_frame:
      "rep s d ys \<Longrightarrow> fresh s b \<Longrightarrow> push b c s = (c', s') \<Longrightarrow> rep s' d ys"
    and rep_prepend:
      "rep s c xs \<Longrightarrow> rep s d ys \<Longrightarrow> set xs \<inter> set ys = {} \<Longrightarrow>
       \<exists>c' s'. prepend d c s = Some (c', empty, s') \<and> rep s' c' (ys @ xs)"
    and rep_prepend_frame:
      "rep s c xs \<Longrightarrow> rep s d ys \<Longrightarrow> prepend d c s = Some (c', d', s') \<Longrightarrow>
       rep s e zs \<Longrightarrow> set ys \<inter> set zs = {} \<Longrightarrow> rep s' e zs"
    and rep_count: "rep s c xs \<Longrightarrow> count s c = Some (length xs)"
begin

text \<open>Splicing a list of chains in order, as the builders' \<open>finish_store\<close> loops do.\<close>

fun splice_all :: "'c list \<Rightarrow> 'c \<Rightarrow> 's \<Rightarrow> ('c \<times> 's) option" where
  "splice_all [] c s = Some (c, s)"
| "splice_all (d # ds) c s =
     (case prepend d c s of None \<Rightarrow> None | Some (c', d', s') \<Rightarrow> splice_all ds c' s')"

lemma splice_all_rep:
  assumes "rep s c xs" and "list_all2 (rep s) ds yss"
    and "distinct (concat (xs # yss))"
  shows "\<exists>c' s'. splice_all ds c s = Some (c', s') \<and> rep s' c' (concat (rev yss) @ xs)"
  using assms
proof (induction ds arbitrary: c s xs yss)
  case Nil
  then show ?case by simp
next
  case (Cons d ds)
  from Cons.prems(2) obtain ys zss where yss: "yss = ys # zss"
    and d: "rep s d ys" and ds: "list_all2 (rep s) ds zss" by (auto simp: list_all2_Cons1)
  have disj: "set xs \<inter> set ys = {}" using Cons.prems(3) yss by auto
  obtain c' s' where p: "prepend d c s = Some (c', empty, s')" and c': "rep s' c' (ys @ xs)"
    using rep_prepend [OF Cons.prems(1) d disj] by auto
  have "list_all2 (rep s') ds zss"
  proof (rule list_all2_all_nthI)
    show "length ds = length zss" using ds by (rule list_all2_lengthD)
    fix k assume k: "k < length ds"
    with ds have kz: "k < length zss" by (simp add: list_all2_lengthD)
    then have "set (zss ! k) \<subseteq> set (concat zss)" by (metis nth_mem set_concat UN_upper)
    then have "set ys \<inter> set (zss ! k) = {}" using Cons.prems(3) yss by auto
    moreover have "rep s (ds ! k) (zss ! k)" using ds k by (rule list_all2_nthD)
    ultimately show "rep s' (ds ! k) (zss ! k)"
      using rep_prepend_frame [OF Cons.prems(1) d p] by blast
  qed
  moreover have "distinct (concat ((ys @ xs) # zss))" using Cons.prems(3) yss by auto
  ultimately show ?case using Cons.IH [OF c'] yss p by auto
qed

end

section \<open>The linked chain meets the contract\<close>

fun chain :: "links \<Rightarrow> blk option \<Rightarrow> blk list \<Rightarrow> bool" where
  "chain lk c [] \<longleftrightarrow> c = None"
| "chain lk c (b # bs) \<longleftrightarrow> c = Some b \<and> (\<exists>nx. lk b = Some nx \<and> chain lk nx bs)"

lemma chain_live: "chain lk c xs \<Longrightarrow> b \<in> set xs \<Longrightarrow> lk b \<noteq> None"
  by (induction xs arbitrary: c) auto

lemma chain_frame:
  "chain lk c xs \<Longrightarrow> (\<And>b. b \<in> set xs \<Longrightarrow> lk' b = lk b) \<Longrightarrow> chain lk' c xs"
  by (induction xs arbitrary: c) auto

lemma chain_unique: "chain lk c xs \<Longrightarrow> chain lk c ys \<Longrightarrow> xs = ys"
proof (induction xs arbitrary: c ys)
  case Nil
  then show ?case by (cases ys) auto
next
  case (Cons x xs)
  then show ?case by (cases ys) auto
qed

lemma chain_suffix: "chain lk c (xs @ b # ys) \<Longrightarrow> chain lk (Some b) (b # ys)"
  by (induction xs arbitrary: c) auto

text \<open>A chain that ends is acyclic: the same node twice would have two different tails.\<close>

lemma chain_distinct: "chain lk c xs \<Longrightarrow> distinct xs"
proof (rule ccontr)
  assume ch: "chain lk c xs" and "\<not> distinct xs"
  then obtain us vs ws b where "xs = us @ [b] @ vs @ [b] @ ws"
    using not_distinct_decomp by blast
  then have xs: "xs = us @ b # (vs @ b # ws)" and xs': "xs = (us @ b # vs) @ b # ws" by simp_all
  have "chain lk (Some b) (b # (vs @ b # ws))" using ch xs by (metis chain_suffix)
  moreover have "chain lk (Some b) (b # ws)" using ch xs' by (metis chain_suffix)
  ultimately have "b # vs @ b # ws = b # ws" by (rule chain_unique)
  then show False by simp
qed

lemma ll_count_chain: "chain lk c xs \<Longrightarrow> ll_count lk c k = Some (k + length xs)"
  by (induction xs arbitrary: c k) (auto simp: ll_count.simps)

lemma ll_tail_chain: "chain lk (Some b) (b # bs) \<Longrightarrow> ll_tail lk b = Some (last (b # bs))"
proof (induction bs arbitrary: b)
  case Nil
  then show ?case by (simp add: ll_tail.simps)
next
  case (Cons x bs)
  then have "chain lk (Some x) (x # bs)" and "lk b = Some (Some x)" by auto
  with Cons.IH show ?case by (simp add: ll_tail.simps [of lk b])
qed

lemma ll_data_slice_chain:
  "chain lk c xs \<Longrightarrow> ll_data_slice lk c idx = Some (slice_data_slice xs idx)"
proof (induction xs arbitrary: c idx)
  case Nil
  then show ?case by simp
next
  case (Cons b bs)
  then show ?case by (cases idx) auto
qed

lemma ll_clear_chain:
  "chain lk c xs \<Longrightarrow> ll_clear lk c = Some (None, lk |` (- set xs))"
proof (induction xs arbitrary: c lk)
  case Nil
  then show ?case by (simp add: ll_clear.simps)
next
  case (Cons b bs)
  then obtain nx where c: "c = Some b" and nx: "lk b = Some nx" and ch: "chain lk nx bs" by auto
  have "b \<notin> set bs" using chain_distinct [OF Cons.prems] by simp
  then have "chain (lk(b := None)) nx bs" by (intro chain_frame [OF ch]) auto
  then have "ll_clear (lk(b := None)) nx = Some (None, (lk(b := None)) |` (- set bs))"
    by (rule Cons.IH)
  moreover have "(lk(b := None)) |` (- set bs) = lk |` (- set (b # bs))"
    by (auto simp: restrict_map_def fun_eq_iff)
  ultimately show ?case
    using nx unfolding c by (subst ll_clear.simps) (simp del: fun_upd_apply)
qed

lemma chain_append:
  assumes "chain lk c (b # bs)" and "chain lk d xs" and "set (b # bs) \<inter> set xs = {}"
  shows "chain (lk(last (b # bs) \<mapsto> d)) c ((b # bs) @ xs)"
  using assms chain_distinct [OF assms(1)]
proof (induction bs arbitrary: b c)
  case Nil
  have "chain (lk(b \<mapsto> d)) d xs" using Nil.prems by (intro chain_frame [OF Nil.prems(2)]) auto
  with Nil.prems(1) show ?case by (simp del: fun_upd_apply add: fun_upd_same)
next
  case (Cons x bs)
  then have x: "chain lk (Some x) (x # bs)" and b: "c = Some b" "lk b = Some (Some x)" by auto
  have ne: "b \<noteq> last (x # bs)" using Cons.prems(4) by (metis distinct.simps(2) last_in_set list.distinct(1))
  have "chain (lk(last (x # bs) \<mapsto> d)) (Some x) ((x # bs) @ xs)"
    by (rule Cons.IH [OF x Cons.prems(2)]) (use Cons.prems(3,4) in auto)
  with b ne show ?case by (simp del: fun_upd_apply add: fun_upd_other)
qed

lemma ll_prepend_chain:
  assumes "chain lk c xs" and "chain lk d ys" and "set xs \<inter> set ys = {}"
  shows "\<exists>c' lk'. ll_prepend d c lk = Some (c', None, lk') \<and> chain lk' c' (ys @ xs)"
proof (cases ys)
  case Nil
  with assms show ?thesis by (simp add: ll_prepend_def)
next
  case (Cons b bs)
  with assms(2) have d: "d = Some b" by simp
  with assms Cons have "ll_tail lk b = Some (last ys)" by (simp add: ll_tail_chain)
  moreover have "set (b # bs) \<inter> set xs = {}" using assms(3) Cons by auto
  then have "chain (lk(last ys \<mapsto> c)) d (ys @ xs)"
    using chain_append [of lk d b bs c xs] assms(1,2) Cons by blast
  ultimately show ?thesis by (simp add: ll_prepend_def d)
qed

lemma ll_prepend_frame:
  assumes "chain lk d ys" and "ll_prepend d c lk = Some (c', d', lk')"
    and "chain lk e zs" and "set ys \<inter> set zs = {}"
  shows "chain lk' e zs"
proof (cases ys)
  case Nil
  with assms show ?thesis by (simp add: ll_prepend_def)
next
  case (Cons b bs)
  with assms(1) have d: "d = Some b" by simp
  with assms(1) Cons have "ll_tail lk b = Some (last ys)" by (simp add: ll_tail_chain)
  with assms(2) d have "lk' = lk(last ys \<mapsto> c)" by (auto simp: ll_prepend_def)
  moreover have "last ys \<in> set ys" using Cons by simp
  ultimately show ?thesis using assms(3,4) by (intro chain_frame [OF assms(3)]) auto
qed

lemma ll_push_front_chain:
  assumes "chain lk c xs" and "lk b = None" and "ll_push_front b d lk = (c', lk')"
  shows "chain lk' c xs" and "d = c \<Longrightarrow> chain lk' c' (b # xs)"
proof -
  have "b \<notin> set xs" using assms(1,2) chain_live by blast
  then have "chain (lk(b \<mapsto> d)) c xs" by (intro chain_frame [OF assms(1)]) auto
  then show "chain lk' c xs" and "d = c \<Longrightarrow> chain lk' c' (b # xs)"
    using assms(3) by (auto simp: ll_push_front_def)
qed

interpretation linked: slice_chain chain None ll_push_front ll_prepend
    "\<lambda>lk c. ll_count lk c 0" "\<lambda>lk b. lk b = None"
proof
  show "chain s None []" for s by simp
  show "chain s' c' (b # xs)"
    if "chain s c xs" "s b = None" "ll_push_front b c s = (c', s')" for s c xs b c' s'
    using ll_push_front_chain(2) [OF that refl] .
  show "chain s' d ys"
    if "chain s d ys" "s b = None" "ll_push_front b c s = (c', s')" for s d ys b c c' s'
    using ll_push_front_chain(1) [OF that] .
  show "\<exists>c' s'. ll_prepend d c s = Some (c', None, s') \<and> chain s' c' (ys @ xs)"
    if "chain s c xs" "chain s d ys" "set xs \<inter> set ys = {}" for s c xs d ys
    using that by (rule ll_prepend_chain)
  show "chain s' e zs"
    if "chain s c xs" "chain s d ys" "ll_prepend d c s = Some (c', d', s')"
      "chain s e zs" "set ys \<inter> set zs = {}" for s c xs d ys c' d' s' e zs
    using ll_prepend_frame [OF that(2-5)] .
  show "ll_count s c 0 = Some (length xs)" if "chain s c xs" for s c xs
    using ll_count_chain [OF that, of 0] by simp
qed

interpretation listed: slice_chain "\<lambda>s c xs. c = xs" "[]" "\<lambda>b c s. (b # c, s)"
    "\<lambda>d c s. Some (fst (slice_prepend d c), snd (slice_prepend d c), s)"
    "\<lambda>s c. Some (length c)" "\<lambda>s b. True"
  by unfold_locales (auto simp: slice_prepend_def)

section \<open>Pushing a slice\<close>

lemma slice_push_front_fail:
  "slice_push_front n ss h = (Inl e, ss', h') \<Longrightarrow>
     e = Bad_alloc \<and> ss' = ss \<and> blocks h' = blocks h \<and> next_blk h' = next_blk h"
  by (auto simp: slice_push_front_def dest: alloc_block_fail split: if_splits prod.splits sum.splits)

lemma slice_push_front_can_alloc: "slice_push_front n ss h = (r, ss', h') \<Longrightarrow> can_alloc h' = can_alloc h"
  by (auto simp: slice_push_front_def dest: alloc_block_can_alloc split: if_splits prod.splits sum.splits)

lemma slice_push_front_oom:
  assumes "slice_push_front n ss h = (Inl e, ss', h')" and "n \<le> SIZE_MAX - 8"
  shows "\<exists>i m. \<not> can_alloc h i m"
proof -
  from assms have "alloc_block (8 + unat n) (unat n) h = (Inl e, h')"
    by (auto simp: slice_push_front_def not_less split: prod.splits sum.splits if_splits)
  from alloc_block_oom [OF this] show ?thesis by blast
qed

lemma slice_push_front_ok:
  assumes "slice_push_front n ss h = (Inr p, ss', h')" and "heap_ok h"
  shows "\<exists>b bs. p = At b 0 \<and> ss' = b # ss \<and> blocks h b = None \<and> length bs = unat n \<and>
    blocks h' = (blocks h)(b \<mapsto> bs) \<and> next_blk h' = Suc b \<and> heap_ok h' \<and> keeps_live h h'"
proof -
  from assms(1) obtain b where a: "alloc_block (8 + unat n) (unat n) h = (Inr b, h')"
    and p: "p = At b 0" "ss' = b # ss"
    by (auto simp: slice_push_front_def split: if_splits prod.splits sum.splits)
  from alloc_block_ok [OF a] have "blocks h b = None" using assms(2) by (simp add: heap_ok_def)
  moreover have "length (map (junk h b) [0..<unat n]) = unat n" by simp
  ultimately show ?thesis
    using alloc_block_ok [OF a] alloc_block_keeps [OF assms(2) a] alloc_block_heap_ok [OF assms(2) a] p
    by blast
qed

section \<open>Properties\<close>

text \<open>C38. The pointer code of \<open>SliceChain\<close> implements a list of slices: splicing any number of
  disjoint chains onto one, as the builders' \<open>finish_store\<close> loops do, ends (every walk to a
  tail does) in the chain of all their slices, last chain first; counting it gives the total,
  indexing it gives the slice at that position, and clearing it frees those nodes and no other.\<close>

theorem linked_splice_is_concat:
  assumes "chain lk c xs" and "list_all2 (chain lk) ds yss" and "distinct (concat (xs # yss))"
  shows "\<exists>c' lk'. linked.splice_all ds c lk = Some (c', lk') \<and>
    chain lk' c' (concat (rev yss) @ xs) \<and>
    ll_count lk' c' 0 = Some (length (concat (rev yss) @ xs)) \<and>
    (\<forall>i. ll_data_slice lk' c' i = Some (slice_data_slice (concat (rev yss) @ xs) i)) \<and>
    ll_clear lk' c' = Some (None, lk' |` (- set (concat (rev yss) @ xs)))"
proof -
  obtain c' lk' where s: "linked.splice_all ds c lk = Some (c', lk')"
    and ch: "chain lk' c' (concat (rev yss) @ xs)"
    using linked.splice_all_rep [OF assms] by blast
  from s ch linked.rep_count [OF ch] ll_data_slice_chain [OF ch] ll_clear_chain [OF ch]
  show ?thesis by (intro exI conjI allI)
qed

theorem linked_splice_is_concat_witness:
  "\<exists>c' lk'. linked.splice_all [Some 2, Some 4] (Some 1)
       [1 \<mapsto> None, 2 \<mapsto> Some 3, 3 \<mapsto> None, 4 \<mapsto> None] = Some (c', lk') \<and>
     chain lk' c' [4, 2, 3, 1]"
proof -
  let ?lk = "[1 \<mapsto> None, 2 \<mapsto> Some 3, 3 \<mapsto> None, 4 \<mapsto> None] :: links"
  have "chain ?lk (Some 1) [1]" "list_all2 (chain ?lk) [Some 2, Some 4] [[2, 3], [4]]"
    "distinct (concat ([1] # [[2, 3], [4 :: blk]]))" by simp_all
  from linked_splice_is_concat [OF this] show ?thesis by auto
qed

end
