(* ===== verification/Cp_Records.thy ===== *)
theory Cp_Records
  imports Cp_Slices
begin

text \<open>
  \<open>RecordTable\<close> of \<open>inst/include/charport/charvec/store.h\<close>: three parallel arrays (pointer,
  length, encoding) with a size and a capacity. A cell of a fresh array is uninitialised
  (\<open>None\<close>) until it is written; reading such a cell, or any access outside an array, is
  undefined. Sizes are naturals here: every size is compared with the maximum capacity
  (2 to the power 52) before any arithmetic, so none of it can wrap.
\<close>

section \<open>The table\<close>

record record_table =
  rt_ptrs :: "ptr option list"
  rt_lens :: "c_int option list"
  rt_encs :: "cetype_ext_t option list"
  vector_length :: nat
  capacity :: nat

definition rt_empty :: record_table where
  "rt_empty = \<lparr>rt_ptrs = [], rt_lens = [], rt_encs = [], vector_length = 0, capacity = 0\<rparr>"

definition max_capacity :: nat where
  "max_capacity =
     min (unat R_XLEN_T_MAX)
       (min (unat SIZE_MAX div 8) (min (unat SIZE_MAX div 4) (unat SIZE_MAX div 1)))"

definition cell :: "'a option list \<Rightarrow> nat \<Rightarrow> fault + 'a" where
  "cell xs i =
     (if i < length xs then (case xs ! i of None \<Rightarrow> Inl Undefined | Some v \<Rightarrow> Inr v)
      else Inl Undefined)"

definition rt_length :: "record_table \<Rightarrow> nat \<Rightarrow> fault + c_int" where
  "rt_length t i = cell (rt_lens t) i"

definition rt_encoding :: "record_table \<Rightarrow> nat \<Rightarrow> fault + cetype_ext_t" where
  "rt_encoding t i = cell (rt_encs t) i"

definition rt_byteview :: "record_table \<Rightarrow> nat \<Rightarrow> fault + charport_byteview" where
  "rt_byteview t i =
     (case cell (rt_ptrs t) i of
        Inl e \<Rightarrow> Inl e
      | Inr p \<Rightarrow> (case cell (rt_lens t) i of
                   Inl e \<Rightarrow> Inl e
                 | Inr l \<Rightarrow> Inr (make_byteview p l)))"

definition rt_view :: "record_table \<Rightarrow> nat \<Rightarrow> fault + charport_strview" where
  "rt_view t i =
     (case cell (rt_ptrs t) i of
        Inl e \<Rightarrow> Inl e
      | Inr p \<Rightarrow>
          (case cell (rt_lens t) i of
             Inl e \<Rightarrow> Inl e
           | Inr l \<Rightarrow>
               (case cell (rt_encs t) i of
                  Inl e \<Rightarrow> Inl e
                | Inr c \<Rightarrow> Inr (make_strview p l c))))"

definition rt_set :: "record_table \<Rightarrow> nat \<Rightarrow> ptr \<Rightarrow> c_int \<Rightarrow> cetype_ext_t \<Rightarrow> fault + record_table" where
  "rt_set t i p l c =
     (if i < length (rt_ptrs t) \<and> i < length (rt_lens t) \<and> i < length (rt_encs t)
      then Inr (t\<lparr>rt_ptrs := (rt_ptrs t)[i := Some p],
                   rt_lens := (rt_lens t)[i := Some l],
                   rt_encs := (rt_encs t)[i := Some c]\<rparr>)
      else Inl Undefined)"

definition rt_set_na :: "record_table \<Rightarrow> nat \<Rightarrow> fault + record_table" where
  "rt_set_na t i = rt_set t i Null NA_INTEGER CETYPE_EXT_NA"

text \<open>
  \<open>reserve\<close>: three array allocations, then the copies, then the swaps. A failed allocation
  throws before anything is swapped, so the table keeps its arrays.
\<close>

definition rt_reserve :: "nat \<Rightarrow> record_table \<Rightarrow> heap \<Rightarrow> (fault + unit) \<times> record_table \<times> heap" where
  "rt_reserve new_capacity t h =
     (if new_capacity \<le> capacity t then (Inr (), t, h)
      else if new_capacity > max_capacity
      then (Inl (Length_error ''charvec record table capacity exceeds maximum''), t, h)
      else
        (let (ok1, h1) = try_alloc (8 * new_capacity) h
         in if \<not> ok1 then (Inl Bad_alloc, t, h1) else
         (let (ok2, h2) = try_alloc (4 * new_capacity) h1
          in if \<not> ok2 then (Inl Bad_alloc, t, h2) else
          (let (ok3, h3) = try_alloc new_capacity h2
           in if \<not> ok3 then (Inl Bad_alloc, t, h3) else
           (let fresh = new_capacity - vector_length t
            in (Inr (),
                t\<lparr>rt_ptrs := take (vector_length t) (rt_ptrs t) @ replicate fresh None,
                   rt_lens := take (vector_length t) (rt_lens t) @ replicate fresh None,
                   rt_encs := take (vector_length t) (rt_encs t) @ replicate fresh None,
                   capacity := new_capacity\<rparr>,
                h3))))))"

text \<open>The sized constructor: \<open>reserve\<close>, then a loop that makes every record NA.\<close>

fun rt_fill_na :: "record_table \<Rightarrow> nat \<Rightarrow> nat \<Rightarrow> fault + record_table" where
  "rt_fill_na t i 0 = Inr t"
| "rt_fill_na t i (Suc k) =
     (case rt_set_na t i of Inl e \<Rightarrow> Inl e | Inr t' \<Rightarrow> rt_fill_na t' (Suc i) k)"

definition rt_new :: "nat \<Rightarrow> heap \<Rightarrow> (fault + record_table) \<times> heap" where
  "rt_new n h =
     (case rt_reserve n rt_empty h of
        (Inl e, t, h') \<Rightarrow> (Inl e, h')
      | (Inr u, t, h') \<Rightarrow> (rt_fill_na (t\<lparr>vector_length := n\<rparr>) 0 n, h'))"

text \<open>The copy constructor.\<close>

definition rt_copy :: "record_table \<Rightarrow> heap \<Rightarrow> (fault + record_table) \<times> heap" where
  "rt_copy other h =
     (case rt_reserve (capacity other) rt_empty h of
        (Inl e, t, h') \<Rightarrow> (Inl e, h')
      | (Inr u, t, h') \<Rightarrow>
          (let n = vector_length other
           in (Inr (t\<lparr>vector_length := n,
                       rt_ptrs := take n (rt_ptrs other) @ drop n (rt_ptrs t),
                       rt_lens := take n (rt_lens other) @ drop n (rt_lens t),
                       rt_encs := take n (rt_encs other) @ drop n (rt_encs t)\<rparr>), h')))"

definition rt_reserve_for_append :: "record_table \<Rightarrow> heap \<Rightarrow> (fault + unit) \<times> record_table \<times> heap" where
  "rt_reserve_for_append t h =
     (if vector_length t < capacity t then (Inr (), t, h)
      else let next = (if capacity t = 0 then 1
                       else if capacity t > max_capacity div 2 then max_capacity
                       else capacity t * 2)
           in if next \<le> capacity t
              then (Inl (Length_error ''charvec record table capacity exceeds maximum''), t, h)
              else rt_reserve next t h)"

definition rt_push_back_reserved :: "record_table \<Rightarrow> charport_strview \<Rightarrow> fault + record_table" where
  "rt_push_back_reserved t v =
     (case rt_set t (vector_length t) (sv_ptr v) (sv_len v) (sv_enc v) of
        Inl e \<Rightarrow> Inl e
      | Inr t' \<Rightarrow> Inr (t'\<lparr>vector_length := Suc (vector_length t')\<rparr>))"

definition rt_push_back ::
    "record_table \<Rightarrow> charport_strview \<Rightarrow> heap \<Rightarrow> (fault + unit) \<times> record_table \<times> heap" where
  "rt_push_back t v h =
     (case rt_reserve_for_append t h of
        (Inl e, t', h') \<Rightarrow> (Inl e, t', h')
      | (Inr u, t', h') \<Rightarrow>
          (case rt_push_back_reserved t' v of
             Inl e \<Rightarrow> (Inl e, t', h')
           | Inr t'' \<Rightarrow> (Inr (), t'', h')))"

section \<open>Well-formed tables\<close>

text \<open>The arrays have the capacity's length and the records below the size are initialised.\<close>

definition rt_ok :: "record_table \<Rightarrow> bool" where
  "rt_ok t \<longleftrightarrow>
     length (rt_ptrs t) = capacity t \<and> length (rt_lens t) = capacity t \<and>
     length (rt_encs t) = capacity t \<and> vector_length t \<le> capacity t \<and>
     capacity t \<le> max_capacity \<and>
     (\<forall>i < vector_length t. rt_ptrs t ! i \<noteq> None \<and> rt_lens t ! i \<noteq> None \<and> rt_encs t ! i \<noteq> None)"

definition rt_at :: "record_table \<Rightarrow> nat \<Rightarrow> charport_strview" where
  "rt_at t i = make_strview (the (rt_ptrs t ! i)) (the (rt_lens t ! i)) (the (rt_encs t ! i))"

lemma max_capacity_value: "max_capacity = 4503599627370496"
  by (simp add: max_capacity_def)

lemma rt_ok_empty [simp, wf_intros]: "rt_ok rt_empty"
  by (simp add: rt_ok_def rt_empty_def)

lemma vector_length_rt_empty [simp]: "vector_length rt_empty = 0"
  by (simp add: rt_empty_def)

lemma rt_ok_bound: "rt_ok t \<Longrightarrow> vector_length t \<le> 4503599627370496"
  unfolding rt_ok_def max_capacity_value by linarith

lemma rt_view_ok:
  assumes "rt_ok t" and "i < vector_length t"
  shows "rt_view t i = Inr (rt_at t i)"
proof -
  from assms have "i < capacity t" unfolding rt_ok_def by linarith
  with assms show ?thesis
    by (auto simp: rt_ok_def rt_view_def cell_def rt_at_def split: option.splits)
qed

lemma rt_length_ok: "rt_ok t \<Longrightarrow> i < vector_length t \<Longrightarrow> rt_length t i = Inr (sv_len (rt_at t i))"
  by (auto simp: rt_ok_def rt_length_def cell_def rt_at_def split: option.splits)

lemma rt_encoding_ok: "rt_ok t \<Longrightarrow> i < vector_length t \<Longrightarrow> rt_encoding t i = Inr (sv_enc (rt_at t i))"
  by (auto simp: rt_ok_def rt_encoding_def cell_def rt_at_def split: option.splits)

lemma rt_byteview_ok:
  "rt_ok t \<Longrightarrow> i < vector_length t \<Longrightarrow>
     rt_byteview t i = Inr (make_byteview (sv_ptr (rt_at t i)) (sv_len (rt_at t i)))"
  by (auto simp: rt_ok_def rt_byteview_def cell_def rt_at_def split: option.splits)

lemma rt_set_ok:
  assumes "rt_ok t" and "i < vector_length t"
  obtains t' where "rt_set t i p l c = Inr t'" and "rt_ok t'"
    and "vector_length t' = vector_length t" and "capacity t' = capacity t"
    and "\<And>j. rt_at t' j = (if j = i then make_strview p l c else rt_at t j)"
proof -
  from assms have i: "i < capacity t" unfolding rt_ok_def by linarith
  let ?t = "t\<lparr>rt_ptrs := (rt_ptrs t)[i := Some p], rt_lens := (rt_lens t)[i := Some l],
             rt_encs := (rt_encs t)[i := Some c]\<rparr>"
  have "rt_set t i p l c = Inr ?t" using assms i by (simp add: rt_set_def rt_ok_def)
  moreover have "rt_ok ?t" using assms by (auto simp: rt_ok_def nth_list_update)
  moreover have "rt_at ?t j = (if j = i then make_strview p l c else rt_at t j)" for j
    using assms i by (auto simp: rt_at_def rt_ok_def)
  ultimately show ?thesis using that by simp
qed

lemma rt_reserve_blocks:
  "rt_reserve n t h = (r, t', h') \<Longrightarrow> blocks h' = blocks h \<and> next_blk h' = next_blk h"
  by (auto simp: rt_reserve_def try_alloc_def Let_def split: if_splits)

lemma rt_reserve_fail:
  "rt_reserve n t h = (Inl e, t', h') \<Longrightarrow> e \<noteq> Undefined \<and> t' = t"
  by (auto simp: rt_reserve_def try_alloc_def Let_def split: if_splits)

lemma rt_reserve_succ:
  assumes ok: "rt_ok t" and r: "rt_reserve n t h = (Inr u, t', h')"
  shows "rt_ok t' \<and> vector_length t' = vector_length t \<and> capacity t' = max n (capacity t) \<and>
    (\<forall>i < vector_length t. rt_at t' i = rt_at t i)"
proof (cases "n \<le> capacity t")
  case True
  with ok r show ?thesis by (simp add: rt_reserve_def max_def)
next
  case False
  let ?k = "vector_length t" and ?z = "n - vector_length t"
  from False r have t': "t' = t\<lparr>rt_ptrs := take ?k (rt_ptrs t) @ replicate ?z None,
      rt_lens := take ?k (rt_lens t) @ replicate ?z None,
      rt_encs := take ?k (rt_encs t) @ replicate ?z None, capacity := n\<rparr>"
    and n: "n \<le> max_capacity"
    by (auto simp: rt_reserve_def try_alloc_def Let_def split: if_splits)
  from ok False have k: "?k \<le> capacity t" "?k \<le> n" by (auto simp: rt_ok_def)
  from ok k n show ?thesis unfolding t' rt_ok_def rt_at_def
    using False by (auto simp: nth_append max_def)
qed

lemma rt_fill_na_ok:
  assumes "length (rt_ptrs t) = capacity t" "length (rt_lens t) = capacity t"
    "length (rt_encs t) = capacity t" "vector_length t \<le> capacity t" "capacity t \<le> max_capacity"
    and "i + k = vector_length t"
    and "\<forall>j < i. rt_ptrs t ! j = Some Null \<and> rt_lens t ! j = Some NA_INTEGER \<and>
           rt_encs t ! j = Some CETYPE_EXT_NA"
  shows "\<exists>t'. rt_fill_na t i k = Inr t' \<and> rt_ok t' \<and> vector_length t' = vector_length t \<and>
    (\<forall>j < vector_length t. rt_at t' j = make_strview Null NA_INTEGER CETYPE_EXT_NA)"
  using assms
proof (induction k arbitrary: t i)
  case 0
  then show ?case by (auto simp: rt_ok_def rt_at_def)
next
  case (Suc k)
  let ?t = "t\<lparr>rt_ptrs := (rt_ptrs t)[i := Some Null], rt_lens := (rt_lens t)[i := Some NA_INTEGER],
             rt_encs := (rt_encs t)[i := Some CETYPE_EXT_NA]\<rparr>"
  have i: "i < capacity t" using Suc.prems by simp
  then have s: "rt_set_na t i = Inr ?t" using Suc.prems by (simp add: rt_set_na_def rt_set_def)
  have "\<exists>t'. rt_fill_na ?t (Suc i) k = Inr t' \<and> rt_ok t' \<and> vector_length t' = vector_length ?t \<and>
    (\<forall>j < vector_length ?t. rt_at t' j = make_strview Null NA_INTEGER CETYPE_EXT_NA)"
    by (rule Suc.IH) (use Suc.prems i in \<open>auto simp: nth_list_update less_Suc_eq\<close>)
  with s show ?case by simp
qed

lemma rt_new_ok:
  assumes "rt_new n h = (Inr t, h')"
  shows "rt_ok t \<and> vector_length t = n \<and>
    (\<forall>j < n. rt_at t j = make_strview Null NA_INTEGER CETYPE_EXT_NA)"
proof -
  obtain u t0 where r: "rt_reserve n rt_empty h = (Inr u, t0, h')"
    and f: "rt_fill_na (t0\<lparr>vector_length := n\<rparr>) 0 n = Inr t"
    using assms by (auto simp: rt_new_def split: prod.splits sum.splits)
  from rt_reserve_succ [OF rt_ok_empty r]
  have t0: "rt_ok t0" "vector_length t0 = 0" "capacity t0 = n"
    by (auto simp: rt_empty_def)
  have "\<exists>t'. rt_fill_na (t0\<lparr>vector_length := n\<rparr>) 0 n = Inr t' \<and> rt_ok t' \<and>
     vector_length t' = vector_length (t0\<lparr>vector_length := n\<rparr>) \<and>
    (\<forall>j < vector_length (t0\<lparr>vector_length := n\<rparr>). rt_at t' j = make_strview Null NA_INTEGER CETYPE_EXT_NA)"
    by (rule rt_fill_na_ok) (use t0 in \<open>auto simp: rt_ok_def\<close>)
  with f show ?thesis by auto
qed

lemma rt_new_blocks:
  "rt_new n h = (r, h') \<Longrightarrow> blocks h' = blocks h \<and> next_blk h' = next_blk h"
  by (auto simp: rt_new_def dest: rt_reserve_blocks split: prod.splits sum.splits)

lemma rt_new_fail:
  assumes "rt_new n h = (Inl e, h')"
  shows "e \<noteq> Undefined"
proof -
  obtain r t0 h0 where r: "rt_reserve n rt_empty h = (r, t0, h0)" by (metis prod_cases3)
  show ?thesis
  proof (cases r)
    case (Inl e')
    with r assms show ?thesis by (auto simp: rt_new_def dest: rt_reserve_fail)
  next
    case (Inr u)
    with rt_reserve_succ [OF rt_ok_empty, of n h u] r
    have t0: "rt_ok t0" "vector_length t0 = 0" "capacity t0 = n"
      by (auto simp: rt_empty_def)
    have "\<exists>t'. rt_fill_na (t0\<lparr>vector_length := n\<rparr>) 0 n = Inr t' \<and> rt_ok t' \<and>
       vector_length t' = vector_length (t0\<lparr>vector_length := n\<rparr>) \<and>
      (\<forall>j < vector_length (t0\<lparr>vector_length := n\<rparr>). rt_at t' j = make_strview Null NA_INTEGER CETYPE_EXT_NA)"
      by (rule rt_fill_na_ok) (use t0 in \<open>auto simp: rt_ok_def\<close>)
    with r Inr assms show ?thesis by (auto simp: rt_new_def)
  qed
qed

lemma rt_reserve_for_append_blocks:
  "rt_reserve_for_append t h = (r, t', h') \<Longrightarrow> blocks h' = blocks h \<and> next_blk h' = next_blk h"
  by (auto simp: rt_reserve_for_append_def Let_def dest: rt_reserve_blocks split: if_splits)

lemma rt_reserve_for_append_fail:
  "rt_reserve_for_append t h = (Inl e, t', h') \<Longrightarrow> e \<noteq> Undefined \<and> t' = t"
  by (auto simp: rt_reserve_for_append_def Let_def dest: rt_reserve_fail split: if_splits)

text \<open>After a successful \<open>reserve_for_append\<close> there is room for one more record, and the
  capacity has grown geometrically.\<close>

lemma rt_reserve_for_append_succ:
  assumes ok: "rt_ok t" and r: "rt_reserve_for_append t h = (Inr u, t', h')"
  shows "rt_ok t' \<and> vector_length t' = vector_length t \<and> vector_length t < capacity t' \<and>
    (\<forall>i < vector_length t. rt_at t' i = rt_at t i) \<and>
    capacity t' \<le> max (capacity t) (max 1 (2 * vector_length t))"
proof (cases "vector_length t < capacity t")
  case True
  with ok r show ?thesis by (simp add: rt_reserve_for_append_def)
next
  case False
  with ok have full: "capacity t = vector_length t" by (simp add: rt_ok_def)
  define nxt where "nxt = (if capacity t = 0 then 1
     else if capacity t > max_capacity div 2 then max_capacity else capacity t * 2)"
  from False r have gt: "capacity t < nxt" and rr: "rt_reserve nxt t h = (Inr u, t', h')"
    by (auto simp: rt_reserve_for_append_def nxt_def Let_def split: if_splits)
  have "nxt \<le> max 1 (2 * vector_length t)"
    unfolding nxt_def full max_capacity_value by (auto simp: max_def)
  with rt_reserve_succ [OF ok rr] gt full show ?thesis by auto
qed

text \<open>Within the maximum capacity only the allocator can make a reservation fail.\<close>

lemma rt_reserve_oom:
  "rt_reserve n t h = (Inl e, t', h') \<Longrightarrow> n \<le> max_capacity \<Longrightarrow> \<exists>i m. \<not> can_alloc h i m"
  by (auto simp: rt_reserve_def try_alloc_def Let_def split: if_splits)

lemma rt_reserve_for_append_oom:
  assumes "rt_ok t" and "rt_reserve_for_append t h = (Inl e, t', h')" and "vector_length t < max_capacity"
  shows "\<exists>i m. \<not> can_alloc h i m"
proof -
  define nxt where "nxt = (if capacity t = 0 then 1
     else if capacity t > max_capacity div 2 then max_capacity else capacity t * 2)"
  have n: "\<not> vector_length t < capacity t" using assms(2) by (auto simp: rt_reserve_for_append_def)
  with assms(1,3) have c: "capacity t = vector_length t" "capacity t < max_capacity" by (auto simp: rt_ok_def)
  then have "capacity t < nxt" "nxt \<le> max_capacity" by (auto simp: nxt_def max_capacity_value)
  with assms(2) n have "rt_reserve nxt t h = (Inl e, t', h')"
    by (simp add: rt_reserve_for_append_def Let_def flip: nxt_def)
  from rt_reserve_oom [OF this \<open>nxt \<le> max_capacity\<close>] show ?thesis .
qed

lemma rt_reserve_for_append_can_alloc:
  "rt_reserve_for_append t h = (r, t', h') \<Longrightarrow> can_alloc h' = can_alloc h"
  by (auto simp: rt_reserve_for_append_def rt_reserve_def try_alloc_def Let_def split: if_splits)

lemma rt_push_back_reserved_ok:
  assumes "rt_ok t" and room: "vector_length t < capacity t"
  obtains t' where "rt_push_back_reserved t v = Inr t'" and "rt_ok t'"
    and "vector_length t' = Suc (vector_length t)" and "capacity t' = capacity t"
    and "\<And>i. i < vector_length t \<Longrightarrow> rt_at t' i = rt_at t i"
    and "rt_at t' (vector_length t) = make_strview (sv_ptr v) (sv_len v) (sv_enc v)"
proof -
  let ?k = "vector_length t"
  let ?t = "t\<lparr>rt_ptrs := (rt_ptrs t)[?k := Some (sv_ptr v)], rt_lens := (rt_lens t)[?k := Some (sv_len v)],
             rt_encs := (rt_encs t)[?k := Some (sv_enc v)], vector_length := Suc ?k\<rparr>"
  have "rt_push_back_reserved t v = Inr ?t"
    using assms by (simp add: rt_push_back_reserved_def rt_set_def rt_ok_def)
  moreover have "rt_ok ?t" using assms by (auto simp: rt_ok_def nth_list_update less_Suc_eq)
  moreover have "rt_at ?t i = rt_at t i" if "i < ?k" for i using that by (simp add: rt_at_def)
  moreover have "rt_at ?t ?k = make_strview (sv_ptr v) (sv_len v) (sv_enc v)"
    using assms by (simp add: rt_at_def rt_ok_def)
  ultimately show ?thesis using that by simp
qed

section \<open>Tables as lists of elements\<close>

text \<open>
  \<open>rt_denotes h t es\<close>: in the heap \<open>h\<close> the table holds exactly the elements \<open>es\<close>, and
  every record that is not NA points into live memory.
\<close>

definition rt_denotes :: "heap \<Rightarrow> record_table \<Rightarrow> element list \<Rightarrow> bool" where
  "rt_denotes h t es \<longleftrightarrow>
     rt_ok t \<and> length es = vector_length t \<and>
     (\<forall>i < vector_length t. view_content h (rt_at t i) = Some (es ! i))"

lemma rt_denotesD:
  assumes "rt_denotes h t es"
  shows "rt_ok t" and "length es = vector_length t"
    and "\<And>i. i < vector_length t \<Longrightarrow> view_content h (rt_at t i) = Some (es ! i)"
  using assms by (simp_all add: rt_denotes_def)

lemma rt_denotes_unique: "rt_denotes h t xs \<Longrightarrow> rt_denotes h t ys \<Longrightarrow> xs = ys"
  by (rule nth_equalityI) (auto simp: rt_denotes_def)

lemma rt_denotes_keeps_live:
  "rt_denotes h t es \<Longrightarrow> keeps_live h h' \<Longrightarrow> rt_denotes h' t es"
  by (simp add: rt_denotes_def view_content_keeps_live)

lemma view_content_na_record [simp]:
  "view_content h (make_strview Null NA_INTEGER CETYPE_EXT_NA) = Some NA"
  by (simp add: view_content_NA strview_is_na_def)

lemma rt_new_denotes:
  assumes "rt_new n h = (Inr t, h')"
  shows "rt_denotes h' t (replicate n NA)"
  using rt_new_ok [OF assms] by (simp add: rt_denotes_def)

lemma rt_denotes_set:
  assumes d: "rt_denotes h t es" and i: "i < vector_length t"
    and set: "rt_set t i p l c = Inr t'" and v: "view_content h (make_strview p l c) = Some x"
  shows "rt_denotes h t' (es[i := x])"
proof -
  obtain t'' where t'': "rt_set t i p l c = Inr t''" "rt_ok t''" "vector_length t'' = vector_length t"
    and at: "\<And>j. rt_at t'' j = (if j = i then make_strview p l c else rt_at t j)"
    using rt_set_ok [OF rt_denotesD(1) [OF d] i] by metis
  with set have "t' = t''" by simp
  with t'' at v d i show ?thesis by (auto simp: rt_denotes_def nth_list_update)
qed

section \<open>Properties\<close>

text \<open>Making room for one more record keeps every record, leaves room, and grows the
  capacity geometrically (at most to twice the size), so a run of appends copies each record
  a bounded number of times on average; a failed growth leaves the table as it was.\<close>

theorem reserve_for_append_grows:
  assumes "rt_ok t" and "rt_reserve_for_append t h = (r, t', h')"
  shows "case r of
      Inr u \<Rightarrow> rt_ok t' \<and> vector_length t' = vector_length t \<and> vector_length t < capacity t' \<and>
        map (rt_at t') [0..<vector_length t] = map (rt_at t) [0..<vector_length t] \<and>
        capacity t \<le> capacity t' \<and> capacity t' \<le> max (capacity t) (max 1 (2 * vector_length t))
    | Inl e \<Rightarrow> t' = t \<and> (e = Bad_alloc \<or> vector_length t = max_capacity)"
proof (cases r)
  case (Inl e)
  with assms(2) have f: "rt_reserve_for_append t h = (Inl e, t', h')" by simp
  have "e = Bad_alloc \<or> vector_length t = max_capacity"
  proof (cases "vector_length t < capacity t")
    case True
    with f show ?thesis by (simp add: rt_reserve_for_append_def)
  next
    case False
    with assms(1) have c: "capacity t = vector_length t" "vector_length t \<le> max_capacity"
      by (simp_all add: rt_ok_def)
    have two: "max_capacity div 2 * 2 = max_capacity" by (simp add: max_capacity_value)
    from f False c two show ?thesis
      by (auto simp: rt_reserve_for_append_def rt_reserve_def try_alloc_def Let_def max_capacity_value
          split: if_splits)
  qed
  with Inl rt_reserve_for_append_fail [OF f] show ?thesis by simp
next
  case (Inr u)
  with assms(2) have s: "rt_reserve_for_append t h = (Inr u, t', h')" by simp
  note g = rt_reserve_for_append_succ [OF assms(1) s]
  have "capacity t \<le> capacity t'"
    using g assms(1) by (cases "vector_length t < capacity t")
      (use s in \<open>auto simp: rt_reserve_for_append_def rt_ok_def\<close>)
  with g Inr show ?thesis by simp
qed

theorem reserve_for_append_grows_witness:
  "case rt_reserve_for_append rt_empty demo_heap of
     (r, t', h') \<Rightarrow> r = Inr () \<and> vector_length rt_empty < capacity t' \<and> capacity t' \<le> 1"
proof -
  obtain r t' h' where f: "rt_reserve_for_append rt_empty demo_heap = (r, t', h')" by (metis prod_cases3)
  from f have "r = Inr ()"
    by (auto simp: rt_reserve_for_append_def rt_reserve_def rt_empty_def max_capacity_value
        try_alloc_def demo_heap_def)
  with f reserve_for_append_grows [OF rt_ok_empty f] show ?thesis by (simp add: rt_empty_def)
qed

end
