(* ===== verification/Cp_Store.thy ===== *)
theory Cp_Store
  imports Cp_Records
begin

text \<open>
  \<open>Store\<close> of \<open>inst/include/charport/charvec/store.h\<close> (a slice chain and a record table),
  with the record constants of its namespace; and the contract under which payload bytes are
  handed out. The locale \<open>region_allocator\<close> states what every allocator of payload room
  promises: the room it returns is live, owned and shares no byte with any room it returned
  before. In it we prove, once for all builders and the writer, that filling such room adds
  exactly one string and disturbs no other.
\<close>

section \<open>Records and sizes\<close>

definition empty_data :: ptr where
  "empty_data = Empty"

definition na_record :: charport_strview where
  "na_record = make_strview Null NA_INTEGER CETYPE_EXT_NA"

definition empty_record :: "cetype_ext_t \<Rightarrow> charport_strview" where
  "empty_record c = make_strview empty_data 0 c"

definition checked_string_size :: "size_t \<Rightarrow> string \<Rightarrow> fault + c_int" where
  "checked_string_size l what =
     (if \<not> check_r_string_len l then Inl (Runtime_error (what @ '' exceeds R string size''))
      else Inr (ucast l))"

section \<open>The store\<close>

record store =
  st_slices :: "blk list"
  st_records :: record_table

definition store_empty :: store where
  "store_empty = \<lparr>st_slices = [], st_records = rt_empty\<rparr>"

definition store_new :: "nat \<Rightarrow> size_t \<Rightarrow> heap \<Rightarrow> (fault + store) \<times> heap" where
  "store_new vector_size initial_slice_bytes h =
     (case rt_new vector_size h of
        (Inl e, h') \<Rightarrow> (Inl e, h')
      | (Inr t, h') \<Rightarrow>
          if 0 < initial_slice_bytes
          then (case slice_push_front initial_slice_bytes [] h' of
                  (Inl e, ss, h'') \<Rightarrow> (Inl e, h'')
                | (Inr p, ss, h'') \<Rightarrow> (Inr \<lparr>st_slices = ss, st_records = t\<rparr>, h''))
          else (Inr \<lparr>st_slices = [], st_records = t\<rparr>, h'))"

text \<open>\<open>Store::scalar\<close>. The local \<open>out\<close> is destroyed if something throws after its slice
  was allocated; nothing does.\<close>

definition store_set_records :: "store \<Rightarrow> fault + record_table \<Rightarrow> fault + store" where
  "store_set_records st r = (case r of Inl e \<Rightarrow> Inl e | Inr t \<Rightarrow> Inr (st\<lparr>st_records := t\<rparr>))"

definition store_scalar :: "ptr \<Rightarrow> size_t \<Rightarrow> cetype_ext_t \<Rightarrow> heap \<Rightarrow> (fault + store) \<times> heap" where
  "store_scalar src nbytes c h =
     (if src = Null \<or> c = CETYPE_EXT_NA
      then (case store_new 1 0 h of
              (Inl e, h') \<Rightarrow> (Inl e, h')
            | (Inr out, h') \<Rightarrow> (store_set_records out (rt_set_na (st_records out) 0), h'))
      else
        (case checked_string_size nbytes ''stored string length'' of
           Inl e \<Rightarrow> (Inl e, h)
         | Inr l \<Rightarrow>
             (case store_new 1 nbytes h of
                (Inl e, h') \<Rightarrow> (Inl e, h')
              | (Inr out, h') \<Rightarrow>
                  if l = 0 then (store_set_records out (rt_set (st_records out) 0 empty_data 0 c), h')
                  else
                    (let dest = slice_front_data (st_slices out)
                     in case memcpy h' dest src (unat nbytes) of
                          (Inl e, h'') \<Rightarrow> (Inl e, h'')
                        | (Inr u, h'') \<Rightarrow>
                            (store_set_records out (rt_set (st_records out) 0 dest l c), h'')))))"

definition store_size :: "store \<Rightarrow> nat" where
  "store_size st = vector_length (st_records st)"

definition store_view :: "store \<Rightarrow> nat \<Rightarrow> fault + charport_strview" where
  "store_view st i = rt_view (st_records st) i"

text \<open>The destructor frees the slices (the arrays are outside the byte heap).\<close>

definition store_free :: "store \<Rightarrow> heap \<Rightarrow> heap" where
  "store_free st h = snd (slice_clear (st_slices st) h)"

section \<open>Tables as lists of views\<close>

definition rt_views :: "record_table \<Rightarrow> charport_strview list" where
  "rt_views t = map (rt_at t) [0..<vector_length t]"

lemma length_rt_views [simp]: "length (rt_views t) = vector_length t"
  by (simp add: rt_views_def)

lemma nth_rt_views [simp]: "i < vector_length t \<Longrightarrow> rt_views t ! i = rt_at t i"
  by (simp add: rt_views_def)

lemma rt_denotes_iff:
  "rt_denotes h t es \<longleftrightarrow> rt_ok t \<and> list_all2 (\<lambda>v e. view_content h v = Some e) (rt_views t) es"
  by (auto simp: rt_denotes_def list_all2_conv_all_nth)

lemma rt_set_views:
  assumes "rt_ok t" and "i < vector_length t" and "rt_set t i p l c = Inr t'"
  shows "rt_ok t' \<and> rt_views t' = (rt_views t)[i := make_strview p l c]"
proof -
  obtain t'' where t'': "rt_set t i p l c = Inr t''" "rt_ok t''" "vector_length t'' = vector_length t"
    and at: "\<And>j. rt_at t'' j = (if j = i then make_strview p l c else rt_at t j)"
    using rt_set_ok [OF assms(1,2)] by metis
  have "rt_views t'' = (rt_views t)[i := make_strview p l c]"
    by (rule nth_equalityI) (auto simp: t'' at nth_list_update)
  with t'' assms(3) show ?thesis by simp
qed

lemma rt_set_succ: "rt_ok t \<Longrightarrow> i < vector_length t \<Longrightarrow> \<exists>t'. rt_set t i p l c = Inr t'"
  using rt_set_ok [of t i p l c] by blast

lemma rt_reserve_for_append_views:
  assumes "rt_ok t" and "rt_reserve_for_append t h = (Inr u, t', h')"
  shows "rt_ok t' \<and> vector_length t' < capacity t' \<and> rt_views t' = rt_views t"
proof -
  note r = rt_reserve_for_append_succ [OF assms]
  then have "rt_views t' = rt_views t" by (intro nth_equalityI) auto
  with r show ?thesis by auto
qed

lemma rt_push_back_reserved_views:
  assumes "rt_ok t" and "vector_length t < capacity t"
  obtains t' where "rt_push_back_reserved t v = Inr t'" and "rt_ok t'"
    and "rt_views t' = rt_views t @ [make_strview (sv_ptr v) (sv_len v) (sv_enc v)]"
proof -
  obtain t' where t': "rt_push_back_reserved t v = Inr t'" "rt_ok t'"
    "vector_length t' = Suc (vector_length t)"
    "\<And>i. i < vector_length t \<Longrightarrow> rt_at t' i = rt_at t i"
    "rt_at t' (vector_length t) = make_strview (sv_ptr v) (sv_len v) (sv_enc v)"
    using rt_push_back_reserved_ok [OF assms, of v] by metis
  have "rt_views t' = rt_views t @ [make_strview (sv_ptr v) (sv_len v) (sv_enc v)]"
    by (rule nth_equalityI) (auto simp: t' nth_append less_Suc_eq)
  with t' that show ?thesis by blast
qed

text \<open>Records whose payload regions share no byte.\<close>

definition rec_apart :: "charport_strview \<Rightarrow> charport_strview \<Rightarrow> bool" where
  "rec_apart v w \<longleftrightarrow>
     strview_is_na v \<or> strview_is_na w \<or> sv_len v = 0 \<or> sv_len w = 0 \<or>
     disjoint (sv_ptr v) (unat (sv_len v)) (sv_ptr w) (unat (sv_len w))"

definition apart :: "charport_strview list \<Rightarrow> bool" where
  "apart vs \<longleftrightarrow> (\<forall>i < length vs. \<forall>j < length vs. i \<noteq> j \<longrightarrow> rec_apart (vs ! i) (vs ! j))"

lemma rec_apart_commute: "rec_apart v w \<longleftrightarrow> rec_apart w v"
  unfolding rec_apart_def using disjoint_sym by blast

lemma apartI:
  assumes "\<And>i j. i < j \<Longrightarrow> j < length vs \<Longrightarrow> rec_apart (vs ! i) (vs ! j)"
  shows "apart vs"
  unfolding apart_def using assms rec_apart_commute by (metis nat_neq_iff)

lemma apartD: "apart vs \<Longrightarrow> i < length vs \<Longrightarrow> j < length vs \<Longrightarrow> i \<noteq> j \<Longrightarrow> rec_apart (vs ! i) (vs ! j)"
  by (simp add: apart_def)

lemma apart_update:
  assumes "apart vs" and "\<And>w. w \<in> set vs \<Longrightarrow> rec_apart v w"
  shows "apart (vs[i := v])"
proof (rule apartI)
  fix j k
  assume jk: "j < k" "k < length (vs[i := v])"
  then have "rec_apart v (vs ! j)" "rec_apart v (vs ! k)" using assms(2) by simp_all
  with jk apartD [OF assms(1), of j k] show "rec_apart (vs[i := v] ! j) (vs[i := v] ! k)"
    using rec_apart_commute [of v "vs ! j"] by (cases "j = i"; cases "k = i") simp_all
qed

lemma apart_append:
  assumes "apart vs" and "\<And>w. w \<in> set vs \<Longrightarrow> rec_apart v w"
  shows "apart (vs @ [v])"
proof (rule apartI)
  fix j k
  assume jk: "j < k" "k < length (vs @ [v])"
  then have "rec_apart v (vs ! j)" using assms(2) by simp
  with jk apartD [OF assms(1), of j k] show "rec_apart ((vs @ [v]) ! j) ((vs @ [v]) ! k)"
    using rec_apart_commute [of v "vs ! j"] by (cases "k = length vs") (simp_all add: nth_append)
qed

lemma rec_apart_na [simp]: "rec_apart na_record w"
  by (simp add: rec_apart_def na_record_def strview_is_na_def)

lemma rec_apart_empty [simp]: "rec_apart (empty_record c) w"
  by (simp add: rec_apart_def empty_record_def)

lemma checked_string_size_cases:
  "checked_string_size l what =
     (if unat l \<le> 2147483647 then Inr (ucast l)
      else Inl (Runtime_error (what @ '' exceeds R string size'')))"
  by (simp add: checked_string_size_def)

lemma unat_ucast_len: "unat (l :: size_t) \<le> 2147483647 \<Longrightarrow> unat (ucast l :: c_int) = unat l"
  by (simp add: unat_ucast_u32)

lemma ucast_len_0_iff:
  "unat (l :: size_t) \<le> 2147483647 \<Longrightarrow> (ucast l :: c_int) = 0 \<longleftrightarrow> l = 0"
  by (metis unat_ucast_len unat_0 unat_eq_zero)

section \<open>Stores as lists of elements\<close>

lemma slice_clear_blocks:
  "fst (slice_clear ss h) = []"
  "blocks (snd (slice_clear ss h)) b = (if b \<in> set ss then None else blocks h b)"
  "next_blk (snd (slice_clear ss h)) = next_blk h"
  by (induction ss arbitrary: h) (simp_all add: free_block_def)

lemma heap_ok_slice_clear: "heap_ok h \<Longrightarrow> heap_ok (snd (slice_clear ss h))"
  by (simp add: heap_ok_def slice_clear_blocks)

lemma strview_is_na_record [simp]: "strview_is_na na_record"
  by (simp add: na_record_def strview_is_na_def)

text \<open>A record is NA, the static empty string, or in one of the blocks \<open>B\<close>.\<close>

definition rec_in :: "blk set \<Rightarrow> charport_strview \<Rightarrow> bool" where
  "rec_in B v \<longleftrightarrow>
     v = na_record \<or> sv_len v = 0 \<and> sv_ptr v = Empty \<or>
     sv_len v \<noteq> 0 \<and> \<not> strview_is_na v \<and> (\<exists>b \<in> B. ptr_blk (sv_ptr v) = Some b)"

text \<open>
  \<open>store_holds st h es\<close>: the store is the list \<open>es\<close>, its slices are live and its own, and
  every record points into them, so the store depends on no memory but its slices.
\<close>

definition store_holds :: "store \<Rightarrow> heap \<Rightarrow> element list \<Rightarrow> bool" where
  "store_holds st h es \<longleftrightarrow>
     heap_ok h \<and> distinct (st_slices st) \<and> (\<forall>b \<in> set (st_slices st). blocks h b \<noteq> None) \<and>
     rt_ok (st_records st) \<and>
     list_all2 (\<lambda>v e. view_content h v = Some e \<and> rec_in (set (st_slices st)) v)
       (rt_views (st_records st)) es"

lemma store_holds_size: "store_holds st h es \<Longrightarrow> length es = store_size st"
  by (auto simp: store_holds_def store_size_def dest: list_all2_lengthD)

lemma store_holds_nth:
  assumes "store_holds st h es" and "i < length es"
  shows "view_content h (rt_at (st_records st) i) = Some (es ! i)"
    and "rec_in (set (st_slices st)) (rt_at (st_records st) i)" and "rt_ok (st_records st)"
    and "i < vector_length (st_records st)"
proof -
  have l: "length es = vector_length (st_records st)"
    using store_holds_size [OF assms(1)] by (simp add: store_size_def)
  with assms show "view_content h (rt_at (st_records st) i) = Some (es ! i)"
    "rec_in (set (st_slices st)) (rt_at (st_records st) i)" "rt_ok (st_records st)"
    "i < vector_length (st_records st)"
    by (simp_all add: store_holds_def list_all2_conv_all_nth)
qed

lemma store_holds_view:
  assumes "store_holds st h es" and "i < length es"
  shows "store_view st i = Inr (rt_at (st_records st) i)"
  unfolding store_view_def using rt_view_ok store_holds_nth [OF assms] by blast

lemma store_holds_rt_denotes: "store_holds st h es \<Longrightarrow> rt_denotes h (st_records st) es"
  unfolding store_holds_def rt_denotes_iff by (auto elim: list_all2_mono)

lemma store_holds_frame:
  assumes "store_holds st h es" and "heap_ok h'"
    and same: "\<And>b. b \<in> set (st_slices st) \<Longrightarrow> blocks h' b = blocks h b"
  shows "store_holds st h' es"
proof -
  have "view_content h' v = Some e"
    if v: "view_content h v = Some e" "rec_in (set (st_slices st)) v" for v e
  proof -
    have "view_content h' v = view_content h v"
    proof (rule view_content_cong)
      assume "\<not> strview_is_na v"
      with v(2) consider "sv_ptr v = Empty" | b where "b \<in> set (st_slices st)" "ptr_blk (sv_ptr v) = Some b"
        by (auto simp: rec_in_def)
      then show "mem_read h' (sv_ptr v) (unat (sv_len v)) = mem_read h (sv_ptr v) (unat (sv_len v))"
        by cases (auto intro!: mem_read_cong same)
    qed
    with v(1) show ?thesis by simp
  qed
  with assms show ?thesis unfolding store_holds_def by (auto elim!: list_all2_mono)
qed

lemma store_new_fail:
  assumes "store_new n k h = (Inl e, h')"
  shows "e \<noteq> Undefined \<and> blocks h' = blocks h \<and> next_blk h' = next_blk h"
proof -
  from assms consider "rt_new n h = (Inl e, h')"
    | t h1 ss where "rt_new n h = (Inr t, h1)" "slice_push_front k [] h1 = (Inl e, ss, h')"
    by (auto simp: store_new_def split: prod.splits sum.splits if_splits)
  then show ?thesis
  proof cases
    case 1
    then show ?thesis using rt_new_fail rt_new_blocks by blast
  next
    case 2
    with rt_new_blocks [OF 2(1)] slice_push_front_fail [OF 2(2)] show ?thesis by simp
  qed
qed

lemma store_new_empty:
  assumes "store_new n 0 h = (Inr st, h')"
  shows "st_slices st = [] \<and> rt_new n h = (Inr (st_records st), h')"
  using assms by (auto simp: store_new_def split: prod.splits sum.splits)

text \<open>A new store with one slice: the table is all NA and the slice is fresh.\<close>

lemma store_new_slice:
  assumes "store_new n k h = (Inr st, h')" and "0 < k" and ok: "heap_ok h"
  obtains b bs where "st_slices st = [b]" "blocks h b = None" "length bs = unat k"
    "blocks h' = (blocks h)(b \<mapsto> bs)" "heap_ok h'" "rt_ok (st_records st)"
    "vector_length (st_records st) = n"
proof -
  obtain t h1 p where t: "rt_new n h = (Inr t, h1)"
    and p: "slice_push_front k [] h1 = (Inr p, st_slices st, h')" and st: "st_records st = t"
    using assms(1,2) by (auto simp: store_new_def split: prod.splits sum.splits)
  have h1: "blocks h1 = blocks h" "heap_ok h1" using rt_new_blocks [OF t] ok by (auto simp: heap_ok_def)
  from slice_push_front_ok [OF p h1(2)] h1(1) that rt_new_ok [OF t] st show ?thesis by metis
qed

lemma store_set_first:
  assumes "rt_ok (st_records st)" and "vector_length (st_records st) = 1"
    and "distinct (st_slices st)" and "\<forall>b \<in> set (st_slices st). blocks h b \<noteq> None" and "heap_ok h"
    and "view_content h (make_strview p l c) = Some e" and "rec_in (set (st_slices st)) (make_strview p l c)"
  shows "\<exists>st'. store_set_records st (rt_set (st_records st) 0 p l c) = Inr st' \<and> store_holds st' h [e]"
proof -
  have i: "0 < vector_length (st_records st)" using assms(2) by simp
  obtain t where t: "rt_set (st_records st) 0 p l c = Inr t" using rt_set_succ [OF assms(1) i] by blast
  note v = rt_set_views [OF assms(1) i t]
  have "length (rt_views (st_records st)) = 1" using assms(2) by simp
  then have "rt_views t = [make_strview p l c]"
    using v by (cases "rt_views (st_records st)") auto
  with t conjunct1 [OF v] assms(3-7) show ?thesis by (simp add: store_set_records_def store_holds_def)
qed

lemma empty_record_content:
  "c \<noteq> CETYPE_EXT_NA \<Longrightarrow> view_content h (empty_record c) = Some (Str [] c)"
  by (simp add: empty_record_def empty_data_def view_content_Str strview_is_na_def)

lemma store_scalar_ok:
  assumes ok: "heap_ok h" and s: "store_scalar src nbytes c h = (r, h')"
    and src: "src = Null \<or> c = CETYPE_EXT_NA \<or> (if nbytes = 0 then ys = [] else mem_read h src (unat nbytes) = Some ys)"
  shows "case r of
      Inl e \<Rightarrow> e \<noteq> Undefined \<and> blocks h' = blocks h
    | Inr st \<Rightarrow> store_holds st h' [if src = Null \<or> c = CETYPE_EXT_NA then NA else Str ys c] \<and>
        keeps_live h h'"
proof (cases "src = Null \<or> c = CETYPE_EXT_NA")
  case True
  obtain q h1 where q: "store_new 1 0 h = (q, h1)" by fastforce
  show ?thesis
  proof (cases q)
    case (Inl e)
    with q s True store_new_fail [of 1 0 h e h1] show ?thesis by (auto simp: store_scalar_def)
  next
    case (Inr st)
    with q have n: "st_slices st = []" "rt_new 1 h = (Inr (st_records st), h1)"
      using store_new_empty by blast+
    note bl = rt_new_blocks [OF n(2)] and t = rt_new_ok [OF n(2)]
    have "heap_ok h1" using bl ok by (simp add: heap_ok_def)
    with t n(1) store_set_first [of st h1 Null NA_INTEGER CETYPE_EXT_NA NA] s q Inr True bl
    show ?thesis
      by (auto simp: store_scalar_def rt_set_na_def rec_in_def strview_is_na_def keeps_live_same na_record_def)
  qed
next
  case False
  show ?thesis
  proof (cases "unat nbytes \<le> 2147483647")
    case len: True
    obtain q h1 where q: "store_new 1 nbytes h = (q, h1)" by fastforce
    show ?thesis
    proof (cases q)
      case (Inl e)
      with q s False len store_new_fail [of 1 nbytes h e h1] show ?thesis
        by (auto simp: store_scalar_def checked_string_size_cases)
    next
      case st: (Inr st)
      show ?thesis
      proof (cases "nbytes = 0")
        case True
        with q st have n: "st_slices st = []" "rt_new 1 h = (Inr (st_records st), h1)"
          using store_new_empty by blast+
        note bl = rt_new_blocks [OF n(2)] and t = rt_new_ok [OF n(2)]
        have "heap_ok h1" using bl ok by (simp add: heap_ok_def)
        moreover have "view_content h1 (make_strview Empty 0 c) = Some (Str [] c)"
          using empty_record_content [of c h1] False by (simp add: empty_record_def empty_data_def)
        ultimately obtain st' where st':
          "store_set_records st (rt_set (st_records st) 0 Empty 0 c) = Inr st'" "store_holds st' h1 [Str [] c]"
          using t n(1) store_set_first [of st h1 Empty 0 c "Str [] c"] by (auto simp: rec_in_def)
        have "r = Inr st'" "h' = h1" "ys = []"
          using s q st False True st'(1) src
          by (simp_all add: store_scalar_def checked_string_size_cases empty_data_def)
        with st'(2) False bl show ?thesis by (simp add: keeps_live_same)
      next
        case nz: False
        then have pos: "0 < nbytes" by (simp add: word_gt_0)
        obtain b bs where b: "st_slices st = [b]" "blocks h b = None" "length bs = unat nbytes"
          "blocks h1 = (blocks h)(b \<mapsto> bs)" "heap_ok h1" "rt_ok (st_records st)"
          "vector_length (st_records st) = 1"
          using store_new_slice [OF _ pos ok] q st by metis
        have live: "keeps_live h h1" using b(2,4) by (auto simp: keeps_live_def)
        have rd: "mem_read h src (unat nbytes) = Some ys" using src False nz by simp
        then have rd1: "mem_read h1 src (unat nbytes) = Some ys" using keeps_live_read [OF live] by blast
        have "ptr_blk (At b 0) \<noteq> ptr_blk src"
          using rd b(2) by (cases src) (auto split: option.splits)
        then have dj: "disjoint (At b 0) (unat nbytes) src (unat nbytes)" by (rule disjoint_blk)
        have "blocks h1 b = Some bs" using b(4) by simp
        from memcpy_ok [OF rd1 this _ dj] b(3) obtain h2
          where m: "memcpy h1 (At b 0) src (unat nbytes) = (Inr (), h2)"
            and w: "mem_write h1 (At b 0) ys = Some h2" by auto
        have sh: "same_shape h1 h2" using w by (rule mem_write_shape)
        have l: "unat (ucast nbytes :: c_int) = unat nbytes" "(ucast nbytes :: c_int) \<noteq> 0"
          using unat_ucast_len [OF len] ucast_len_0_iff [OF len] nz by auto
        then have "(ucast nbytes :: c_int) \<noteq> NA_INTEGER" using len by auto
        moreover have "mem_read h2 (At b 0) (unat nbytes) = Some ys"
          using mem_write_read_same [OF w] length_mem_read [OF rd] by simp
        ultimately have vc: "view_content h2 (make_strview (At b 0) (ucast nbytes) c) = Some (Str ys c)"
          using False l len by (simp add: view_content_Str strview_is_na_def)
        have "blocks h2 b \<noteq> None" using same_shape_length [OF sh \<open>blocks h1 b = Some bs\<close>] by auto
        moreover have "heap_ok h2" using same_shape_heap_ok [OF sh b(5)] .
        ultimately obtain st' where
          st': "store_set_records st (rt_set (st_records st) 0 (At b 0) (ucast nbytes) c) = Inr st'"
          "store_holds st' h2 [Str ys c]"
          using store_set_first [OF b(6,7), of h2 "At b 0" "ucast nbytes" c "Str ys c"] b(1) vc
          by (auto simp: rec_in_def l view_content_Str)
        have "blocks h2 b' = blocks h1 b'" if "b' \<noteq> b" for b'
          using mem_write_frame [OF w] that by simp
        then have "keeps_live h h2"
          unfolding keeps_live_def b(4) using b(2) by (metis fun_upd_other option.distinct(1))
        moreover have "r = Inr st'" "h' = h2"
          using s q st False len l m st'(1) b(1)
          by (simp_all add: store_scalar_def checked_string_size_cases)
        ultimately show ?thesis using st'(2) False by simp
      qed
    qed
  next
    case len: False
    with s False show ?thesis by (auto simp: store_scalar_def checked_string_size_cases)
  qed
qed

section \<open>The contract of a payload allocator\<close>

text \<open>
  \<open>alloc s h n\<close> asks for room for \<open>n\<close> bytes; \<open>inv\<close> is the allocator's invariant, \<open>owned\<close>
  its blocks, and \<open>held s h q m\<close> says that the \<open>m\<close> bytes at \<open>q\<close> lie in room it has handed
  out (or in blocks it no longer hands room out of).
\<close>

locale region_allocator =
  fixes alloc :: "'s \<Rightarrow> heap \<Rightarrow> size_t \<Rightarrow> (fault + ptr) \<times> 's \<times> heap"
    and inv :: "'s \<Rightarrow> heap \<Rightarrow> bool"
    and owned :: "'s \<Rightarrow> blk set"
    and held :: "'s \<Rightarrow> heap \<Rightarrow> ptr \<Rightarrow> nat \<Rightarrow> bool"
  assumes alloc_ok:
      "inv s h \<Longrightarrow> 0 < unat n \<Longrightarrow> unat n \<le> 2147483647 \<Longrightarrow> alloc s h n = (Inr p, s', h') \<Longrightarrow>
       inv s' h' \<and> held s' h' p (unat n) \<and> keeps_live h h' \<and>
       (\<forall>b. ptr_blk p = Some b \<longrightarrow> b \<in> owned s \<or> blocks h b = None) \<and>
       owned s \<subseteq> owned s' \<and> (\<forall>b \<in> owned s'. b \<in> owned s \<or> blocks h b = None)"
    and alloc_held:
      "inv s h \<Longrightarrow> 0 < unat n \<Longrightarrow> unat n \<le> 2147483647 \<Longrightarrow> alloc s h n = (Inr p, s', h') \<Longrightarrow>
       held s h q m \<Longrightarrow> held s' h' q m \<and> disjoint p (unat n) q m"
    and alloc_fail:
      "inv s h \<Longrightarrow> 0 < unat n \<Longrightarrow> unat n \<le> 2147483647 \<Longrightarrow> alloc s h n = (Inl e, s', h') \<Longrightarrow>
       e \<noteq> Undefined \<and> s' = s \<and> same_shape h h' \<and> blocks h' = blocks h"
    and held_live:
      "inv s h \<Longrightarrow> held s h q m \<Longrightarrow>
       \<exists>b off bs. q = At b off \<and> b \<in> owned s \<and> blocks h b = Some bs \<and> off + m \<le> length bs"
    and shape:
      "inv s h \<Longrightarrow> same_shape h h' \<Longrightarrow> inv s h' \<and> (\<forall>q m. held s h q m \<longrightarrow> held s h' q m)"
begin

text \<open>A record that points nowhere, at the static empty string, or into held room.\<close>

definition rec_held :: "'s \<Rightarrow> heap \<Rightarrow> charport_strview \<Rightarrow> bool" where
  "rec_held s h v \<longleftrightarrow>
     v = na_record \<or> sv_len v = 0 \<and> sv_ptr v = Empty \<or>
     sv_len v \<noteq> 0 \<and> \<not> strview_is_na v \<and> held s h (sv_ptr v) (unat (sv_len v))"

definition good :: "'s \<Rightarrow> heap \<Rightarrow> charport_strview list \<Rightarrow> element list \<Rightarrow> bool" where
  "good s h vs es \<longleftrightarrow>
     inv s h \<and> list_all2 (\<lambda>v e. view_content h v = Some e \<and> rec_held s h v) vs es"

lemma good_inv: "good s h vs es \<Longrightarrow> inv s h"
  by (simp add: good_def)

lemma good_content: "good s h vs es \<Longrightarrow> list_all2 (\<lambda>v e. view_content h v = Some e) vs es"
  unfolding good_def by (auto elim: list_all2_mono)

lemma good_update:
  "good s h vs es \<Longrightarrow> view_content h v = Some e \<Longrightarrow> rec_held s h v \<Longrightarrow> good s h (vs[i := v]) (es[i := e])"
  unfolding good_def by (auto intro: list_all2_update_cong)

lemma good_append:
  "good s h vs es \<Longrightarrow> view_content h v = Some e \<Longrightarrow> rec_held s h v \<Longrightarrow> good s h (vs @ [v]) (es @ [e])"
  unfolding good_def by (auto intro: list_all2_appendI)

lemma good_na: "view_content h na_record = Some NA" "rec_held s h na_record"
  by (simp_all add: na_record_def rec_held_def strview_is_na_def)

lemma good_empty:
  "c \<noteq> CETYPE_EXT_NA \<Longrightarrow> view_content h (empty_record c) = Some (Str [] c)"
  "rec_held s h (empty_record c)"
  by (simp_all add: empty_record_def empty_data_def rec_held_def view_content_Str strview_is_na_def)

text \<open>Heap changes that keep the payload bytes keep everything.\<close>

lemma good_same_blocks:
  assumes "good s h vs es" and "same_shape h h'" and "blocks h' = blocks h"
  shows "good s h' vs es"
proof -
  have "mem_read h' p n = mem_read h p n" for p n by (rule mem_read_cong) (simp add: assms(3))
  then have v: "view_content h' v = view_content h v" for v by (intro view_content_cong) blast
  note sh = shape [OF good_inv [OF assms(1)] assms(2)]
  then have "rec_held s h v \<Longrightarrow> rec_held s h' v" for v by (auto simp: rec_held_def)
  with v have "list_all2 (\<lambda>v e. view_content h' v = Some e \<and> rec_held s h' v) vs es"
    using assms(1) unfolding good_def by (auto elim!: list_all2_mono)
  with sh show ?thesis by (simp add: good_def)
qed

lemma good_alloc_fail:
  assumes "good s h vs es" and "0 < unat n" and "unat n \<le> 2147483647"
    and "alloc s h n = (Inl e, s', h')"
  shows "e \<noteq> Undefined \<and> s' = s \<and> good s h' vs es \<and> blocks h' = blocks h \<and> next_blk h' = next_blk h"
  using alloc_fail [OF good_inv [OF assms(1)] assms(2-4)] good_same_blocks [OF assms(1)]
  by (auto simp: same_shape_def)

text \<open>The room a successful allocation returns, and what writing it does.\<close>

lemma good_alloc_write:
  assumes g: "good s h vs es" and n: "0 < unat n" "unat n \<le> 2147483647"
    and a: "alloc s h n = (Inr p, s', h')" and c: "c \<noteq> CETYPE_EXT_NA"
    and ys: "length ys = unat n" and w: "mem_write h' p ys = Some h''"
  shows "good s' h'' vs es \<and>
    view_content h'' (make_strview p (ucast n) c) = Some (Str ys c) \<and>
    rec_held s' h'' (make_strview p (ucast n) c)"
proof -
  note i = good_inv [OF g]
  note ok = alloc_ok [OF i n a]
  from ok have inv': "inv s' h'" and held': "held s' h' p (unat n)" and live: "keeps_live h h'"
    by simp_all
  have sh: "same_shape h' h''" using w by (rule mem_write_shape)
  note shape' = shape [OF inv' sh]
  obtain b off where p: "p = At b off" using held_live [OF inv' held'] by blast
  have old: "view_content h'' v = Some e \<and> rec_held s' h'' v"
    if v: "view_content h v = Some e" "rec_held s h v" for v e
  proof (cases "v = na_record \<or> sv_len v = 0 \<and> sv_ptr v = Empty")
    case True
    have "view_content h'' v = view_content h v"
      using True by (intro view_content_cong) auto
    with True v show ?thesis by (auto simp: rec_held_def)
  next
    case False
    with v have hv: "held s h (sv_ptr v) (unat (sv_len v))" and l: "sv_len v \<noteq> 0" "\<not> strview_is_na v"
      by (auto simp: rec_held_def)
    note h2 = alloc_held [OF i n a hv]
    have "view_content h' v = Some e" using live v(1) by (rule view_content_keeps_live)
    moreover have "mem_read h'' (sv_ptr v) (unat (sv_len v)) = mem_read h' (sv_ptr v) (unat (sv_len v))"
      using h2 ys by (intro mem_write_read_disjoint [OF w]) simp
    ultimately have "view_content h'' v = Some e" using view_content_cong by metis
    moreover have "held s' h'' (sv_ptr v) (unat (sv_len v))" using h2 shape' by blast
    ultimately show ?thesis using l by (simp add: rec_held_def)
  qed
  have len: "unat (ucast n :: c_int) = unat n" using n by (simp add: unat_ucast_len)
  then have l0: "(ucast n :: c_int) \<noteq> 0" "(ucast n :: c_int) \<noteq> NA_INTEGER" using n by auto
  have "mem_read h'' p (unat n) = Some ys"
    using w unfolding p ys [symmetric] by (rule mem_write_read_same)
  then have "view_content h'' (make_strview p (ucast n) c) = Some (Str ys c)"
    using c l0 n by (simp add: view_content_Str strview_is_na_def len p)
  moreover have "rec_held s' h'' (make_strview p (ucast n) c)"
    using l0 held' shape' calculation by (simp add: rec_held_def len view_content_Str)
  moreover have "list_all2 (\<lambda>v e. view_content h'' v = Some e \<and> rec_held s' h'' v) vs es"
    using g old unfolding good_def by (auto elim!: list_all2_mono)
  then have "good s' h'' vs es" using shape' by (simp add: good_def)
  ultimately show ?thesis by blast
qed

lemma alloc_room:
  assumes "good s h vs es" and "0 < unat n" and "unat n \<le> 2147483647"
    and "alloc s h n = (Inr p, s', h')"
  obtains b off bs where "p = At b off" and "blocks h' b = Some bs" and "off + unat n \<le> length bs"
    and "b \<in> owned s \<or> blocks h b = None"
  using alloc_ok [OF good_inv [OF assms(1)] assms(2-4)] held_live [of s' h' p "unat n"] by auto

text \<open>Reserving: the room holds some bytes, and any bytes the caller writes later are the string.\<close>

lemma good_alloc_reserve:
  assumes g: "good s h vs es" and n: "0 < unat n" "unat n \<le> 2147483647"
    and a: "alloc s h n = (Inr p, s', h')" and c: "c \<noteq> CETYPE_EXT_NA"
  shows "\<exists>ys. length ys = unat n \<and> good s' h' vs es \<and>
    view_content h' (make_strview p (ucast n) c) = Some (Str ys c) \<and>
    rec_held s' h' (make_strview p (ucast n) c)"
proof -
  obtain b off bs where p: "p = At b off" "blocks h' b = Some bs" "off + unat n \<le> length bs"
    using alloc_room [OF g n a] by metis
  let ?ys = "take (unat n) (drop off bs)"
  have "patch bs off ?ys = bs"
    using p(3) by (simp add: patch_def) (metis append_take_drop_id drop_drop add.commute)
  then have same: "mem_write h' p ?ys = Some (h'\<lparr>blocks := (blocks h')(b \<mapsto> bs)\<rparr>)"
    using p by simp
  also have "h'\<lparr>blocks := (blocks h')(b \<mapsto> bs)\<rparr> = h'"
    using p(2) by (simp add: fun_upd_idem)
  finally show ?thesis
    using good_alloc_write [OF g n a c _, of ?ys h'] p(3) by (intro exI [of _ ?ys]) simp
qed

text \<open>Room just handed out is apart from every record.\<close>

lemma alloc_apart:
  assumes g: "good s h vs es" and n: "0 < unat n" "unat n \<le> 2147483647"
    and a: "alloc s h n = (Inr p, s', h')" and w: "w \<in> set vs"
  shows "rec_apart (make_strview p (ucast n) c) w"
proof -
  from g w have r: "rec_held s h w" by (auto simp: good_def list_all2_conv_all_nth in_set_conv_nth)
  show ?thesis
  proof (cases "strview_is_na w \<or> sv_len w = 0")
    case True
    then show ?thesis by (auto simp: rec_apart_def)
  next
    case False
    with r have "held s h (sv_ptr w) (unat (sv_len w))" by (auto simp: rec_held_def)
    from alloc_held [OF good_inv [OF g] n a this] show ?thesis
      by (simp add: rec_apart_def unat_ucast_len n)
  qed
qed

text \<open>Writing the bytes of one record later: no record but that one changes.\<close>

lemma good_write_late:
  assumes g: "good s h vs es" and ap: "apart vs" and i: "i < length vs"
    and e: "es ! i = Str xs c" and ys: "length ys = length xs"
  shows "\<exists>h'. mem_write h (sv_ptr (vs ! i)) ys = Some h' \<and> good s h' vs (es[i := Str ys c])"
proof -
  let ?v = "vs ! i"
  have ve: "view_content h (vs ! j) = Some (es ! j) \<and> rec_held s h (vs ! j)" if "j < length vs" for j
    using g that by (simp add: good_def list_all2_conv_all_nth)
  have len: "length es = length vs" using g by (simp add: good_def list_all2_conv_all_nth)
  from ve [OF i] e have v: "\<not> strview_is_na ?v" "unat (sv_len ?v) \<le> 2147483647" "c = sv_enc ?v"
    "mem_read h (sv_ptr ?v) (unat (sv_len ?v)) = Some xs" and rv: "rec_held s h ?v"
    by (simp_all add: view_content_Str)
  have lx: "length xs = unat (sv_len ?v)" using length_mem_read [OF v(4)] .
  show ?thesis
  proof (cases "sv_len ?v = 0")
    case True
    with rv v(1) lx ys e have "sv_ptr ?v = Empty" "ys = []" "es[i := Str ys c] = es"
      by (auto simp: rec_held_def list_update_same_conv len i)
    with g show ?thesis by simp
  next
    case False
    with rv v(1) have hv: "held s h (sv_ptr ?v) (unat (sv_len ?v))" by (auto simp: rec_held_def)
    obtain b off bs where p: "sv_ptr ?v = At b off" "blocks h b = Some bs"
      "off + unat (sv_len ?v) \<le> length bs" using held_live [OF good_inv [OF g] hv] by blast
    then obtain h' where w: "mem_write h (sv_ptr ?v) ys = Some h'" using ys lx by simp
    note sh = shape [OF good_inv [OF g] mem_write_shape [OF w]]
    have held': "rec_held s h' (vs ! j)" if "j < length vs" for j
      using ve [OF that] sh by (auto simp: rec_held_def)
    have "mem_read h' (sv_ptr ?v) (unat (sv_len ?v)) = Some ys"
      using mem_write_read_same [OF w [unfolded p(1)]] by (simp only: p(1) ys lx)
    then have "view_content h' ?v = Some (Str ys c)" using v by (simp add: view_content_Str)
    moreover have "view_content h' (vs ! j) = view_content h (vs ! j)" if "j < length vs" "j \<noteq> i" for j
    proof (rule view_content_cong)
      assume na: "\<not> strview_is_na (vs ! j)"
      have "rec_apart ?v (vs ! j)" using ap i that unfolding apart_def by blast
      show "mem_read h' (sv_ptr (vs ! j)) (unat (sv_len (vs ! j))) =
        mem_read h (sv_ptr (vs ! j)) (unat (sv_len (vs ! j)))"
      proof (cases "sv_len (vs ! j) = 0")
        case True
        with ve [OF that(1)] na have "sv_ptr (vs ! j) = Empty" by (auto simp: rec_held_def)
        then show ?thesis by simp
      next
        case jl: False
        with \<open>rec_apart ?v (vs ! j)\<close> na v(1) False
        have "disjoint (sv_ptr ?v) (length ys) (sv_ptr (vs ! j)) (unat (sv_len (vs ! j)))"
          by (simp add: rec_apart_def ys lx)
        with w show ?thesis by (rule mem_write_read_disjoint)
      qed
    qed
    ultimately have "good s h' vs (es[i := Str ys c])"
      using sh ve held' i by (auto simp: good_def list_all2_conv_all_nth len nth_list_update)
    with w show ?thesis by blast
  qed
qed

text \<open>Copying a caller's bytes into the room: they lie outside the allocator's blocks, or in
  room it handed out before.\<close>

definition src_ok :: "'s \<Rightarrow> heap \<Rightarrow> ptr \<Rightarrow> nat \<Rightarrow> bool" where
  "src_ok s h src n \<longleftrightarrow> (\<forall>b. ptr_blk src = Some b \<longrightarrow> b \<notin> owned s) \<or> held s h src n"

lemma good_alloc_copy:
  assumes g: "good s h vs es" and n: "0 < unat n" "unat n \<le> 2147483647"
    and a: "alloc s h n = (Inr p, s', h')" and c: "c \<noteq> CETYPE_EXT_NA"
    and src: "mem_read h src (unat n) = Some ys" "src_ok s h src (unat n)"
  shows "\<exists>h''. memcpy h' p src (unat n) = (Inr (), h'') \<and> good s' h'' vs es \<and>
    view_content h'' (make_strview p (ucast n) c) = Some (Str ys c) \<and>
    rec_held s' h'' (make_strview p (ucast n) c) \<and>
    (\<forall>b. b \<notin> owned s \<longrightarrow> blocks h b \<noteq> None \<longrightarrow> blocks h'' b = blocks h b)"
proof -
  obtain b off bs where p: "p = At b off" "blocks h' b = Some bs" "off + unat n \<le> length bs"
    and b: "b \<in> owned s \<or> blocks h b = None" using alloc_room [OF g n a] by metis
  have live: "keeps_live h h'" using alloc_ok [OF good_inv [OF g] n a] by simp
  then have src': "mem_read h' src (unat n) = Some ys" using src(1) by (rule keeps_live_read)
  have "disjoint (At b off) (unat n) src (unat n)"
    using src(2) unfolding src_ok_def
  proof
    assume "\<forall>b. ptr_blk src = Some b \<longrightarrow> b \<notin> owned s"
    then have "ptr_blk p \<noteq> ptr_blk src"
      using b src(1) by (cases src) (auto simp: p split: option.splits)
    then show ?thesis using disjoint_blk p(1) by metis
  next
    assume "held s h src (unat n)"
    from alloc_held [OF good_inv [OF g] n a this] p(1) show ?thesis by simp
  qed
  from memcpy_ok [OF src' p(2,3) this] obtain h''
    where m: "memcpy h' p src (unat n) = (Inr (), h'')" and w: "mem_write h' p ys = Some h''"
    unfolding p(1) by metis
  have "blocks h'' b' = blocks h b'" if "b' \<notin> owned s" "blocks h b' \<noteq> None" for b'
  proof -
    have "ptr_blk p \<noteq> Some b'" using that b p(1) by auto
    with w have "blocks h'' b' = blocks h' b'" by (rule mem_write_frame)
    with live that(2) show ?thesis unfolding keeps_live_def by fastforce
  qed
  with m good_alloc_write [OF g n a c length_mem_read [OF src(1)] w] show ?thesis by blast
qed

end

end
