(* ===== verification/Cp_Shard.thy ===== *)
theory Cp_Shard
  imports Cp_Store
begin

text \<open>
  The byte allocation of \<open>inst/include/charport/charvec/builder.h\<close> (namespace
  \<open>builder_detail\<close>): the slice sizing, a \<open>Shard\<close> with its cursor, \<open>allocate_bytes\<close>, and
  \<open>fill_record\<close>/\<open>copy_record\<close>, which the three builders share. The shard meets the
  contract of \<open>region_allocator\<close>.
\<close>

section \<open>Slice sizes\<close>

definition min_multi_string_slice_bytes :: size_t where "min_multi_string_slice_bytes = 64"
definition max_initial_slice_bytes :: size_t where "max_initial_slice_bytes = push_bit 10 16"
definition max_slice_bytes :: size_t where "max_slice_bytes = push_bit 10 256"
definition slice_alignment :: size_t where "slice_alignment = 64"
definition vector_len_scale :: size_t where "vector_len_scale = 4"

definition initial_slice_heuristic :: "size_t \<Rightarrow> size_t" where
  "initial_slice_heuristic vector_len =
     (if vector_len \<le> 1 then 0
      else let scaled = next_power_of_two (vector_len * vector_len_scale)
           in min (max min_multi_string_slice_bytes scaled) max_initial_slice_bytes)"

section \<open>Shards\<close>

record shard =
  sh_slices :: "blk list"
  allocated_bytes :: size_t
  current_slice_used :: u32
  current_slice_capacity :: u32

definition shard_new :: shard where
  "shard_new = \<lparr>sh_slices = [], allocated_bytes = 0, current_slice_used = 0, current_slice_capacity = 0\<rparr>"

text \<open>The size of the next slice, from the sizing rules of \<open>allocate_bytes\<close>.\<close>

definition next_slice_size :: "size_t \<Rightarrow> size_t \<Rightarrow> size_t \<Rightarrow> size_t" where
  "next_slice_size initial allocated l =
     (let regular = min (round_up (max initial (allocated div 2)) slice_alignment) max_slice_bytes
      in round_up (max regular l) slice_alignment)"

fun ptr_add :: "ptr \<Rightarrow> nat \<Rightarrow> ptr" where
  "ptr_add (At b off) n = At b (off + n)"
| "ptr_add p n = p"

text \<open>The last three statements: hand out the room at the cursor of the current slice.\<close>

definition shard_take :: "shard \<Rightarrow> u32 \<Rightarrow> ptr \<times> shard" where
  "shard_take s l =
     (ptr_add (slice_front_data (sh_slices s)) (unat (current_slice_used s)),
      s\<lparr>current_slice_used := current_slice_used s + l,
        allocated_bytes := allocated_bytes s + ucast l\<rparr>)"

definition allocate_bytes ::
    "shard \<Rightarrow> heap \<Rightarrow> u32 \<Rightarrow> size_t \<Rightarrow> (fault + ptr) \<times> shard \<times> heap" where
  "allocate_bytes s h l vector_length_hint =
     (if l = 0 then (Inr empty_data, s, h)
      else if sh_slices s = [] \<or> current_slice_capacity s - current_slice_used s < l
      then
        (case checked_u32
                (next_slice_size (initial_slice_heuristic vector_length_hint) (allocated_bytes s) (ucast l))
                ''slice size'' of
           Inl e \<Rightarrow> (Inl e, s, h)
         | Inr cap \<Rightarrow>
             (case slice_push_front (ucast cap) (sh_slices s) h of
                (Inl e, ss, h') \<Rightarrow> (Inl e, s\<lparr>sh_slices := ss\<rparr>, h')
              | (Inr p, ss, h') \<Rightarrow>
                  (case shard_take (s\<lparr>sh_slices := ss, current_slice_used := 0,
                                      current_slice_capacity := cap\<rparr>) l of
                     (dest, s') \<Rightarrow> (Inr dest, s', h'))))
      else (case shard_take s l of (dest, s') \<Rightarrow> (Inr dest, s', h)))"

section \<open>Records\<close>

definition fill_record ::
    "shard \<Rightarrow> record_table \<Rightarrow> heap \<Rightarrow> size_t \<Rightarrow> size_t \<Rightarrow> cetype_ext_t
     \<Rightarrow> (fault + ptr) \<times> shard \<times> record_table \<times> heap" where
  "fill_record s t h idx l c =
     (if of_nat (vector_length t) \<le> idx
      then (Inl (Runtime_error ''charvec builder: assignment out of bounds''), s, t, h)
      else
        (case checked_string_size l ''stored string length'' of
           Inl e \<Rightarrow> (Inl e, s, t, h)
         | Inr stored_len \<Rightarrow>
             if c = CETYPE_EXT_NA then
               (case rt_set_na t (unat idx) of
                  Inl e \<Rightarrow> (Inl e, s, t, h)
                | Inr t' \<Rightarrow> (Inr Null, s, t', h))
             else if stored_len = 0 then
               (case rt_set t (unat idx) empty_data 0 c of
                  Inl e \<Rightarrow> (Inl e, s, t, h)
                | Inr t' \<Rightarrow> (Inr empty_data, s, t', h))
             else
               (case allocate_bytes s h stored_len (of_nat (vector_length t)) of
                  (Inl e, s', h') \<Rightarrow> (Inl e, s', t, h')
                | (Inr dest, s', h') \<Rightarrow>
                    (case rt_set t (unat idx) dest stored_len c of
                       Inl e \<Rightarrow> (Inl e, s', t, h')
                     | Inr t' \<Rightarrow> (Inr dest, s', t', h')))))"

definition copy_record ::
    "shard \<Rightarrow> record_table \<Rightarrow> heap \<Rightarrow> size_t \<Rightarrow> ptr \<Rightarrow> size_t \<Rightarrow> cetype_ext_t
     \<Rightarrow> (fault + unit) \<times> shard \<times> record_table \<times> heap" where
  "copy_record s t h idx src l c =
     (case fill_record s t h idx l c of
        (Inl e, s', t', h') \<Rightarrow> (Inl e, s', t', h')
      | (Inr dest, s', t', h') \<Rightarrow>
          if dest \<noteq> Null \<and> 0 < l
          then (case memcpy h' dest src (unat l) of (r, h'') \<Rightarrow> (r, s', t', h''))
          else (Inr (), s', t', h'))"

section \<open>Slice sizes are in range\<close>

lemmas sizing_defs = min_multi_string_slice_bytes_def max_initial_slice_bytes_def
  max_slice_bytes_def slice_alignment_def

lemma initial_slice_heuristic_le: "unat (initial_slice_heuristic n) \<le> 16384"
  by (simp add: initial_slice_heuristic_def sizing_defs unat_min_word)

lemma next_slice_size_bounds:
  assumes "unat l \<le> 2147483647"
  shows "unat l \<le> unat (next_slice_size initial allocated l)"
    and "unat (next_slice_size initial allocated l) < 2147483648 + 64"
    and "64 dvd unat (next_slice_size initial allocated l)"
proof -
  let ?reg = "min (round_up (max initial (allocated div 2)) slice_alignment) max_slice_bytes"
  have reg: "unat ?reg \<le> 262144" by (simp add: sizing_defs unat_min_word)
  let ?v = "max ?reg l"
  have v: "unat ?v \<le> 2147483647" "unat l \<le> unat ?v"
    using reg assms by (simp_all add: unat_max_word)
  have "unat (64 :: size_t) dvd unat (round_up ?v 64) \<and> unat ?v \<le> unat (round_up ?v 64) \<and>
      unat (round_up ?v 64) < unat ?v + unat (64 :: size_t)"
    by (rule round_up_spec) (use v in simp_all)
  then have r: "64 dvd unat (round_up ?v 64)" "unat ?v \<le> unat (round_up ?v 64)"
    "unat (round_up ?v 64) < unat ?v + 64" by simp_all
  have e: "next_slice_size initial allocated l = round_up ?v 64"
    by (simp add: next_slice_size_def Let_def slice_alignment_def)
  show "unat l \<le> unat (next_slice_size initial allocated l)"
    and "unat (next_slice_size initial allocated l) < 2147483648 + 64"
    and "64 dvd unat (next_slice_size initial allocated l)"
    unfolding e using r v by linarith+
qed

section \<open>A shard is a region allocator\<close>

definition shard_inv :: "shard \<Rightarrow> heap \<Rightarrow> bool" where
  "shard_inv s h \<longleftrightarrow>
     heap_ok h \<and> distinct (sh_slices s) \<and> (\<forall>b \<in> set (sh_slices s). blocks h b \<noteq> None) \<and>
     (case sh_slices s of
        [] \<Rightarrow> True
      | b # bs \<Rightarrow>
          map_option length (blocks h b) = Some (unat (current_slice_capacity s)) \<and>
          current_slice_used s \<le> current_slice_capacity s)"

definition shard_owned :: "shard \<Rightarrow> blk set" where
  "shard_owned s = set (sh_slices s)"

definition shard_held :: "shard \<Rightarrow> heap \<Rightarrow> ptr \<Rightarrow> nat \<Rightarrow> bool" where
  "shard_held s h q m \<longleftrightarrow>
     (\<exists>b off bs. q = At b off \<and> b \<in> set (sh_slices s) \<and> blocks h b = Some bs \<and>
        off + m \<le> length bs \<and> (b = hd (sh_slices s) \<longrightarrow> off + m \<le> unat (current_slice_used s)))"

lemma shard_inv_new: "heap_ok h \<Longrightarrow> shard_inv shard_new h"
  by (simp add: shard_inv_def shard_new_def)

text \<open>The two ways \<open>allocate_bytes\<close> succeeds: in the current slice, or in a fresh one.\<close>

lemma allocate_bytes_cases:
  assumes inv: "shard_inv s h" and l: "0 < unat l" "unat l \<le> 2147483647"
    and a: "allocate_bytes s h l hint = (Inr p, s', h')"
  obtains
    (current) b bs where "sh_slices s = b # bs" "p = At b (unat (current_slice_used s))"
      "unat (current_slice_used s) + unat l \<le> unat (current_slice_capacity s)"
      "sh_slices s' = sh_slices s" "current_slice_capacity s' = current_slice_capacity s"
      "unat (current_slice_used s') = unat (current_slice_used s) + unat l" "h' = h"
  | (new) b bs where "sh_slices s' = b # sh_slices s" "p = At b 0" "blocks h b = None"
      "unat l \<le> length bs" "unat (current_slice_capacity s') = length bs"
      "unat (current_slice_used s') = unat l" "blocks h' = (blocks h)(b \<mapsto> bs)"
      "heap_ok h'" "keeps_live h h'"
proof (cases "sh_slices s = [] \<or> current_slice_capacity s - current_slice_used s < l")
  case False
  then obtain b bs where ss: "sh_slices s = b # bs" by (cases "sh_slices s") auto
  with inv have le: "current_slice_used s \<le> current_slice_capacity s" by (simp add: shard_inv_def)
  have "l \<le> current_slice_capacity s - current_slice_used s" using False by (simp add: not_less)
  then have "unat l \<le> unat (current_slice_capacity s) - unat (current_slice_used s)"
    by (simp add: word_le_nat_alt unat_sub [OF le])
  then have room: "unat (current_slice_used s) + unat l \<le> unat (current_slice_capacity s)"
    using le by (simp add: word_le_nat_alt)
  then have "unat (current_slice_used s + l) = unat (current_slice_used s) + unat l"
    using unat_u32_bound [of "current_slice_capacity s"] by (intro unat_add_u32) simp
  moreover have "l \<noteq> 0" using l by auto
  then have "shard_take s l = (p, s')" "h' = h"
    using a False by (auto simp: allocate_bytes_def split: prod.splits)
  ultimately show ?thesis
    using ss room by (intro current) (auto simp: shard_take_def)
next
  case True
  let ?sz = "next_slice_size (initial_slice_heuristic hint) (allocated_bytes s) (ucast l)"
  have "unat (ucast l :: size_t) \<le> 2147483647" using l by (simp add: unat_ucast_u64)
  note sz = next_slice_size_bounds [OF this, of "initial_slice_heuristic hint" "allocated_bytes s"]
  have cap: "unat (ucast ?sz :: u32) = unat ?sz" using sz(2) by (simp add: unat_ucast_u32)
  from a True l obtain q ss where pf: "slice_push_front (ucast (ucast ?sz :: u32)) (sh_slices s) h = (Inr q, ss, h')"
    and s': "shard_take (s\<lparr>sh_slices := ss, current_slice_used := 0,
       current_slice_capacity := ucast ?sz\<rparr>) l = (p, s')"
    by (auto simp: allocate_bytes_def checked_u32_cases split: if_splits sum.splits prod.splits)
  have heap: "heap_ok h" using inv by (simp add: shard_inv_def)
  obtain b bs where b: "ss = b # sh_slices s" "blocks h b = None"
    "length bs = unat (ucast (ucast ?sz :: u32) :: size_t)" "blocks h' = (blocks h)(b \<mapsto> bs)"
    "heap_ok h'" "keeps_live h h'"
    using slice_push_front_ok [OF pf heap] by blast
  have len: "length bs = unat ?sz" using b(3) cap by (simp add: unat_ucast_u64)
  have "unat l \<le> unat ?sz" using sz(1) by (simp add: unat_ucast_u64)
  with s' b len cap show ?thesis
    by (intro new [of b bs]) (auto simp: shard_take_def)
qed

lemma allocate_bytes_fail:
  assumes l: "0 < unat l" "unat l \<le> 2147483647"
    and a: "allocate_bytes s h l hint = (Inl e, s', h')"
  shows "e = Bad_alloc \<and> s' = s \<and> blocks h' = blocks h \<and> next_blk h' = next_blk h"
proof -
  let ?sz = "next_slice_size (initial_slice_heuristic hint) (allocated_bytes s) (ucast l)"
  have "unat (ucast l :: size_t) \<le> 2147483647" using l by (simp add: unat_ucast_u64)
  note sz = next_slice_size_bounds [OF this, of "initial_slice_heuristic hint" "allocated_bytes s"]
  then have "unat ?sz < 4294967296" by linarith
  with a l show ?thesis
    by (auto simp: allocate_bytes_def checked_u32_cases shard_take_def
        dest!: slice_push_front_fail split: if_splits sum.splits prod.splits)
qed

lemma allocate_bytes_can_alloc: "allocate_bytes s h l hint = (r, s', h') \<Longrightarrow> can_alloc h' = can_alloc h"
  by (auto simp: allocate_bytes_def dest: slice_push_front_can_alloc split: if_splits sum.splits prod.splits)

lemma fill_record_can_alloc: "fill_record s t h i l c = (r, s', t', h') \<Longrightarrow> can_alloc h' = can_alloc h"
  by (auto simp: fill_record_def dest: allocate_bytes_can_alloc split: if_splits sum.splits prod.splits)

lemma allocate_bytes_oom:
  assumes l: "0 < unat l" "unat l \<le> 2147483647"
    and a: "allocate_bytes s h l hint = (Inl e, s', h')"
  shows "\<exists>i m. \<not> can_alloc h i m"
proof -
  let ?sz = "next_slice_size (initial_slice_heuristic hint) (allocated_bytes s) (ucast l)"
  have "unat (ucast l :: size_t) \<le> 2147483647" using l by (simp add: unat_ucast_u64)
  note sz = next_slice_size_bounds [OF this, of "initial_slice_heuristic hint" "allocated_bytes s"]
  then have "unat ?sz < 4294967296" by linarith
  with a l obtain ss where p: "slice_push_front (ucast (ucast ?sz :: u32)) (sh_slices s) h = (Inl e, ss, h')"
    by (auto simp: allocate_bytes_def checked_u32_cases shard_take_def split: if_splits sum.splits prod.splits)
  have "unat (ucast (ucast ?sz :: u32) :: size_t) \<le> unat (SIZE_MAX - 8)"
    using unat_u32_bound [of "ucast ?sz"] by (simp add: unat_ucast_u64)
  then show ?thesis using slice_push_front_oom [OF p] by (simp add: word_le_nat_alt)
qed

lemma shard_held_live:
  "shard_held s h q m \<Longrightarrow>
     \<exists>b off bs. q = At b off \<and> b \<in> shard_owned s \<and> blocks h b = Some bs \<and> off + m \<le> length bs"
  by (auto simp: shard_held_def shard_owned_def)

lemma shard_inv_shape: "shard_inv s h \<Longrightarrow> same_shape h h' \<Longrightarrow> shard_inv s h'"
  unfolding shard_inv_def
  using same_shape_length same_shape_heap_ok by (fastforce split: list.splits)

lemma shard_held_shape: "shard_held s h q m \<Longrightarrow> same_shape h h' \<Longrightarrow> shard_held s h' q m"
  unfolding shard_held_def using same_shape_length by fastforce

lemma allocate_bytes_ok:
  assumes inv: "shard_inv s h" and l: "0 < unat l" "unat l \<le> 2147483647"
    and a: "allocate_bytes s h l hint = (Inr p, s', h')"
  shows "shard_inv s' h' \<and> shard_held s' h' p (unat l) \<and> keeps_live h h' \<and>
    (\<forall>b. ptr_blk p = Some b \<longrightarrow> b \<in> shard_owned s \<or> blocks h b = None) \<and>
    shard_owned s \<subseteq> shard_owned s' \<and> (\<forall>b \<in> shard_owned s'. b \<in> shard_owned s \<or> blocks h b = None)"
  using inv l a
proof (cases rule: allocate_bytes_cases)
  case (current b bs)
  with inv obtain xs where "blocks h b = Some xs" "length xs = unat (current_slice_capacity s)"
    by (auto simp: shard_inv_def)
  with current inv show ?thesis
    by (auto simp: shard_inv_def shard_held_def shard_owned_def word_le_nat_alt)
next
  case (new b bs)
  with inv have "b \<notin> set (sh_slices s)" by (auto simp: shard_inv_def)
  with new inv show ?thesis
    by (auto simp: shard_inv_def shard_held_def shard_owned_def word_le_nat_alt)
qed

lemma allocate_bytes_held:
  assumes inv: "shard_inv s h" and l: "0 < unat l" "unat l \<le> 2147483647"
    and a: "allocate_bytes s h l hint = (Inr p, s', h')" and held: "shard_held s h q m"
  shows "shard_held s' h' q m \<and> disjoint p (unat l) q m"
  using inv l a
proof (cases rule: allocate_bytes_cases)
  case (current b bs)
  with held show ?thesis by (auto simp: shard_held_def)
next
  case (new b bs)
  with inv have "b \<notin> set (sh_slices s)" by (auto simp: shard_inv_def)
  with new held show ?thesis by (fastforce simp: shard_held_def)
qed

lemma ucast_c_int_bounds:
  "0 < unat (n :: size_t) \<Longrightarrow> unat n \<le> 2147483647 \<Longrightarrow>
     0 < unat (ucast n :: u32) \<and> unat (ucast n :: u32) \<le> 2147483647 \<and> unat (ucast n :: u32) = unat n"
  by (simp add: unat_ucast_len)

interpretation shard: region_allocator "\<lambda>s h n. allocate_bytes s h (ucast n) hint"
    shard_inv shard_owned shard_held for hint :: size_t
proof
  fix s h and n :: size_t and p s' h'
  assume i: "shard_inv s h" and n: "0 < unat n" "unat n \<le> 2147483647"
    and a: "allocate_bytes s h (ucast n) hint = (Inr p, s', h')"
  note u = ucast_c_int_bounds [OF n]
  show "shard_inv s' h' \<and> shard_held s' h' p (unat n) \<and> keeps_live h h' \<and>
    (\<forall>b. ptr_blk p = Some b \<longrightarrow> b \<in> shard_owned s \<or> blocks h b = None) \<and>
    shard_owned s \<subseteq> shard_owned s' \<and> (\<forall>b \<in> shard_owned s'. b \<in> shard_owned s \<or> blocks h b = None)"
    using allocate_bytes_ok [OF i _ _ a] u by simp
  show "shard_held s' h' q m \<and> disjoint p (unat n) q m" if "shard_held s h q m" for q m
    using allocate_bytes_held [OF i _ _ a that] u by simp
next
  fix s h and n :: size_t and e s' h'
  assume "shard_inv s h" and n: "0 < unat n" "unat n \<le> 2147483647"
    and a: "allocate_bytes s h (ucast n) hint = (Inl e, s', h')"
  from allocate_bytes_fail [OF _ _ a] ucast_c_int_bounds [OF n]
  show "e \<noteq> Undefined \<and> s' = s \<and> same_shape h h' \<and> blocks h' = blocks h"
    by (auto simp: same_shape_def)
next
  show "\<exists>b off bs. q = At b off \<and> b \<in> shard_owned s \<and> blocks h b = Some bs \<and> off + m \<le> length bs"
    if "shard_held s h q m" for s h q m
    using that by (rule shard_held_live)
  show "shard_inv s h' \<and> (\<forall>q m. shard_held s h q m \<longrightarrow> shard_held s h' q m)"
    if "shard_inv s h" "same_shape h h'" for s h h'
    using that shard_inv_shape shard_held_shape by blast
qed

end
