(* ===== verification/Cp_Fill.thy ===== *)
theory Cp_Fill
  imports Cp_Shard
begin

text \<open>
  What \<open>fill_record\<close> and \<open>copy_record\<close> do to the contents of a builder. The shards of a
  builder together (one for \<open>Builder\<close>, several for \<open>ParallelBuilder\<close>) are again a region
  allocator, \<open>pool\<close>: a request goes to one of them, and what the others hold stays held.
\<close>

section \<open>A pool of shards\<close>

definition shards_alloc ::
    "nat \<Rightarrow> size_t \<Rightarrow> shard list \<Rightarrow> heap \<Rightarrow> size_t \<Rightarrow> (fault + ptr) \<times> shard list \<times> heap" where
  "shards_alloc k hint ss h n =
     (if length ss \<le> k
      then (Inl (Runtime_error ''charvec builder: shard index out of range''), ss, h)
      else (case allocate_bytes (ss ! k) h (ucast n) hint of (r, s', h') \<Rightarrow> (r, ss[k := s'], h')))"

definition shards_inv :: "shard list \<Rightarrow> heap \<Rightarrow> bool" where
  "shards_inv ss h \<longleftrightarrow>
     heap_ok h \<and> (\<forall>s \<in> set ss. shard_inv s h) \<and>
     (\<forall>i < length ss. \<forall>j < length ss. i \<noteq> j \<longrightarrow> shard_owned (ss ! i) \<inter> shard_owned (ss ! j) = {})"

definition shards_owned :: "shard list \<Rightarrow> blk set" where
  "shards_owned ss = (\<Union>s \<in> set ss. shard_owned s)"

definition shards_held :: "shard list \<Rightarrow> heap \<Rightarrow> ptr \<Rightarrow> nat \<Rightarrow> bool" where
  "shards_held ss h q m \<longleftrightarrow> (\<exists>s \<in> set ss. shard_held s h q m)"

lemma shard_inv_keeps:
  "shard_inv s h \<Longrightarrow> keeps_live h h' \<Longrightarrow> heap_ok h' \<Longrightarrow> shard_inv s h'"
  unfolding shard_inv_def keeps_live_def by (fastforce split: list.splits)

lemma shard_held_keeps: "shard_held s h q m \<Longrightarrow> keeps_live h h' \<Longrightarrow> shard_held s h' q m"
  unfolding shard_held_def keeps_live_def by blast

lemma shard_owned_live: "shard_inv s h \<Longrightarrow> b \<in> shard_owned s \<Longrightarrow> blocks h b \<noteq> None"
  by (simp add: shard_inv_def shard_owned_def)

lemma shards_invD:
  assumes "shards_inv ss h" and "k < length ss"
  shows "shard_inv (ss ! k) h"
  using assms by (simp add: shards_inv_def)

lemma shards_inv_update:
  assumes inv: "shards_inv ss h" and k: "k < length ss" and s': "shard_inv s' h'"
    and live: "keeps_live h h'"
    and own: "\<forall>b \<in> shard_owned s'. b \<in> shard_owned (ss ! k) \<or> blocks h b = None"
  shows "shards_inv (ss[k := s']) h'"
proof -
  have ok: "heap_ok h'" using s' by (simp add: shard_inv_def)
  have "shard_inv s h'" if "s \<in> set (ss[k := s'])" for s
  proof -
    from that have "s = s' \<or> s \<in> set ss" using set_update_subset_insert by fastforce
    with inv s' live ok show ?thesis by (auto simp: shards_inv_def intro: shard_inv_keeps)
  qed
  moreover have other: "shard_owned s' \<inter> shard_owned (ss ! j) = {}" if "j < length ss" "j \<noteq> k" for j
  proof -
    have "shard_owned (ss ! k) \<inter> shard_owned (ss ! j) = {}"
      using inv that k unfolding shards_inv_def by metis
    moreover have "\<forall>b \<in> shard_owned (ss ! j). blocks h b \<noteq> None"
      using shard_owned_live [OF shards_invD [OF inv that(1)]] by blast
    ultimately show ?thesis using own by blast
  qed
  have "shard_owned (ss[k := s'] ! i) \<inter> shard_owned (ss[k := s'] ! j) = {}"
    if "i < length ss" "j < length ss" "i \<noteq> j" for i j
  proof -
    have "shard_owned (ss ! i) \<inter> shard_owned (ss ! j) = {}"
      using inv that unfolding shards_inv_def by metis
    with other [of i] other [of j] that show ?thesis
      by (cases "i = k"; cases "j = k") (simp_all add: Int_commute)
  qed
  ultimately show ?thesis using ok by (simp add: shards_inv_def)
qed

lemma shards_held_update:
  assumes "shards_held ss h q m" and "k < length ss" and "keeps_live h h'"
    and "\<And>q m. shard_held (ss ! k) h q m \<Longrightarrow> shard_held s' h' q m"
  shows "shards_held (ss[k := s']) h' q m"
proof -
  from assms(1) obtain j where j: "j < length ss" "shard_held (ss ! j) h q m"
    unfolding shards_held_def by (metis in_set_conv_nth)
  then have "shard_held (ss[k := s'] ! j) h' q m"
    using assms(3,4) shard_held_keeps by (cases "j = k") simp_all
  moreover have "ss[k := s'] ! j \<in> set (ss[k := s'])" using j by simp
  ultimately show ?thesis unfolding shards_held_def by blast
qed

lemma shards_alloc_ok:
  assumes inv: "shards_inv ss h" and n: "0 < unat n" "unat n \<le> 2147483647"
    and a: "shards_alloc k hint ss h n = (Inr p, ss', h')"
  obtains s' where "k < length ss" "ss' = ss[k := s']"
    "allocate_bytes (ss ! k) h (ucast n) hint = (Inr p, s', h')"
    "shard_inv s' h'" "shard_held s' h' p (unat n)" "keeps_live h h'"
    "\<forall>b. ptr_blk p = Some b \<longrightarrow> b \<in> shard_owned (ss ! k) \<or> blocks h b = None"
    "shard_owned (ss ! k) \<subseteq> shard_owned s'"
    "\<forall>b \<in> shard_owned s'. b \<in> shard_owned (ss ! k) \<or> blocks h b = None"
proof -
  from a obtain s' where k: "k < length ss" and s': "ss' = ss[k := s']"
    "allocate_bytes (ss ! k) h (ucast n) hint = (Inr p, s', h')"
    by (auto simp: shards_alloc_def split: if_splits prod.splits)
  with shard.alloc_ok [OF shards_invD [OF inv k] n s'(2)] that show ?thesis by blast
qed

lemma shards_inv_shape: "shards_inv ss h \<Longrightarrow> same_shape h h' \<Longrightarrow> shards_inv ss h'"
  by (auto simp: shards_inv_def intro: shard_inv_shape same_shape_heap_ok)

lemma shards_held_shape: "shards_held ss h q m \<Longrightarrow> same_shape h h' \<Longrightarrow> shards_held ss h' q m"
  using shard_held_shape unfolding shards_held_def by blast

lemma shards_held_live:
  assumes "shards_held ss h q m"
  shows "\<exists>b off bs. q = At b off \<and> b \<in> shards_owned ss \<and> blocks h b = Some bs \<and> off + m \<le> length bs"
proof -
  from assms obtain s where s: "s \<in> set ss" "shard_held s h q m" unfolding shards_held_def by blast
  from shard_held_live [OF s(2)] s(1) show ?thesis unfolding shards_owned_def by blast
qed

lemma shards_owned_disjoint:
  "shards_inv ss h \<Longrightarrow> i < length ss \<Longrightarrow> j < length ss \<Longrightarrow> i \<noteq> j \<Longrightarrow>
     b \<in> shard_owned (ss ! i) \<Longrightarrow> b \<notin> shard_owned (ss ! j)"
  unfolding shards_inv_def by blast

lemma shards_owned_update:
  assumes k: "k < length ss" and sub: "shard_owned (ss ! k) \<subseteq> shard_owned s'"
    and new: "\<forall>b \<in> shard_owned s'. b \<in> shard_owned (ss ! k) \<or> blocks h b = None"
  shows "shards_owned ss \<subseteq> shards_owned (ss[k := s'])"
    and "\<And>b. b \<in> shards_owned (ss[k := s']) \<Longrightarrow> b \<in> shards_owned ss \<or> blocks h b = None"
proof
  fix b
  assume "b \<in> shards_owned ss"
  then obtain j where j: "j < length ss" "b \<in> shard_owned (ss ! j)"
    unfolding shards_owned_def by (metis UN_E in_set_conv_nth)
  then have "b \<in> shard_owned (ss[k := s'] ! j)" using subsetD [OF sub] by (cases "j = k") simp_all
  moreover have "ss[k := s'] ! j \<in> set (ss[k := s'])" using j by simp
  ultimately show "b \<in> shards_owned (ss[k := s'])" unfolding shards_owned_def by blast
next
  fix b
  assume "b \<in> shards_owned (ss[k := s'])"
  then obtain s where s: "s \<in> set (ss[k := s'])" "b \<in> shard_owned s" unfolding shards_owned_def by blast
  have kk: "ss ! k \<in> set ss" using k by simp
  have "s = s' \<or> s \<in> set ss" using s(1) set_update_subset_insert by (metis insertE subsetD)
  then show "b \<in> shards_owned ss \<or> blocks h b = None"
  proof
    assume "s = s'"
    with s(2) new have "b \<in> shard_owned (ss ! k) \<or> blocks h b = None" by simp
    with kk show ?thesis unfolding shards_owned_def by (metis UN_I)
  next
    assume "s \<in> set ss"
    with s(2) show ?thesis unfolding shards_owned_def by (metis UN_I)
  qed
qed

interpretation pool: region_allocator "shards_alloc k hint" shards_inv shards_owned shards_held
  for k :: nat and hint :: size_t
proof
  fix ss h and n :: size_t and p ss' h'
  assume i: "shards_inv ss h" and n: "0 < unat n" "unat n \<le> 2147483647"
    and a: "shards_alloc k hint ss h n = (Inr p, ss', h')"
  obtain s' where s': "k < length ss" "ss' = ss[k := s']"
    "allocate_bytes (ss ! k) h (ucast n) hint = (Inr p, s', h')"
    "shard_inv s' h'" "shard_held s' h' p (unat n)" "keeps_live h h'"
    "\<forall>b. ptr_blk p = Some b \<longrightarrow> b \<in> shard_owned (ss ! k) \<or> blocks h b = None"
    "shard_owned (ss ! k) \<subseteq> shard_owned s'"
    "\<forall>b \<in> shard_owned s'. b \<in> shard_owned (ss ! k) \<or> blocks h b = None"
    using shards_alloc_ok [OF i n a] by metis
  have in_ss': "s' \<in> set ss'" using s'(1,2) set_update_memI by metis
  note own = shards_owned_update [OF s'(1) s'(8,9), folded s'(2)]
  have "ss ! k \<in> set ss" using s'(1) by simp
  then have room: "b \<in> shards_owned ss \<or> blocks h b = None" if "ptr_blk p = Some b" for b
    using that s'(7) unfolding shards_owned_def by (metis UN_I)
  have inv': "shards_inv ss' h'" using shards_inv_update [OF i s'(1,4,6,9)] s'(2) by simp
  have held': "shards_held ss' h' p (unat n)" using s'(5) in_ss' unfolding shards_held_def by (rule bexI)
  show "shards_inv ss' h' \<and> shards_held ss' h' p (unat n) \<and> keeps_live h h' \<and>
    (\<forall>b. ptr_blk p = Some b \<longrightarrow> b \<in> shards_owned ss \<or> blocks h b = None) \<and>
    shards_owned ss \<subseteq> shards_owned ss' \<and> (\<forall>b \<in> shards_owned ss'. b \<in> shards_owned ss \<or> blocks h b = None)"
    by (intro conjI allI impI ballI inv' held' s'(6) room own)
  show "shards_held ss' h' q m \<and> disjoint p (unat n) q m" if q: "shards_held ss h q m" for q m
  proof
    note h' = shard.alloc_held [OF shards_invD [OF i s'(1)] n s'(3)]
    show "shards_held ss' h' q m"
      unfolding s'(2) by (rule shards_held_update [OF q s'(1,6)]) (erule h' [THEN conjunct1])
    from q obtain j where j: "j < length ss" "shard_held (ss ! j) h q m"
      unfolding shards_held_def by (metis in_set_conv_nth)
    show "disjoint p (unat n) q m"
    proof (cases "j = k")
      case True
      with h' [THEN conjunct2] j show ?thesis by simp
    next
      case False
      obtain b off where b: "q = At b off" "b \<in> shard_owned (ss ! j)" "blocks h b \<noteq> None"
        using shard_held_live [OF j(2)] by blast
      have "b \<notin> shard_owned (ss ! k)"
        using i j(1) s'(1) False b(2) by (rule shards_owned_disjoint)
      with s'(7) b have "ptr_blk p \<noteq> ptr_blk q" by auto
      then show ?thesis by (rule disjoint_blk)
    qed
  qed
next
  fix ss h and n :: size_t and e ss' h'
  assume i: "shards_inv ss h" and n: "0 < unat n" "unat n \<le> 2147483647"
    and a: "shards_alloc k hint ss h n = (Inl e, ss', h')"
  show "e \<noteq> Undefined \<and> ss' = ss \<and> same_shape h h' \<and> blocks h' = blocks h"
  proof (cases "k < length ss")
    case True
    with a obtain s' where s': "ss' = ss[k := s']"
      "allocate_bytes (ss ! k) h (ucast n) hint = (Inl e, s', h')"
      by (auto simp: shards_alloc_def split: prod.splits)
    with shard.alloc_fail [OF shards_invD [OF i True] n s'(2)] show ?thesis by simp
  next
    case False
    with a show ?thesis by (auto simp: shards_alloc_def)
  qed
next
  show "\<exists>b off bs. q = At b off \<and> b \<in> shards_owned ss \<and> blocks h b = Some bs \<and> off + m \<le> length bs"
    if "shards_held ss h q m" for ss h q m
    using that by (rule shards_held_live)
  show "shards_inv ss h' \<and> (\<forall>q m. shards_held ss h q m \<longrightarrow> shards_held ss h' q m)"
    if "shards_inv ss h" "same_shape h h'" for ss h h'
    using shards_inv_shape [OF that] shards_held_shape that(2) by blast
qed

section \<open>The branches of fill_record\<close>

text \<open>The element a call with these bytes and this encoding stands for.\<close>

definition element_of :: "cetype_ext_t \<Rightarrow> u8 list \<Rightarrow> element" where
  "element_of c ys = (if c = CETYPE_EXT_NA then NA else Str ys c)"

lemma element_of_NA [simp]: "element_of CETYPE_EXT_NA ys = NA"
  by (simp add: element_of_def)

lemma element_of_Str: "c \<noteq> CETYPE_EXT_NA \<Longrightarrow> element_of c ys = Str ys c"
  by (simp add: element_of_def)

definition fill_in_range :: "record_table \<Rightarrow> size_t \<Rightarrow> size_t \<Rightarrow> bool" where
  "fill_in_range t idx l \<longleftrightarrow> unat idx < vector_length t \<and> unat l \<le> 2147483647"

lemma of_nat_le_size_iff:
  "rt_ok t \<Longrightarrow> (of_nat (vector_length t) :: size_t) \<le> idx \<longleftrightarrow> vector_length t \<le> unat idx"
  by (frule rt_ok_bound) (simp add: word_le_nat_alt unat_of_nat_u64)

lemma fill_record_cases:
  assumes ok: "rt_ok t" and f: "fill_record s t h idx l c = (r, s', t', h')"
  obtains
    (error) e where "r = Inl (Runtime_error e)" "\<not> fill_in_range t idx l" "s' = s" "t' = t" "h' = h"
  | (na) "fill_in_range t idx l" "c = CETYPE_EXT_NA" "r = Inr Null" "s' = s" "h' = h" "rt_ok t'"
      "rt_views t' = (rt_views t)[unat idx := na_record]"
  | (empty) "fill_in_range t idx l" "c \<noteq> CETYPE_EXT_NA" "l = 0" "r = Inr Empty" "s' = s" "h' = h" "rt_ok t'"
      "rt_views t' = (rt_views t)[unat idx := empty_record c]"
  | (no_memory) e where "fill_in_range t idx l" "c \<noteq> CETYPE_EXT_NA" "l \<noteq> 0" "r = Inl e"
      "allocate_bytes s h (ucast l) (of_nat (vector_length t)) = (Inl e, s', h')" "t' = t"
  | (room) p where "fill_in_range t idx l" "c \<noteq> CETYPE_EXT_NA" "l \<noteq> 0" "r = Inr p"
      "allocate_bytes s h (ucast l) (of_nat (vector_length t)) = (Inr p, s', h')" "rt_ok t'"
      "rt_views t' = (rt_views t)[unat idx := make_strview p (ucast l) c]"
proof (cases "fill_in_range t idx l")
  case False
  have "vector_length t \<le> unat idx \<or> \<not> unat l \<le> 2147483647" using False by (auto simp: fill_in_range_def)
  with f have "(\<exists>e. r = Inl (Runtime_error e)) \<and> s' = s \<and> t' = t \<and> h' = h"
    by (auto simp: fill_record_def of_nat_le_size_iff [OF ok] checked_string_size_cases split: if_splits)
  with False show ?thesis by (elim conjE exE) (rule error)
next
  case True
  then have i: "unat idx < vector_length t" and l: "unat l \<le> 2147483647"
    by (simp_all add: fill_in_range_def)
  note f' = f [unfolded fill_record_def of_nat_le_size_iff [OF ok] checked_string_size_cases]
  have set_ok: "rt_ok t1 \<and> rt_views t1 = (rt_views t)[unat idx := make_strview q m d]"
    if "rt_set t (unat idx) q m d = Inr t1" for q m d t1
    using rt_set_views [OF ok i that] .
  note set_succ = rt_set_succ [OF ok i]
  consider "c = CETYPE_EXT_NA" | "c \<noteq> CETYPE_EXT_NA" "l = 0" | "c \<noteq> CETYPE_EXT_NA" "l \<noteq> 0" by blast
  then show ?thesis
  proof cases
    case 1
    obtain t1 where t1: "rt_set t (unat idx) Null NA_INTEGER CETYPE_EXT_NA = Inr t1"
      using set_succ by blast
    show ?thesis
      by (rule na [OF True 1]) (use f' i l 1 t1 set_ok [OF t1] in \<open>auto simp: rt_set_na_def na_record_def\<close>)
  next
    case 2
    obtain t1 where t1: "rt_set t (unat idx) Empty 0 c = Inr t1" using set_succ by blast
    show ?thesis
      by (rule empty [OF True 2])
        (use f' i l 2 t1 set_ok [OF t1] in \<open>auto simp: empty_record_def empty_data_def\<close>)
  next
    case 3
    have nz: "(ucast l :: u32) \<noteq> 0" using l 3(2) ucast_len_0_iff by blast
    obtain q s1 h1 where al: "allocate_bytes s h (ucast l) (of_nat (vector_length t)) = (q, s1, h1)"
      by (metis prod_cases3)
    show ?thesis
    proof (cases q)
      case (Inl e)
      show ?thesis
        by (rule no_memory [OF True 3]) (use f' i l 3 nz al Inl in auto)
    next
      case (Inr p)
      obtain t1 where t1: "rt_set t (unat idx) p (ucast l) c = Inr t1" using set_succ by blast
      show ?thesis
        by (rule room [OF True 3]) (use f' i l 3 nz al Inr t1 set_ok [OF t1] in auto)
    qed
  qed
qed

section \<open>What they do to the contents\<close>

lemma vector_length_views: "rt_views t' = (rt_views t)[i := v] \<Longrightarrow> vector_length t' = vector_length t"
  by (metis length_rt_views length_list_update)

lemma views_update_other:
  assumes "rt_views t' = (rt_views t)[i := v]" and "j < vector_length t" and "j \<noteq> i"
  shows "rt_at t' j = rt_at t j"
  using assms vector_length_views [OF assms(1)] by (metis nth_list_update_neq nth_rt_views)

lemma shards_alloc_at:
  "k < length ss \<Longrightarrow> allocate_bytes (ss ! k) h (ucast n) hint = (r, s', h') \<Longrightarrow>
     shards_alloc k hint ss h n = (r, ss[k := s'], h')"
  by (simp add: shards_alloc_def)

text \<open>
  The state a builder keeps between calls: its table is well formed, the records hold the
  elements \<open>es\<close> in room of the shards, and no two records share a payload byte.
\<close>

definition pool_denotes :: "shard list \<Rightarrow> record_table \<Rightarrow> heap \<Rightarrow> element list \<Rightarrow> bool" where
  "pool_denotes ss t h es \<longleftrightarrow> rt_ok t \<and> pool.good ss h (rt_views t) es \<and> apart (rt_views t)"

lemma pool_denotesD:
  assumes "pool_denotes ss t h es"
  shows "rt_ok t" and "pool.good ss h (rt_views t) es" and "apart (rt_views t)"
    and "length es = vector_length t" and "shards_inv ss h"
  using assms pool.good_inv
  by (auto simp: pool_denotes_def pool.good_def dest: list_all2_lengthD)

lemma pool_denotes_rt: "pool_denotes ss t h es \<Longrightarrow> rt_denotes h t es"
  using pool.good_content [of ss h "rt_views t" es] by (simp add: pool_denotes_def rt_denotes_iff)

text \<open>A failing call leaves the contents, whatever the failure, and none is undefined.\<close>

definition fails_safely ::
    "shard list \<Rightarrow> shard list \<Rightarrow> record_table \<Rightarrow> record_table \<Rightarrow> heap \<Rightarrow> heap \<Rightarrow> element list \<Rightarrow> fault \<Rightarrow> bool" where
  "fails_safely ss ss' t t' h h' es e \<longleftrightarrow>
     e \<noteq> Undefined \<and> ss' = ss \<and> t' = t \<and> blocks h' = blocks h \<and> pool_denotes ss' t' h' es"

lemma fill_no_memory:
  assumes d: "pool_denotes ss t h es" and k: "k < length ss" and l: "unat (l :: size_t) \<le> 2147483647" "l \<noteq> 0"
    and a: "allocate_bytes (ss ! k) h (ucast l) hint = (Inl e, s', h')"
  shows "fails_safely ss (ss[k := s']) t t h h' es e"
proof -
  have "0 < unat l" using l by (simp add: unat_gt_0)
  from pool.good_alloc_fail [OF pool_denotesD(2) [OF d] this l(1) shards_alloc_at [OF k a]] d
  show ?thesis by (simp add: fails_safely_def pool_denotes_def)
qed

text \<open>
  \<open>fill_record\<close> (and so \<open>reserve\<close>): on success the record at the index is a string of the
  requested length and encoding, with arbitrary bytes, in room no other record uses.
\<close>

lemma fill_record_good:
  assumes d: "pool_denotes ss t h es" and k: "k < length ss"
    and f: "fill_record (ss ! k) t h idx l c = (r, s', t', h')"
  shows "case r of
      Inl e \<Rightarrow> fails_safely ss (ss[k := s']) t t' h h' es e \<and>
        (fill_in_range t idx l \<longrightarrow> (\<exists>i m. \<not> can_alloc h i m))
    | Inr p \<Rightarrow> fill_in_range t idx l \<and> vector_length t' = vector_length t \<and>
        (\<exists>ys. length ys = unat l \<and> pool_denotes (ss[k := s']) t' h' (es[unat idx := element_of c ys])) \<and>
        (c = CETYPE_EXT_NA \<and> p = Null \<or>
         c \<noteq> CETYPE_EXT_NA \<and> p = sv_ptr (rt_views t' ! unat idx) \<and> p \<noteq> Null) \<and>
        (\<forall>b. b \<notin> shards_owned ss \<longrightarrow> blocks h b \<noteq> None \<longrightarrow> blocks h' b = blocks h b) \<and>
        (\<forall>b \<in> shards_owned (ss[k := s']). b \<in> shards_owned ss \<or> blocks h b = None) \<and>
        (\<forall>j < vector_length t. j \<noteq> unat idx \<longrightarrow> rt_at t' j = rt_at t j)"
  using pool_denotesD(1) [OF d] f
proof (cases rule: fill_record_cases)
  case (error e)
  with d k show ?thesis by (simp add: fails_safely_def)
next
  case na
  have "pool_denotes (ss[k := s']) t' h' (es[unat idx := NA])"
    using d na k pool.good_update [OF pool_denotesD(2) [OF d] pool.good_na] apart_update
    by (simp add: pool_denotes_def)
  with na show ?thesis
    by (auto simp: vector_length_views views_update_other intro: exI [of _ "replicate (unat l) 0"])
next
  case empty
  have "pool_denotes (ss[k := s']) t' h' (es[unat idx := Str [] c])"
    using d empty k pool.good_update [OF pool_denotesD(2) [OF d] pool.good_empty] apart_update
    by (simp add: pool_denotes_def)
  with empty show ?thesis
    by (auto simp: vector_length_views views_update_other element_of_Str empty_record_def empty_data_def
        fill_in_range_def)
next
  case (no_memory e)
  then have l: "unat l \<le> 2147483647" by (simp add: fill_in_range_def)
  have "0 < unat (ucast l :: u32)" "unat (ucast l :: u32) \<le> 2147483647"
    using no_memory(3) l by (simp_all add: unat_ucast_len unat_gt_0)
  from allocate_bytes_oom [OF this no_memory(5)] no_memory fill_no_memory [OF d k l no_memory(3,5)]
  show ?thesis by simp
next
  case (room p)
  note g = pool_denotesD(2) [OF d] and a = shards_alloc_at [OF k room(5)]
  have l: "0 < unat l" "unat l \<le> 2147483647" using room by (auto simp: fill_in_range_def unat_gt_0)
  obtain ys where ys: "length ys = unat l" "pool.good (ss[k := s']) h' (rt_views t) es"
    "view_content h' (make_strview p (ucast l) c) = Some (Str ys c)"
    "pool.rec_held (ss[k := s']) h' (make_strview p (ucast l) c)"
    using pool.good_alloc_reserve [OF g l a room(2)] by blast
  from pool.good_update [OF ys(2-4), of "unat idx"] room apart_update [OF pool_denotesD(3) [OF d]]
    pool.alloc_apart [OF g l a]
  have "pool_denotes (ss[k := s']) t' h' (es[unat idx := Str ys c])"
    by (simp add: pool_denotes_def)
  moreover have "p \<noteq> Null" using ys(3) by (auto simp: view_content_Str strview_is_na_def)
  moreover note al = pool.alloc_ok [OF pool.good_inv [OF g] l a]
  then have "keeps_live h h'" by simp
  then have "\<forall>b. b \<notin> shards_owned ss \<longrightarrow> blocks h b \<noteq> None \<longrightarrow> blocks h' b = blocks h b"
    by (auto simp: keeps_live_def)
  ultimately show ?thesis using room ys(1) al
    by (auto simp: vector_length_views views_update_other element_of_Str fill_in_range_def)
qed

text \<open>
  \<open>copy_record\<close>: the bytes to copy are readable and lie outside the shards' slices, or in
  room a shard handed out before (a view of the builder itself).
\<close>

definition source_ok :: "shard list \<Rightarrow> heap \<Rightarrow> ptr \<Rightarrow> size_t \<Rightarrow> u8 list \<Rightarrow> bool" where
  "source_ok ss h src l ys \<longleftrightarrow>
     (if l = 0 then ys = []
      else mem_read h src (unat l) = Some ys \<and> pool.src_ok ss h src (unat l))"

lemma copy_record_good:
  assumes d: "pool_denotes ss t h es" and k: "k < length ss"
    and f: "copy_record (ss ! k) t h idx src l c = (r, s', t', h')"
    and src: "c = CETYPE_EXT_NA \<or> source_ok ss h src l ys"
  shows "case r of
      Inl e \<Rightarrow> fails_safely ss (ss[k := s']) t t' h h' es e \<and>
        (fill_in_range t idx l \<longrightarrow> (\<exists>i m. \<not> can_alloc h i m))
    | Inr u \<Rightarrow> fill_in_range t idx l \<and> vector_length t' = vector_length t \<and>
        pool_denotes (ss[k := s']) t' h' (es[unat idx := element_of c ys]) \<and>
        (\<forall>b. b \<notin> shards_owned ss \<longrightarrow> blocks h b \<noteq> None \<longrightarrow> blocks h' b = blocks h b)"
proof -
  obtain q s1 t1 h1 where q: "fill_record (ss ! k) t h idx l c = (q, s1, t1, h1)" by (metis prod_cases4)
  note fill = fill_record_good [OF d k q]
  show ?thesis
    using pool_denotesD(1) [OF d] q
  proof (cases rule: fill_record_cases)
    case (room p)
    note g = pool_denotesD(2) [OF d] and a = shards_alloc_at [OF k room(5)]
    have l: "0 < unat l" "unat l \<le> 2147483647" using room by (auto simp: fill_in_range_def unat_gt_0)
    have s: "mem_read h src (unat l) = Some ys" "pool.src_ok ss h src (unat l)"
      using src room by (simp_all add: source_ok_def)
    obtain h2 where m: "memcpy h1 p src (unat l) = (Inr (), h2)"
      and g2: "pool.good (ss[k := s1]) h2 (rt_views t) es"
      and v: "view_content h2 (make_strview p (ucast l) c) = Some (Str ys c)"
        "pool.rec_held (ss[k := s1]) h2 (make_strview p (ucast l) c)"
      and fr: "\<forall>b. b \<notin> shards_owned ss \<longrightarrow> blocks h b \<noteq> None \<longrightarrow> blocks h2 b = blocks h b"
      using pool.good_alloc_copy [OF g l a room(2) s] by blast
    have "p \<noteq> Null" using v(1) by (auto simp: view_content_Str strview_is_na_def)
    moreover have "0 < l" using room(3) by (simp add: word_gt_0)
    ultimately have r: "(r, s', t', h') = (Inr (), s1, t1, h2)"
      using f q room(4) m by (simp add: copy_record_def)
    have "pool_denotes (ss[k := s1]) t1 h2 (es[unat idx := Str ys c])"
      using pool.good_update [OF g2 v, of "unat idx"] room apart_update [OF pool_denotesD(3) [OF d]]
        pool.alloc_apart [OF g l a]
      by (simp add: pool_denotes_def)
    with r fr room show ?thesis
      by (auto simp: vector_length_views element_of_Str)
  next
    case empty
    then have r: "(r, s', t', h') = (Inr (), s1, t1, h1)" using f q by (simp add: copy_record_def)
    have "ys = []" using src empty by (simp add: source_ok_def)
    with fill r empty show ?thesis by auto
  next
    case na
    then have r: "(r, s', t', h') = (Inr (), s1, t1, h1)" using f q by (simp add: copy_record_def)
    with fill na show ?thesis by auto
  next
    case (no_memory e)
    then have "r = Inl e" "s' = s1" "t' = t1" "h' = h1" using f q by (simp_all add: copy_record_def)
    with fill no_memory show ?thesis by simp
  next
    case (error e)
    then have "r = Inl (Runtime_error e)" "s' = s1" "t' = t1" "h' = h1"
      using f q by (simp_all add: copy_record_def)
    with fill error show ?thesis by simp
  qed
qed

text \<open>Bytes the caller writes into reserved room later become the string, and no other changes.\<close>

lemma pool_write_late:
  assumes d: "pool_denotes ss t h es" and i: "i < length es" "es ! i = Str xs c"
    and ys: "length ys = length xs"
  shows "\<exists>h'. mem_write h (sv_ptr (rt_views t ! i)) ys = Some h' \<and>
    pool_denotes ss t h' (es[i := Str ys c])"
  using pool.good_write_late [OF pool_denotesD(2,3) [OF d] _ i(2) ys] d i pool_denotesD(4) [OF d]
  by (auto simp: pool_denotes_def)

lemma shard_owned_new [simp]: "shard_owned shard_new = {}"
  by (simp add: shard_owned_def shard_new_def)

lemma pool_denotes_new:
  assumes "rt_new n h = (Inr t, h')" and "heap_ok h" and "\<forall>s \<in> set ss. s = shard_new"
  shows "pool_denotes ss t h' (replicate n NA)"
proof -
  note t = rt_new_ok [OF assms(1)]
  have "heap_ok h'" using rt_new_blocks [OF assms(1)] assms(2) by (simp add: heap_ok_def)
  then have inv: "shards_inv ss h'"
    using assms(3) by (simp add: shards_inv_def shard_inv_new all_set_conv_all_nth)
  have v: "rt_views t = replicate n na_record"
    using t by (intro nth_equalityI) (simp_all add: na_record_def)
  have "pool.good ss h' (replicate n na_record) (replicate n NA)"
    using inv pool.good_na by (simp add: pool.good_def list_all2_conv_all_nth)
  moreover have "apart (replicate n na_record)" by (simp add: apart_def)
  ultimately show ?thesis using t v by (simp add: pool_denotes_def)
qed

text \<open>
  The owner of the blocks \<open>A\<close> now owns \<open>B\<close>: only fresh blocks were added, and every block it
  does not own, live or not, is as it was (so nothing was allocated that it does not own).
\<close>

definition takes_only :: "blk set \<Rightarrow> blk set \<Rightarrow> heap \<Rightarrow> heap \<Rightarrow> bool" where
  "takes_only A B h h' \<longleftrightarrow>
     A \<subseteq> B \<and> (\<forall>x. x \<notin> B \<longrightarrow> blocks h' x = blocks h x) \<and> (\<forall>x \<in> B. x \<in> A \<or> blocks h x = None)"

lemma takes_only_refl [simp]: "takes_only A A h h"
  by (simp add: takes_only_def)

lemma takes_only_same: "blocks h' = blocks h \<Longrightarrow> takes_only A A h h'"
  by (simp add: takes_only_def)

lemma takes_only_trans:
  assumes "takes_only A B h h1" and "takes_only B C h1 h2"
  shows "takes_only A C h h2"
  unfolding takes_only_def
proof (intro conjI allI ballI impI)
  show "A \<subseteq> C" using assms by (auto simp: takes_only_def)
  show "blocks h2 x = blocks h x" if "x \<notin> C" for x
  proof -
    have "x \<notin> B" using assms(2) that by (auto simp: takes_only_def)
    with that assms show ?thesis by (simp add: takes_only_def)
  qed
  show "x \<in> A \<or> blocks h x = None" if "x \<in> C" for x
    using that assms by (cases "x \<in> B") (auto simp: takes_only_def)
qed

lemma takes_only_outside:
  "takes_only A B h h' \<Longrightarrow> x \<notin> A \<Longrightarrow> blocks h x \<noteq> None \<Longrightarrow> blocks h' x = blocks h x \<and> x \<notin> B"
  unfolding takes_only_def by metis

lemma takes_only_write:
  assumes "takes_only A B h h1" and "mem_write h1 p ys = Some h2" and "\<And>b. ptr_blk p = Some b \<Longrightarrow> b \<in> B"
  shows "takes_only A B h h2"
  using assms mem_write_frame [OF assms(2)] unfolding takes_only_def by metis

lemma allocate_bytes_takes:
  assumes inv: "shard_inv s h" and l: "0 < unat l" "unat l \<le> 2147483647"
    and a: "allocate_bytes s h l hint = (Inr p, s', h')"
  shows "takes_only (shard_owned s) (shard_owned s') h h'"
    and "\<And>b. ptr_blk p = Some b \<Longrightarrow> b \<in> shard_owned s'"
  using inv l a by (cases rule: allocate_bytes_cases; auto simp: takes_only_def shard_owned_def)+

lemma fill_record_takes:
  assumes inv: "shard_inv s h" and ok: "rt_ok t" and f: "fill_record s t h idx l c = (Inr p, s', t', h')"
  shows "takes_only (shard_owned s) (shard_owned s') h h'"
    and "\<And>b. ptr_blk p = Some b \<Longrightarrow> b \<in> shard_owned s'"
proof -
  have "takes_only (shard_owned s) (shard_owned s') h h' \<and> (\<forall>b. ptr_blk p = Some b \<longrightarrow> b \<in> shard_owned s')"
    using ok f
  proof (cases rule: fill_record_cases)
    case (room q)
    then have l: "0 < unat (ucast l :: u32)" "unat (ucast l :: u32) \<le> 2147483647"
      by (auto simp: fill_in_range_def unat_ucast_len unat_gt_0)
    show ?thesis using allocate_bytes_takes [OF inv l room(5)] room(4) by simp
  qed simp_all
  then show "takes_only (shard_owned s) (shard_owned s') h h'"
    "\<And>b. ptr_blk p = Some b \<Longrightarrow> b \<in> shard_owned s'" by simp_all
qed

lemma copy_record_takes:
  assumes inv: "shard_inv s h" and ok: "rt_ok t"
    and f: "copy_record s t h idx src l c = (Inr u, s', t', h')"
  shows "takes_only (shard_owned s) (shard_owned s') h h'"
proof -
  obtain q s1 t1 h1 where q: "fill_record s t h idx l c = (q, s1, t1, h1)" by (metis prod_cases4)
  with f obtain p where p: "q = Inr p" "s1 = s'"
    by (auto simp: copy_record_def split: sum.splits if_splits prod.splits)
  note t = fill_record_takes [OF inv ok q [unfolded p]]
  show ?thesis
  proof (cases "p \<noteq> Null \<and> 0 < l")
    case True
    with f q p obtain ys where "mem_write h1 p ys = Some h'"
      by (auto simp: copy_record_def memcpy_def memmove_def split: if_splits option.splits prod.splits)
    then show ?thesis using takes_only_write [OF t(1) _ t(2)] by blast
  next
    case False
    with f q p t(1) show ?thesis by (auto simp: copy_record_def)
  qed
qed

end
