(* ===== verification/Cp_Builder.thy ===== *)
theory Cp_Builder
  imports Cp_Fill
begin

text \<open>
  \<open>Builder\<close> of \<open>inst/include/charport/charvec/builder.h\<close>. A builder is a
  store whose table it fills and a shard that owns the payload until \<open>finish_store\<close> splices
  the shard's slices into the store. Every operation returns the fault it throws or its value,
  with the builder and the heap it leaves.
\<close>

section \<open>Builder\<close>

record builder =
  bd_store :: store
  bd_shard :: shard

definition checked_vector_size :: "R_xlen_t \<Rightarrow> fault + size_t" where
  "checked_vector_size n =
     (if sint n < 0 then Inl (Runtime_error ''charvec builder: negative length'') else Inr n)"

definition builder_new :: "R_xlen_t \<Rightarrow> heap \<Rightarrow> (fault + builder) \<times> heap" where
  "builder_new n h =
     (case checked_vector_size n of
        Inl e \<Rightarrow> (Inl e, h)
      | Inr k \<Rightarrow>
          (case store_new (unat k) 0 h of
             (Inl e, h') \<Rightarrow> (Inl e, h')
           | (Inr st, h') \<Rightarrow> (Inr \<lparr>bd_store = st, bd_shard = shard_new\<rparr>, h')))"

text \<open>\<open>reset\<close>: the move assignments free the slices of the old store and of the old shard.\<close>

definition builder_reset :: "builder \<Rightarrow> R_xlen_t \<Rightarrow> heap \<Rightarrow> (fault + unit) \<times> builder \<times> heap" where
  "builder_reset b n h =
     (case checked_vector_size n of
        Inl e \<Rightarrow> (Inl e, b, h)
      | Inr k \<Rightarrow>
          (case store_new (unat k) 0 h of
             (Inl e, h') \<Rightarrow> (Inl e, b, h')
           | (Inr st, h') \<Rightarrow>
               (let h1 = snd (slice_clear (st_slices (bd_store b)) h');
                    h2 = snd (slice_clear (sh_slices (bd_shard b)) h1)
                in (Inr (), \<lparr>bd_store = st, bd_shard = shard_new\<rparr>, h2))))"

definition builder_copy_record ::
    "builder \<Rightarrow> size_t \<Rightarrow> ptr \<Rightarrow> size_t \<Rightarrow> cetype_ext_t \<Rightarrow> heap \<Rightarrow> (fault + unit) \<times> builder \<times> heap" where
  "builder_copy_record b i src l c h =
     (case copy_record (bd_shard b) (st_records (bd_store b)) h i src l c of
        (r, s, t, h') \<Rightarrow> (r, \<lparr>bd_store = (bd_store b)\<lparr>st_records := t\<rparr>, bd_shard = s\<rparr>, h'))"

definition builder_set ::
    "builder \<Rightarrow> R_xlen_t \<Rightarrow> ptr \<Rightarrow> size_t \<Rightarrow> cetype_ext_t \<Rightarrow> heap \<Rightarrow> (fault + unit) \<times> builder \<times> heap" where
  "builder_set b i src l c h =
     (if src = Null \<or> c = CETYPE_EXT_NA
      then builder_copy_record b i Null 0 CETYPE_EXT_NA h
      else builder_copy_record b i src l c h)"

definition builder_set_na :: "builder \<Rightarrow> R_xlen_t \<Rightarrow> heap \<Rightarrow> (fault + unit) \<times> builder \<times> heap" where
  "builder_set_na b i h = builder_set b i Null 0 CETYPE_EXT_NA h"

definition builder_set_view ::
    "builder \<Rightarrow> R_xlen_t \<Rightarrow> charport_strview \<Rightarrow> heap \<Rightarrow> (fault + unit) \<times> builder \<times> heap" where
  "builder_set_view b i v h =
     (if strview_is_na v then builder_set_na b i h
      else builder_set b i (sv_ptr v) (scast (sv_len v)) (sv_enc v) h)"

definition builder_reserve ::
    "builder \<Rightarrow> R_xlen_t \<Rightarrow> size_t \<Rightarrow> cetype_ext_t \<Rightarrow> heap \<Rightarrow> (fault + ptr) \<times> builder \<times> heap" where
  "builder_reserve b i l c h =
     (case fill_record (bd_shard b) (st_records (bd_store b)) h i l c of
        (r, s, t, h') \<Rightarrow> (r, \<lparr>bd_store = (bd_store b)\<lparr>st_records := t\<rparr>, bd_shard = s\<rparr>, h'))"

definition builder_finish_store :: "builder \<Rightarrow> builder" where
  "builder_finish_store b =
     (case slice_prepend (sh_slices (bd_shard b)) (st_slices (bd_store b)) of
        (ss, rest) \<Rightarrow>
          \<lparr>bd_store = (bd_store b)\<lparr>st_slices := ss\<rparr>, bd_shard = shard_new\<rparr>)"

text \<open>\<open>release_store\<close> moves the finished store out and leaves an empty one.\<close>

definition builder_release_store :: "builder \<Rightarrow> store \<times> builder" where
  "builder_release_store b =
     (let b' = builder_finish_store b in (bd_store b', b'\<lparr>bd_store := store_empty\<rparr>))"

section \<open>The contract of a builder\<close>

definition builder_holds :: "builder \<Rightarrow> heap \<Rightarrow> element list \<Rightarrow> bool" where
  "builder_holds b h es \<longleftrightarrow>
     st_slices (bd_store b) = [] \<and> pool_denotes [bd_shard b] (st_records (bd_store b)) h es"

text \<open>A call that throws: never undefined, the builder is as it was.\<close>

definition builder_fails :: "builder \<Rightarrow> builder \<Rightarrow> heap \<Rightarrow> heap \<Rightarrow> element list \<Rightarrow> fault \<Rightarrow> bool" where
  "builder_fails b b' h h' es e \<longleftrightarrow>
     e \<noteq> Undefined \<and> b' = b \<and> blocks h' = blocks h \<and> builder_holds b' h' es"

definition builder_frame :: "builder \<Rightarrow> builder \<Rightarrow> heap \<Rightarrow> heap \<Rightarrow> bool" where
  "builder_frame b b' h h' \<longleftrightarrow> takes_only (shard_owned (bd_shard b)) (shard_owned (bd_shard b')) h h'"

lemma builder_frame_outside:
  "builder_frame b b' h h' \<Longrightarrow> x \<notin> shard_owned (bd_shard b) \<Longrightarrow> blocks h x \<noteq> None \<Longrightarrow>
     blocks h' x = blocks h x \<and> x \<notin> shard_owned (bd_shard b')"
  unfolding builder_frame_def by (rule takes_only_outside)

lemma builder_holdsD:
  assumes "builder_holds b h es"
  shows "shard_inv (bd_shard b) h" and "rt_ok (st_records (bd_store b))" and "heap_ok h"
    and "st_slices (bd_store b) = []"
proof -
  have d: "pool_denotes [bd_shard b] (st_records (bd_store b)) h es" "st_slices (bd_store b) = []"
    using assms by (simp_all add: builder_holds_def)
  show "shard_inv (bd_shard b) h" "heap_ok h" using pool_denotesD(5) [OF d(1)] by (simp_all add: shards_inv_def)
  show "rt_ok (st_records (bd_store b))" using pool_denotesD(1) [OF d(1)] .
  show "st_slices (bd_store b) = []" by fact
qed

lemma shards_owned_single [simp]: "shards_owned [s] = shard_owned s"
  by (simp add: shards_owned_def)

lemma builder_holds_length:
  "builder_holds b h es \<Longrightarrow> length es = vector_length (st_records (bd_store b))"
  using pool_denotesD(4) by (auto simp: builder_holds_def)

lemma fill_in_range_iff:
  "builder_holds b h es \<Longrightarrow>
     fill_in_range (st_records (bd_store b)) i l \<longleftrightarrow> unat i < length es \<and> unat l \<le> 2147483647"
  using builder_holds_length by (simp add: fill_in_range_def)

lemma store_records_same [simp]: "(st :: store)\<lparr>st_records := st_records st\<rparr> = st"
  by simp

lemma builder_copy_record_ok:
  assumes b: "builder_holds b h es" and f: "builder_copy_record b i src l c h = (r, b', h')"
    and src: "c = CETYPE_EXT_NA \<or> source_ok [bd_shard b] h src l ys"
  shows "case r of
      Inl e \<Rightarrow> builder_fails b b' h h' es e \<and>
        (unat i < length es \<longrightarrow> unat l \<le> 2147483647 \<longrightarrow> (\<exists>n m. \<not> can_alloc h n m))
    | Inr u \<Rightarrow> unat i < length es \<and> unat l \<le> 2147483647 \<and>
        builder_holds b' h' (es[unat i := element_of c ys]) \<and> builder_frame b b' h h'"
proof -
  let ?t = "st_records (bd_store b)"
  obtain s t' where q: "copy_record (bd_shard b) ?t h i src l c = (r, s, t', h')"
    and b': "b' = \<lparr>bd_store = (bd_store b)\<lparr>st_records := t'\<rparr>, bd_shard = s\<rparr>"
    using f by (auto simp: builder_copy_record_def split: prod.splits)
  have d: "pool_denotes [bd_shard b] ?t h es" and sl: "st_slices (bd_store b) = []"
    using b by (simp_all add: builder_holds_def)
  have q0: "copy_record ([bd_shard b] ! 0) ?t h i src l c = (r, s, t', h')" using q by simp
  note g = copy_record_good [OF d _ q0 src, simplified]
  show ?thesis
  proof (cases r)
    case (Inl e)
    with g have "s = bd_shard b" "t' = ?t" by (simp_all add: fails_safely_def)
    with b' have "b' = b" by simp
    moreover have "unat i < length es \<longrightarrow> unat l \<le> 2147483647 \<longrightarrow> (\<exists>n m. \<not> can_alloc h n m)"
      using g Inl by (auto simp: fill_in_range_def builder_holds_length [OF b])
    ultimately show ?thesis
      using Inl g b by (auto simp: builder_fails_def fails_safely_def builder_holds_def)
  next
    case (Inr u)
    have "takes_only (shard_owned (bd_shard b)) (shard_owned s) h h'"
      using copy_record_takes [OF builder_holdsD(1,2) [OF b] q [unfolded Inr]] .
    with Inr g b' sl b show ?thesis
      by (simp add: builder_holds_def builder_frame_def fill_in_range_iff [OF b, symmetric])
  qed
qed

text \<open>The outcome of a call that would make element \<open>i\<close> the element \<open>e\<close>, which \<open>fits\<close> an R
  string: an index in range and a string that fits can only fail for lack of memory.\<close>

definition builder_sets ::
    "builder \<Rightarrow> heap \<Rightarrow> element list \<Rightarrow> R_xlen_t \<Rightarrow> element \<Rightarrow> bool
      \<Rightarrow> (fault + unit) \<times> builder \<times> heap \<Rightarrow> bool" where
  "builder_sets b h es i e fits res \<longleftrightarrow>
     (case res of
        (Inl f, b', h') \<Rightarrow> builder_fails b b' h h' es f \<and>
          (unat i < length es \<longrightarrow> fits \<longrightarrow> (\<exists>n m. \<not> can_alloc h n m))
      | (Inr u, b', h') \<Rightarrow>
          unat i < length es \<and> builder_holds b' h' (es[unat i := e]) \<and> builder_frame b b' h h')"

lemma builder_set_sets:
  assumes b: "builder_holds b h es"
    and src: "src = Null \<or> c = CETYPE_EXT_NA \<or> source_ok [bd_shard b] h src l ys"
  shows "builder_sets b h es i (if src = Null then NA else element_of c ys)
    (src = Null \<or> c = CETYPE_EXT_NA \<or> unat l \<le> 2147483647) (builder_set b i src l c h)"
proof -
  obtain r b' h' where f: "builder_set b i src l c h = (r, b', h')" by (metis prod_cases3)
  show ?thesis
  proof (cases "src = Null \<or> c = CETYPE_EXT_NA")
    case True
    with f have f': "builder_copy_record b i Null 0 CETYPE_EXT_NA h = (r, b', h')"
      by (auto simp: builder_set_def)
    from builder_copy_record_ok [OF b f'] True f show ?thesis
      by (auto simp: builder_sets_def split: sum.splits)
  next
    case False
    with f have f': "builder_copy_record b i src l c h = (r, b', h')" by (auto simp: builder_set_def)
    from builder_copy_record_ok [OF b f', of ys] False src f show ?thesis
      by (auto simp: builder_sets_def split: sum.splits)
  qed
qed

text \<open>A view that may be stored: NA, or its bytes lie outside the builder's slices.\<close>

definition foreign :: "blk set \<Rightarrow> charport_strview \<Rightarrow> bool" where
  "foreign B v \<longleftrightarrow> (\<forall>x. ptr_blk (sv_ptr v) = Some x \<longrightarrow> x \<notin> B)"

lemma view_source:
  assumes "view_content h v = Some e" and "foreign (shards_owned ss) v" and "\<not> strview_is_na v"
  obtains ys where "e = Str ys (sv_enc v)" and "source_ok ss h (sv_ptr v) (scast (sv_len v)) ys"
    and "sv_ptr v \<noteq> Null" and "sv_enc v \<noteq> CETYPE_EXT_NA"
proof -
  obtain ys where ys: "e = Str ys (sv_enc v)" "unat (sv_len v) \<le> 2147483647"
    "mem_read h (sv_ptr v) (unat (sv_len v)) = Some ys"
    using assms(1,3) by (cases e) (auto simp: view_content_NA view_content_Str)
  have l: "unat (scast (sv_len v) :: size_t) = unat (sv_len v)" using ys(2) by (rule unat_scast_nonneg)
  have "source_ok ss h (sv_ptr v) (scast (sv_len v)) ys"
  proof (cases "(scast (sv_len v) :: size_t) = 0")
    case True
    with l have "unat (sv_len v) = 0" by simp
    with True ys(3) length_mem_read [OF ys(3)] show ?thesis by (simp add: source_ok_def)
  next
    case False
    with assms(2) ys(3) l show ?thesis by (simp add: source_ok_def pool.src_ok_def foreign_def)
  qed
  with ys(1) assms(3) that show ?thesis by (auto simp: strview_is_na_def)
qed

lemma builder_set_na_sets:
  "builder_holds b h es \<Longrightarrow> builder_sets b h es i NA True (builder_set_na b i h)"
  using builder_set_sets [of b h es Null CETYPE_EXT_NA 0 "[]" i] by (simp add: builder_set_na_def)

lemma builder_set_view_sets:
  assumes b: "builder_holds b h es" and v: "view_content h v = Some e"
    and f: "foreign (shard_owned (bd_shard b)) v"
  shows "builder_sets b h es i e True (builder_set_view b i v h)"
proof (cases "strview_is_na v")
  case True
  with v builder_set_na_sets [OF b] show ?thesis
    by (simp add: builder_set_view_def view_content_def)
next
  case False
  have "foreign (shards_owned [bd_shard b]) v" using f by simp
  from view_source [OF v this False] obtain ys where ys: "e = Str ys (sv_enc v)"
    "source_ok [bd_shard b] h (sv_ptr v) (scast (sv_len v)) ys" "sv_ptr v \<noteq> Null"
    "sv_enc v \<noteq> CETYPE_EXT_NA" by metis
  moreover have "unat (scast (sv_len v) :: size_t) \<le> 2147483647"
    using v ys(1) by (simp add: view_content_Str unat_scast_nonneg)
  ultimately show ?thesis
    using builder_set_sets [OF b, of "sv_ptr v" "sv_enc v" "scast (sv_len v)" ys i] False
    by (simp add: builder_set_view_def element_of_Str)
qed

text \<open>When a set succeeds: exactly on an index in range and a length an R string can have,
  unless memory runs out.\<close>

lemma builder_copy_record_errors:
  assumes "builder_holds b h es" and "\<not> (unat i < length es \<and> unat l \<le> 2147483647)"
  shows "\<exists>m. builder_copy_record b i src l c h = (Inl (Runtime_error m), b, h)"
proof -
  let ?t = "st_records (bd_store b)"
  have ok: "rt_ok ?t" using assms(1) pool_denotesD(1) by (auto simp: builder_holds_def)
  obtain r s t h' where q: "fill_record (bd_shard b) ?t h i l c = (r, s, t, h')" by (metis prod_cases4)
  have "\<not> fill_in_range ?t i l" using assms fill_in_range_iff by blast
  with ok q have "\<exists>m. fill_record (bd_shard b) ?t h i l c = (Inl (Runtime_error m), bd_shard b, ?t, h)"
    by (cases rule: fill_record_cases) (use q in auto)
  then show ?thesis by (auto simp: builder_copy_record_def copy_record_def)
qed

lemma builder_reserve_ok:
  assumes b: "builder_holds b h es" and f: "builder_reserve b i l c h = (r, b', h')"
  shows "case r of
      Inl e \<Rightarrow> builder_fails b b' h h' es e
    | Inr p \<Rightarrow> unat i < length es \<and> unat l \<le> 2147483647 \<and>
        (\<exists>ys. length ys = unat l \<and> builder_holds b' h' (es[unat i := element_of c ys])) \<and>
        (c = CETYPE_EXT_NA \<and> p = Null \<or>
         c \<noteq> CETYPE_EXT_NA \<and> p = sv_ptr (rt_at (st_records (bd_store b')) (unat i)) \<and> p \<noteq> Null) \<and>
        builder_frame b b' h h'"
proof -
  let ?t = "st_records (bd_store b)"
  obtain s t' where q: "fill_record (bd_shard b) ?t h i l c = (r, s, t', h')"
    and b': "b' = \<lparr>bd_store = (bd_store b)\<lparr>st_records := t'\<rparr>, bd_shard = s\<rparr>"
    using f by (auto simp: builder_reserve_def split: prod.splits)
  have d: "pool_denotes [bd_shard b] ?t h es" and sl: "st_slices (bd_store b) = []"
    using b by (simp_all add: builder_holds_def)
  have q0: "fill_record ([bd_shard b] ! 0) ?t h i l c = (r, s, t', h')" using q by simp
  note g = fill_record_good [OF d _ q0, simplified]
  show ?thesis
  proof (cases r)
    case (Inl e)
    with g have "s = bd_shard b" "t' = ?t" by (simp_all add: fails_safely_def)
    with b' have "b' = b" by simp
    with Inl g b show ?thesis by (auto simp: builder_fails_def fails_safely_def builder_holds_def)
  next
    case (Inr p)
    have "takes_only (shard_owned (bd_shard b)) (shard_owned s) h h'"
      using fill_record_takes(1) [OF builder_holdsD(1,2) [OF b] q [unfolded Inr]] .
    with Inr g b' sl b builder_holds_length [OF b] show ?thesis
      by (auto simp: builder_holds_def builder_frame_def fill_in_range_def)
  qed
qed

lemma builder_write_late:
  assumes b: "builder_holds b h es" and i: "i < length es" "es ! i = Str xs c"
    and ys: "length ys = length xs"
  shows "\<exists>h'. mem_write h (sv_ptr (rt_at (st_records (bd_store b)) i)) ys = Some h' \<and>
    builder_holds b h' (es[i := Str ys c])"
proof -
  have d: "pool_denotes [bd_shard b] (st_records (bd_store b)) h es" "st_slices (bd_store b) = []"
    using b by (simp_all add: builder_holds_def)
  from pool_write_late [OF d(1) i ys] d(2) i(1) builder_holds_length [OF b] show ?thesis
    by (simp add: builder_holds_def)
qed

lemma builder_new_ok:
  assumes "builder_new n h = (r, h')" and "heap_ok h"
  shows "blocks h' = blocks h \<and> (case r of
      Inl e \<Rightarrow> e \<noteq> Undefined | Inr b \<Rightarrow> builder_holds b h' (replicate (unat n) NA))"
proof (cases r)
  case (Inl e)
  with assms store_new_fail show ?thesis
    by (auto simp: builder_new_def checked_vector_size_def split: if_splits prod.splits sum.splits)
next
  case (Inr b)
  with assms(1) have "store_new (unat n) 0 h = (Inr (bd_store b), h')" "bd_shard b = shard_new"
    by (auto simp: builder_new_def checked_vector_size_def split: if_splits prod.splits sum.splits)
  with store_new_empty have st: "st_slices (bd_store b) = []"
    "rt_new (unat n) h = (Inr (st_records (bd_store b)), h')" by blast+
  with pool_denotes_new [OF st(2) assms(2), of "[bd_shard b]"] \<open>bd_shard b = shard_new\<close>
    rt_new_blocks [OF st(2)] Inr
  show ?thesis by (simp add: builder_holds_def)
qed

section \<open>Finishing\<close>

text \<open>Records in room of a pool point into its slices.\<close>

lemma rec_held_in:
  assumes "shards_inv ss h" and "pool.rec_held ss h v"
  shows "rec_in (shards_owned ss) v"
proof -
  consider "v = na_record \<or> sv_len v = 0 \<and> sv_ptr v = Empty"
    | "shards_held ss h (sv_ptr v) (unat (sv_len v))" "sv_len v \<noteq> 0" "\<not> strview_is_na v"
    using assms(2) by (auto simp: pool.rec_held_def)
  then show ?thesis
  proof cases
    case 1
    then show ?thesis by (auto simp: rec_in_def)
  next
    case 2
    from pool.held_live [OF assms(1) 2(1)] 2(2,3) show ?thesis by (auto simp: rec_in_def)
  qed
qed

text \<open>
  Splicing the slices of a pool into a store, in whatever order, makes the store own its
  contents.
\<close>

lemma pool_store_holds:
  assumes d: "pool_denotes ss t h es" and own: "set sl = shards_owned ss" and dist: "distinct sl"
  shows "store_holds \<lparr>st_slices = sl, st_records = t\<rparr> h es"
proof -
  note inv = pool_denotesD(5) [OF d]
  have "heap_ok h" using inv by (simp add: shards_inv_def)
  moreover have "blocks h b \<noteq> None" if "b \<in> set sl" for b
  proof -
    from that own obtain s where "s \<in> set ss" "b \<in> shard_owned s" by (auto simp: shards_owned_def)
    moreover have "shard_inv s h" using inv \<open>s \<in> set ss\<close> by (simp add: shards_inv_def)
    ultimately show ?thesis using shard_owned_live by blast
  qed
  moreover have "list_all2 (\<lambda>v e. view_content h v = Some e \<and> rec_in (set sl) v) (rt_views t) es"
    using pool_denotesD(2) [OF d] rec_held_in [OF inv] own
    by (auto simp: pool.good_def elim!: list_all2_mono)
  ultimately show ?thesis using pool_denotesD(1) [OF d] dist by (simp add: store_holds_def)
qed

lemma pool_denotes_empty: "heap_ok h \<Longrightarrow> \<forall>s \<in> set ss. s = shard_new \<Longrightarrow> pool_denotes ss rt_empty h []"
  by (simp add: pool_denotes_def pool.good_def shards_inv_def shard_inv_new apart_def
      all_set_conv_all_nth rt_views_def)

lemma builder_release_ok:
  assumes b: "builder_holds b h es" and r: "builder_release_store b = (st, b')"
  shows "store_holds st h es \<and> set (st_slices st) = shard_owned (bd_shard b) \<and> builder_holds b' h []"
proof -
  have d: "pool_denotes [bd_shard b] (st_records (bd_store b)) h es" and sl: "st_slices (bd_store b) = []"
    using b by (simp_all add: builder_holds_def)
  have i: "shard_inv (bd_shard b) h" using pool_denotesD(5) [OF d] by (simp add: shards_inv_def)
  have st: "st = \<lparr>st_slices = sh_slices (bd_shard b), st_records = st_records (bd_store b)\<rparr>"
    and b': "b' = \<lparr>bd_store = store_empty, bd_shard = shard_new\<rparr>"
    using r sl by (auto simp: builder_release_store_def builder_finish_store_def slice_prepend_def)
  have "store_holds st h es"
    unfolding st using i by (intro pool_store_holds [OF d]) (simp_all add: shard_owned_def shard_inv_def)
  moreover have "heap_ok h" using i by (simp add: shard_inv_def)
  then have "builder_holds b' h []"
    by (simp add: b' builder_holds_def store_empty_def pool_denotes_empty)
  ultimately show ?thesis by (simp add: st shard_owned_def)
qed

text \<open>A table of NA records means the same in every heap.\<close>

lemma pool_denotes_na_heap:
  assumes "pool_denotes [shard_new] t h (replicate n NA)" and "heap_ok h'"
  shows "pool_denotes [shard_new] t h' (replicate n NA)"
proof -
  have "view_content h' v = Some e \<and> pool.rec_held [shard_new] h' v"
    if "view_content h v = Some e" "pool.rec_held [shard_new] h v" "e = NA" for v e
    using that by (auto simp: view_content_NA pool.rec_held_def)
  moreover have "shards_inv [shard_new] h'" using assms(2) by (simp add: shards_inv_def shard_inv_new)
  ultimately show ?thesis using assms(1)
    by (simp add: pool_denotes_def pool.good_def list_all2_conv_all_nth)
qed

lemma builder_reset_ok:
  assumes b: "builder_holds b h es" and r: "builder_reset b n h = (r, b', h')"
  shows "case r of
      Inl e \<Rightarrow> builder_fails b b' h h' es e
    | Inr u \<Rightarrow> builder_holds b' h' (replicate (unat n) NA) \<and>
        blocks h' = (\<lambda>x. if x \<in> shard_owned (bd_shard b) then None else blocks h x)"
proof -
  have d: "pool_denotes [bd_shard b] (st_records (bd_store b)) h es" and sl: "st_slices (bd_store b) = []"
    using b by (simp_all add: builder_holds_def)
  have ok: "heap_ok h" using pool_denotesD(5) [OF d] by (simp add: shards_inv_def)
  consider (neg) e where "r = Inl (Runtime_error e)" "b' = b" "h' = h"
    | (fail) e where "r = Inl e" "b' = b" "store_new (unat n) 0 h = (Inl e, h')"
    | (ok) st h1 where "r = Inr ()" "store_new (unat n) 0 h = (Inr st, h1)"
        "b' = \<lparr>bd_store = st, bd_shard = shard_new\<rparr>" "h' = snd (slice_clear (sh_slices (bd_shard b)) h1)"
    using r sl by (auto simp: builder_reset_def checked_vector_size_def Let_def
        split: if_splits prod.splits sum.splits)
  then show ?thesis
  proof cases
    case neg
    with b show ?thesis by (simp add: builder_fails_def)
  next
    case fail
    from store_new_fail [OF fail(3)] have bl: "e \<noteq> Undefined" "blocks h' = blocks h" "same_shape h h'"
      by (simp_all add: same_shape_def)
    with d have "pool_denotes [bd_shard b] (st_records (bd_store b)) h' es"
      using pool.good_same_blocks by (auto simp: pool_denotes_def)
    with fail bl sl show ?thesis by (simp add: builder_fails_def builder_holds_def)
  next
    case st: ok
    from store_new_empty [OF st(2)] have n: "st_slices st = []" "rt_new (unat n) h = (Inr (st_records st), h1)"
      by simp_all
    have "heap_ok h'" using rt_new_blocks [OF n(2)] ok heap_ok_slice_clear st(4) by (simp add: heap_ok_def slice_clear_blocks)
    moreover have "pool_denotes [shard_new] (st_records st) h1 (replicate (unat n) NA)"
      by (rule pool_denotes_new [OF n(2) ok]) simp
    ultimately have "pool_denotes [shard_new] (st_records st) h' (replicate (unat n) NA)"
      using pool_denotes_na_heap by blast
    moreover have "blocks h' = (\<lambda>x. if x \<in> shard_owned (bd_shard b) then None else blocks h x)"
      using rt_new_blocks [OF n(2)] by (auto simp: st(4) slice_clear_blocks shard_owned_def)
    ultimately show ?thesis using st n(1) by (simp add: builder_holds_def)
  qed
qed

section \<open>Properties\<close>

text \<open>C4. \<open>Builder::set\<close> of a view makes the element at the index the element the view stands
  for and leaves every other element and all memory outside the builder as it was; when it
  throws the builder and its contents are unchanged and nothing was undefined; and it throws
  only for an index out of range or when the allocator refuses a request.\<close>

theorem builder_set_view_functional:
  assumes "builder_holds b h es" and "view_content h v = Some e"
    and "foreign (shard_owned (bd_shard b)) v"
  shows "case builder_set_view b i v h of
      (Inl f, b', h') \<Rightarrow> f \<noteq> Undefined \<and> b' = b \<and> blocks h' = blocks h \<and> builder_holds b' h' es \<and>
        (length es \<le> unat i \<or> (\<exists>n m. \<not> can_alloc h n m))
    | (Inr u, b', h') \<Rightarrow> unat i < length es \<and> builder_holds b' h' (es[unat i := e]) \<and>
        (\<forall>x. x \<notin> shard_owned (bd_shard b) \<longrightarrow> blocks h x \<noteq> None \<longrightarrow> blocks h' x = blocks h x)"
  using builder_set_view_sets [OF assms, of i]
  by (auto simp: builder_sets_def builder_fails_def builder_frame_outside not_le split: prod.splits sum.splits)

definition demo_builder :: builder where
  "demo_builder =
     \<lparr>bd_store = \<lparr>st_slices = [],
        st_records = \<lparr>rt_ptrs = [Some Null, Some Null], rt_lens = [Some NA_INTEGER, Some NA_INTEGER],
          rt_encs = [Some CETYPE_EXT_NA, Some CETYPE_EXT_NA], vector_length = 2, capacity = 2\<rparr>\<rparr>,
      bd_shard = shard_new\<rparr>"

definition demo_view :: charport_strview where
  "demo_view = make_strview (At 0 0) 2 CETYPE_EXT_UTF8"

lemma heap_ok_demo [simp]: "heap_ok demo_heap"
  by (simp add: heap_ok_def demo_heap_def)

lemma demo_builder_holds: "builder_holds demo_builder demo_heap [NA, NA]"
  by (simp add: builder_holds_def demo_builder_def pool_denotes_def rt_ok_def max_capacity_value
      less_Suc_eq numeral_2_eq_2 pool.good_def shards_inv_def shard_inv_new rt_views_def rt_at_def
      pool.rec_held_def strview_is_na_def view_content_NA apart_def rec_apart_def na_record_def)

lemma demo_view_content: "view_content demo_heap demo_view = Some (Str [104, 105] CETYPE_EXT_UTF8)"
  by (simp add: view_content_Str strview_is_na_def demo_view_def demo_heap_def cetype_defs)

lemma demo_view_foreign: "foreign (shard_owned (bd_shard demo_builder)) demo_view"
  by (simp add: foreign_def demo_builder_def)

lemma demo_set_runs: "fst (builder_set_view demo_builder 1 demo_view demo_heap) = Inr ()"
  by code_simp

theorem builder_set_view_functional_witness:
  "\<exists>b' h'. builder_set_view demo_builder 1 demo_view demo_heap = (Inr (), b', h') \<and>
     builder_holds b' h' [NA, Str [104, 105] CETYPE_EXT_UTF8]"
proof -
  obtain b' h' where f: "builder_set_view demo_builder 1 demo_view demo_heap = (Inr (), b', h')"
    using demo_set_runs by (metis prod.collapse)
  with builder_set_view_functional [OF demo_builder_holds demo_view_content demo_view_foreign, of 1]
  show ?thesis by simp
qed

text \<open>C7. \<open>Builder::release_store\<close> hands over a store that is the builder's contents and owns all
  of it: its slices are the builder's, live and distinct, and every record points into them.
  The builder is left empty, so nothing is freed twice.\<close>

theorem builder_release_transfers:
  assumes "builder_holds b h es" and "builder_release_store b = (st, b')"
  shows "store_holds st h es \<and> set (st_slices st) = shard_owned (bd_shard b) \<and>
    builder_holds b' h [] \<and> shard_owned (bd_shard b') = {} \<and> st_slices (bd_store b') = []"
proof -
  have "shard_owned (bd_shard b') = {}" "st_slices (bd_store b') = []"
    using assms(2) by (auto simp: builder_release_store_def builder_finish_store_def slice_prepend_def
        store_empty_def)
  with builder_release_ok [OF assms] show ?thesis by simp
qed

theorem builder_release_transfers_witness:
  "\<exists>b h st b'. builder_set_view demo_builder 0 demo_view demo_heap = (Inr (), b, h) \<and>
     builder_release_store b = (st, b') \<and> store_holds st h [Str [104, 105] CETYPE_EXT_UTF8, NA]"
proof -
  have runs: "fst (builder_set_view demo_builder 0 demo_view demo_heap) = Inr ()" by code_simp
  obtain b h where f: "builder_set_view demo_builder 0 demo_view demo_heap = (Inr (), b, h)"
    using runs by (metis prod.collapse)
  have "builder_holds b h [Str [104, 105] CETYPE_EXT_UTF8, NA]"
    using builder_set_view_sets [OF demo_builder_holds demo_view_content demo_view_foreign, of 0] f
    by (simp add: builder_sets_def)
  moreover obtain st b' where "builder_release_store b = (st, b')" by fastforce
  ultimately show ?thesis using f builder_release_transfers by blast
qed

end
