(* ===== verification/Cp_Charsxp.thy ===== *)
theory Cp_Charsxp
  imports Cp_Detail
begin

text \<open>
  R's strings as \<open>src/charvec_altrep.h\<close> sees them: conversions between a \<open>CHARSXP\<close> and a view.
  The part of R's API the code calls is a parameter, the record \<open>r_strings\<close> over a type of
  \<open>CHARSXP\<close>s; what the code relies on (the \<open>CHARSXP\<close> cache) is the hypothesis
  \<open>charsxp_cache\<close>. An R error raised by the API is an \<open>Inl\<close>.
\<close>

section \<open>The API\<close>

datatype cetype_t = CE_NATIVE | CE_UTF8 | CE_LATIN1 | CE_BYTES

record 'c r_strings =
  mkCharLenCE :: "u8 list \<Rightarrow> cetype_t \<Rightarrow> fault + 'c"
  CHAR_charsxp :: "'c \<Rightarrow> ptr"
  LENGTH_charsxp :: "'c \<Rightarrow> c_int"
  getCharCE :: "'c \<Rightarrow> cetype_t"
  NA_STRING :: 'c
  R_BlankString :: 'c

section \<open>Conversions\<close>

definition to_base_encoding :: "cetype_ext_t \<Rightarrow> cetype_t" where
  "to_base_encoding enc =
     (if enc = CETYPE_EXT_ASCII then CE_NATIVE
      else if enc = CETYPE_EXT_UTF8 \<or> enc = CETYPE_EXT_ASCII_OR_UTF8 then CE_UTF8
      else if enc = CETYPE_EXT_LATIN1 then CE_LATIN1
      else if enc = CETYPE_EXT_BYTES then CE_BYTES
      else CE_NATIVE)"

definition make_charsxp :: "'c r_strings \<Rightarrow> heap \<Rightarrow> charport_strview \<Rightarrow> fault + 'c" where
  "make_charsxp R h v =
     (if strview_is_na v then Inr (NA_STRING R)
      else if \<not> check_r_string_len_int (sv_len v)
      then Inl (Runtime_error ''string size exceeds R string size'')
      else (case mem_read h (sv_ptr v) (unat (sv_len v)) of
              None \<Rightarrow> Inl Undefined
            | Some bs \<Rightarrow> mkCharLenCE R bs (to_base_encoding (sv_enc v))))"

text \<open>\<open>charsxp_is_ascii\<close> before R 4.5 scans the bytes; R's own answer since then is the same.\<close>

definition charsxp_is_ascii :: "'c r_strings \<Rightarrow> heap \<Rightarrow> 'c \<Rightarrow> fault + bool" where
  "charsxp_is_ascii R h x =
     (case mem_read h (CHAR_charsxp R x) (unat (LENGTH_charsxp R x)) of
        None \<Rightarrow> Inl Undefined
      | Some bs \<Rightarrow> Inr (check_ascii bs))"

definition classify_charsxp :: "'c r_strings \<Rightarrow> heap \<Rightarrow> 'c \<Rightarrow> fault + cetype_ext_t" where
  "classify_charsxp R h x =
     (case getCharCE R x of
        CE_UTF8 \<Rightarrow> Inr CETYPE_EXT_UTF8
      | CE_LATIN1 \<Rightarrow> Inr CETYPE_EXT_LATIN1
      | CE_BYTES \<Rightarrow> Inr CETYPE_EXT_BYTES
      | CE_NATIVE \<Rightarrow>
          (case charsxp_is_ascii R h x of
             Inl e \<Rightarrow> Inl e
           | Inr a \<Rightarrow> Inr (if a then CETYPE_EXT_ASCII else CETYPE_EXT_NATIVE)))"

definition charsxp_to_view :: "'c r_strings \<Rightarrow> heap \<Rightarrow> 'c \<Rightarrow> fault + charport_strview" where
  "charsxp_to_view R h x =
     (if x = NA_STRING R then Inr (make_strview Null NA_INTEGER CETYPE_EXT_NA)
      else (case classify_charsxp R h x of
              Inl e \<Rightarrow> Inl e
            | Inr enc \<Rightarrow> Inr (make_strview (CHAR_charsxp R x) (LENGTH_charsxp R x) enc)))"

section \<open>Strings and elements\<close>

text \<open>A \<open>CHARSXP\<close> in live memory.\<close>

definition charsxp_live :: "'c r_strings \<Rightarrow> heap \<Rightarrow> 'c \<Rightarrow> bool" where
  "charsxp_live R h x \<longleftrightarrow>
     x = NA_STRING R \<or>
     CHAR_charsxp R x \<noteq> Null \<and> unat (LENGTH_charsxp R x) \<le> 2147483647 \<and>
     mem_read h (CHAR_charsxp R x) (unat (LENGTH_charsxp R x)) \<noteq> None"

definition charsxp_bytes :: "'c r_strings \<Rightarrow> heap \<Rightarrow> 'c \<Rightarrow> u8 list" where
  "charsxp_bytes R h x =
     (case mem_read h (CHAR_charsxp R x) (unat (LENGTH_charsxp R x)) of None \<Rightarrow> [] | Some bs \<Rightarrow> bs)"

definition charsxp_tag :: "cetype_t \<Rightarrow> u8 list \<Rightarrow> cetype_ext_t" where
  "charsxp_tag ce bs =
     (case ce of CE_UTF8 \<Rightarrow> CETYPE_EXT_UTF8 | CE_LATIN1 \<Rightarrow> CETYPE_EXT_LATIN1
      | CE_BYTES \<Rightarrow> CETYPE_EXT_BYTES | CE_NATIVE \<Rightarrow> if ascii bs then CETYPE_EXT_ASCII else CETYPE_EXT_NATIVE)"

text \<open>The element a \<open>CHARSXP\<close> stands for, and the \<open>CHARSXP\<close> of an element.\<close>

definition charsxp_element :: "'c r_strings \<Rightarrow> heap \<Rightarrow> 'c \<Rightarrow> element" where
  "charsxp_element R h x =
     (if x = NA_STRING R then NA
      else Str (charsxp_bytes R h x) (charsxp_tag (getCharCE R x) (charsxp_bytes R h x)))"

fun charsxp_of :: "'c r_strings \<Rightarrow> element \<Rightarrow> fault + 'c" where
  "charsxp_of R NA = Inr (NA_STRING R)"
| "charsxp_of R (Str bs c) = mkCharLenCE R bs (to_base_encoding c)"

text \<open>
  R's \<open>CHARSXP\<close> cache: there is one \<open>CHARSXP\<close> per content, so making one from the content of
  an existing string gives that string (documented in "Writing R Extensions", 5.9.1 and R-ints
  1.10).
\<close>

definition charsxp_cache :: "'c r_strings \<Rightarrow> heap \<Rightarrow> 'c \<Rightarrow> bool" where
  "charsxp_cache R h x \<longleftrightarrow>
     x = NA_STRING R \<or> mkCharLenCE R (charsxp_bytes R h x) (getCharCE R x) = Inr x"

lemma to_base_charsxp_tag [simp]: "to_base_encoding (charsxp_tag ce bs) = ce"
  by (cases ce) (simp_all add: to_base_encoding_def charsxp_tag_def cetype_defs)

lemma charsxp_tag_not_NA [simp]: "charsxp_tag ce bs \<noteq> CETYPE_EXT_NA"
  by (cases ce) (simp_all add: charsxp_tag_def cetype_defs)

lemma charsxp_tag_valid: "valid_view_encoding (charsxp_tag ce bs)"
  by (cases ce) (simp_all add: charsxp_tag_def valid_view_encoding_def)

lemma charsxp_of_element: "charsxp_cache R h x \<Longrightarrow> charsxp_of R (charsxp_element R h x) = Inr x"
  by (auto simp: charsxp_cache_def charsxp_element_def)

lemma make_charsxp_content:
  assumes "view_content h v = Some e"
  shows "make_charsxp R h v = charsxp_of R e"
proof (cases e)
  case NA
  with assms show ?thesis by (simp add: make_charsxp_def view_content_NA)
next
  case (Str bs c)
  with assms show ?thesis
    by (auto simp: make_charsxp_def view_content_Str check_r_string_len_int_iff sint_nonneg_iff)
qed

lemma classify_charsxp_live:
  assumes "charsxp_live R h x" and "x \<noteq> NA_STRING R"
  shows "classify_charsxp R h x = Inr (charsxp_tag (getCharCE R x) (charsxp_bytes R h x))"
  using assms
  by (auto simp: classify_charsxp_def charsxp_tag_def charsxp_is_ascii_def charsxp_bytes_def
      charsxp_live_def check_ascii_iff split: cetype_t.splits)

text \<open>The view of a live \<open>CHARSXP\<close> stands for its element.\<close>

lemma charsxp_to_view_live:
  assumes "charsxp_live R h x"
  shows "\<exists>v. charsxp_to_view R h x = Inr v \<and> view_content h v = Some (charsxp_element R h x) \<and>
    (ptr_blk (sv_ptr v) = None \<or> x \<noteq> NA_STRING R \<and> ptr_blk (sv_ptr v) = ptr_blk (CHAR_charsxp R x))"
proof (cases "x = NA_STRING R")
  case True
  then show ?thesis
    by (auto simp: charsxp_to_view_def charsxp_element_def view_content_NA strview_is_na_def)
next
  case False
  let ?v = "make_strview (CHAR_charsxp R x) (LENGTH_charsxp R x) (charsxp_tag (getCharCE R x) (charsxp_bytes R h x))"
  have l: "CHAR_charsxp R x \<noteq> Null" "unat (LENGTH_charsxp R x) \<le> 2147483647"
    using assms False by (simp_all add: charsxp_live_def)
  obtain bs where bs: "mem_read h (CHAR_charsxp R x) (unat (LENGTH_charsxp R x)) = Some bs"
    using assms False by (auto simp: charsxp_live_def)
  have "\<not> strview_is_na ?v" using l by (auto simp: strview_is_na_def)
  then have "view_content h ?v = Some (charsxp_element R h x)"
    using l bs False by (simp add: charsxp_element_def charsxp_bytes_def view_content_Str)
  then show ?thesis
    using False classify_charsxp_live [OF assms False] by (auto simp: charsxp_to_view_def)
qed

section \<open>Errors at the R boundary\<close>

text \<open>\<open>charport_sexp_guard\<close>: a C++ exception becomes an R error carrying its message, cut to the
  511 characters of the buffer; an R error from inside unwinds as it is.\<close>

fun what :: "fault \<Rightarrow> string" where
  "what (Length_error m) = m"
| "what (Runtime_error m) = m"
| "what (Out_of_range m) = m"
| "what e = ''std::bad_alloc''"

fun charport_sexp_guard :: "string \<Rightarrow> fault + 'a \<Rightarrow> fault + 'a" where
  "charport_sexp_guard op (Inr x) = Inr x"
| "charport_sexp_guard op (Inl Undefined) = Inl Undefined"
| "charport_sexp_guard op (Inl (R_error m)) = Inl (R_error m)"
| "charport_sexp_guard op (Inl e) = Inl (R_error (''charport '' @ op @ '': '' @ take 511 (what e)))"

lemma charport_sexp_guard_ok [simp]: "charport_sexp_guard op m = Inr x \<longleftrightarrow> m = Inr x"
  by (cases "(op, m)" rule: charport_sexp_guard.cases) simp_all

lemma charport_sexp_guard_undefined [simp]: "charport_sexp_guard op m = Inl Undefined \<longleftrightarrow> m = Inl Undefined"
  by (cases "(op, m)" rule: charport_sexp_guard.cases) simp_all

lemma charport_sexp_guard_error:
  "charport_sexp_guard op (Inl e) = Inl e' \<Longrightarrow> e \<noteq> Undefined \<Longrightarrow> \<exists>m. e' = R_error m"
  by (cases e) auto

text \<open>\<open>Rf_allocVector\<close>: R raises an error when it cannot allocate.\<close>

definition allocVector :: "nat \<Rightarrow> heap \<Rightarrow> (fault + unit) \<times> heap" where
  "allocVector n h =
     (let (ok, h1) = try_alloc n h in (if ok then Inr () else Inl (R_error ''cannot allocate vector''), h1))"

definition alloc_raw_vector :: "nat \<Rightarrow> heap \<Rightarrow> (fault + blk) \<times> heap" where
  "alloc_raw_vector n h =
     (case alloc_block n n h of
        (Inl e, h1) \<Rightarrow> (Inl (R_error ''cannot allocate vector''), h1)
      | (Inr b, h1) \<Rightarrow> (Inr b, h1))"

lemma allocVector_blocks: "allocVector n h = (r, h') \<Longrightarrow> blocks h' = blocks h \<and> next_blk h' = next_blk h"
  by (auto simp: allocVector_def try_alloc_def)

lemma allocVector_fail: "allocVector n h = (Inl e, h') \<Longrightarrow> (\<exists>m. e = R_error m) \<and> (\<exists>k m. \<not> can_alloc h k m)"
  by (auto simp: allocVector_def try_alloc_def split: if_splits)

lemma allocVector_can_alloc: "allocVector n h = (r, h') \<Longrightarrow> can_alloc h' = can_alloc h"
  by (auto simp: allocVector_def try_alloc_def)

end
