(* ===== verification/Cp_Serialize.thy ===== *)
theory Cp_Serialize
  imports Cp_Wire Cp_Builder Cp_Charsxp
begin

text \<open>
  The serialized form of a charvec (\<open>src/charvec_altrep.h\<close>): \<open>Serialized_state\<close> writes the
  records of a store into a raw vector, \<open>charvec_parse_serialized\<close>, \<open>charvec_check_records\<close> and
  \<open>unserialize_store\<close> read one, which may hold any bytes. A raw vector is a block of the heap;
  positions in it are offsets. Parameters: \<open>le\<close>, the host's byte order, and \<open>nu\<close>, the answer of
  \<open>charport_native_is_utf8_impl\<close> (whether R's native encoding is UTF-8).
\<close>

section \<open>Parsing\<close>

record charvec_serialized_layout =
  ly_n :: size_t
  ly_swap :: bool
  ly_native_is_utf8_text :: bool
  ly_size_offset :: nat
  ly_enc_offset :: nat
  ly_data_offset :: nat
  ly_data_end :: nat

definition charvec_serialized_prefix_bytes :: size_t where
  "charvec_serialized_prefix_bytes = 5"

definition charvec_serialized_length :: "size_t \<Rightarrow> size_t \<Rightarrow> fault + size_t" where
  "charvec_serialized_length n payload_bytes =
     and_then (checked_mul_size n 4 ''serialized_state'') (\<lambda>sizes_bytes.
     and_then (checked_mul_size n 1 ''serialized_state'') (\<lambda>enc_bytes.
     and_then (checked_add_size charvec_serialized_prefix_bytes 8 ''serialized_state'') (\<lambda>a.
     and_then (checked_add_size a sizes_bytes ''serialized_state'') (\<lambda>b.
     and_then (checked_add_size b enc_bytes ''serialized_state'') (\<lambda>header_bytes.
     and_then (checked_add_size header_bytes payload_bytes ''serialized_state'') (\<lambda>total_bytes.
       if total_bytes > 9223372036854775807
       then Inl (Runtime_error ''serialized_state length exceeds R_xlen_t'')
       else Inr total_bytes))))))"

text \<open>\<open>body\<close> is the offset of the packed body, \<open>len\<close> its length.\<close>

definition charvec_parse_packed ::
    "bool \<Rightarrow> u8 list \<Rightarrow> nat \<Rightarrow> size_t \<Rightarrow> bool \<Rightarrow> fault + charvec_serialized_layout" where
  "charvec_parse_packed le raw body len swap =
     (if len < 8 then Inl (Runtime_error ''serialized_state is truncated'')
      else
        and_then (charvec_read_u64 le raw body swap) (\<lambda>n64.
          if n64 > SIZE_MAX \<or> n64 > 9223372036854775807
          then Inl (Runtime_error ''serialized_state length exceeds R_xlen_t'')
          else
            and_then (checked_mul_size n64 4 ''serialized_state header'') (\<lambda>sizes_bytes.
            and_then (checked_mul_size n64 1 ''serialized_state header'') (\<lambda>enc_bytes.
            and_then (checked_add_size 8 sizes_bytes ''serialized_state header'') (\<lambda>a.
            and_then (checked_add_size a enc_bytes ''serialized_state header'') (\<lambda>header_bytes.
              if len < header_bytes then Inl (Runtime_error ''serialized_state header is truncated'')
              else Inr \<lparr>ly_n = n64, ly_swap = swap, ly_native_is_utf8_text = False,
                ly_size_offset = body + 8, ly_enc_offset = body + 8 + unat sizes_bytes,
                ly_data_offset = body + 8 + unat sizes_bytes + unat enc_bytes,
                ly_data_end = body + unat len\<rparr>))))))"

text \<open>The argument is \<open>None\<close> for an R object that is not a raw vector.\<close>

definition charvec_parse_serialized :: "bool \<Rightarrow> u8 list option \<Rightarrow> fault + charvec_serialized_layout" where
  "charvec_parse_serialized le state =
     (case state of
        None \<Rightarrow> Inl (Runtime_error ''invalid serialized_state type'')
      | Some raw \<Rightarrow>
          (let raw_len = of_nat (length raw) :: size_t
           in if raw_len < charvec_serialized_prefix_bytes + 8
              then Inl (Runtime_error ''serialized_state is truncated'')
              else
                and_then (get_bytes raw 0 5) (\<lambda>p.
                  if p ! 0 \<noteq> 67 \<or> p ! 1 \<noteq> 80 \<or> p ! 2 \<noteq> 86 \<or> (p ! 3 \<noteq> 49 \<and> p ! 3 \<noteq> 50)
                  then Inl (Runtime_error ''invalid serialized_state format'')
                  else if p ! 4 \<noteq> 1 \<and> p ! 4 \<noteq> 2
                  then Inl (Runtime_error ''invalid serialized_state endian flag'')
                  else
                    and_then (charvec_parse_packed le raw (unat charvec_serialized_prefix_bytes)
                        (raw_len - charvec_serialized_prefix_bytes) (p ! 4 \<noteq> charvec_native_endian_flag le))
                      (\<lambda>layout. Inr (layout\<lparr>ly_native_is_utf8_text := (p ! 3 = 50)\<rparr>)))))"

text \<open>The loop of \<open>charvec_check_records\<close> over the indices left; it returns the bytes used.\<close>

fun check_records_loop ::
    "bool \<Rightarrow> u8 list \<Rightarrow> charvec_serialized_layout \<Rightarrow> size_t \<Rightarrow> nat list \<Rightarrow> nat \<Rightarrow> size_t \<Rightarrow> fault + size_t" where
  "check_records_loop le raw layout payload [] size_offset used = Inr used"
| "check_records_loop le raw layout payload (i # is) size_offset used =
     and_then (charvec_read_u32_advance le raw size_offset (ly_swap layout)) (\<lambda>(sz, size_offset').
       if \<not> check_r_string_len (ucast sz)
       then Inl (Runtime_error ''serialized string size exceeds R string size'')
       else
         and_then (get_bytes raw (ly_enc_offset layout + i) 1) (\<lambda>e.
           let encoding = charport_cetype_ext (hd e)
           in if \<not> valid_view_encoding encoding
              then Inl (Runtime_error ''invalid string encoding in serialized_state'')
              else if encoding = CETYPE_EXT_NA \<and> sz \<noteq> 0
              then Inl (Runtime_error ''serialized NA string must have zero length'')
              else if (ucast sz :: size_t) > payload - used
              then Inl (Runtime_error ''serialized_state payload is truncated'')
              else check_records_loop le raw layout payload is size_offset' (used + ucast sz)))"

definition charvec_check_records :: "bool \<Rightarrow> u8 list \<Rightarrow> charvec_serialized_layout \<Rightarrow> fault + unit" where
  "charvec_check_records le raw layout =
     (let payload = of_nat (ly_data_end layout - ly_data_offset layout) :: size_t
      in and_then (check_records_loop le raw layout payload [0..<unat (ly_n layout)] (ly_size_offset layout) 0)
           (\<lambda>used. if used \<noteq> payload then Inl (Runtime_error ''serialized_state has trailing bytes'')
                   else Inr ()))"

section \<open>Rebuilding the store\<close>

text \<open>The destructor of a builder, which runs when a call throws.\<close>

definition builder_destroy :: "builder \<Rightarrow> heap \<Rightarrow> heap" where
  "builder_destroy b h = store_free (bd_store b) (snd (slice_clear (sh_slices (bd_shard b)) h))"

text \<open>\<open>new cpv::Store(std::move(source))\<close>: the caller's store is destroyed when \<open>new\<close> throws.\<close>

definition heap_store :: "store \<Rightarrow> heap \<Rightarrow> (fault + store) \<times> heap" where
  "heap_store source h =
     (let (ok, h1) = try_alloc 48 h
      in if ok then (Inr source, h1) else (Inl Bad_alloc, store_free source h1))"

text \<open>The bytes a raw vector has now.\<close>

definition raw_bytes :: "heap \<Rightarrow> blk \<Rightarrow> u8 list" where
  "raw_bytes h rb = (case blocks h rb of None \<Rightarrow> [] | Some bs \<Rightarrow> bs)"

text \<open>The encoding the loop of \<open>unserialize_store\<close> uses, with its lazily found flag (-1 is not
  yet known).\<close>

definition native_as_utf8_step :: "bool \<Rightarrow> int \<Rightarrow> cetype_ext_t \<Rightarrow> cetype_ext_t \<times> int" where
  "native_as_utf8_step nu native_as_utf8 encoding =
     (if encoding = CETYPE_EXT_NATIVE \<and> native_as_utf8 \<noteq> 0
      then let flag = (if native_as_utf8 < 0 then (if nu then 0 else 1) else native_as_utf8)
           in (if flag \<noteq> 0 then CETYPE_EXT_UTF8 else encoding, flag)
      else (encoding, native_as_utf8))"

fun unserialize_loop ::
    "bool \<Rightarrow> bool \<Rightarrow> blk \<Rightarrow> charvec_serialized_layout \<Rightarrow> nat list \<Rightarrow> nat \<Rightarrow> nat \<Rightarrow> int \<Rightarrow> builder \<Rightarrow> heap
      \<Rightarrow> (fault + unit) \<times> builder \<times> heap" where
  "unserialize_loop le nu rb layout [] size_offset data_offset flag out h = (Inr (), out, h)"
| "unserialize_loop le nu rb layout (i # is) size_offset data_offset flag out h =
     (case charvec_read_u32_advance le (raw_bytes h rb) size_offset (ly_swap layout) of
        Inl e \<Rightarrow> (Inl e, out, h)
      | Inr (sz, size_offset') \<Rightarrow>
          (case get_bytes (raw_bytes h rb) (ly_enc_offset layout + i) 1 of
             Inl e \<Rightarrow> (Inl e, out, h)
           | Inr eb \<Rightarrow>
               (case native_as_utf8_step nu flag (charport_cetype_ext (hd eb)) of
                  (encoding, flag') \<Rightarrow>
                    (case (if encoding = CETYPE_EXT_NA then builder_set_na out (of_nat i) h
                           else builder_set out (of_nat i) (At rb data_offset) (ucast sz) encoding h) of
                       (Inl e, out', h') \<Rightarrow> (Inl e, out', h')
                     | (Inr u, out', h') \<Rightarrow>
                         unserialize_loop le nu rb layout is size_offset' (data_offset + unat sz)
                           flag' out' h'))))"

definition unserialize_store ::
    "bool \<Rightarrow> bool \<Rightarrow> blk \<Rightarrow> charvec_serialized_layout \<Rightarrow> heap \<Rightarrow> (fault + store) \<times> heap" where
  "unserialize_store le nu rb layout h =
     (case charvec_check_records le (raw_bytes h rb) layout of
        Inl e \<Rightarrow> (Inl e, h)
      | Inr u \<Rightarrow>
          (case builder_new (ly_n layout) h of
             (Inl e, h1) \<Rightarrow> (Inl e, h1)
           | (Inr out, h1) \<Rightarrow>
               (case unserialize_loop le nu rb layout [0..<unat (ly_n layout)] (ly_size_offset layout)
                       (ly_data_offset layout) (if ly_native_is_utf8_text layout then -1 else 0) out h1 of
                  (Inl e, out', h2) \<Rightarrow> (Inl e, builder_destroy out' h2)
                | (Inr u, out', h2) \<Rightarrow>
                    (case builder_release_store out' of
                       (st, out'') \<Rightarrow>
                         (case heap_store st h2 of (r, h3) \<Rightarrow> (r, builder_destroy out'' h3))))))"

text \<open>The state argument of \<open>Unserialize\<close>: a character vector comes back as it is; any other
  object must be a raw vector.\<close>

datatype 'c r_state = Strsxp "'c list" | Rawsxp blk | Other_sexp

section \<open>The format\<close>

text \<open>The bytes and the tag of an element as a state holds them.\<close>

fun elem_bytes :: "element \<Rightarrow> u8 list" where
  "elem_bytes NA = []"
| "elem_bytes (Str ys c) = ys"

fun elem_tag :: "element \<Rightarrow> u8" where
  "elem_tag NA = tag_value CETYPE_EXT_NA"
| "elem_tag (Str ys c) = tag_value c"

text \<open>The elements a store can hold, and those a state may: \<open>storable\<close> ones have a known tag.\<close>

fun proper :: "element \<Rightarrow> bool" where
  "proper NA \<longleftrightarrow> True"
| "proper (Str ys c) \<longleftrightarrow> length ys \<le> 2147483647 \<and> c \<noteq> CETYPE_EXT_NA"

fun storable :: "element \<Rightarrow> bool" where
  "storable NA \<longleftrightarrow> True"
| "storable (Str ys c) \<longleftrightarrow> length ys \<le> 2147483647 \<and> c \<noteq> CETYPE_EXT_NA \<and> valid_view_encoding c"

lemma storable_proper: "storable e \<Longrightarrow> proper e"
  by (cases e) simp_all

text \<open>A field of \<open>k\<close> bytes, least significant byte first or last.\<close>

definition field :: "bool \<Rightarrow> nat \<Rightarrow> 'a::len word \<Rightarrow> u8 list" where
  "field lsb k x = (if lsb then le_bytes k x else rev (le_bytes k x))"

definition charvec_state :: "bool \<Rightarrow> bool \<Rightarrow> element list \<Rightarrow> u8 list" where
  "charvec_state v2 lsb es =
     [67, 80, 86, if v2 then 50 else 49, if lsb then 1 else 2] @
     field lsb 8 (of_nat (length es) :: u64) @
     concat (map (\<lambda>e. field lsb 4 (of_nat (length (elem_bytes e)) :: u32)) es) @
     map elem_tag es @ concat (map elem_bytes es)"

text \<open>The element a state's record becomes on reading: native text of a \<open>CPV2\<close> state is UTF-8.\<close>

fun as_read :: "bool \<Rightarrow> bool \<Rightarrow> element \<Rightarrow> element" where
  "as_read v2 nu NA = NA"
| "as_read v2 nu (Str ys c) =
     Str ys (if c = CETYPE_EXT_NATIVE \<and> v2 \<and> \<not> nu then CETYPE_EXT_UTF8 else c)"

subsection \<open>The parts of a state by position\<close>

definition wire_count :: "bool \<Rightarrow> u8 list \<Rightarrow> nat" where
  "wire_count lsb raw = unat (wire_word lsb (take 8 (drop 5 raw)) :: u64)"

definition wire_size :: "bool \<Rightarrow> u8 list \<Rightarrow> nat \<Rightarrow> nat" where
  "wire_size lsb raw i = unat (wire_word lsb (take 4 (drop (13 + 4 * i) raw)) :: u32)"

definition wire_enc :: "u8 list \<Rightarrow> nat \<Rightarrow> nat \<Rightarrow> cetype_ext_t" where
  "wire_enc raw n i = Cetype (raw ! (13 + 4 * n + i))"

text \<open>The sum of the first \<open>i\<close> values of \<open>s\<close>.\<close>

definition before :: "(nat \<Rightarrow> nat) \<Rightarrow> nat \<Rightarrow> nat" where
  "before s i = sum_list (map s [0..<i])"

definition wire_element :: "bool \<Rightarrow> u8 list \<Rightarrow> nat \<Rightarrow> nat \<Rightarrow> element" where
  "wire_element lsb raw n i =
     element_of (wire_enc raw n i)
       (take (wire_size lsb raw i) (drop (13 + 5 * n + before (wire_size lsb raw) i) raw))"

definition record_ok :: "bool \<Rightarrow> u8 list \<Rightarrow> nat \<Rightarrow> nat \<Rightarrow> bool" where
  "record_ok lsb raw n i \<longleftrightarrow>
     wire_size lsb raw i \<le> 2147483647 \<and> valid_view_encoding (wire_enc raw n i) \<and>
     (wire_enc raw n i = CETYPE_EXT_NA \<longrightarrow> wire_size lsb raw i = 0)"

definition header_ok :: "u8 list \<Rightarrow> bool" where
  "header_ok raw \<longleftrightarrow>
     13 \<le> length raw \<and> raw ! 0 = 67 \<and> raw ! 1 = 80 \<and> raw ! 2 = 86 \<and> (raw ! 3 = 49 \<or> raw ! 3 = 50) \<and>
     (raw ! 4 = 1 \<or> raw ! 4 = 2) \<and> 13 + 5 * wire_count (raw ! 4 = 1) raw \<le> length raw"

definition records_ok :: "u8 list \<Rightarrow> bool" where
  "records_ok raw \<longleftrightarrow>
     (let lsb = (raw ! 4 = 1); n = wire_count lsb raw
      in (\<forall>i < n. record_ok lsb raw n i) \<and> 13 + 5 * n + before (wire_size lsb raw) n = length raw)"

lemma before_0 [simp]: "before s 0 = 0"
  and before_Suc [simp]: "before s (Suc i) = before s i + s i"
  by (simp_all add: before_def)

lemma before_const [simp]: "before (\<lambda>i. k) n = k * n"
  by (induction n) simp_all

lemma before_mono: "i \<le> j \<Longrightarrow> before s i \<le> before s j"
  by (induction j) (auto simp: le_Suc_eq)

lemma before_cong: "(\<And>i. i < n \<Longrightarrow> s i = t i) \<Longrightarrow> before s n = before t n"
  unfolding before_def by (rule arg_cong [where f = sum_list]) simp

text \<open>Cutting a list into consecutive pieces.\<close>

lemma concat_pieces:
  assumes "before s n \<le> length ys"
  shows "concat (map (\<lambda>i. take (s i) (drop (before s i) ys)) [0..<n]) = take (before s n) ys"
  using assms
proof (induction n)
  case 0
  then show ?case by simp
next
  case (Suc n)
  then show ?case by (simp add: take_add)
qed

lemma length_concat_before: "i \<le> length xs \<Longrightarrow> length (concat (take i xs)) = before (\<lambda>k. length (xs ! k)) i"
  by (induction i) (simp_all add: take_Suc_conv_app_nth)

lemma piece_of_concat:
  assumes i: "i < length xs"
  shows "take (length (xs ! i)) (drop (before (\<lambda>k. length (xs ! k)) i) (concat xs)) = xs ! i"
proof -
  have "concat xs = concat (take i xs @ xs ! i # drop (Suc i) xs)"
    using id_take_nth_drop [OF i] by simp
  then have "concat xs = concat (take i xs) @ xs ! i @ concat (drop (Suc i) xs)" by simp
  then show ?thesis using i length_concat_before [of i xs] by simp
qed

section \<open>What is accepted\<close>

lemma checked_sizes_result:
  "checked_mul_size a b w = Inr c \<Longrightarrow> unat c = unat a * unat b"
  "checked_add_size a b w = Inr c \<Longrightarrow> unat c = unat a + unat b"
  "checked_mul_size a b w = Inl e \<Longrightarrow> (\<exists>m. e = Runtime_error m) \<and> 18446744073709551616 \<le> unat a * unat b"
  "checked_add_size a b w = Inl e \<Longrightarrow> (\<exists>m. e = Runtime_error m) \<and> 18446744073709551616 \<le> unat a + unat b"
  by (auto simp: checked_mul_size_cases checked_add_size_cases unat_mult_u64 unat_add_u64 split: if_splits)

lemma parse_packed_spec:
  fixes len :: size_t
  assumes len: "body + unat len = length raw" "unat len \<le> 9223372036854775807"
    and sw: "swap = (lsb \<noteq> le)" and n: "n64 = (wire_word lsb (take 8 (drop body raw)) :: u64)"
  shows "if 8 + 5 * unat n64 \<le> unat len
    then charvec_parse_packed le raw body len swap =
      Inr \<lparr>ly_n = n64, ly_swap = swap, ly_native_is_utf8_text = False, ly_size_offset = body + 8,
        ly_enc_offset = body + 8 + 4 * unat n64, ly_data_offset = body + 8 + 5 * unat n64, ly_data_end = length raw\<rparr>
    else \<exists>m. charvec_parse_packed le raw body len swap = Inl (Runtime_error m)"
proof (cases "8 \<le> unat len")
  case False
  then show ?thesis by (simp add: charvec_parse_packed_def word_less_nat_alt)
next
  case True
  then have rd: "charvec_read_u64 le raw body swap = Inr n64"
    unfolding sw using len n by (subst read_u64_wire) simp
  note p = charvec_parse_packed_def [of le raw body len swap, unfolded rd and_then.simps]
  show ?thesis
  proof (cases "8 + 5 * unat n64 \<le> unat len")
    case fit: True
    then have "unat n64 \<le> 9223372036854775807" using len(2) by linarith
    then show ?thesis using True fit len
      by (simp add: p checked_mul_size_cases checked_add_size_cases unat_mult_u64 unat_add_u64
          word_less_nat_alt word_le_nat_alt not_less)
  next
    case over: False
    have "\<exists>m. charvec_parse_packed le raw body len swap = Inl (Runtime_error m)"
      using True over
      by (auto simp: p checked_mul_size_cases checked_add_size_cases unat_mult_u64 unat_add_u64
          word_less_nat_alt word_le_nat_alt not_less not_le)
    with over show ?thesis by simp
  qed
qed

definition state_layout :: "bool \<Rightarrow> u8 list \<Rightarrow> charvec_serialized_layout" where
  "state_layout le raw =
     (let n = wire_count (raw ! 4 = 1) raw
      in \<lparr>ly_n = of_nat n, ly_swap = ((raw ! 4 = 1) \<noteq> le), ly_native_is_utf8_text = (raw ! 3 = 50),
          ly_size_offset = 13, ly_enc_offset = 13 + 4 * n, ly_data_offset = 13 + 5 * n,
          ly_data_end = length raw\<rparr>)"

lemma parse_serialized_spec:
  assumes len: "length raw \<le> 4503599627370496"
  shows "if header_ok raw then charvec_parse_serialized le (Some raw) = Inr (state_layout le raw)
    else \<exists>m. charvec_parse_serialized le (Some raw) = Inl (Runtime_error m)"
proof (cases "13 \<le> length raw")
  case False
  with len show ?thesis
    by (simp add: charvec_parse_serialized_def header_ok_def charvec_serialized_prefix_bytes_def
        word_less_nat_alt unat_of_nat_u64)
next
  case True
  have u: "unat (of_nat (length raw) :: size_t) = length raw" using len by (simp add: unat_of_nat_u64)
  have d: "unat (of_nat (length raw) - 5 :: size_t) = length raw - 5"
    by (subst unat_sub) (use u True in \<open>simp_all add: word_le_nat_alt\<close>)
  have take5: "take 5 raw ! i = raw ! i" if "i < 5" for i using that by simp
  let ?magic = "raw ! 0 = 67 \<and> raw ! 1 = 80 \<and> raw ! 2 = 86 \<and> (raw ! 3 = 49 \<or> raw ! 3 = 50)"
  note p = charvec_parse_serialized_def [of le "Some raw"]
  have short: "\<not> (of_nat (length raw) :: size_t) < charvec_serialized_prefix_bytes + 8"
    using u True by (simp add: charvec_serialized_prefix_bytes_def word_less_nat_alt)
  show ?thesis
  proof (cases "?magic \<and> (raw ! 4 = 1 \<or> raw ! 4 = 2)")
    case False
    then have "\<not> header_ok raw" by (auto simp: header_ok_def)
    moreover have "\<exists>m. charvec_parse_serialized le (Some raw) = Inl (Runtime_error m)"
      using False short True by (auto simp: p get_bytes_def Let_def)
    ultimately show ?thesis by simp
  next
    case ok: True
    define swap where "swap = (take 5 raw ! 4 \<noteq> charvec_native_endian_flag le)"
    have sw: "swap = ((raw ! 4 = 1) \<noteq> le)"
      using ok by (auto simp: swap_def charvec_native_endian_flag_def)
    define n64 where "n64 = (wire_word (raw ! 4 = 1) (take 8 (drop 5 raw)) :: u64)"
    have n: "unat n64 = wire_count (raw ! 4 = 1) raw" by (simp add: n64_def wire_count_def)
    have eq: "charvec_parse_serialized le (Some raw) =
        and_then (charvec_parse_packed le raw 5 (of_nat (length raw) - 5) swap)
          (\<lambda>layout. Inr (layout\<lparr>ly_native_is_utf8_text := (raw ! 3 = 50)\<rparr>))"
      using ok short True by (auto simp: p get_bytes_def Let_def swap_def charvec_serialized_prefix_bytes_def)
    have packed: "if 8 + 5 * unat n64 \<le> length raw - 5
      then charvec_parse_packed le raw 5 (of_nat (length raw) - 5) swap =
        Inr \<lparr>ly_n = n64, ly_swap = swap, ly_native_is_utf8_text = False, ly_size_offset = 5 + 8,
          ly_enc_offset = 5 + 8 + 4 * unat n64, ly_data_offset = 5 + 8 + 5 * unat n64, ly_data_end = length raw\<rparr>
      else \<exists>m. charvec_parse_packed le raw 5 (of_nat (length raw) - 5) swap = Inl (Runtime_error m)"
      using parse_packed_spec [OF _ _ sw n64_def, of "of_nat (length raw) - 5"] d True len by simp
    have h: "header_ok raw \<longleftrightarrow> 8 + 5 * unat n64 \<le> length raw - 5"
      using ok True n by (auto simp: header_ok_def)
    have n': "of_nat (wire_count (raw ! 4 = 1) raw) = n64" by (simp add: n [symmetric])
    show ?thesis
    proof (cases "header_ok raw")
      case True
      with packed h have "charvec_parse_serialized le (Some raw) = Inr (state_layout le raw)"
        by (simp add: eq state_layout_def Let_def n' sw n)
      with True show ?thesis by simp
    next
      case False
      with packed h show ?thesis by (auto simp: eq)
    qed
  qed
qed

text \<open>The checking loop from record \<open>i\<close> on.\<close>

lemma check_records_loop_spec:
  fixes used payload :: size_t
  assumes L: "ly_swap layout = (lsb \<noteq> le)" "ly_enc_offset layout = 13 + 4 * n"
    and len: "13 + 5 * n \<le> length raw"
    and "i \<le> n" and "unat used = before (wire_size lsb raw) i" and "unat used \<le> unat payload"
  shows "case check_records_loop le raw layout payload [i..<n] (13 + 4 * i) used of
      Inl e \<Rightarrow> (\<exists>m. e = Runtime_error m) \<and>
        \<not> ((\<forall>k. i \<le> k \<longrightarrow> k < n \<longrightarrow> record_ok lsb raw n k) \<and> before (wire_size lsb raw) n \<le> unat payload)
    | Inr u \<Rightarrow> (\<forall>k. i \<le> k \<longrightarrow> k < n \<longrightarrow> record_ok lsb raw n k) \<and>
        before (wire_size lsb raw) n \<le> unat payload \<and> unat u = before (wire_size lsb raw) n"
  using assms(4-6)
proof (induction "n - i" arbitrary: i used)
  case 0
  then show ?case by simp
next
  case (Suc m)
  then have i: "i < n" by simp
  define sz where "sz = (wire_word lsb (take 4 (drop (13 + 4 * i) raw)) :: u32)"
  have sz: "unat sz = wire_size lsb raw i" by (simp add: sz_def wire_size_def)
  have rd: "charvec_read_u32_advance le raw (13 + 4 * i) (ly_swap layout) = Inr (sz, 13 + 4 * Suc i)"
    unfolding L(1) charvec_read_u32_advance_def using i len by (subst read_u32_wire) (simp add: sz_def)
  have enc: "get_bytes raw (ly_enc_offset layout + i) 1 = Inr [raw ! (13 + 4 * n + i)]"
    using i len by (simp add: L(2) get_bytes_def Cons_nth_drop_Suc [symmetric])
  have room: "unat (payload - used) = unat payload - unat used"
    using Suc.prems(3) by (simp add: unat_sub word_le_nat_alt)
  have le_next: "before (wire_size lsb raw) (Suc i) \<le> before (wire_size lsb raw) n"
    using i by (intro before_mono) simp
  have split: "(\<forall>k. i \<le> k \<longrightarrow> k < n \<longrightarrow> record_ok lsb raw n k) \<longleftrightarrow>
      record_ok lsb raw n i \<and> (\<forall>k. Suc i \<le> k \<longrightarrow> k < n \<longrightarrow> record_ok lsb raw n k)"
    using i by (metis Suc_leD Suc_le_eq le_neq_implies_less order_refl)
  have up: "[i..<n] = i # [Suc i..<n]" using i by (simp add: upt_conv_Cons)
  note step = check_records_loop.simps(2) [of le raw layout payload i "[Suc i..<n]" "13 + 4 * i" used,
      unfolded rd enc and_then.simps prod.case]
  show ?case
  proof (cases "record_ok lsb raw n i \<and> unat sz \<le> unat payload - unat used")
    case True
    have nz: "sz = 0 \<longleftrightarrow> wire_size lsb raw i = 0" using sz by (metis unat_0 unat_eq_zero)
    have add: "unat (used + ucast sz) = before (wire_size lsb raw) (Suc i)"
    proof -
      have u: "unat (ucast sz :: size_t) = wire_size lsb raw i" using sz by (simp add: unat_ucast_u64)
      then have "unat used + unat (ucast sz :: size_t) < 18446744073709551616"
        using True Suc.prems(3) sz unat_u64_bound [of payload] by linarith
      then show ?thesis using u Suc.prems(2) by (simp add: unat_add_u64)
    qed
    have "check_records_loop le raw layout payload [i..<n] (13 + 4 * i) used =
        check_records_loop le raw layout payload [Suc i..<n] (13 + 4 * Suc i) (used + ucast sz)"
      unfolding up step using True sz nz
      by (auto simp: record_ok_def wire_enc_def charport_cetype_ext_def unat_ucast_u64 word_less_nat_alt room
          Let_def)
    moreover have "m = n - Suc i" "Suc i \<le> n" using Suc.hyps(2) i by simp_all
    moreover have "unat (used + ucast sz) \<le> unat payload"
      unfolding add before_Suc using True Suc.prems(2,3) sz by linarith
    ultimately show ?thesis
      using Suc.hyps(1) [of "Suc i" "used + ucast sz"] add conjunct1 [OF True] split
      by (cases "check_records_loop le raw layout payload [Suc i..<n] (13 + 4 * Suc i) (used + ucast sz)") auto
  next
    case False
    have "\<exists>e. check_records_loop le raw layout payload [i..<n] (13 + 4 * i) used = Inl (Runtime_error e)"
      unfolding up step using False sz
      by (auto simp: record_ok_def wire_enc_def charport_cetype_ext_def unat_ucast_u64 word_less_nat_alt room
          Let_def)
    moreover have "\<not> (record_ok lsb raw n i \<and> before (wire_size lsb raw) n \<le> unat payload)"
      using False le_next Suc.prems(2) sz by auto
    ultimately show ?thesis using split by auto
  qed
qed

lemma check_records_spec:
  assumes h: "header_ok raw" and len: "length raw \<le> 4503599627370496"
  shows "if records_ok raw then charvec_check_records le raw (state_layout le raw) = Inr ()
    else \<exists>m. charvec_check_records le raw (state_layout le raw) = Inl (Runtime_error m)"
proof -
  let ?lsb = "raw ! 4 = 1" and ?L = "state_layout le raw"
  define n where "n = wire_count ?lsb raw"
  define payload :: size_t where "payload = of_nat (length raw - (13 + 5 * n))"
  have fit: "13 + 5 * n \<le> length raw" using h by (simp add: header_ok_def n_def)
  have n: "unat (ly_n ?L) = n" using fit len by (simp add: state_layout_def Let_def n_def [symmetric] unat_of_nat_u64)
  have p: "unat payload = length raw - (13 + 5 * n)" using len by (simp add: payload_def unat_of_nat_u64)
  have L: "ly_swap ?L = (?lsb \<noteq> le)" "ly_enc_offset ?L = 13 + 4 * n" "ly_size_offset ?L = 13"
    "of_nat (ly_data_end ?L - ly_data_offset ?L) = payload"
    by (simp_all add: state_layout_def Let_def n_def payload_def)
  have z: "0 \<le> n" "unat (0 :: size_t) = before (wire_size ?lsb raw) 0" "unat (0 :: size_t) \<le> unat payload" by simp_all
  note loop = check_records_loop_spec [OF L(1,2) fit z, simplified mult_0_right add_0_right]
  have r: "records_ok raw \<longleftrightarrow> (\<forall>i < n. record_ok ?lsb raw n i) \<and> before (wire_size ?lsb raw) n = unat payload"
    using fit p unfolding records_ok_def Let_def n_def [symmetric] by auto
  have c: "charvec_check_records le raw ?L =
      and_then (check_records_loop le raw ?L payload [0..<n] 13 0)
        (\<lambda>used. if used \<noteq> payload then Inl (Runtime_error ''serialized_state has trailing bytes'') else Inr ())"
    unfolding charvec_check_records_def Let_def n L ..
  show ?thesis
  proof (cases "check_records_loop le raw ?L payload [0..<n] 13 0")
    case (Inl e)
    with loop have e: "\<exists>m. e = Runtime_error m" and nr: "\<not> records_ok raw" by (auto simp: r)
    with Inl show ?thesis by (auto simp: c)
  next
    case (Inr u)
    with loop have u: "\<forall>i < n. record_ok ?lsb raw n i" "unat u = before (wire_size ?lsb raw) n" by simp_all
    have "records_ok raw \<longleftrightarrow> u = payload" using u r by (metis word_unat_eq_iff)
    then show ?thesis using Inr by (simp add: c)
  qed
qed

section \<open>The accepted states are exactly the format\<close>

lemma length_field [simp]: "length (field lsb k x) = k"
  by (simp add: field_def)

lemma wire_word_field: "LENGTH('a::len) \<le> 8 * k \<Longrightarrow> wire_word lsb (field lsb k x) = (x :: 'a word)"
  by (simp add: wire_word_def field_def le_word_bytes)

lemma field_wire_word: "length bs = k \<Longrightarrow> 8 * k \<le> LENGTH('a::len) \<Longrightarrow> field lsb k (wire_word lsb bs :: 'a word) = bs"
  by (simp add: wire_word_def field_def le_bytes_word)

lemma take_drop_append:
  "k = length xs \<Longrightarrow> take m (drop k (xs @ ys)) = take m ys"
  by simp

text \<open>The state's bytes as a list of parts.\<close>

definition state_prefix :: "bool \<Rightarrow> bool \<Rightarrow> u8 list" where
  "state_prefix v2 lsb = [67, 80, 86, if v2 then 50 else 49, if lsb then 1 else 2]"

definition state_sizes :: "bool \<Rightarrow> element list \<Rightarrow> u8 list" where
  "state_sizes lsb es = concat (map (\<lambda>e. field lsb 4 (of_nat (length (elem_bytes e)) :: u32)) es)"

definition state_payload :: "element list \<Rightarrow> u8 list" where
  "state_payload es = concat (map elem_bytes es)"

lemma charvec_state_parts:
  "charvec_state v2 lsb es =
     state_prefix v2 lsb @ field lsb 8 (of_nat (length es) :: u64) @ state_sizes lsb es @
     map elem_tag es @ state_payload es"
  by (simp add: charvec_state_def state_prefix_def state_sizes_def state_payload_def)

lemma length_state_sizes [simp]: "length (state_sizes lsb es) = 4 * length es"
  by (induction es) (simp_all add: state_sizes_def)

lemma length_state_prefix [simp]: "length (state_prefix v2 lsb) = 5"
  by (simp add: state_prefix_def)

lemma length_charvec_state:
  "length (charvec_state v2 lsb es) = 13 + 5 * length es + length (state_payload es)"
  by (simp add: charvec_state_parts)

lemma proper_element_of:
  "proper e \<Longrightarrow> element_of (Cetype (elem_tag e)) (elem_bytes e) = e"
  by (cases e; simp add: element_of_def cetype_ext_t.expand cetype_defs)

lemma piece_of_concat_map:
  assumes "i < length es" and s: "\<And>k. k \<le> i \<Longrightarrow> s k = length (f (es ! k))"
  shows "take (s i) (drop (before s i) (concat (map f es) @ rest)) = f (es ! i)"
proof -
  let ?xs = "map f es"
  have b: "before s i = before (\<lambda>k. length (?xs ! k)) i"
    by (rule before_cong) (use assms in simp)
  have "before (\<lambda>k. length (?xs ! k)) (Suc i) = length (concat (take (Suc i) ?xs))"
    by (rule length_concat_before [symmetric]) (use assms(1) in simp)
  also have "\<dots> \<le> length (concat (take (Suc i) ?xs) @ concat (drop (Suc i) ?xs))"
    by simp
  also have "\<dots> = length (concat ?xs)"
    by (metis append_take_drop_id concat_append)
  finally have "before s i + s i \<le> length (concat ?xs)" using assms b by simp
  then have "take (s i) (drop (before s i) (concat ?xs @ rest)) = take (s i) (drop (before s i) (concat ?xs))"
    by simp
  also have "\<dots> = f (es ! i)"
    using piece_of_concat [of i ?xs] assms b by simp
  finally show ?thesis .
qed

lemma charvec_state_drops:
  "drop 5 (charvec_state v2 lsb es) =
     field lsb 8 (of_nat (length es) :: u64) @ state_sizes lsb es @ map elem_tag es @ state_payload es"
  "drop 13 (charvec_state v2 lsb es) = state_sizes lsb es @ map elem_tag es @ state_payload es"
  "drop (13 + 4 * length es) (charvec_state v2 lsb es) = map elem_tag es @ state_payload es"
  "drop (13 + 5 * length es) (charvec_state v2 lsb es) = state_payload es"
proof -
  let ?s = "charvec_state v2 lsb es"
  show 5: "drop 5 ?s =
     field lsb 8 (of_nat (length es) :: u64) @ state_sizes lsb es @ map elem_tag es @ state_payload es"
    by (simp add: charvec_state_parts)
  have "drop 8 (drop 5 ?s) = state_sizes lsb es @ map elem_tag es @ state_payload es"
    unfolding 5 by simp
  then show 13: "drop 13 ?s = state_sizes lsb es @ map elem_tag es @ state_payload es" by simp
  have "drop (4 * length es) (drop 13 ?s) = map elem_tag es @ state_payload es" unfolding 13 by simp
  then show t: "drop (13 + 4 * length es) ?s = map elem_tag es @ state_payload es" by (simp add: add.commute)
  have "drop (length es) (drop (13 + 4 * length es) ?s) = state_payload es" unfolding t by simp
  then show "drop (13 + 5 * length es) ?s = state_payload es" by (simp add: algebra_simps)
qed

lemma charvec_state_fields:
  assumes ok: "\<forall>e \<in> set es. proper e" and len: "length es < 18446744073709551616"
    and raw: "raw = charvec_state v2 lsb es" and n: "n = length es"
  shows "wire_count lsb raw = n"
    and "\<And>i. i < n \<Longrightarrow> wire_size lsb raw i = length (elem_bytes (es ! i))"
    and "\<And>i. i < n \<Longrightarrow> wire_enc raw n i = Cetype (elem_tag (es ! i))"
    and "\<And>i. i < n \<Longrightarrow> wire_element lsb raw n i = es ! i"
    and "before (wire_size lsb raw) n = length (state_payload es)"
    and "\<And>i. i < n \<Longrightarrow>
      take (wire_size lsb raw i) (drop (13 + 5 * n + before (wire_size lsb raw) i) raw) = elem_bytes (es ! i)"
proof -
  show "wire_count lsb raw = n"
    using len by (simp add: wire_count_def raw n charvec_state_drops wire_word_field unat_of_nat_u64)
  have small: "length (elem_bytes e) \<le> 2147483647" if "proper e" for e using that by (cases e) simp_all
  show size: "wire_size lsb raw i = length (elem_bytes (es ! i))" if i: "i < n" for i
  proof -
    have "take 4 (drop (13 + 4 * i) raw) = take 4 (drop (4 * i) (drop 13 raw))" by (simp add: add.commute)
    also have "\<dots> = field lsb 4 (of_nat (length (elem_bytes (es ! i))) :: u32)"
      using piece_of_concat_map [of i es "\<lambda>k. 4" "\<lambda>e. field lsb 4 (of_nat (length (elem_bytes e)) :: u32)"
          "map elem_tag es @ state_payload es"] i
      by (simp add: raw n charvec_state_drops state_sizes_def del: take_append drop_append)
    finally show ?thesis
      using small [of "es ! i"] ok i n by (simp add: wire_size_def wire_word_field unat_of_nat_u32)
  qed
  show enc: "wire_enc raw n i = Cetype (elem_tag (es ! i))" if i: "i < n" for i
  proof -
    have "raw ! (13 + 4 * n + i) = drop (13 + 4 * n) raw ! i"
      using i by (subst nth_drop) (simp_all add: raw length_charvec_state n)
    also have "\<dots> = elem_tag (es ! i)" using i by (simp add: raw n charvec_state_drops nth_append)
    finally show ?thesis by (simp add: wire_enc_def)
  qed
  show piece: "take (wire_size lsb raw i) (drop (13 + 5 * n + before (wire_size lsb raw) i) raw) =
      elem_bytes (es ! i)" if i: "i < n" for i
  proof -
    have "take (wire_size lsb raw i) (drop (13 + 5 * n + before (wire_size lsb raw) i) raw) =
        take (wire_size lsb raw i) (drop (before (wire_size lsb raw) i) (state_payload es))"
      using charvec_state_drops(4) [of es v2 lsb] by (simp add: raw n add.commute flip: drop_drop)
    also have "\<dots> = elem_bytes (es ! i)"
      using piece_of_concat_map [of i es "wire_size lsb raw" elem_bytes "[]"] i size n
      by (simp add: state_payload_def)
    finally show ?thesis .
  qed
  show "wire_element lsb raw n i = es ! i" if i: "i < n" for i
    using enc [OF i] piece [OF i] proper_element_of [of "es ! i"] ok i n by (simp add: wire_element_def)
  have "before (wire_size lsb raw) n = before (\<lambda>k. length (map elem_bytes es ! k)) n"
    by (rule before_cong) (use size n in simp)
  then show "before (wire_size lsb raw) n = length (state_payload es)"
    using length_concat_before [of n "map elem_bytes es"] n by (simp add: state_payload_def)
qed

text \<open>A state in the format is accepted, and its records are the elements.\<close>

lemma charvec_state_accepted:
  assumes ok: "\<forall>e \<in> set es. storable e" and len: "length (charvec_state v2 lsb es) \<le> 4503599627370496"
  shows "header_ok (charvec_state v2 lsb es)" and "records_ok (charvec_state v2 lsb es)"
    and "(charvec_state v2 lsb es ! 4 = 1) = lsb" and "(charvec_state v2 lsb es ! 3 = 50) = v2"
proof -
  let ?raw = "charvec_state v2 lsb es"
  have n: "length es < 18446744073709551616" using len by (simp add: length_charvec_state)
  have pr: "\<forall>e \<in> set es. proper e" using ok storable_proper by blast
  note f = charvec_state_fields [OF pr n refl refl]
  show lsb: "(?raw ! 4 = 1) = lsb" and "(?raw ! 3 = 50) = v2" by (simp_all add: charvec_state_def)
  show "header_ok ?raw"
    unfolding header_ok_def lsb f(1) by (simp add: length_charvec_state) (simp add: charvec_state_def)
  have "record_ok lsb ?raw (length es) i" if "i < length es" for i
  proof -
    have "storable (es ! i)" using ok that by simp
    then show ?thesis using f(2,3) [OF that] unfolding record_ok_def
      by (cases "es ! i") (auto simp: cetype_defs valid_view_encoding_def)
  qed
  then show "records_ok ?raw"
    unfolding records_ok_def Let_def lsb f(1) f(5) by (simp add: length_charvec_state)
qed

text \<open>An accepted state is in the format: it is the state of its own records.\<close>

lemma accepted_charvec_state:
  assumes h: "header_ok raw" and r: "records_ok raw" and len: "length raw \<le> 4503599627370496"
    and lsb: "lsb = (raw ! 4 = 1)" and n: "n = wire_count lsb raw"
  shows "raw = charvec_state (raw ! 3 = 50) lsb (map (wire_element lsb raw n) [0..<n])"
    and "\<And>i. i < n \<Longrightarrow> storable (wire_element lsb raw n i)"
    and "\<And>i. i < n \<Longrightarrow> elem_bytes (wire_element lsb raw n i) =
        take (wire_size lsb raw i) (drop (13 + 5 * n + before (wire_size lsb raw) i) raw)"
proof -
  let ?s = "wire_size lsb raw" and ?es = "map (wire_element lsb raw n) [0..<n]"
  have ok: "record_ok lsb raw n i" if "i < n" for i
    using r that unfolding records_ok_def Let_def lsb [symmetric] n [symmetric] by simp
  have total: "13 + 5 * n + before ?s n = length raw"
    using r unfolding records_ok_def Let_def lsb [symmetric] n [symmetric] by simp
  have fits: "13 + 5 * n + before ?s i + ?s i \<le> length raw" if "i < n" for i
    using before_mono [of "Suc i" n ?s] that total by simp
  let ?piece = "\<lambda>i. take (?s i) (drop (13 + 5 * n + before ?s i) raw)"
  show bytes: "elem_bytes (wire_element lsb raw n i) = ?piece i" if "i < n" for i
    using ok [OF that] by (auto simp: wire_element_def element_of_def record_ok_def)
  have tag: "elem_tag (wire_element lsb raw n i) = raw ! (13 + 4 * n + i)" if "i < n" for i
    by (auto simp: wire_element_def element_of_def wire_enc_def cetype_defs)
  show "storable (wire_element lsb raw n i)" if "i < n" for i
    using ok [OF that] by (auto simp: wire_element_def element_of_def record_ok_def)
  have lens: "length (elem_bytes (wire_element lsb raw n i)) = ?s i" if "i < n" for i
    using bytes [OF that] fits [OF that] by simp
  have prefix: "take 5 raw = state_prefix (raw ! 3 = 50) lsb"
  proof (rule nth_equalityI)
    show "length (take 5 raw) = length (state_prefix (raw ! 3 = 50) lsb)" using total by simp
    fix i assume "i < length (take 5 raw)"
    then have "i = 0 \<or> i = 1 \<or> i = 2 \<or> i = 3 \<or> i = 4" by auto
    then show "take 5 raw ! i = state_prefix (raw ! 3 = 50) lsb ! i"
      using h by (auto simp: state_prefix_def header_ok_def lsb)
  qed
  have count: "take 8 (drop 5 raw) = field lsb 8 (of_nat n :: u64)"
  proof -
    have "(of_nat n :: u64) = wire_word lsb (take 8 (drop 5 raw))" by (simp add: n wire_count_def)
    then show ?thesis using total by (simp add: field_wire_word)
  qed
  have sizes: "take (4 * n) (drop 13 raw) = state_sizes lsb ?es"
  proof -
    have one: "field lsb 4 (of_nat (length (elem_bytes (wire_element lsb raw n i))) :: u32) =
        take 4 (drop (4 * i) (drop 13 raw))" if "i < n" for i
    proof -
      have "(of_nat (?s i) :: u32) = wire_word lsb (take 4 (drop (13 + 4 * i) raw))"
        by (simp add: wire_size_def)
      then show ?thesis using lens [OF that] total that by (simp add: field_wire_word add.commute)
    qed
    have "state_sizes lsb ?es = concat (map (\<lambda>i. take 4 (drop (4 * i) (drop 13 raw))) [0..<n])"
      unfolding state_sizes_def map_map comp_def
      by (rule arg_cong [where f = concat], rule map_cong [OF refl]) (use one in simp)
    also have "\<dots> = take (4 * n) (drop 13 raw)"
      using concat_pieces [of "\<lambda>i. 4" n "drop 13 raw"] total by simp
    finally show ?thesis ..
  qed
  have tags: "take n (drop (13 + 4 * n) raw) = map elem_tag ?es"
    by (rule nth_equalityI) (use total tag in auto)
  have payload: "drop (13 + 5 * n) raw = state_payload ?es"
  proof -
    have "state_payload ?es = concat (map (\<lambda>i. take (?s i) (drop (before ?s i) (drop (13 + 5 * n) raw))) [0..<n])"
      unfolding state_payload_def map_map comp_def
      by (rule arg_cong [where f = concat], rule map_cong [OF refl]) (use bytes in \<open>simp add: add.commute\<close>)
    also have "\<dots> = drop (13 + 5 * n) raw"
      using concat_pieces [of ?s n "drop (13 + 5 * n) raw"] total by simp
    finally show ?thesis ..
  qed
  have "raw = take 5 raw @ take 8 (drop 5 raw) @ take (4 * n) (drop 13 raw) @
      take n (drop (13 + 4 * n) raw) @ drop (13 + 5 * n) raw"
  proof -
    have "drop 13 raw = take (4 * n) (drop 13 raw) @ drop (4 * n) (drop 13 raw)"
      and "drop (13 + 4 * n) raw = take n (drop (13 + 4 * n) raw) @ drop n (drop (13 + 4 * n) raw)"
      and "raw = take 5 raw @ drop 5 raw" and "drop 5 raw = take 8 (drop 5 raw) @ drop 8 (drop 5 raw)"
      by (simp_all only: append_take_drop_id)
    moreover have "drop 8 (drop 5 raw) = drop 13 raw" "drop (4 * n) (drop 13 raw) = drop (13 + 4 * n) raw"
      "drop n (drop (13 + 4 * n) raw) = drop (13 + 5 * n) raw"
      by (simp_all add: algebra_simps)
    ultimately show ?thesis by metis
  qed
  then show "raw = charvec_state (raw ! 3 = 50) lsb ?es"
    unfolding charvec_state_parts prefix count sizes tags payload by simp
qed

end
