(* ===== verification/Cp_Roundtrip.thy ===== *)
theory Cp_Roundtrip
  imports Cp_Serialize
begin

text \<open>
  What \<open>unserialize_store\<close> does with any raw vector, and \<open>Serialized_state\<close>
  (\<open>src/charvec_altrep.h\<close>). Wrapping the rebuilt store and the round trip are in \<open>Cp_Unserialize\<close>.
\<close>

section \<open>The loop of unserialize_store\<close>

lemma copy_record_can_alloc: "copy_record s t h i src l c = (r, s', t', h') \<Longrightarrow> can_alloc h' = can_alloc h"
  by (auto simp: copy_record_def dest!: fill_record_can_alloc memcpy_can_alloc
      split: sum.splits prod.splits if_splits)

lemma builder_set_can_alloc: "builder_set b i src l c h = (r, b', h') \<Longrightarrow> can_alloc h' = can_alloc h"
  by (auto simp: builder_set_def builder_copy_record_def dest: copy_record_can_alloc
      split: prod.splits if_splits)

lemma builder_set_na_can_alloc: "builder_set_na b i h = (r, b', h') \<Longrightarrow> can_alloc h' = can_alloc h"
  by (simp add: builder_set_na_def builder_set_can_alloc)

lemma rt_reserve_can_alloc: "rt_reserve n t h = (r, t', h') \<Longrightarrow> can_alloc h' = can_alloc h"
  by (auto simp: rt_reserve_def try_alloc_def Let_def split: if_splits)

lemma rt_new_can_alloc: "rt_new n h = (r, h') \<Longrightarrow> can_alloc h' = can_alloc h"
  by (auto simp: rt_new_def dest: rt_reserve_can_alloc split: prod.splits sum.splits)

lemma builder_new_can_alloc: "builder_new n h = (r, h') \<Longrightarrow> can_alloc h' = can_alloc h"
  by (auto simp: builder_new_def checked_vector_size_def store_new_def dest: rt_new_can_alloc
      split: prod.splits sum.splits if_splits)

lemma rt_new_reserve_fail:
  assumes "rt_new n h = (Inl e, h')"
  obtains t' where "rt_reserve n rt_empty h = (Inl e, t', h')"
proof -
  obtain r t0 h0 where r: "rt_reserve n rt_empty h = (r, t0, h0)" by (metis prod_cases3)
  show ?thesis
  proof (cases r)
    case (Inl e')
    with r assms that show ?thesis by (simp add: rt_new_def)
  next
    case (Inr u)
    with rt_reserve_succ [OF rt_ok_empty, of n h u] r
    have t0: "rt_ok t0" "vector_length t0 = 0" "capacity t0 = n" by (auto simp: rt_empty_def)
    have "\<exists>t'. rt_fill_na (t0\<lparr>vector_length := n\<rparr>) 0 n = Inr t' \<and> rt_ok t' \<and>
       vector_length t' = vector_length (t0\<lparr>vector_length := n\<rparr>) \<and>
      (\<forall>j < vector_length (t0\<lparr>vector_length := n\<rparr>). rt_at t' j = make_strview Null NA_INTEGER CETYPE_EXT_NA)"
      by (rule rt_fill_na_ok) (use t0 in \<open>auto simp: rt_ok_def\<close>)
    with assms r Inr show ?thesis by (auto simp: rt_new_def)
  qed
qed

lemma sint_nonneg_small: "unat (n :: R_xlen_t) < 9223372036854775808 \<Longrightarrow> 0 \<le> sint n"
proof -
  assume n: "unat n < 9223372036854775808"
  have "take_bit 63 n = n"
    using n by (simp add: word_unat_eq_iff unsigned_take_bit_eq take_bit_nat_eq_self)
  then have "\<not> bit n 63" by (metis bit_take_bit_iff less_irrefl)
  then show ?thesis using bit_last_iff [of n] by (simp add: not_less)
qed

lemma builder_new_oom:
  assumes f: "builder_new n h = (Inl e, h')" and n: "unat n \<le> 4503599627370496"
  shows "\<exists>i m. \<not> can_alloc h i m"
proof -
  have "0 \<le> sint n" using n by (intro sint_nonneg_small) simp
  with f have "store_new (unat n) 0 h = (Inl e, h')"
    by (auto simp: builder_new_def checked_vector_size_def split: prod.splits sum.splits)
  then have "rt_new (unat n) h = (Inl e, h')"
    by (auto simp: store_new_def split: prod.splits sum.splits)
  then obtain t' where "rt_reserve (unat n) rt_empty h = (Inl e, t', h')" by (rule rt_new_reserve_fail)
  from rt_reserve_oom [OF this] n show ?thesis by (simp add: max_capacity_value)
qed

text \<open>The lazily found flag: unknown, or what it will be.\<close>

definition flag_ok :: "bool \<Rightarrow> bool \<Rightarrow> int \<Rightarrow> bool" where
  "flag_ok v2 nu flag \<longleftrightarrow> (if v2 then flag = -1 \<or> flag = (if nu then 0 else 1) else flag = 0)"

lemma native_as_utf8_step_spec:
  assumes "flag_ok v2 nu flag" and "native_as_utf8_step nu flag enc = (enc', flag')"
  shows "flag_ok v2 nu flag'" and "element_of enc' ys = as_read v2 nu (element_of enc ys)"
    and "enc' = CETYPE_EXT_NA \<longleftrightarrow> enc = CETYPE_EXT_NA"
  using assms
  by (auto simp: flag_ok_def native_as_utf8_step_def element_of_def cetype_defs Let_def split: if_splits)

lemma builder_step:
  assumes s: "builder_sets b h es i e fits res" and fits: "fits" "unat i < length es"
  obtains (error) f b' h' where "res = (Inl f, b', h')" "f \<noteq> Undefined" "b' = b" "blocks h' = blocks h"
      "builder_holds b h' es" "\<exists>n m. \<not> can_alloc h n m"
  | (ok) b' h' where "res = (Inr (), b', h')" "builder_holds b' h' (es[unat i := e])" "builder_frame b b' h h'"
  using assms
  by (cases res rule: prod_cases3; cases "fst res") (auto simp: builder_sets_def builder_fails_def)

lemma unserialize_loop_spec:
  assumes ok: "header_ok raw" "records_ok raw" and len: "length raw \<le> 4503599627370496"
    and lsb: "lsb = (raw ! 4 = 1)" and n: "n = wire_count lsb raw" and v2: "v2 = (raw ! 3 = 50)"
    and E: "E = (\<lambda>k. as_read v2 nu (wire_element lsb raw n k))"
    and "i \<le> n" and "builder_holds b h (map E [0..<i] @ replicate (n - i) NA)"
    and "blocks h rb = Some raw" and "rb \<notin> shard_owned (bd_shard b)" and "flag_ok v2 nu flag"
  shows "case unserialize_loop le nu rb (state_layout le raw) [i..<n] (13 + 4 * i)
        (13 + 5 * n + before (wire_size lsb raw) i) flag b h of
      (Inl e, b', h') \<Rightarrow> e \<noteq> Undefined \<and> (\<exists>es. builder_holds b' h' es) \<and> builder_frame b b' h h' \<and>
        (\<exists>k m. \<not> can_alloc h k m)
    | (Inr u, b', h') \<Rightarrow> builder_holds b' h' (map E [0..<n]) \<and> builder_frame b b' h h'"
  using assms(8-)
proof (induction "n - i" arbitrary: i b h flag)
  case 0
  then show ?case by (simp add: builder_frame_def)
next
  case (Suc m)
  let ?L = "state_layout le raw" and ?s = "wire_size lsb raw" and ?d = "13 + 5 * n"
  have i: "i < n" using Suc.hyps(2) by simp
  have fit: "13 + 5 * n \<le> length raw" using ok(1) by (simp add: header_ok_def n lsb)
  note total = ok(2) [unfolded records_ok_def Let_def, folded lsb, folded n]
  have L: "ly_swap ?L = (lsb \<noteq> le)" "ly_enc_offset ?L = 13 + 4 * n"
    by (simp_all add: state_layout_def Let_def lsb n)
  have rb: "raw_bytes h rb = raw" using Suc.prems(3) by (simp add: raw_bytes_def)
  define sz where "sz = (wire_word lsb (take 4 (drop (13 + 4 * i) raw)) :: u32)"
  have sz: "unat sz = ?s i" by (simp add: sz_def wire_size_def)
  have rd: "charvec_read_u32_advance le raw (13 + 4 * i) (ly_swap ?L) = Inr (sz, 13 + 4 * Suc i)"
    unfolding L(1) charvec_read_u32_advance_def using i fit by (subst read_u32_wire) (simp add: sz_def)
  have enc: "get_bytes raw (ly_enc_offset ?L + i) 1 = Inr [raw ! (13 + 4 * n + i)]"
    using i fit by (simp add: L(2) get_bytes_def Cons_nth_drop_Suc [symmetric])
  have wenc: "charport_cetype_ext (hd [raw ! (13 + 4 * n + i)]) = wire_enc raw n i"
    by (simp add: charport_cetype_ext_def wire_enc_def)
  obtain enc' flag' where st: "native_as_utf8_step nu flag (wire_enc raw n i) = (enc', flag')" by fastforce
  note step = native_as_utf8_step_spec [OF Suc.prems(5) st]
  let ?ys = "take (?s i) (drop (?d + before ?s i) raw)"
  have Ei: "E i = element_of enc' ?ys"
    using step(2) [of ?ys] by (simp add: E wire_element_def)
  have room: "?d + before ?s i + ?s i \<le> length raw"
    using before_mono [of "Suc i" n ?s] i total by simp
  have u: "unat (ucast sz :: size_t) = ?s i" using sz by (simp add: unat_ucast_u64)
  have idx: "unat (of_nat i :: R_xlen_t) = i" using i fit len by (intro unat_of_nat_u64) simp
  have next_start: "?d + before ?s i + unat sz = ?d + before ?s (Suc i)" using sz by simp
  define res where "res = (if enc' = CETYPE_EXT_NA then builder_set_na b (of_nat i) h
      else builder_set b (of_nat i) (At rb (?d + before ?s i)) (ucast sz) enc' h)"
  let ?es = "map E [0..<i] @ replicate (n - i) NA"
  have sets: "builder_sets b h ?es (of_nat i) (E i) True res"
  proof (cases "enc' = CETYPE_EXT_NA")
    case True
    then show ?thesis using builder_set_na_sets [OF Suc.prems(2)] Ei by (simp add: res_def)
  next
    case False
    have "mem_read h (At rb (?d + before ?s i)) (unat (ucast sz :: size_t)) = Some ?ys"
      using Suc.prems(3) room u by simp
    moreover have "pool.src_ok [bd_shard b] h (At rb (?d + before ?s i)) (unat (ucast sz :: size_t))"
      using Suc.prems(4) by (simp add: pool.src_ok_def)
    moreover have "?ys = []" if "(ucast sz :: size_t) = 0" using u that by simp
    ultimately have src: "source_ok [bd_shard b] h (At rb (?d + before ?s i)) (ucast sz) ?ys"
      by (simp add: source_ok_def)
    have "unat (ucast sz :: size_t) \<le> 2147483647" using total i u by (simp add: record_ok_def)
    then show ?thesis
      using builder_set_sets [OF Suc.prems(2), of "At rb (?d + before ?s i)" enc' "ucast sz" ?ys "of_nat i"]
        src False Ei by (simp add: res_def)
  qed
  have inside: "unat (of_nat i :: R_xlen_t) < length ?es" using idx i by simp
  have loop: "unserialize_loop le nu rb ?L [i..<n] (13 + 4 * i) (?d + before ?s i) flag b h =
      (case res of (Inl e, out', h') \<Rightarrow> (Inl e, out', h')
       | (Inr u, out', h') \<Rightarrow>
          unserialize_loop le nu rb ?L [Suc i..<n] (13 + 4 * Suc i) (?d + before ?s (Suc i)) flag' out' h')"
    unfolding upt_conv_Cons [OF i] unserialize_loop.simps rb rd sum.case prod.case enc wenc st
      res_def [symmetric] next_start ..
  from sets TrueI inside show ?case
  proof (cases rule: builder_step)
    case (error f b' h')
    then show ?thesis using Suc.prems(2) unfolding loop
      by (auto simp: builder_frame_def intro: takes_only_same)
  next
    case (ok b' h')
    have es: "?es[unat (of_nat i :: R_xlen_t) := E i] = map E [0..<Suc i] @ replicate (n - Suc i) NA"
      using i by (simp add: idx list_update_append Suc_diff_Suc [symmetric] del: upt_Suc) simp
    have live: "blocks h' rb = Some raw" "rb \<notin> shard_owned (bd_shard b')"
      using builder_frame_outside [OF ok(3) Suc.prems(4)] Suc.prems(3) by simp_all
    have alloc: "can_alloc h' = can_alloc h"
      using ok(1) unfolding res_def
      by (auto split: if_splits dest: builder_set_can_alloc builder_set_na_can_alloc)
    have "m = n - Suc i" "Suc i \<le> n" using Suc.hyps(2) i by simp_all
    from Suc.hyps(1) [OF this ok(2) [unfolded es] live step(1)]
    show ?thesis unfolding loop ok(1) prod.case sum.case
      using ok(3) alloc takes_only_trans
      by (auto simp: builder_frame_def split: prod.splits sum.splits simp del: before_Suc)
  qed
qed

lemma unserialize_loop_can_alloc:
  "unserialize_loop le nu rb L is so off flag b h = (r, b', h') \<Longrightarrow> can_alloc h' = can_alloc h"
proof (induction "is" arbitrary: so off flag b h)
  case Nil
  then show ?case by simp
next
  case (Cons i "is")
  then show ?case
    by (fastforce dest: builder_set_can_alloc builder_set_na_can_alloc
        split: sum.splits prod.splits if_splits)
qed

section \<open>Unserialize\<close>

text \<open>Destroying what was taken since \<open>h\<close> gives the blocks of \<open>h\<close> back.\<close>

lemma takes_only_freed:
  assumes "takes_only {} (set ss) h h'"
  shows "blocks (snd (slice_clear ss h')) = blocks h"
  using assms by (auto simp: takes_only_def slice_clear_blocks)

lemma builder_destroy_blocks:
  assumes "builder_holds b h' es" and "takes_only {} (shard_owned (bd_shard b)) h h'"
  shows "blocks (builder_destroy b h') = blocks h"
  using takes_only_freed [of "sh_slices (bd_shard b)" h h'] assms builder_holdsD(4) [OF assms(1)]
  by (simp add: builder_destroy_def store_free_def shard_owned_def)

lemma builder_new_fresh: "builder_new n h = (Inr b, h') \<Longrightarrow> shard_owned (bd_shard b) = {}"
  by (auto simp: builder_new_def shard_owned_def shard_new_def split: sum.splits prod.splits)

text \<open>Finishing a builder: the store goes to the heap, or everything is freed.\<close>

lemma release_heap_store:
  assumes b: "builder_holds b h' es" and t: "takes_only {} (shard_owned (bd_shard b)) h h'"
    and r: "builder_release_store b = (st, b')" and s: "heap_store st h' = (r, h2)"
  shows "case r of
      Inl e \<Rightarrow> e = Bad_alloc \<and> blocks (builder_destroy b' h2) = blocks h \<and> (\<exists>k m. \<not> can_alloc h' k m)
    | Inr st' \<Rightarrow> store_holds st' (builder_destroy b' h2) es \<and> apart (rt_views (st_records st')) \<and>
        takes_only {} (set (st_slices st')) h (builder_destroy b' h2)"
proof -
  note rel = builder_release_ok [OF b r]
  have "pool_denotes [bd_shard b] (st_records (bd_store b)) h' es" using b by (simp add: builder_holds_def)
  then have "apart (rt_views (st_records (bd_store b)))" by (rule pool_denotesD)
  moreover have "st_records st = st_records (bd_store b)"
    using r by (auto simp: builder_release_store_def builder_finish_store_def Let_def split: prod.splits)
  ultimately have ap: "apart (rt_views (st_records st))" by simp
  have empty: "builder_destroy b' h2 = h2"
    using r by (auto simp: builder_release_store_def builder_finish_store_def slice_prepend_def
        builder_destroy_def store_free_def store_empty_def shard_new_def)
  obtain ok h1 where a: "try_alloc 48 h' = (ok, h1)" by fastforce
  then have h1: "blocks h1 = blocks h'" "next_blk h1 = next_blk h'" by (auto simp: try_alloc_def)
  have t1: "takes_only {} (set (st_slices st)) h h1"
    using t rel h1 by (simp add: takes_only_def)
  show ?thesis
  proof (cases ok)
    case True
    then have "r = Inr st" "h2 = h1" using s a by (simp_all add: heap_store_def)
    moreover have "heap_ok h1" using builder_holdsD(3) [OF b] h1 by (simp add: heap_ok_def)
    ultimately show ?thesis
      using rel t1 empty store_holds_frame [of st h' es h1] h1 ap by simp
  next
    case False
    then have "r = Inl Bad_alloc" "h2 = store_free st h1" using s a by (simp_all add: heap_store_def)
    moreover have "\<not> can_alloc h' (attempts h') 48" using a False by (auto simp: try_alloc_def)
    ultimately show ?thesis using takes_only_freed [OF t1] empty by (auto simp: store_free_def)
  qed
qed

lemma unserialize_store_spec:
  assumes ok: "header_ok raw" "records_ok raw" and len: "length raw \<le> 4503599627370496"
    and lsb: "lsb = (raw ! 4 = 1)" and n: "n = wire_count lsb raw"
    and h: "heap_ok h" "blocks h rb = Some raw"
  shows "case unserialize_store le nu rb (state_layout le raw) h of
      (Inl e, h') \<Rightarrow> e \<noteq> Undefined \<and> blocks h' = blocks h \<and> (\<exists>k m. \<not> can_alloc h k m)
    | (Inr st, h') \<Rightarrow>
        store_holds st h' (map (\<lambda>k. as_read (raw ! 3 = 50) nu (wire_element lsb raw n k)) [0..<n]) \<and>
        apart (rt_views (st_records st)) \<and> takes_only {} (set (st_slices st)) h h'"
proof -
  let ?L = "state_layout le raw" and ?v2 = "raw ! 3 = 50"
  have chk: "charvec_check_records le raw ?L = Inr ()"
    using check_records_spec [OF ok(1) len, of le] ok(2) by simp
  have rb: "raw_bytes h rb = raw" using h(2) by (simp add: raw_bytes_def)
  have fit: "13 + 5 * n \<le> length raw" using ok(1) by (simp add: header_ok_def n lsb)
  have Ln: "ly_n ?L = of_nat n" "ly_size_offset ?L = 13" "ly_data_offset ?L = 13 + 5 * n"
    "ly_native_is_utf8_text ?L = ?v2" by (simp_all add: state_layout_def Let_def n lsb)
  have un: "unat (of_nat n :: R_xlen_t) = n" using fit len by (intro unat_of_nat_u64) simp
  obtain r h1 where new: "builder_new (of_nat n) h = (r, h1)" by fastforce
  show ?thesis
  proof (cases r)
    case (Inl e)
    with builder_new_ok [OF new h(1)] builder_new_oom [OF new [unfolded Inl]] un fit len show ?thesis
      by (simp add: unserialize_store_def rb chk Ln new)
  next
    case (Inr b)
    have b: "blocks h1 = blocks h" "builder_holds b h1 (replicate n NA)"
      using builder_new_ok [OF new h(1)] Inr un by simp_all
    have fresh: "shard_owned (bd_shard b) = {}" using builder_new_fresh new Inr by blast
    have alloc: "can_alloc h1 = can_alloc h" using builder_new_can_alloc [OF new] .
    define flag :: int where "flag = (if ?v2 then - 1 else 0)"
    have flag: "flag_ok ?v2 nu flag" by (simp add: flag_ok_def flag_def)
    obtain q b' h2 where loop: "unserialize_loop le nu rb ?L [0..<n] 13 (13 + 5 * n) flag b h1 = (q, b', h2)"
      by (metis prod_cases3)
    have r1: "blocks h1 rb = Some raw" "rb \<notin> shard_owned (bd_shard b)" using b(1) h(2) fresh by simp_all
    have b0: "builder_holds b h1
        (map (\<lambda>k. as_read ?v2 nu (wire_element lsb raw n k)) [0..<0] @ replicate (n - 0) NA)"
      using b(2) by simp
    note spec = unserialize_loop_spec [OF ok len lsb n refl refl le0 b0 r1 flag, of le, simplified, unfolded loop]
    have u: "unserialize_store le nu rb ?L h =
        (case q of
           Inl e \<Rightarrow> (Inl e, builder_destroy b' h2)
         | Inr u \<Rightarrow>
             (case builder_release_store b' of
                (st, out'') \<Rightarrow> (case heap_store st h2 of (r, h3) \<Rightarrow> (r, builder_destroy out'' h3))))"
      using loop by (simp add: unserialize_store_def rb chk Ln new Inr un flag_def split: sum.splits)
    show ?thesis
    proof (cases q)
      case (Inl e)
      with spec obtain es where es: "builder_holds b' h2 es" "builder_frame b b' h1 h2" "e \<noteq> Undefined"
        "\<exists>k m. \<not> can_alloc h k m" using alloc by auto
      then have "takes_only {} (shard_owned (bd_shard b')) h h2"
        using b(1) fresh by (simp add: builder_frame_def takes_only_def)
      from builder_destroy_blocks [OF es(1) this] es Inl show ?thesis by (simp add: u)
    next
      case (Inr w)
      let ?es = "map (\<lambda>k. as_read ?v2 nu (wire_element lsb raw n k)) [0..<n]"
      from spec Inr have es: "builder_holds b' h2 ?es" "builder_frame b b' h1 h2" by simp_all
      then have t: "takes_only {} (shard_owned (bd_shard b')) h h2"
        using b(1) fresh by (simp add: builder_frame_def takes_only_def)
      obtain st b'' where rel: "builder_release_store b' = (st, b'')" by fastforce
      obtain x h3 where hs: "heap_store st h2 = (x, h3)" by fastforce
      have "can_alloc h2 = can_alloc h" using unserialize_loop_can_alloc [OF loop] alloc by simp
      with release_heap_store [OF es(1) t rel hs] show ?thesis
        by (cases x) (simp_all add: u Inr rel hs)
    qed
  qed
qed

text \<open>The states the reader accepts, and what it makes of one.\<close>

definition state_of :: "u8 list \<Rightarrow> bool \<Rightarrow> bool \<Rightarrow> element list \<Rightarrow> bool" where
  "state_of raw v2 lsb es \<longleftrightarrow> raw = charvec_state v2 lsb es \<and> list_all storable es"

lemma accepted_state_of:
  assumes "header_ok raw" and "records_ok raw" and "length raw \<le> 4503599627370496"
  shows "state_of raw (raw ! 3 = 50) (raw ! 4 = 1)
    (map (wire_element (raw ! 4 = 1) raw (wire_count (raw ! 4 = 1) raw)) [0..<wire_count (raw ! 4 = 1) raw])"
  using accepted_charvec_state [OF assms refl refl] by (simp add: state_of_def list_all_iff)

lemma state_of_accepted:
  assumes "state_of raw v2 lsb es" and "length raw \<le> 4503599627370496"
  shows "header_ok raw" and "records_ok raw" and "(raw ! 4 = 1) = lsb" and "(raw ! 3 = 50) = v2"
    and "map (wire_element lsb raw (wire_count lsb raw)) [0..<wire_count lsb raw] = es"
proof -
  have raw: "raw = charvec_state v2 lsb es" and ok: "\<forall>e \<in> set es. storable e"
    using assms(1) by (simp_all add: state_of_def list_all_iff)
  note a = charvec_state_accepted [OF ok, of v2 lsb, folded raw, OF assms(2)]
  show "header_ok raw" "records_ok raw" "(raw ! 4 = 1) = lsb" "(raw ! 3 = 50) = v2" by (fact a)+
  have "length es < 18446744073709551616" using assms(2) by (simp add: raw length_charvec_state)
  note f = charvec_state_fields [OF _ this raw refl]
  show "map (wire_element lsb raw (wire_count lsb raw)) [0..<wire_count lsb raw] = es"
    using ok storable_proper by (intro nth_equalityI) (simp_all add: f)
qed

section \<open>Serialized_state\<close>

text \<open>\<open>strings\<close>: the store as a new character vector.\<close>

definition charvec_strings :: "'c r_strings \<Rightarrow> store \<Rightarrow> heap \<Rightarrow> (fault + 'c list) \<times> heap" where
  "charvec_strings R st h =
     (case allocVector (8 * store_size st) h of
        (Inl e, h1) \<Rightarrow> (Inl e, h1)
      | (Inr u, h1) \<Rightarrow>
          (for_each (\<lambda>i out.
              and_then (store_view st i) (\<lambda>v.
              and_then (make_charsxp R h1 v) (\<lambda>x. Inr (out[i := x]))))
             [0..<store_size st] (replicate (store_size st) (R_BlankString R)), h1))"

text \<open>The first loop: whether a native record turns up before the end.\<close>

fun find_native :: "store \<Rightarrow> nat list \<Rightarrow> fault + bool" where
  "find_native st [] = Inr False"
| "find_native st (i # is) =
     and_then (rt_encoding (st_records st) i) (\<lambda>e.
       if e = CETYPE_EXT_NATIVE then Inr True else find_native st is)"

definition payload_step :: "store \<Rightarrow> nat \<Rightarrow> size_t \<Rightarrow> fault + size_t" where
  "payload_step st i total_size =
     and_then (rt_length (st_records st) i) (\<lambda>len.
       checked_add_size total_size (if sint len < 0 then 0 else scast len) ''serialized_state payload'')"

text \<open>The bodies of the three writing loops; the state is the raw vector's bytes and the offset.\<close>

definition write_size_step :: "bool \<Rightarrow> store \<Rightarrow> nat \<Rightarrow> u8 list \<times> nat \<Rightarrow> fault + u8 list \<times> nat" where
  "write_size_step le st i s =
     (case s of (raw, off) \<Rightarrow>
        and_then (rt_length (st_records st) i) (\<lambda>len.
        and_then (charvec_write_u32_le le raw off (if sint len < 0 then 0 else len)) (\<lambda>raw'.
          Inr (raw', off + 4))))"

definition write_enc_step :: "store \<Rightarrow> nat \<Rightarrow> u8 list \<times> nat \<Rightarrow> fault + u8 list \<times> nat" where
  "write_enc_step st i s =
     (case s of (raw, off) \<Rightarrow>
        and_then (rt_encoding (st_records st) i) (\<lambda>enc.
        and_then (put_bytes raw off [tag_value enc]) (\<lambda>raw'. Inr (raw', off + 1))))"

definition write_data_step :: "store \<Rightarrow> heap \<Rightarrow> nat \<Rightarrow> u8 list \<times> nat \<Rightarrow> fault + u8 list \<times> nat" where
  "write_data_step st h i s =
     (case s of (raw, off) \<Rightarrow>
        and_then (store_view st i) (\<lambda>rec.
          if 0 < sint (sv_len rec)
          then (case mem_read h (sv_ptr rec) (unat (sv_len rec)) of
                  None \<Rightarrow> Inl Undefined
                | Some bs \<Rightarrow> and_then (put_bytes raw off bs) (\<lambda>raw'. Inr (raw', off + unat (sv_len rec))))
          else Inr (raw, off)))"

definition write_state :: "bool \<Rightarrow> store \<Rightarrow> heap \<Rightarrow> u8 list \<Rightarrow> fault + u8 list" where
  "write_state le st h raw =
     (let n = store_size st
      in and_then (put_bytes raw 0 [67, 80, 86, 50, 1]) (\<lambda>raw1.
         and_then (charvec_write_u64_le le raw1 (unat charvec_serialized_prefix_bytes) (of_nat n)) (\<lambda>raw2.
         and_then (for_each (write_size_step le st) [0..<n] (raw2, unat charvec_serialized_prefix_bytes + 8)) (\<lambda>s3.
         and_then (for_each (write_enc_step st) [0..<n] s3) (\<lambda>s4.
         and_then (for_each (write_data_step st h) [0..<n] s4) (\<lambda>s5. Inr (fst s5)))))))"

text \<open>\<open>data2\<close> is the materialized vector, if any; \<open>st\<close> the store otherwise.\<close>

definition charvec_Serialized_state ::
    "bool \<Rightarrow> bool \<Rightarrow> 'c r_strings \<Rightarrow> 'c list option \<Rightarrow> store \<Rightarrow> heap \<Rightarrow> (fault + 'c r_state) \<times> heap" where
  "charvec_Serialized_state le nu R data2 st h =
     (case (case data2 of
              Some xs \<Rightarrow> (Inr (Strsxp xs), h)
            | None \<Rightarrow>
                (case find_native st [0..<store_size st] of
                   Inl e \<Rightarrow> (Inl e, h)
                 | Inr native \<Rightarrow>
                     if native \<and> \<not> nu
                     then (case charvec_strings R st h of
                             (Inl e, h1) \<Rightarrow> (Inl e, h1)
                           | (Inr xs, h1) \<Rightarrow> (Inr (Strsxp xs), h1))
                     else
                       (case and_then (for_each (payload_step st) [0..<store_size st] 0)
                                      (charvec_serialized_length (of_nat (store_size st))) of
                          Inl e \<Rightarrow> (Inl e, h)
                        | Inr total_bytes \<Rightarrow>
                            (case alloc_raw_vector (unat total_bytes) h of
                               (Inl e, h1) \<Rightarrow> (Inl e, h1)
                             | (Inr rb, h1) \<Rightarrow>
                                 (case write_state le st h1 (raw_bytes h1 rb) of
                                    Inl e \<Rightarrow> (Inl e, h1)
                                  | Inr raw \<Rightarrow> (Inr (Rawsxp rb), h1\<lparr>blocks := (blocks h1)(rb \<mapsto> raw)\<rparr>))))))
      of (r, h') \<Rightarrow> (charport_sexp_guard ''charvec Serialized_state'' r, h'))"

lemma store_record_parts:
  assumes st: "store_holds st h es" and i: "i < length es"
  shows "rt_length (st_records st) i = Inr (sv_len (rt_at (st_records st) i))"
    and "rt_encoding (st_records st) i = Inr (sv_enc (rt_at (st_records st) i))"
    and "proper (es ! i)"
    and "tag_value (sv_enc (rt_at (st_records st) i)) = elem_tag (es ! i)"
    and "unat (if sint (sv_len (rt_at (st_records st) i)) < 0 then 0 else sv_len (rt_at (st_records st) i)) =
      length (elem_bytes (es ! i))"
    and "elem_bytes (es ! i) \<noteq> [] \<Longrightarrow> 0 < sint (sv_len (rt_at (st_records st) i)) \<and>
      mem_read h (sv_ptr (rt_at (st_records st) i)) (unat (sv_len (rt_at (st_records st) i))) = Some (elem_bytes (es ! i))"
    and "elem_bytes (es ! i) = [] \<Longrightarrow> \<not> 0 < sint (sv_len (rt_at (st_records st) i))"
proof -
  let ?v = "rt_at (st_records st) i"
  note s = store_holds_nth [OF st i]
  show "rt_length (st_records st) i = Inr (sv_len ?v)" "rt_encoding (st_records st) i = Inr (sv_enc ?v)"
    using rt_length_ok rt_encoding_ok s(3,4) by blast+
  have NA: "sint (NA_INTEGER :: c_int) < 0" by (simp add: sint_neg_iff)
  have "proper (es ! i) \<and> tag_value (sv_enc ?v) = elem_tag (es ! i) \<and>
    unat (if sint (sv_len ?v) < 0 then 0 else sv_len ?v) = length (elem_bytes (es ! i)) \<and>
    (if elem_bytes (es ! i) \<noteq> [] then 0 < sint (sv_len ?v) \<and>
      mem_read h (sv_ptr ?v) (unat (sv_len ?v)) = Some (elem_bytes (es ! i)) else \<not> 0 < sint (sv_len ?v))"
  proof (cases "es ! i")
    case NA
    then have "strview_is_na ?v" using s(1) by (simp add: view_content_NA)
    with s(2) have "?v = na_record \<or> sv_len ?v = 0 \<and> sv_ptr ?v = Empty \<and> sv_enc ?v = CETYPE_EXT_NA"
      by (auto simp: rec_in_def strview_is_na_def)
    with NA \<open>sint (NA_INTEGER :: c_int) < 0\<close> show ?thesis by (auto simp: na_record_def)
  next
    case (Str ys c)
    with s(1) have v: "\<not> strview_is_na ?v" "unat (sv_len ?v) \<le> 2147483647" "c = sv_enc ?v"
      "mem_read h (sv_ptr ?v) (unat (sv_len ?v)) = Some ys" by (simp_all add: view_content_Str)
    have l: "length ys = unat (sv_len ?v)" using length_mem_read [OF v(4)] .
    have "sint (sv_len ?v) = int (unat (sv_len ?v))" using v(2) by (simp add: sint_c_int del: of_nat_unat)
    moreover have "0 < unat (sv_len ?v) \<longleftrightarrow> ys \<noteq> []" using l [symmetric] by simp
    ultimately show ?thesis using v l Str by (auto simp: strview_is_na_def simp del: of_nat_unat)
  qed
  then show "proper (es ! i)" "tag_value (sv_enc ?v) = elem_tag (es ! i)"
    "unat (if sint (sv_len ?v) < 0 then 0 else sv_len ?v) = length (elem_bytes (es ! i))"
    "elem_bytes (es ! i) \<noteq> [] \<Longrightarrow> 0 < sint (sv_len ?v) \<and>
      mem_read h (sv_ptr ?v) (unat (sv_len ?v)) = Some (elem_bytes (es ! i))"
    "elem_bytes (es ! i) = [] \<Longrightarrow> \<not> 0 < sint (sv_len ?v)"
    by (simp_all split: if_splits)
qed

text \<open>A raw vector holding the first \<open>off\<close> bytes of \<open>W\<close>, and writing the next piece of \<open>W\<close>.\<close>

definition filled :: "u8 list \<Rightarrow> u8 list \<Rightarrow> nat \<Rightarrow> u8 list" where
  "filled W raw off = take off W @ drop off raw"

lemma length_filled [simp]: "length raw = length W \<Longrightarrow> off \<le> length W \<Longrightarrow> length (filled W raw off) = length W"
  by (simp add: filled_def)

lemma put_bytes_filled:
  assumes "length raw = length W" and "off + length ys \<le> length W" and "take (length ys) (drop off W) = ys"
  shows "put_bytes (filled W raw off) off ys = Inr (filled W raw (off + length ys))"
proof -
  have "take (off + length ys) W = take off W @ ys" using assms(3) by (simp add: take_add)
  then show ?thesis
    using assms(1,2) by (simp add: put_bytes_def filled_def patch_def add.commute)
qed

lemma write_state_ok:
  assumes st: "store_holds st h es" and W: "W = charvec_state True True es"
    and len: "length W \<le> 9223372036854775807" and raw: "length raw = length W"
  shows "write_state le st h raw = Inr W"
proof -
  let ?n = "length es" and ?s = "wire_size True W"
  have n: "store_size st = ?n" using store_holds_size [OF st] by simp
  have pr: "\<forall>e \<in> set es. proper e" using store_record_parts(3) [OF st] by (metis in_set_conv_nth)
  have n64: "?n < 18446744073709551616" using len by (simp add: W length_charvec_state)
  note f = charvec_state_fields [OF pr n64 W refl]
  have total: "length W = 13 + 5 * ?n + before ?s ?n" using f(5) by (simp add: W length_charvec_state)
  have w0: "filled W raw 0 = raw" "filled W raw (length W) = W" by (simp_all add: filled_def raw)
  have p1: "put_bytes (filled W raw 0) 0 [67, 80, 86, 50, 1] = Inr (filled W raw 5)"
  proof -
    define pre :: "u8 list" where "pre = [67, 80, 86, 50, 1]"
    have pre: "length pre = 5" "take 5 (drop 0 W) = pre" by (simp_all add: pre_def W charvec_state_def)
    have "put_bytes (filled W raw 0) 0 pre = Inr (filled W raw 5)"
      using put_bytes_filled [OF raw, of 0 pre] total pre by simp
    then show ?thesis by (simp add: pre_def)
  qed
  have p2: "charvec_write_u64_le le (filled W raw 5) 5 (of_nat ?n) = Inr (filled W raw 13)"
  proof -
    have "take 8 (drop 5 W) = le_bytes 8 (of_nat ?n :: u64)"
      using charvec_state_drops(1) [of True True es] by (simp add: W field_def)
    then show ?thesis
      using put_bytes_filled [OF raw, of 5 "le_bytes 8 (of_nat ?n :: u64)"] total
      by (simp add: write_u64_wire)
  qed
  have loop3: "for_each (write_size_step le st) [0..<?n] (filled W raw 13, 13) =
      Inr (filled W raw (13 + 4 * ?n), 13 + 4 * ?n)"
  proof -
    have "\<exists>s. for_each (write_size_step le st) [0..<?n] (filled W raw 13, 13) = Inr s \<and>
      s = (filled W raw (13 + 4 * ?n), 13 + 4 * ?n)"
    proof (rule for_each_invariant [where P = "\<lambda>k s. s = (filled W raw (13 + 4 * k), 13 + 4 * k)"])
      fix k s assume k: "0 \<le> k" "k < ?n" and s: "s = (filled W raw (13 + 4 * k), 13 + 4 * k)"
      let ?l = "sv_len (rt_at (st_records st) k)"
      note r = store_record_parts [OF st k(2)]
      have "unat (if sint ?l < 0 then 0 else ?l) = ?s k" using r(5) f(2) [OF k(2)] by simp
      then have x: "(if sint ?l < 0 then 0 else ?l) = wire_word True (take 4 (drop (13 + 4 * k) W))"
        unfolding wire_size_def by (simp only: word_unat_eq_iff)
      have ys: "take 4 (drop (13 + 4 * k) W) = le_bytes 4 (if sint ?l < 0 then 0 else ?l)"
        unfolding x using k total field_wire_word [of "take 4 (drop (13 + 4 * k) W)" 4 True, where 'a = 32]
        by (simp add: field_def)
      have "put_bytes (filled W raw (13 + 4 * k)) (13 + 4 * k) (le_bytes 4 (if sint ?l < 0 then 0 else ?l)) =
          Inr (filled W raw (13 + 4 * k + 4))"
        using put_bytes_filled [OF raw, of "13 + 4 * k" "le_bytes 4 (if sint ?l < 0 then 0 else ?l)"] k total ys
        by simp
      then show "\<exists>s'. write_size_step le st k s = Inr s' \<and>
          s' = (filled W raw (13 + 4 * Suc k), 13 + 4 * Suc k)"
        by (simp add: write_size_step_def s r(1) write_u32_wire add.commute)
    qed simp_all
    then show ?thesis by simp
  qed
  have loop4: "for_each (write_enc_step st) [0..<?n] (filled W raw (13 + 4 * ?n), 13 + 4 * ?n) =
      Inr (filled W raw (13 + 5 * ?n), 13 + 5 * ?n)"
  proof -
    have "\<exists>s. for_each (write_enc_step st) [0..<?n] (filled W raw (13 + 4 * ?n), 13 + 4 * ?n) = Inr s \<and>
      s = (filled W raw (13 + 4 * ?n + ?n), 13 + 4 * ?n + ?n)"
    proof (rule for_each_invariant [where P = "\<lambda>k s. s = (filled W raw (13 + 4 * ?n + k), 13 + 4 * ?n + k)"])
      fix k s assume k: "0 \<le> k" "k < ?n" and s: "s = (filled W raw (13 + 4 * ?n + k), 13 + 4 * ?n + k)"
      note r = store_record_parts [OF st k(2)]
      have "W ! (13 + 4 * ?n + k) = tag_value (sv_enc (rt_at (st_records st) k))"
        using f(3) [OF k(2)] r(4) by (simp add: wire_enc_def)
      then have "take 1 (drop (13 + 4 * ?n + k) W) = [tag_value (sv_enc (rt_at (st_records st) k))]"
        using k total by (simp add: Cons_nth_drop_Suc [symmetric])
      then have "put_bytes (filled W raw (13 + 4 * ?n + k)) (13 + 4 * ?n + k)
          [tag_value (sv_enc (rt_at (st_records st) k))] = Inr (filled W raw (13 + 4 * ?n + k + 1))"
        using put_bytes_filled [OF raw, of "13 + 4 * ?n + k" "[tag_value (sv_enc (rt_at (st_records st) k))]"]
          k total by simp
      then show "\<exists>s'. write_enc_step st k s = Inr s' \<and>
          s' = (filled W raw (13 + 4 * ?n + Suc k), 13 + 4 * ?n + Suc k)"
        by (simp add: write_enc_step_def s r(2))
    qed simp_all
    then show ?thesis by (simp add: add.commute add.left_commute)
  qed
  have loop5: "for_each (write_data_step st h) [0..<?n] (filled W raw (13 + 5 * ?n), 13 + 5 * ?n) =
      Inr (W, length W)"
  proof -
    let ?o = "\<lambda>k. 13 + 5 * ?n + before ?s k"
    have "\<exists>s. for_each (write_data_step st h) [0..<?n] (filled W raw (13 + 5 * ?n), 13 + 5 * ?n) = Inr s \<and>
      s = (filled W raw (?o ?n), ?o ?n)"
    proof (rule for_each_invariant [where P = "\<lambda>k s. s = (filled W raw (?o k), ?o k)"])
      fix k s assume k: "0 \<le> k" "k < ?n" and s: "s = (filled W raw (?o k), ?o k)"
      let ?v = "rt_at (st_records st) k" and ?b = "elem_bytes (es ! k)"
      note r = store_record_parts [OF st k(2)]
      have v: "store_view st k = Inr ?v" using store_holds_view [OF st k(2)] .
      have sk: "?s k = length ?b" using f(2) [OF k(2)] .
      have "before ?s (Suc k) \<le> before ?s ?n" using k by (intro before_mono) simp
      then have room: "?o k + length ?b \<le> length W" using total sk by simp
      show "\<exists>s'. write_data_step st h k s = Inr s' \<and> s' = (filled W raw (?o (Suc k)), ?o (Suc k))"
      proof (cases "?b = []")
        case True
        with r(7) sk v show ?thesis by (simp add: write_data_step_def s)
      next
        case False
        have "put_bytes (filled W raw (?o k)) (?o k) ?b = Inr (filled W raw (?o k + length ?b))"
          using put_bytes_filled [OF raw room] f(6) [OF k(2)] sk by simp
        moreover have "unat (sv_len ?v) = length ?b" using r(6) [OF False] length_mem_read by metis
        ultimately show ?thesis using r(6) [OF False] sk v by (simp add: write_data_step_def s add.assoc)
      qed
    qed simp_all
    then show ?thesis using total w0(2) by simp
  qed
  show ?thesis
    using p1 p2 loop3 loop4 loop5 w0(1) n
    by (simp add: write_state_def Let_def charvec_serialized_prefix_bytes_def)
qed

lemma charvec_strings_ok:
  assumes st: "store_holds st h es" and f: "charvec_strings R st h = (r, h')"
  shows "blocks h' = blocks h \<and> next_blk h' = next_blk h \<and> (case r of
      Inl e \<Rightarrow> (\<exists>m. e = R_error m) \<and> (\<exists>k m. \<not> can_alloc h k m) \<or> (\<exists>x \<in> set es. charsxp_of R x = Inl e)
    | Inr xs \<Rightarrow> map (charsxp_of R) es = map Inr xs)"
proof -
  obtain q h1 where a: "allocVector (8 * store_size st) h = (q, h1)" by fastforce
  note b = allocVector_blocks [OF a]
  show ?thesis
  proof (cases q)
    case (Inl e)
    with f a have "r = Inl e" "h' = h1" by (simp_all add: charvec_strings_def)
    with b allocVector_fail [OF a [unfolded Inl]] show ?thesis by simp
  next
    case (Inr u)
    let ?n = "length es" and ?body = "\<lambda>i out. and_then (store_view st i) (\<lambda>v.
        and_then (make_charsxp R h1 v) (\<lambda>x. Inr (out[i := x])))"
    have n: "store_size st = ?n" using store_holds_size [OF st] by simp
    have same: "mem_read h1 p k = mem_read h p k" for p k by (rule mem_read_cong) (simp add: b)
    have mk: "make_charsxp R h1 (rt_at (st_records st) k) = charsxp_of R (es ! k)" if "k < ?n" for k
    proof -
      have "view_content h1 (rt_at (st_records st) k) = Some (es ! k)"
        using store_holds_nth(1) [OF st that] view_content_cong same by metis
      then show ?thesis by (rule make_charsxp_content)
    qed
    have "case for_each ?body [0..<?n] (replicate ?n (R_BlankString R)) of
        Inl e \<Rightarrow> \<exists>x \<in> set es. charsxp_of R x = Inl e
      | Inr out \<Rightarrow> length out = ?n \<and> (\<forall>j < ?n. charsxp_of R (es ! j) = Inr (out ! j))"
    proof (rule for_each_result [where P = "\<lambda>k out. length out = ?n \<and>
          (\<forall>j < k. charsxp_of R (es ! j) = Inr (out ! j))"])
      fix k out
      assume k: "0 \<le> k" "k < ?n" and P: "length out = ?n \<and> (\<forall>j < k. charsxp_of R (es ! j) = Inr (out ! j))"
      show "case ?body k out of Inl e \<Rightarrow> \<exists>x \<in> set es. charsxp_of R x = Inl e
        | Inr out' \<Rightarrow> length out' = ?n \<and> (\<forall>j < Suc k. charsxp_of R (es ! j) = Inr (out' ! j))"
      proof (cases "charsxp_of R (es ! k)")
        case (Inl e)
        with k store_holds_view [OF st k(2)] mk [OF k(2)] show ?thesis by (auto intro!: bexI [of _ "es ! k"])
      next
        case (Inr x)
        with k P store_holds_view [OF st k(2)] mk [OF k(2)] show ?thesis
          by (auto simp: nth_list_update less_Suc_eq)
      qed
    qed simp_all
    moreover have "for_each ?body [0..<?n] (replicate ?n (R_BlankString R)) = r" "h' = h1"
      using f a Inr n by (auto simp: charvec_strings_def)
    ultimately have r: "case r of Inl e \<Rightarrow> \<exists>x \<in> set es. charsxp_of R x = Inl e
      | Inr out \<Rightarrow> length out = ?n \<and> (\<forall>j < ?n. charsxp_of R (es ! j) = Inr (out ! j))" by simp
    show ?thesis
    proof (cases r)
      case (Inl e)
      with r b \<open>h' = h1\<close> show ?thesis by simp
    next
      case (Inr out)
      with r have "map (charsxp_of R) es = map Inr out" by (intro nth_equalityI) simp_all
      with b \<open>h' = h1\<close> Inr show ?thesis by simp
    qed
  qed
qed

definition has_native :: "element list \<Rightarrow> bool" where
  "has_native es \<longleftrightarrow> (\<exists>e \<in> set es. elem_tag e = tag_value CETYPE_EXT_NATIVE)"

lemma find_native_ok:
  assumes st: "store_holds st h es" and "i \<le> length es"
  shows "find_native st [i..<length es] = Inr (has_native (drop i es))"
  using assms(2)
proof (induction "length es - i" arbitrary: i)
  case 0
  then show ?case by (simp add: has_native_def)
next
  case (Suc m)
  then have i: "i < length es" by simp
  let ?c = "sv_enc (rt_at (st_records st) i)"
  note r = store_record_parts [OF st i]
  have c: "?c = CETYPE_EXT_NATIVE \<longleftrightarrow> elem_tag (es ! i) = tag_value CETYPE_EXT_NATIVE"
    using r(4) by (metis cetype_ext_t.expand)
  have "find_native st [Suc i..<length es] = Inr (has_native (drop (Suc i) es))"
    by (rule Suc.hyps(1)) (use Suc.hyps(2) i in auto)
  then show ?case
    using r(2) c by (simp add: upt_conv_Cons [OF i] has_native_def Cons_nth_drop_Suc [OF i, symmetric])
qed

lemma total_size_ok:
  assumes st: "store_holds st h es"
  shows "case for_each (payload_step st) [0..<length es] 0 of
      Inl e \<Rightarrow> (\<exists>m. e = Runtime_error m) \<and> 18446744073709551616 \<le> length (state_payload es)
    | Inr tot \<Rightarrow> unat tot = length (state_payload es)"
proof -
  let ?n = "length es" and ?l = "\<lambda>k. length (elem_bytes (es ! k))"
  have all: "before ?l ?n = length (state_payload es)"
    using length_concat_before [of ?n "map elem_bytes es"]
    by (simp add: state_payload_def cong: before_cong)
  have "case for_each (payload_step st) [0..<?n] 0 of
      Inl e \<Rightarrow> (\<exists>m. e = Runtime_error m) \<and> 18446744073709551616 \<le> before ?l ?n
    | Inr tot \<Rightarrow> unat tot = before ?l ?n"
  proof (rule for_each_result [where P = "\<lambda>k tot. unat tot = before ?l k"])
    fix k and tot :: size_t
    assume k: "0 \<le> k" "k < ?n" and P: "unat tot = before ?l k"
    let ?v = "sv_len (rt_at (st_records st) k)"
    note r = store_record_parts [OF st k(2)]
    have "unat (if sint ?v < 0 then 0 else scast ?v :: size_t) = ?l k"
      using r(5) by (auto simp: sint_neg_iff not_less unat_scast_nonneg split: if_splits)
    moreover have "before ?l (Suc k) \<le> before ?l ?n" using k by (intro before_mono) simp
    ultimately show "case payload_step st k tot of
        Inl e \<Rightarrow> (\<exists>m. e = Runtime_error m) \<and> 18446744073709551616 \<le> before ?l ?n
      | Inr tot1 \<Rightarrow> unat tot1 = before ?l (Suc k)"
      using P r(1) by (auto simp: payload_step_def checked_add_size_cases unat_add_u64)
  qed simp_all
  then show ?thesis unfolding all .
qed

lemma serialized_length_ok:
  fixes n payload :: size_t
  assumes n: "unat n \<le> 4503599627370496"
  shows "case charvec_serialized_length n payload of
      Inl e \<Rightarrow> (\<exists>m. e = Runtime_error m) \<and> 9223372036854775807 < 13 + 5 * unat n + unat payload
    | Inr tot \<Rightarrow> unat tot = 13 + 5 * unat n + unat payload \<and> unat tot \<le> 9223372036854775807"
  using n
  by (auto simp: charvec_serialized_length_def charvec_serialized_prefix_bytes_def checked_mul_size_cases
      checked_add_size_cases unat_mult_u64 unat_add_u64 word_less_nat_alt)

lemma store_size_bound: "store_holds st h es \<Longrightarrow> length es \<le> 4503599627370496"
  using store_holds_size [of st h es] rt_ok_bound [of "st_records st"] by (simp add: store_holds_def store_size_def)

lemma alloc_raw_vector_ok:
  assumes "alloc_raw_vector n h = (r, h')" and ok: "heap_ok h"
  shows "case r of
      Inl e \<Rightarrow> (\<exists>m. e = R_error m) \<and> blocks h' = blocks h \<and> (\<exists>k m. \<not> can_alloc h k m)
    | Inr b \<Rightarrow> blocks h b = None \<and> heap_ok h' \<and> keeps_live h h' \<and>
        (\<exists>bs. length bs = n \<and> blocks h' = (blocks h)(b \<mapsto> bs))"
proof -
  obtain q h1 where a: "alloc_block n n h = (q, h1)" by fastforce
  show ?thesis
  proof (cases q)
    case (Inl e)
    with assms a have "r = Inl (R_error ''cannot allocate vector'')" "h' = h1"
      by (simp_all add: alloc_raw_vector_def)
    moreover have "\<exists>k m. \<not> can_alloc h k m" using alloc_block_oom [OF a [unfolded Inl]] by blast
    ultimately show ?thesis using alloc_block_fail [OF a [unfolded Inl]] by simp
  next
    case (Inr b)
    with assms a have r: "r = Inr b" "h' = h1" by (simp_all add: alloc_raw_vector_def)
    note k = alloc_block_ok [OF a [unfolded Inr]]
    have "blocks h b = None" using k ok by (simp add: heap_ok_def)
    then show ?thesis
      using r k alloc_block_keeps [OF ok a] alloc_block_heap_ok [OF ok a]
      by (auto intro!: exI [of _ "map (junk h (next_blk h)) [0..<n]"])
  qed
qed

lemma charvec_Serialized_state_spec:
  assumes st: "store_holds st h es"
    and f: "charvec_Serialized_state le nu R None st h = (r, h')"
    and mk: "\<And>bs c. mkCharLenCE R bs c \<noteq> Inl Undefined"
  shows "case r of
      Inl e \<Rightarrow> (\<exists>m. e = R_error m) \<and> blocks h' = blocks h \<and>
        ((\<exists>k m. \<not> can_alloc h k m) \<or> 9223372036854775807 < length (charvec_state True True es) \<or>
         has_native es \<and> \<not> nu \<and> (\<exists>x \<in> set es. isl (charsxp_of R x)))
    | Inr (Strsxp xs) \<Rightarrow> has_native es \<and> \<not> nu \<and> map (charsxp_of R) es = map Inr xs \<and> blocks h' = blocks h
    | Inr (Rawsxp rb) \<Rightarrow> (has_native es \<longrightarrow> nu) \<and> blocks h rb = None \<and> heap_ok h' \<and>
        blocks h' = (blocks h)(rb \<mapsto> charvec_state True True es)
    | Inr Other_sexp \<Rightarrow> False"
proof -
  let ?n = "length es"
  have n: "store_size st = ?n" "?n \<le> 4503599627370496" using store_holds_size [OF st] store_size_bound [OF st] by simp_all
  then have un: "unat (of_nat ?n :: size_t) = ?n" by (simp add: unat_of_nat_u64)
  have ok: "heap_ok h" using st by (simp add: store_holds_def)
  have fn: "find_native st [0..<store_size st] = Inr (has_native es)" using find_native_ok [OF st, of 0] n by simp
  have mk': "charsxp_of R x \<noteq> Inl Undefined" for x by (cases x) (simp_all add: mk)
  show ?thesis
  proof (cases "has_native es \<and> \<not> nu")
    case True
    obtain q h1 where q: "charvec_strings R st h = (q, h1)" by fastforce
    note s = charvec_strings_ok [OF st q]
    show ?thesis
    proof (cases q)
      case (Inr xs)
      with f fn True q have "r = Inr (Strsxp xs)" "h' = h1" by (auto simp: charvec_Serialized_state_def)
      with s Inr True show ?thesis by simp
    next
      case (Inl e)
      with f fn True q have r: "charport_sexp_guard ''charvec Serialized_state'' (Inl e :: fault + 'a r_state) = r" "h' = h1"
        by (simp_all add: charvec_Serialized_state_def)
      have e: "e \<noteq> Undefined" "(\<exists>k m. \<not> can_alloc h k m) \<or> (\<exists>x \<in> set es. isl (charsxp_of R x))"
        using s Inl mk' by (auto simp: isl_def)
      have "\<exists>m. r = Inl (R_error m)"
        unfolding r(1) [symmetric] using e(1) by (cases e) simp_all
      then show ?thesis using r(2) s e(2) True by auto
    qed
  next
    case False
    note t = total_size_ok [OF st]
    have len: "length (charvec_state True True es) = 13 + 5 * ?n + length (state_payload es)"
      by (rule length_charvec_state)
    let ?m = "and_then (for_each (payload_step st) [0..<store_size st] 0) (charvec_serialized_length (of_nat (store_size st)))"
    have m: "case ?m of
        Inl e \<Rightarrow> (\<exists>m. e = Runtime_error m) \<and> 9223372036854775807 < length (charvec_state True True es)
      | Inr tot \<Rightarrow> unat tot = length (charvec_state True True es) \<and> unat tot \<le> 9223372036854775807"
    proof (cases "for_each (payload_step st) [0..<?n] 0")
      case (Inl e)
      with t n len show ?thesis by simp
    next
      case (Inr p)
      with t serialized_length_ok [of "of_nat ?n" p] n un len show ?thesis by (auto split: sum.splits)
    qed
    have native: "has_native es \<longrightarrow> nu" using False by blast
    have eq: "(r, h') =
      (case (case ?m of
               Inl e \<Rightarrow> (Inl e, h)
             | Inr total_bytes \<Rightarrow>
                 (case alloc_raw_vector (unat total_bytes) h of
                    (Inl e, h1) \<Rightarrow> (Inl e, h1)
                  | (Inr rb, h1) \<Rightarrow>
                      (case write_state le st h1 (raw_bytes h1 rb) of
                         Inl e \<Rightarrow> (Inl e, h1)
                       | Inr raw \<Rightarrow> (Inr (Rawsxp rb), h1\<lparr>blocks := (blocks h1)(rb \<mapsto> raw)\<rparr>))))
       of (r, h') \<Rightarrow> (charport_sexp_guard ''charvec Serialized_state'' r, h'))"
      unfolding f [symmetric] charvec_Serialized_state_def fn option.case sum.case
      by (subst if_not_P [OF False]) (rule refl)
    show ?thesis
    proof (cases ?m)
      case (Inl e)
      with m obtain x where "e = Runtime_error x" by auto
      with eq Inl have "r = Inl (R_error (''charport '' @ ''charvec Serialized_state'' @ '': '' @ take 511 x))" "h' = h"
        by simp_all
      with m Inl show ?thesis by simp
    next
      case (Inr tot)
      with m have tot: "unat tot = length (charvec_state True True es)" "unat tot \<le> 9223372036854775807" by simp_all
      obtain q h1 where q: "alloc_raw_vector (unat tot) h = (q, h1)" by fastforce
      note a = alloc_raw_vector_ok [OF q ok]
      show ?thesis
      proof (cases q)
        case (Inl e)
        with a obtain x where "e = R_error x" by auto
        with eq \<open>?m = Inr tot\<close> q Inl have "r = Inl (R_error x)" "h' = h1" by simp_all
        with a Inl show ?thesis by simp
      next
        case (Inr rb)
        with a obtain bs where rb: "blocks h rb = None" "heap_ok h1" "keeps_live h h1" "length bs = unat tot"
          "blocks h1 = (blocks h)(rb \<mapsto> bs)" by auto
        have "store_holds st h1 es"
          by (rule store_holds_frame [OF st rb(2)]) (use st rb(1,5) in \<open>auto simp: store_holds_def\<close>)
        then have w: "write_state le st h1 (raw_bytes h1 rb) = Inr (charvec_state True True es)"
          by (rule write_state_ok [OF _ refl]) (use tot rb in \<open>simp_all add: raw_bytes_def\<close>)
        have "r = Inr (Rawsxp rb)" "h' = h1\<lparr>blocks := (blocks h1)(rb \<mapsto> charvec_state True True es)\<rparr>"
          using eq \<open>?m = Inr tot\<close> q Inr w by simp_all
        moreover have "heap_ok (h1\<lparr>blocks := (blocks h1)(rb \<mapsto> charvec_state True True es)\<rparr>)"
          using rb(2,5) by (auto simp: heap_ok_def split: if_splits)
        ultimately show ?thesis using rb native by simp
      qed
    qed
  qed
qed

lemma charvec_strings_can_alloc: "charvec_strings R st h = (r, h') \<Longrightarrow> can_alloc h' = can_alloc h"
  by (auto simp: charvec_strings_def dest: allocVector_can_alloc split: prod.splits sum.splits)

lemma alloc_raw_vector_can_alloc: "alloc_raw_vector n h = (r, h') \<Longrightarrow> can_alloc h' = can_alloc h"
  by (auto simp: alloc_raw_vector_def dest: alloc_block_can_alloc split: prod.splits sum.splits)

lemma charvec_Serialized_state_can_alloc:
  "charvec_Serialized_state le nu R data2 st h = (r, h') \<Longrightarrow> can_alloc h' = can_alloc h"
  by (auto simp: charvec_Serialized_state_def dest: charvec_strings_can_alloc alloc_raw_vector_can_alloc
      split: option.splits sum.splits prod.splits if_splits)

section \<open>Properties\<close>

text \<open>A store with a string, for the witnesses.\<close>

lemma demo_string_store:
  obtains st h where "store_holds st h [Str [104, 105] CETYPE_EXT_UTF8, NA]" and "\<And>n m. can_alloc h n m"
proof -
  have runs: "fst (builder_set_view demo_builder 0 demo_view demo_heap) = Inr ()" by code_simp
  obtain b h where f: "builder_set_view demo_builder 0 demo_view demo_heap = (Inr (), b, h)"
    using runs by (metis prod.collapse)
  have b: "builder_holds b h [Str [104, 105] CETYPE_EXT_UTF8, NA]"
    using builder_set_view_sets [OF demo_builder_holds demo_view_content demo_view_foreign, of 0] f
    by (simp add: builder_sets_def)
  have "can_alloc h = can_alloc demo_heap"
    using f by (auto simp: builder_set_view_def builder_set_can_alloc builder_set_na_can_alloc split: if_splits)
  then have "can_alloc h n m" for n m by (simp add: demo_heap_def)
  moreover obtain st b' where "builder_release_store b = (st, b')" by fastforce
  ultimately show ?thesis using builder_release_ok [OF b] that by blast
qed

definition demo_strings :: "(u8 list \<times> cetype_t) r_strings" where
  "demo_strings = \<lparr>mkCharLenCE = (\<lambda>bs c. Inr (bs, c)), CHAR_charsxp = (\<lambda>x. Null), LENGTH_charsxp = (\<lambda>x. 0),
     getCharCE = snd, NA_STRING = ([], CE_BYTES), R_BlankString = ([], CE_NATIVE)\<rparr>"

text \<open>C13. What \<open>Serialized_state\<close> writes: bytes in the documented format, version 2 and
  little-endian on every host, exactly when no record is native text or R's native encoding is
  UTF-8; otherwise a character vector with the same strings. It only fails with an R error, for
  lack of memory, a state too long for R, or a string R cannot make, and then changes no memory.\<close>

theorem charvec_serialized_form:
  assumes "store_holds st h es" and "\<And>bs c. mkCharLenCE R bs c \<noteq> Inl Undefined"
  shows "case charvec_Serialized_state le nu R None st h of
      (Inl e, h') \<Rightarrow> (\<exists>m. e = R_error m) \<and> blocks h' = blocks h \<and>
        ((\<exists>k m. \<not> can_alloc h k m) \<or> 9223372036854775807 < length (charvec_state True True es) \<or>
         has_native es \<and> \<not> nu \<and> (\<exists>x \<in> set es. isl (charsxp_of R x)))
    | (Inr (Strsxp xs), h') \<Rightarrow>
        has_native es \<and> \<not> nu \<and> map (charsxp_of R) es = map Inr xs \<and> blocks h' = blocks h
    | (Inr (Rawsxp rb), h') \<Rightarrow> \<not> (has_native es \<and> \<not> nu) \<and> blocks h rb = None \<and>
        blocks h' = (blocks h)(rb \<mapsto> charvec_state True True es)
    | (Inr Other_sexp, h') \<Rightarrow> False"
proof -
  obtain r h' where f: "charvec_Serialized_state le nu R None st h = (r, h')" by fastforce
  from charvec_Serialized_state_spec [OF assms(1) f assms(2)] show ?thesis
    unfolding f by (simp split: sum.splits r_state.splits)
qed

theorem charvec_serialized_form_witness:
  "\<exists>st h rb h'. charvec_Serialized_state False False demo_strings None st h = (Inr (Rawsxp rb), h') \<and>
     blocks h' rb = Some (charvec_state True True [Str [104, 105] CETYPE_EXT_UTF8, NA])"
proof -
  let ?es = "[Str [104, 105] CETYPE_EXT_UTF8, NA]"
  obtain st h where st: "store_holds st h ?es" "\<And>n m. can_alloc h n m" by (rule demo_string_store) blast
  have mk: "mkCharLenCE demo_strings bs c \<noteq> Inl Undefined" for bs c by (simp add: demo_strings_def)
  obtain r h1 where s: "charvec_Serialized_state False False demo_strings None st h = (r, h1)" by fastforce
  have "length (charvec_state True True ?es) \<le> 9223372036854775807" "\<not> has_native ?es"
    by (simp_all add: length_charvec_state state_payload_def has_native_def cetype_defs)
  with charvec_serialized_form [OF st(1) mk, where le = False and nu = False] st(2) s
  obtain rb where "r = Inr (Rawsxp rb)" "blocks h1 rb = Some (charvec_state True True ?es)"
    by (auto split: sum.splits r_state.splits)
  with s show ?thesis by blast
qed

end
