(* ===== verification/Cp_Rebuild.thy ===== *)
theory Cp_Rebuild
  imports Cp_Roundtrip
begin

text \<open>
  Copying and compacting a store: \<open>rebuild_store\<close>, \<open>deep_copy_store\<close>, \<open>duplicate_store\<close> and
  \<open>compact_store\<close> of \<open>src/charvec_altrep.h\<close>. The records are copied in runs whose bytes fit one
  slice of at most \<open>UINT32_MAX\<close> bytes.
\<close>

section \<open>The code\<close>

definition record_bytes :: "charport_strview \<Rightarrow> size_t" where
  "record_bytes record = (if strview_is_na record then 0 else scast (sv_len record))"

text \<open>The inner \<open>while\<close>: the end \<open>j\<close> of the run and its bytes.\<close>

function scan_block :: "record_table \<Rightarrow> nat \<Rightarrow> size_t \<Rightarrow> fault + nat \<times> size_t" where
  "scan_block source j block_bytes =
     (if j < vector_length source
      then and_then (rt_view source j) (\<lambda>record.
             if record_bytes record > ucast UINT32_MAX - block_bytes then Inr (j, block_bytes)
             else scan_block source (Suc j) (block_bytes + record_bytes record))
      else Inr (j, block_bytes))"
  by pat_completeness auto
termination by (relation "measure (\<lambda>(source, j, b). vector_length source - j)") auto

declare scan_block.simps [simp del]

text \<open>The copying \<open>for\<close> of a run that has bytes.\<close>

fun fill_block ::
    "record_table \<Rightarrow> nat list \<Rightarrow> ptr \<Rightarrow> record_table \<Rightarrow> heap \<Rightarrow> (fault + record_table) \<times> heap" where
  "fill_block source [] write_ptr out h = (Inr out, h)"
| "fill_block source (k # ks) write_ptr out h =
     (case rt_view source k of
        Inl e \<Rightarrow> (Inl e, h)
      | Inr record \<Rightarrow>
          if strview_is_na record then fill_block source ks write_ptr out h
          else if sv_len record = 0
          then (case rt_set out k empty_data 0 (sv_enc record) of
                  Inl e \<Rightarrow> (Inl e, h)
                | Inr out' \<Rightarrow> fill_block source ks write_ptr out' h)
          else
            (case memcpy h write_ptr (sv_ptr record) (unat (scast (sv_len record) :: size_t)) of
               (Inl e, h1) \<Rightarrow> (Inl e, h1)
             | (Inr u, h1) \<Rightarrow>
                 (case rt_set out k write_ptr (sv_len record) (sv_enc record) of
                    Inl e \<Rightarrow> (Inl e, h1)
                  | Inr out' \<Rightarrow>
                      fill_block source ks (ptr_add write_ptr (unat (scast (sv_len record) :: size_t))) out' h1)))"

text \<open>The \<open>for\<close> of a run without bytes.\<close>

fun fill_empty :: "record_table \<Rightarrow> nat list \<Rightarrow> record_table \<Rightarrow> fault + record_table" where
  "fill_empty source [] out = Inr out"
| "fill_empty source (k # ks) out =
     and_then (rt_view source k) (\<lambda>record.
       if \<not> strview_is_na record \<and> sv_len record = 0
       then and_then (rt_set out k empty_data 0 (sv_enc record)) (fill_empty source ks)
       else fill_empty source ks out)"

function rebuild_loop :: "record_table \<Rightarrow> nat \<Rightarrow> store \<Rightarrow> heap \<Rightarrow> (fault + store) \<times> heap" where
  "rebuild_loop source i out h =
     (if i < vector_length source
      then
        (case scan_block source i 0 of
           Inl e \<Rightarrow> (Inl e, store_free out h)
         | Inr (j, block_bytes) \<Rightarrow>
             (case (if 0 < block_bytes
                    then (case slice_push_front block_bytes (st_slices out) h of
                            (Inl e, ss, h1) \<Rightarrow> (Inl e, out\<lparr>st_slices := ss\<rparr>, h1)
                          | (Inr write_ptr, ss, h1) \<Rightarrow>
                              (case fill_block source [i..<j] write_ptr (st_records out) h1 of
                                 (Inl e, h2) \<Rightarrow> (Inl e, out\<lparr>st_slices := ss\<rparr>, h2)
                               | (Inr t, h2) \<Rightarrow> (Inr (), \<lparr>st_slices = ss, st_records = t\<rparr>, h2)))
                    else (case fill_empty source [i..<j] (st_records out) of
                            Inl e \<Rightarrow> (Inl e, out, h)
                          | Inr t \<Rightarrow> (Inr (), out\<lparr>st_records := t\<rparr>, h))) of
                (Inl e, out', h') \<Rightarrow> (Inl e, store_free out' h')
              | (Inr u, out', h') \<Rightarrow> rebuild_loop source (if i < j then j else i + 1) out' h'))
      else (Inr out, h))"
  by pat_completeness auto
termination by (relation "measure (\<lambda>(source, i, out, h). vector_length source - i)") auto

declare rebuild_loop.simps [simp del]

definition rebuild_store :: "record_table \<Rightarrow> heap \<Rightarrow> (fault + store) \<times> heap" where
  "rebuild_store source h =
     (case store_new (vector_length source) 0 h of
        (Inl e, h1) \<Rightarrow> (Inl e, h1)
      | (Inr out, h1) \<Rightarrow> rebuild_loop source 0 out h1)"

definition deep_copy_store :: "store \<Rightarrow> heap \<Rightarrow> (fault + store) \<times> heap" where
  "deep_copy_store source h = rebuild_store (st_records source) h"

definition duplicate_store :: "store \<Rightarrow> heap \<Rightarrow> (fault + store) \<times> heap" where
  "duplicate_store source h =
     (case deep_copy_store source h of
        (Inl e, h1) \<Rightarrow> (Inl e, h1)
      | (Inr st, h1) \<Rightarrow> heap_store st h1)"

text \<open>The move assignment frees the slices of the old store.\<close>

definition compact_store :: "store \<Rightarrow> heap \<Rightarrow> (fault + unit) \<times> store \<times> heap" where
  "compact_store st h =
     (case rebuild_store (st_records st) h of
        (Inl e, h1) \<Rightarrow> (Inl e, st, h1)
      | (Inr st', h1) \<Rightarrow> (Inr (), st', store_free st h1))"

section \<open>A run as sets into a shard\<close>

text \<open>Room in the current slice: \<open>allocate_bytes\<close> hands out the bytes at the cursor.\<close>

lemma allocate_in_slice:
  assumes "sh_slices s = b # bs" and "l \<noteq> 0"
    and "unat (current_slice_used s) + unat l \<le> unat (current_slice_capacity s)"
  shows "allocate_bytes s h l hint =
    (Inr (At b (unat (current_slice_used s))),
     s\<lparr>current_slice_used := current_slice_used s + l, allocated_bytes := allocated_bytes s + ucast l\<rparr>, h)"
proof -
  have "current_slice_used s \<le> current_slice_capacity s" using assms(3) by (simp add: word_le_nat_alt)
  then have "\<not> current_slice_capacity s - current_slice_used s < l"
    using assms(3) by (simp add: word_less_nat_alt unat_sub)
  then show ?thesis using assms(1,2) by (simp add: allocate_bytes_def shard_take_def)
qed

text \<open>A shard whose current slice has \<open>left\<close> bytes of room at \<open>p\<close>.\<close>

definition shard_room :: "shard \<Rightarrow> ptr \<Rightarrow> nat \<Rightarrow> bool" where
  "shard_room s p left \<longleftrightarrow>
     (\<exists>b bs. sh_slices s = b # bs \<and> p = At b (unat (current_slice_used s)) \<and>
        unat (current_slice_used s) + left \<le> unat (current_slice_capacity s))"

abbreviation shard_builder :: "shard \<Rightarrow> record_table \<Rightarrow> builder" where
  "shard_builder s t \<equiv> \<lparr>bd_store = \<lparr>st_slices = [], st_records = t\<rparr>, bd_shard = s\<rparr>"

lemma copy_record_in_slice:
  assumes holds: "builder_holds (shard_builder s t) h es" and i: "k < length es"
    and room: "shard_room s p left" and l: "unat l \<le> left" "unat l \<le> 2147483647" "l \<noteq> 0" and c: "c \<noteq> CETYPE_EXT_NA"
  obtains t' s' where "rt_set t k p (ucast l) c = Inr t'" and "sh_slices s' = sh_slices s"
    and "shard_room s' (ptr_add p (unat l)) (left - unat l)"
    and "builder_copy_record (shard_builder s t) (of_nat k) src l c h =
      (case memcpy h p src (unat l) of (r, h') \<Rightarrow> (r, shard_builder s' t', h'))"
proof -
  have ok: "rt_ok t" using builder_holdsD(2) [OF holds] by simp
  have n: "length es = vector_length t" using builder_holds_length [OF holds] by simp
  have k: "unat (of_nat k :: size_t) = k" using i n rt_ok_bound [OF ok] by (simp add: unat_of_nat_u64)
  obtain b bs where b: "sh_slices s = b # bs" "p = At b (unat (current_slice_used s))"
    "unat (current_slice_used s) + left \<le> unat (current_slice_capacity s)"
    using room by (auto simp: shard_room_def)
  let ?l = "ucast l :: u32"
  have ul: "unat ?l = unat l" using l by (simp add: unat_ucast_u32)
  have l0: "?l \<noteq> 0" using ucast_len_0_iff l by simp
  obtain t' where t': "rt_set t k p ?l c = Inr t'" using rt_set_succ [OF ok] i n by metis
  let ?s = "s\<lparr>current_slice_used := current_slice_used s + ?l, allocated_bytes := allocated_bytes s + ucast ?l\<rparr>"
  have al: "allocate_bytes s h ?l hint = (Inr p, ?s, h)" for hint
    using allocate_in_slice [OF b(1) l0] b(2,3) ul l(1) by simp
  have "unat (current_slice_used s + ?l) = unat (current_slice_used s) + unat l"
    using unat_add_u32 [of "current_slice_used s" ?l] ul b(3) l(1) unat_u32_bound [of "current_slice_capacity s"]
    by simp
  then have room': "shard_room ?s (ptr_add p (unat l)) (left - unat l)"
    using b l(1) by (auto simp: shard_room_def)
  have range: "\<not> (of_nat (vector_length t) :: size_t) \<le> of_nat k"
    using of_nat_le_size_iff [OF ok, of "of_nat k"] k i n by simp
  have "fill_record s t h (of_nat k) l c = (Inr p, ?s, t', h)"
    using range c l0 t' al k l(2) by (simp add: fill_record_def checked_string_size_cases)
  moreover have "p \<noteq> Null" "0 < l" using b(2) l(3) by (simp_all add: word_gt_0)
  ultimately have "builder_copy_record (shard_builder s t) (of_nat k) src l c h =
      (case memcpy h p src (unat l) of (r, h') \<Rightarrow> (r, shard_builder ?s t', h'))"
    by (auto simp: builder_copy_record_def copy_record_def split: prod.splits)
  then show ?thesis by (intro that [OF t' _ room']) simp_all
qed

lemma ucast_scast_len:
  assumes "unat (l :: c_int) \<le> 2147483647"
  shows "(ucast (scast l :: size_t) :: c_int) = l"
proof -
  have u: "unat (scast l :: size_t) = unat l" using assms by (rule unat_scast_nonneg)
  then have "unat (ucast (scast l :: size_t) :: c_int) = unat l"
    using assms by (simp add: unat_ucast_len)
  then show ?thesis by (simp add: word_unat_eq_iff)
qed

lemma memcpy_fault: "memcpy h p q n = (Inl e, h') \<Longrightarrow> e = Undefined"
  by (auto simp: memcpy_def memmove_def split: if_splits option.splits)

lemma copy_record_empty:
  assumes holds: "builder_holds (shard_builder s t) h es" and i: "k < length es" and c: "c \<noteq> CETYPE_EXT_NA"
  obtains t' where "rt_set t k empty_data 0 c = Inr t'"
    and "builder_copy_record (shard_builder s t) (of_nat k) src 0 c h = (Inr (), shard_builder s t', h)"
proof -
  have ok: "rt_ok t" using builder_holdsD(2) [OF holds] by simp
  have n: "length es = vector_length t" using builder_holds_length [OF holds] by simp
  have k: "unat (of_nat k :: size_t) = k" using i n rt_ok_bound [OF ok] by (simp add: unat_of_nat_u64)
  obtain t' where t': "rt_set t k empty_data 0 c = Inr t'" using rt_set_succ [OF ok] i n by metis
  have range: "\<not> (of_nat (vector_length t) :: size_t) \<le> of_nat k"
    using of_nat_le_size_iff [OF ok, of "of_nat k"] k i n by simp
  have "fill_record s t h (of_nat k) 0 c = (Inr empty_data, s, t', h)"
    using range c t' k by (simp add: fill_record_def checked_string_size_cases)
  then have "builder_copy_record (shard_builder s t) (of_nat k) src 0 c h = (Inr (), shard_builder s t', h)"
    by (simp add: builder_copy_record_def copy_record_def)
  with t' that show ?thesis by blast
qed

text \<open>The records to copy: a table whose views stand for the elements, outside the blocks \<open>B\<close>.\<close>

definition source_views :: "record_table \<Rightarrow> heap \<Rightarrow> blk set \<Rightarrow> element list \<Rightarrow> bool" where
  "source_views t h B es \<longleftrightarrow>
     rt_ok t \<and> vector_length t = length es \<and>
(\<forall>k < length es. view_content h (rt_at t k) = Some (es ! k) \<and>
        (strview_is_na (rt_at t k) \<or> foreign B (rt_at t k)))"

lemma source_views_frame:
  assumes sv: "source_views t h B es" and t: "takes_only B B' h h'"
  shows "source_views t h' B' es"
proof -
  have "view_content h' (rt_at t k) = Some (es ! k) \<and> (strview_is_na (rt_at t k) \<or> foreign B' (rt_at t k))"
    if k: "k < length es" for k
  proof -
    let ?v = "rt_at t k"
    have v: "view_content h ?v = Some (es ! k)" "strview_is_na ?v \<or> foreign B ?v"
      using sv k by (simp_all add: source_views_def)
    show ?thesis
    proof (cases "strview_is_na ?v")
      case True
      with v show ?thesis by (simp add: view_content_def)
    next
      case False
      then obtain bs where rd: "mem_read h (sv_ptr ?v) (unat (sv_len ?v)) = Some bs"
        using v(1) by (cases "es ! k") (auto simp: view_content_NA view_content_Str)
      have blk: "blocks h' x = blocks h x \<and> x \<notin> B'" if "ptr_blk (sv_ptr ?v) = Some x" for x
      proof -
        have "x \<notin> B" using v(2) False that by (simp add: foreign_def)
        moreover have "blocks h x \<noteq> None" using rd that by (cases "sv_ptr ?v") (auto split: option.splits)
        ultimately show ?thesis using takes_only_outside [OF t] by blast
      qed
      have "mem_read h' (sv_ptr ?v) m = mem_read h (sv_ptr ?v) m" for m
        using blk by (intro mem_read_cong) blast
      then have "view_content h' ?v = view_content h ?v" by (intro view_content_cong)
      with v(1) blk show ?thesis by (simp add: foreign_def)
    qed
  qed
  with sv show ?thesis by (simp add: source_views_def)
qed

lemma source_views_step:
  assumes sv: "source_views t h (shard_owned s) es" and k: "k < length es"
    and na: "\<not> strview_is_na (rt_at t k)"
  obtains ys where "es ! k = Str ys (sv_enc (rt_at t k))" "unat (sv_len (rt_at t k)) \<le> 2147483647"
    "source_ok [s] h (sv_ptr (rt_at t k)) (scast (sv_len (rt_at t k))) ys"
    "sv_ptr (rt_at t k) \<noteq> Null" "sv_enc (rt_at t k) \<noteq> CETYPE_EXT_NA"
proof -
  let ?v = "rt_at t k"
  have v: "view_content h ?v = Some (es ! k)" and f: "foreign (shards_owned [s]) ?v"
    using sv k na by (auto simp: source_views_def)
  from view_source [OF v f na] obtain ys where "es ! k = Str ys (sv_enc ?v)"
    "source_ok [s] h (sv_ptr ?v) (scast (sv_len ?v)) ys" "sv_ptr ?v \<noteq> Null" "sv_enc ?v \<noteq> CETYPE_EXT_NA" by metis
  moreover from this(1) v have "unat (sv_len ?v) \<le> 2147483647" by (simp add: view_content_Str)
  ultimately show ?thesis using that by blast
qed

lemma fill_block_can_alloc: "fill_block src ks p out h = (r, h') \<Longrightarrow> can_alloc h' = can_alloc h"
proof (induction ks arbitrary: p out h)
  case Nil
  then show ?case by simp
next
  case (Cons k ks)
  from Cons.prems show ?case
    by (auto dest!: Cons.IH memcpy_can_alloc split: sum.splits if_splits prod.splits)
qed

lemma memcpy_shape: "memcpy h p q n = (r, h') \<Longrightarrow> same_shape h h'"
  by (auto simp: memcpy_def memmove_def dest: mem_write_shape split: if_splits option.splits)

lemma fill_block_shape: "fill_block src ks p out h = (r, h') \<Longrightarrow> same_shape h h'"
proof (induction ks arbitrary: p out h)
  case Nil
  then show ?case by simp
next
  case (Cons k ks)
  from Cons.prems show ?case
    by (auto dest!: Cons.IH memcpy_shape intro: same_shape_trans split: sum.splits if_splits prod.splits)
qed

text \<open>The elements copied so far, the rest NA.\<close>

definition copied :: "element list \<Rightarrow> nat \<Rightarrow> element list" where
  "copied es k = take k es @ replicate (length es - k) NA"

lemma length_copied [simp]: "k \<le> length es \<Longrightarrow> length (copied es k) = length es"
  by (simp add: copied_def)

lemma copied_step:
  assumes "k < length es"
  shows "(copied es k)[k := es ! k] = copied es (Suc k)"
  using assms
  by (auto simp: copied_def list_update_append take_Suc_conv_app_nth Suc_diff_Suc [symmetric])

lemma copied_na: "k < length es \<Longrightarrow> es ! k = NA \<Longrightarrow> copied es (Suc k) = copied es k"
  using copied_step [of k es] by (simp add: copied_def list_update_append Suc_diff_Suc [symmetric])

lemma copied_all [simp]: "copied es (length es) = es"
  by (simp add: copied_def)

text \<open>The payload bytes of a range of records.\<close>

definition range_bytes :: "record_table \<Rightarrow> nat \<Rightarrow> nat \<Rightarrow> nat" where
  "range_bytes t i j = sum_list (map (\<lambda>k. unat (record_bytes (rt_at t k))) [i..<j])"

lemma range_bytes_Cons: "i < j \<Longrightarrow> range_bytes t i j = unat (record_bytes (rt_at t i)) + range_bytes t (Suc i) j"
  by (simp add: range_bytes_def upt_conv_Cons)

lemma range_bytes_refl [simp]: "range_bytes t i i = 0"
  by (simp add: range_bytes_def)

lemma range_bytes_Suc: "i \<le> j \<Longrightarrow> range_bytes t i (Suc j) = range_bytes t i j + unat (record_bytes (rt_at t j))"
  by (simp add: range_bytes_def)

lemma fill_block_ok:
  assumes "builder_holds (shard_builder s out) h (copied es i)"
    and "source_views src h (shard_owned s) es" and "i \<le> j" and "j \<le> length es"
    and "shard_room s p left" and "range_bytes src i j \<le> left"
  shows "\<exists>s' out' h'. fill_block src [i..<j] p out h = (Inr out', h') \<and>
    builder_holds (shard_builder s' out') h' (copied es j) \<and>
    sh_slices s' = sh_slices s \<and> takes_only (shard_owned s) (shard_owned s) h h'"
  using assms
proof (induction "j - i" arbitrary: i s out h p left)
  case 0
  then show ?case by auto
next
  case (Suc m)
  then have i: "i < j" "i < length es" by simp_all
  let ?v = "rt_at src i"
  note hold = Suc.prems(1) and sv = Suc.prems(2)
  have rv: "rt_view src i = Inr ?v" using sv i(2) rt_view_ok by (simp add: source_views_def)
  have i': "i < length (copied es i)" using i by simp
  have bytes: "range_bytes src i j = unat (record_bytes ?v) + range_bytes src (Suc i) j"
    by (rule range_bytes_Cons [OF i(1)])
  have m: "m = j - Suc i" "Suc i \<le> j" using Suc.hyps(2) i by simp_all
  have up: "[i..<j] = i # [Suc i..<j]" using i(1) by (rule upt_conv_Cons)
  show ?case
  proof (cases "strview_is_na ?v")
    case True
    have "es ! i = NA" using sv i(2) True by (auto simp: source_views_def view_content_def)
    then have h': "builder_holds (shard_builder s out) h (copied es (Suc i))"
      using hold copied_na [OF i(2)] by simp
    have "range_bytes src (Suc i) j \<le> left" using bytes Suc.prems(6) by simp
    from Suc.hyps(1) [OF m(1) h' sv m(2) Suc.prems(4,5) this] show ?thesis
      by (simp add: up rv True)
  next
    case False
    from source_views_step [OF sv i(2) False] obtain ys where e: "es ! i = Str ys (sv_enc ?v)"
      and len: "unat (sv_len ?v) \<le> 2147483647" and so: "source_ok [s] h (sv_ptr ?v) (scast (sv_len ?v)) ys"
      and nn: "sv_ptr ?v \<noteq> Null" and c: "sv_enc ?v \<noteq> CETYPE_EXT_NA" by blast
    have el: "element_of (sv_enc ?v) ys = es ! i" using e c by (simp add: element_of_Str)
    have ui: "unat (of_nat i :: size_t) = i"
      using i builder_holds_length [OF hold] rt_ok_bound builder_holdsD(2) [OF hold] by (fastforce intro!: unat_of_nat_u64)
    have ul: "unat (scast (sv_len ?v) :: size_t) = unat (sv_len ?v)" using len by (rule unat_scast_nonneg)
    show ?thesis
    proof (cases "sv_len ?v = 0")
      case True
      obtain out1 where o1: "rt_set out i empty_data 0 (sv_enc ?v) = Inr out1"
        "builder_copy_record (shard_builder s out) (of_nat i) (sv_ptr ?v) 0 (sv_enc ?v) h =
          (Inr (), shard_builder s out1, h)"
        by (rule copy_record_empty [OF hold i' c])
      have "source_ok [s] h (sv_ptr ?v) 0 ys" using so True by simp
      with builder_copy_record_ok [OF hold o1(2), of ys] el ui
      have h': "builder_holds (shard_builder s out1) h (copied es (Suc i))"
        using copied_step [OF i(2)] by simp
      have "range_bytes src (Suc i) j \<le> left" using bytes Suc.prems(6) by simp
      from Suc.hyps(1) [OF m(1) h' sv m(2) Suc.prems(4,5) this] show ?thesis
        by (simp add: up rv False True o1(1))
    next
      case nz: False
      let ?l = "scast (sv_len ?v) :: size_t"
      have rb: "unat (record_bytes ?v) = unat ?l" using False by (simp add: record_bytes_def)
      have l: "unat ?l \<le> left" "unat ?l \<le> 2147483647" "?l \<noteq> 0"
        using bytes Suc.prems(6) rb len ul nz by (auto simp: unat_eq_zero [symmetric] simp del: unat_eq_zero)
      obtain out1 s1 where o1: "rt_set out i p (ucast ?l) (sv_enc ?v) = Inr out1"
        and sl: "sh_slices s1 = sh_slices s" and o2: "shard_room s1 (ptr_add p (unat ?l)) (left - unat ?l)"
        and o3: "builder_copy_record (shard_builder s out) (of_nat i) (sv_ptr ?v) ?l (sv_enc ?v) h =
          (case memcpy h p (sv_ptr ?v) (unat ?l) of (r, h') \<Rightarrow> (r, shard_builder s1 out1, h'))"
        by (rule copy_record_in_slice [OF hold i' Suc.prems(5) l c])
      obtain r h1 where mc: "memcpy h p (sv_ptr ?v) (unat ?l) = (r, h1)" by fastforce
      have "sv_enc ?v = CETYPE_EXT_NA \<or> source_ok [bd_shard (shard_builder s out)] h (sv_ptr ?v) ?l ys"
        using so by simp
      note ok = builder_copy_record_ok [OF hold o3 [unfolded mc prod.case] this]
      have "isl r \<Longrightarrow> False"
        using ok memcpy_fault mc by (auto simp: isl_def builder_fails_def)
      then obtain u where r: "r = Inr u" by (cases r) auto
      with ok el ui have h': "builder_holds (shard_builder s1 out1) h1 (copied es (Suc i))"
        and fr: "takes_only (shard_owned s) (shard_owned s1) h h1"
        using copied_step [OF i(2)] by (simp_all add: builder_frame_def)
      have lset: "rt_set out i p (sv_len ?v) (sv_enc ?v) = Inr out1"
        using o1 ucast_scast_len [OF len] by simp
      have left: "range_bytes src (Suc i) j \<le> left - unat ?l" using bytes Suc.prems(6) rb by simp
      from Suc.hyps(1) [OF m(1) h' source_views_frame [OF sv fr] m(2) Suc.prems(4) o2 left]
      obtain s' out' h2 where "fill_block src [Suc i..<j] (ptr_add p (unat ?l)) out1 h1 = (Inr out', h2)"
        "builder_holds (shard_builder s' out') h2 (copied es j)" "sh_slices s' = sh_slices s1"
        "takes_only (shard_owned s1) (shard_owned s1) h1 h2" by blast
      moreover have "shard_owned s1 = shard_owned s" using sl by (simp add: shard_owned_def)
      ultimately show ?thesis
        using mc r lset sl fr takes_only_trans by (auto simp: up rv False nz)
    qed
  qed
qed

lemma fill_empty_ok:
  assumes "builder_holds (shard_builder s out) h (copied es i)"
    and "source_views src h (shard_owned s) es" and "i \<le> j" and "j \<le> length es"
    and "range_bytes src i j = 0"
  shows "\<exists>out'. fill_empty src [i..<j] out = Inr out' \<and> builder_holds (shard_builder s out') h (copied es j)"
  using assms
proof (induction "j - i" arbitrary: i out)
  case 0
  then show ?case by auto
next
  case (Suc m)
  then have i: "i < j" "i < length es" by simp_all
  let ?v = "rt_at src i"
  note hold = Suc.prems(1) and sv = Suc.prems(2)
  have rv: "rt_view src i = Inr ?v" using sv i(2) rt_view_ok by (simp add: source_views_def)
  have i': "i < length (copied es i)" using i by simp
  have z: "record_bytes ?v = 0" "range_bytes src (Suc i) j = 0"
    using Suc.prems(5) range_bytes_Cons [OF i(1)] by (simp_all add: unat_eq_zero)
  have m: "m = j - Suc i" "Suc i \<le> j" using Suc.hyps(2) i by simp_all
  have up: "[i..<j] = i # [Suc i..<j]" using i(1) by (rule upt_conv_Cons)
  show ?case
  proof (cases "strview_is_na ?v")
    case True
    have "es ! i = NA" using sv i(2) True by (auto simp: source_views_def view_content_def)
    then have h': "builder_holds (shard_builder s out) h (copied es (Suc i))"
      using hold copied_na [OF i(2)] by simp
    from Suc.hyps(1) [OF m(1) h' sv m(2) Suc.prems(4) z(2)] show ?thesis by (simp add: up rv True)
  next
    case False
    from source_views_step [OF sv i(2) False] obtain ys where e: "es ! i = Str ys (sv_enc ?v)"
      and len: "unat (sv_len ?v) \<le> 2147483647" and so: "source_ok [s] h (sv_ptr ?v) (scast (sv_len ?v)) ys"
      and nn: "sv_ptr ?v \<noteq> Null" and c: "sv_enc ?v \<noteq> CETYPE_EXT_NA" by blast
    have l0: "sv_len ?v = 0"
      using z(1) False unat_scast_nonneg [OF len] by (simp add: record_bytes_def unat_eq_zero [symmetric] del: unat_eq_zero)
    have el: "element_of (sv_enc ?v) ys = es ! i" using e c by (simp add: element_of_Str)
    have ui: "unat (of_nat i :: size_t) = i"
      using i builder_holds_length [OF hold] rt_ok_bound builder_holdsD(2) [OF hold] by (fastforce intro!: unat_of_nat_u64)
    obtain out1 where o1: "rt_set out i empty_data 0 (sv_enc ?v) = Inr out1"
      "builder_copy_record (shard_builder s out) (of_nat i) (sv_ptr ?v) 0 (sv_enc ?v) h =
        (Inr (), shard_builder s out1, h)"
      by (rule copy_record_empty [OF hold i' c])
    have "source_ok [s] h (sv_ptr ?v) 0 ys" using so l0 by simp
    with builder_copy_record_ok [OF hold o1(2), of ys] el ui
    have h': "builder_holds (shard_builder s out1) h (copied es (Suc i))"
      using copied_step [OF i(2)] by simp
    from Suc.hyps(1) [OF m(1) h' sv m(2) Suc.prems(4) z(2)] show ?thesis
      by (simp add: up rv False l0 o1(1))
  qed
qed

lemma record_bytes_bound:
  assumes "source_views src h B es" and "k < length es"
  shows "unat (record_bytes (rt_at src k)) \<le> 2147483647"
  using assms
  by (cases "es ! k") (auto simp: source_views_def record_bytes_def view_content_NA view_content_Str unat_scast_nonneg)

lemma scan_block_ok:
  assumes sv: "source_views src h B es" and "i \<le> k" and "k \<le> length es"
    and "unat b = range_bytes src i k" and "unat b \<le> 4294967295"
  shows "\<exists>j c. scan_block src k b = Inr (j, c) \<and> k \<le> j \<and> j \<le> length es \<and>
    unat c = range_bytes src i j \<and> unat c \<le> 4294967295 \<and> (k < length es \<and> b = 0 \<longrightarrow> k < j)"
  using assms(2-)
proof (induction "length es - k" arbitrary: k b)
  case 0
  then show ?case using sv by (subst scan_block.simps) (auto simp: source_views_def)
next
  case (Suc m)
  then have k: "k < length es" by simp
  let ?v = "rt_at src k" and ?l = "record_bytes (rt_at src k)"
  have n: "vector_length src = length es" and rv: "rt_view src k = Inr ?v"
    using sv k rt_view_ok by (simp_all add: source_views_def)
  have l: "unat ?l \<le> 2147483647" using record_bytes_bound [OF sv k] .
  have room: "unat (ucast UINT32_MAX - b :: size_t) = 4294967295 - unat b"
    by (subst unat_sub) (use Suc.prems(4) in \<open>simp_all add: word_le_nat_alt\<close>)
  show ?case
  proof (cases "?l > ucast UINT32_MAX - b")
    case True
    then have "scan_block src k b = Inr (k, b)" by (subst scan_block.simps) (simp add: n k rv)
    moreover have "b \<noteq> 0" using True l by (auto simp: word_less_nat_alt)
    ultimately show ?thesis using Suc.prems by simp
  next
    case False
    then have fit: "unat b + unat ?l \<le> 4294967295" using room Suc.prems(4) by (simp add: word_less_nat_alt)
    then have u: "unat (b + ?l) = unat b + unat ?l" by (intro unat_add_u64) simp
    have "scan_block src k b = scan_block src (Suc k) (b + ?l)"
      using False by (subst scan_block.simps) (simp add: n k rv)
    moreover have "m = length es - Suc k" "i \<le> Suc k" "Suc k \<le> length es" using Suc.hyps(2) Suc.prems(1) k by simp_all
    moreover have "unat (b + ?l) = range_bytes src i (Suc k)" using u Suc.prems(1,3) by (simp add: range_bytes_Suc)
    ultimately show ?thesis
      using Suc.hyps(1) [of "Suc k" "b + ?l"] u fit by (metis Suc_leD Suc_le_lessD)
  qed
qed

text \<open>A fresh slice in front: the old slices keep what they hold.\<close>

lemma builder_new_slice:
  assumes hold: "builder_holds (shard_builder s t) h es"
    and p: "slice_push_front n (sh_slices s) h = (Inr p, ss, h')"
    and n: "unat n \<le> 4294967295" "n \<noteq> 0"
  obtains s' where "sh_slices s' = ss" and "builder_holds (shard_builder s' t) h' es"
    and "shard_room s' p (unat n)" and "takes_only (shard_owned s) (shard_owned s') h h'"
proof -
  note inv = builder_holdsD [OF hold]
  obtain b bs where b: "p = At b 0" "ss = b # sh_slices s" "blocks h b = None" "length bs = unat n"
    "blocks h' = (blocks h)(b \<mapsto> bs)" "heap_ok h'" "keeps_live h h'"
    using slice_push_front_ok [OF p inv(3)] by blast
  let ?s = "\<lparr>sh_slices = ss, allocated_bytes = 0, current_slice_used = 0, current_slice_capacity = ucast n\<rparr>"
  have cap: "unat (ucast n :: u32) = unat n" using n(1) by (simp add: unat_ucast_u32)
  have live: "\<forall>x \<in> set (sh_slices s). blocks h x \<noteq> None" and dist: "distinct (sh_slices s)"
    using inv(1) by (simp_all add: shard_inv_def)
  then have nb: "b \<notin> set (sh_slices s)" using b(3) by auto
  have sinv: "shard_inv ?s h'"
    using b dist nb live cap by (auto simp: shard_inv_def)
  have held: "shard_held ?s h' q m" if "shard_held s h q m" for q m
  proof -
    from that obtain x off xs where "q = At x off" "x \<in> set (sh_slices s)" "blocks h x = Some xs" "off + m \<le> length xs"
      by (auto simp: shard_held_def)
    with nb b show ?thesis by (auto simp: shard_held_def)
  qed
  have d: "pool_denotes [s] t h es" using hold by (simp add: builder_holds_def)
  have "list_all2 (\<lambda>v e. view_content h' v = Some e \<and> pool.rec_held [?s] h' v) (rt_views t) es"
    using pool_denotesD(2) [OF d] view_content_keeps_live [OF b(7)] held
    by (auto simp: pool.good_def pool.rec_held_def shards_held_def elim!: list_all2_mono)
  then have "pool_denotes [?s] t h' es"
    using d sinv b(6) by (simp add: pool_denotes_def pool.good_def shards_inv_def)
  then have "builder_holds (shard_builder ?s t) h' es" by (simp add: builder_holds_def)
  moreover have "shard_room ?s p (unat n)" using b cap by (simp add: shard_room_def)
  moreover have "takes_only (shard_owned s) (shard_owned ?s) h h'"
    using b by (auto simp: takes_only_def shard_owned_def)
  ultimately show ?thesis by (intro that [of ?s]) simp_all
qed

section \<open>rebuild_store\<close>

text \<open>The bytes of the slices of a store.\<close>

definition slice_bytes :: "blk list \<Rightarrow> heap \<Rightarrow> nat" where
  "slice_bytes ss h = sum_list (map (\<lambda>b. case blocks h b of None \<Rightarrow> 0 | Some bs \<Rightarrow> length bs) ss)"

lemma slice_bytes_shape: "same_shape h h' \<Longrightarrow> slice_bytes ss h' = slice_bytes ss h"
  unfolding slice_bytes_def same_shape_def
  by (rule arg_cong [where f = sum_list], rule map_cong [OF refl])
    (metis (no_types, lifting) map_option_is_None option.case_eq_if option.map_sel)

lemma slice_bytes_frame: "(\<And>b. b \<in> set ss \<Longrightarrow> blocks h' b = blocks h b) \<Longrightarrow> slice_bytes ss h' = slice_bytes ss h"
  unfolding slice_bytes_def by (rule arg_cong [where f = sum_list]) simp

text \<open>The state of the outer loop: records below \<open>i\<close> are copied, the rest are NA, and the store
  owns what was allocated since \<open>h0\<close>, no byte more than the strings copied.\<close>

definition rebuilt :: "heap \<Rightarrow> record_table \<Rightarrow> element list \<Rightarrow> nat \<Rightarrow> store \<Rightarrow> heap \<Rightarrow> bool" where
  "rebuilt h0 src es i out h \<longleftrightarrow>
     (\<exists>s. sh_slices s = st_slices out \<and> builder_holds (shard_builder s (st_records out)) h (copied es i)) \<and>
     takes_only {} (set (st_slices out)) h0 h \<and> slice_bytes (st_slices out) h = range_bytes src 0 i"

lemma rebuilt_store_holds:
  assumes "rebuilt h0 src es (length es) out h"
  shows "store_holds out h es" and "takes_only {} (set (st_slices out)) h0 h"
proof -
  from assms obtain s where s: "sh_slices s = st_slices out"
    "builder_holds (shard_builder s (st_records out)) h es" by (auto simp: rebuilt_def)
  have d: "pool_denotes [s] (st_records out) h es" using s(2) by (simp add: builder_holds_def)
  have "distinct (st_slices out)" using builder_holdsD(1) [OF s(2)] s(1) by (simp add: shard_inv_def)
  then have "store_holds \<lparr>st_slices = st_slices out, st_records = st_records out\<rparr> h es"
    by (intro pool_store_holds [OF d]) (simp_all add: s(1) [symmetric] shard_owned_def)
  moreover have "\<lparr>st_slices = st_slices out, st_records = st_records out\<rparr> = out" by simp
  ultimately show "store_holds out h es" by argo
  show "takes_only {} (set (st_slices out)) h0 h" using assms by (simp add: rebuilt_def)
qed

lemma rebuild_loop_ok:
  assumes "rebuilt h0 src es i out h" and "source_views src h (set (st_slices out)) es" and "i \<le> length es"
  shows "case rebuild_loop src i out h of
      (Inl e, h') \<Rightarrow> e = Bad_alloc \<and> blocks h' = blocks h0 \<and> (\<exists>n m. \<not> can_alloc h n m)
    | (Inr st, h') \<Rightarrow> rebuilt h0 src es (length es) st h'"
  using assms
proof (induction "length es - i" arbitrary: i out h rule: less_induct)
  case less
  have n: "vector_length src = length es" using less.prems(2) by (simp add: source_views_def)
  show ?case
  proof (cases "i < length es")
    case False
    then show ?thesis using less.prems by (subst rebuild_loop.simps) (simp add: n)
  next
    case i: True
    obtain s where s: "sh_slices s = st_slices out"
      and hold: "builder_holds (shard_builder s (st_records out)) h (copied es i)"
      and t0: "takes_only {} (set (st_slices out)) h0 h"
      and b0: "slice_bytes (st_slices out) h = range_bytes src 0 i"
      using less.prems(1) by (auto simp: rebuilt_def)
    have own: "shard_owned s = set (st_slices out)" using s by (simp add: shard_owned_def)
    have sv: "source_views src h (shard_owned s) es" using less.prems(2) own by simp
    obtain j c where sb: "scan_block src i 0 = Inr (j, c)" "i < j" "j \<le> length es"
      "unat c = range_bytes src i j" "unat c \<le> 4294967295"
      using scan_block_ok [OF sv order_refl, of i 0] i by auto
    have split: "range_bytes src 0 j = range_bytes src 0 i + unat c"
    proof -
      have "[0..<j] = [0..<i] @ [i..<j]" using sb(2) upt_add_eq_append [of 0 i "j - i"] by simp
      then show ?thesis using sb(4) by (simp add: range_bytes_def)
    qed
    have closer: "length es - j < length es - i" using sb(2) i by simp
    show ?thesis
    proof (cases "0 < c")
      case False
      then have "c = 0" by (simp add: word_gt_0)
      with sb(4) have z: "range_bytes src i j = 0" by simp
      obtain t where t: "fill_empty src [i..<j] (st_records out) = Inr t"
        "builder_holds (shard_builder s t) h (copied es j)"
        using fill_empty_ok [OF hold sv _ sb(3) z] sb(2) by auto
      let ?out = "out\<lparr>st_records := t\<rparr>"
      have r: "rebuilt h0 src es j ?out h" using t(2) s t0 b0 split \<open>c = 0\<close> by (auto simp: rebuilt_def)
      have v: "source_views src h (set (st_slices ?out)) es" using less.prems(2) by simp
      have "case rebuild_loop src j ?out h of
          (Inl e, h') \<Rightarrow> e = Bad_alloc \<and> blocks h' = blocks h0 \<and> (\<exists>n m. \<not> can_alloc h n m)
        | (Inr st, h') \<Rightarrow> rebuilt h0 src es (length es) st h'"
        by (rule less.hyps [OF closer r v sb(3)])
      then show ?thesis
        using i sb(1,2) t(1) \<open>c = 0\<close> by (subst rebuild_loop.simps) (simp add: n)
    next
      case pos: True
      obtain r ss h1 where p: "slice_push_front c (st_slices out) h = (r, ss, h1)" by (metis prod_cases3)
      have alloc: "can_alloc h1 = can_alloc h" using slice_push_front_can_alloc [OF p] .
      show ?thesis
      proof (cases r)
        case (Inl e)
        note f = slice_push_front_fail [OF p [unfolded Inl]]
        have "c \<le> SIZE_MAX - 8" using sb(5) by (simp add: word_le_nat_alt)
        then have "\<exists>n m. \<not> can_alloc h n m" using slice_push_front_oom [OF p [unfolded Inl]] by blast
        moreover have "takes_only {} (set (st_slices out)) h0 h1" using t0 f by (simp add: takes_only_def)
        then have "blocks (store_free out h1) = blocks h0"
          by (auto simp: store_free_def takes_only_def slice_clear_blocks)
        moreover have "rebuild_loop src i out h = (Inl e, store_free out h1)"
          using i sb(1) pos p Inl f by (subst rebuild_loop.simps) (simp add: n)
        ultimately show ?thesis using f by simp
      next
        case (Inr q)
        have c: "unat c \<le> 4294967295" "c \<noteq> 0" using sb(5) pos by auto
        obtain s1 where s1: "sh_slices s1 = ss" "builder_holds (shard_builder s1 (st_records out)) h1 (copied es i)"
          "shard_room s1 q (unat c)" "takes_only (shard_owned s) (shard_owned s1) h h1"
          using builder_new_slice [OF hold p [folded s, unfolded Inr] c] by metis
        have sv1: "source_views src h1 (shard_owned s1) es" using source_views_frame [OF sv s1(4)] .
        obtain s2 t h2 where f: "fill_block src [i..<j] q (st_records out) h1 = (Inr t, h2)"
          "builder_holds (shard_builder s2 t) h2 (copied es j)" "sh_slices s2 = sh_slices s1"
          "takes_only (shard_owned s1) (shard_owned s1) h1 h2"
          using fill_block_ok [OF s1(2) sv1 _ sb(3) s1(3)] sb(2,4) by auto
        let ?out = "\<lparr>st_slices = ss, st_records = t\<rparr>"
        have own1: "shard_owned s1 = set ss" using s1(1) by (simp add: shard_owned_def)
        have t2: "takes_only {} (set ss) h0 h2"
          using takes_only_trans [OF t0 takes_only_trans [OF s1(4) f(4), unfolded own own1]] .
        have "slice_bytes ss h2 = range_bytes src 0 j"
        proof -
          obtain b bs where b: "ss = b # st_slices out" "blocks h b = None" "length bs = unat c"
            "blocks h1 = (blocks h)(b \<mapsto> bs)"
            using slice_push_front_ok [OF p [unfolded Inr]] builder_holdsD(3) [OF hold] by blast
          have "\<forall>x \<in> set (st_slices out). blocks h x \<noteq> None"
            using builder_holdsD(1) [OF hold] s by (simp add: shard_inv_def)
          with b(2) have "b \<notin> set (st_slices out)" by blast
          with b(4) have "slice_bytes (st_slices out) h1 = slice_bytes (st_slices out) h"
            by (intro slice_bytes_frame) auto
          then have "slice_bytes ss h1 = unat c + range_bytes src 0 i"
            using b b0 by (simp add: slice_bytes_def)
          then show ?thesis using slice_bytes_shape [OF fill_block_shape [OF f(1)]] split by simp
        qed
        then have r: "rebuilt h0 src es j ?out h2" using f(2,3) s1(1) t2 by (auto simp: rebuilt_def)
        have v: "source_views src h2 (set (st_slices ?out)) es"
          using source_views_frame [OF sv1 f(4)] own1 by simp
        have res: "case rebuild_loop src j ?out h2 of
            (Inl e, h') \<Rightarrow> e = Bad_alloc \<and> blocks h' = blocks h0 \<and> (\<exists>n m. \<not> can_alloc h2 n m)
          | (Inr st, h') \<Rightarrow> rebuilt h0 src es (length es) st h'"
          by (rule less.hyps [OF closer r v sb(3)])
        have alloc2: "can_alloc h2 = can_alloc h" using fill_block_can_alloc [OF f(1)] alloc by simp
        have eq: "rebuild_loop src i out h = rebuild_loop src j ?out h2"
          using i sb(1,2) pos p Inr f(1) by (subst rebuild_loop.simps) (simp add: n)
        show ?thesis using res unfolding eq alloc2 .
      qed
    qed
  qed
qed

lemma rt_reserve_Bad_alloc: "rt_reserve n t h = (Inl e, t', h') \<Longrightarrow> n \<le> max_capacity \<Longrightarrow> e = Bad_alloc"
  by (auto simp: rt_reserve_def try_alloc_def Let_def split: if_splits)

lemma rebuild_store_ok:
  assumes ok: "heap_ok h" and sv: "source_views src h {} es"
  shows "case rebuild_store src h of
      (Inl e, h') \<Rightarrow> e = Bad_alloc \<and> blocks h' = blocks h \<and> (\<exists>n m. \<not> can_alloc h n m)
    | (Inr st, h') \<Rightarrow> store_holds st h' es \<and> takes_only {} (set (st_slices st)) h h' \<and>
        slice_bytes (st_slices st) h' = range_bytes src 0 (length es)"
proof -
  have n: "vector_length src = length es" "rt_ok src" using sv by (simp_all add: source_views_def)
  obtain r h1 where new: "store_new (vector_length src) 0 h = (r, h1)" by fastforce
  show ?thesis
  proof (cases r)
    case (Inl e)
    then have "rt_new (vector_length src) h = (Inl e, h1)"
      using new by (auto simp: store_new_def split: prod.splits sum.splits)
    then obtain t' where "rt_reserve (vector_length src) rt_empty h = (Inl e, t', h1)" by (rule rt_new_reserve_fail)
    note rsv = this
    have le: "vector_length src \<le> max_capacity" using rt_ok_bound [OF n(2)] by (simp add: max_capacity_value)
    have "\<exists>n m. \<not> can_alloc h n m" by (rule rt_reserve_oom [OF rsv le])
    moreover have "e = Bad_alloc" by (rule rt_reserve_Bad_alloc [OF rsv le])
    moreover have "blocks h1 = blocks h" using store_new_fail new Inl by blast
    ultimately show ?thesis using new Inl by (simp add: rebuild_store_def)
  next
    case (Inr out)
    have o: "st_slices out = []" "rt_new (vector_length src) h = (Inr (st_records out), h1)"
      using store_new_empty new Inr by blast+
    note bl = rt_new_blocks [OF o(2)]
    have "pool_denotes [shard_new] (st_records out) h1 (replicate (length es) NA)"
      using pool_denotes_new [OF o(2) ok, of "[shard_new]"] n by simp
    then have "rebuilt h src es 0 out h1"
      unfolding rebuilt_def using o(1) bl
      by (auto simp: builder_holds_def copied_def takes_only_def slice_bytes_def shard_new_def
          intro!: exI [of _ shard_new])
    moreover have "takes_only {} {} h h1" using bl by (simp add: takes_only_def)
    then have "source_views src h1 (set (st_slices out)) es" using source_views_frame [OF sv] o(1) by simp
    ultimately have "case rebuild_loop src 0 out h1 of
        (Inl e, h') \<Rightarrow> e = Bad_alloc \<and> blocks h' = blocks h \<and> (\<exists>n m. \<not> can_alloc h1 n m)
      | (Inr st, h') \<Rightarrow> rebuilt h src es (length es) st h'"
      by (rule rebuild_loop_ok) simp
    moreover have "can_alloc h1 = can_alloc h" using rt_new_can_alloc [OF o(2)] .
    moreover have "store_holds st h' es \<and> takes_only {} (set (st_slices st)) h h' \<and>
        slice_bytes (st_slices st) h' = range_bytes src 0 (length es)"
      if "rebuilt h src es (length es) st h'" for st h'
      using that rebuilt_store_holds [OF that] by (simp add: rebuilt_def)
    ultimately show ?thesis
      using new Inr by (auto simp: rebuild_store_def split: prod.splits sum.splits)
  qed
qed

text \<open>The views of a store are views to copy, and their bytes are the strings'.\<close>

lemma store_source_views:
  assumes "store_holds st h es"
  shows "source_views (st_records st) h {} es"
  using store_holds_nth [OF assms] assms store_holds_size [OF assms]
  by (auto simp: source_views_def store_size_def foreign_def store_holds_def)

definition payload_bytes :: "element list \<Rightarrow> nat" where
  "payload_bytes es = sum_list (map (\<lambda>e. length (elem_bytes e)) es)"

lemma view_content_record_bytes:
  assumes "view_content h v = Some e"
  shows "unat (record_bytes v) = length (elem_bytes e)"
  using assms
  by (cases e) (auto simp: view_content_NA view_content_Str record_bytes_def unat_scast_nonneg
      dest!: length_mem_read)

lemma store_range_bytes:
  assumes "store_holds st h es"
  shows "range_bytes (st_records st) 0 (length es) = payload_bytes es"
proof -
  have "map (\<lambda>k. unat (record_bytes (rt_at (st_records st) k))) [0..<length es] =
      map (\<lambda>e. length (elem_bytes e)) es"
    by (intro nth_equalityI)
      (simp_all add: view_content_record_bytes [OF store_holds_nth(1) [OF assms]])
  then show ?thesis by (simp add: range_bytes_def payload_bytes_def)
qed

lemma rebuild_of_store:
  assumes "store_holds st h es"
  shows "case rebuild_store (st_records st) h of
      (Inl e, h') \<Rightarrow> e = Bad_alloc \<and> blocks h' = blocks h \<and> (\<exists>n m. \<not> can_alloc h n m)
    | (Inr st', h') \<Rightarrow> store_holds st' h' es \<and> takes_only {} (set (st_slices st')) h h' \<and>
        slice_bytes (st_slices st') h' = payload_bytes es"
proof -
  have "heap_ok h" using assms by (simp add: store_holds_def)
  from rebuild_store_ok [OF this store_source_views [OF assms]] show ?thesis
    by (simp only: store_range_bytes [OF assms])
qed

lemma store_free_can_alloc [simp]: "can_alloc (store_free st h) = can_alloc h"
proof -
  have "can_alloc (snd (slice_clear ss h)) = can_alloc h" for ss
    by (induction ss arbitrary: h) (simp_all add: free_block_def)
  then show ?thesis by (simp add: store_free_def)
qed

lemma rebuild_loop_can_alloc: "rebuild_loop src i out h = (r, h') \<Longrightarrow> can_alloc h' = can_alloc h"
proof (induction "vector_length src - i" arbitrary: i out h rule: less_induct)
  case less
  define blk where "blk j c = (if 0 < c
      then (case slice_push_front c (st_slices out) h of
              (Inl e, ss, h1) \<Rightarrow> (Inl e, out\<lparr>st_slices := ss\<rparr>, h1)
            | (Inr write_ptr, ss, h1) \<Rightarrow>
                (case fill_block src [i..<j] write_ptr (st_records out) h1 of
                   (Inl e, h2) \<Rightarrow> (Inl e, out\<lparr>st_slices := ss\<rparr>, h2)
                 | (Inr t, h2) \<Rightarrow> (Inr (), \<lparr>st_slices = ss, st_records = t\<rparr>, h2)))
      else (case fill_empty src [i..<j] (st_records out) of
              Inl e \<Rightarrow> (Inl e, out, h)
            | Inr t \<Rightarrow> (Inr (), out\<lparr>st_records := t\<rparr>, h)))" for j and c :: size_t
  have blk: "can_alloc h1 = can_alloc h" if "blk j c = (q, o1, h1)" for j c q o1 h1
    using that by (auto simp: blk_def dest!: slice_push_front_can_alloc fill_block_can_alloc
        split: sum.splits prod.splits if_splits)
  have step: "rebuild_loop src i out h =
      (if i < vector_length src
       then (case scan_block src i 0 of
           Inl e \<Rightarrow> (Inl e, store_free out h)
         | Inr (j, c) \<Rightarrow>
             (case blk j c of
                (Inl e, o1, h1) \<Rightarrow> (Inl e, store_free o1 h1)
              | (Inr u, o1, h1) \<Rightarrow> rebuild_loop src (if i < j then j else i + 1) o1 h1))
       else (Inr out, h))"
    unfolding blk_def by (rule rebuild_loop.simps)
  show ?case
  proof (cases "i < vector_length src")
    case False
    then show ?thesis using less.prems step by simp
  next
    case i: True
    show ?thesis
    proof (cases "scan_block src i 0")
      case (Inl e)
      then show ?thesis using less.prems step i by auto
    next
      case (Inr jc)
      obtain j c where jc: "jc = (j, c)" by fastforce
      obtain q o1 h1 where k: "blk j c = (q, o1, h1)" by (metis prod_cases3)
      show ?thesis
      proof (cases q)
        case (Inl e)
        then show ?thesis using less.prems step i Inr jc k blk [OF k] by auto
      next
        case (Inr u)
        have "rebuild_loop src (if i < j then j else i + 1) o1 h1 = (r, h')"
          using less.prems step i \<open>scan_block src i 0 = Inr jc\<close> jc k Inr by simp
        then have "can_alloc h' = can_alloc h1" by (rule less.hyps [rotated]) (use i in \<open>simp; linarith\<close>)
        then show ?thesis using blk [OF k] by simp
      qed
    qed
  qed
qed

lemma rebuild_store_can_alloc: "rebuild_store src h = (r, h') \<Longrightarrow> can_alloc h' = can_alloc h"
  by (auto simp: rebuild_store_def store_new_def dest!: rt_new_can_alloc rebuild_loop_can_alloc
      split: sum.splits prod.splits if_splits)

lemma takes_only_apart:
  assumes t: "takes_only {} B h h'" and live: "\<forall>b \<in> A. blocks h b \<noteq> None"
  shows "A \<inter> B = {}" and "\<And>b. b \<in> A \<Longrightarrow> blocks h' b = blocks h b"
proof -
  show apart: "A \<inter> B = {}" using assms by (auto simp: takes_only_def)
  show "blocks h' b = blocks h b" if "b \<in> A" for b
    using that apart t by (auto simp: takes_only_def)
qed

section \<open>duplicate_store and compact_store\<close>

text \<open>C35. \<open>duplicate_store\<close> makes a store of its own: on success the copy holds the elements of the
  source in slices that are all new (none is the source's), of exactly the strings' bytes, and the
  source still holds its elements; no other block changed. It fails only when an
  allocation is refused, and then every block is as before.\<close>

theorem duplicate_store_independent:
  assumes "store_holds st h es"
  shows "case duplicate_store st h of
      (Inl e, h') \<Rightarrow> e = Bad_alloc \<and> blocks h' = blocks h \<and> (\<exists>n m. \<not> can_alloc h n m)
    | (Inr st', h') \<Rightarrow> store_holds st' h' es \<and> store_holds st h' es \<and>
        set (st_slices st) \<inter> set (st_slices st') = {} \<and> takes_only {} (set (st_slices st')) h h' \<and>
        slice_bytes (st_slices st') h' = payload_bytes es"
proof -
  obtain r h1 where rb: "rebuild_store (st_records st) h = (r, h1)" by fastforce
  note spec = rebuild_of_store [OF assms, unfolded rb]
  show ?thesis
  proof (cases r)
    case (Inl e)
    with rb spec show ?thesis by (auto simp: duplicate_store_def deep_copy_store_def)
  next
    case (Inr st')
    with spec have s: "store_holds st' h1 es" "takes_only {} (set (st_slices st')) h h1"
      "slice_bytes (st_slices st') h1 = payload_bytes es" by simp_all
    obtain ok h2 where a: "try_alloc 48 h1 = (ok, h2)" by fastforce
    then have h2: "blocks h2 = blocks h1" "next_blk h2 = next_blk h1" by (auto simp: try_alloc_def)
    have t: "takes_only {} (set (st_slices st')) h h2" using s(2) h2 by (simp add: takes_only_def)
    have ok2: "heap_ok h2" using s(1) h2 by (simp add: store_holds_def heap_ok_def)
    have live: "\<forall>b \<in> set (st_slices st). blocks h b \<noteq> None" using assms by (simp add: store_holds_def)
    note ap = takes_only_apart [OF t live]
    show ?thesis
    proof (cases ok)
      case True
      have "store_holds st' h2 es" using store_holds_frame [OF s(1) ok2] h2 by simp
      moreover have "store_holds st h2 es" using store_holds_frame [OF assms ok2] ap(2) by blast
      moreover have "slice_bytes (st_slices st') h2 = payload_bytes es"
        using s(3) slice_bytes_frame [of "st_slices st'" h2 h1] h2 by simp
      moreover have "duplicate_store st h = (Inr st', h2)"
        using True rb Inr a by (simp add: duplicate_store_def deep_copy_store_def heap_store_def)
      ultimately show ?thesis using t ap(1) by simp
    next
      case False
      have "duplicate_store st h = (Inl Bad_alloc, store_free st' h2)"
        using False rb Inr a by (simp add: duplicate_store_def deep_copy_store_def heap_store_def)
      moreover have "\<not> can_alloc h (attempts h1) 48"
        using a False rebuild_store_can_alloc [OF rb] by (auto simp: try_alloc_def)
      ultimately show ?thesis using takes_only_freed [OF t] by (auto simp: store_free_def)
    qed
  qed
qed

lemma duplicate_store_can_alloc: "duplicate_store st h = (r, h') \<Longrightarrow> can_alloc h' = can_alloc h"
  by (auto simp: duplicate_store_def deep_copy_store_def heap_store_def try_alloc_def Let_def
      dest!: rebuild_store_can_alloc split: sum.splits prod.splits if_splits)

theorem duplicate_store_independent_witness:
  "\<exists>st h st' h'. duplicate_store st h = (Inr st', h') \<and> store_holds st' h' [Str [104, 105] CETYPE_EXT_UTF8, NA]"
proof -
  obtain st h where st: "store_holds st h [Str [104, 105] CETYPE_EXT_UTF8, NA]" "\<And>n m. can_alloc h n m"
    by (rule demo_string_store) blast
  obtain r h' where r: "duplicate_store st h = (r, h')" by fastforce
  from duplicate_store_independent [OF st(1), unfolded r] st(2)
  obtain st' where "r = Inr st'" "store_holds st' h' [Str [104, 105] CETYPE_EXT_UTF8, NA]"
    by (auto split: sum.splits)
  with r show ?thesis by blast
qed

text \<open>C36. \<open>compact_store\<close> keeps every element and frees every old slice: on success the
  store holds the same elements in slices of exactly the strings' bytes, the slices it had are
  gone and no other block changed. It fails only when an allocation is refused, and then the
  store, its elements and every block are as before.\<close>

theorem compact_store_tight:
  assumes "store_holds st h es"
  shows "case compact_store st h of
      (Inl e, st', h') \<Rightarrow> e = Bad_alloc \<and> st' = st \<and> blocks h' = blocks h \<and> (\<exists>n m. \<not> can_alloc h n m)
    | (Inr u, st', h') \<Rightarrow> store_holds st' h' es \<and>
        slice_bytes (st_slices st') h' = payload_bytes es \<and>
        (\<forall>b. b \<notin> set (st_slices st') \<longrightarrow>
             blocks h' b = (if b \<in> set (st_slices st) then None else blocks h b))"
proof -
  obtain r h1 where rb: "rebuild_store (st_records st) h = (r, h1)" by fastforce
  note spec = rebuild_of_store [OF assms, unfolded rb]
  show ?thesis
  proof (cases r)
    case (Inl e)
    with rb spec show ?thesis by (auto simp: compact_store_def)
  next
    case (Inr st')
    with spec have s: "store_holds st' h1 es" "takes_only {} (set (st_slices st')) h h1"
      "slice_bytes (st_slices st') h1 = payload_bytes es" by simp_all
    let ?h = "store_free st h1"
    have "\<forall>b \<in> set (st_slices st). blocks h b \<noteq> None" using assms by (simp add: store_holds_def)
    note ap = takes_only_apart(1) [OF s(2) this]
    have bl: "blocks ?h b = (if b \<in> set (st_slices st) then None else blocks h1 b)" for b
      by (simp add: store_free_def slice_clear_blocks)
    have same: "blocks ?h b = blocks h1 b" if "b \<in> set (st_slices st')" for b using that ap bl by auto
    have "heap_ok ?h" using s(1) by (simp add: store_free_def heap_ok_slice_clear store_holds_def)
    then have "store_holds st' ?h es" using store_holds_frame [OF s(1)] same by blast
    moreover have "slice_bytes (st_slices st') ?h = payload_bytes es"
      using slice_bytes_frame [OF same] s(3) by simp
    moreover have "compact_store st h = (Inr (), st', ?h)" using rb Inr by (simp add: compact_store_def)
    moreover have "blocks ?h b = (if b \<in> set (st_slices st) then None else blocks h b)"
      if "b \<notin> set (st_slices st')" for b using that s(2) bl by (simp add: takes_only_def)
    ultimately show ?thesis by simp
  qed
qed

theorem compact_store_tight_witness:
  "\<exists>st h st' h'. compact_store st h = (Inr (), st', h') \<and> slice_bytes (st_slices st') h' = 2 \<and>
     store_holds st' h' [Str [104, 105] CETYPE_EXT_UTF8, NA]"
proof -
  obtain st h where st: "store_holds st h [Str [104, 105] CETYPE_EXT_UTF8, NA]" "\<And>n m. can_alloc h n m"
    by (rule demo_string_store) blast
  obtain r st' h' where r: "compact_store st h = (r, st', h')" by (metis prod_cases3)
  from compact_store_tight [OF st(1), unfolded r] st(2)
  have "r = Inr ()" "store_holds st' h' [Str [104, 105] CETYPE_EXT_UTF8, NA]"
    "slice_bytes (st_slices st') h' = 2"
    by (auto simp: payload_bytes_def split: sum.splits)
  with r show ?thesis by blast
qed

end
