(* ===== verification/Cp_Assign.thy ===== *)
theory Cp_Assign
  imports Cp_Rebuild
begin

text \<open>
  Assigning one element of a store, \<open>store_reserve\<close> and \<open>store_assign\<close> of
  \<open>src/charvec_altrep.h\<close>. A string that fits the bytes of the record it replaces is written over
  them; any other string gets a slice of its own.
\<close>

section \<open>The code\<close>

definition store_reserve ::
    "store \<Rightarrow> nat \<Rightarrow> size_t \<Rightarrow> cetype_ext_t \<Rightarrow> heap \<Rightarrow> (fault + ptr) \<times> store \<times> heap" where
  "store_reserve st idx len enc h =
     (case checked_string_size len ''stored string length'' of
        Inl e \<Rightarrow> (Inl e, st, h)
      | Inr stored_len \<Rightarrow>
          if vector_length (st_records st) \<le> idx
          then (Inl (Runtime_error ''charvec store assignment out of bounds''), st, h)
          else
            (case rt_view (st_records st) idx of
               Inl e \<Rightarrow> (Inl e, st, h)
             | Inr current \<Rightarrow>
                 if enc = CETYPE_EXT_NA
                 then (case store_set_records st (rt_set_na (st_records st) idx) of
                         Inl e \<Rightarrow> (Inl e, st, h) | Inr st' \<Rightarrow> (Inr Null, st', h))
                 else if stored_len = 0
                 then (case store_set_records st (rt_set (st_records st) idx empty_data 0 enc) of
                         Inl e \<Rightarrow> (Inl e, st, h) | Inr st' \<Rightarrow> (Inr empty_data, st', h))
                 else if \<not> strview_is_na current \<and> sint stored_len \<le> sint (sv_len current)
                 then (case store_set_records st (rt_set (st_records st) idx (sv_ptr current) stored_len enc) of
                         Inl e \<Rightarrow> (Inl e, st, h) | Inr st' \<Rightarrow> (Inr (sv_ptr current), st', h))
                 else
                   (case slice_push_front (scast stored_len) (st_slices st) h of
                      (Inl e, ss, h') \<Rightarrow> (Inl e, st\<lparr>st_slices := ss\<rparr>, h')
                    | (Inr dest, ss, h') \<Rightarrow>
                        (case store_set_records (st\<lparr>st_slices := ss\<rparr>)
                                (rt_set (st_records st) idx dest stored_len enc) of
                           Inl e \<Rightarrow> (Inl e, st\<lparr>st_slices := ss\<rparr>, h')
                         | Inr st' \<Rightarrow> (Inr dest, st', h')))))"

definition store_assign :: "store \<Rightarrow> nat \<Rightarrow> charport_strview \<Rightarrow> heap \<Rightarrow> (fault + unit) \<times> store \<times> heap" where
  "store_assign st idx v h =
     (let len = record_bytes v
      in case store_reserve st idx len (sv_enc v) h of
           (Inl e, st', h') \<Rightarrow> (Inl e, st', h')
         | (Inr dest, st', h') \<Rightarrow>
             if dest \<noteq> Null \<and> 0 < len
             then (case memmove h' dest (sv_ptr v) (unat len) of (r, h'') \<Rightarrow> (r, st', h''))
             else (Inr (), st', h'))"

section \<open>A store as a payload allocator\<close>

text \<open>Every record lies in some slice, and room comes as a new slice.\<close>

definition chain_room :: "blk list \<Rightarrow> heap \<Rightarrow> size_t \<Rightarrow> (fault + ptr) \<times> blk list \<times> heap" where
  "chain_room ss h n = slice_push_front n ss h"

definition chain_inv :: "blk list \<Rightarrow> heap \<Rightarrow> bool" where
  "chain_inv ss h \<longleftrightarrow> heap_ok h \<and> distinct ss \<and> (\<forall>b \<in> set ss. blocks h b \<noteq> None)"

definition chain_held :: "blk list \<Rightarrow> heap \<Rightarrow> ptr \<Rightarrow> nat \<Rightarrow> bool" where
  "chain_held ss h p n \<longleftrightarrow>
     (\<exists>b off bs. p = At b off \<and> b \<in> set ss \<and> blocks h b = Some bs \<and> off + n \<le> length bs)"

lemma chain_inv_shape: "chain_inv ss h \<Longrightarrow> same_shape h h' \<Longrightarrow> chain_inv ss h'"
  unfolding chain_inv_def using same_shape_heap_ok same_shape_length by (metis not_None_eq option.distinct(1))

interpretation chain: region_allocator chain_room chain_inv set chain_held
proof
  fix ss h and n :: size_t and p ss' h'
  assume inv: "chain_inv ss h" and a: "chain_room ss h n = (Inr p, ss', h')"
  have "heap_ok h" using inv by (simp add: chain_inv_def)
  from slice_push_front_ok [OF a [unfolded chain_room_def] this] obtain b bs
    where b: "p = At b 0" "ss' = b # ss" "blocks h b = None" "length bs = unat n"
      "blocks h' = (blocks h)(b \<mapsto> bs)" "heap_ok h'" "keeps_live h h'" by blast
  have new: "b \<notin> set ss" using inv b(3) by (auto simp: chain_inv_def)
  show "chain_inv ss' h' \<and> chain_held ss' h' p (unat n) \<and> keeps_live h h' \<and>
    (\<forall>b. ptr_blk p = Some b \<longrightarrow> b \<in> set ss \<or> blocks h b = None) \<and>
    set ss \<subseteq> set ss' \<and> (\<forall>b \<in> set ss'. b \<in> set ss \<or> blocks h b = None)"
    using inv b new by (auto simp: chain_inv_def chain_held_def)
  show "chain_held ss' h' q m \<and> disjoint p (unat n) q m" if "chain_held ss h q m" for q m
    using that b new by (auto simp: chain_held_def)
next
  fix ss h and n :: size_t and e ss' h'
  assume "chain_room ss h n = (Inl e, ss', h')"
  then show "e \<noteq> Undefined \<and> ss' = ss \<and> same_shape h h' \<and> blocks h' = blocks h"
    by (auto simp: chain_room_def same_shape_def dest: slice_push_front_fail)
next
  show "\<exists>b off bs. q = At b off \<and> b \<in> set ss \<and> blocks h b = Some bs \<and> off + m \<le> length bs"
    if "chain_held ss h q m" for ss h q m using that by (auto simp: chain_held_def)
  show "chain_inv ss h' \<and> (\<forall>q m. chain_held ss h q m \<longrightarrow> chain_held ss h' q m)"
    if "chain_inv ss h" "same_shape h h'" for ss h h'
    using chain_inv_shape [OF that] same_shape_length [OF that(2)] by (fastforce simp: chain_held_def)
qed

lemma chain_rec_held:
  assumes v: "view_content h v = Some e" and r: "rec_in (set ss) v"
  shows "chain.rec_held ss h v"
proof (cases "v = na_record \<or> sv_len v = 0 \<and> sv_ptr v = Empty")
  case True
  then show ?thesis by (auto simp: chain.rec_held_def)
next
  case False
  with r obtain b off where b: "b \<in> set ss" "sv_ptr v = At b off" "sv_len v \<noteq> 0" "\<not> strview_is_na v"
    by (cases "sv_ptr v") (auto simp: rec_in_def)
  obtain bs where "blocks h b = Some bs" "off + unat (sv_len v) \<le> length bs"
    using v b(2,4) by (cases e) (auto simp: view_content_NA view_content_Str split: option.splits if_splits)
  with b show ?thesis by (simp add: chain.rec_held_def chain_held_def)
qed

lemma rec_held_chain: "chain.rec_held ss h v \<Longrightarrow> rec_in (set ss) v"
  by (auto simp: chain.rec_held_def chain_held_def rec_in_def)

lemma store_holds_chain:
  "store_holds st h es \<longleftrightarrow>
     rt_ok (st_records st) \<and> chain.good (st_slices st) h (rt_views (st_records st)) es"
proof -
  have "(view_content h v = Some e \<and> rec_in (set (st_slices st)) v) =
      (view_content h v = Some e \<and> chain.rec_held (st_slices st) h v)" for v e
    using chain_rec_held rec_held_chain by blast
  then show ?thesis by (auto simp: store_holds_def chain.good_def chain_inv_def)
qed

text \<open>A store whose strings share no byte: what assigning in place needs.\<close>

definition store_private :: "store \<Rightarrow> heap \<Rightarrow> element list \<Rightarrow> bool" where
  "store_private st h es \<longleftrightarrow> store_holds st h es \<and> apart (rt_views (st_records st))"

lemma store_private_chain:
  "store_private st h es \<longleftrightarrow> rt_ok (st_records st) \<and>
     chain.good (st_slices st) h (rt_views (st_records st)) es \<and> apart (rt_views (st_records st))"
  by (auto simp: store_private_def store_holds_chain)

lemma apart_update_at:
  assumes "apart vs" and "\<And>j. j < length vs \<Longrightarrow> j \<noteq> i \<Longrightarrow> rec_apart v (vs ! j)"
  shows "apart (vs[i := v])"
proof (rule apartI)
  fix j k
  assume jk: "j < k" "k < length (vs[i := v])"
  show "rec_apart (vs[i := v] ! j) (vs[i := v] ! k)"
    using jk apartD [OF assms(1), of j k] assms(2) [of j] assms(2) [of k]
      rec_apart_commute [of v "vs ! j"]
    by (cases "j = i"; cases "k = i") simp_all
qed

lemma disjoint_shrink: "disjoint p n q m \<Longrightarrow> n' \<le> n \<Longrightarrow> disjoint p n' q m"
  by (cases p; cases q) auto

section \<open>Assigning\<close>

lemma scast_ucast_len:
  assumes "unat (l :: c_int) \<le> 2147483647"
  shows "(ucast (scast l :: size_t) :: c_int) = l" "unat (scast l :: size_t) = unat l"
  using assms by (simp_all add: ucast_scast_len unat_scast_nonneg)

text \<open>Setting record \<open>i\<close> to room that holds some string, then writing the string's bytes.\<close>

lemma private_set_write:
  assumes ok: "rt_ok t" and i: "i < vector_length t"
    and g: "chain.good ss h (rt_views t) es" and ap: "apart (rt_views t)"
    and v: "view_content h (make_strview p l c) = Some (Str xs c)" "chain.rec_held ss h (make_strview p l c)"
    and far: "\<And>j. j < vector_length t \<Longrightarrow> j \<noteq> i \<Longrightarrow> rec_apart (make_strview p l c) (rt_at t j)"
    and src: "mem_read h src (unat l) = Some ys"
  shows "\<exists>t' h'. rt_set t i p l c = Inr t' \<and> memmove h p src (unat l) = (Inr (), h') \<and>
    mem_write h p ys = Some h' \<and>
    store_private \<lparr>st_slices = ss, st_records = t'\<rparr> h' (es[i := Str ys c])"
proof -
  obtain t' where t': "rt_set t i p l c = Inr t'" using rt_set_succ [OF ok i] by blast
  note views = rt_set_views [OF ok i t']
  have n: "length es = vector_length t" using g by (auto simp: chain.good_def dest: list_all2_lengthD)
  have g': "chain.good ss h (rt_views t') (es[i := Str xs c])"
    using views chain.good_update [OF g v] by simp
  have ap': "apart (rt_views t')" using views apart_update_at [OF ap, of i] far by simp
  have i': "i < length (rt_views t')" using views i by simp
  have len: "length xs = unat l" using v(1) length_mem_read by (auto simp: view_content_Str)
  have "length ys = length xs" using length_mem_read [OF src] len by simp
  from chain.good_write_late [OF g' ap' i' _ this] n i obtain h' where
    h': "mem_write h (sv_ptr (rt_views t' ! i)) ys = Some h'"
    "chain.good ss h' (rt_views t') ((es[i := Str xs c])[i := Str ys c])" by auto
  have "sv_ptr (rt_views t' ! i) = p" using views i by simp
  with h' src have "memmove h p src (unat l) = (Inr (), h')" "mem_write h p ys = Some h'"
    by (simp_all add: memmove_def)
  with t' h'(2) views ap' show ?thesis by (auto simp: store_private_chain)
qed

lemma private_set:
  assumes st: "store_private st h es" and i: "i < length es"
    and v: "view_content h (make_strview p l c) = Some e" "rec_in {} (make_strview p l c)"
  shows "\<exists>st'. store_set_records st (rt_set (st_records st) i p l c) = Inr st' \<and>
    st_slices st' = st_slices st \<and> store_private st' h (es[i := e])"
proof -
  have h: "rt_ok (st_records st)" "chain.good (st_slices st) h (rt_views (st_records st)) es"
    "apart (rt_views (st_records st))" using st by (simp_all add: store_private_chain)
  have n: "i < vector_length (st_records st)"
    using i h(2) by (auto simp: chain.good_def dest: list_all2_lengthD)
  obtain t' where t': "rt_set (st_records st) i p l c = Inr t'" using rt_set_succ [OF h(1) n] by blast
  note views = rt_set_views [OF h(1) n t']
  have r: "chain.rec_held (st_slices st) h (make_strview p l c)"
    using v(2) by (intro chain_rec_held [OF v(1)]) (auto simp: rec_in_def)
  have "rec_apart (make_strview p l c) w" for w
    using v(2) by (auto simp: rec_in_def rec_apart_def)
  then have "apart (rt_views t')" using views apart_update_at [OF h(3)] by simp
  moreover have "chain.good (st_slices st) h (rt_views t') (es[i := e])"
    using views chain.good_update [OF h(2) v(1) r] by simp
  ultimately show ?thesis using t' views by (simp add: store_set_records_def store_private_chain)
qed

text \<open>The outcome of assigning the element \<open>e\<close>.\<close>

definition assigned ::
    "store \<Rightarrow> heap \<Rightarrow> element list \<Rightarrow> nat \<Rightarrow> element \<Rightarrow> (fault + unit) \<times> store \<times> heap \<Rightarrow> bool" where
  "assigned st h es i e res \<longleftrightarrow>
     (case res of
        (Inl f, st', h') \<Rightarrow> f = Bad_alloc \<and> st' = st \<and> blocks h' = blocks h \<and> next_blk h' = next_blk h \<and>
          (\<exists>n m. \<not> can_alloc h n m)
      | (Inr u, st', h') \<Rightarrow>
          store_private st' h' (es[i := e]) \<and>
          takes_only (set (st_slices st)) (set (st_slices st')) h h')"

lemma store_assign_spec:
  assumes st: "store_private st h es" and i: "i < length es"
    and v: "view_content h v = Some e" "strview_is_na v \<longrightarrow> sv_enc v = CETYPE_EXT_NA"
  shows "assigned st h es i e (store_assign st i v h)"
proof -
  let ?t = "st_records st" and ?ss = "st_slices st"
  have h: "rt_ok ?t" "chain.good ?ss h (rt_views ?t) es" "apart (rt_views ?t)"
    using st by (simp_all add: store_private_chain)
  have n: "length es = vector_length ?t" using h(2) by (auto simp: chain.good_def dest: list_all2_lengthD)
  have cur: "rt_view ?t i = Inr (rt_at ?t i)" using rt_view_ok [OF h(1)] i n by simp
  have iv: "i < vector_length ?t" using i n by simp
  then have range: "\<not> vector_length ?t \<le> i" by simp
  show ?thesis
  proof (cases "strview_is_na v")
    case True
    then have e: "e = NA" "sv_enc v = CETYPE_EXT_NA" "record_bytes v = 0"
      using v by (auto simp: view_content_def record_bytes_def)
    obtain st' where "store_set_records st (rt_set_na ?t i) = Inr st'" "st_slices st' = ?ss"
      "store_private st' h (es[i := NA])"
      using private_set [OF st i view_content_na_record] by (auto simp: rec_in_def rt_set_na_def na_record_def)
    then show ?thesis
      using range cur by (simp add: assigned_def store_assign_def store_reserve_def e checked_string_size_cases)
  next
    case na: False
    obtain ys where ys: "e = Str ys (sv_enc v)" "unat (sv_len v) \<le> 2147483647"
      "mem_read h (sv_ptr v) (unat (sv_len v)) = Some ys" and c: "sv_enc v \<noteq> CETYPE_EXT_NA"
      using v(1) na by (cases e) (auto simp: view_content_NA view_content_Str strview_is_na_def)
    let ?l = "sv_len v" and ?c = "sv_enc v"
    have rb: "record_bytes v = scast ?l" using na by (simp add: record_bytes_def)
    have chk: "checked_string_size (scast ?l) what = Inr ?l" for what
      using ys(2) by (simp add: checked_string_size_cases scast_ucast_len)
    have l: "unat (scast ?l :: size_t) = unat ?l" using ys(2) by (rule scast_ucast_len(2))
    show ?thesis
    proof (cases "?l = 0")
      case True
      then have "ys = []" using ys(3) length_mem_read by fastforce
      have "view_content h (make_strview Empty 0 ?c) = Some e"
        using ys(1) \<open>ys = []\<close> c by (simp add: view_content_Str strview_is_na_def)
      moreover have "rec_in {} (make_strview Empty 0 ?c)" by (simp add: rec_in_def)
      ultimately obtain st' where "store_set_records st (rt_set ?t i empty_data 0 ?c) = Inr st'"
        "st_slices st' = ?ss" "store_private st' h (es[i := e])"
        using private_set [OF st i] unfolding empty_data_def by metis
      then show ?thesis
        using range cur chk True c by (simp add: assigned_def store_assign_def store_reserve_def rb)
    next
      case l0: False
      then have pos: "0 < unat (scast ?l :: size_t)" "(0 :: size_t) < scast ?l"
        using l by (auto simp: unat_gt_0 word_less_nat_alt)
      have na': "\<not> strview_is_na (make_strview p ?l ?c)" if "p \<noteq> Null" for p
        using that c na by (simp add: strview_is_na_def)
      show ?thesis
      proof (cases "\<not> strview_is_na (rt_at ?t i) \<and> sint ?l \<le> sint (sv_len (rt_at ?t i))")
        case True
        let ?v = "rt_at ?t i"
        have held: "view_content h ?v = Some (es ! i)" "chain.rec_held ?ss h ?v"
          using h(2) i n by (simp_all add: chain.good_def list_all2_conv_all_nth)
        then obtain xs where xs: "unat (sv_len ?v) \<le> 2147483647"
          "mem_read h (sv_ptr ?v) (unat (sv_len ?v)) = Some xs"
          using True by (cases "es ! i") (auto simp: view_content_NA view_content_Str)
        have shorter: "unat ?l \<le> unat (sv_len ?v)"
          using True ys(2) xs(1) by (simp add: sint_c_int del: of_nat_unat)
        have nz: "sv_len ?v \<noteq> 0" using shorter pos(1) l by auto
        have p: "sv_ptr ?v \<noteq> Null" using True by (simp add: strview_is_na_def)
        have "chain_held ?ss h (sv_ptr ?v) (unat (sv_len ?v))"
          using held(2) True nz by (auto simp: chain.rec_held_def)
        then obtain b off bs where b: "sv_ptr ?v = At b off" "b \<in> set ?ss" "blocks h b = Some bs"
          "off + unat (sv_len ?v) \<le> length bs" by (auto simp: chain_held_def)
        have w: "view_content h (make_strview (sv_ptr ?v) ?l ?c) = Some (Str (take (unat ?l) (drop off bs)) ?c)"
          using na' [OF p] ys(2) b shorter by (simp add: view_content_Str)
        have held': "chain.rec_held ?ss h (make_strview (sv_ptr ?v) ?l ?c)"
          using w b(1,2) by (intro chain_rec_held [OF w]) (auto simp: rec_in_def l0 na' [OF p, unfolded b(1)])
        have far: "rec_apart (make_strview (sv_ptr ?v) ?l ?c) (rt_at ?t j)"
          if "j < vector_length ?t" "j \<noteq> i" for j
        proof -
          have "rec_apart ?v (rt_at ?t j)" using apartD [OF h(3), of i j] that i n by simp
          then show ?thesis using nz True disjoint_shrink [OF _ shorter] by (auto simp: rec_apart_def)
        qed
        from private_set_write [OF h(1) iv h(2,3) w held' far ys(3)] obtain t' h' where
          r: "rt_set ?t i (sv_ptr ?v) ?l ?c = Inr t'" "memmove h (sv_ptr ?v) (sv_ptr v) (unat ?l) = (Inr (), h')"
          "mem_write h (sv_ptr ?v) ys = Some h'"
          "store_private \<lparr>st_slices = ?ss, st_records = t'\<rparr> h' (es[i := Str ys ?c])" by auto
        have "takes_only (set ?ss) (set ?ss) h h'"
          using takes_only_write [OF takes_only_refl r(3)] b(1,2) by simp
        moreover have eq: "\<lparr>st_slices = ?ss, st_records = t'\<rparr> = st\<lparr>st_records := t'\<rparr>" by (cases st) simp
        moreover have "store_assign st i v h = (Inr (), st\<lparr>st_records := t'\<rparr>, h')"
          using range cur chk True l0 c r(1,2) l pos p
          by (simp add: store_assign_def store_reserve_def rb store_set_records_def)
        ultimately show ?thesis using r(4) [unfolded eq] ys(1) by (simp add: assigned_def)
      next
        case grow: False
        obtain q ss' h1 where a: "slice_push_front (scast ?l) ?ss h = (q, ss', h1)" by (metis prod_cases3)
        show ?thesis
        proof (cases q)
          case (Inl f)
          note fail = slice_push_front_fail [OF a [unfolded Inl]]
          have "(scast ?l :: size_t) \<le> SIZE_MAX - 8" using l ys(2) by (simp add: word_le_nat_alt)
          then have "\<exists>n m. \<not> can_alloc h n m" using slice_push_front_oom [OF a [unfolded Inl]] by blast
          moreover have "store_assign st i v h = (Inl f, st, h1)"
            using range cur chk l0 c a Inl fail
            by (simp add: store_assign_def store_reserve_def rb if_not_P [OF grow] Let_def)
          ultimately show ?thesis using fail by (simp add: assigned_def)
        next
          case (Inr p)
          have al: "chain_room ?ss h (scast ?l) = (Inr p, ss', h1)" using a Inr by (simp add: chain_room_def)
          have pos': "0 < unat (scast ?l :: size_t)" "unat (scast ?l :: size_t) \<le> 2147483647"
            using pos(1) l ys(2) by simp_all
          have ul: "(ucast (scast ?l :: size_t) :: c_int) = ?l" using ys(2) by (rule scast_ucast_len(1))
          obtain xs where new: "chain.good ss' h1 (rt_views ?t) es"
            "view_content h1 (make_strview p ?l ?c) = Some (Str xs ?c)"
            "chain.rec_held ss' h1 (make_strview p ?l ?c)"
            using chain.good_alloc_reserve [OF h(2) pos' al c] unfolding ul by blast
          have far: "rec_apart (make_strview p ?l ?c) (rt_at ?t j)" if "j < vector_length ?t" "j \<noteq> i" for j
          proof -
            have "rt_at ?t j \<in> set (rt_views ?t)" using that by (auto simp: in_set_conv_nth)
            from chain.alloc_apart [OF h(2) pos' al this] show ?thesis unfolding ul .
          qed
          have "heap_ok h" using chain.good_inv [OF h(2)] by (simp add: chain_inv_def)
          from slice_push_front_ok [OF a [unfolded Inr] this] obtain b bs where b: "p = At b 0" "ss' = b # ?ss"
            "blocks h b = None" "blocks h1 = (blocks h)(b \<mapsto> bs)" "keeps_live h h1" by blast
          have src: "mem_read h1 (sv_ptr v) (unat ?l) = Some ys" using keeps_live_read [OF b(5) ys(3)] .
          from private_set_write [OF h(1) iv new(1) h(3) new(2,3) far src] obtain t' h' where
            r: "rt_set ?t i p ?l ?c = Inr t'" "memmove h1 p (sv_ptr v) (unat ?l) = (Inr (), h')"
            "mem_write h1 p ys = Some h'"
            "store_private \<lparr>st_slices = ss', st_records = t'\<rparr> h' (es[i := Str ys ?c])" by auto
          have "takes_only (set ?ss) (set ss') h h1" using b by (auto simp: takes_only_def)
          from takes_only_write [OF this r(3)] b(1,2) have "takes_only (set ?ss) (set ss') h h'" by simp
          moreover have "store_assign st i v h = (Inr (), \<lparr>st_slices = ss', st_records = t'\<rparr>, h')"
            using range cur chk l0 c a Inr r(1,2) l pos b(1)
            by (simp add: store_assign_def store_reserve_def rb store_set_records_def if_not_P [OF grow] Let_def)
          ultimately show ?thesis using r(4) ys(1) by (simp add: assigned_def)
        qed
      qed
    qed
  qed
qed

text \<open>A builder's strings share no byte, so the store it releases is private.\<close>

lemma builder_release_private:
  assumes b: "builder_holds b h es" and r: "builder_release_store b = (st, b')"
  shows "store_private st h es"
proof -
  have "pool_denotes [bd_shard b] (st_records (bd_store b)) h es" using b by (simp add: builder_holds_def)
  then have "apart (rt_views (st_records (bd_store b)))" by (rule pool_denotesD)
  moreover have "st_records st = st_records (bd_store b)"
    using r by (auto simp: builder_release_store_def builder_finish_store_def Let_def split: prod.splits)
  ultimately show ?thesis using builder_release_ok [OF b r] by (simp add: store_private_def)
qed

lemma demo_private_store:
  obtains st h where "store_private st h [Str [104, 105] CETYPE_EXT_UTF8, NA]" and "\<And>n m. can_alloc h n m"
    and "mem_read h (At 0 0) 2 = Some [104, 105]" and "0 \<notin> set (st_slices st)"
proof -
  have runs: "fst (builder_set_view demo_builder 0 demo_view demo_heap) = Inr ()"
    "0 \<notin> set (sh_slices (bd_shard (fst (snd (builder_set_view demo_builder 0 demo_view demo_heap)))))"
    "mem_read (snd (snd (builder_set_view demo_builder 0 demo_view demo_heap))) (At 0 0) 2 = Some [104, 105]"
    by code_simp+
  obtain b h where f: "builder_set_view demo_builder 0 demo_view demo_heap = (Inr (), b, h)"
    using runs(1) by (metis prod.collapse)
  have b: "builder_holds b h [Str [104, 105] CETYPE_EXT_UTF8, NA]"
    using builder_set_view_sets [OF demo_builder_holds demo_view_content demo_view_foreign, of 0] f
    by (simp add: builder_sets_def)
  have "can_alloc h = can_alloc demo_heap"
    using f by (auto simp: builder_set_view_def builder_set_can_alloc builder_set_na_can_alloc split: if_splits)
  then have "can_alloc h n m" for n m by (simp add: demo_heap_def)
  moreover obtain st b' where "builder_release_store b = (st, b')" by fastforce
  moreover from this have "set (st_slices st) = shard_owned (bd_shard b)" using builder_release_ok [OF b] by blast
  ultimately show ?thesis using builder_release_private [OF b] that runs(2,3) f by (simp add: shard_owned_def)
qed

text \<open>C3. \<open>store_assign\<close> in a store whose strings share no byte: an index past the end is an
  error that changes nothing; otherwise the store then holds the same elements with the \<open>i\<close>-th
  one replaced, whether its bytes went over the old string's or into a new slice, also when the
  new string lies in the store itself; its strings still share no byte, and no memory but its
  slices and newly allocated ones changed. It fails only when an allocation is refused, and then nothing
  changed.\<close>

theorem store_assign_functional:
  assumes "store_private st h es" and "view_content h v = Some e"
    and "strview_is_na v \<longrightarrow> sv_enc v = CETYPE_EXT_NA"
  shows "case store_assign st i v h of
      (Inl f, st', h') \<Rightarrow> st' = st \<and> blocks h' = blocks h \<and>
        (if length es \<le> i then f = Runtime_error ''charvec store assignment out of bounds''
         else f = Bad_alloc \<and> (\<exists>n m. \<not> can_alloc h n m))
    | (Inr u, st', h') \<Rightarrow> i < length es \<and> store_private st' h' (es[i := e]) \<and>
        takes_only (set (st_slices st)) (set (st_slices st')) h h'"
proof (cases "i < length es")
  case True
  from store_assign_spec [OF assms(1) True assms(2,3)] show ?thesis
    using True by (auto simp: assigned_def split: sum.splits prod.splits)
next
  case False
  have n: "length es = vector_length (st_records st)"
    using assms(1) store_holds_size by (auto simp: store_private_def store_size_def)
  have "unat (record_bytes v) \<le> 2147483647"
    using assms(2) by (cases e) (auto simp: view_content_NA view_content_Str record_bytes_def unat_scast_nonneg)
  then have "store_reserve st i (record_bytes v) (sv_enc v) h =
      (Inl (Runtime_error ''charvec store assignment out of bounds''), st, h)"
    using False n by (simp add: store_reserve_def checked_string_size_cases)
  then show ?thesis using False by (simp add: store_assign_def Let_def)
qed

theorem store_assign_functional_witness:
  "\<exists>st h st' h'. store_assign st 1 demo_view h = (Inr (), st', h') \<and>
     store_private st' h' [Str [104, 105] CETYPE_EXT_UTF8, Str [104, 105] CETYPE_EXT_UTF8]"
proof -
  obtain st h where st: "store_private st h [Str [104, 105] CETYPE_EXT_UTF8, NA]"
    "\<And>n m. can_alloc h n m" "mem_read h (At 0 0) 2 = Some [104, 105]" by (rule demo_private_store) blast
  have v: "view_content h demo_view = Some (Str [104, 105] CETYPE_EXT_UTF8)"
    "strview_is_na demo_view \<longrightarrow> sv_enc demo_view = CETYPE_EXT_NA"
    using st(3) by (simp_all add: view_content_Str demo_view_def strview_is_na_def cetype_defs)
  obtain r st' h' where r: "store_assign st 1 demo_view h = (r, st', h')" by (metis prod_cases3)
  from store_assign_functional [OF st(1) v, of 1, unfolded r] st(2)
  have "r = Inr ()" "store_private st' h' [Str [104, 105] CETYPE_EXT_UTF8, Str [104, 105] CETYPE_EXT_UTF8]"
    by (auto split: sum.splits)
  with r show ?thesis by blast
qed

text \<open>Two records at the same bytes, for the witnesses of other theories.\<close>

definition shared_heap :: heap where
  "shared_heap = \<lparr>blocks = [0 \<mapsto> [104, 105], 1 \<mapsto> [121, 111]], next_blk = 2, attempts = 0,
     can_alloc = (\<lambda>i n. True), junk = (\<lambda>b i. 0)\<rparr>"

definition shared_store :: store where
  "shared_store = \<lparr>st_slices = [0], st_records =
     \<lparr>rt_ptrs = [Some (At 0 0), Some (At 0 0)], rt_lens = [Some 2, Some 2],
      rt_encs = [Some CETYPE_EXT_UTF8, Some CETYPE_EXT_UTF8], vector_length = 2, capacity = 2\<rparr>\<rparr>"

lemma memmove_can_alloc: "memmove h p q n = (r, h') \<Longrightarrow> can_alloc h' = can_alloc h"
  by (cases p) (auto simp: memmove_def split: option.splits if_splits)

lemma store_assign_can_alloc: "store_assign st i v h = (r, st', h') \<Longrightarrow> can_alloc h' = can_alloc h"
  by (auto simp: store_assign_def store_reserve_def Let_def dest!: memmove_can_alloc slice_push_front_can_alloc
      split: sum.splits prod.splits if_splits)

end
