(* ===== verification/Cp_Moves.thy ===== *)
theory Cp_Moves
  imports Cp_Assign
begin

text \<open>
  Moves and copies of the members of a store (\<open>inst/include/charport/charvec/store.h\<close>): constructors
  and assignments of \<open>SliceChain\<close> and \<open>RecordTable\<close>, and those of \<open>Store\<close>, which the compiler makes of
  them. An operation returns the object it makes or assigns and what it leaves in the other; an
  assignment of an object to itself is \<open>self\<close>.
\<close>

section \<open>The operations\<close>

definition slices_move :: "blk list \<Rightarrow> blk list \<times> blk list" where
  "slices_move other = (other, [])"

definition slices_move_assign :: "bool \<Rightarrow> blk list \<Rightarrow> blk list \<Rightarrow> heap \<Rightarrow> blk list \<times> blk list \<times> heap" where
  "slices_move_assign self this other h =
     (if self then (this, other, h)
      else (case slice_clear this h of (cleared, h1) \<Rightarrow> (other, [], h1)))"

text \<open>The arrays of a table are unique pointers, null after a move; the sizes are reset.\<close>

definition rt_move :: "record_table \<Rightarrow> record_table \<times> record_table" where
  "rt_move other = (other, rt_empty)"

definition rt_move_assign :: "bool \<Rightarrow> record_table \<Rightarrow> record_table \<Rightarrow> record_table \<times> record_table" where
  "rt_move_assign self this other = (if self then (this, other) else (other, rt_empty))"

text \<open>Copy and move: a copy that throws leaves the assigned table alone.\<close>

definition rt_copy_assign :: "record_table \<Rightarrow> record_table \<Rightarrow> heap \<Rightarrow> (fault + unit) \<times> record_table \<times> heap" where
  "rt_copy_assign this other h =
     (case rt_copy other h of
        (Inl e, h1) \<Rightarrow> (Inl e, this, h1)
      | (Inr tmp, h1) \<Rightarrow> (case rt_move_assign False this tmp of (this', tmp') \<Rightarrow> (Inr (), this', h1)))"

definition store_move :: "store \<Rightarrow> store \<times> store" where
  "store_move other =
     (case slices_move (st_slices other) of (ss, ss') \<Rightarrow>
      (case rt_move (st_records other) of (t, t') \<Rightarrow>
        (\<lparr>st_slices = ss, st_records = t\<rparr>, \<lparr>st_slices = ss', st_records = t'\<rparr>)))"

definition store_move_assign :: "bool \<Rightarrow> store \<Rightarrow> store \<Rightarrow> heap \<Rightarrow> store \<times> store \<times> heap" where
  "store_move_assign self this other h =
     (case slices_move_assign self (st_slices this) (st_slices other) h of (ss, ss', h1) \<Rightarrow>
      (case rt_move_assign self (st_records this) (st_records other) of (t, t') \<Rightarrow>
        (\<lparr>st_slices = ss, st_records = t\<rparr>, \<lparr>st_slices = ss', st_records = t'\<rparr>, h1)))"

section \<open>What they do\<close>

lemma store_move_ok: "store_move other = (other, store_empty)"
  by (simp add: store_move_def slices_move_def rt_move_def store_empty_def)

lemma store_move_assign_self: "store_move_assign True this this h = (this, this, h)"
  by (simp add: store_move_assign_def slices_move_assign_def rt_move_assign_def)

text \<open>
  An assignment of another store frees the slices it had, hands over the contents with their
  slices, and leaves the other store empty; no other byte changes.
\<close>

lemma store_move_assign_ok:
  assumes "store_holds other h es" and "set (st_slices this) \<inter> set (st_slices other) = {}"
    and a: "store_move_assign False this other h = (this', other', h')"
  shows "this' = other \<and> other' = store_empty \<and> store_holds this' h' es \<and>
    blocks h' = (\<lambda>b. if b \<in> set (st_slices this) then None else blocks h b)"
proof -
  have eqs: "this' = other" "other' = store_empty" "h' = store_free this h"
    using a by (auto simp: store_move_assign_def slices_move_assign_def rt_move_assign_def store_empty_def store_free_def
        split: prod.splits)
  have bl: "blocks h' = (\<lambda>b. if b \<in> set (st_slices this) then None else blocks h b)"
    by (simp add: eqs store_free_def slice_clear_blocks fun_eq_iff)
  have "next_blk h' = next_blk h" by (simp add: eqs store_free_def slice_clear_blocks)
  then have "heap_ok h'" using assms(1) bl by (simp add: store_holds_def heap_ok_def)
  then have "store_holds other h' es"
    by (rule store_holds_frame [OF assms(1)]) (use assms(2) bl in auto)
  then show ?thesis using eqs bl by simp
qed

text \<open>A failed copy assignment changes nothing, and a copy holds what its source holds.\<close>

lemma rt_copy_assign_fails:
  assumes "rt_copy_assign this other h = (Inl e, this', h')"
  shows "this' = this"
  using assms by (auto simp: rt_copy_assign_def rt_move_assign_def split: prod.splits sum.splits)

end
