(* ===== verification/Cp_Writer.thy ===== *)
theory Cp_Writer
  imports Cp_Builder
begin

text \<open>
  \<open>Writer\<close> of \<open>inst/include/charport/charvec/writer.h\<close>: filling a store in place. Slices go
  straight into the store, so the store is a valid vector after every call, failing ones
  included. The slice cursor is the third implementation of \<open>region_allocator\<close>.
\<close>

section \<open>Operations\<close>

record writer =
  wr_initial :: size_t
  wr_slice :: ptr
  wr_left :: size_t
  wr_used :: size_t

definition writer_new :: "store \<Rightarrow> writer" where
  "writer_new st =
     \<lparr>wr_initial = initial_slice_heuristic (of_nat (store_size st)), wr_slice = Null,
      wr_left = 0, wr_used = 0\<rparr>"

text \<open>The size of a new slice of \<open>reserve\<close>.\<close>

definition writer_slice_bytes :: "writer \<Rightarrow> size_t \<Rightarrow> size_t" where
  "writer_slice_bytes w l =
     (let regular = min (round_up (max (wr_initial w) (wr_used w div 2)) slice_alignment) max_slice_bytes
      in round_up (max regular l) slice_alignment)"

text \<open>\<open>reserve\<close> behind its two tests, on the store's slices.\<close>

definition writer_room ::
    "(blk list \<times> writer) \<Rightarrow> heap \<Rightarrow> size_t \<Rightarrow> (fault + ptr) \<times> (blk list \<times> writer) \<times> heap" where
  "writer_room sw h l =
     (case sw of (ss, w) \<Rightarrow>
        (case (if wr_left w < l
               then (case slice_push_front (writer_slice_bytes w l) ss h of
                       (Inl e, ss', h') \<Rightarrow> (Inl e, ss', w, h')
                     | (Inr p, ss', h') \<Rightarrow>
                         (Inr (), ss', w\<lparr>wr_slice := p, wr_left := writer_slice_bytes w l\<rparr>, h'))
               else (Inr (), ss, w, h)) of
           (Inl e, ss', w', h') \<Rightarrow> (Inl e, (ss', w'), h')
         | (Inr u, ss', w', h') \<Rightarrow>
             (Inr (wr_slice w'),
              (ss', w'\<lparr>wr_slice := ptr_add (wr_slice w') (unat l), wr_left := wr_left w' - l,
                        wr_used := wr_used w' + l\<rparr>),
              h')))"

definition writer_reserve ::
    "writer \<Rightarrow> store \<Rightarrow> size_t \<Rightarrow> heap \<Rightarrow> (fault + ptr) \<times> writer \<times> store \<times> heap" where
  "writer_reserve w st l h =
     (if l = 0 then (Inr empty_data, w, st, h)
      else
        (case checked_string_size l ''stored string length'' of
           Inl e \<Rightarrow> (Inl e, w, st, h)
         | Inr n \<Rightarrow>
             (case writer_room (st_slices st, w) h l of
                (r, (ss, w'), h') \<Rightarrow> (r, w', st\<lparr>st_slices := ss\<rparr>, h'))))"

definition writer_check_index :: "store \<Rightarrow> size_t \<Rightarrow> fault + unit" where
  "writer_check_index st i =
     (if of_nat (store_size st) \<le> i then Inl (Out_of_range ''charvec Writer: index out of bounds'')
      else Inr ())"

definition writer_put :: "store \<Rightarrow> fault + record_table \<Rightarrow> (fault + unit) \<times> store" where
  "writer_put st r = (case r of Inl e \<Rightarrow> (Inl e, st) | Inr t \<Rightarrow> (Inr (), st\<lparr>st_records := t\<rparr>))"

definition writer_set_na :: "store \<Rightarrow> size_t \<Rightarrow> (fault + unit) \<times> store" where
  "writer_set_na st i =
     (case writer_check_index st i of
        Inl e \<Rightarrow> (Inl e, st)
      | Inr u \<Rightarrow> writer_put st (rt_set_na (st_records st) (unat i)))"

definition writer_set :: "store \<Rightarrow> size_t \<Rightarrow> ptr \<Rightarrow> size_t \<Rightarrow> cetype_ext_t \<Rightarrow> (fault + unit) \<times> store" where
  "writer_set st i p l c =
     (case writer_check_index st i of
        Inl e \<Rightarrow> (Inl e, st)
      | Inr u \<Rightarrow>
          if p = Null \<or> c = CETYPE_EXT_NA then writer_put st (rt_set_na (st_records st) (unat i))
          else
            (case checked_string_size l ''stored string length'' of
               Inl e \<Rightarrow> (Inl e, st)
             | Inr n \<Rightarrow>
                 writer_put st (rt_set (st_records st) (unat i) (if n = 0 then empty_data else p) n c)))"

definition writer_set_empty :: "store \<Rightarrow> size_t \<Rightarrow> cetype_ext_t \<Rightarrow> (fault + unit) \<times> store" where
  "writer_set_empty st i c = writer_set st i empty_data 0 c"

definition writer_copy ::
    "writer \<Rightarrow> store \<Rightarrow> size_t \<Rightarrow> ptr \<Rightarrow> size_t \<Rightarrow> cetype_ext_t \<Rightarrow> heap
     \<Rightarrow> (fault + unit) \<times> writer \<times> store \<times> heap" where
  "writer_copy w st i src l c h =
     (case writer_check_index st i of
        Inl e \<Rightarrow> (Inl e, w, st, h)
      | Inr u \<Rightarrow>
          if src = Null \<or> c = CETYPE_EXT_NA
          then (case writer_put st (rt_set_na (st_records st) (unat i)) of (r, st') \<Rightarrow> (r, w, st', h))
          else
            (case writer_reserve w st l h of
               (Inl e, w', st', h') \<Rightarrow> (Inl e, w', st', h')
             | (Inr dest, w', st', h') \<Rightarrow>
                 (case (if 0 < l then memcpy h' dest src (unat l) else (Inr (), h')) of
                    (Inl e, h'') \<Rightarrow> (Inl e, w', st', h'')
                  | (Inr u, h'') \<Rightarrow>
                      (case writer_set st' i dest l c of (r, st'') \<Rightarrow> (r, w', st'', h'')))))"

section \<open>The cursor is a region allocator\<close>

definition writer_inv :: "(blk list \<times> writer) \<Rightarrow> heap \<Rightarrow> bool" where
  "writer_inv sw h \<longleftrightarrow>
     (case sw of (ss, w) \<Rightarrow>
        heap_ok h \<and> distinct ss \<and> (\<forall>b \<in> set ss. blocks h b \<noteq> None) \<and>
        (wr_left w = 0 \<or>
         (\<exists>b off bs. wr_slice w = At b off \<and> b \<in> set ss \<and> blocks h b = Some bs \<and>
            off + unat (wr_left w) \<le> length bs)))"

definition writer_owned :: "(blk list \<times> writer) \<Rightarrow> blk set" where
  "writer_owned sw = set (fst sw)"

text \<open>All room in the slices but what is left at the cursor.\<close>

definition writer_held :: "(blk list \<times> writer) \<Rightarrow> heap \<Rightarrow> ptr \<Rightarrow> nat \<Rightarrow> bool" where
  "writer_held sw h q m \<longleftrightarrow>
     (\<exists>b off bs. q = At b off \<and> b \<in> set (fst sw) \<and> blocks h b = Some bs \<and> off + m \<le> length bs \<and>
        disjoint q m (wr_slice (snd sw)) (unat (wr_left (snd sw))))"

lemma writer_slice_bytes_bounds:
  assumes "unat l \<le> 2147483647"
  shows "unat l \<le> unat (writer_slice_bytes w l)"
    and "unat (writer_slice_bytes w l) < 2147483648 + 64"
  using next_slice_size_bounds(1,2) [OF assms, of "wr_initial w" "wr_used w"]
  by (simp_all add: writer_slice_bytes_def next_slice_size_def)

lemma writer_room_cases:
  assumes inv: "writer_inv (ss, w) h" and l: "0 < unat l" "unat l \<le> 2147483647"
    and a: "writer_room (ss, w) h l = (Inr p, (ss', w'), h')"
  obtains
    (current) b off bs where "ss' = ss" "h' = h" "p = At b off" "wr_slice w = At b off" "b \<in> set ss"
      "blocks h b = Some bs" "off + unat (wr_left w) \<le> length bs" "wr_slice w' = At b (off + unat l)"
      "unat (wr_left w') + unat l = unat (wr_left w)"
  | (new) b bs where "ss' = b # ss" "p = At b 0" "blocks h b = None" "blocks h' = (blocks h)(b \<mapsto> bs)"
      "heap_ok h'" "wr_slice w' = At b (unat l)" "unat l + unat (wr_left w') = length bs"
proof (cases "wr_left w < l")
  case True
  obtain h1 q ss1 where pf: "slice_push_front (writer_slice_bytes w l) ss h = (Inr q, ss1, h1)"
    using a True by (auto simp: writer_room_def split: prod.splits sum.splits)
  have ok: "heap_ok h" using inv by (simp add: writer_inv_def)
  from slice_push_front_ok [OF pf ok] obtain b bs where b: "q = At b 0" "ss1 = b # ss" "blocks h b = None"
    "length bs = unat (writer_slice_bytes w l)" "blocks h1 = (blocks h)(b \<mapsto> bs)" "heap_ok h1" by blast
  have "l \<le> writer_slice_bytes w l"
    using writer_slice_bytes_bounds(1) [OF l(2)] by (simp add: word_le_nat_alt)
  then have "unat l + unat (writer_slice_bytes w l - l) = length bs"
    by (simp add: unat_sub b(4) word_le_nat_alt)
  with a True pf b show ?thesis by (intro new [of b bs]) (auto simp: writer_room_def)
next
  case False
  then have le: "l \<le> wr_left w" by simp
  have "wr_left w \<noteq> 0" using le l(1) by (auto simp: word_le_nat_alt)
  with inv obtain b off bs where "wr_slice w = At b off" "b \<in> set ss" "blocks h b = Some bs"
    "off + unat (wr_left w) \<le> length bs" by (auto simp: writer_inv_def)
  moreover have "unat (wr_left w - l) + unat l = unat (wr_left w)"
    using le by (simp add: unat_sub word_le_nat_alt)
  ultimately show ?thesis using a False by (intro current) (auto simp: writer_room_def)
qed

lemma writer_room_fail:
  assumes "writer_room (ss, w) h l = (Inl e, (ss', w'), h')"
  shows "e = Bad_alloc \<and> ss' = ss \<and> w' = w \<and> blocks h' = blocks h \<and> next_blk h' = next_blk h"
  using assms by (auto simp: writer_room_def dest: slice_push_front_fail split: if_splits prod.splits sum.splits)

lemma writer_room_oom:
  assumes "writer_room (ss, w) h l = (Inl e, (ss', w'), h')" and l: "unat l \<le> 2147483647"
  shows "\<exists>n m. \<not> can_alloc h n m"
proof -
  obtain ss1 h1 where p: "slice_push_front (writer_slice_bytes w l) ss h = (Inl e, ss1, h1)"
    using assms(1) by (auto simp: writer_room_def split: if_splits prod.splits sum.splits)
  have "writer_slice_bytes w l \<le> SIZE_MAX - 8"
    using writer_slice_bytes_bounds(2) [OF l, of w] by (simp add: word_le_nat_alt)
  with p show ?thesis by (rule slice_push_front_oom)
qed

lemma writer_held_live:
  "writer_held sw h q m \<Longrightarrow>
     \<exists>b off bs. q = At b off \<and> b \<in> writer_owned sw \<and> blocks h b = Some bs \<and> off + m \<le> length bs"
  by (auto simp: writer_held_def writer_owned_def)

lemma writer_inv_shape: "writer_inv sw h \<Longrightarrow> same_shape h h' \<Longrightarrow> writer_inv sw h'"
proof (cases sw)
  case (Pair ss w)
  assume inv: "writer_inv sw h" and sh: "same_shape h h'"
  have live: "blocks h' b \<noteq> None" if "b \<in> set ss" for b
    using inv that same_shape_length [OF sh] by (fastforce simp: writer_inv_def Pair)
  have "heap_ok h'" using inv same_shape_heap_ok [OF sh] by (simp add: writer_inv_def Pair)
  moreover have "wr_left w = 0 \<or> (\<exists>b off bs. wr_slice w = At b off \<and> b \<in> set ss \<and> blocks h' b = Some bs \<and>
      off + unat (wr_left w) \<le> length bs)"
  proof (cases "wr_left w = 0")
    case False
    with inv obtain b off bs where "wr_slice w = At b off" "b \<in> set ss" "blocks h b = Some bs"
      "off + unat (wr_left w) \<le> length bs" by (auto simp: writer_inv_def Pair)
    with same_shape_length [OF sh] show ?thesis by metis
  qed simp
  ultimately show "writer_inv sw h'" using inv live by (simp add: writer_inv_def Pair)
qed

lemma writer_held_shape: "writer_held sw h q m \<Longrightarrow> same_shape h h' \<Longrightarrow> writer_held sw h' q m"
  unfolding writer_held_def using same_shape_length by fastforce

lemma writer_alloc_ok:
  assumes inv: "writer_inv (ss, w) h" and l: "0 < unat l" "unat l \<le> 2147483647"
    and a: "writer_room (ss, w) h l = (Inr p, (ss', w'), h')"
  shows "writer_inv (ss', w') h' \<and> writer_held (ss', w') h' p (unat l) \<and> keeps_live h h' \<and>
    (\<forall>b. ptr_blk p = Some b \<longrightarrow> b \<in> set ss \<or> blocks h b = None) \<and>
    set ss \<subseteq> set ss' \<and> (\<forall>b \<in> set ss'. b \<in> set ss \<or> blocks h b = None)"
  using inv l a
proof (cases rule: writer_room_cases)
  case (current b off bs)
  with inv show ?thesis by (auto simp: writer_inv_def writer_held_def)
next
  case (new b bs)
  with inv have "b \<notin> set ss" by (auto simp: writer_inv_def)
  with new inv show ?thesis by (auto simp: writer_inv_def writer_held_def keeps_live_def)
qed

lemma writer_alloc_held:
  assumes inv: "writer_inv (ss, w) h" and l: "0 < unat l" "unat l \<le> 2147483647"
    and a: "writer_room (ss, w) h l = (Inr p, (ss', w'), h')" and held: "writer_held (ss, w) h q m"
  shows "writer_held (ss', w') h' q m \<and> disjoint p (unat l) q m"
  using inv l a
proof (cases rule: writer_room_cases)
  case (current b off bs)
  from held obtain c o2 cs where q: "q = At c o2" "c \<in> set ss" "blocks h c = Some cs" "o2 + m \<le> length cs"
    "disjoint q m (wr_slice w) (unat (wr_left w))" by (auto simp: writer_held_def)
  with current show ?thesis by (auto simp: writer_held_def)
next
  case (new b bs)
  with inv have b: "b \<notin> set ss" by (auto simp: writer_inv_def)
  from held obtain c o2 cs where q: "q = At c o2" "c \<in> set ss" "blocks h c = Some cs" "o2 + m \<le> length cs"
    by (auto simp: writer_held_def)
  with b have "c \<noteq> b" by blast
  with q new show ?thesis by (auto simp: writer_held_def)
qed

interpretation wr: region_allocator writer_room writer_inv writer_owned writer_held
proof
  fix sw h and n :: size_t and p sw' h'
  assume i: "writer_inv sw h" and n: "0 < unat n" "unat n \<le> 2147483647"
    and a: "writer_room sw h n = (Inr p, sw', h')"
  obtain ss w ss' w' where sw: "sw = (ss, w)" "sw' = (ss', w')" by fastforce
  show "writer_inv sw' h' \<and> writer_held sw' h' p (unat n) \<and> keeps_live h h' \<and>
    (\<forall>b. ptr_blk p = Some b \<longrightarrow> b \<in> writer_owned sw \<or> blocks h b = None) \<and>
    writer_owned sw \<subseteq> writer_owned sw' \<and> (\<forall>b \<in> writer_owned sw'. b \<in> writer_owned sw \<or> blocks h b = None)"
    using writer_alloc_ok [OF i [unfolded sw] n a [unfolded sw]] by (simp add: sw writer_owned_def)
  show "writer_held sw' h' q m \<and> disjoint p (unat n) q m" if "writer_held sw h q m" for q m
    using writer_alloc_held [OF i [unfolded sw] n a [unfolded sw] that [unfolded sw]] by (simp add: sw)
next
  fix sw h and n :: size_t and e sw' h'
  assume "writer_room sw h n = (Inl e, sw', h')"
  then show "e \<noteq> Undefined \<and> sw' = sw \<and> same_shape h h' \<and> blocks h' = blocks h"
    by (cases sw; cases sw') (auto simp: same_shape_def dest!: writer_room_fail)
next
  show "\<exists>b off bs. q = At b off \<and> b \<in> writer_owned sw \<and> blocks h b = Some bs \<and> off + m \<le> length bs"
    if "writer_held sw h q m" for sw h q m
    using that by (rule writer_held_live)
  show "writer_inv sw h' \<and> (\<forall>q m. writer_held sw h q m \<longrightarrow> writer_held sw h' q m)"
    if "writer_inv sw h" "same_shape h h'" for sw h h'
    using that writer_inv_shape writer_held_shape by blast
qed

section \<open>The contract\<close>

definition writer_holds :: "writer \<Rightarrow> store \<Rightarrow> heap \<Rightarrow> element list \<Rightarrow> bool" where
  "writer_holds w st h es \<longleftrightarrow>
     rt_ok (st_records st) \<and> wr.good (st_slices st, w) h (rt_views (st_records st)) es"

lemma writer_holds_length: "writer_holds w st h es \<Longrightarrow> length es = store_size st"
  by (auto simp: writer_holds_def wr.good_def store_size_def dest: list_all2_lengthD)

text \<open>The store is a valid vector all along.\<close>

lemma writer_holds_store:
  assumes "writer_holds w st h es"
  shows "store_holds st h es"
proof -
  have g: "wr.good (st_slices st, w) h (rt_views (st_records st)) es" and ok: "rt_ok (st_records st)"
    using assms by (simp_all add: writer_holds_def)
  note inv = wr.good_inv [OF g]
  have "rec_in (set (st_slices st)) v" if "wr.rec_held (st_slices st, w) h v" for v
  proof -
    consider "v = na_record \<or> sv_len v = 0 \<and> sv_ptr v = Empty"
      | "writer_held (st_slices st, w) h (sv_ptr v) (unat (sv_len v))" "sv_len v \<noteq> 0" "\<not> strview_is_na v"
      using \<open>wr.rec_held (st_slices st, w) h v\<close> by (auto simp: wr.rec_held_def)
    then show ?thesis
    proof cases
      case 1
      then show ?thesis by (auto simp: rec_in_def)
    next
      case 2
      from writer_held_live [OF 2(1)] 2(2,3) show ?thesis by (auto simp: rec_in_def writer_owned_def)
    qed
  qed
  then have "list_all2 (\<lambda>v e. view_content h v = Some e \<and> rec_in (set (st_slices st)) v)
      (rt_views (st_records st)) es"
    using g by (auto simp: wr.good_def elim!: list_all2_mono)
  with inv ok show ?thesis by (simp add: store_holds_def writer_inv_def)
qed

text \<open>A fresh writer may fill any store.\<close>

lemma writer_new_holds:
  assumes st: "store_holds st h es"
  shows "writer_holds (writer_new st) st h es"
proof -
  have "wr.rec_held (st_slices st, writer_new st) h v"
    if v: "view_content h v = Some e" "rec_in (set (st_slices st)) v" for v e
  proof (cases "v = na_record \<or> sv_len v = 0 \<and> sv_ptr v = Empty")
    case True
    then show ?thesis by (auto simp: wr.rec_held_def)
  next
    case False
    with v(2) obtain b off where b: "b \<in> set (st_slices st)" "sv_ptr v = At b off" "sv_len v \<noteq> 0"
      and na: "\<not> strview_is_na v"
      by (cases "sv_ptr v") (auto simp: rec_in_def)
    obtain bs where "blocks h b = Some bs" "off + unat (sv_len v) \<le> length bs"
      using v(1) False b(2) na by (cases e) (auto simp: view_content_NA view_content_Str split: option.splits if_splits)
    with b na show ?thesis by (simp add: wr.rec_held_def writer_held_def writer_new_def)
  qed
  then have "list_all2 (\<lambda>v e. view_content h v = Some e \<and> wr.rec_held (st_slices st, writer_new st) h v)
      (rt_views (st_records st)) es"
    using st by (auto simp: store_holds_def elim!: list_all2_mono)
  then show ?thesis
    using st by (simp add: writer_holds_def wr.good_def writer_inv_def store_holds_def writer_new_def)
qed

definition writer_fails :: "writer \<Rightarrow> writer \<Rightarrow> store \<Rightarrow> store \<Rightarrow> heap \<Rightarrow> heap \<Rightarrow> element list \<Rightarrow> fault \<Rightarrow> bool" where
  "writer_fails w w' st st' h h' es e \<longleftrightarrow>
     e \<noteq> Undefined \<and> w' = w \<and> st' = st \<and> blocks h' = blocks h \<and> writer_holds w' st' h' es"

lemma writer_check_index_cases:
  "rt_ok (st_records st) \<Longrightarrow>
     writer_check_index st i =
       (if unat i < store_size st then Inr ()
        else Inl (Out_of_range ''charvec Writer: index out of bounds''))"
  by (simp add: writer_check_index_def store_size_def of_nat_le_size_iff)

lemma writer_put_set:
  assumes "rt_ok (st_records st)" and "unat i < store_size st"
  obtains t where "writer_put st (rt_set (st_records st) (unat i) p l c) = (Inr (), st\<lparr>st_records := t\<rparr>)"
    and "rt_ok t" and "rt_views t = (rt_views (st_records st))[unat i := make_strview p l c]"
proof -
  have i: "unat i < vector_length (st_records st)" using assms(2) by (simp add: store_size_def)
  obtain t where t: "rt_set (st_records st) (unat i) p l c = Inr t" using rt_set_succ [OF assms(1) i] by blast
  from rt_set_views [OF assms(1) i t] t that show ?thesis by (simp add: writer_put_def)
qed

lemma writer_put_update:
  assumes w: "writer_holds w st h es" and i: "unat i < length es"
    and v: "view_content h (make_strview p l c) = Some e" "wr.rec_held (st_slices st, w) h (make_strview p l c)"
  shows "\<exists>st'. writer_put st (rt_set (st_records st) (unat i) p l c) = (Inr (), st') \<and>
    writer_holds w st' h (es[unat i := e])"
proof -
  have g: "wr.good (st_slices st, w) h (rt_views (st_records st)) es" and ok: "rt_ok (st_records st)"
    using w by (simp_all add: writer_holds_def)
  have i': "unat i < store_size st" using i writer_holds_length [OF w] by simp
  obtain t where "writer_put st (rt_set (st_records st) (unat i) p l c) = (Inr (), st\<lparr>st_records := t\<rparr>)"
    "rt_ok t" "rt_views t = (rt_views (st_records st))[unat i := make_strview p l c]"
    using writer_put_set [OF ok i'] by metis
  with wr.good_update [OF g v, of "unat i"] show ?thesis by (simp add: writer_holds_def)
qed

text \<open>\<open>set\<close>: the record is pointed at room from \<open>reserve\<close> (or made NA or empty).\<close>

lemma writer_set_ok:
  assumes w: "writer_holds w st h es"
    and src: "p = Null \<or> c = CETYPE_EXT_NA \<or> l = 0 \<and> ys = [] \<or> 2147483647 < unat l \<or>
      mem_read h p (unat l) = Some ys \<and> writer_held (st_slices st, w) h p (unat l)"
  shows "case writer_set st i p l c of
      (Inl e, st') \<Rightarrow> st' = st \<and> (length es \<le> unat i \<and> (\<exists>m. e = Out_of_range m) \<or>
        unat i < length es \<and> 2147483647 < unat l \<and> (\<exists>m. e = Runtime_error m))
    | (Inr u, st') \<Rightarrow> unat i < length es \<and> st_slices st' = st_slices st \<and>
        writer_holds w st' h (es[unat i := (if p = Null then NA else element_of c ys)])"
proof -
  have ok: "rt_ok (st_records st)" using w by (simp add: writer_holds_def)
  note len = writer_holds_length [OF w]
  have chk: "writer_check_index st i = (if unat i < length es then Inr ()
      else Inl (Out_of_range ''charvec Writer: index out of bounds''))"
    using writer_check_index_cases [OF ok] len by simp
  note def = writer_set_def chk checked_string_size_cases
  have keep: "st_slices st' = st_slices st" if "writer_put st r = (q, st')" for r q st'
    using that by (auto simp: writer_put_def split: sum.splits)
  show ?thesis
  proof (cases "unat i < length es")
    case False
    then show ?thesis using len by (simp add: def not_less)
  next
    case i: True
    consider "p = Null \<or> c = CETYPE_EXT_NA"
      | "p \<noteq> Null" "c \<noteq> CETYPE_EXT_NA" "2147483647 < unat l"
      | "p \<noteq> Null" "c \<noteq> CETYPE_EXT_NA" "l = 0"
      | "p \<noteq> Null" "c \<noteq> CETYPE_EXT_NA" "0 < unat l" "unat l \<le> 2147483647"
      by (metis not_le not_less unat_gt_0)
    then show ?thesis
    proof cases
      case 1
      have "view_content h (make_strview Null NA_INTEGER CETYPE_EXT_NA) = Some NA"
        "wr.rec_held (st_slices st, w) h (make_strview Null NA_INTEGER CETYPE_EXT_NA)"
        using wr.good_na by (simp_all add: na_record_def)
      from writer_put_update [OF w i this] obtain st'
        where st': "writer_put st (rt_set_na (st_records st) (unat i)) = (Inr (), st')"
          "writer_holds w st' h (es[unat i := NA])" by (auto simp: rt_set_na_def)
      have "(if p = Null then NA else element_of c ys) = NA" using 1 by auto
      with st' keep [OF st'(1)] 1 i len show ?thesis by (simp add: def)
    next
      case 2
      with i len show ?thesis by (simp add: def)
    next
      case 3
      then have ys: "ys = []" using src by (auto dest: length_mem_read)
      have "view_content h (make_strview Empty 0 c) = Some (Str [] c)"
        "wr.rec_held (st_slices st, w) h (make_strview Empty 0 c)"
        using wr.good_empty(1) [OF 3(2)] wr.good_empty(2) [where c = c]
        by (simp_all add: empty_record_def empty_data_def)
      from writer_put_update [OF w i this] obtain st'
        where st': "writer_put st (rt_set (st_records st) (unat i) Empty 0 c) = (Inr (), st')"
          "writer_holds w st' h (es[unat i := Str [] c])" by auto
      with keep [OF st'(1)] 3 i len ys show ?thesis by (simp add: def empty_data_def element_of_Str)
    next
      case 4
      then have l0: "l \<noteq> 0" by auto
      with src 4 have r: "mem_read h p (unat l) = Some ys" "writer_held (st_slices st, w) h p (unat l)"
        by auto
      note ul = unat_ucast_len [OF 4(4)]
      have n0: "(ucast l :: c_int) \<noteq> 0" using ucast_len_0_iff [OF 4(4)] l0 by simp
      have "(ucast l :: c_int) \<noteq> NA_INTEGER" using ul 4(4) by auto
      with r 4 ul have "view_content h (make_strview p (ucast l) c) = Some (Str ys c)"
        by (simp add: view_content_Str strview_is_na_def)
      moreover have "wr.rec_held (st_slices st, w) h (make_strview p (ucast l) c)"
        using r(2) n0 ul calculation by (simp add: wr.rec_held_def view_content_Str)
      ultimately obtain st'
        where st': "writer_put st (rt_set (st_records st) (unat i) p (ucast l) c) = (Inr (), st')"
          "writer_holds w st' h (es[unat i := Str ys c])"
        using writer_put_update [OF w i] by blast
      with keep [OF st'(1)] 4 i len n0 show ?thesis by (simp add: def element_of_Str)
    qed
  qed
qed

lemma writer_reserve_ok:
  assumes w: "writer_holds w st h es" and f: "writer_reserve w st l h = (r, w', st', h')"
  shows "case r of
      Inl e \<Rightarrow> writer_fails w w' st st' h h' es e \<and>
        (unat l \<le> 2147483647 \<longrightarrow> (\<exists>n m. \<not> can_alloc h n m))
    | Inr p \<Rightarrow> unat l \<le> 2147483647 \<and> st_records st' = st_records st \<and> writer_holds w' st' h' es \<and>
        keeps_live h h' \<and> set (st_slices st) \<subseteq> set (st_slices st') \<and>
        (l = 0 \<and> p = Empty \<or> l \<noteq> 0 \<and> writer_held (st_slices st', w') h' p (unat l))"
proof -
  have g: "wr.good (st_slices st, w) h (rt_views (st_records st)) es" and ok: "rt_ok (st_records st)"
    using w by (simp_all add: writer_holds_def)
  consider "l = 0" | "l \<noteq> 0" "2147483647 < unat l" | "l \<noteq> 0" "unat l \<le> 2147483647" by linarith
  then show ?thesis
  proof cases
    case 1
    with f w show ?thesis by (auto simp: writer_reserve_def empty_data_def)
  next
    case 2
    with f w show ?thesis by (auto simp: writer_reserve_def checked_string_size_cases writer_fails_def)
  next
    case 3
    have pos: "0 < unat l" using 3(1) by (simp add: unat_gt_0)
    obtain q ss w1 h1 where a: "writer_room (st_slices st, w) h l = (q, (ss, w1), h1)" by (metis prod_cases3 prod.collapse)
    with f 3 have e: "r = q" "w' = w1" "st' = st\<lparr>st_slices := ss\<rparr>" "h' = h1"
      by (auto simp: writer_reserve_def checked_string_size_cases)
    show ?thesis
    proof (cases q)
      case (Inl x)
      note bad = wr.good_alloc_fail [OF g pos 3(2) a [unfolded Inl]]
      from writer_room_oom [OF a [unfolded Inl] 3(2)] bad Inl e ok show ?thesis
        by (auto simp: writer_fails_def writer_holds_def)
    next
      case (Inr p)
      note al = wr.alloc_ok [OF wr.good_inv [OF g] pos 3(2) a [unfolded Inr]]
      obtain c :: cetype_ext_t where c: "c \<noteq> CETYPE_EXT_NA" using that [of CETYPE_EXT_UTF8] by (simp add: cetype_defs)
      from wr.good_alloc_reserve [OF g pos 3(2) a [unfolded Inr] c] al Inr e ok 3 show ?thesis
        by (auto simp: writer_holds_def writer_owned_def)
    qed
  qed
qed

text \<open>\<open>reserve\<close>, bytes written by the caller, \<open>set\<close>.\<close>

lemma writer_reserve_write_set:
  assumes w: "writer_holds w st h es" and f: "writer_reserve w st l h = (Inr p, w', st', h')"
    and c: "c \<noteq> CETYPE_EXT_NA" and ys: "length ys = unat l" and i: "unat i < length es"
  shows "\<exists>h''. mem_write h' p ys = Some h'' \<and> writer_holds w' st' h'' es \<and>
    (\<exists>st''. writer_set st' i p l c = (Inr (), st'') \<and> writer_holds w' st'' h'' (es[unat i := Str ys c])) \<and>
    (\<forall>b. b \<notin> set (st_slices st) \<longrightarrow> blocks h b \<noteq> None \<longrightarrow> blocks h'' b = blocks h b)"
proof -
  note r = writer_reserve_ok [OF w f, unfolded sum.case]
  have l: "unat l \<le> 2147483647" using r by simp
  show ?thesis
  proof (cases "l = 0")
    case True
    with r ys f have p: "p = Empty" "ys = []" "h' = h" by (auto simp: writer_reserve_def)
    then have m: "mem_write h' p ys = Some h'" by simp
    from r have w': "writer_holds w' st' h' es" by simp
    have "\<exists>st''. writer_set st' i p l c = (Inr (), st'') \<and> writer_holds w' st'' h' (es[unat i := Str ys c])"
      using writer_set_ok [OF w', of p c l ys i] True p c i by (auto simp: element_of_Str split: prod.splits sum.splits)
    with m w' p show ?thesis by auto
  next
    case False
    have pos: "0 < unat l" using False by (simp add: unat_gt_0)
    have g: "wr.good (st_slices st, w) h (rt_views (st_records st)) es"
      using w by (simp add: writer_holds_def)
    obtain ss where a: "writer_room (st_slices st, w) h l = (Inr p, (ss, w'), h')"
      and st': "st' = st\<lparr>st_slices := ss\<rparr>"
      using f False l by (auto simp: writer_reserve_def checked_string_size_cases split: prod.splits)
    obtain b off bs where p: "p = At b off" "blocks h' b = Some bs" "off + unat l \<le> length bs"
      "b \<in> set (st_slices st) \<or> blocks h b = None"
      using wr.alloc_room [OF g pos l a] by (auto simp: writer_owned_def)
    then obtain h'' where m: "mem_write h' p ys = Some h''" using ys by simp
    note gw = wr.good_alloc_write [OF g pos l a c ys m]
    have w'': "writer_holds w' st' h'' es"
      using gw st' w by (simp add: writer_holds_def)
    have "mem_read h'' p (unat l) = Some ys" using mem_write_read_same [OF m [unfolded p(1)]] ys p(1) by simp
    moreover have "writer_held (st_slices st', w') h'' p (unat l)"
      using r False writer_held_shape mem_write_shape [OF m] by blast
    ultimately obtain st'' where "writer_set st' i p l c = (Inr (), st'')"
      "writer_holds w' st'' h'' (es[unat i := Str ys c])"
      using writer_set_ok [OF w'', of p c l ys i] i l c p(1)
      by (auto simp: element_of_Str split: prod.splits sum.splits)
    moreover have "blocks h'' x = blocks h x" if "x \<notin> set (st_slices st)" "blocks h x \<noteq> None" for x
    proof -
      have "ptr_blk p \<noteq> Some x" using that p(1,4) by auto
      with mem_write_frame [OF m] have "blocks h'' x = blocks h' x" by blast
      moreover have "blocks h' x = blocks h x" using r that(2) by (fastforce simp: keeps_live_def)
      ultimately show ?thesis by simp
    qed
    ultimately show ?thesis using m w'' by blast
  qed
qed

lemma writer_copy_ok:
  assumes w: "writer_holds w st h es"
    and src: "src = Null \<or> c = CETYPE_EXT_NA \<or>
      (if l = 0 then ys = [] else mem_read h src (unat l) = Some ys \<and> wr.src_ok (st_slices st, w) h src (unat l))"
  shows "case writer_copy w st i src l c h of
      (Inl e, w', st', h') \<Rightarrow> writer_fails w w' st st' h h' es e \<and>
        (unat i < length es \<longrightarrow> unat l \<le> 2147483647 \<longrightarrow> (\<exists>n m. \<not> can_alloc h n m))
    | (Inr u, w', st', h') \<Rightarrow> unat i < length es \<and>
        writer_holds w' st' h' (es[unat i := (if src = Null then NA else element_of c ys)]) \<and>
        (\<forall>b. b \<notin> set (st_slices st) \<longrightarrow> blocks h b \<noteq> None \<longrightarrow> blocks h' b = blocks h b)"
proof -
  have ok: "rt_ok (st_records st)" using w by (simp add: writer_holds_def)
  have chk: "writer_check_index st i = (if unat i < length es then Inr ()
      else Inl (Out_of_range ''charvec Writer: index out of bounds''))"
    using writer_check_index_cases [OF ok] writer_holds_length [OF w] by simp
  show ?thesis
  proof (cases "unat i < length es")
    case False
    with w show ?thesis by (simp add: writer_copy_def chk writer_fails_def)
  next
    case i: True
    show ?thesis
    proof (cases "src = Null \<or> c = CETYPE_EXT_NA")
      case True
      obtain st' where "writer_put st (rt_set_na (st_records st) (unat i)) = (Inr (), st')"
        "writer_holds w st' h (es[unat i := NA])"
        using writer_put_update [OF w i view_content_na_record] wr.good_na(2)
        by (auto simp: rt_set_na_def na_record_def)
      with True i show ?thesis by (auto simp: writer_copy_def chk)
    next
      case False
      then have na: "src \<noteq> Null" "c \<noteq> CETYPE_EXT_NA" by simp_all
      obtain r w1 st1 h1 where f: "writer_reserve w st l h = (r, w1, st1, h1)" by (metis prod_cases4)
      show ?thesis
      proof (cases r)
        case (Inl e)
        with writer_reserve_ok [OF w f] f na i show ?thesis by (simp add: writer_copy_def chk)
      next
        case (Inr p)
        note f' = f [unfolded Inr]
        note rs = writer_reserve_ok [OF w f', unfolded sum.case]
        have len: "length ys = unat l" if "l \<noteq> 0"
          using src na that by (auto dest: length_mem_read)
        have len': "length ys = unat l" using len src na by (cases "l = 0") auto
        from writer_reserve_write_set [OF w f' na(2) len' i] obtain h2 st2
          where m: "mem_write h1 p ys = Some h2"
            and st2: "writer_set st1 i p l c = (Inr (), st2)" "writer_holds w1 st2 h2 (es[unat i := Str ys c])"
            and fr: "\<forall>b. b \<notin> set (st_slices st) \<longrightarrow> blocks h b \<noteq> None \<longrightarrow> blocks h2 b = blocks h b"
          by blast
        have "(if 0 < l then memcpy h1 p src (unat l) else (Inr (), h1)) = (Inr (), h2)"
        proof (cases "l = 0")
          case True
          with len' rs m show ?thesis by simp
        next
          case nz: False
          have pos: "0 < unat l" and l: "unat l \<le> 2147483647" using nz rs by (simp_all add: unat_gt_0)
          have g: "wr.good (st_slices st, w) h (rt_views (st_records st)) es" using w by (simp add: writer_holds_def)
          obtain ss where a: "writer_room (st_slices st, w) h l = (Inr p, (ss, w1), h1)"
            using f' nz l by (auto simp: writer_reserve_def checked_string_size_cases split: prod.splits)
          have s: "mem_read h src (unat l) = Some ys" "wr.src_ok (st_slices st, w) h src (unat l)"
            using src na nz by simp_all
          obtain h3 where c3: "memcpy h1 p src (unat l) = (Inr (), h3)"
            using wr.good_alloc_copy [OF g pos l a na(2) s] by blast
          have "mem_read h1 src (unat l) = Some ys" using rs s(1) keeps_live_read by blast
          with c3 m have "h3 = h2" by (auto simp: memcpy_def memmove_def split: if_splits)
          with c3 nz show ?thesis by (simp add: word_gt_0)
        qed
        with f' na i st2 fr show ?thesis by (simp add: writer_copy_def chk element_of_Str)
      qed
    qed
  qed
qed

section \<open>Properties\<close>

text \<open>C37. \<open>Writer::copy\<close> makes the element at the index the given string and nothing else; the
  store is a valid vector before and after. A failing call leaves store, cursor and bytes as
  they were, and fails only for an index out of range, a string R cannot hold, or for lack of
  memory.\<close>

theorem writer_copy_functional:
  assumes "writer_holds w st h es"
    and "src = Null \<or> c = CETYPE_EXT_NA \<or> l = 0 \<and> ys = [] \<or>
      mem_read h src (unat l) = Some ys \<and> l \<noteq> 0 \<and> (\<forall>b. ptr_blk src = Some b \<longrightarrow> b \<notin> set (st_slices st))"
  shows "case writer_copy w st i src l c h of
      (Inl e, w', st', h') \<Rightarrow> e \<noteq> Undefined \<and> w' = w \<and> st' = st \<and> blocks h' = blocks h \<and> store_holds st' h' es \<and>
        (length es \<le> unat i \<or> 2147483647 < unat l \<or> (\<exists>n m. \<not> can_alloc h n m))
    | (Inr u, w', st', h') \<Rightarrow> unat i < length es \<and> writer_holds w' st' h' (es[unat i := (if src = Null then NA else element_of c ys)]) \<and>
        store_holds st' h' (es[unat i := (if src = Null then NA else element_of c ys)])"
proof -
  have "src = Null \<or> c = CETYPE_EXT_NA \<or>
      (if l = 0 then ys = [] else mem_read h src (unat l) = Some ys \<and> wr.src_ok (st_slices st, w) h src (unat l))"
    using assms(2) by (auto simp: wr.src_ok_def writer_owned_def)
  from writer_copy_ok [OF assms(1) this, of i] show ?thesis
    by (auto simp: writer_fails_def not_le not_less writer_holds_store split: prod.splits sum.splits)
qed

text \<open>The two-step use of \<open>Writer\<close>: room from \<open>reserve\<close> can be written without touching any
  string or any foreign memory, the store is a valid vector with unchanged contents in between,
  and \<open>set\<close> then makes the bytes written the element.\<close>

theorem writer_reserve_then_set:
  assumes "writer_holds w st h es" and "writer_reserve w st l h = (Inr p, w', st', h')"
    and "c \<noteq> CETYPE_EXT_NA" and "length ys = unat l" and "unat i < length es"
  shows "\<exists>h'' st''. store_holds st' h' es \<and> mem_write h' p ys = Some h'' \<and> store_holds st' h'' es \<and>
    writer_set st' i p l c = (Inr (), st'') \<and>
    store_holds st'' h'' (es[unat i := Str ys c]) \<and> writer_holds w' st'' h'' (es[unat i := Str ys c])"
proof -
  have "writer_holds w' st' h' es" using writer_reserve_ok [OF assms(1,2)] by simp
  with writer_reserve_write_set [OF assms] show ?thesis by (meson writer_holds_store)
qed

lemma demo_store_holds: "store_holds (bd_store demo_builder) demo_heap [NA, NA]"
proof -
  have "builder_release_store demo_builder = (bd_store demo_builder, \<lparr>bd_store = store_empty, bd_shard = shard_new\<rparr>)"
    by (simp add: builder_release_store_def builder_finish_store_def slice_prepend_def demo_builder_def
        shard_new_def)
  from builder_release_ok [OF demo_builder_holds this] show ?thesis by simp
qed

lemma demo_writer_holds: "writer_holds (writer_new (bd_store demo_builder)) (bd_store demo_builder) demo_heap [NA, NA]"
  by (rule writer_new_holds [OF demo_store_holds])

theorem writer_copy_functional_witness:
  "\<exists>w' st' h'. writer_copy (writer_new (bd_store demo_builder)) (bd_store demo_builder) 0 (At 0 0) 2
       CETYPE_EXT_UTF8 demo_heap = (Inr (), w', st', h') \<and>
     store_holds st' h' [Str [104, 105] CETYPE_EXT_UTF8, NA]"
proof -
  have "At 0 0 = Null \<or> CETYPE_EXT_UTF8 = CETYPE_EXT_NA \<or> (2 :: size_t) = 0 \<and> [104, 105] = [] \<or>
      mem_read demo_heap (At 0 0) (unat (2 :: size_t)) = Some [104, 105] \<and> (2 :: size_t) \<noteq> 0 \<and>
      (\<forall>b. ptr_blk (At 0 0) = Some b \<longrightarrow> b \<notin> set (st_slices (bd_store demo_builder)))"
    by (simp add: demo_heap_def demo_builder_def)
  note c = writer_copy_functional [OF demo_writer_holds this, of 0]
  obtain r w' st' h' where f: "writer_copy (writer_new (bd_store demo_builder)) (bd_store demo_builder) 0
      (At 0 0) 2 CETYPE_EXT_UTF8 demo_heap = (r, w', st', h')" by (metis prod_cases4)
  have "can_alloc demo_heap n m" for n m by (simp add: demo_heap_def)
  with c f have "r = Inr ()" by (cases r) auto
  with c f show ?thesis by (simp add: element_of_Str cetype_defs)
qed

theorem writer_reserve_then_set_witness:
  "\<exists>p w' st' h' h'' st''. writer_reserve (writer_new (bd_store demo_builder)) (bd_store demo_builder) 3 demo_heap
       = (Inr p, w', st', h') \<and> mem_write h' p [97, 98, 99] = Some h'' \<and>
     writer_set st' 1 p 3 CETYPE_EXT_UTF8 = (Inr (), st'') \<and>
     store_holds st'' h'' [NA, Str [97, 98, 99] CETYPE_EXT_UTF8]"
proof -
  obtain r w' st' h' where f: "writer_reserve (writer_new (bd_store demo_builder)) (bd_store demo_builder) 3 demo_heap
      = (r, w', st', h')" by (metis prod_cases4)
  have "can_alloc demo_heap n m" for n m by (simp add: demo_heap_def)
  with writer_reserve_ok [OF demo_writer_holds f] obtain p where "r = Inr p" by (cases r) auto
  with f have f': "writer_reserve (writer_new (bd_store demo_builder)) (bd_store demo_builder) 3 demo_heap
      = (Inr p, w', st', h')" by simp
  have c: "CETYPE_EXT_UTF8 \<noteq> CETYPE_EXT_NA" by (simp add: cetype_defs)
  from writer_reserve_then_set [OF demo_writer_holds f' c, of "[97, 98, 99]" 1] f' show ?thesis by auto
qed

end
