(* ===== verification/Cp_Room.thy ===== *)
theory Cp_Room
  imports Cp_Builder
begin

text \<open>
  \<open>Builder::reserve\<close> over time (\<open>inst/include/charport/charvec/builder.h\<close>): the room it hands out
  for a record, while the caller goes on using the builder. The calls a caller may make in between are a
  datatype; running a list of them keeps the builder's state and goes on after a call that throws.
\<close>

section \<open>Calls in between\<close>

datatype builder_call =
    Call_set R_xlen_t ptr size_t cetype_ext_t
  | Call_set_view R_xlen_t charport_strview
  | Call_set_na R_xlen_t
  | Call_reserve R_xlen_t size_t cetype_ext_t
  | Call_reserve_write R_xlen_t "u8 list" cetype_ext_t

fun call_index :: "builder_call \<Rightarrow> R_xlen_t" where
  "call_index (Call_set j src l c) = j"
| "call_index (Call_set_view j v) = j"
| "call_index (Call_set_na j) = j"
| "call_index (Call_reserve j l c) = j"
| "call_index (Call_reserve_write j ys c) = j"

text \<open>\<open>Call_reserve_write\<close> reserves room for the bytes and writes them through the pointer.\<close>

fun run_call :: "builder_call \<Rightarrow> builder \<Rightarrow> heap \<Rightarrow> (fault + unit) \<times> builder \<times> heap" where
  "run_call (Call_set j src l c) b h = builder_set b j src l c h"
| "run_call (Call_set_view j v) b h = builder_set_view b j v h"
| "run_call (Call_set_na j) b h = builder_set_na b j h"
| "run_call (Call_reserve j l c) b h =
     (case builder_reserve b j l c h of
        (Inl e, b', h') \<Rightarrow> (Inl e, b', h')
      | (Inr p, b', h') \<Rightarrow> (Inr (), b', h'))"
| "run_call (Call_reserve_write j ys c) b h =
     (case builder_reserve b j (of_nat (length ys)) c h of
        (Inl e, b', h') \<Rightarrow> (Inl e, b', h')
      | (Inr p, b', h') \<Rightarrow>
          (case mem_write h' p ys of
             None \<Rightarrow> (Inl Undefined, b', h')
           | Some h'' \<Rightarrow> (Inr (), b', h'')))"

fun run_calls :: "builder_call list \<Rightarrow> builder \<Rightarrow> heap \<Rightarrow> (fault + unit) list \<times> builder \<times> heap" where
  "run_calls [] b h = ([], b, h)"
| "run_calls (call # calls) b h =
     (case run_call call b h of
        (r, b', h') \<Rightarrow> (case run_calls calls b' h' of (rs, b'', h'') \<Rightarrow> (r # rs, b'', h'')))"

text \<open>What a caller owes: bytes to copy are readable and outside the builder's slices, and only
  strings are written into room.\<close>

definition outside :: "builder \<Rightarrow> heap \<Rightarrow> ptr \<Rightarrow> nat \<Rightarrow> bool" where
  "outside b h p n \<longleftrightarrow> n = 0 \<or>
     mem_read h p n \<noteq> None \<and> (\<forall>x. ptr_blk p = Some x \<longrightarrow> x \<notin> shard_owned (bd_shard b))"

fun call_ok :: "builder \<Rightarrow> heap \<Rightarrow> builder_call \<Rightarrow> bool" where
  "call_ok b h (Call_set j src l c) \<longleftrightarrow> src = Null \<or> c = CETYPE_EXT_NA \<or> outside b h src (unat l)"
| "call_ok b h (Call_set_view j v) \<longleftrightarrow>
     strview_is_na v \<or> unat (sv_len v) \<le> 2147483647 \<and> outside b h (sv_ptr v) (unat (sv_len v))"
| "call_ok b h (Call_set_na j) \<longleftrightarrow> True"
| "call_ok b h (Call_reserve j l c) \<longleftrightarrow> True"
| "call_ok b h (Call_reserve_write j ys c) \<longleftrightarrow>
     c \<noteq> CETYPE_EXT_NA \<and> length ys < 18446744073709551616"

lemma outside_kept:
  assumes o: "outside b h p n" and f: "builder_frame b b' h h'"
  shows "outside b' h' p n"
proof (cases "n = 0")
  case False
  with o have r: "mem_read h p n \<noteq> None" "\<And>x. ptr_blk p = Some x \<Longrightarrow> x \<notin> shard_owned (bd_shard b)"
    by (auto simp: outside_def)
  show ?thesis
  proof (cases p)
    case (At x off)
    then have live: "blocks h x \<noteq> None" using r(1) by (auto split: option.splits)
    note k = builder_frame_outside [OF f r(2) live]
    then have "mem_read h' p n = mem_read h p n" using At by (intro mem_read_cong) simp
    with k r(1) show ?thesis using At by (simp add: outside_def)
  qed (use r False in \<open>simp_all add: outside_def\<close>)
qed (simp add: outside_def)

lemma call_ok_kept: "call_ok b h call \<Longrightarrow> builder_frame b b' h h' \<Longrightarrow> call_ok b' h' call"
  by (cases call) (auto intro: outside_kept)

section \<open>One call\<close>

text \<open>A call at another index leaves a record and its element alone.\<close>

lemma fill_record_rt_at:
  assumes "rt_ok t" and "fill_record s t h idx l c = (r, s', t', h')" and "j < vector_length t" "j \<noteq> unat idx"
  shows "rt_at t' j = rt_at t j"
  using assms(1,2) by (cases rule: fill_record_cases) (use assms(3,4) views_update_other in auto)

lemma copy_record_rt_at:
  assumes "rt_ok t" and "copy_record s t h idx src l c = (r, s', t', h')" and "j < vector_length t" "j \<noteq> unat idx"
  shows "rt_at t' j = rt_at t j"
  using assms fill_record_rt_at [OF assms(1) _ assms(3,4)]
  by (auto simp: copy_record_def split: prod.splits sum.splits if_splits)

definition records_kept :: "builder \<Rightarrow> builder \<Rightarrow> nat \<Rightarrow> bool" where
  "records_kept b b' i \<longleftrightarrow> (\<forall>j < vector_length (st_records (bd_store b)). j \<noteq> i \<longrightarrow>
     rt_at (st_records (bd_store b')) j = rt_at (st_records (bd_store b)) j)"

lemma builder_copy_record_kept:
  "builder_holds b h es \<Longrightarrow> builder_copy_record b i src l c h = (r, b', h') \<Longrightarrow> records_kept b b' (unat i)"
  using copy_record_rt_at [OF builder_holdsD(2) [of b h es]]
  by (auto simp: builder_copy_record_def records_kept_def split: prod.splits)

lemma builder_reserve_kept:
  "builder_holds b h es \<Longrightarrow> builder_reserve b i l c h = (r, b', h') \<Longrightarrow> records_kept b b' (unat i)"
  using fill_record_rt_at [OF builder_holdsD(2) [of b h es]]
  by (auto simp: builder_reserve_def records_kept_def split: prod.splits)

lemma builder_set_kept:
  "builder_holds b h es \<Longrightarrow> builder_set b i src l c h = (r, b', h') \<Longrightarrow> records_kept b b' (unat i)"
  by (auto simp: builder_set_def dest: builder_copy_record_kept split: if_splits)

text \<open>What one call does: no undefined behaviour, and only the element and the record at its index change.\<close>

definition call_result ::
    "builder \<Rightarrow> heap \<Rightarrow> element list \<Rightarrow> nat \<Rightarrow> (fault + unit) \<times> builder \<times> heap \<Rightarrow> bool" where
  "call_result b h es i res \<longleftrightarrow>
     (case res of (r, b', h') \<Rightarrow> r \<noteq> Inl Undefined \<and> builder_frame b b' h h' \<and> records_kept b b' i \<and>
        (\<exists>e. builder_holds b' h' (if isl r then es else es[i := e])))"

lemma call_result_fails:
  "builder_fails b b' h h' es e \<Longrightarrow> call_result b h es i (Inl e, b', h')"
  by (auto simp: call_result_def builder_fails_def builder_frame_def records_kept_def takes_only_same)

lemma set_call_result:
  assumes b: "builder_holds b h es" and s: "src = Null \<or> c = CETYPE_EXT_NA \<or> outside b h src (unat l)"
  shows "call_result b h es (unat i) (builder_set b i src l c h)"
proof -
  obtain r b' h' where f: "builder_set b i src l c h = (r, b', h')" by (metis prod_cases3)
  obtain ys where ys: "src = Null \<or> c = CETYPE_EXT_NA \<or> source_ok [bd_shard b] h src l ys"
  proof (cases "unat l = 0")
    case True
    then have "l = 0" by (simp add: unat_eq_0)
    then show ?thesis using that [of "[]"] by (simp add: source_ok_def)
  next
    case False
    then have "src = Null \<or> c = CETYPE_EXT_NA \<or> source_ok [bd_shard b] h src l (the (mem_read h src (unat l)))"
      using s by (auto simp: outside_def source_ok_def pool.src_ok_def)
    then show ?thesis by (rule that)
  qed
  from builder_set_sets [OF b ys, of i] builder_set_kept [OF b f] show ?thesis
    by (cases r) (simp add: f builder_sets_def call_result_fails, auto simp: f builder_sets_def call_result_def)
qed

lemma run_call_ok:
  assumes b: "builder_holds b h es" and c: "call_ok b h call"
  shows "call_result b h es (unat (call_index call)) (run_call call b h)"
proof (cases call)
  case (Call_set j src l c)
  with c set_call_result [OF b] show ?thesis by simp
next
  case (Call_set_view j v)
  show ?thesis
  proof (cases "strview_is_na v")
    case True
    then show ?thesis using set_call_result [OF b, of Null] by (simp add: Call_set_view builder_set_view_def builder_set_na_def)
  next
    case False
    then have "outside b h (sv_ptr v) (unat (scast (sv_len v) :: size_t))"
      using c by (simp add: Call_set_view unat_scast_nonneg)
    then show ?thesis using set_call_result [OF b] False by (simp add: Call_set_view builder_set_view_def)
  qed
next
  case (Call_set_na j)
  then show ?thesis using set_call_result [OF b, of Null] by (simp add: builder_set_na_def)
next
  case (Call_reserve j l c)
  obtain r b' h' where f: "builder_reserve b j l c h = (r, b', h')" by (metis prod_cases3)
  from builder_reserve_ok [OF b f] builder_reserve_kept [OF b f] show ?thesis
    by (cases r) (simp add: Call_reserve f call_result_fails, auto simp: Call_reserve f call_result_def)
next
  case (Call_reserve_write j ys c)
  obtain r b' h' where f: "builder_reserve b j (of_nat (length ys)) c h = (r, b', h')" by (metis prod_cases3)
  note res = builder_reserve_ok [OF b f] and kept = builder_reserve_kept [OF b f]
  show ?thesis
  proof (cases r)
    case (Inl e)
    with res show ?thesis by (simp add: Call_reserve_write f call_result_fails)
  next
    case (Inr p)
    have na: "c \<noteq> CETYPE_EXT_NA" and len: "unat (of_nat (length ys) :: size_t) = length ys"
      using c by (simp_all add: Call_reserve_write unat_of_nat_u64)
    from res Inr na len obtain xs where i: "unat j < length es" and xs: "length xs = length ys"
      "builder_holds b' h' (es[unat j := Str xs c])"
      and p: "p = sv_ptr (rt_at (st_records (bd_store b')) (unat j))" and fr: "builder_frame b b' h h'"
      by (auto simp: element_of_Str)
    from builder_write_late [OF xs(2), of "unat j" xs c ys] i xs(1) obtain h'' where
      h'': "mem_write h' p ys = Some h''" "builder_holds b' h'' (es[unat j := Str ys c])"
      unfolding p by auto
    have "ptr_blk p = Some x \<Longrightarrow> x \<in> shard_owned (bd_shard b')" for x
      using f builder_holdsD(1,2) [OF b] fill_record_takes(2) Inr
      by (auto simp: builder_reserve_def split: prod.splits)
    then have "builder_frame b b' h h''" using takes_only_write [OF fr [unfolded builder_frame_def] h''(1)]
      by (simp add: builder_frame_def)
    with h'' kept Inr show ?thesis by (auto simp: Call_reserve_write f call_result_def)
  qed
qed

section \<open>Any number of calls\<close>

definition untouched :: "builder_call list \<Rightarrow> nat \<Rightarrow> bool" where
  "untouched calls k \<longleftrightarrow> (\<forall>call \<in> set calls. unat (call_index call) \<noteq> k)"

lemma run_calls_ok:
  assumes "builder_holds b h es" and "list_all (call_ok b h) calls" and "run_calls calls b h = (rs, b', h')"
  shows "Inl Undefined \<notin> set rs \<and> (\<exists>es'. builder_holds b' h' es' \<and> length es' = length es \<and>
    (\<forall>k < length es. untouched calls k \<longrightarrow> es' ! k = es ! k \<and>
       rt_at (st_records (bd_store b')) k = rt_at (st_records (bd_store b)) k))"
  using assms
proof (induction calls arbitrary: b h es rs)
  case Nil
  then show ?case by auto
next
  case (Cons call calls)
  obtain r b1 h1 where f: "run_call call b h = (r, b1, h1)" by (metis prod_cases3)
  obtain rs' where run: "run_calls calls b1 h1 = (rs', b', h')" and rs: "rs = r # rs'"
    using Cons.prems(3) f by (auto split: prod.splits)
  have "call_ok b h call" using Cons.prems(2) by simp
  from run_call_ok [OF Cons.prems(1) this] f obtain e where one: "r \<noteq> Inl Undefined" "builder_frame b b1 h h1"
    "records_kept b b1 (unat (call_index call))"
    "builder_holds b1 h1 (if isl r then es else es[unat (call_index call) := e])"
    by (auto simp: call_result_def)
  have "list_all (call_ok b1 h1) calls"
    using Cons.prems(2) call_ok_kept [OF _ one(2)] by (auto simp: list_all_iff)
  from Cons.IH [OF one(4) this run] obtain es' where ih: "Inl Undefined \<notin> set rs'" "builder_holds b' h' es'"
    "length es' = length es"
    "\<And>k. k < length es \<Longrightarrow> untouched calls k \<Longrightarrow>
       es' ! k = (if isl r then es else es[unat (call_index call) := e]) ! k \<and>
       rt_at (st_records (bd_store b')) k = rt_at (st_records (bd_store b1)) k"
    by (auto split: if_splits)
  have "es' ! k = es ! k \<and> rt_at (st_records (bd_store b')) k = rt_at (st_records (bd_store b)) k"
    if k: "k < length es" "untouched (call # calls) k" for k
    using ih(4) [OF k(1)] one(3) k builder_holds_length [OF Cons.prems(1)]
    by (auto simp: untouched_def records_kept_def)
  with ih one(1) rs show ?case by auto
qed

lemma builder_record_content:
  assumes "builder_holds b h es" and "i < length es"
  shows "view_content h (rt_at (st_records (bd_store b)) i) = Some (es ! i)"
  using assms builder_holds_length [OF assms(1)] pool_denotes_rt [of "[bd_shard b]" "st_records (bd_store b)" h es]
  by (simp add: builder_holds_def rt_denotes_def)

text \<open>C6. \<open>Builder::reserve\<close> hands out room that stays the record's own: on success the record is a
  string of the requested length and encoding, and whatever calls the caller then makes at other indices
  (sets of outside bytes, of views, of NA, reservations, written or not, calls that throw for a bad
  index, a bad length or lack of memory), none of them runs into undefined behaviour or touches the bytes
  of the room, every element no call named is as before, and bytes of that length written through the
  pointer afterwards become exactly that string and change no other.\<close>

theorem builder_reserve_then_write:
  assumes "builder_holds b h es" and "builder_reserve b i l c h = (Inr p, b1, h1)"
    and "c \<noteq> CETYPE_EXT_NA" and "length ys = unat l"
    and "list_all (\<lambda>call. call_index call \<noteq> i \<and> call_ok b1 h1 call) calls"
  shows "case run_calls calls b1 h1 of (rs, b2, h2) \<Rightarrow>
    Inl Undefined \<notin> set rs \<and> mem_read h2 p (unat l) \<noteq> None \<and> mem_read h2 p (unat l) = mem_read h1 p (unat l) \<and>
    (\<exists>es2 h3. builder_holds b2 h2 es2 \<and> length es2 = length es \<and>
       (\<forall>k < length es. k \<noteq> unat i \<longrightarrow> untouched calls k \<longrightarrow> es2 ! k = es ! k) \<and>
       mem_write h2 p ys = Some h3 \<and> builder_holds b2 h3 (es2[unat i := Str ys c]))"
proof -
  let ?w = "\<lambda>b. rt_at (st_records (bd_store b)) (unat i)"
  from builder_reserve_ok [OF assms(1,2)] assms(3) obtain xs where i: "unat i < length es"
    and xs: "length xs = unat l" "builder_holds b1 h1 (es[unat i := Str xs c])" and p: "p = sv_ptr (?w b1)"
    by (auto simp: element_of_Str)
  obtain rs b2 h2 where run: "run_calls calls b1 h1 = (rs, b2, h2)" by (metis prod_cases3)
  have ok: "list_all (call_ok b1 h1) calls" and off: "untouched calls (unat i)"
    using assms(5) by (auto simp: list_all_iff untouched_def word_unat_eq_iff)
  from run_calls_ok [OF xs(2) ok run] off i obtain es2 where es2: "Inl Undefined \<notin> set rs" "builder_holds b2 h2 es2"
    "length es2 = length es" "es2 ! unat i = Str xs c" "?w b2 = ?w b1"
    "\<And>k. k < length es \<Longrightarrow> untouched calls k \<Longrightarrow> es2 ! k = es[unat i := Str xs c] ! k"
    by auto
  have "view_content h1 (?w b1) = Some (Str xs c)" "view_content h2 (?w b1) = Some (Str xs c)"
    using builder_record_content [OF xs(2), of "unat i"] builder_record_content [OF es2(2), of "unat i"] es2(3-5) i
    by simp_all
  then have "mem_read h1 p (unat l) = Some xs" "mem_read h2 p (unat l) = Some xs"
    using xs(1) length_mem_read unfolding p view_content_Str by metis+
  moreover from builder_write_late [OF es2(2), of "unat i" xs c ys] es2(3-5) i xs(1) assms(4) obtain h3 where
    "mem_write h2 p ys = Some h3" "builder_holds b2 h3 (es2[unat i := Str ys c])" unfolding p by auto
  ultimately show ?thesis using es2(1-3,6) unfolding run prod.case by auto
qed

text \<open>Room of three bytes for the first record; then a call that throws, a reservation that is written
  and a copy of outside bytes over it; then the three bytes.\<close>

definition demo_calls :: "builder_call list" where
  "demo_calls = [Call_set_na 7, Call_reserve_write 1 [120] CETYPE_EXT_LATIN1, Call_set_view 1 demo_view]"

lemma demo_room_runs:
  "isl (fst (builder_reserve demo_builder 0 3 CETYPE_EXT_UTF8 demo_heap)) = False"
  "(case builder_reserve demo_builder 0 3 CETYPE_EXT_UTF8 demo_heap of (r, b1, h1) \<Rightarrow>
     map isl (fst (run_calls demo_calls b1 h1))) = [True, False, False]"
  by code_simp+

theorem builder_reserve_then_write_witness:
  "\<exists>p b1 h1 rs b2 h2 h3 e. builder_reserve demo_builder 0 3 CETYPE_EXT_UTF8 demo_heap = (Inr p, b1, h1) \<and>
     run_calls demo_calls b1 h1 = (rs, b2, h2) \<and> map isl rs = [True, False, False] \<and>
     mem_write h2 p [97, 98, 99] = Some h3 \<and> builder_holds b2 h3 [Str [97, 98, 99] CETYPE_EXT_UTF8, e]"
proof -
  obtain p b1 h1 where f: "builder_reserve demo_builder 0 3 CETYPE_EXT_UTF8 demo_heap = (Inr p, b1, h1)"
    using demo_room_runs(1) by (metis isl_def prod.collapse sum.exhaust)
  obtain rs b2 h2 where run: "run_calls demo_calls b1 h1 = (rs, b2, h2)" by (metis prod_cases3)
  have rs: "map isl rs = [True, False, False]" using demo_room_runs(2) f run by simp
  have "builder_frame demo_builder b1 demo_heap h1" using builder_reserve_ok [OF demo_builder_holds f] by simp
  moreover have "outside demo_builder demo_heap (At 0 0) 2"
    using demo_view_foreign by (simp add: outside_def foreign_def demo_view_def demo_heap_def)
  ultimately have "outside b1 h1 (At 0 0) 2" by (rule outside_kept [rotated])
  then have ok: "list_all (\<lambda>call. call_index call \<noteq> 0 \<and> call_ok b1 h1 call) demo_calls"
    by (simp add: demo_calls_def demo_view_def cetype_defs)
  have "CETYPE_EXT_UTF8 \<noteq> CETYPE_EXT_NA" "length [97, 98, 99 :: u8] = unat (3 :: size_t)"
    by (simp_all add: cetype_defs)
  from builder_reserve_then_write [OF demo_builder_holds f this ok, unfolded run]
  obtain es2 h3 where es2: "length es2 = length [NA, NA]" "mem_write h2 p [97, 98, 99] = Some h3"
    "builder_holds b2 h3 (es2[0 := Str [97, 98, 99] CETYPE_EXT_UTF8])" by auto
  obtain d e where "es2 = [d, e]" using es2(1) by (auto simp: length_Suc_conv)
  with es2 have "builder_holds b2 h3 [Str [97, 98, 99] CETYPE_EXT_UTF8, e]" by simp
  with f run rs es2(2) show ?thesis by (intro exI conjI)
qed

end
