(* ===== verification/Cp_Sharing.thy ===== *)
theory Cp_Sharing
  imports Cp_Assign
begin

text \<open>
  Assignment in a store some of whose records share their bytes (\<open>store_assign\<close> of
  \<open>src/charvec_altrep.h\<close>). \<open>charvec/writer.h\<close> asks only that records point into the
  store's slices, and two records at the same bytes do; a copy in place to one of them then
  overwrites the other.
\<close>

section \<open>Writing over shared bytes\<close>

lemma take_drop_patch_shared:
  assumes "off + length ys \<le> length bs"
  shows "take n (drop off (patch bs off ys)) = take n ys @ drop (length ys) (take n (drop off bs))"
  using assms by (simp add: patch_def drop_take ac_simps)

lemma same_shape_content:
  assumes "same_shape h h'" and "view_content h v \<noteq> None"
  shows "view_content h' v \<noteq> None"
proof (cases "strview_is_na v")
  case False
  then have len: "unat (sv_len v) \<le> 2147483647" and "mem_read h (sv_ptr v) (unat (sv_len v)) \<noteq> None"
    using assms(2) by (auto simp: view_content_def sint_neg_iff split: if_splits option.splits)
  then have "mem_read h' (sv_ptr v) (unat (sv_len v)) \<noteq> None"
    using same_shape_length [OF assms(1)] by (cases "sv_ptr v") (fastforce split: option.splits if_splits)+
  with False len show ?thesis by (auto simp: view_content_def sint_neg_iff)
qed (simp add: view_content_def)

lemma store_holds_reshape:
  assumes st: "store_holds st h es" and t: "rt_ok t'" "vector_length t' = vector_length (st_records st)"
    and s: "same_shape h h'"
    and ok: "\<And>k. k < length es \<Longrightarrow> view_content h' (rt_at t' k) \<noteq> None \<and> rec_in (set (st_slices st)) (rt_at t' k)"
  shows "store_holds (st\<lparr>st_records := t'\<rparr>) h' (map (\<lambda>k. the (view_content h' (rt_at t' k))) [0..<length es])"
proof -
  have n: "length es = vector_length (st_records st)" using store_holds_size [OF st] by (simp add: store_size_def)
  have "blocks h' b \<noteq> None" if "blocks h b \<noteq> None" for b
    using same_shape_length [OF s] that by fastforce
  then show ?thesis
    using st t same_shape_heap_ok [OF s] ok n by (fastforce simp: store_holds_def list_all2_conv_all_nth)
qed

lemma store_assign_in_place:
  assumes ok: "rt_ok (st_records st)" "i < vector_length (st_records st)"
    and u: "rt_at (st_records st) i = u" "\<not> strview_is_na u" "unat (sv_len u) \<le> 2147483647"
    and v: "view_content h v = Some (Str ys c)" "ys \<noteq> []" "unat (sv_len v) \<le> unat (sv_len u)"
    and w: "mem_write h (sv_ptr u) ys = Some h'"
  obtains t' where "rt_ok t'" "rt_views t' = (rt_views (st_records st))[i := make_strview (sv_ptr u) (sv_len v) c]"
    "store_assign st i v h = (Inr (), st\<lparr>st_records := t'\<rparr>, h')"
proof -
  let ?l = "sv_len v"
  have cv: "\<not> strview_is_na v" "unat ?l \<le> 2147483647" "c = sv_enc v" "mem_read h (sv_ptr v) (unat ?l) = Some ys"
    using v(1) by (simp_all add: view_content_Str)
  then have c: "c \<noteq> CETYPE_EXT_NA" by (simp add: strview_is_na_def)
  have pos: "0 < unat ?l" using v(2) length_mem_read [OF cv(4)] by (metis length_greater_0_conv)
  then have l0: "?l \<noteq> 0" by auto
  have l: "unat (scast ?l :: size_t) = unat ?l" using cv(2) by (rule scast_ucast_len(2))
  have chk: "checked_string_size (scast ?l) what = Inr ?l" for what
    using cv(2) by (simp add: checked_string_size_cases scast_ucast_len)
  have le: "sint ?l \<le> sint (sv_len u)" using v(3) cv(2) u(3) by (simp add: sint_c_int del: of_nat_unat)
  have p: "sv_ptr u \<noteq> Null" using u(2) by (simp add: strview_is_na_def)
  obtain t' where t': "rt_set (st_records st) i (sv_ptr u) ?l c = Inr t'" using rt_set_succ [OF ok] by blast
  have "memmove h (sv_ptr u) (sv_ptr v) (unat ?l) = (Inr (), h')" using cv(4) w by (simp add: memmove_def)
  moreover have "record_bytes v = scast ?l" using cv(1) by (simp add: record_bytes_def)
  moreover have "(0 :: size_t) < scast ?l" using l pos by (simp add: word_less_nat_alt)
  ultimately have "store_assign st i v h = (Inr (), st\<lparr>st_records := t'\<rparr>, h')"
    using rt_view_ok [OF ok] u(1,2) chk le l0 c t' l p ok(2) cv(3)
    by (simp add: store_assign_def store_reserve_def store_set_records_def)
  then show ?thesis using rt_set_views [OF ok t'] that by blast
qed

text \<open>C14. What assigning does to a record that shares its bytes: in any store, let two records start at
  the same byte, and assign to one of them a nonempty string no longer than the one it holds. The
  assignment succeeds in place, the element becomes the new string, and the other element is
  overwritten as far as the new string reaches and keeps its length, its remaining bytes and its
  tag. Elements that share no byte with the record stay as they were.\<close>

theorem store_assign_shared_bytes:
  assumes st: "store_holds st h es" and i: "i < length es" "es ! i = Str xs ci"
    and j: "j < length es" "j \<noteq> i" "es ! j = Str zs cj"
    and shared: "sv_ptr (rt_at (st_records st) j) = sv_ptr (rt_at (st_records st) i)"
    and v: "view_content h v = Some (Str ys c)" "ys \<noteq> []" "length ys \<le> length xs"
  shows "\<exists>st' h' es'. store_assign st i v h = (Inr (), st', h') \<and> store_holds st' h' es' \<and>
    length es' = length es \<and> es' ! i = Str ys c \<and>
    es' ! j = Str (take (length zs) ys @ drop (length ys) zs) cj \<and>
    (\<forall>k < length es. k \<noteq> i \<and> rec_apart (rt_at (st_records st) i) (rt_at (st_records st) k) \<longrightarrow> es' ! k = es ! k)"
proof -
  let ?t = "st_records st" and ?l = "sv_len v"
  let ?u = "rt_at ?t i" and ?w = "rt_at ?t j"
  note ri = store_holds_nth [OF st i(1)] and rj = store_holds_nth [OF st j(1)]
  have cu: "\<not> strview_is_na ?u" "unat (sv_len ?u) \<le> 2147483647" "mem_read h (sv_ptr ?u) (unat (sv_len ?u)) = Some xs"
    using ri(1) i(2) by (simp_all add: view_content_Str)
  have cw: "\<not> strview_is_na ?w" "unat (sv_len ?w) \<le> 2147483647" "cj = sv_enc ?w"
    "mem_read h (sv_ptr ?w) (unat (sv_len ?w)) = Some zs" using rj(1) j(3) by (simp_all add: view_content_Str)
  have cv: "\<not> strview_is_na v" "unat ?l \<le> 2147483647" "c = sv_enc v" "mem_read h (sv_ptr v) (unat ?l) = Some ys"
    using v(1) by (simp_all add: view_content_Str)
  have len: "length xs = unat (sv_len ?u)" "length zs = unat (sv_len ?w)" "length ys = unat ?l"
    using cu(3) cw(4) cv(4) length_mem_read by blast+
  have pos: "0 < unat ?l" using v(2) len(3) by (metis length_greater_0_conv)
  have nz: "sv_len ?u \<noteq> 0" using pos v(3) len(1,3) by auto
  obtain b off where p: "sv_ptr ?u = At b off" "b \<in> set (st_slices st)"
    using ri(2) nz cu(1) by (cases "sv_ptr ?u") (auto simp: rec_in_def na_record_def strview_is_na_def)
  then obtain bs where bs: "blocks h b = Some bs" "off + length xs \<le> length bs" "xs = take (length xs) (drop off bs)"
    using cu(3) len(1) by (auto split: option.splits if_splits)
  then obtain h' where w: "mem_write h (sv_ptr ?u) ys = Some h'" and h': "h' = h\<lparr>blocks := (blocks h)(b \<mapsto> patch bs off ys)\<rparr>"
    using v(3) p by simp
  have shorter: "unat ?l \<le> unat (sv_len ?u)" using v(3) len by simp
  obtain t' where t': "rt_ok t'" "rt_views t' = (rt_views ?t)[i := make_strview (sv_ptr ?u) ?l c]"
    "store_assign st i v h = (Inr (), st\<lparr>st_records := t'\<rparr>, h')"
    using store_assign_in_place [OF ri(3,4) refl cu(1,2) v(1,2) shorter w] by blast
  have vl: "vector_length t' = vector_length ?t" using t'(2) by (rule vector_length_views)
  have at: "rt_at t' k = (if k = i then make_strview (sv_ptr ?u) ?l c else rt_at ?t k)" if "k < length es" for k
  proof (cases "k = i")
    case True
    then show ?thesis using t'(2) nth_rt_views [of i t'] ri(4) vl by simp
  next
    case False
    then show ?thesis using views_update_other [OF t'(2)] store_holds_nth(4) [OF st that] by simp
  qed
  let ?es = "map (\<lambda>k. the (view_content h' (rt_at t' k))) [0..<length es]"
  have fit: "off + length ys \<le> length bs" using bs(2) v(3) by simp
  have new: "view_content h' (make_strview (sv_ptr ?u) ?l c) = Some (Str ys c)"
    using cu(1) cv fit take_drop_patch_shared [OF fit, of "length ys"] len(3)
    by (simp add: view_content_Str strview_is_na_def p h')
  have zs: "take (length zs) (drop off bs) = zs" "off + length zs \<le> length bs"
    using cw(4) shared p bs(1) len(2) by (auto split: option.splits if_splits)
  have other: "view_content h' ?w = Some (Str (take (length zs) ys @ drop (length ys) zs) cj)"
    using cw(1-3) zs take_drop_patch_shared [OF fit, of "length zs"] len(2) fit
    by (simp add: view_content_Str shared p h')
  have same: "same_shape h h'" using w by (rule mem_write_shape)
  have "view_content h' (rt_at t' k) \<noteq> None \<and> rec_in (set (st_slices st)) (rt_at t' k)" if k: "k < length es" for k
  proof (cases "k = i")
    case True
    have "\<not> strview_is_na (make_strview (sv_ptr ?u) ?l c)" using new by (simp add: view_content_Str)
    then have "rec_in (set (st_slices st)) (make_strview (sv_ptr ?u) ?l c)" using p pos by (auto simp: rec_in_def)
    then show ?thesis using new at [OF k] True by simp
  next
    case False
    then show ?thesis using at [OF k] store_holds_nth(1,2) [OF st k] same_shape_content [OF same] by simp
  qed
  then have "store_holds (st\<lparr>st_records := t'\<rparr>) h' ?es" using store_holds_reshape [OF st t'(1) vl same] by blast
  moreover have "?es ! k = es ! k" if "k < length es" "k \<noteq> i" "rec_apart ?u (rt_at ?t k)" for k
  proof -
    let ?k = "rt_at ?t k"
    have "view_content h' ?k = view_content h ?k"
    proof (rule view_content_cong)
      assume na: "\<not> strview_is_na ?k"
      show "mem_read h' (sv_ptr ?k) (unat (sv_len ?k)) = mem_read h (sv_ptr ?k) (unat (sv_len ?k))"
      proof (cases "sv_len ?k = 0")
        case True
        then have "sv_ptr ?k = Empty" using store_holds_nth(2) [OF st that(1)] na
          by (auto simp: rec_in_def na_record_def strview_is_na_def)
        then show ?thesis by simp
      next
        case False
        then have "disjoint (sv_ptr ?u) (unat (sv_len ?u)) (sv_ptr ?k) (unat (sv_len ?k))"
          using that(3) na cu(1) nz by (simp add: rec_apart_def)
        from disjoint_shrink [OF this, of "length ys"] shorter len(3) show ?thesis
          by (intro mem_write_read_disjoint [OF w]) simp
      qed
    qed
    then show ?thesis using that(1,2) at [OF that(1)] store_holds_nth(1) [OF st that(1)] by simp
  qed
  moreover have "?es ! i = Str ys c" "?es ! j = Str (take (length zs) ys @ drop (length ys) zs) cj"
    using at i(1) j(1,2) new other by simp_all
  ultimately show ?thesis using t'(3) by (intro exI [of _ "st\<lparr>st_records := t'\<rparr>"] exI [of _ h'] exI [of _ ?es]) simp
qed

text \<open>A store of two equal strings at the same bytes, and a shorter one assigned to the first.\<close>

definition shared_view :: charport_strview where
  "shared_view = make_strview (At 1 0) 1 CETYPE_EXT_LATIN1"

theorem store_assign_shared_bytes_witness:
  "\<exists>st' h' es'. store_assign shared_store 0 shared_view shared_heap = (Inr (), st', h') \<and> store_holds st' h' es' \<and>
     es' = [Str [121] CETYPE_EXT_LATIN1, Str [121, 105] CETYPE_EXT_UTF8]"
proof -
  let ?s = "Str [104, 105] CETYPE_EXT_UTF8"
  have st: "store_holds shared_store shared_heap [?s, ?s]"
    by (auto simp: store_holds_def shared_store_def shared_heap_def heap_ok_def rt_ok_def rt_views_def rt_at_def
        max_capacity_value view_content_Str strview_is_na_def rec_in_def cetype_defs upt_rec nth_Cons
        less_Suc_eq split: nat.splits)
  have v: "view_content shared_heap shared_view = Some (Str [121] CETYPE_EXT_LATIN1)"
    by (simp add: shared_view_def shared_heap_def view_content_Str strview_is_na_def cetype_defs)
  have same: "sv_ptr (rt_at (st_records shared_store) 1) = sv_ptr (rt_at (st_records shared_store) 0)"
    by (simp add: shared_store_def rt_at_def)
  from store_assign_shared_bytes [OF st _ _ _ _ _ same v] obtain st' h' es' where
    r: "store_assign shared_store 0 shared_view shared_heap = (Inr (), st', h')" "store_holds st' h' es'"
    "length es' = 2" "es' ! 0 = Str [121] CETYPE_EXT_LATIN1" "es' ! 1 = Str [121, 105] CETYPE_EXT_UTF8" by auto
  then have "es' = [Str [121] CETYPE_EXT_LATIN1, Str [121, 105] CETYPE_EXT_UTF8]"
    by (intro nth_equalityI) (auto simp: less_Suc_eq nth_Cons split: nat.splits)
  with r(1,2) show ?thesis by blast
qed

end
