(* ===== verification/Cp_Subset.thy ===== *)
theory Cp_Subset
  imports Cp_Assign Complex_Main
begin

text \<open>
  Stores built element by element: \<open>store_from_chars\<close> and \<open>subset_store\<close> of
  \<open>src/charvec_altrep.h\<close>.
\<close>

section \<open>A store from a loop of sets\<close>

type_synonym builder_step = "nat \<Rightarrow> builder \<Rightarrow> heap \<Rightarrow> (fault + unit) \<times> builder \<times> heap"

fun builder_loop :: "builder_step \<Rightarrow> nat list \<Rightarrow> builder \<Rightarrow> heap \<Rightarrow> (fault + unit) \<times> builder \<times> heap" where
  "builder_loop step [] b h = (Inr (), b, h)"
| "builder_loop step (i # is) b h =
     (case step i b h of
        (Inl e, b', h') \<Rightarrow> (Inl e, b', h')
      | (Inr u, b', h') \<Rightarrow> builder_loop step is b' h')"

text \<open>A builder of \<open>n\<close> records, the loop, \<open>release_store\<close> and \<open>heap_store\<close>; the builder is
  destroyed at the end and when something throws.\<close>

definition build_store :: "R_xlen_t \<Rightarrow> builder_step \<Rightarrow> heap \<Rightarrow> (fault + store) \<times> heap" where
  "build_store n step h =
     (case builder_new n h of
        (Inl e, h1) \<Rightarrow> (Inl e, h1)
      | (Inr b, h1) \<Rightarrow>
          (case builder_loop step [0..<unat n] b h1 of
             (Inl e, b', h2) \<Rightarrow> (Inl e, builder_destroy b' h2)
           | (Inr u, b', h2) \<Rightarrow>
               (case builder_release_store b' of
                  (st, b'') \<Rightarrow> (case heap_store st h2 of (r, h3) \<Rightarrow> (r, builder_destroy b'' h3)))))"

section \<open>The code\<close>

definition store_from_chars_step :: "'c r_strings \<Rightarrow> 'c list \<Rightarrow> builder_step" where
  "store_from_chars_step R xs i b h =
     (if i < length xs
      then (case charsxp_to_view R h (xs ! i) of
              Inl e \<Rightarrow> (Inl e, b, h)
            | Inr v \<Rightarrow> builder_set_view b (of_nat i) v h)
      else (Inl Undefined, b, h))"

definition store_from_chars :: "'c r_strings \<Rightarrow> R_xlen_t \<Rightarrow> 'c list \<Rightarrow> heap \<Rightarrow> (fault + store) \<times> heap" where
  "store_from_chars R n xs h = build_store n (store_from_chars_step R xs) h"

text \<open>
  A subscript of \<open>Extract_subset\<close>: ints, or doubles. A double is a rational number or not
  finite; every length is below \<open>2 ^ 53\<close>, so \<open>source_length + 1.0\<close> is exact.
\<close>

datatype double = Finite rat | Not_finite

datatype r_index = Integer_indices "c_int list" | Real_indices "double list"

fun r_index_length :: "r_index \<Rightarrow> nat" where
  "r_index_length (Integer_indices xs) = length xs"
| "r_index_length (Real_indices xs) = length xs"

text \<open>The zero-based index of a subscript, if it gets to \<open>copy_element\<close>. The subtraction is in 64
  bits, of a 32-bit value or of one below \<open>2 ^ 53\<close>.\<close>

fun zero_based :: "int \<Rightarrow> r_index \<Rightarrow> nat \<Rightarrow> fault + int option" where
  "zero_based source_length (Integer_indices xs) i =
     (if i < length xs
      then Inr (if xs ! i = NA_INTEGER then None else Some (sint (xs ! i) - 1))
      else Inl Undefined)"
| "zero_based source_length (Real_indices xs) i =
     (if i < length xs
      then Inr (case xs ! i of
                  Not_finite \<Rightarrow> None
                | Finite x \<Rightarrow> if 1 \<le> x \<and> x < of_int source_length + 1 then Some (\<lfloor>x\<rfloor> - 1) else None)
      else Inl Undefined)"

definition copy_element :: "store \<Rightarrow> int \<Rightarrow> nat \<Rightarrow> int \<Rightarrow> builder \<Rightarrow> heap \<Rightarrow> (fault + unit) \<times> builder \<times> heap" where
  "copy_element source source_length out_i k out h =
     (if k < 0 \<or> source_length \<le> k then (Inr (), out, h)
      else (case store_view source (nat k) of
              Inl e \<Rightarrow> (Inl e, out, h)
            | Inr v \<Rightarrow> if \<not> strview_is_na v then builder_set_view out (of_nat out_i) v h
                      else (Inr (), out, h)))"

definition subset_step :: "store \<Rightarrow> int \<Rightarrow> r_index \<Rightarrow> builder_step" where
  "subset_step source source_length indx i out h =
     (case zero_based source_length indx i of
        Inl e \<Rightarrow> (Inl e, out, h)
      | Inr None \<Rightarrow> (Inr (), out, h)
      | Inr (Some k) \<Rightarrow> copy_element source source_length i k out h)"

definition subset_store :: "store \<Rightarrow> R_xlen_t \<Rightarrow> R_xlen_t \<Rightarrow> r_index \<Rightarrow> heap \<Rightarrow> (fault + store) \<times> heap" where
  "subset_store source source_length output_length indx h =
     build_store output_length (subset_step source (sint source_length) indx) h"

section \<open>What a loop of sets builds\<close>

text \<open>A step that makes element \<open>i\<close> the element \<open>E i\<close>, in any builder of stores made since \<open>h\<close>.\<close>

definition sets_element :: "heap \<Rightarrow> nat \<Rightarrow> builder_step \<Rightarrow> (nat \<Rightarrow> element) \<Rightarrow> bool" where
  "sets_element h n step E \<longleftrightarrow>
     (\<forall>i < n. \<forall>b h1 es. builder_holds b h1 es \<longrightarrow> length es = n \<longrightarrow> es ! i = NA \<longrightarrow>
        takes_only {} (shard_owned (bd_shard b)) h h1 \<longrightarrow>
        builder_sets b h1 es (of_nat i) (E i) True (step i b h1) \<and>
        can_alloc (snd (snd (step i b h1))) = can_alloc h1)"

lemma sets_elementD:
  assumes "sets_element h n step E" and "i < n" and "builder_holds b h1 es" and "length es = n"
    and "es ! i = NA" and "takes_only {} (shard_owned (bd_shard b)) h h1"
  shows "builder_sets b h1 es (of_nat i) (E i) True (step i b h1)"
    and "can_alloc (snd (snd (step i b h1))) = can_alloc h1"
  using assms unfolding sets_element_def by blast+

lemma builder_loop_spec:
  assumes step: "sets_element h n step E" and n: "n \<le> 4503599627370496"
    and "i \<le> n" and "builder_holds b h1 (map E [0..<i] @ replicate (n - i) NA)"
    and "takes_only {} (shard_owned (bd_shard b)) h h1"
  shows "case builder_loop step [i..<n] b h1 of
      (Inl e, b', h') \<Rightarrow> e \<noteq> Undefined \<and> (\<exists>es. builder_holds b' h' es) \<and>
        takes_only {} (shard_owned (bd_shard b')) h h' \<and> (\<exists>k m. \<not> can_alloc h1 k m)
    | (Inr u, b', h') \<Rightarrow> builder_holds b' h' (map E [0..<n]) \<and>
        takes_only {} (shard_owned (bd_shard b')) h h' \<and> can_alloc h' = can_alloc h1"
  using assms(3-)
proof (induction "n - i" arbitrary: i b h1)
  case 0
  then show ?case by simp
next
  case (Suc m)
  let ?es = "map E [0..<i] @ replicate (n - i) NA"
  have i: "i < n" using Suc.hyps(2) by simp
  have idx: "unat (of_nat i :: R_xlen_t) = i" using i n by (intro unat_of_nat_u64) simp
  have len: "length ?es = n" "?es ! i = NA" using i by (simp_all add: nth_append)
  note d = sets_elementD [OF step i Suc.prems(2) len Suc.prems(3)]
  have upd: "?es[i := E i] = map E [0..<Suc i] @ replicate (n - Suc i) NA"
    using i by (simp add: list_update_append Suc_diff_Suc [symmetric])
  have fit: "unat (of_nat i :: R_xlen_t) < length ?es" using idx len i by simp
  have loop: "builder_loop step [i..<n] b h1 =
      (case step i b h1 of
        (Inl e, b', h') \<Rightarrow> (Inl e, b', h')
      | (Inr u, b', h') \<Rightarrow> builder_loop step [Suc i..<n] b' h')"
    using i by (simp add: upt_conv_Cons)
  from d(1) TrueI fit show ?case
  proof (cases rule: builder_step)
    case (error f b' h')
    have "takes_only {} (shard_owned (bd_shard b')) h h'"
      using Suc.prems(3) error by (simp add: takes_only_def)
    then show ?thesis using error by (auto simp: loop)
  next
    case (ok b' h')
    have h': "builder_holds b' h' (map E [0..<Suc i] @ replicate (n - Suc i) NA)"
      using ok(2) unfolding idx upd .
    have t: "takes_only {} (shard_owned (bd_shard b')) h h'"
      using takes_only_trans [OF Suc.prems(3)] ok(3) by (simp add: builder_frame_def)
    have alloc: "can_alloc h' = can_alloc h1" using d(2) ok(1) by simp
    have "m = n - Suc i" "Suc i \<le> n" using Suc.hyps(2) i by simp_all
    from Suc.hyps(1) [OF this h' t] show ?thesis unfolding alloc by (simp add: loop ok(1))
  qed
qed

lemma build_store_spec:
  assumes step: "sets_element h (unat n) step E" and n: "unat n \<le> 4503599627370496" and ok: "heap_ok h"
  shows "case build_store n step h of
      (Inl e, h') \<Rightarrow> e \<noteq> Undefined \<and> blocks h' = blocks h \<and> (\<exists>k m. \<not> can_alloc h k m)
    | (Inr st, h') \<Rightarrow> store_private st h' (map E [0..<unat n]) \<and> takes_only {} (set (st_slices st)) h h'"
proof -
  obtain r h1 where new: "builder_new n h = (r, h1)" by fastforce
  show ?thesis
  proof (cases r)
    case (Inl e)
    with builder_new_ok [OF new ok] builder_new_oom [OF new [unfolded Inl] n] show ?thesis
      by (simp add: build_store_def new)
  next
    case (Inr b)
    have b: "blocks h1 = blocks h" "builder_holds b h1 (map E [0..<0] @ replicate (unat n - 0) NA)"
      using builder_new_ok [OF new ok] Inr by simp_all
    have t: "takes_only {} (shard_owned (bd_shard b)) h h1"
      using builder_new_fresh new Inr b(1) by (simp add: takes_only_def)
    have alloc: "can_alloc h1 = can_alloc h" using builder_new_can_alloc [OF new] .
    obtain q b' h2 where loop: "builder_loop step [0..<unat n] b h1 = (q, b', h2)" by (metis prod_cases3)
    note spec = builder_loop_spec [OF step n le0 b(2) t, unfolded loop]
    have u: "build_store n step h =
        (case q of
           Inl e \<Rightarrow> (Inl e, builder_destroy b' h2)
         | Inr u \<Rightarrow>
             (case builder_release_store b' of
                (st, b'') \<Rightarrow> (case heap_store st h2 of (r, h3) \<Rightarrow> (r, builder_destroy b'' h3))))"
      using loop by (simp add: build_store_def new Inr split: sum.splits)
    show ?thesis
    proof (cases q)
      case (Inl e)
      with spec obtain es where es: "builder_holds b' h2 es"
        "takes_only {} (shard_owned (bd_shard b')) h h2" by auto
      from builder_destroy_blocks [OF es] spec Inl alloc show ?thesis by (simp add: u)
    next
      case (Inr w)
      from spec Inr have es: "builder_holds b' h2 (map E [0..<unat n])"
        "takes_only {} (shard_owned (bd_shard b')) h h2" "can_alloc h2 = can_alloc h" using alloc by simp_all
      obtain st b'' where rel: "builder_release_store b' = (st, b'')" by fastforce
      obtain x h3 where hs: "heap_store st h2 = (x, h3)" by fastforce
      have "x = Inr st" if "x = Inr s" for s
        using that hs by (auto simp: heap_store_def Let_def split: if_splits prod.splits)
      with release_heap_store [OF es(1,2) rel hs] builder_release_private [OF es(1) rel] es(3) show ?thesis
        by (cases x) (auto simp: u Inr rel hs store_private_def)
    qed
  qed
qed

lemma skip_sets:
  assumes "builder_holds b h1 es" and "es ! i = NA" and "i < length es" and "length es \<le> 4503599627370496"
  shows "builder_sets b h1 es (of_nat i) NA True (Inr (), b, h1)"
proof -
  have "unat (of_nat i :: R_xlen_t) = i" using assms(3,4) by (intro unat_of_nat_u64) simp
  moreover have "es[i := NA] = es" using assms(2) by (metis list_update_id)
  ultimately show ?thesis using assms by (simp add: builder_sets_def builder_frame_def)
qed

lemma builder_set_view_can_alloc: "can_alloc (snd (snd (builder_set_view b i v h))) = can_alloc h"
  by (simp add: builder_set_view_def)
    (metis builder_set_can_alloc builder_set_na_can_alloc prod.collapse)

text \<open>A record of a store made before stands for the same element, in memory a later builder
  does not own.\<close>

lemma store_view_later:
  assumes st: "store_holds st h es" and k: "k < length es" and t: "takes_only {} B h h1"
  shows "view_content h1 (rt_at (st_records st) k) = Some (es ! k)"
    and "strview_is_na (rt_at (st_records st) k) \<or> foreign B (rt_at (st_records st) k)"
  using source_views_frame [OF store_source_views [OF st] t] k by (simp_all add: source_views_def)

section \<open>subset_store\<close>

text \<open>The element a subscript selects: R's rule that an index outside \<open>1 .. n\<close> gives NA and that
  a real index truncates.\<close>

fun subscript :: "nat \<Rightarrow> r_index \<Rightarrow> nat \<Rightarrow> nat option" where
  "subscript n (Integer_indices xs) i =
     (if 1 \<le> sint (xs ! i) \<and> sint (xs ! i) \<le> int n then Some (nat (sint (xs ! i)) - 1) else None)"
| "subscript n (Real_indices xs) i =
     (case xs ! i of
        Not_finite \<Rightarrow> None
      | Finite x \<Rightarrow> if 1 \<le> \<lfloor>x\<rfloor> \<and> \<lfloor>x\<rfloor> \<le> int n then Some (nat \<lfloor>x\<rfloor> - 1) else None)"

definition selected :: "element list \<Rightarrow> r_index \<Rightarrow> nat \<Rightarrow> element" where
  "selected es indx i = (case subscript (length es) indx i of None \<Rightarrow> NA | Some k \<Rightarrow> es ! k)"

lemma subscript_bound: "subscript n indx i = Some k \<Longrightarrow> k < n"
proof -
  have nat: "nat z - 1 < n" if "1 \<le> z" "z \<le> int n" for z using that by linarith
  show "subscript n indx i = Some k \<Longrightarrow> k < n"
    using nat by (cases indx) (auto split: double.splits if_splits simp del: One_nat_def)
qed

lemma sint_NA_INTEGER: "sint NA_INTEGER = -2147483648"
  by (simp add: sint_c_int)

lemma zero_based_subscript:
  assumes "i < r_index_length indx"
  shows "\<exists>z. zero_based (int n) indx i = Inr z \<and>
    (case z of None \<Rightarrow> subscript n indx i = None
     | Some k \<Rightarrow> subscript n indx i = (if k < 0 \<or> int n \<le> k then None else Some (nat k)))"
  using assms
proof (cases indx)
  case (Integer_indices xs)
  then show ?thesis using assms sint_NA_INTEGER by (auto simp: nat_diff_distrib)
next
  case (Real_indices xs)
  show ?thesis
  proof (cases "xs ! i")
    case (Finite x)
    have "1 \<le> x \<longleftrightarrow> 1 \<le> \<lfloor>x\<rfloor>" by linarith
    moreover have "x < of_int (int n) + 1 \<longleftrightarrow> \<lfloor>x\<rfloor> \<le> int n" by linarith
    ultimately show ?thesis using assms Real_indices Finite by (auto simp: nat_diff_distrib)
  qed (use assms Real_indices in simp)
qed

lemma subset_step_sets:
  assumes st: "store_holds st h es" and n: "r_index_length indx \<le> 4503599627370496"
  shows "sets_element h (r_index_length indx) (subset_step st (int (length es)) indx) (selected es indx)"
  unfolding sets_element_def
proof (intro allI impI)
  fix i b h1 out
  assume i: "i < r_index_length indx" and b: "builder_holds b h1 out" and len: "length out = r_index_length indx"
    and na: "out ! i = NA" and t: "takes_only {} (shard_owned (bd_shard b)) h h1"
  let ?step = "subset_step st (int (length es)) indx i b h1"
  obtain z where z: "zero_based (int (length es)) indx i = Inr z"
    "case z of None \<Rightarrow> subscript (length es) indx i = None
     | Some k \<Rightarrow> subscript (length es) indx i = (if k < 0 \<or> int (length es) \<le> k then None else Some (nat k))"
    using zero_based_subscript [OF i] by blast
  have skip: "builder_sets b h1 out (of_nat i) NA True (Inr (), b, h1)"
    using skip_sets [OF b na] i len n by simp
  show "builder_sets b h1 out (of_nat i) (selected es indx i) True ?step \<and>
    can_alloc (snd (snd ?step)) = can_alloc h1"
  proof (cases "subscript (length es) indx i")
    case None
    then have "?step = (Inr (), b, h1)"
      using z by (auto simp: subset_step_def copy_element_def split: option.splits if_splits)
    then show ?thesis using skip None by (simp add: selected_def)
  next
    case (Some k)
    then have k: "k < length es" by (rule subscript_bound)
    let ?v = "rt_at (st_records st) k"
    note v = store_view_later [OF st k t]
    have step: "?step = (if \<not> strview_is_na ?v then builder_set_view b (of_nat i) ?v h1 else (Inr (), b, h1))"
      using z Some store_holds_view [OF st k]
      by (auto simp: subset_step_def copy_element_def split: option.splits if_splits)
    show ?thesis
    proof (cases "strview_is_na ?v")
      case True
      then have "es ! k = NA" using v(1) by (simp add: view_content_def)
      then show ?thesis using step True skip Some by (simp add: selected_def)
    next
      case False
      then show ?thesis
        using step Some v builder_set_view_sets [OF b v(1)] builder_set_view_can_alloc
        by (simp add: selected_def)
    qed
  qed
qed

text \<open>\<open>subset_store\<close> follows R's subsetting: the result's \<open>i\<close>-th element is the one the
  \<open>i\<close>-th subscript selects (a double truncates), and NA when the subscript is NA, not
  finite or outside \<open>1 .. n\<close>. The result owns new slices only, in which no two strings share a byte, and
  the source keeps its elements. It fails only when an allocation is refused, leaving every
  block as it was.\<close>

theorem subset_store_functional:
  assumes "store_holds st h es" and "r_index_length indx \<le> 4503599627370496"
  shows "case subset_store st (of_nat (length es)) (of_nat (r_index_length indx)) indx h of
      (Inl e, h') \<Rightarrow> e \<noteq> Undefined \<and> blocks h' = blocks h \<and> (\<exists>n m. \<not> can_alloc h n m)
    | (Inr st', h') \<Rightarrow> store_private st' h' (map (selected es indx) [0..<r_index_length indx]) \<and>
        store_holds st h' es \<and> set (st_slices st) \<inter> set (st_slices st') = {} \<and>
        takes_only {} (set (st_slices st')) h h'"
proof -
  have n: "length es \<le> 4503599627370496"
    using assms(1) rt_ok_bound by (auto simp: store_holds_size store_size_def store_holds_def)
  have len: "sint (of_nat (length es) :: R_xlen_t) = int (length es)"
    using n by (simp add: signed_of_nat take_bit_eq_mod signed_take_bit_int_eq_self)
  have u: "unat (of_nat (r_index_length indx) :: R_xlen_t) = r_index_length indx"
    using assms(2) by (intro unat_of_nat_u64) simp
  have ok: "heap_ok h" using assms(1) by (simp add: store_holds_def)
  note b = build_store_spec [of h "of_nat (r_index_length indx)", unfolded u,
      OF subset_step_sets [OF assms] assms(2) ok, folded len, folded subset_store_def]
  have live: "\<forall>b \<in> set (st_slices st). blocks h b \<noteq> None" using assms(1) by (simp add: store_holds_def)
  have "store_holds st h' es \<and> set (st_slices st) \<inter> B = {}" if t: "takes_only {} B h h'" "heap_ok h'" for B h'
    using store_holds_frame [OF assms(1) t(2)] takes_only_apart [OF t(1) live] by blast
  with b show ?thesis by (auto simp: store_private_def store_holds_def split: sum.splits prod.splits)
qed

theorem subset_store_functional_witness:
  "\<exists>st h st' h'. subset_store st 2 3 (Real_indices [Finite (7 / 2), Finite (3 / 2), Not_finite]) h = (Inr st', h') \<and>
     store_private st' h' [NA, Str [104, 105] CETYPE_EXT_UTF8, NA]"
proof -
  let ?indx = "Real_indices [Finite (7 / 2), Finite (3 / 2), Not_finite]"
  obtain st h where st: "store_holds st h [Str [104, 105] CETYPE_EXT_UTF8, NA]" "\<And>n m. can_alloc h n m"
    by (rule demo_string_store) blast
  obtain r h' where r: "subset_store st 2 3 ?indx h = (r, h')" by fastforce
  have floors: "\<lfloor>3 / 2 :: rat\<rfloor> = 1" "\<lfloor>7 / 2 :: rat\<rfloor> = 3" by (simp_all add: floor_eq_iff)
  have sel: "map (selected [Str [104, 105] CETYPE_EXT_UTF8, NA] ?indx) [0..<3] =
      [NA, Str [104, 105] CETYPE_EXT_UTF8, NA]"
    by (simp add: selected_def upt_rec floors)
  have "r_index_length ?indx \<le> 4503599627370496" "subset_store st (of_nat (length [Str [104, 105] CETYPE_EXT_UTF8, NA]))
      (of_nat (r_index_length ?indx)) ?indx h = (r, h')" "r_index_length ?indx = 3" using r by simp_all
  from subset_store_functional [OF st(1) this(1), unfolded this(2), unfolded this(3) sel] st(2)
  obtain st' where "r = Inr st'" "store_private st' h' [NA, Str [104, 105] CETYPE_EXT_UTF8, NA]"
    by (cases r) auto
  with r show ?thesis by blast
qed

section \<open>store_from_chars\<close>

lemma takes_only_keeps: "takes_only {} B h h' \<Longrightarrow> keeps_live h h'"
  unfolding takes_only_def keeps_live_def by (metis empty_iff option.distinct(1))

lemma charsxp_live_later:
  assumes "charsxp_live R h x" and "keeps_live h h1"
  shows "charsxp_live R h1 x" and "charsxp_element R h1 x = charsxp_element R h x"
proof -
  consider "x = NA_STRING R"
    | bs where "mem_read h (CHAR_charsxp R x) (unat (LENGTH_charsxp R x)) = Some bs"
    using assms(1) by (auto simp: charsxp_live_def)
  then show "charsxp_live R h1 x" "charsxp_element R h1 x = charsxp_element R h x"
    using assms keeps_live_read [OF assms(2)]
    by (cases; fastforce simp: charsxp_live_def charsxp_element_def charsxp_bytes_def)+
qed

lemma store_from_chars_sets:
  assumes live: "\<And>x. x \<in> set xs \<Longrightarrow> charsxp_live R h x"
  shows "sets_element h (length xs) (store_from_chars_step R xs) (\<lambda>i. charsxp_element R h (xs ! i))"
  unfolding sets_element_def
proof (intro allI impI)
  fix i b h1 es
  assume i: "i < length xs" and b: "builder_holds b h1 es"
    and t: "takes_only {} (shard_owned (bd_shard b)) h h1"
  let ?x = "xs ! i" and ?step = "store_from_chars_step R xs i b h1"
  have lx: "charsxp_live R h ?x" using live i by simp
  note later = charsxp_live_later [OF lx takes_only_keeps [OF t]]
  obtain v where v: "charsxp_to_view R h1 ?x = Inr v" "view_content h1 v = Some (charsxp_element R h ?x)"
    "ptr_blk (sv_ptr v) = None \<or> ?x \<noteq> NA_STRING R \<and> ptr_blk (sv_ptr v) = ptr_blk (CHAR_charsxp R ?x)"
    using charsxp_to_view_live [OF later(1)] later(2) by auto
  have "foreign (shard_owned (bd_shard b)) v"
    unfolding foreign_def
  proof (intro allI impI)
    fix y
    assume "ptr_blk (sv_ptr v) = Some y"
    then have "?x \<noteq> NA_STRING R" "ptr_blk (CHAR_charsxp R ?x) = Some y" using v(3) by auto
    then have "blocks h y \<noteq> None"
      using lx by (cases "CHAR_charsxp R ?x") (auto simp: charsxp_live_def split: option.splits)
    then show "y \<notin> shard_owned (bd_shard b)" using t by (auto simp: takes_only_def)
  qed
  from builder_set_view_sets [OF b v(2) this] builder_set_view_can_alloc
  show "builder_sets b h1 es (of_nat i) (charsxp_element R h ?x) True ?step \<and>
    can_alloc (snd (snd ?step)) = can_alloc h1"
    using v(1) i by (simp add: store_from_chars_step_def)
qed

text \<open>C34. \<open>store_from_chars\<close> turns the strings of a character vector into a store of the same
  strings (bytes and encoding, a native string tagged ASCII when it is), in new slices in which no two
  share a byte, changing no other block; and making \<open>CHARSXP\<close>s of the store's elements gives the
  very vector back. It fails only when an allocation is refused.\<close>

theorem store_from_chars_functional:
  assumes "heap_ok h" and "length xs \<le> 4503599627370496"
    and "\<And>x. x \<in> set xs \<Longrightarrow> charsxp_live R h x \<and> charsxp_cache R h x"
  shows "case store_from_chars R (of_nat (length xs)) xs h of
      (Inl e, h') \<Rightarrow> e \<noteq> Undefined \<and> blocks h' = blocks h \<and> (\<exists>n m. \<not> can_alloc h n m)
    | (Inr st, h') \<Rightarrow> store_private st h' (map (charsxp_element R h) xs) \<and>
        takes_only {} (set (st_slices st)) h h' \<and>
        map (charsxp_of R) (map (charsxp_element R h) xs) = map Inr xs"
proof -
  have u: "unat (of_nat (length xs) :: R_xlen_t) = length xs"
    using assms(2) by (intro unat_of_nat_u64) simp
  have es: "map (\<lambda>i. charsxp_element R h (xs ! i)) [0..<length xs] = map (charsxp_element R h) xs"
    by (intro nth_equalityI) simp_all
  have again: "map (charsxp_of R) (map (charsxp_element R h) xs) = map Inr xs"
    using assms(3) by (auto intro: charsxp_of_element)
  have "sets_element h (length xs) (store_from_chars_step R xs) (\<lambda>i. charsxp_element R h (xs ! i))"
    using assms(3) by (intro store_from_chars_sets) blast
  from build_store_spec [of h "of_nat (length xs)", unfolded u, OF this assms(2,1), unfolded es] show ?thesis
    using again by (auto simp: store_from_chars_def split: sum.splits prod.splits)
qed

text \<open>An instance of R's strings: a \<open>CHARSXP\<close> is its content, in memory at the first block.\<close>

definition demo_chars :: "(u8 list \<times> cetype_t) r_strings" where
  "demo_chars = demo_strings\<lparr>CHAR_charsxp := (\<lambda>x. At 0 0), LENGTH_charsxp := (\<lambda>x. of_nat (length (fst x)))\<rparr>"

theorem store_from_chars_functional_witness:
  "\<exists>st h'. store_from_chars demo_chars 2 [([], CE_BYTES), ([104, 105], CE_UTF8)] demo_heap = (Inr st, h') \<and>
     store_private st h' [NA, Str [104, 105] CETYPE_EXT_UTF8]"
proof -
  let ?xs = "[([], CE_BYTES), ([104, 105], CE_UTF8)] :: (u8 list \<times> cetype_t) list"
  have live: "x \<in> set ?xs \<Longrightarrow> charsxp_live demo_chars demo_heap x \<and> charsxp_cache demo_chars demo_heap x" for x
    by (auto simp: charsxp_live_def charsxp_cache_def demo_chars_def demo_strings_def demo_heap_def charsxp_bytes_def)
  have es: "map (charsxp_element demo_chars demo_heap) ?xs = [NA, Str [104, 105] CETYPE_EXT_UTF8]"
    by (simp add: charsxp_element_def demo_chars_def demo_strings_def demo_heap_def charsxp_bytes_def charsxp_tag_def)
  have len: "length ?xs \<le> 4503599627370496" by simp
  obtain r h' where r: "store_from_chars demo_chars (of_nat (length ?xs)) ?xs demo_heap = (r, h')" by fastforce
  from store_from_chars_functional [OF heap_ok_demo len live, unfolded es r]
  obtain st where "r = Inr st" "store_private st h' [NA, Str [104, 105] CETYPE_EXT_UTF8]"
    by (cases r) (auto simp: demo_heap_def)
  with r show ?thesis by auto
qed

end
