(* ===== verification/Cp_Charvec.thy ===== *)
theory Cp_Charvec
  imports Cp_Subset
begin

unbundle bit_operations_syntax

text \<open>
  The ALTREP instance, \<open>struct charvec_altrep\<close> of \<open>src/charvec_altrep.h\<close>: a store, a chunked
  cache of the \<open>CHARSXP\<close>s R has asked for, and the character vector it becomes when R asks for
  the data pointer.
\<close>

section \<open>The instance\<close>

text \<open>\<open>data1\<close> is an external pointer: its address (\<open>cv_store\<close>, \<open>None\<close> when cleared) and its
  protected value, the cache (\<open>cv_chunks\<close>, \<open>None\<close> for \<open>R_NilValue\<close>). \<open>data2\<close> is the
  materialized vector or \<open>R_NilValue\<close>.\<close>

record 'c charvec =
  cv_store :: "store option"
  cv_chunks :: "'c list option list option"
  cv_data2 :: "'c list option"

definition chunk_shift :: nat where "chunk_shift = 10"
definition chunk_size :: nat where "chunk_size = push_bit chunk_shift 1"
definition chunk_mask :: nat where "chunk_mask = chunk_size - 1"

definition chunk_count :: "nat \<Rightarrow> nat" where
  "chunk_count n = drop_bit chunk_shift n + (if n AND chunk_mask \<noteq> 0 then 1 else 0)"

definition chunk_len :: "nat \<Rightarrow> nat \<Rightarrow> nat" where
  "chunk_len n c =
     (let remaining = n - push_bit chunk_shift c in if chunk_size < remaining then chunk_size else remaining)"

text \<open>Reads of R vectors by index; out of range is undefined.\<close>

definition elt_at :: "'a list \<Rightarrow> nat \<Rightarrow> fault + 'a" where
  "elt_at xs i = (if i < length xs then Inr (xs ! i) else Inl Undefined)"

definition set_elt_at :: "'a list \<Rightarrow> nat \<Rightarrow> 'a \<Rightarrow> fault + 'a list" where
  "set_elt_at xs i x = (if i < length xs then Inr (xs[i := x]) else Inl Undefined)"

definition charvec_Get :: "'c charvec \<Rightarrow> fault + store" where
  "charvec_Get v = (case cv_store v of None \<Rightarrow> Inl Undefined | Some st \<Rightarrow> Inr st)"

definition charvec_Length :: "'c charvec \<Rightarrow> fault + nat" where
  "charvec_Length v =
     (case cv_data2 v of
        Some xs \<Rightarrow> Inr (length xs)
      | None \<Rightarrow> and_then (charvec_Get v) (\<lambda>st. Inr (store_size st)))"

text \<open>The finalizer: the store is deleted and the pointer cleared.\<close>

definition charvec_Finalize :: "'c charvec \<Rightarrow> heap \<Rightarrow> 'c charvec \<times> heap" where
  "charvec_Finalize v h =
     (case cv_store v of
        None \<Rightarrow> (v, h)
      | Some st \<Rightarrow> (v\<lparr>cv_store := None\<rparr>, store_free st h))"

section \<open>Elements\<close>

text \<open>\<open>EltChunk\<close>: the chunk of element \<open>i\<close>, allocated on first touch (all blank).\<close>

definition EltChunk :: "'c r_strings \<Rightarrow> 'c charvec \<Rightarrow> nat \<Rightarrow> heap \<Rightarrow> (fault + 'c list) \<times> 'c charvec \<times> heap" where
  "EltChunk R v i h =
     (let c = drop_bit chunk_shift i
      in case cv_chunks v of
           Some chunks \<Rightarrow>
             (case elt_at chunks c of
                Inl e \<Rightarrow> (Inl e, v, h)
              | Inr (Some chunk) \<Rightarrow> (Inr chunk, v, h)
              | Inr None \<Rightarrow>
                  (case charvec_Get v of
                     Inl e \<Rightarrow> (Inl e, v, h)
                   | Inr st \<Rightarrow>
                       let chunk = replicate (chunk_len (store_size st) c) (R_BlankString R)
                       in (case allocVector (8 * length chunk) h of
                             (Inl e, h1) \<Rightarrow> (Inl e, v, h1)
                           | (Inr u, h1) \<Rightarrow>
                               (Inr chunk, v\<lparr>cv_chunks := Some (chunks[c := Some chunk])\<rparr>, h1))))
         | None \<Rightarrow>
             (case charvec_Get v of
                Inl e \<Rightarrow> (Inl e, v, h)
              | Inr st \<Rightarrow>
                  let n = store_size st; chunks = replicate (chunk_count n) None;
                      chunk = replicate (chunk_len n c) (R_BlankString R)
                  in (case allocVector (8 * length chunks) h of
                        (Inl e, h1) \<Rightarrow> (Inl e, v, h1)
                      | (Inr u, h1) \<Rightarrow>
                          let v1 = v\<lparr>cv_chunks := Some chunks\<rparr>
                          in (case allocVector (8 * length chunk) h1 of
                                (Inl e, h2) \<Rightarrow> (Inl e, v1, h2)
                              | (Inr u, h2) \<Rightarrow>
                                  (case set_elt_at chunks c (Some chunk) of
                                     Inl e \<Rightarrow> (Inl e, v1, h2)
                                   | Inr chunks' \<Rightarrow> (Inr chunk, v1\<lparr>cv_chunks := Some chunks'\<rparr>, h2))))))"

text \<open>A write into the chunk of element \<open>i\<close> writes through to the cache.\<close>

definition set_chunk_elt :: "'c charvec \<Rightarrow> nat \<Rightarrow> 'c \<Rightarrow> fault + 'c charvec" where
  "set_chunk_elt v i x =
     (case cv_chunks v of
        None \<Rightarrow> Inr v
      | Some chunks \<Rightarrow>
          and_then (elt_at chunks (drop_bit chunk_shift i)) (\<lambda>chunk.
            case chunk of
              None \<Rightarrow> Inr v
            | Some xs \<Rightarrow>
                and_then (set_elt_at xs (i AND chunk_mask) x) (\<lambda>xs'.
                  Inr (v\<lparr>cv_chunks := Some (chunks[drop_bit chunk_shift i := Some xs'])\<rparr>))))"

definition string_Elt :: "'c r_strings \<Rightarrow> 'c charvec \<Rightarrow> nat \<Rightarrow> heap \<Rightarrow> (fault + 'c) \<times> 'c charvec \<times> heap" where
  "string_Elt R v i h =
     (case cv_data2 v of
        Some xs \<Rightarrow> (elt_at xs i, v, h)
      | None \<Rightarrow>
          (case EltChunk R v i h of
             (Inl e, v1, h1) \<Rightarrow> (Inl e, v1, h1)
           | (Inr chunk, v1, h1) \<Rightarrow>
               (case elt_at chunk (i AND chunk_mask) of
                  Inl e \<Rightarrow> (Inl e, v1, h1)
                | Inr elt \<Rightarrow>
                    if elt \<noteq> R_BlankString R then (Inr elt, v1, h1)
                    else
                      (case and_then (charvec_Get v1) (\<lambda>st. and_then (store_view st i) (make_charsxp R h1)) of
                         Inl e \<Rightarrow> (Inl e, v1, h1)
                       | Inr elt' \<Rightarrow>
                           if elt' \<noteq> R_BlankString R
                           then (case set_chunk_elt v1 i elt' of
                                   Inl e \<Rightarrow> (Inl e, v1, h1)
                                 | Inr v2 \<Rightarrow> (Inr elt', v2, h1))
                           else (Inr elt', v1, h1)))))"

definition string_Set_elt ::
    "'c r_strings \<Rightarrow> 'c charvec \<Rightarrow> nat \<Rightarrow> 'c \<Rightarrow> heap \<Rightarrow> (fault + unit) \<times> 'c charvec \<times> heap" where
  "string_Set_elt R v i new_val h =
     (case cv_data2 v of
        Some xs \<Rightarrow>
          (case set_elt_at xs i new_val of
             Inl e \<Rightarrow> (Inl e, v, h)
           | Inr xs' \<Rightarrow> (Inr (), v\<lparr>cv_data2 := Some xs'\<rparr>, h))
      | None \<Rightarrow>
          (case (case and_then (charvec_Get v) (\<lambda>st. and_then (charsxp_to_view R h new_val) (\<lambda>view. Inr (st, view))) of
                   Inl e \<Rightarrow> (Inl e, v, h)
                 | Inr (st, view) \<Rightarrow>
                     (case store_assign st i view h of
                        (Inl e, st', h1) \<Rightarrow> (Inl e, v\<lparr>cv_store := Some st'\<rparr>, h1)
                      | (Inr u, st', h1) \<Rightarrow>
                          (case set_chunk_elt (v\<lparr>cv_store := Some st'\<rparr>) i new_val of
                             Inl e \<Rightarrow> (Inl e, v\<lparr>cv_store := Some st'\<rparr>, h1)
                           | Inr v1 \<Rightarrow> (Inr (), v1, h1)))) of
             (r, v', h') \<Rightarrow> (charport_sexp_guard ''charvec Set_elt'' r, v', h')))"

fun store_no_NA :: "store \<Rightarrow> nat list \<Rightarrow> fault + bool" where
  "store_no_NA st [] = Inr True"
| "store_no_NA st (i # is) =
     and_then (store_view st i) (\<lambda>v. if strview_is_na v then Inr False else store_no_NA st is)"

fun no_NA_scan :: "'c r_strings \<Rightarrow> 'c list \<Rightarrow> bool" where
  "no_NA_scan R [] = True"
| "no_NA_scan R (x # xs) = (if x = NA_STRING R then False else no_NA_scan R xs)"

definition charvec_no_NA :: "'c r_strings \<Rightarrow> 'c charvec \<Rightarrow> fault + bool" where
  "charvec_no_NA R v =
     (case cv_data2 v of
        Some xs \<Rightarrow> Inr (no_NA_scan R xs)
      | None \<Rightarrow> and_then (charvec_Get v) (\<lambda>st. store_no_NA st [0..<store_size st]))"

section \<open>Materializing\<close>

text \<open>A promoted chunk is filled in place, so an R error leaves what was filled.\<close>

fun promote_chunk :: "'c r_strings \<Rightarrow> store \<Rightarrow> heap \<Rightarrow> nat list \<Rightarrow> 'c list \<Rightarrow> (fault + unit) \<times> 'c list" where
  "promote_chunk R st h [] xs = (Inr (), xs)"
| "promote_chunk R st h (i # is) xs =
     (case elt_at xs i of
        Inl e \<Rightarrow> (Inl e, xs)
      | Inr p \<Rightarrow>
          if p = R_BlankString R
          then (case and_then (store_view st i) (make_charsxp R h) of
                  Inl e \<Rightarrow> (Inl e, xs)
                | Inr x \<Rightarrow> promote_chunk R st h is (xs[i := x]))
          else promote_chunk R st h is xs)"

definition make_elt :: "'c r_strings \<Rightarrow> store \<Rightarrow> heap \<Rightarrow> nat \<Rightarrow> 'c list \<Rightarrow> fault + 'c list" where
  "make_elt R st h i out =
     and_then (store_view st i) (\<lambda>v. and_then (make_charsxp R h v) (set_elt_at out i))"

definition copy_elt :: "'c r_strings \<Rightarrow> store \<Rightarrow> heap \<Rightarrow> 'c list \<Rightarrow> nat \<Rightarrow> nat \<Rightarrow> 'c list \<Rightarrow> fault + 'c list" where
  "copy_elt R st h src start i out =
     and_then (elt_at src (i - start)) (\<lambda>elt.
       if elt = R_BlankString R then make_elt R st h i out else set_elt_at out i elt)"

definition copy_chunk ::
    "'c r_strings \<Rightarrow> store \<Rightarrow> heap \<Rightarrow> 'c list option list \<Rightarrow> nat \<Rightarrow> 'c list \<Rightarrow> fault + 'c list" where
  "copy_chunk R st h chunks c out =
     (let start = push_bit chunk_shift c; stop = start + chunk_len (store_size st) c
      in and_then (elt_at chunks c) (\<lambda>chunk.
           case chunk of
             None \<Rightarrow> for_each (make_elt R st h) [start..<stop] out
           | Some src \<Rightarrow> for_each (copy_elt R st h src start) [start..<stop] out))"

definition install_materialized :: "'c charvec \<Rightarrow> 'c list \<Rightarrow> heap \<Rightarrow> 'c charvec \<times> heap" where
  "install_materialized v xs h =
     (case charvec_Finalize (v\<lparr>cv_data2 := Some xs\<rparr>) h of (v1, h1) \<Rightarrow> (v1\<lparr>cv_chunks := None\<rparr>, h1))"

text \<open>The only chunk, when there is exactly one and it is allocated.\<close>

definition single_chunk :: "'c charvec \<Rightarrow> 'c list option" where
  "single_chunk v = (case cv_chunks v of Some [Some chunk] \<Rightarrow> Some chunk | _ \<Rightarrow> None)"

definition charvec_Materialize :: "'c r_strings \<Rightarrow> 'c charvec \<Rightarrow> heap \<Rightarrow> (fault + 'c list) \<times> 'c charvec \<times> heap" where
  "charvec_Materialize R v h =
     (case cv_data2 v of
        Some xs \<Rightarrow> (Inr xs, v, h)
      | None \<Rightarrow>
          (case charvec_Get v of
             Inl e \<Rightarrow> (Inl e, v, h)
           | Inr st \<Rightarrow>
               let n = store_size st
               in (case single_chunk v of
                     Some chunk \<Rightarrow>
                       (case promote_chunk R st h [0..<n] chunk of
                          (Inl e, xs) \<Rightarrow> (Inl e, v\<lparr>cv_chunks := Some [Some xs]\<rparr>, h)
                        | (Inr u, xs) \<Rightarrow>
                            (case install_materialized v xs h of (v1, h1) \<Rightarrow> (Inr xs, v1, h1)))
                   | None \<Rightarrow>
                       (case allocVector (8 * n) h of
                          (Inl e, h1) \<Rightarrow> (Inl e, v, h1)
                        | (Inr u, h1) \<Rightarrow>
                            (case (case cv_chunks v of
                                     None \<Rightarrow> for_each (make_elt R st h1) [0..<n] (replicate n (R_BlankString R))
                                   | Some chunks \<Rightarrow>
                                       for_each (copy_chunk R st h1 chunks) [0..<length chunks]
                                         (replicate n (R_BlankString R))) of
                               Inl e \<Rightarrow> (Inl e, v, h1)
                             | Inr xs \<Rightarrow>
                                 (case install_materialized v xs h1 of (v1, h2) \<Rightarrow> (Inr xs, v1, h2)))))))"

definition MaterializeGuarded :: "'c r_strings \<Rightarrow> 'c charvec \<Rightarrow> heap \<Rightarrow> (fault + 'c list) \<times> 'c charvec \<times> heap" where
  "MaterializeGuarded R v h =
     (case charvec_Materialize R v h of
        (r, v', h') \<Rightarrow> (charport_sexp_guard ''charvec materialize'' r, v', h'))"

text \<open>\<open>Dataptr\<close> and \<open>Dataptr_or_null\<close>: the elements the pointer shows.\<close>

definition charvec_Dataptr :: "'c r_strings \<Rightarrow> 'c charvec \<Rightarrow> heap \<Rightarrow> (fault + 'c list) \<times> 'c charvec \<times> heap" where
  "charvec_Dataptr R v h = MaterializeGuarded R v h"

definition charvec_Dataptr_or_null :: "'c charvec \<Rightarrow> 'c list option" where
  "charvec_Dataptr_or_null v = cv_data2 v"

section \<open>What the instance stands for\<close>

text \<open>The cache agrees with the elements \<open>vs\<close>: each entry is blank (a miss) or the element.\<close>

definition cache_ok :: "'c r_strings \<Rightarrow> 'c list option list \<Rightarrow> (fault + 'c) list \<Rightarrow> bool" where
  "cache_ok R chunks vs \<longleftrightarrow>
     length chunks = chunk_count (length vs) \<and>
     (\<forall>c < length chunks. \<forall>chunk. chunks ! c = Some chunk \<longrightarrow>
        length chunk = chunk_len (length vs) c \<and>
        (\<forall>j < length chunk. chunk ! j = R_BlankString R \<or> vs ! (1024 * c + j) = Inr (chunk ! j)))"

text \<open>
  The instance stands for \<open>vs\<close>, what R gets for each element: a \<open>CHARSXP\<close>, or the error R
  raises on making it. Before materializing it owns a private store; afterwards nothing.
\<close>

definition charvec_holds :: "'c r_strings \<Rightarrow> 'c charvec \<Rightarrow> heap \<Rightarrow> (fault + 'c) list \<Rightarrow> bool" where
  "charvec_holds R v h vs \<longleftrightarrow>
     (case cv_data2 v of
        Some xs \<Rightarrow> cv_store v = None \<and> cv_chunks v = None \<and> vs = map Inr xs
      | None \<Rightarrow>
          (\<exists>st es. cv_store v = Some st \<and> store_private st h es \<and> vs = map (charsxp_of R) es \<and>
             (\<forall>chunks. cv_chunks v = Some chunks \<longrightarrow> cache_ok R chunks vs)))"

definition charvec_slices :: "'c charvec \<Rightarrow> blk set" where
  "charvec_slices v = (case cv_store v of None \<Rightarrow> {} | Some st \<Rightarrow> set (st_slices st))"

text \<open>Chunk arithmetic.\<close>

lemma chunk_arith [simp]:
  "drop_bit chunk_shift i = i div 1024" "push_bit chunk_shift i = 1024 * i" "i AND chunk_mask = i mod 1024"
  "chunk_size = 1024"
proof -
  show 1: "drop_bit chunk_shift i = i div 1024" "push_bit chunk_shift i = 1024 * i"
    by (simp_all add: chunk_shift_def drop_bit_eq_div push_bit_eq_mult)
  show 2: "chunk_size = 1024" by (simp add: chunk_size_def chunk_shift_def push_bit_eq_mult)
  have "chunk_mask = mask 10" by (simp add: chunk_mask_def 2 mask_eq_exp_minus_1)
  then have "i AND chunk_mask = take_bit 10 i" by (simp only: take_bit_eq_mask)
  then show "i AND chunk_mask = i mod 1024" by (simp add: take_bit_eq_mod)
qed

lemma chunk_count_eq: "chunk_count n = n div 1024 + (if n mod 1024 \<noteq> 0 then 1 else 0)"
  by (simp add: chunk_count_def)

lemma chunk_len_eq: "chunk_len n c = min 1024 (n - 1024 * c)"
  by (simp add: chunk_len_def Let_def)

lemma chunk_of_elt:
  assumes "i < n"
  shows "i div 1024 < chunk_count n" and "i mod 1024 < chunk_len n (i div 1024)"
proof -
  show "i div 1024 < chunk_count n"
    using assms div_le_mono [of i n 1024]
    by (auto simp: chunk_count_eq le_neq_implies_less elim!: order.strict_trans2)
  have "i mod 1024 < n - 1024 * (i div 1024)" using assms mult_div_mod_eq [of 1024 i] by linarith
  then show "i mod 1024 < chunk_len n (i div 1024)" by (simp add: chunk_len_eq)
qed

lemma blank_cache_ok:
  "cache_ok R (replicate (chunk_count (length vs)) None) vs"
  by (simp add: cache_ok_def)

lemma cache_okD:
  assumes "cache_ok R chunks vs" and "c < length chunks" and "chunks ! c = Some chunk"
  shows "length chunk = chunk_len (length vs) c"
    and "j < length chunk \<Longrightarrow> chunk ! j = R_BlankString R \<or> vs ! (1024 * c + j) = Inr (chunk ! j)"
  using assms by (simp_all add: cache_ok_def)

lemma cache_ok_blank_chunk:
  assumes "cache_ok R chunks vs" and "c < length chunks"
  shows "cache_ok R (chunks[c := Some (replicate (chunk_len (length vs) c) (R_BlankString R))]) vs"
  using assms by (auto simp: cache_ok_def nth_list_update)

lemma cache_ok_chunk:
  assumes "cache_ok R chunks vs" and "i < length vs" and "chunks ! (i div 1024) = Some chunk"
  shows "i div 1024 < length chunks" and "i mod 1024 < length chunk"
    and "chunk ! (i mod 1024) = R_BlankString R \<or> vs ! i = Inr (chunk ! (i mod 1024))"
proof -
  show c: "i div 1024 < length chunks" using assms chunk_of_elt(1) by (simp add: cache_ok_def)
  with assms show j: "i mod 1024 < length chunk" using chunk_of_elt(2) by (simp add: cache_ok_def)
  have i: "1024 * (i div 1024) + i mod 1024 = i" by simp
  from assms(1) c assms(3) j have "chunk ! (i mod 1024) = R_BlankString R \<or>
      vs ! (1024 * (i div 1024) + i mod 1024) = Inr (chunk ! (i mod 1024))"
    unfolding cache_ok_def by blast
  then show "chunk ! (i mod 1024) = R_BlankString R \<or> vs ! i = Inr (chunk ! (i mod 1024))" unfolding i .
qed

text \<open>Writing element \<open>i\<close> of \<open>vs\<close> and of the cache together.\<close>

lemma cache_ok_set:
  assumes ok: "cache_ok R chunks vs" and i: "i < length vs" and c: "chunks ! (i div 1024) = Some chunk"
  shows "cache_ok R (chunks[i div 1024 := Some (chunk[i mod 1024 := x])]) (vs[i := Inr x])"
proof -
  have iff: "1024 * c + j = i \<longleftrightarrow> c = i div 1024 \<and> j = i mod 1024" if "j < chunk_len (length vs) c" for c j
    using that by (auto simp: chunk_len_eq)
  show ?thesis
    unfolding cache_ok_def
  proof (intro conjI allI impI)
    show "length (chunks[i div 1024 := Some (chunk[i mod 1024 := x])]) = chunk_count (length (vs[i := Inr x]))"
      using ok by (simp add: cache_ok_def)
  next
    fix c' chunk' assume c': "c' < length (chunks[i div 1024 := Some (chunk[i mod 1024 := x])])"
      "chunks[i div 1024 := Some (chunk[i mod 1024 := x])] ! c' = Some chunk'"
    show "length chunk' = chunk_len (length (vs[i := Inr x])) c'"
      using cache_okD(1) [OF ok _ c] cache_okD(1) [OF ok, of c' chunk'] c' by (cases "c' = i div 1024") auto
    fix j assume j: "j < length chunk'"
    then show "chunk' ! j = R_BlankString R \<or> vs[i := Inr x] ! (1024 * c' + j) = Inr (chunk' ! j)"
    proof (cases "c' = i div 1024")
      case True
      then have ch: "chunk' = chunk[i mod 1024 := x]" using c' by simp
      show ?thesis
      proof (cases "j = i mod 1024")
        case True
        then have "1024 * c' + j = i" using \<open>c' = i div 1024\<close> by simp
        then show ?thesis using i ch True j by simp
      next
        case False
        have "j < length chunk" "length chunk = chunk_len (length vs) c'"
          using j ch ok c c' True by (simp_all add: cache_ok_def)
        moreover from this have "1024 * c' + j \<noteq> i" using iff [of j c'] False by simp
        moreover have "chunk ! j = R_BlankString R \<or> vs ! (1024 * c' + j) = Inr (chunk ! j)"
          using ok c c' True calculation(1) by (simp add: cache_ok_def)
        ultimately show ?thesis using ch False by simp
      qed
    next
      case False
      then have "chunks ! c' = Some chunk'" "c' < length chunks" using c' by simp_all
      then have "length chunk' = chunk_len (length vs) c'"
        and "chunk' ! j = R_BlankString R \<or> vs ! (1024 * c' + j) = Inr (chunk' ! j)"
        using ok j by (simp_all add: cache_ok_def)
      moreover from this(1) have "1024 * c' + j \<noteq> i" using iff [of j c'] False j by simp
      ultimately show ?thesis by simp
    qed
  qed
qed

lemma cache_ok_set_untouched:
  assumes ok: "cache_ok R chunks vs" and i: "i < length vs" and c: "chunks ! (i div 1024) = None"
  shows "cache_ok R chunks (vs[i := y])"
proof -
  have far: "i \<noteq> 1024 * c' + j" if "chunks ! c' = Some chunk'" "c' < length chunks" "j < length chunk'" for c' chunk' j
  proof
    assume i': "i = 1024 * c' + j"
    have "length chunk' = chunk_len (length vs) c'" using ok that(1,2) by (simp add: cache_ok_def)
    then have "j < 1024" using that(3) by (simp add: chunk_len_eq)
    then have "i div 1024 = c'" using i' by auto
    with c that(1) show False by simp
  qed
  have "chunk' ! j = R_BlankString R \<or> vs[i := y] ! (1024 * c' + j) = Inr (chunk' ! j)"
    if "chunks ! c' = Some chunk'" "c' < length chunks" "j < length chunk'" for c' chunk' j
    using cache_okD(2) [OF ok that(2,1,3)] far [OF that] by simp
  then show ?thesis using ok by (simp add: cache_ok_def)
qed

section \<open>Elt and Set_elt\<close>

lemma private_same:
  assumes "store_private st h es" and "blocks h' = blocks h" and "next_blk h' = next_blk h"
  shows "store_private st h' es"
proof -
  have "heap_ok h'" using assms by (simp add: store_private_def store_holds_def heap_ok_def)
  with assms store_holds_frame [of st h es h'] show ?thesis by (simp add: store_private_def)
qed

lemma charvec_holds_same:
  assumes "charvec_holds R v h vs" and "blocks h' = blocks h" and "next_blk h' = next_blk h"
  shows "charvec_holds R v h' vs"
  using assms private_same [OF _ assms(2,3)] by (auto simp: charvec_holds_def split: option.splits)

lemma private_elt:
  assumes "store_private st h es" and "i < length es" and "blocks h' = blocks h"
  shows "and_then (store_view st i) (make_charsxp R h') = charsxp_of R (es ! i)"
proof -
  have st: "store_holds st h es" using assms(1) by (simp add: store_private_def)
  have "mem_read h' p k = mem_read h p k" for p k by (rule mem_read_cong) (simp add: assms(3))
  then have "view_content h' (rt_at (st_records st) i) = Some (es ! i)"
    using store_holds_nth(1) [OF st assms(2)] view_content_cong by metis
  then show ?thesis using store_holds_view [OF st assms(2)] by (simp add: make_charsxp_content)
qed

text \<open>What an unmaterialized instance is made of.\<close>

lemma charvec_holds_store:
  assumes "charvec_holds R v h vs" and "cv_data2 v = None"
  obtains st es where "cv_store v = Some st" "store_private st h es" "vs = map (charsxp_of R) es"
    "charvec_Get v = Inr st" "store_size st = length vs" "length es = length vs"
    "\<And>chunks. cv_chunks v = Some chunks \<Longrightarrow> cache_ok R chunks vs"
proof -
  from assms obtain st es where s: "cv_store v = Some st" "store_private st h es" "vs = map (charsxp_of R) es"
    "\<And>chunks. cv_chunks v = Some chunks \<Longrightarrow> cache_ok R chunks vs"
    by (auto simp: charvec_holds_def)
  moreover have "store_size st = length es" using s(2) store_holds_size by (auto simp: store_private_def)
  ultimately show ?thesis by (intro that [of st es]) (simp_all add: charvec_Get_def)
qed

lemma EltChunk_ok:
  assumes hold: "charvec_holds R v h vs" and d: "cv_data2 v = None" and i: "i < length vs"
    and f: "EltChunk R v i h = (r, v', h')"
  shows "blocks h' = blocks h \<and> next_blk h' = next_blk h \<and> can_alloc h' = can_alloc h \<and>
    cv_store v' = cv_store v \<and> cv_data2 v' = None \<and> charvec_holds R v' h' vs \<and>
    (case r of Inl e \<Rightarrow> (\<exists>m. e = R_error m) \<and> (\<exists>n m. \<not> can_alloc h n m)
     | Inr chunk \<Rightarrow> \<exists>chunks. cv_chunks v' = Some chunks \<and> chunks ! (i div 1024) = Some chunk)"
proof -
  obtain st es where s: "cv_store v = Some st" "store_private st h es" "vs = map (charsxp_of R) es"
    "charvec_Get v = Inr st" "store_size st = length vs" "length es = length vs"
    "\<And>chunks. cv_chunks v = Some chunks \<Longrightarrow> cache_ok R chunks vs" using charvec_holds_store [OF hold d] by metis
  have hold': "charvec_holds R (v\<lparr>cv_chunks := Some chunks\<rparr>) h1 vs"
    if "cache_ok R chunks vs" "blocks h1 = blocks h" "next_blk h1 = next_blk h" for chunks h1
    using private_same [OF s(2) that(2,3)] s(1,3) d that(1) by (auto simp: charvec_holds_def)
  note av = allocVector_blocks allocVector_can_alloc
  show ?thesis
  proof (cases "cv_chunks v")
    case (Some chunks)
    then have ok: "cache_ok R chunks vs" using s(7) by simp
    then have c: "i div 1024 < length chunks" using i chunk_of_elt(1) by (simp add: cache_ok_def)
    show ?thesis
    proof (cases "chunks ! (i div 1024)")
      case None
      obtain q h1 where a: "allocVector (8 * chunk_len (length vs) (i div 1024)) h = (q, h1)" by fastforce
      note al = av(1) [OF a] av(2) [OF a]
      let ?new = "chunks[i div 1024 := Some (replicate (chunk_len (length vs) (i div 1024)) (R_BlankString R))]"
      show ?thesis
      proof (cases q)
        case (Inl e)
        then have "r = Inl e" "v' = v" "h' = h1"
          using f Some None s(4,5) c a by (simp_all add: EltChunk_def elt_at_def Let_def)
        then show ?thesis
          using al allocVector_fail [OF a [unfolded Inl]] charvec_holds_same [OF hold] d by simp
      next
        case (Inr u)
        then have "r = Inr (replicate (chunk_len (length vs) (i div 1024)) (R_BlankString R))"
          "v' = v\<lparr>cv_chunks := Some ?new\<rparr>" "h' = h1"
          using f Some None s(4,5) c a by (simp_all add: EltChunk_def elt_at_def Let_def)
        then show ?thesis using al c d hold' [OF cache_ok_blank_chunk [OF ok c]] by simp
      qed
    next
      case (Some chunk)
      then have "r = Inr chunk" "v' = v" "h' = h"
        using f \<open>cv_chunks v = Some chunks\<close> c by (simp_all add: EltChunk_def elt_at_def)
      then show ?thesis using hold d \<open>cv_chunks v = Some chunks\<close> Some by simp
    qed
  next
    case None
    let ?chunks = "replicate (chunk_count (length vs)) None :: 'a list option list"
    let ?blank = "replicate (chunk_len (length vs) (i div 1024)) (R_BlankString R)"
    have c: "i div 1024 < chunk_count (length vs)" using chunk_of_elt(1) [OF i] .
    obtain q h1 where a: "allocVector (8 * chunk_count (length vs)) h = (q, h1)" by fastforce
    note al = av(1) [OF a] av(2) [OF a]
    show ?thesis
    proof (cases q)
      case (Inl e)
      then have "r = Inl e" "v' = v" "h' = h1"
        using f None s(4,5) a by (simp_all add: EltChunk_def Let_def)
      then show ?thesis
        using al allocVector_fail [OF a [unfolded Inl]] charvec_holds_same [OF hold] d by simp
    next
      case (Inr u)
      obtain q2 h2 where a2: "allocVector (8 * chunk_len (length vs) (i div 1024)) h1 = (q2, h2)" by fastforce
      note al2 = av(1) [OF a2] av(2) [OF a2]
      show ?thesis
      proof (cases q2)
        case (Inl e)
        then have "r = Inl e" "v' = v\<lparr>cv_chunks := Some ?chunks\<rparr>" "h' = h2"
          using f None s(4,5) a Inr a2 by (simp_all add: EltChunk_def Let_def)
        then show ?thesis
          using al al2 allocVector_fail [OF a2 [unfolded Inl]] d hold' [OF blank_cache_ok] by simp
      next
        case (Inr u2)
        then have "r = Inr ?blank" "v' = v\<lparr>cv_chunks := Some (?chunks[i div 1024 := Some ?blank])\<rparr>" "h' = h2"
          using f None s(4,5) a \<open>q = Inr u\<close> a2 c by (simp_all add: EltChunk_def Let_def set_elt_at_def)
        then show ?thesis
          using al al2 d c hold' [OF cache_ok_blank_chunk [OF blank_cache_ok]] by simp
      qed
    qed
  qed
qed

lemma set_chunk_elt_ok:
  assumes ok: "\<And>chunks. cv_chunks v = Some chunks \<Longrightarrow> cache_ok R chunks vs" and i: "i < length vs"
  obtains v' where "set_chunk_elt v i x = Inr v'" and "cv_store v' = cv_store v" and "cv_data2 v' = cv_data2 v"
    and "\<And>chunks. cv_chunks v' = Some chunks \<Longrightarrow> cache_ok R chunks (vs[i := Inr x])"
proof (cases "cv_chunks v")
  case None
  then show ?thesis by (intro that [of v]) (simp_all add: set_chunk_elt_def)
next
  case (Some chunks)
  note ok' = ok [OF Some]
  then have c: "i div 1024 < length chunks" using i chunk_of_elt(1) by (simp add: cache_ok_def)
  show ?thesis
  proof (cases "chunks ! (i div 1024)")
    case None
    with Some c have "set_chunk_elt v i x = Inr v" by (simp add: set_chunk_elt_def elt_at_def)
    then show ?thesis using that [of v] cache_ok_set_untouched [OF ok' i None] Some by simp
  next
    case chunk: (Some chunk)
    let ?v = "v\<lparr>cv_chunks := Some (chunks[i div 1024 := Some (chunk[i mod 1024 := x])])\<rparr>"
    have "set_chunk_elt v i x = Inr ?v"
      using Some c chunk cache_ok_chunk(2) [OF ok' i chunk] by (simp add: set_chunk_elt_def elt_at_def set_elt_at_def)
    then show ?thesis using that [of ?v] cache_ok_set [OF ok' i chunk] by simp
  qed
qed

lemma string_Elt_ok:
  assumes hold: "charvec_holds R v h vs" and i: "i < length vs" and f: "string_Elt R v i h = (r, v', h')"
  shows "blocks h' = blocks h \<and> next_blk h' = next_blk h \<and> can_alloc h' = can_alloc h \<and>
    cv_store v' = cv_store v \<and> charvec_holds R v' h' vs \<and>
    (r = vs ! i \<or> (\<exists>m. r = Inl (R_error m)) \<and> (\<exists>n m. \<not> can_alloc h n m))"
proof (cases "cv_data2 v")
  case (Some xs)
  then have "vs = map Inr xs" using hold by (simp add: charvec_holds_def)
  with Some i f hold show ?thesis by (auto simp: string_Elt_def elt_at_def)
next
  case None
  obtain q v1 h1 where e: "EltChunk R v i h = (q, v1, h1)" by (metis prod_cases3)
  note ec = EltChunk_ok [OF hold None i e]
  show ?thesis
  proof (cases q)
    case (Inl e)
    then have "r = Inl e" "v' = v1" "h' = h1"
      using f None \<open>EltChunk R v i h = (q, v1, h1)\<close> by (simp_all add: string_Elt_def)
    then show ?thesis using ec Inl by simp
  next
    case (Inr chunk)
    then obtain chunks where ch: "cv_chunks v1 = Some chunks" "chunks ! (i div 1024) = Some chunk" using ec by auto
    have hold1: "charvec_holds R v1 h1 vs" "cv_data2 v1 = None" using ec by simp_all
    obtain st es where s: "cv_store v1 = Some st" "store_private st h1 es" "vs = map (charsxp_of R) es"
      "charvec_Get v1 = Inr st" "length es = length vs"
      "\<And>chunks. cv_chunks v1 = Some chunks \<Longrightarrow> cache_ok R chunks vs"
      using charvec_holds_store [OF hold1] by metis
    note hit = cache_ok_chunk [OF s(6) [OF ch(1)] i ch(2)]
    have ie: "i < length es" using i s(5) by simp
    have mint: "and_then (charvec_Get v1) (\<lambda>st. and_then (store_view st i) (make_charsxp R h1)) = vs ! i"
      using private_elt [OF s(2) ie refl] ie by (simp add: s(3,4))
    show ?thesis
    proof (cases "chunk ! (i mod 1024) = R_BlankString R")
      case False
      then have "r = vs ! i" "v' = v1" "h' = h1"
        using f None e Inr hit by (simp_all add: string_Elt_def elt_at_def)
      then show ?thesis using ec by simp
    next
      case True
      show ?thesis
      proof (cases "vs ! i")
        case (Inl er)
        then have "r = vs ! i" "v' = v1" "h' = h1"
          using f None e Inr hit(2) True mint by (simp_all add: string_Elt_def elt_at_def)
        then show ?thesis using ec by simp
      next
        case elt: (Inr x)
        obtain v2 where v2: "set_chunk_elt v1 i x = Inr v2" "cv_store v2 = cv_store v1" "cv_data2 v2 = cv_data2 v1"
          "\<And>chunks. cv_chunks v2 = Some chunks \<Longrightarrow> cache_ok R chunks (vs[i := Inr x])"
          using set_chunk_elt_ok [OF s(6) i] by metis
        have same: "vs[i := Inr x] = vs" using list_update_id [of vs i] elt by simp
        have "charvec_holds R v2 h1 vs"
          using v2(4) [unfolded same] v2(2,3) hold1(2) s(1-3) by (auto simp: charvec_holds_def)
        moreover have "r = vs ! i" "v' = (if x = R_BlankString R then v1 else v2)" "h' = h1"
          using f None e Inr hit(2) True mint elt v2(1)
          by (auto simp: string_Elt_def elt_at_def split: if_splits)
        ultimately show ?thesis using ec v2(2) by simp
      qed
    qed
  qed
qed

lemma charvec_slices_store: "cv_store v = Some st \<Longrightarrow> charvec_slices v = set (st_slices st)"
  by (simp add: charvec_slices_def)

lemma string_Set_elt_ok:
  assumes hold: "charvec_holds R v h vs" and i: "i < length vs"
    and x: "charsxp_live R h x" "charsxp_cache R h x" and f: "string_Set_elt R v i x h = (r, v', h')"
  shows "can_alloc h' = can_alloc h \<and> (case r of
      Inl e \<Rightarrow> (\<exists>m. e = R_error m) \<and> (\<exists>n m. \<not> can_alloc h n m) \<and> blocks h' = blocks h \<and>
        next_blk h' = next_blk h \<and> v' = v
    | Inr u \<Rightarrow> charvec_holds R v' h' (vs[i := Inr x]) \<and> takes_only (charvec_slices v) (charvec_slices v') h h')"
proof (cases "cv_data2 v")
  case (Some xs)
  then have vs: "vs = map Inr xs" and none: "cv_store v = None" "cv_chunks v = None"
    using hold by (simp_all add: charvec_holds_def)
  then have "r = Inr ()" "v' = v\<lparr>cv_data2 := Some (xs[i := x])\<rparr>" "h' = h"
    using Some i f by (simp_all add: string_Set_elt_def set_elt_at_def)
  then show ?thesis using vs none by (simp add: charvec_holds_def charvec_slices_def map_update)
next
  case None
  obtain st es where s: "cv_store v = Some st" "store_private st h es" "vs = map (charsxp_of R) es"
    "charvec_Get v = Inr st" "length es = length vs"
    "\<And>chunks. cv_chunks v = Some chunks \<Longrightarrow> cache_ok R chunks vs"
    using charvec_holds_store [OF hold None] by metis
  obtain view where view: "charsxp_to_view R h x = Inr view" "view_content h view = Some (charsxp_element R h x)"
    using charsxp_to_view_live [OF x(1)] by blast
  have na: "strview_is_na view \<longrightarrow> sv_enc view = CETYPE_EXT_NA"
    using view x(1) by (auto simp: charsxp_to_view_def charsxp_live_def strview_is_na_def split: sum.splits if_splits)
  have ie: "i < length es" using i s(5) by simp
  obtain q st' h1 where a: "store_assign st i view h = (q, st', h1)" by (metis prod_cases3)
  note as = store_assign_spec [OF s(2) ie view(2) na, unfolded a]
  have alloc: "can_alloc h1 = can_alloc h" using store_assign_can_alloc [OF a] .
  show ?thesis
  proof (cases q)
    case (Inl e)
    then have e: "e = Bad_alloc" "st' = st" "blocks h1 = blocks h" "next_blk h1 = next_blk h"
      "\<exists>n m. \<not> can_alloc h n m" using as by (simp_all add: assigned_def)
    have "v\<lparr>cv_store := Some st\<rparr> = v" using s(1) by (cases v) simp
    then have r: "v' = v" "h' = h1" "r = charport_sexp_guard ''charvec Set_elt'' (Inl e)"
      using f None s(4) view(1) a Inl e(2) by (auto simp: string_Set_elt_def)
    then obtain m where "r = Inl (R_error m)" using e(1) by simp
    then show ?thesis using e alloc r by simp
  next
    case (Inr u)
    let ?v = "v\<lparr>cv_store := Some st'\<rparr>"
    have ok: "cache_ok R chunks vs" if "cv_chunks ?v = Some chunks" for chunks using s(6) that by simp
    obtain v1 where v1: "set_chunk_elt ?v i x = Inr v1" "cv_store v1 = Some st'" "cv_data2 v1 = None"
      "\<And>chunks. cv_chunks v1 = Some chunks \<Longrightarrow> cache_ok R chunks (vs[i := Inr x])"
      using set_chunk_elt_ok [OF ok i, where x = x] None by (metis (no_types, lifting) charvec.select_convs(1,3)
          charvec.surjective charvec.update_convs(1))
    have r: "r = Inr ()" "v' = v1" "h' = h1"
      using f None s(4) view(1) a Inr v1(1) by (auto simp: string_Set_elt_def)
    have st': "store_private st' h1 (es[i := charsxp_element R h x])"
      "takes_only (set (st_slices st)) (set (st_slices st')) h h1" using as Inr by (simp_all add: assigned_def)
    have "vs[i := Inr x] = map (charsxp_of R) (es[i := charsxp_element R h x])"
      using s(3) charsxp_of_element [OF x(2)] by (simp add: map_update)
    then have "charvec_holds R v1 h1 (vs[i := Inr x])"
      using st'(1) v1 by (auto simp: charvec_holds_def)
    then show ?thesis using r st'(2) alloc s(1) v1(2) by (simp add: charvec_slices_store)
  qed
qed

section \<open>Materialize, no_NA and Length\<close>

text \<open>All elements, or the first error.\<close>

fun collect :: "(fault + 'a) list \<Rightarrow> fault + 'a list" where
  "collect [] = Inr []"
| "collect (Inl e # vs) = Inl e"
| "collect (Inr x # vs) = and_then (collect vs) (\<lambda>xs. Inr (x # xs))"

lemma collect_Inr [simp]: "collect (map Inr xs) = Inr xs"
  by (induction xs) simp_all

lemma collect_Inl: "i < length vs \<Longrightarrow> vs ! i = Inl e \<Longrightarrow> (\<And>j. j < i \<Longrightarrow> \<exists>x. vs ! j = Inr x) \<Longrightarrow> collect vs = Inl e"
proof (induction vs arbitrary: i)
  case (Cons v vs)
  show ?case
  proof (cases i)
    case 0
    with Cons.prems show ?thesis by simp
  next
    case (Suc k)
    then obtain x where v: "v = Inr x" using Cons.prems(3) [of 0] by auto
    have "\<exists>x. vs ! j = Inr x" if "j < k" for j using Cons.prems(3) [of "Suc j"] that Suc by simp
    then have "collect vs = Inl e" using Cons.prems(1,2) Suc by (intro Cons.IH [of k]) simp_all
    with v show ?thesis by simp
  qed
qed simp

text \<open>Elements below \<open>i\<close> are made.\<close>

definition made :: "(fault + 'c) list \<Rightarrow> nat \<Rightarrow> 'c list \<Rightarrow> bool" where
  "made vs i out \<longleftrightarrow> length out = length vs \<and> (\<forall>j < i. vs ! j = Inr (out ! j))"

lemma made_all: "made vs (length vs) out \<Longrightarrow> vs = map Inr out"
  by (intro nth_equalityI) (simp_all add: made_def)

lemma made_step: "made vs i out \<Longrightarrow> i < length vs \<Longrightarrow> vs ! i = Inr x \<Longrightarrow> made vs (Suc i) (out[i := x])"
  by (auto simp: made_def less_Suc_eq nth_list_update)

lemma made_error: "made vs i out \<Longrightarrow> i < length vs \<Longrightarrow> vs ! i = Inl e \<Longrightarrow> collect vs = Inl e"
  by (rule collect_Inl) (auto simp: made_def)

lemma make_elt_result:
  assumes st: "store_private st h es" and vs: "vs = map (charsxp_of R) es" and b: "blocks h' = blocks h"
    and i: "i < length vs" and m: "made vs i out"
  shows "case make_elt R st h' i out of Inl e \<Rightarrow> collect vs = Inl e | Inr out' \<Rightarrow> made vs (Suc i) out'"
proof -
  have ie: "i < length es" "i < length out" using i vs m by (simp_all add: made_def)
  obtain v where v: "store_view st i = Inr v" using store_holds_view [OF _ ie(1)] st by (auto simp: store_private_def)
  have mk: "make_charsxp R h' v = vs ! i"
    using private_elt [OF st ie(1) b] v ie(1) by (simp add: vs)
  show ?thesis
    using made_step [OF m i] made_error [OF m i] v mk ie(2)
    by (cases "vs ! i") (simp_all add: make_elt_def set_elt_at_def)
qed

lemma copy_elt_result:
  assumes st: "store_private st h es" and vs: "vs = map (charsxp_of R) es" and b: "blocks h' = blocks h"
    and i: "i < length vs" and m: "made vs i out"
    and j: "start \<le> i" "i - start < length src" and src: "src ! (i - start) = R_BlankString R \<or> vs ! i = Inr (src ! (i - start))"
  shows "case copy_elt R st h' src start i out of Inl e \<Rightarrow> collect vs = Inl e | Inr out' \<Rightarrow> made vs (Suc i) out'"
proof (cases "src ! (i - start) = R_BlankString R")
  case True
  then show ?thesis using make_elt_result [OF st vs b i m] j by (simp add: copy_elt_def elt_at_def)
next
  case False
  have "i < length out" using i m by (simp add: made_def)
  then show ?thesis using False src made_step [OF m i] j by (simp add: copy_elt_def elt_at_def set_elt_at_def)
qed

lemma promote_chunk_result:
  assumes st: "store_private st h es" and vs: "vs = map (charsxp_of R) es"
    and "i \<le> length vs" and "made vs i xs" and "\<And>j. j < length vs \<Longrightarrow> xs ! j = R_BlankString R \<or> vs ! j = Inr (xs ! j)"
    and "promote_chunk R st h [i..<length vs] xs = (q, xs')"
  shows "length xs' = length vs \<and> (\<forall>j < length vs. xs' ! j = R_BlankString R \<or> vs ! j = Inr (xs' ! j)) \<and>
    (case q of Inl e \<Rightarrow> collect vs = Inl e | Inr u \<Rightarrow> vs = map Inr xs')"
  using assms(3-)
proof (induction "length vs - i" arbitrary: i xs)
  case 0
  then have "i = length vs" "q = Inr ()" "xs' = xs" by simp_all
  with 0 show ?case using made_all [of vs xs] by (auto simp: made_def)
next
  case (Suc m)
  have i: "i < length vs" using Suc.hyps(2) by simp
  have len: "length xs = length vs" using Suc.prems(2) by (simp add: made_def)
  have ie: "i < length es" using i vs by simp
  have mint: "and_then (store_view st i) (make_charsxp R h) = vs ! i" using private_elt [OF st ie refl] ie vs by simp
  have m: "m = length vs - Suc i" "Suc i \<le> length vs" using Suc.hyps(2) i by simp_all
  note up = upt_conv_Cons [OF i]
  show ?case
  proof (cases "xs ! i = R_BlankString R")
    case False
    then have e: "vs ! i = Inr (xs ! i)" using Suc.prems(3) [OF i] by simp
    have "made vs (Suc i) xs" using made_step [OF Suc.prems(2) i e] by simp
    moreover have "promote_chunk R st h [Suc i..<length vs] xs = (q, xs')"
      using Suc.prems(4) False i len by (simp add: up elt_at_def)
    ultimately show ?thesis using Suc.hyps(1) [OF m] Suc.prems(3) by blast
  next
    case True
    show ?thesis
    proof (cases "vs ! i")
      case (Inl e)
      then have "q = Inl e" "xs' = xs" using Suc.prems(4) True i len mint by (simp_all add: up elt_at_def)
      then show ?thesis using made_error [OF Suc.prems(2) i Inl] Suc.prems(3) len by simp
    next
      case (Inr x)
      have "made vs (Suc i) (xs[i := x])" using made_step [OF Suc.prems(2) i Inr] .
      moreover have "promote_chunk R st h [Suc i..<length vs] (xs[i := x]) = (q, xs')"
        using Suc.prems(4) True i len mint Inr by (simp add: up elt_at_def)
      moreover have "xs[i := x] ! j = R_BlankString R \<or> vs ! j = Inr (xs[i := x] ! j)" if "j < length vs" for j
        using Suc.prems(3) [OF that] Inr len that by (cases "j = i") simp_all
      ultimately show ?thesis using Suc.hyps(1) [OF m] by blast
    qed
  qed
qed

text \<open>All chunks of the cache, in order.\<close>

lemma chunk_stop: "1024 * c \<le> n \<Longrightarrow> 1024 * c + chunk_len n c = min n (1024 * Suc c)"
  by (simp add: chunk_len_eq)

lemma chunk_count_stop: "c < chunk_count n \<Longrightarrow> 1024 * c < n" "n \<le> 1024 * chunk_count n"
proof -
  have n: "n = 1024 * (n div 1024) + n mod 1024" by simp
  show "1024 * c < n" if "c < chunk_count n"
  proof (cases "n mod 1024 = 0")
    case True
    then have "c < n div 1024" using that by (simp add: chunk_count_eq)
    then show ?thesis using n by linarith
  next
    case False
    then have "c \<le> n div 1024" using that by (simp add: chunk_count_eq)
    then show ?thesis using n False by linarith
  qed
  have m: "n mod 1024 < 1024" by simp
  show "n \<le> 1024 * chunk_count n"
  proof (cases "n mod 1024 = 0")
    case True
    then have "chunk_count n = n div 1024" by (simp add: chunk_count_eq)
    then show ?thesis using n True by linarith
  next
    case False
    then have "chunk_count n = n div 1024 + 1" by (simp add: chunk_count_eq)
    then show ?thesis using n m by linarith
  qed
qed

lemma copy_chunk_result:
  assumes st: "store_private st h es" and vs: "vs = map (charsxp_of R) es" and b: "blocks h' = blocks h"
    and ok: "cache_ok R chunks vs" and c: "c < length chunks" and m: "made vs (min (length vs) (1024 * c)) out"
  shows "case copy_chunk R st h' chunks c out of
      Inl e \<Rightarrow> collect vs = Inl e | Inr out' \<Rightarrow> made vs (min (length vs) (1024 * Suc c)) out'"
proof -
  let ?n = "length vs"
  have n: "store_size st = ?n" using st store_holds_size by (auto simp: store_private_def vs)
  have start: "1024 * c < ?n" using c ok chunk_count_stop(1) by (simp add: cache_ok_def)
  then have stop: "1024 * c + chunk_len ?n c = min ?n (1024 * Suc c)" by (intro chunk_stop) simp
  have m': "made vs (1024 * c) out" using m start by (simp add: min_def)
  show ?thesis
  proof (cases "chunks ! c")
    case None
    have "case for_each (make_elt R st h') [1024 * c..<min ?n (1024 * Suc c)] out of
        Inl e \<Rightarrow> collect vs = Inl e | Inr out' \<Rightarrow> made vs (min ?n (1024 * Suc c)) out'"
      by (rule for_each_result [where P = "made vs"]) (use m' start make_elt_result [OF st vs b] in auto)
    then show ?thesis using c None n stop by (simp add: copy_chunk_def Let_def elt_at_def)
  next
    case (Some src)
    note d = cache_okD [OF ok c Some]
    have src: "i - 1024 * c < length src"
      "src ! (i - 1024 * c) = R_BlankString R \<or> vs ! i = Inr (src ! (i - 1024 * c))"
      if "1024 * c \<le> i" "i < min ?n (1024 * Suc c)" for i
    proof -
      show l: "i - 1024 * c < length src" using that d(1) by (simp add: chunk_len_eq) linarith
      show "src ! (i - 1024 * c) = R_BlankString R \<or> vs ! i = Inr (src ! (i - 1024 * c))"
        using d(2) [OF l] that(1) by simp
    qed
    have "case for_each (copy_elt R st h' src (1024 * c)) [1024 * c..<min ?n (1024 * Suc c)] out of
        Inl e \<Rightarrow> collect vs = Inl e | Inr out' \<Rightarrow> made vs (min ?n (1024 * Suc c)) out'"
    proof (rule for_each_result [where P = "made vs"])
      fix k s assume k: "1024 * c \<le> k" "k < min ?n (1024 * Suc c)" "made vs k s"
      then have "k < ?n" by simp
      from copy_elt_result [OF st vs b this k(3,1) src [OF k(1,2)]]
      show "case copy_elt R st h' src (1024 * c) k s of Inl e \<Rightarrow> collect vs = Inl e | Inr s' \<Rightarrow> made vs (Suc k) s'" .
    qed (use m' start in simp_all)
    then show ?thesis using c Some n stop by (simp add: copy_chunk_def Let_def elt_at_def)
  qed
qed

lemma store_free_private:
  assumes "store_private st h es"
  shows "blocks (store_free st h) = (\<lambda>b. if b \<in> set (st_slices st) then None else blocks h b)"
  by (simp add: store_free_def slice_clear_blocks fun_eq_iff)

lemma charvec_Materialize_ok:
  assumes hold: "charvec_holds R v h vs" and f: "charvec_Materialize R v h = (r, v', h')"
  shows "can_alloc h' = can_alloc h \<and> charvec_holds R v' h' vs \<and>
    (case r of
       Inl e \<Rightarrow> blocks h' = blocks h \<and> next_blk h' = next_blk h \<and> cv_store v' = cv_store v \<and>
         (collect vs = Inl e \<or> (\<exists>m. e = R_error m) \<and> (\<exists>n m. \<not> can_alloc h n m))
     | Inr xs \<Rightarrow> vs = map Inr xs \<and> cv_data2 v' = Some xs \<and> cv_store v' = None \<and>
         blocks h' = (\<lambda>b. if b \<in> charvec_slices v then None else blocks h b))"
proof (cases "cv_data2 v")
  case (Some xs)
  then have "vs = map Inr xs" "cv_store v = None" using hold by (simp_all add: charvec_holds_def)
  moreover have "r = Inr xs" "v' = v" "h' = h" using f Some by (simp_all add: charvec_Materialize_def)
  ultimately show ?thesis using hold Some by (simp add: charvec_slices_def)
next
  case None
  obtain st es where s: "cv_store v = Some st" "store_private st h es" "vs = map (charsxp_of R) es"
    "charvec_Get v = Inr st" "store_size st = length vs" "length es = length vs"
    "\<And>chunks. cv_chunks v = Some chunks \<Longrightarrow> cache_ok R chunks vs" using charvec_holds_store [OF hold None] by metis
  have install: "install_materialized v xs h1 = (v1, h2) \<Longrightarrow> blocks h1 = blocks h \<Longrightarrow> can_alloc h1 = can_alloc h \<Longrightarrow>
      vs = map Inr xs \<Longrightarrow>
      can_alloc h2 = can_alloc h \<and> charvec_holds R v1 h2 vs \<and> cv_data2 v1 = Some xs \<and> cv_store v1 = None \<and>
      blocks h2 = (\<lambda>b. if b \<in> charvec_slices v then None else blocks h b)" for xs h1 v1 h2
    using s(1) by (auto simp: install_materialized_def charvec_Finalize_def charvec_holds_def charvec_slices_def
        store_free_def slice_clear_blocks fun_eq_iff store_free_can_alloc [unfolded store_free_def])
  show ?thesis
  proof (cases "single_chunk v")
    case (Some chunk)
    then have ch: "cv_chunks v = Some [Some chunk]"
      by (auto simp: single_chunk_def split: option.splits list.splits)
    note ok = s(7) [OF ch]
    have one: "chunk_count (length vs) = 1" using ok by (simp add: cache_ok_def)
    have lc: "length chunk = length vs"
      using cache_okD(1) [OF ok, of 0] chunk_count_stop(2) [of "length vs"] one by (simp add: chunk_len_eq)
    have ent: "chunk ! j = R_BlankString R \<or> vs ! j = Inr (chunk ! j)" if "j < length vs" for j
      using cache_okD(2) [OF ok, of 0 chunk j] that lc by simp
    obtain q xs where p: "promote_chunk R st h [0..<length vs] chunk = (q, xs)" by fastforce
    have "made vs 0 chunk" using lc by (simp add: made_def)
    from promote_chunk_result [OF s(2,3) le0 this ent p] have pr: "length xs = length vs"
      "\<forall>j < length vs. xs ! j = R_BlankString R \<or> vs ! j = Inr (xs ! j)"
      "case q of Inl e \<Rightarrow> collect vs = Inl e | Inr u \<Rightarrow> vs = map Inr xs" by simp_all
    show ?thesis
    proof (cases q)
      case (Inl e)
      then have r: "r = Inl e" "v' = v\<lparr>cv_chunks := Some [Some xs]\<rparr>" "h' = h"
        using f None s(4,5) Some p by (simp_all add: charvec_Materialize_def)
      have "cache_ok R [Some xs] vs" using pr(1,2) one lc cache_okD(1) [OF ok, of 0] by (simp add: cache_ok_def)
      then have "charvec_holds R v' h' vs" using r None s(1-3) by (auto simp: charvec_holds_def)
      then show ?thesis using r pr(3) Inl by simp
    next
      case (Inr u)
      obtain v1 h1 where i: "install_materialized v xs h = (v1, h1)" by fastforce
      have "r = Inr xs" "v' = v1" "h' = h1"
        using f None s(4,5) Some p Inr i by (simp_all add: charvec_Materialize_def)
      then show ?thesis using install [OF i refl refl] pr(3) Inr by simp
    qed
  next
    case none: None
    obtain q h1 where a: "allocVector (8 * length vs) h = (q, h1)" by fastforce
    note al = allocVector_blocks [OF a] allocVector_can_alloc [OF a]
    show ?thesis
    proof (cases q)
      case (Inl e)
      then have "r = Inl e" "v' = v" "h' = h1" using f None none s(4,5) a by (simp_all add: charvec_Materialize_def)
      then show ?thesis using al allocVector_fail [OF a [unfolded Inl]] charvec_holds_same [OF hold] by simp
    next
      case (Inr u)
      let ?n = "length vs" and ?out = "replicate (length vs) (R_BlankString R)"
      define body where "body = (case cv_chunks v of
          None \<Rightarrow> for_each (make_elt R st h1) [0..<?n] ?out
        | Some chunks \<Rightarrow> for_each (copy_chunk R st h1 chunks) [0..<length chunks] ?out)"
      have b: "blocks h1 = blocks h" using al by simp
      have start: "made vs 0 ?out" by (simp add: made_def)
      have body: "case body of Inl e \<Rightarrow> collect vs = Inl e | Inr xs \<Rightarrow> made vs ?n xs"
      proof (cases "cv_chunks v")
        case None
        have "case for_each (make_elt R st h1) [0..<?n] ?out of Inl e \<Rightarrow> collect vs = Inl e | Inr xs \<Rightarrow> made vs ?n xs"
          by (rule for_each_result [where P = "made vs"]) (use start make_elt_result [OF s(2,3) b] in auto)
        then show ?thesis by (simp add: body_def None)
      next
        case (Some chunks)
        note ok = s(7) [OF Some]
        have "case for_each (copy_chunk R st h1 chunks) [0..<length chunks] ?out of
            Inl e \<Rightarrow> collect vs = Inl e | Inr xs \<Rightarrow> made vs (min ?n (1024 * length chunks)) xs"
          by (rule for_each_result [where P = "\<lambda>c. made vs (min ?n (1024 * c))"])
            (use start copy_chunk_result [OF s(2,3) b ok] in auto)
        moreover have all: "min ?n (1024 * length chunks) = ?n"
          using ok chunk_count_stop(2) [of ?n] by (simp add: cache_ok_def)
        ultimately show ?thesis unfolding all by (simp add: body_def Some)
      qed
      show ?thesis
      proof (cases body)
        case (Inl e)
        then have "r = Inl e" "v' = v" "h' = h1"
          using f None none s(4,5) a \<open>q = Inr u\<close> by (simp_all add: charvec_Materialize_def body_def)
        then show ?thesis using al body Inl charvec_holds_same [OF hold] by simp
      next
        case xs: (Inr xs)
        obtain v1 h2 where i: "install_materialized v xs h1 = (v1, h2)" by fastforce
        have "r = Inr xs" "v' = v1" "h' = h2"
          using f None none s(4,5) a Inr xs i by (simp_all add: charvec_Materialize_def body_def)
        moreover have "vs = map Inr xs" using body xs made_all by simp
        ultimately show ?thesis using install [OF i b] al by simp
      qed
    qed
  qed
qed

text \<open>R's \<open>NA_STRING\<close> is no string made from bytes, and \<open>mkCharLenCE\<close> fails by an R error.\<close>

definition r_strings_ok :: "'c r_strings \<Rightarrow> bool" where
  "r_strings_ok R \<longleftrightarrow>
     (\<forall>bs c. case mkCharLenCE R bs c of Inl e \<Rightarrow> (\<exists>m. e = R_error m) | Inr x \<Rightarrow> x \<noteq> NA_STRING R)"

lemma charsxp_of_NA_iff: "r_strings_ok R \<Longrightarrow> charsxp_of R e = Inr (NA_STRING R) \<longleftrightarrow> e = NA"
  unfolding r_strings_ok_def by (cases e) (auto split: sum.splits)

lemma no_NA_scan_iff: "no_NA_scan R xs \<longleftrightarrow> NA_STRING R \<notin> set xs"
  by (induction xs) auto

lemma store_no_NA_result:
  assumes st: "store_holds st h es" and "set is \<subseteq> {..<length es}"
  shows "store_no_NA st is = Inr (\<forall>i \<in> set is. es ! i \<noteq> NA)"
  using assms(2)
proof (induction "is")
  case (Cons i "is")
  then have i: "i < length es" by simp
  have "strview_is_na (rt_at (st_records st) i) \<longleftrightarrow> es ! i = NA"
    using store_holds_nth(1) [OF st i] view_content_NA by (metis option.inject)
  then show ?case using Cons store_holds_view [OF st i] by auto
qed simp

lemma charvec_no_NA_ok:
  assumes hold: "charvec_holds R v h vs" and R: "r_strings_ok R"
  shows "charvec_no_NA R v = Inr (Inr (NA_STRING R) \<notin> set vs)"
proof (cases "cv_data2 v")
  case (Some xs)
  then show ?thesis using hold by (auto simp: charvec_no_NA_def charvec_holds_def no_NA_scan_iff)
next
  case None
  obtain st es where s: "store_private st h es" "vs = map (charsxp_of R) es" "charvec_Get v = Inr st"
    "store_size st = length vs" using charvec_holds_store [OF hold None] by metis
  have st: "store_holds st h es" using s(1) by (simp add: store_private_def)
  have "(\<forall>i \<in> {0..<length es}. es ! i \<noteq> NA) \<longleftrightarrow> NA \<notin> set es" by (auto simp: in_set_conv_nth)
  also have "\<dots> \<longleftrightarrow> Inr (NA_STRING R) \<notin> set vs" unfolding s(2) set_map image_iff using charsxp_of_NA_iff [OF R] by metis
  finally have "(\<forall>i \<in> {0..<length es}. es ! i \<noteq> NA) \<longleftrightarrow> Inr (NA_STRING R) \<notin> set vs" .
  then show ?thesis using store_no_NA_result [OF st, of "[0..<length es]"] s(3,4)
    by (simp add: charvec_no_NA_def None s(2) atLeast0LessThan)
qed

lemma charvec_Length_ok: "charvec_holds R v h vs \<Longrightarrow> charvec_Length v = Inr (length vs)"
  by (auto simp: charvec_Length_def charvec_holds_def charvec_Get_def store_private_def
      dest: store_holds_size split: option.splits)

section \<open>Runs of operations\<close>

text \<open>What R calls on an instance, and what it gets back.\<close>

datatype 'c charvec_op = Op_Elt nat | Op_Set_elt nat 'c | Op_Length | Op_no_NA | Op_Dataptr

datatype 'c charvec_ret = Ret_elt 'c | Ret_unit | Ret_length nat | Ret_no_NA bool | Ret_elements "'c list"

definition returning :: "('a \<Rightarrow> 'b) \<Rightarrow> (fault + 'a) \<times> 's \<Rightarrow> (fault + 'b) \<times> 's" where
  "returning g res = (case res of (r, s) \<Rightarrow> (and_then r (\<lambda>x. Inr (g x)), s))"

fun run_op :: "'c r_strings \<Rightarrow> 'c charvec_op \<Rightarrow> 'c charvec \<Rightarrow> heap \<Rightarrow> (fault + 'c charvec_ret) \<times> 'c charvec \<times> heap" where
  "run_op R (Op_Elt i) v h = returning Ret_elt (string_Elt R v i h)"
| "run_op R (Op_Set_elt i x) v h = returning (\<lambda>u. Ret_unit) (string_Set_elt R v i x h)"
| "run_op R Op_Length v h = returning Ret_length (charvec_Length v, v, h)"
| "run_op R Op_no_NA v h = returning Ret_no_NA (charvec_no_NA R v, v, h)"
| "run_op R Op_Dataptr v h = returning Ret_elements (charvec_Dataptr R v h)"

fun run_ops ::
    "'c r_strings \<Rightarrow> 'c charvec_op list \<Rightarrow> 'c charvec \<Rightarrow> heap \<Rightarrow> (fault + 'c charvec_ret) list \<times> 'c charvec \<times> heap" where
  "run_ops R [] v h = ([], v, h)"
| "run_ops R (a # as) v h =
     (case run_op R a v h of
        (r, v1, h1) \<Rightarrow> (case run_ops R as v1 h1 of (rs, v2, h2) \<Rightarrow> (r # rs, v2, h2)))"

text \<open>The same operations on a plain character vector: a list, with no store, cache or state.\<close>

fun vec_op :: "'c r_strings \<Rightarrow> 'c charvec_op \<Rightarrow> (fault + 'c) list \<Rightarrow> (fault + 'c charvec_ret) \<times> (fault + 'c) list" where
  "vec_op R (Op_Elt i) vs = returning Ret_elt (vs ! i, vs)"
| "vec_op R (Op_Set_elt i x) vs = (Inr Ret_unit, vs[i := Inr x])"
| "vec_op R Op_Length vs = (Inr (Ret_length (length vs)), vs)"
| "vec_op R Op_no_NA vs = (Inr (Ret_no_NA (Inr (NA_STRING R) \<notin> set vs)), vs)"
| "vec_op R Op_Dataptr vs = returning Ret_elements (collect vs, vs)"

fun vec_ops ::
    "'c r_strings \<Rightarrow> 'c charvec_op list \<Rightarrow> (fault + 'c) list \<Rightarrow> (fault + 'c charvec_ret) list \<times> (fault + 'c) list" where
  "vec_ops R [] vs = ([], vs)"
| "vec_ops R (a # as) vs =
     (case vec_op R a vs of (r, vs1) \<Rightarrow> (case vec_ops R as vs1 of (rs, vs2) \<Rightarrow> (r # rs, vs2)))"

text \<open>A valid operation: indices in range, and assigned strings live outside the instance's slices.\<close>

fun op_ok :: "'c r_strings \<Rightarrow> nat \<Rightarrow> blk set \<Rightarrow> heap \<Rightarrow> 'c charvec_op \<Rightarrow> bool" where
  "op_ok R n B h (Op_Elt i) = (i < n)"
| "op_ok R n B h (Op_Set_elt i x) =
     (i < n \<and> charsxp_live R h x \<and> charsxp_cache R h x \<and>
      (x = NA_STRING R \<or> (\<forall>b. ptr_blk (CHAR_charsxp R x) = Some b \<longrightarrow> b \<notin> B)))"
| "op_ok R n B h a = True"

text \<open>Every live block outside the instance's slices stays as it is, and outside.\<close>

definition outside_kept :: "blk set \<Rightarrow> blk set \<Rightarrow> heap \<Rightarrow> heap \<Rightarrow> bool" where
  "outside_kept B B' h h' \<longleftrightarrow> (\<forall>b. b \<notin> B \<longrightarrow> blocks h b \<noteq> None \<longrightarrow> blocks h' b = blocks h b \<and> b \<notin> B')"

lemma outside_kept_trans: "outside_kept A B h h1 \<Longrightarrow> outside_kept B C h1 h2 \<Longrightarrow> outside_kept A C h h2"
  by (simp add: outside_kept_def)

lemma takes_only_outside_kept: "takes_only A B h h' \<Longrightarrow> outside_kept A B h h'"
  unfolding outside_kept_def using takes_only_outside by blast

lemma op_ok_kept:
  assumes "op_ok R n B h a" and k: "outside_kept B B' h h'"
  shows "op_ok R n B' h' a"
proof (cases a)
  case (Op_Set_elt i x)
  show ?thesis
  proof (cases "x = NA_STRING R")
    case True
    then show ?thesis using Op_Set_elt assms(1) by (simp add: charsxp_live_def charsxp_cache_def)
  next
    case False
    with Op_Set_elt assms(1) have x: "i < n" "charsxp_live R h x" "charsxp_cache R h x"
      "\<And>b. ptr_blk (CHAR_charsxp R x) = Some b \<Longrightarrow> b \<notin> B" by simp_all
    let ?p = "CHAR_charsxp R x"
    have blk: "blocks h' b = blocks h b \<and> b \<notin> B'" if "ptr_blk ?p = Some b" for b
    proof -
      have "blocks h b \<noteq> None" using x(2) False that by (cases ?p) (auto simp: charsxp_live_def split: option.splits)
      then show ?thesis using k x(4) [OF that] by (simp add: outside_kept_def)
    qed
    then have same: "mem_read h' ?p m = mem_read h ?p m" for m by (intro mem_read_cong) blast
    then show ?thesis
      using x(1-3) blk Op_Set_elt by (simp add: charsxp_live_def charsxp_cache_def charsxp_bytes_def)
  qed
qed (use assms in simp_all)

lemma length_vec_op [simp]: "length (snd (vec_op R a vs)) = length vs"
  by (cases a) (simp_all add: returning_def)

lemma collect_error: "collect vs = Inl e \<Longrightarrow> Inl e \<in> set vs"
proof (induction vs)
  case (Cons v vs)
  then show ?case by (cases v) (auto elim: and_then_cases)
qed simp

lemma charvec_holds_error:
  assumes "charvec_holds R v h vs" and "r_strings_ok R" and "Inl e \<in> set vs"
  shows "\<exists>m. e = R_error m"
proof (cases "cv_data2 v")
  case None
  obtain es where "vs = map (charsxp_of R) es" using charvec_holds_store [OF assms(1) None] by metis
  then obtain x where "charsxp_of R x = Inl e" using assms(3) by (metis (no_types, lifting) image_iff list.set_map)
  then show ?thesis
    using assms(2) by (cases x) (auto simp: r_strings_ok_def dest!: spec split: sum.splits)
next
  case (Some xs)
  then show ?thesis using assms(1,3) by (auto simp: charvec_holds_def)
qed

text \<open>An operation does what it does on the list, or is refused memory and changes no element.\<close>

lemma run_op_result:
  assumes hold: "charvec_holds R v h vs" and a: "op_ok R (length vs) (charvec_slices v) h a"
    and R: "r_strings_ok R" and run: "run_op R a v h = (r, v', h')"
  shows "outside_kept (charvec_slices v) (charvec_slices v') h h' \<and> can_alloc h' = can_alloc h \<and>
    (r = fst (vec_op R a vs) \<and> charvec_holds R v' h' (snd (vec_op R a vs)) \<or>
     (\<exists>m. r = Inl (R_error m)) \<and> charvec_holds R v' h' vs \<and> (\<exists>n m. \<not> can_alloc h n m))"
proof (cases a)
  case (Op_Elt i)
  obtain q where e: "string_Elt R v i h = (q, v', h')" and r: "r = and_then q (\<lambda>x. Inr (Ret_elt x))"
    using run Op_Elt by (auto simp: returning_def split: prod.splits)
  have i: "i < length vs" using a Op_Elt by simp
  note s = string_Elt_ok [OF hold i e]
  then have "charvec_slices v' = charvec_slices v" by (simp add: charvec_slices_def)
  with s r show ?thesis by (auto simp: Op_Elt returning_def outside_kept_def)
next
  case (Op_Set_elt i x)
  obtain q where e: "string_Set_elt R v i x h = (q, v', h')" and r: "r = and_then q (\<lambda>x. Inr Ret_unit)"
    using run Op_Set_elt by (auto simp: returning_def split: prod.splits)
  have i: "i < length vs" "charsxp_live R h x" "charsxp_cache R h x" using a Op_Set_elt by simp_all
  note s = string_Set_elt_ok [OF hold i e]
  show ?thesis
  proof (cases q)
    case (Inl f)
    with s charvec_holds_same [OF hold] r show ?thesis by (auto simp: outside_kept_def)
  next
    case (Inr u)
    with s r show ?thesis by (simp add: Op_Set_elt takes_only_outside_kept)
  qed
next
  case Op_Length
  then have "r = Inr (Ret_length (length vs))" "v' = v" "h' = h"
    using run charvec_Length_ok [OF hold] by (simp_all add: returning_def)
  then show ?thesis using hold by (simp add: Op_Length outside_kept_def)
next
  case Op_no_NA
  then have "r = Inr (Ret_no_NA (Inr (NA_STRING R) \<notin> set vs))" "v' = v" "h' = h"
    using run charvec_no_NA_ok [OF hold R] by (simp_all add: returning_def)
  then show ?thesis using hold by (simp add: Op_no_NA outside_kept_def)
next
  case Op_Dataptr
  obtain q where e: "charvec_Materialize R v h = (q, v', h')"
    and r: "r = and_then (charport_sexp_guard ''charvec materialize'' q) (\<lambda>x. Inr (Ret_elements x))"
    using run Op_Dataptr
    by (auto simp: returning_def charvec_Dataptr_def MaterializeGuarded_def split: prod.splits)
  note m = charvec_Materialize_ok [OF hold e]
  show ?thesis
  proof (cases q)
    case (Inl f)
    then have same: "blocks h' = blocks h" "cv_store v' = cv_store v" "charvec_holds R v' h' vs"
      "can_alloc h' = can_alloc h" and "collect vs = Inl f \<or> (\<exists>m. f = R_error m) \<and> (\<exists>n m. \<not> can_alloc h n m)"
      using m by simp_all
    then consider "collect vs = Inl f" | "\<exists>m. f = R_error m" "\<exists>n m. \<not> can_alloc h n m" by blast
    then show ?thesis
    proof cases
      case 1
      obtain n where "f = R_error n" using charvec_holds_error [OF hold R collect_error [OF 1]] by blast
      then show ?thesis
        using 1 same r Inl by (simp add: Op_Dataptr returning_def outside_kept_def charvec_slices_def)
    next
      case 2
      then show ?thesis using same r Inl by (auto simp: outside_kept_def charvec_slices_def)
    qed
  next
    case (Inr xs)
    then have "vs = map Inr xs" "charvec_slices v' = {}" using m by (simp_all add: charvec_slices_def)
    then show ?thesis using m r Inr by (simp add: Op_Dataptr returning_def outside_kept_def)
  qed
qed

text \<open>An instance of R's strings and of a charvec for the witnesses: a \<open>CHARSXP\<close> is its content,
  or nothing for \<open>NA_STRING\<close>.\<close>

definition demo_R :: "(u8 list \<times> cetype_t) option r_strings" where
  "demo_R = \<lparr>mkCharLenCE = (\<lambda>bs c. Inr (Some (bs, c))), CHAR_charsxp = (\<lambda>x. At 0 0),
     LENGTH_charsxp = (\<lambda>x. case x of None \<Rightarrow> 0 | Some (bs, c) \<Rightarrow> of_nat (length bs)),
     getCharCE = (\<lambda>x. case x of None \<Rightarrow> CE_NATIVE | Some (bs, c) \<Rightarrow> c),
     NA_STRING = None, R_BlankString = Some ([], CE_NATIVE)\<rparr>"

lemma demo_R_ok: "r_strings_ok demo_R"
  by (simp add: r_strings_ok_def demo_R_def)

lemma demo_charvec:
  obtains v h where "charvec_holds demo_R v h [Inr (Some ([104, 105], CE_UTF8)), Inr None]"
    and "\<And>n m. can_alloc h n m" and "mem_read h (At 0 0) 2 = Some [104, 105]" and "0 \<notin> charvec_slices v"
    and "cv_data2 v = None"
proof -
  obtain st h where st: "store_private st h [Str [104, 105] CETYPE_EXT_UTF8, NA]"
    "\<And>n m. can_alloc h n m" "mem_read h (At 0 0) 2 = Some [104, 105]" "0 \<notin> set (st_slices st)"
    by (rule demo_private_store) blast
  let ?v = "\<lparr>cv_store = Some st, cv_chunks = None, cv_data2 = None\<rparr>"
  have "map (charsxp_of demo_R) [Str [104, 105] CETYPE_EXT_UTF8, NA] = [Inr (Some ([104, 105], CE_UTF8)), Inr None]"
    by (simp add: demo_R_def to_base_encoding_def cetype_defs)
  then have "charvec_holds demo_R ?v h [Inr (Some ([104, 105], CE_UTF8)), Inr None]"
    using st(1) by (auto simp: charvec_holds_def intro!: exI [of _ "[Str [104, 105] CETYPE_EXT_UTF8, NA]"])
  then show ?thesis using st by (intro that [of ?v h]) (simp_all add: charvec_slices_def)
qed

lemma demo_op_ok:
  assumes "mem_read h (At 0 0) 2 = Some [104, 105]" and "0 \<notin> B" and "i < n"
  shows "op_ok demo_R n B h (Op_Set_elt i (Some ([104, 105], CE_UTF8)))"
  using assms by (simp add: charsxp_live_def charsxp_cache_def charsxp_bytes_def demo_R_def)

text \<open>C1. A charvec is a character vector: whatever sequence of element reads, assignments,
  length and NA queries and data pointer requests R makes on an instance, in any state of its cache and
  before or after it materializes, each call returns what it returns on a plain list of strings, and
  the instance stands for the list that results. Nothing outside its slices changes. (Memory does
  not run out here; the property on failing calls covers the other case.)\<close>

theorem charvec_refines_vector:
  assumes "charvec_holds R v h vs" and "list_all (op_ok R (length vs) (charvec_slices v) h) as"
    and "\<And>n m. can_alloc h n m" and "r_strings_ok R"
  shows "case run_ops R as v h of (rs, v', h') \<Rightarrow>
    rs = fst (vec_ops R as vs) \<and> charvec_holds R v' h' (snd (vec_ops R as vs)) \<and>
    outside_kept (charvec_slices v) (charvec_slices v') h h'"
  using assms(1-3)
proof (induction as arbitrary: v h vs)
  case Nil
  then show ?case by (simp add: outside_kept_def)
next
  case (Cons a as)
  obtain r v1 h1 where run: "run_op R a v h = (r, v1, h1)" by (metis prod_cases3)
  have a: "op_ok R (length vs) (charvec_slices v) h a" using Cons.prems(2) by simp
  from run_op_result [OF Cons.prems(1) a assms(4) run] Cons.prems(3)
  have s: "r = fst (vec_op R a vs)" "charvec_holds R v1 h1 (snd (vec_op R a vs))"
    "outside_kept (charvec_slices v) (charvec_slices v1) h h1" "can_alloc h1 = can_alloc h" by auto
  obtain vs1 where vs1: "vec_op R a vs = (r, vs1)" using s(1) by (metis prod.collapse)
  have len: "length vs1 = length vs" using length_vec_op [of R a vs] vs1 by simp
  note kept = s(3)
  have ok1: "list_all (op_ok R (length vs1) (charvec_slices v1) h1) as"
    using Cons.prems(2) op_ok_kept [OF _ kept] len by (auto simp: list_all_iff)
  have hold1: "charvec_holds R v1 h1 vs1" "\<And>n m. can_alloc h1 n m" using s(2,4) vs1 Cons.prems(3) by simp_all
  obtain rs v2 h2 where rest: "run_ops R as v1 h1 = (rs, v2, h2)" by (metis prod_cases3)
  from Cons.IH [OF hold1(1) ok1 hold1(2), unfolded rest] have rest':
    "rs = fst (vec_ops R as vs1)" "charvec_holds R v2 h2 (snd (vec_ops R as vs1))"
    "outside_kept (charvec_slices v1) (charvec_slices v2) h1 h2" by simp_all
  then show ?case using outside_kept_trans [OF kept] run rest vs1 by (auto split: prod.splits)
qed

theorem charvec_refines_vector_witness:
  "\<exists>v h rs v' h'. cv_data2 v = None \<and>
     run_ops demo_R [Op_no_NA, Op_Elt 0, Op_Set_elt 1 (Some ([104, 105], CE_UTF8)), Op_Elt 1, Op_Dataptr, Op_Elt 0] v h
       = (rs, v', h') \<and>
     rs = [Inr (Ret_no_NA False), Inr (Ret_elt (Some ([104, 105], CE_UTF8))), Inr Ret_unit,
       Inr (Ret_elt (Some ([104, 105], CE_UTF8))),
       Inr (Ret_elements [Some ([104, 105], CE_UTF8), Some ([104, 105], CE_UTF8)]),
       Inr (Ret_elt (Some ([104, 105], CE_UTF8)))]"
proof -
  let ?ops = "[Op_no_NA, Op_Elt 0, Op_Set_elt 1 (Some ([104, 105], CE_UTF8)), Op_Elt 1, Op_Dataptr, Op_Elt 0]"
  let ?vs = "[Inr (Some ([104, 105], CE_UTF8)), Inr None] :: (fault + (u8 list \<times> cetype_t) option) list"
  obtain v h where v: "charvec_holds demo_R v h ?vs" "\<And>n m. can_alloc h n m"
    "mem_read h (At 0 0) 2 = Some [104, 105]" "0 \<notin> charvec_slices v" "cv_data2 v = None"
    by (rule demo_charvec) blast
  have ok: "list_all (op_ok demo_R (length ?vs) (charvec_slices v) h) ?ops"
    using demo_op_ok [OF v(3,4), of 1 2] by simp
  obtain rs v' h' where r: "run_ops demo_R ?ops v h = (rs, v', h')" by (metis prod_cases3)
  from charvec_refines_vector [OF v(1) ok v(2) demo_R_ok, unfolded r]
  have "rs = fst (vec_ops demo_R ?ops ?vs)" by simp
  moreover have "fst (vec_ops demo_R ?ops ?vs) =
      [Inr (Ret_no_NA False), Inr (Ret_elt (Some ([104, 105], CE_UTF8))), Inr Ret_unit,
       Inr (Ret_elt (Some ([104, 105], CE_UTF8))),
       Inr (Ret_elements [Some ([104, 105], CE_UTF8), Some ([104, 105], CE_UTF8)]),
       Inr (Ret_elt (Some ([104, 105], CE_UTF8)))]"
    by (simp add: returning_def demo_R_def)
  ultimately show ?thesis using r v(5) by blast
qed

text \<open>C2. An operation on a charvec may fail for lack of memory only, and then it fails cleanly: every
  call either does exactly what it does on the plain vector, or raises an R error after a refused allocation
  and leaves all elements as they were. Nothing outside the instance's slices changes either way.\<close>

theorem charvec_operation_errors:
  assumes "charvec_holds R v h vs" and "op_ok R (length vs) (charvec_slices v) h a" and "r_strings_ok R"
  shows "case run_op R a v h of (r, v', h') \<Rightarrow>
    outside_kept (charvec_slices v) (charvec_slices v') h h' \<and>
    (r = fst (vec_op R a vs) \<and> charvec_holds R v' h' (snd (vec_op R a vs)) \<or>
     (\<exists>m. r = Inl (R_error m)) \<and> charvec_holds R v' h' vs \<and> (\<exists>n m. \<not> can_alloc h n m))"
  using run_op_result [OF assms] by (auto split: prod.splits)

theorem charvec_operation_errors_witness:
  "\<exists>v h v' h'. run_op demo_R (Op_Set_elt 1 (Some ([104, 105], CE_UTF8))) v h = (Inr Ret_unit, v', h') \<and>
     charvec_holds demo_R v' h' [Inr (Some ([104, 105], CE_UTF8)), Inr (Some ([104, 105], CE_UTF8))]"
proof -
  let ?vs = "[Inr (Some ([104, 105], CE_UTF8)), Inr None] :: (fault + (u8 list \<times> cetype_t) option) list"
  let ?a = "Op_Set_elt 1 (Some ([104, 105], CE_UTF8))"
  obtain v h where v: "charvec_holds demo_R v h ?vs" "\<And>n m. can_alloc h n m"
    "mem_read h (At 0 0) 2 = Some [104, 105]" "0 \<notin> charvec_slices v"
    by (rule demo_charvec) blast
  have ok: "op_ok demo_R (length ?vs) (charvec_slices v) h ?a"
    using demo_op_ok [OF v(3,4), of 1 2] by simp
  obtain r v' h' where r: "run_op demo_R ?a v h = (r, v', h')" by (metis prod_cases3)
  have "r = Inr Ret_unit"
    "charvec_holds demo_R v' h' [Inr (Some ([104, 105], CE_UTF8)), Inr (Some ([104, 105], CE_UTF8))]"
    using charvec_operation_errors [OF v(1) ok demo_R_ok] v(2) unfolding r by simp_all
  with r show ?thesis by blast
qed

end
