(* ===== verification/Cp_Wrap.thy ===== *)
theory Cp_Wrap
  imports Cp_Charvec
begin

text \<open>
  Handing stores to R and taking them back: the wrappers that make an instance own a store
  (\<open>src/charvec_altrep.h\<close>), the callables of \<open>src/charvec_api.cpp\<close>, and \<open>Builder::to_sexp\<close>
  of \<open>inst/include/charport/charvec/builder.h\<close>, which ends in one of them.
\<close>

section \<open>Ownership\<close>

text \<open>An R object outside the byte heap: making one may raise an R error.\<close>

definition alloc_object :: "heap \<Rightarrow> (fault + unit) \<times> heap" where
  "alloc_object h = allocVector 56 h"

definition new_charvec :: "store option \<Rightarrow> 'c charvec" where
  "new_charvec st = \<lparr>cv_store = st, cv_chunks = None, cv_data2 = None\<rparr>"

text \<open>The external pointer, its finalizer record and the ALTREP object.\<close>

definition make_shell :: "heap \<Rightarrow> (fault + unit) \<times> heap" where
  "make_shell h =
     (case alloc_object h of
        (Inl e, h1) \<Rightarrow> (Inl e, h1)
      | (Inr u, h1) \<Rightarrow>
          (case alloc_object h1 of
             (Inl e, h2) \<Rightarrow> (Inl e, h2)
           | (Inr u, h2) \<Rightarrow> alloc_object h2))"

text \<open>\<open>store_wrap_exec\<close> with the pending owner it leaves, and \<open>R_ExecWithCleanup\<close>, which runs the
  cleanup on every way out.\<close>

definition store_wrap_exec :: "store \<Rightarrow> heap \<Rightarrow> (fault + 'c charvec) \<times> store option \<times> heap" where
  "store_wrap_exec pending h =
     (case make_shell h of
        (Inl e, h1) \<Rightarrow> (Inl e, Some pending, h1)
      | (Inr u, h1) \<Rightarrow> (Inr (new_charvec (Some pending)), None, h1))"

definition store_wrap_cleanup :: "store option \<Rightarrow> heap \<Rightarrow> heap" where
  "store_wrap_cleanup pending h = (case pending of None \<Rightarrow> h | Some st \<Rightarrow> store_free st h)"

definition wrap_store_with_cleanup :: "store option \<Rightarrow> heap \<Rightarrow> (fault + 'c charvec) \<times> heap" where
  "wrap_store_with_cleanup source h =
     (case source of
        None \<Rightarrow> (Inl (R_error ''charvec wrap: source is NULL''), h)
      | Some st \<Rightarrow>
          (case store_wrap_exec st h of (r, pending, h1) \<Rightarrow> (r, store_wrap_cleanup pending h1)))"

text \<open>\<open>MoveStore\<close> moves the store out of \<open>source\<close> into a new owner; the second result is the
  source afterwards.\<close>

definition MoveStore :: "store option \<Rightarrow> heap \<Rightarrow> (fault + 'c charvec) \<times> store option \<times> heap" where
  "MoveStore source h =
     (case source of
        None \<Rightarrow> (Inl (R_error ''charvec MoveStore: source is NULL''), None, h)
      | Some st \<Rightarrow>
          (case make_shell h of
             (Inl e, h1) \<Rightarrow> (Inl e, Some st, h1)
           | (Inr u, h1) \<Rightarrow>
               (case try_alloc 48 h1 of
                  (ok, h2) \<Rightarrow>
                    if \<not> ok
                    then (Inl (R_error ''charvec MoveStore: could not allocate Store owner''), Some st, h2)
                    else (Inr (new_charvec (Some st)), Some store_empty, h2))))"

definition builder_to_sexp :: "builder \<Rightarrow> heap \<Rightarrow> (fault + 'c charvec) \<times> builder \<times> heap" where
  "builder_to_sexp b h =
     (let b1 = builder_finish_store b
      in case MoveStore (Some (bd_store b1)) h of
           (r, source, h1) \<Rightarrow> (r, b1\<lparr>bd_store := the source\<rparr>, h1))"

text \<open>\<open>Duplicate\<close>: a plain vector when materialized, else an instance with a copy of the store.\<close>

definition charvec_Duplicate :: "'c charvec \<Rightarrow> heap \<Rightarrow> (fault + 'c list + 'c charvec) \<times> heap" where
  "charvec_Duplicate v h =
     (case cv_data2 v of
        Some xs \<Rightarrow>
          (case allocVector (8 * length xs) h of
             (Inl e, h1) \<Rightarrow> (Inl e, h1)
           | (Inr u, h1) \<Rightarrow> (Inr (Inl xs), h1))
      | None \<Rightarrow>
          (case (case charvec_Get v of
                   Inl e \<Rightarrow> (Inl e, h)
                 | Inr source \<Rightarrow>
                     (case duplicate_store source h of
                        (Inl e, h1) \<Rightarrow> (Inl e, h1)
                      | (Inr st, h1) \<Rightarrow> wrap_store_with_cleanup (Some st) h1)) of
             (r, h') \<Rightarrow> (and_then (charport_sexp_guard ''charvec Duplicate'' r) (\<lambda>w. Inr (Inr w)), h')))"

text \<open>\<open>Extract_subset\<close>: \<open>None\<close> is the null that sends R to its default method; the index is
  \<open>None\<close> when it is neither integer nor double.\<close>

definition charvec_Extract_subset ::
    "'c charvec \<Rightarrow> r_index option \<Rightarrow> heap \<Rightarrow> (fault + 'c charvec option) \<times> heap" where
  "charvec_Extract_subset v indx h =
     (if cv_data2 v \<noteq> None then (Inr None, h)
      else
        (case indx of
           None \<Rightarrow> (Inr None, h)
         | Some idx \<Rightarrow>
             (case (case charvec_Get v of
                      Inl e \<Rightarrow> (Inl e, h)
                    | Inr source \<Rightarrow>
                        (case subset_store source (of_nat (store_size source)) (of_nat (r_index_length idx)) idx h of
                           (Inl e, h1) \<Rightarrow> (Inl e, h1)
                         | (Inr st, h1) \<Rightarrow> wrap_store_with_cleanup (Some st) h1)) of
                (r, h') \<Rightarrow> (and_then (charport_sexp_guard ''charvec Extract_subset'' r) (\<lambda>w. Inr (Some w)), h'))))"

section \<open>charvec_api.cpp\<close>

text \<open>What the callables are given: a charvec, a character vector of another kind, anything else.\<close>

datatype 'c sexp = Charvec_sexp "'c charvec" | Strings_sexp "'c list" | Object_sexp

fun is_charvec_sexp :: "'c sexp \<Rightarrow> bool" where
  "is_charvec_sexp (Charvec_sexp v) = True"
| "is_charvec_sexp x = False"

definition C_is_charvec :: "'c sexp \<Rightarrow> bool" where
  "C_is_charvec x = is_charvec_sexp x"

fun checked_store :: "'c sexp \<Rightarrow> fault + store" where
  "checked_store (Charvec_sexp v) =
     (if cv_data2 v \<noteq> None
      then Inl (Runtime_error ''charvec is materialized; its store has been released'')
      else (case cv_store v of
              None \<Rightarrow> Inl (Runtime_error ''charvec store pointer is null'')
            | Some st \<Rightarrow> Inr st))"
| "checked_store x = Inl (Runtime_error ''x must be a charvec'')"

text \<open>A length argument: \<open>Rf_asReal\<close> gives a double; the upper bound is \<open>2 ^ 63\<close> as a double.\<close>

definition checked_len_arg :: "double \<Rightarrow> fault + nat" where
  "checked_len_arg n =
     (case n of
        Not_finite \<Rightarrow> Inl (Runtime_error ''invalid length'')
      | Finite x \<Rightarrow>
          if x < 0 \<or> 2 ^ 63 < x then Inl (Runtime_error ''invalid length'') else Inr (nat \<lfloor>x\<rfloor>))"

text \<open>\<open>new cpv::Store(n, 0)\<close>, wrapped.\<close>

definition new_na_store :: "nat \<Rightarrow> heap \<Rightarrow> (fault + store) \<times> heap" where
  "new_na_store n h =
     (let (ok, h1) = try_alloc 48 h in if ok then store_new n 0 h1 else (Inl Bad_alloc, h1))"

definition alloc_wrapped :: "nat \<Rightarrow> heap \<Rightarrow> (fault + 'c charvec) \<times> heap" where
  "alloc_wrapped n h =
     (case new_na_store n h of
        (Inl e, h1) \<Rightarrow> (Inl e, h1)
      | (Inr st, h1) \<Rightarrow> wrap_store_with_cleanup (Some st) h1)"

definition charport_charvec_alloc_na_impl :: "R_xlen_t \<Rightarrow> heap \<Rightarrow> (fault + 'c charvec) \<times> heap" where
  "charport_charvec_alloc_na_impl n h =
     (if sint n < 0 then (Inl (R_error ''charport charvec alloc_na: negative length''), h)
      else (case alloc_wrapped (unat n) h of (r, h') \<Rightarrow> (charport_sexp_guard ''charvec alloc_na'' r, h')))"

definition C_charvec_alloc :: "double \<Rightarrow> heap \<Rightarrow> (fault + 'c charvec) \<times> heap" where
  "C_charvec_alloc n h =
     (case (case checked_len_arg n of Inl e \<Rightarrow> (Inl e, h) | Inr k \<Rightarrow> alloc_wrapped k h) of
        (r, h') \<Rightarrow> (charport_sexp_guard ''charvec_alloc'' r, h'))"

definition C_as_charvec :: "'c r_strings \<Rightarrow> 'c list option \<Rightarrow> heap \<Rightarrow> (fault + 'c charvec) \<times> heap" where
  "C_as_charvec R x h =
     (case (case x of
              None \<Rightarrow> (Inl (Runtime_error ''x must be a character vector''), h)
            | Some xs \<Rightarrow>
                (case store_from_chars R (of_nat (length xs)) xs h of
                   (Inl e, h1) \<Rightarrow> (Inl e, h1)
                 | (Inr st, h1) \<Rightarrow> wrap_store_with_cleanup (Some st) h1)) of
        (r, h') \<Rightarrow> (charport_sexp_guard ''as_charvec'' r, h'))"

definition charport_charvec_get_store_impl :: "'c sexp \<Rightarrow> store option" where
  "charport_charvec_get_store_impl x =
     (case x of
        Charvec_sexp v \<Rightarrow> if cv_data2 v \<noteq> None then None else if cv_chunks v \<noteq> None then None else cv_store v
      | _ \<Rightarrow> None)"

text \<open>\<open>value\<close> is the value argument when it is a character vector.\<close>

definition C_charvec_assign ::
    "'c r_strings \<Rightarrow> 'c sexp \<Rightarrow> double \<Rightarrow> 'c list option \<Rightarrow> heap \<Rightarrow> (fault + unit) \<times> 'c sexp \<times> heap" where
  "C_charvec_assign R x i_arg val h =
     (case (case x of
              Charvec_sexp v \<Rightarrow>
                (case val of
                   Some [new_val] \<Rightarrow>
                     (case charvec_Length v of
                        Inl e \<Rightarrow> (Inl e, x, h)
                      | Inr len \<Rightarrow>
                          (case i_arg of
                             Not_finite \<Rightarrow> (Inl (Runtime_error ''index out of bounds''), x, h)
                           | Finite i \<Rightarrow>
                               if i < 1 \<or> of_nat len < i
                               then (Inl (Runtime_error ''index out of bounds''), x, h)
                               else
                                 (case string_Set_elt R v (nat (\<lfloor>i\<rfloor> - 1)) new_val h of
                                    (r, v', h') \<Rightarrow> (r, Charvec_sexp v', h'))))
                 | _ \<Rightarrow> (Inl (Runtime_error ''value must be a character vector of length 1''), x, h))
            | _ \<Rightarrow> (Inl (Runtime_error ''x must be a charvec''), x, h)) of
        (r, x', h') \<Rightarrow> (charport_sexp_guard ''charvec_assign'' r, x', h'))"

definition C_charvec_compact :: "'c sexp \<Rightarrow> heap \<Rightarrow> (fault + unit) \<times> 'c sexp \<times> heap" where
  "C_charvec_compact x h =
     (case (case checked_store x of
              Inl e \<Rightarrow> (Inl e, x, h)
            | Inr st \<Rightarrow>
                (case compact_store st h of
                   (r, st', h') \<Rightarrow>
                     (r, (case x of Charvec_sexp v \<Rightarrow> Charvec_sexp (v\<lparr>cv_store := Some st'\<rparr>) | _ \<Rightarrow> x), h'))) of
        (r, x', h') \<Rightarrow> (charport_sexp_guard ''charvec_compact'' r, x', h'))"

text \<open>\<open>C_charvec_stats\<close>: length, number of slices (NA when materialized) and whether materialized.\<close>

definition C_charvec_stats :: "'c sexp \<Rightarrow> fault + nat \<times> nat option \<times> bool" where
  "C_charvec_stats x =
     charport_sexp_guard ''charvec_stats''
       (case x of
          Charvec_sexp v \<Rightarrow>
            (case cv_data2 v of
               Some xs \<Rightarrow> Inr (length xs, None, True)
             | None \<Rightarrow> and_then (checked_store x) (\<lambda>st. Inr (store_size st, Some (length (st_slices st)), False)))
        | _ \<Rightarrow> Inl (Runtime_error ''x must be a charvec''))"

section \<open>from_views\<close>

text \<open>A number in decimal, as \<open>printf\<close> writes it.\<close>

fun decimal :: "nat \<Rightarrow> string" where
  "decimal n =
     (if n < 10 then [char_of (48 + n)] else decimal (n div 10) @ [char_of (48 + n mod 10)])"

declare decimal.simps [simp del]

text \<open>The validation loop over the caller's arrays.\<close>

fun check_views :: "ptr list \<Rightarrow> c_int list \<Rightarrow> cetype_ext_t list \<Rightarrow> nat list \<Rightarrow> fault + unit" where
  "check_views ptrs lengths encodings [] = Inr ()"
| "check_views ptrs lengths encodings (i # is) =
     and_then (elt_at encodings i) (\<lambda>enc.
       if \<not> valid_view_encoding enc
       then Inl (R_error (''charport charvec from views: invalid encoding at index '' @ decimal i))
       else and_then (elt_at ptrs i) (\<lambda>p. and_then (elt_at lengths i) (\<lambda>len.
              if \<not> view_is_na p len enc \<and> sint len < 0
              then Inl (R_error (''charport charvec from views: negative length at index '' @ decimal i))
              else check_views ptrs lengths encodings is)))"

definition from_views_step :: "ptr list \<Rightarrow> c_int list \<Rightarrow> cetype_ext_t list \<Rightarrow> builder_step" where
  "from_views_step ptrs lengths encodings i b h =
     (case and_then (elt_at ptrs i) (\<lambda>p. and_then (elt_at lengths i) (\<lambda>len.
             and_then (elt_at encodings i) (\<lambda>enc. Inr (p, len, enc)))) of
        Inl e \<Rightarrow> (Inl e, b, h)
      | Inr (p, len, enc) \<Rightarrow>
          if view_is_na p len enc then builder_set_na b (of_nat i) h
          else builder_set b (of_nat i) p (scast len) enc h)"

text \<open>\<open>new charport::charvec::Builder(n)\<close>, of 104 bytes.\<close>

definition heap_builder :: "R_xlen_t \<Rightarrow> heap \<Rightarrow> (fault + builder) \<times> heap" where
  "heap_builder n h =
     (let (ok, h1) = try_alloc 104 h in if ok then builder_new n h1 else (Inl Bad_alloc, h1))"

definition charport_charvec_from_views_impl ::
    "R_xlen_t \<Rightarrow> ptr list option \<Rightarrow> c_int list option \<Rightarrow> cetype_ext_t list option \<Rightarrow> heap
      \<Rightarrow> (fault + 'c charvec) \<times> heap" where
  "charport_charvec_from_views_impl n ptrs lengths encodings h =
     (if sint n < 0 then (Inl (R_error ''charport charvec from views: negative length''), h)
      else if 0 < sint n \<and> (ptrs = None \<or> lengths = None \<or> encodings = None)
      then (Inl (R_error ''charport charvec from views: input arrays must not be NULL''), h)
      else
        let ps = (case ptrs of None \<Rightarrow> [] | Some xs \<Rightarrow> xs); ls = (case lengths of None \<Rightarrow> [] | Some xs \<Rightarrow> xs);
            cs = (case encodings of None \<Rightarrow> [] | Some xs \<Rightarrow> xs)
        in (case check_views ps ls cs [0..<unat n] of
              Inl e \<Rightarrow> (Inl e, h)
            | Inr u \<Rightarrow>
                (case heap_builder n h of
                   (Inl e, h1) \<Rightarrow> (charport_sexp_guard ''charvec from views'' (Inl e), h1)
                 | (Inr b, h1) \<Rightarrow>
                     (case builder_loop (from_views_step ps ls cs) [0..<unat n] b h1 of
                        (Inl e, b', h2) \<Rightarrow>
                          (charport_sexp_guard ''charvec from views'' (Inl e), builder_destroy b' h2)
                      | (Inr u, b', h2) \<Rightarrow>
                          (case builder_to_sexp b' h2 of (r, b'', h3) \<Rightarrow> (r, builder_destroy b'' h3))))))"

section \<open>What the wrappers do\<close>

lemma make_shell_ok:
  assumes "make_shell h = (r, h')"
  shows "blocks h' = blocks h \<and> next_blk h' = next_blk h \<and> can_alloc h' = can_alloc h \<and>
    (case r of Inl e \<Rightarrow> (\<exists>m. e = R_error m) \<and> (\<exists>k m. \<not> can_alloc h k m) | Inr u \<Rightarrow> True)"
  using assms
  by (auto simp: make_shell_def alloc_object_def allocVector_def try_alloc_def split: if_splits) blast+

lemma new_charvec_holds:
  assumes "store_private st h es"
  shows "charvec_holds R (new_charvec (Some st)) h (map (charsxp_of R) es)"
  using assms by (auto simp: charvec_holds_def new_charvec_def)

lemma wrap_store_ok:
  assumes st: "store_private st h es" and w: "wrap_store_with_cleanup (Some st) h = (r, h')"
  shows "case r of
      Inl e \<Rightarrow> (\<exists>m. e = R_error m) \<and> (\<exists>k m. \<not> can_alloc h k m) \<and>
        blocks h' = (\<lambda>b. if b \<in> set (st_slices st) then None else blocks h b)
    | Inr v \<Rightarrow> v = new_charvec (Some st) \<and> charvec_holds R v h' (map (charsxp_of R) es) \<and> blocks h' = blocks h"
proof -
  obtain q h1 where s: "make_shell h = (q, h1)" by fastforce
  note sh = make_shell_ok [OF s]
  show ?thesis
  proof (cases q)
    case (Inl e)
    then have "r = Inl e" "h' = store_free st h1"
      using w s by (simp_all add: wrap_store_with_cleanup_def store_wrap_exec_def store_wrap_cleanup_def)
    then show ?thesis using sh Inl by (simp add: store_free_def slice_clear_blocks fun_eq_iff)
  next
    case (Inr u)
    then have "r = Inr (new_charvec (Some st))" "h' = h1"
      using w s by (simp_all add: wrap_store_with_cleanup_def store_wrap_exec_def store_wrap_cleanup_def)
    then show ?thesis using sh by (simp add: new_charvec_holds [OF private_same [OF st]])
  qed
qed

text \<open>A store made since \<open>h\<close> and wrapped: an instance of its own, or every block as before.\<close>

lemma wrap_new_store:
  assumes "store_private st h1 es" and t: "takes_only {} (set (st_slices st)) h h1"
    and w: "wrap_store_with_cleanup (Some st) h1 = (r, h')"
  shows "case r of
      Inl e \<Rightarrow> (\<exists>m. e = R_error m) \<and> (\<exists>k m. \<not> can_alloc h1 k m) \<and> blocks h' = blocks h
    | Inr v \<Rightarrow> charvec_holds R v h' (map (charsxp_of R) es) \<and> charvec_slices v = set (st_slices st) \<and>
        takes_only {} (charvec_slices v) h h'"
proof -
  note ok = wrap_store_ok [OF assms(1) w]
  show ?thesis
  proof (cases r)
    case (Inl e)
    then show ?thesis using ok t by (auto simp: takes_only_def fun_eq_iff)
  next
    case (Inr v)
    then have v: "v = new_charvec (Some st)" "charvec_holds R v h' (map (charsxp_of R) es)" "blocks h' = blocks h1"
      using ok [where R = R] by auto
    then have "charvec_slices v = set (st_slices st)" by (simp add: charvec_slices_def new_charvec_def)
    then show ?thesis using v t Inr by (simp add: takes_only_def)
  qed
qed

lemma builder_to_sexp_ok:
  assumes b: "builder_holds b h1 es" and t: "takes_only {} (shard_owned (bd_shard b)) h h1"
    and s: "builder_to_sexp b h1 = (r, b', h')"
  shows "case r of
      Inl e \<Rightarrow> (\<exists>m. e = R_error m) \<and> (\<exists>k m. \<not> can_alloc h1 k m) \<and> blocks (builder_destroy b' h') = blocks h
    | Inr v \<Rightarrow> charvec_holds R v (builder_destroy b' h') (map (charsxp_of R) es) \<and>
        takes_only {} (charvec_slices v) h (builder_destroy b' h')"
proof -
  obtain st b0 where rel: "builder_release_store b = (st, b0)" by fastforce
  note p = builder_release_private [OF b rel] 
  have own: "set (st_slices st) = shard_owned (bd_shard b)" using builder_release_ok [OF b rel] by blast
  have fin: "bd_store (builder_finish_store b) = st" "bd_shard (builder_finish_store b) = shard_new"
    using rel by (auto simp: builder_release_store_def builder_finish_store_def Let_def split: prod.splits)
  have empty: "builder_destroy (builder_finish_store b\<lparr>bd_store := store_empty\<rparr>) x = x" for x
    by (simp add: builder_destroy_def fin store_free_def store_empty_def shard_new_def)
  have full: "blocks (builder_destroy (builder_finish_store b\<lparr>bd_store := st\<rparr>) x) =
      (\<lambda>b. if b \<in> set (st_slices st) then None else blocks x b)" for x
    by (simp add: builder_destroy_def fin store_free_def shard_new_def slice_clear_blocks fun_eq_iff)
  obtain q h2 where sh: "make_shell h1 = (q, h2)" by fastforce
  note shell = make_shell_ok [OF sh]
  show ?thesis
  proof (cases q)
    case (Inl e)
    then have "r = Inl e" "b' = builder_finish_store b\<lparr>bd_store := st\<rparr>" "h' = h2"
      using s sh fin by (simp_all add: builder_to_sexp_def MoveStore_def)
    then show ?thesis using shell Inl t full own by (auto simp: takes_only_def fun_eq_iff)
  next
    case (Inr u)
    obtain ok h3 where a: "try_alloc 48 h2 = (ok, h3)" by fastforce
    then have h3: "blocks h3 = blocks h1" "next_blk h3 = next_blk h1" "ok = can_alloc h1 (attempts h2) 48"
      using shell by (auto simp: try_alloc_def)
    show ?thesis
    proof (cases ok)
      case False
      then have "r = Inl (R_error ''charvec MoveStore: could not allocate Store owner'')"
        "b' = builder_finish_store b\<lparr>bd_store := st\<rparr>" "h' = h3"
        using s sh fin Inr a by (simp_all add: builder_to_sexp_def MoveStore_def)
      then show ?thesis using False h3 t full own by (auto simp: takes_only_def fun_eq_iff)
    next
      case True
      then have r: "r = Inr (new_charvec (Some st))" "b' = builder_finish_store b\<lparr>bd_store := store_empty\<rparr>" "h' = h3"
        using s sh fin Inr a by (simp_all add: builder_to_sexp_def MoveStore_def)
      have "charvec_holds R (new_charvec (Some st)) h3 (map (charsxp_of R) es)"
        using new_charvec_holds [OF private_same [OF p h3(1,2)]] .
      moreover have "takes_only {} (charvec_slices (new_charvec (Some st))) h h3"
        using t own h3(1) by (simp add: charvec_slices_def new_charvec_def takes_only_def)
      ultimately show ?thesis using r empty by simp
    qed
  qed
qed

section \<open>charvec_from_views\<close>

text \<open>A view of memory that was there before the builder is one it may copy from.\<close>

lemma builder_set_view_later:
  assumes b: "builder_holds b h1 es" and v: "view_content h v = Some e"
    and t: "takes_only {} (shard_owned (bd_shard b)) h h1"
  shows "builder_sets b h1 es i e True (builder_set_view b i v h1)"
proof (cases "strview_is_na v")
  case True
  with v builder_set_na_sets [OF b] show ?thesis by (simp add: builder_set_view_def view_content_def)
next
  case False
  have v1: "view_content h1 v = Some e" using takes_only_keeps [OF t] v by (rule view_content_keeps_live)
  have "foreign (shard_owned (bd_shard b)) v"
    unfolding foreign_def
  proof (intro allI impI)
    fix y
    assume y: "ptr_blk (sv_ptr v) = Some y"
    have "mem_read h (sv_ptr v) (unat (sv_len v)) \<noteq> None"
      using v False by (cases e) (auto simp: view_content_NA view_content_Str)
    then have "blocks h y \<noteq> None" using y by (cases "sv_ptr v") (auto split: option.splits)
    then show "y \<notin> shard_owned (bd_shard b)" using t by (auto simp: takes_only_def)
  qed
  from builder_set_view_sets [OF b v1 this] show ?thesis .
qed

text \<open>What the validation loop asks of each view.\<close>

definition view_ok :: "c_int list \<Rightarrow> ptr list \<Rightarrow> cetype_ext_t list \<Rightarrow> nat \<Rightarrow> bool" where
  "view_ok ls ps cs i \<longleftrightarrow>
     valid_view_encoding (cs ! i) \<and> (view_is_na (ps ! i) (ls ! i) (cs ! i) \<or> 0 \<le> sint (ls ! i))"

lemma check_views_result:
  assumes "length ps = n" "length ls = n" "length cs = n" and "set is \<subseteq> {..<n}"
  shows "case check_views ps ls cs is of
      Inl e \<Rightarrow> (\<exists>m. e = R_error m) \<and> (\<exists>i \<in> set is. \<not> view_ok ls ps cs i)
    | Inr u \<Rightarrow> \<forall>i \<in> set is. view_ok ls ps cs i"
  using assms(4)
proof (induction "is")
  case (Cons i "is")
  have i: "i < n" using Cons.prems by simp
  have IH: "case check_views ps ls cs is of
      Inl e \<Rightarrow> (\<exists>m. e = R_error m) \<and> (\<exists>i \<in> set is. \<not> view_ok ls ps cs i)
    | Inr u \<Rightarrow> \<forall>i \<in> set is. view_ok ls ps cs i" using Cons by simp
  consider (bad) m where "\<not> view_ok ls ps cs i" "check_views ps ls cs (i # is) = Inl (R_error m)"
    | (good) "view_ok ls ps cs i" "check_views ps ls cs (i # is) = check_views ps ls cs is"
  proof (cases "view_ok ls ps cs i")
    case True
    then show ?thesis using i assms(1-3) good by (auto simp: elt_at_def view_ok_def)
  next
    case False
    then show ?thesis
      using i assms(1-3) bad by (cases "valid_view_encoding (cs ! i)") (auto simp: elt_at_def view_ok_def)
  qed
  then show ?case using IH by cases (auto split: sum.splits)
qed simp

lemma from_views_step_sets:
  assumes "length ps = n" "length ls = n" "length cs = n"
    and v: "\<And>i. i < n \<Longrightarrow> view_content h (make_strview (ps ! i) (ls ! i) (cs ! i)) = Some (es ! i)"
  shows "sets_element h n (from_views_step ps ls cs) (\<lambda>i. es ! i)"
  unfolding sets_element_def
proof (intro allI impI)
  fix i b h1 out
  assume i: "i < n" and b: "builder_holds b h1 out" and t: "takes_only {} (shard_owned (bd_shard b)) h h1"
  let ?v = "make_strview (ps ! i) (ls ! i) (cs ! i)"
  have step: "from_views_step ps ls cs i b h1 = builder_set_view b (of_nat i) ?v h1"
    using i assms(1-3) by (simp add: from_views_step_def elt_at_def builder_set_view_def view_is_na_def strview_is_na_def)
  show "builder_sets b h1 out (of_nat i) (es ! i) True (from_views_step ps ls cs i b h1) \<and>
    can_alloc (snd (snd (from_views_step ps ls cs i b h1))) = can_alloc h1"
    unfolding step using builder_set_view_later [OF b v [OF i] t] builder_set_view_can_alloc by simp
qed

text \<open>C16. \<open>charvec_from_views\<close> over \<open>n\<close> views makes a charvec of exactly the strings the views
  stand for, in memory of its own, when every view is acceptable (a known encoding, and NA or a
  length that is not negative). Otherwise, or when memory is refused, it raises an R error and
  every block is as before: the half-built vector is freed on every path.\<close>

theorem charvec_from_views_functional:
  assumes "heap_ok h" and "length es \<le> 4503599627370496"
    and "length ps = length es" "length ls = length es" "length cs = length es"
    and "\<And>i. i < length es \<Longrightarrow> view_ok ls ps cs i \<Longrightarrow>
          view_content h (make_strview (ps ! i) (ls ! i) (cs ! i)) = Some (es ! i)"
  shows "case charport_charvec_from_views_impl (of_nat (length es)) (Some ps) (Some ls) (Some cs) h of
      (Inl e, h') \<Rightarrow> (\<exists>m. e = R_error m) \<and> blocks h' = blocks h \<and>
        ((\<exists>i < length es. \<not> view_ok ls ps cs i) \<or> (\<exists>k m. \<not> can_alloc h k m))
    | (Inr v, h') \<Rightarrow> (\<forall>i < length es. view_ok ls ps cs i) \<and>
        charvec_holds R v h' (map (charsxp_of R) es) \<and> takes_only {} (charvec_slices v) h h'"
proof -
  let ?n = "of_nat (length es) :: R_xlen_t" and ?step = "from_views_step ps ls cs"
  let ?f = "charport_charvec_from_views_impl (of_nat (length es)) (Some ps) (Some ls) (Some cs) h ::
      (fault + 'a charvec) \<times> heap"
  have guard: "\<exists>m. charport_sexp_guard ''charvec from views'' (Inl e :: fault + 'a charvec) = Inl (R_error m)"
    if "e \<noteq> Undefined" for e using that by (cases e) simp_all
  have u: "unat ?n = length es" using assms(2) by (intro unat_of_nat_u64) simp
  have "0 \<le> sint ?n" using assms(2) u by (intro sint_nonneg_small) simp
  then have nn: "\<not> sint ?n < 0" by simp
  have chk: "case check_views ps ls cs [0..<length es] of
      Inl e \<Rightarrow> (\<exists>m. e = R_error m) \<and> (\<exists>i < length es. \<not> view_ok ls ps cs i)
    | Inr u \<Rightarrow> \<forall>i < length es. view_ok ls ps cs i"
    using check_views_result [OF assms(3-5), of "[0..<length es]"]
    by (simp add: atLeast0LessThan lessThan_def Ball_def Bex_def split: sum.splits)
  show ?thesis
  proof (cases "check_views ps ls cs [0..<length es]")
    case (Inl e)
    then show ?thesis using chk nn by (simp add: charport_charvec_from_views_impl_def u)
  next
    case (Inr w)
    then have good: "\<forall>i < length es. view_ok ls ps cs i" using chk by simp
    obtain ok h0 where a: "try_alloc 104 h = (ok, h0)" by fastforce
    then have h0: "blocks h0 = blocks h" "heap_ok h0" "can_alloc h0 = can_alloc h" "ok = can_alloc h (attempts h) 104"
      using assms(1) by (auto simp: try_alloc_def heap_ok_def)
    obtain q h1 where new: "heap_builder ?n h = (q, h1)" by fastforce
    show ?thesis
    proof (cases q)
      case (Inl e)
      then have f: "?f =
          (charport_sexp_guard ''charvec from views'' (Inl e), h1)"
        using nn \<open>check_views ps ls cs [0..<length es] = Inr w\<close> new
        by (simp add: charport_charvec_from_views_impl_def u)
      have e: "e \<noteq> Undefined \<and> blocks h1 = blocks h \<and> (\<exists>k m. \<not> can_alloc h k m)"
      proof (cases ok)
        case True
        then have n: "builder_new ?n h0 = (Inl e, h1)" using new Inl a by (simp add: heap_builder_def)
        show ?thesis using builder_new_ok [OF n h0(2)] builder_new_oom [OF n] u assms(2) h0(1,3) by simp
      next
        case False
        then have "e = Bad_alloc" "h1 = h0" using new Inl a by (simp_all add: heap_builder_def)
        then show ?thesis using h0 False by auto
      qed
      obtain m where "charport_sexp_guard ''charvec from views'' (Inl e :: fault + 'a charvec) = Inl (R_error m)"
        using guard e by blast
      then show ?thesis using f e by simp
    next
      case b: (Inr b)
      then have n: "builder_new ?n h0 = (Inr b, h1)" using new a by (auto simp: heap_builder_def split: if_splits)
      have h1: "blocks h1 = blocks h" "builder_holds b h1 (map ((!) es) [0..<0] @ replicate (length es - 0) NA)"
        using builder_new_ok [OF n h0(2)] h0(1) u by simp_all
      have alloc: "can_alloc h1 = can_alloc h" using builder_new_can_alloc [OF n] h0(3) by simp
      have t: "takes_only {} (shard_owned (bd_shard b)) h h1"
        using builder_new_fresh [OF n] h1(1) by (simp add: takes_only_def)
      obtain r b' h2 where loop: "builder_loop ?step [0..<length es] b h1 = (r, b', h2)" by (metis prod_cases3)
      have sets: "sets_element h (length es) ?step ((!) es)"
        using from_views_step_sets [OF assms(3-5)] assms(6) good by simp
      note spec = builder_loop_spec [OF sets assms(2) le0 h1(2) t, unfolded loop]
      have f: "?f =
          (case r of
             Inl e \<Rightarrow> (charport_sexp_guard ''charvec from views'' (Inl e), builder_destroy b' h2)
           | Inr u \<Rightarrow> (case builder_to_sexp b' h2 of (r, b'', h3) \<Rightarrow> (r, builder_destroy b'' h3)))"
        using nn Inr new b loop by (simp add: charport_charvec_from_views_impl_def u split: sum.splits)
      show ?thesis
      proof (cases r)
        case (Inl e)
        then obtain es' where e: "e \<noteq> Undefined" "builder_holds b' h2 es'"
          "takes_only {} (shard_owned (bd_shard b')) h h2" "\<exists>k m. \<not> can_alloc h k m"
          using spec alloc by auto
        obtain m where "charport_sexp_guard ''charvec from views'' (Inl e :: fault + 'a charvec) = Inl (R_error m)"
          using guard e(1) by blast
        then show ?thesis using f Inl e builder_destroy_blocks [OF e(2,3)] by simp
      next
        case (Inr w2)
        have all: "map ((!) es) [0..<length es] = es" by (rule map_nth)
        have done': "builder_holds b' h2 es" "takes_only {} (shard_owned (bd_shard b')) h h2" "can_alloc h2 = can_alloc h"
          using spec Inr alloc unfolding all by simp_all
        obtain r2 :: "fault + 'a charvec" and b'' h3 where s: "builder_to_sexp b' h2 = (r2, b'', h3)" by (metis prod_cases3)
        from builder_to_sexp_ok [OF done'(1,2) s, where R = R] done'(3) f Inr s good show ?thesis
          by (cases r2) auto
      qed
    qed
  qed
qed

theorem charvec_from_views_functional_witness:
  "\<exists>v h'. charport_charvec_from_views_impl 1 (Some [At 0 0]) (Some [2]) (Some [CETYPE_EXT_UTF8]) demo_heap
       = (Inr v, h') \<and> charvec_holds demo_R v h' [Inr (Some ([104, 105], CE_UTF8))]"
proof -
  let ?es = "[Str [104, 105] CETYPE_EXT_UTF8]"
  have v: "view_content demo_heap (make_strview ([At 0 0] ! i) ([2] ! i) ([CETYPE_EXT_UTF8] ! i)) = Some (?es ! i)"
    if "i < length ?es" "view_ok [2] [At 0 0] [CETYPE_EXT_UTF8] i" for i
    using that demo_view_content by (simp add: demo_view_def)
  have len: "length ?es \<le> 4503599627370496" "length [At 0 0] = length ?es" "length [2 :: c_int] = length ?es"
    "length [CETYPE_EXT_UTF8] = length ?es" by simp_all
  have ok: "\<forall>i < length ?es. view_ok [2] [At 0 0] [CETYPE_EXT_UTF8] i"
    by (simp add: view_ok_def valid_view_encoding_def sint_c_int)
  obtain r :: "fault + (u8 list \<times> cetype_t) option charvec" and h' where
    r: "charport_charvec_from_views_impl (of_nat (length ?es)) (Some [At 0 0]) (Some [2]) (Some [CETYPE_EXT_UTF8])
      demo_heap = (r, h')" by fastforce
  have es: "map (charsxp_of demo_R) ?es = [Inr (Some ([104, 105], CE_UTF8))]"
    by (simp add: demo_R_def to_base_encoding_def cetype_defs)
  from charvec_from_views_functional [OF heap_ok_demo len v, where R = demo_R, unfolded r es] ok
  obtain v where "r = Inr v" "charvec_holds demo_R v h' [Inr (Some ([104, 105], CE_UTF8))]"
    by (cases r) (auto simp: demo_heap_def)
  with r show ?thesis by auto
qed

section \<open>Extract_subset\<close>

lemma build_store_can_alloc:
  assumes step: "\<And>i b h. can_alloc (snd (snd (step i b h))) = can_alloc h" and f: "build_store n step h = (r, h')"
  shows "can_alloc h' = can_alloc h"
proof -
  have loop: "can_alloc (snd (snd (builder_loop step is b h))) = can_alloc h" for "is" b h
  proof (induction "is" arbitrary: b h)
    case (Cons i "is")
    obtain q b' h1 where s: "step i b h = (q, b', h1)" by (metis prod_cases3)
    then have "can_alloc h1 = can_alloc h" using step [of i b h] by simp
    then show ?case using Cons.IH s by (cases q) simp_all
  qed simp
  have destroy: "can_alloc (builder_destroy b x) = can_alloc x" for b x
    using store_free_can_alloc [of "\<lparr>st_slices = sh_slices (bd_shard b), st_records = rt_empty\<rparr>" x]
    by (simp add: builder_destroy_def store_free_def [of "\<lparr>st_slices = sh_slices (bd_shard b), st_records = rt_empty\<rparr>"])
  have heap: "can_alloc h2 = can_alloc x" if "heap_store st x = (q, h2)" for st x q h2
    using that by (auto simp: heap_store_def try_alloc_def Let_def split: if_splits)
  obtain q h1 where new: "builder_new n h = (q, h1)" by fastforce
  note a = builder_new_can_alloc [OF new]
  show ?thesis
  proof (cases q)
    case (Inl e)
    then show ?thesis using f new a by (simp add: build_store_def)
  next
    case (Inr b)
    obtain w b' h2 where l: "builder_loop step [0..<unat n] b h1 = (w, b', h2)" by (metis prod_cases3)
    then have "can_alloc h2 = can_alloc h" using loop [of "[0..<unat n]" b h1] a by simp
    then show ?thesis
      using f new Inr l destroy heap by (cases w) (auto simp: build_store_def split: prod.splits)
  qed
qed

lemma subset_store_can_alloc: "subset_store st n k indx h = (r, h') \<Longrightarrow> can_alloc h' = can_alloc h"
  unfolding subset_store_def
  by (rule build_store_can_alloc)
    (auto simp: subset_step_def copy_element_def builder_set_view_can_alloc split: sum.splits option.splits)

text \<open>What R's subsetting makes of a list of elements.\<close>

definition vec_subset :: "'c r_strings \<Rightarrow> (fault + 'c) list \<Rightarrow> r_index \<Rightarrow> (fault + 'c) list" where
  "vec_subset R vs indx =
     map (\<lambda>i. case subscript (length vs) indx i of None \<Rightarrow> Inr (NA_STRING R) | Some k \<Rightarrow> vs ! k)
       [0..<r_index_length indx]"

lemma vec_subset_selected:
  "vec_subset R (map (charsxp_of R) es) indx = map (charsxp_of R) (map (selected es indx) [0..<r_index_length indx])"
  using subscript_bound [of "length es" indx]
  by (auto simp: vec_subset_def selected_def split: option.splits)

lemma charvec_holds_kept:
  assumes hold: "charvec_holds R v h vs" and t: "takes_only {} B h h'" and ok: "heap_ok h'"
  shows "charvec_holds R v h' vs" and "charvec_slices v \<inter> B = {}"
proof -
  have "charvec_holds R v h' vs \<and> charvec_slices v \<inter> B = {}"
  proof (cases "cv_store v")
    case None
    then show ?thesis using hold by (auto simp: charvec_holds_def charvec_slices_def split: option.splits)
  next
    case (Some st)
    then have d: "cv_data2 v = None" using hold by (auto simp: charvec_holds_def split: option.splits)
    obtain es where s: "store_private st h es" "vs = map (charsxp_of R) es"
      "\<And>chunks. cv_chunks v = Some chunks \<Longrightarrow> cache_ok R chunks vs"
      using charvec_holds_store [OF hold d] Some by (metis option.inject)
    have live: "\<forall>b \<in> set (st_slices st). blocks h b \<noteq> None" using s(1) by (simp add: store_private_def store_holds_def)
    note ap = takes_only_apart [OF t live]
    have "store_holds st h' es" using store_holds_frame [OF _ ok ap(2)] s(1) by (simp add: store_private_def)
    then have "store_private st h' es" using s(1) by (simp add: store_private_def)
    then show ?thesis using s(2,3) d Some ap(1) by (auto simp: charvec_holds_def charvec_slices_def)
  qed
  then show "charvec_holds R v h' vs" "charvec_slices v \<inter> B = {}" by simp_all
qed

text \<open>C15. Subsetting an unmaterialized charvec by integers or doubles gives R's result: the elements
  the subscripts select and \<open>NA\<close> elsewhere, as a charvec that shares no byte with the source, which
  stands for the same elements as before. A materialized one, or another kind of index, goes to R's
  default method untouched. The only failure is an R error after a refused allocation, and it leaves
  every block as it was.\<close>

theorem charvec_subset_functional:
  assumes "charvec_holds R v h vs" and "heap_ok h"
    and "\<And>idx. indx = Some idx \<Longrightarrow> r_index_length idx \<le> 4503599627370496"
  shows "case charvec_Extract_subset v indx h of
      (Inl e, h') \<Rightarrow> (\<exists>m. e = R_error m) \<and> blocks h' = blocks h \<and> (\<exists>n m. \<not> can_alloc h n m)
    | (Inr None, h') \<Rightarrow> h' = h \<and> (cv_data2 v \<noteq> None \<or> indx = None)
    | (Inr (Some w), h') \<Rightarrow> cv_data2 v = None \<and>
        charvec_holds R w h' (vec_subset R vs (the indx)) \<and> charvec_holds R v h' vs \<and>
        charvec_slices v \<inter> charvec_slices w = {} \<and> takes_only {} (charvec_slices w) h h'"
proof (cases "cv_data2 v = None \<and> indx \<noteq> None")
  case False
  then show ?thesis by (auto simp: charvec_Extract_subset_def)
next
  case True
  then obtain idx where idx: "indx = Some idx" and d: "cv_data2 v = None" by blast
  obtain st es where s: "cv_store v = Some st" "store_private st h es" "vs = map (charsxp_of R) es"
    "charvec_Get v = Inr st" "store_size st = length vs" "length es = length vs"
    using charvec_holds_store [OF assms(1) d] by metis
  have st: "store_holds st h es" using s(2) by (simp add: store_private_def)
  obtain q h1 where sub: "subset_store st (of_nat (length es)) (of_nat (r_index_length idx)) idx h = (q, h1)"
    by fastforce
  note spec = subset_store_functional [OF st assms(3) [OF idx], unfolded sub]
  define res :: "(fault + 'a charvec) \<times> heap" where "res = (case q of Inl e \<Rightarrow> (Inl e, h1) | Inr st' \<Rightarrow> wrap_store_with_cleanup (Some st') h1)"
  have f: "charvec_Extract_subset v indx h =
      (case res of (r, h') \<Rightarrow> (and_then (charport_sexp_guard ''charvec Extract_subset'' r) (\<lambda>w. Inr (Some w)), h'))"
    using d idx s(4,5,6) sub by (simp add: charvec_Extract_subset_def res_def split: sum.splits)
  have guard: "\<exists>m. charport_sexp_guard op (Inl e :: fault + 'a charvec) = Inl (R_error m)" if "e \<noteq> Undefined" for e op
    using that by (cases e) simp_all
  show ?thesis
  proof (cases q)
    case (Inl e)
    then have e: "e \<noteq> Undefined" "blocks h1 = blocks h" "res = (Inl e, h1)" "\<exists>n m. \<not> can_alloc h n m" using spec by (simp_all add: res_def)
    then obtain m where "charport_sexp_guard ''charvec Extract_subset'' (Inl e :: fault + 'a charvec) = Inl (R_error m)"
      using guard by blast
    then show ?thesis using f e by simp
  next
    case (Inr st')
    then have sp: "store_private st' h1 (map (selected es idx) [0..<r_index_length idx])"
      "takes_only {} (set (st_slices st')) h h1" using spec by simp_all
    obtain r :: "fault + 'a charvec" and h' where w: "wrap_store_with_cleanup (Some st') h1 = (r, h')" by fastforce
    then have res: "res = (r, h')" by (simp add: res_def Inr)
    note ws = wrap_new_store [OF sp w, where R = R]
    show ?thesis
    proof (cases r)
      case (Inl e)
      then obtain m where "e = R_error m" "blocks h' = blocks h" "\<exists>n m. \<not> can_alloc h n m"
        using ws subset_store_can_alloc [OF sub] by auto
      then show ?thesis using f res Inl by simp
    next
      case (Inr w')
      then have w': "charvec_holds R w' h' (vec_subset R vs idx)" "takes_only {} (charvec_slices w') h h'"
        using ws vec_subset_selected [of R es idx] s(3) by auto
      have "heap_ok h'"
        using w' wrap_store_ok [OF sp(1) w] Inr by (auto simp: charvec_holds_def new_charvec_def store_private_def store_holds_def)
      then show ?thesis using f res Inr w' charvec_holds_kept [OF assms(1) w'(2)] d idx by simp
    qed
  qed
qed

theorem charvec_subset_functional_witness:
  "\<exists>v h w h'. charvec_Extract_subset v (Some (Integer_indices [2, 1, NA_INTEGER])) h = (Inr (Some w), h') \<and>
     charvec_holds demo_R w h' [Inr None, Inr (Some ([104, 105], CE_UTF8)), Inr None]"
proof -
  let ?idx = "Integer_indices [2, 1, NA_INTEGER]"
  obtain v h where v: "charvec_holds demo_R v h [Inr (Some ([104, 105], CE_UTF8)), Inr None]"
    "\<And>n m. can_alloc h n m" "cv_data2 v = None" by (rule demo_charvec) blast
  have ok: "heap_ok h" using v(1,3) by (auto simp: charvec_holds_def store_private_def store_holds_def)
  have len: "r_index_length idx \<le> 4503599627370496" if "Some ?idx = Some idx" for idx using that by auto
  obtain r h' where r: "charvec_Extract_subset v (Some ?idx) h = (r, h')" by fastforce
  have sub: "vec_subset demo_R [Inr (Some ([104, 105], CE_UTF8)), Inr None] ?idx =
      [Inr None, Inr (Some ([104, 105], CE_UTF8)), Inr None]"
    by (simp add: vec_subset_def upt_rec sint_c_int demo_R_def)
  from charvec_subset_functional [OF v(1) ok len, of "Some ?idx", unfolded r] v(2,3) sub
  obtain w where "r = Inr (Some w)" "charvec_holds demo_R w h' [Inr None, Inr (Some ([104, 105], CE_UTF8)), Inr None]"
    by (cases r) (auto split: option.splits)
  with r show ?thesis by blast
qed

section \<open>get_store and charvec_assign\<close>

text \<open>C17. \<open>get_store\<close> gives out the store exactly when R holds nothing derived from it (not
  materialized, no cache), so a caller may change it: whatever valid store of strings that share no
  byte it leaves, the vector is then that store's strings. This is what filling a charvec in place
  with a \<open>Writer\<close> rests on.\<close>

theorem charvec_get_store_fill:
  assumes "charvec_holds R v h vs"
  shows "case charport_charvec_get_store_impl (Charvec_sexp v) of
      None \<Rightarrow> cv_data2 v \<noteq> None \<or> cv_chunks v \<noteq> None
    | Some st \<Rightarrow> (\<exists>es. store_private st h es \<and> vs = map (charsxp_of R) es) \<and>
        (\<forall>st' h' es'. store_private st' h' es' \<longrightarrow>
           charvec_holds R (v\<lparr>cv_store := Some st'\<rparr>) h' (map (charsxp_of R) es'))"
  using assms
  by (auto simp: charport_charvec_get_store_impl_def charvec_holds_def split: option.splits)

theorem charvec_get_store_fill_witness:
  "\<exists>v h st h'. charport_charvec_get_store_impl (Charvec_sexp v) = Some st \<and>
     charvec_holds demo_R v h [Inr (Some ([104, 105], CE_UTF8)), Inr None] \<and>
     charvec_holds demo_R (v\<lparr>cv_store := Some (shared_store\<lparr>st_records := rt_empty\<rparr>)\<rparr>) h' []"
proof -
  obtain st h where st: "store_private st h [Str [104, 105] CETYPE_EXT_UTF8, NA]" by (rule demo_private_store) blast
  let ?v = "new_charvec (Some st) :: (u8 list \<times> cetype_t) option charvec"
  have es: "map (charsxp_of demo_R) [Str [104, 105] CETYPE_EXT_UTF8, NA] = [Inr (Some ([104, 105], CE_UTF8)), Inr None]"
    by (simp add: demo_R_def to_base_encoding_def cetype_defs)
  have v: "charvec_holds demo_R ?v h [Inr (Some ([104, 105], CE_UTF8)), Inr None]"
    using new_charvec_holds [OF st, where R = demo_R] unfolding es .
  have g: "charport_charvec_get_store_impl (Charvec_sexp ?v) = Some st"
    by (simp add: charport_charvec_get_store_impl_def new_charvec_def)
  have new: "store_private (shared_store\<lparr>st_records := rt_empty\<rparr>) shared_heap []"
    by (simp add: store_private_def store_holds_def shared_store_def shared_heap_def heap_ok_def
        rt_ok_empty [unfolded rt_empty_def] rt_views_def rt_empty_def apart_def)
  then have "charvec_holds demo_R (?v\<lparr>cv_store := Some (shared_store\<lparr>st_records := rt_empty\<rparr>)\<rparr>) shared_heap (map (charsxp_of demo_R) [])"
    using charvec_get_store_fill [OF v] unfolding g option.case by blast
  with v g show ?thesis by auto
qed

text \<open>\<open>charvec_assign\<close> of a double index: a finite index from 1 to the length (its fraction
  is dropped) replaces exactly that element; any other index is an R error that changes nothing, and so is a
  refused allocation.\<close>

theorem charvec_assign_checked:
  assumes "charvec_holds R v h vs" and "charsxp_live R h x" and "charsxp_cache R h x"
  shows "case C_charvec_assign R (Charvec_sexp v) i (Some [x]) h of
      (Inl e, x', h') \<Rightarrow> (\<exists>m. e = R_error m) \<and> blocks h' = blocks h \<and> x' = Charvec_sexp v \<and>
        ((\<forall>q. i = Finite q \<longrightarrow> q < 1 \<or> of_nat (length vs) < q) \<or> (\<exists>n m. \<not> can_alloc h n m))
    | (Inr u, x', h') \<Rightarrow> (\<exists>q k v'. i = Finite q \<and> \<lfloor>q\<rfloor> = int k + 1 \<and> k < length vs \<and>
        x' = Charvec_sexp v' \<and> charvec_holds R v' h' (vs[k := Inr x]))"
proof (cases "\<exists>q. i = Finite q \<and> 1 \<le> q \<and> q \<le> of_nat (length vs)")
  case False
  then have "C_charvec_assign R (Charvec_sexp v) i (Some [x]) h =
      (charport_sexp_guard ''charvec_assign'' (Inl (Runtime_error ''index out of bounds'')), Charvec_sexp v, h)"
    using charvec_Length_ok [OF assms(1)] by (cases i) (auto simp: C_charvec_assign_def not_less)
  then show ?thesis using False by (auto simp: not_le)
next
  case True
  then obtain q where q: "i = Finite q" "1 \<le> q" "q \<le> of_nat (length vs)" by blast
  define k where "k = nat (\<lfloor>q\<rfloor> - 1)"
  have fl: "1 \<le> \<lfloor>q\<rfloor>" "\<lfloor>q\<rfloor> \<le> int (length vs)" using q(2,3) by linarith+
  then have k: "\<lfloor>q\<rfloor> = int k + 1" "k < length vs" by (simp_all add: k_def nat_less_iff)
  obtain r v' h' where s: "string_Set_elt R v k x h = (r, v', h')" by (metis prod_cases3)
  have f: "C_charvec_assign R (Charvec_sexp v) i (Some [x]) h =
      (charport_sexp_guard ''charvec_assign'' r, Charvec_sexp v', h')"
    using charvec_Length_ok [OF assms(1)] q s by (simp add: C_charvec_assign_def k_def not_less)
  note ok = string_Set_elt_ok [OF assms(1) k(2) assms(2,3) s]
  show ?thesis
  proof (cases r)
    case (Inl e)
    then obtain m where "e = R_error m" using ok by auto
    then show ?thesis using f ok Inl by simp
  next
    case (Inr u)
    then show ?thesis using f ok q(1) k by auto
  qed
qed

theorem charvec_assign_checked_witness:
  "\<exists>v h v' h'. C_charvec_assign demo_R (Charvec_sexp v) (Finite (3 / 2)) (Some [None]) h = (Inr (), Charvec_sexp v', h') \<and>
     charvec_holds demo_R v' h' [Inr None, Inr None]"
proof -
  let ?vs = "[Inr (Some ([104, 105], CE_UTF8)), Inr None] :: (fault + (u8 list \<times> cetype_t) option) list"
  obtain v h where v: "charvec_holds demo_R v h ?vs" "\<And>n m. can_alloc h n m" by (rule demo_charvec) blast
  have x: "charsxp_live demo_R h None" "charsxp_cache demo_R h None"
    by (simp_all add: charsxp_live_def charsxp_cache_def demo_R_def)
  have fl: "\<lfloor>3 / 2 :: rat\<rfloor> = 1" by (simp add: floor_eq_iff)
  obtain r x' h' where r: "C_charvec_assign demo_R (Charvec_sexp v) (Finite (3 / 2)) (Some [None]) h = (r, x', h')"
    by (metis prod_cases3)
  note c = charvec_assign_checked [OF v(1) x, of "Finite (3 / 2)", unfolded r]
  have "r = Inr ()"
  proof (cases r)
    case (Inl e)
    then have "\<forall>q. Finite (3 / 2) = Finite q \<longrightarrow> q < 1 \<or> of_nat (length ?vs) < q" using c v(2) by simp
    then show ?thesis by (auto dest: spec [of _ "3 / 2 :: rat"])
  qed simp
  with c obtain q k v' where k: "Finite (3 / 2) = Finite q" "\<lfloor>q\<rfloor> = int k + 1" "x' = Charvec_sexp v'"
    "charvec_holds demo_R v' h' (?vs[k := Inr None])" by (simp only: sum.case prod.case) blast
  then have "k = 0" using fl by (metis add_cancel_right_left double.inject of_nat_eq_0_iff)
  with k \<open>r = Inr ()\<close> r show ?thesis by auto
qed

end
