(* ===== verification/Cp_Unserialize.thy ===== *)
theory Cp_Unserialize
  imports Cp_Wrap
begin

text \<open>
  \<open>Unserialize\<close> of \<open>struct charvec_altrep\<close> (\<open>src/charvec_altrep.h\<close>), from the raw vector R read back to
  the new instance: the state is parsed and checked, the store is built, and
  \<open>wrap_store_with_cleanup\<close> makes the R objects that own it, or frees it when R raises an error there.
\<close>

section \<open>Unserialize\<close>

text \<open>A character vector comes back as it is; any other object must be a raw vector.\<close>

definition charvec_Unserialize ::
    "bool \<Rightarrow> bool \<Rightarrow> 'c r_state \<Rightarrow> heap \<Rightarrow> (fault + 'c list + 'c charvec) \<times> heap" where
  "charvec_Unserialize le nu state h =
     (case (case state of
              Strsxp xs \<Rightarrow> (Inr (Inl xs), h)
            | Rawsxp rb \<Rightarrow>
                (case charvec_parse_serialized le (Some (raw_bytes h rb)) of
                   Inl e \<Rightarrow> (Inl e, h)
                 | Inr layout \<Rightarrow>
                     (case unserialize_store le nu rb layout h of
                        (Inl e, h1) \<Rightarrow> (Inl e, h1)
                      | (Inr st, h1) \<Rightarrow>
                          (case wrap_store_with_cleanup (Some st) h1 of
                             (r, h2) \<Rightarrow> (and_then r (\<lambda>v. Inr (Inr v)), h2))))
            | Other_sexp \<Rightarrow>
                (case charvec_parse_serialized le None of
                   Inl e \<Rightarrow> (Inl e, h)
                 | Inr layout \<Rightarrow> (Inl Undefined, h)))
      of (r, h') \<Rightarrow> (charport_sexp_guard ''charvec Unserialize'' r, h'))"

section \<open>What it does\<close>

lemma heap_store_can_alloc: "heap_store st h = (r, h') \<Longrightarrow> can_alloc h' = can_alloc h"
  by (auto simp: heap_store_def try_alloc_def Let_def store_free_can_alloc split: if_splits)

lemma builder_destroy_can_alloc: "can_alloc (builder_destroy b h) = can_alloc h"
proof -
  have "can_alloc (snd (slice_clear ss h)) = can_alloc h" for ss
    using store_free_can_alloc [of "\<lparr>st_slices = ss, st_records = rt_empty\<rparr>" h, unfolded store_free_def] by simp
  then show ?thesis by (simp add: builder_destroy_def)
qed

lemma unserialize_store_can_alloc:
  assumes "unserialize_store le nu rb layout h = (Inr st, h')"
  shows "can_alloc h' = can_alloc h"
  using assms
  by (auto simp: unserialize_store_def builder_destroy_can_alloc
      dest!: builder_new_can_alloc unserialize_loop_can_alloc heap_store_can_alloc
      split: sum.splits prod.splits)

text \<open>A store that R took: the blocks are as they were.\<close>

lemma wrap_store_taken:
  assumes "wrap_store_with_cleanup (Some st) h = (Inr v, h')"
  shows "v = new_charvec (Some st)" and "blocks h' = blocks h" and "next_blk h' = next_blk h"
proof -
  obtain q h1 where s: "make_shell h = (q, h1)" by fastforce
  have "q = Inr () \<and> v = new_charvec (Some st) \<and> h' = h1"
    using assms s by (cases q) (auto simp: wrap_store_with_cleanup_def store_wrap_exec_def store_wrap_cleanup_def)
  then show "v = new_charvec (Some st)" "blocks h' = blocks h" "next_blk h' = next_blk h"
    using make_shell_ok [OF s] by simp_all
qed

text \<open>The elements an accepted state stands for, as read in a locale.\<close>

definition state_elements :: "bool \<Rightarrow> u8 list \<Rightarrow> element list" where
  "state_elements nu raw =
     (let lsb = (raw ! 4 = 1); n = wire_count lsb raw
      in map (as_read (raw ! 3 = 50) nu) (map (wire_element lsb raw n) [0..<n]))"

lemma charvec_Unserialize_spec:
  fixes rb :: blk
  assumes h: "heap_ok h" "blocks h rb = Some raw" and len: "length raw \<le> 4503599627370496"
    and u: "charvec_Unserialize le nu (Rawsxp rb :: 'c r_state) h = (r, h')"
  shows "case r of
      Inl e \<Rightarrow> (\<exists>m. e = R_error m) \<and> blocks h' = blocks h \<and>
        ((\<exists>k m. \<not> can_alloc h k m) \<or> \<not> (header_ok raw \<and> records_ok raw))
    | Inr (Inl xs) \<Rightarrow> False
    | Inr (Inr v) \<Rightarrow> header_ok raw \<and> records_ok raw \<and>
        (\<exists>st. v = new_charvec (Some st) \<and> store_private st h' (state_elements nu raw)) \<and>
        takes_only {} (charvec_slices v) h h'"
proof -
  have rb: "raw_bytes h rb = raw" using h(2) by (simp add: raw_bytes_def)
  note guard = charport_sexp_guard_error [where op = "''charvec Unserialize''"]
  consider (header) m where "\<not> header_ok raw" "charvec_parse_serialized le (Some raw) = Inl (Runtime_error m)"
    | (records) m where "header_ok raw" "\<not> records_ok raw"
        "charvec_parse_serialized le (Some raw) = Inr (state_layout le raw)"
        "charvec_check_records le raw (state_layout le raw) = Inl (Runtime_error m)"
    | (ok) "header_ok raw" "records_ok raw"
        "charvec_parse_serialized le (Some raw) = Inr (state_layout le raw)"
    using parse_serialized_spec [OF len, of le] check_records_spec [OF _ len, of le] by metis
  then show ?thesis
  proof cases
    case header
    with u rb show ?thesis by (auto simp: charvec_Unserialize_def)
  next
    case records
    with u rb show ?thesis by (auto simp: charvec_Unserialize_def unserialize_store_def)
  next
    case ok
    obtain q h2 where q: "unserialize_store le nu rb (state_layout le raw) h = (q, h2)" by fastforce
    note spec = unserialize_store_spec [where le = le and nu = nu, OF ok(1,2) len refl refl h, unfolded q prod.case]
    show ?thesis
    proof (cases q)
      case (Inl e)
      then have r: "charport_sexp_guard ''charvec Unserialize'' (Inl e) = r" "h' = h2"
        using u rb ok(3) q by (auto simp: charvec_Unserialize_def)
      obtain e' where e': "r = Inl e'" using r(1) by (cases r) auto
      show ?thesis using spec Inl guard [OF r(1) [unfolded e']] r(2) e' by simp
    next
      case (Inr st)
      have st: "store_private st h2 (state_elements nu raw)" "takes_only {} (set (st_slices st)) h h2"
        using spec Inr by (simp_all add: store_private_def state_elements_def comp_def Let_def)
      have al: "can_alloc h2 = can_alloc h" using unserialize_store_can_alloc q Inr by blast
      obtain w :: "fault + 'c charvec" and h3 where w: "wrap_store_with_cleanup (Some st) h2 = (w, h3)" by fastforce
      have r: "r = charport_sexp_guard ''charvec Unserialize'' (and_then w (\<lambda>v. Inr (Inr v)))" "h' = h3"
        using u rb ok(3) q Inr w by (simp_all add: charvec_Unserialize_def)
      note wrap = wrap_new_store [OF st w]
      show ?thesis
      proof (cases w)
        case (Inl e)
        then show ?thesis using wrap r al by auto
      next
        case (Inr v)
        note v = wrap_store_taken [OF w [unfolded Inr]]
        have t: "takes_only {} (charvec_slices v) h h3" using wrap [where R = undefined] unfolding Inr sum.case by blast
        have "store_private st h3 (state_elements nu raw)"
          using v(2,3) by (rule private_same [OF st(1)])
        then show ?thesis using v(1) t ok(1,2)
          unfolding r Inr and_then.simps charport_sexp_guard.simps sum.case by blast
      qed
    qed
  qed
qed

section \<open>Properties\<close>

text \<open>C10. \<open>Unserialize\<close> on untrusted input: whatever R hands it, a raw vector with any bytes at all, a
  character vector or another object, it never runs into undefined behaviour. It either raises an R error
  with every block of memory as it was, also when the error comes from R while the finished store
  waits for its owner, or gives back the character vector it was given, or a fresh charvec that is
  well formed, with no cache and nothing materialized, and owns everything that was allocated.\<close>

theorem charvec_unserialize_safe:
  fixes state :: "'c r_state"
  assumes "heap_ok h"
    and "\<And>rb. state = Rawsxp rb \<Longrightarrow> \<exists>raw. blocks h rb = Some raw \<and> length raw \<le> 4503599627370496"
  shows "case charvec_Unserialize le nu state h of
      (Inl e, h') \<Rightarrow> (\<exists>m. e = R_error m) \<and> blocks h' = blocks h \<and> (\<nexists>xs. state = Strsxp xs)
    | (Inr (Inl xs), h') \<Rightarrow> state = Strsxp xs \<and> h' = h
    | (Inr (Inr v), h') \<Rightarrow> (\<exists>rb. state = Rawsxp rb) \<and> cv_data2 v = None \<and> cv_chunks v = None \<and>
        (\<exists>es. \<forall>R :: 'c r_strings. charvec_holds R v h' (map (charsxp_of R) es)) \<and>
        takes_only {} (charvec_slices v) h h'"
proof (cases state)
  case (Rawsxp rb)
  obtain raw where raw: "blocks h rb = Some raw" "length raw \<le> 4503599627370496" using assms(2) [OF Rawsxp] by blast
  obtain r :: "fault + 'c list + 'c charvec" and h' where u: "charvec_Unserialize le nu (Rawsxp rb) h = (r, h')"
    by fastforce
  note spec = charvec_Unserialize_spec [OF assms(1) raw u]
  show ?thesis
  proof (cases r)
    case (Inl e)
    then show ?thesis using spec by (simp add: Rawsxp u)
  next
    case (Inr q)
    then obtain v where v: "q = Inr v" using spec by (cases q) auto
    then obtain st where "v = new_charvec (Some st)" "store_private st h' (state_elements nu raw)"
      "takes_only {} (charvec_slices v) h h'" using spec Inr by auto
    then show ?thesis
      using new_charvec_holds [of st h' "state_elements nu raw"]
      unfolding Rawsxp u Inr v prod.case sum.case by (auto simp: new_charvec_def)
  qed
qed (simp_all add: charvec_Unserialize_def charvec_parse_serialized_def)

definition demo_state :: "u8 list" where
  "demo_state = [67, 80, 86, 50, 1, 1, 0, 0, 0, 0, 0, 0, 0, 2, 0, 0, 0, 0, 104, 105]"

definition demo_raw_heap :: heap where
  "demo_raw_heap = demo_heap\<lparr>blocks := [0 \<mapsto> demo_state]\<rparr>"

lemma demo_raw_heap:
  "heap_ok demo_raw_heap" "blocks demo_raw_heap 0 = Some demo_state" "length demo_state \<le> 4503599627370496"
  "can_alloc demo_raw_heap n m"
  by (simp_all add: demo_raw_heap_def heap_ok_def demo_heap_def demo_state_def)

lemma demo_state_of: "state_of demo_state True True [Str [104, 105] CETYPE_EXT_NATIVE]"
  by (simp add: state_of_def charvec_state_def demo_state_def field_def le_bytes_def upt_rec cetype_defs
      valid_view_encoding_def drop_bit_eq_div)

lemma demo_unserialize:
  obtains v h where "charvec_Unserialize True True (Rawsxp 0 :: nat r_state) demo_raw_heap = (Inr (Inr v), h)"
proof -
  obtain r h where u: "charvec_Unserialize True True (Rawsxp 0 :: nat r_state) demo_raw_heap = (r, h)" by fastforce
  note spec = charvec_Unserialize_spec [OF demo_raw_heap(1-3) u]
  have "header_ok demo_state" "records_ok demo_state"
    using state_of_accepted(1,2) [OF demo_state_of demo_raw_heap(3)] .
  then show ?thesis using spec demo_raw_heap(4) u that by (auto split: sum.splits)
qed

text \<open>A run that succeeds, and one where R is refused the objects that would own the store.\<close>

definition demo_refused_heap :: heap where
  "demo_refused_heap = demo_raw_heap\<lparr>can_alloc := (\<lambda>n m. m \<noteq> 56)\<rparr>"

lemma demo_refused:
  "isl (fst (charvec_Unserialize True True (Rawsxp 0 :: nat r_state) demo_refused_heap))"
proof -
  have "isl (fst (wrap_store_with_cleanup (Some st) h1 :: (fault + nat charvec) \<times> heap))"
    if "unserialize_store True True 0 l demo_refused_heap = (Inr st, h1)" for l st h1
    using unserialize_store_can_alloc [OF that]
    by (simp add: demo_refused_heap_def wrap_store_with_cleanup_def store_wrap_exec_def make_shell_def
        alloc_object_def allocVector_def try_alloc_def)
  moreover have "isl (charport_sexp_guard op (Inl e :: fault + nat list + nat charvec))" for op e
    by (cases e) simp_all
  ultimately show ?thesis
    by (fastforce simp: charvec_Unserialize_def isl_def split: sum.split prod.split)
qed

theorem charvec_unserialize_safe_witness:
  "(\<exists>v h. charvec_Unserialize True True (Rawsxp 0 :: nat r_state) demo_raw_heap = (Inr (Inr v), h) \<and>
      takes_only {} (charvec_slices v) demo_raw_heap h) \<and>
   (\<exists>m h. charvec_Unserialize True True (Rawsxp 0 :: nat r_state) demo_refused_heap = (Inl (R_error m), h) \<and>
      blocks h = blocks demo_refused_heap)"
proof -
  have live: "\<exists>raw. blocks h rb = Some raw \<and> length raw \<le> 4503599627370496"
    if "blocks h = blocks demo_raw_heap" "Rawsxp 0 = (Rawsxp rb :: nat r_state)" for rb h
    using that demo_raw_heap(2,3) by simp
  have ok: "heap_ok demo_refused_heap" "blocks demo_refused_heap = blocks demo_raw_heap"
    using demo_raw_heap(1) by (simp_all add: demo_refused_heap_def heap_ok_def)
  obtain v h where u: "charvec_Unserialize True True (Rawsxp 0 :: nat r_state) demo_raw_heap = (Inr (Inr v), h)"
    by (rule demo_unserialize)
  obtain e h' where w: "charvec_Unserialize True True (Rawsxp 0 :: nat r_state) demo_refused_heap = (Inl e, h')"
    using demo_refused by (metis isl_def prod.collapse)
  show ?thesis
    using charvec_unserialize_safe [where state = "Rawsxp 0 :: nat r_state", OF demo_raw_heap(1) live [OF refl], of True True]
      charvec_unserialize_safe [where state = "Rawsxp 0 :: nat r_state", OF ok(1) live [OF ok(2)], of True True]
    unfolding u w by auto
qed

text \<open>C11. \<open>Unserialize\<close> accepts exactly the documented format: it succeeds only on the state of some
  list of storable elements (version 1 or 2, little- or big-endian, on a host of either byte
  order), and the new charvec's store is that list, with the native text of a version 2 state read as
  UTF-8 in another locale, so that R sees those strings as its elements; on such a state it can
  only fail for lack of memory.\<close>

theorem charvec_unserialize_exact:
  assumes "heap_ok h" and "blocks h rb = Some raw" and "length raw \<le> 4503599627370496"
  shows "case charvec_Unserialize le nu (Rawsxp rb :: 'c r_state) h of
      (Inl e, h') \<Rightarrow> (\<exists>k m. \<not> can_alloc h k m) \<or> (\<nexists>v2 lsb es. state_of raw v2 lsb es)
    | (Inr (Inl xs), h') \<Rightarrow> False
    | (Inr (Inr v), h') \<Rightarrow> \<exists>v2 lsb es st. state_of raw v2 lsb es \<and>
        v = new_charvec (Some st) \<and> store_private st h' (map (as_read v2 nu) es) \<and>
        (\<forall>R. charvec_holds R v h' (map (charsxp_of R) (map (as_read v2 nu) es)))"
proof -
  obtain r :: "fault + 'c list + 'c charvec" and h' where u: "charvec_Unserialize le nu (Rawsxp rb) h = (r, h')"
    by fastforce
  note spec = charvec_Unserialize_spec [OF assms u]
  show ?thesis
  proof (cases r)
    case (Inl e)
    with spec state_of_accepted(1,2) assms(3) show ?thesis unfolding u by auto
  next
    case (Inr out)
    with spec obtain v where v: "out = Inr v" by (cases out) simp_all
    then obtain st where st: "header_ok raw" "records_ok raw" "v = new_charvec (Some st)"
      "store_private st h' (state_elements nu raw)" using spec Inr by auto
    let ?es = "map (wire_element (raw ! 4 = 1) raw (wire_count (raw ! 4 = 1) raw)) [0..<wire_count (raw ! 4 = 1) raw]"
    have "state_of raw (raw ! 3 = 50) (raw ! 4 = 1) ?es" using accepted_state_of [OF st(1,2) assms(3)] .
    moreover have "state_elements nu raw = map (as_read (raw ! 3 = 50) nu) ?es" by (simp add: state_elements_def Let_def)
    ultimately show ?thesis
      using st(3,4) new_charvec_holds [OF st(4)] unfolding u prod.case Inr sum.case v by metis
  qed
qed

theorem charvec_unserialize_exact_witness:
  "\<exists>v h st v2 lsb es. charvec_Unserialize True True (Rawsxp 0 :: nat r_state) demo_raw_heap = (Inr (Inr v), h) \<and>
     state_of demo_state v2 lsb es \<and> v = new_charvec (Some st) \<and> store_private st h (map (as_read v2 True) es)"
proof -
  obtain v h where u: "charvec_Unserialize True True (Rawsxp 0 :: nat r_state) demo_raw_heap = (Inr (Inr v), h)"
    by (rule demo_unserialize)
  show ?thesis
    using charvec_unserialize_exact [OF demo_raw_heap(1-3), where le = True and nu = True and 'c = nat] u
    unfolding u by auto
qed

text \<open>C12. The round trip: what \<open>Serialized_state\<close> writes on one host, \<open>Unserialize\<close> on any host reads
  back as a charvec of the same elements (native text as UTF-8 where the locale is not UTF-8), in slices of
  its own beside the unchanged original, unless memory runs out; then it is an R error that
  leaves every block as it was, wherever the refused allocation is.\<close>

theorem charvec_serialize_roundtrip:
  fixes R :: "'c r_strings" and R' :: "'d r_strings"
  assumes "store_holds st h es" and "list_all storable es"
    and "length (charvec_state True True es) \<le> 4503599627370496"
    and "charvec_Serialized_state le nu R None st h = (Inr (Rawsxp rb), h1)"
    and "\<And>bs c. mkCharLenCE R bs c \<noteq> Inl Undefined"
  shows "case charvec_Unserialize le' nu' (Rawsxp rb :: 'd r_state) h1 of
      (Inl e, h2) \<Rightarrow> (\<exists>m. e = R_error m) \<and> (\<exists>k m. \<not> can_alloc h1 k m) \<and> blocks h2 = blocks h1
    | (Inr (Inl xs), h2) \<Rightarrow> False
    | (Inr (Inr v), h2) \<Rightarrow>
        (\<exists>st'. v = new_charvec (Some st') \<and> store_private st' h2 (map (as_read True nu') es)) \<and>
        charvec_holds R' v h2 (map (charsxp_of R') (map (as_read True nu') es)) \<and>
        store_holds st h2 es \<and> charvec_slices v \<inter> set (st_slices st) = {} \<and>
        takes_only {} (charvec_slices v) h1 h2"
proof -
  let ?W = "charvec_state True True es"
  from charvec_Serialized_state_spec [OF assms(1,4,5)] have rb: "blocks h rb = None" "heap_ok h1"
    "blocks h1 = (blocks h)(rb \<mapsto> ?W)" by simp_all
  have W: "blocks h1 rb = Some ?W" by (simp add: rb)
  have st1: "store_holds st h1 es"
    by (rule store_holds_frame [OF assms(1) rb(2)]) (use assms(1) rb in \<open>auto simp: store_holds_def\<close>)
  have so: "state_of ?W True True es" using assms(2) by (simp add: state_of_def)
  note acc = state_of_accepted [OF so assms(3)]
  have el: "state_elements nu' ?W = map (as_read True nu') es"
    unfolding state_elements_def Let_def acc(3,4) acc(5) ..
  obtain r :: "fault + 'd list + 'd charvec" and h2 where u: "charvec_Unserialize le' nu' (Rawsxp rb) h1 = (r, h2)"
    by fastforce
  note spec = charvec_Unserialize_spec [OF rb(2) W assms(3) u]
  show ?thesis
  proof (cases r)
    case (Inl e)
    then show ?thesis using spec acc(1,2) unfolding u by simp
  next
    case (Inr out)
    then obtain v where v: "out = Inr v" using spec by (cases out) simp_all
    with spec Inr el obtain st' where st': "v = new_charvec (Some st')" "store_private st' h2 (map (as_read True nu') es)"
      and t: "takes_only {} (charvec_slices v) h1 h2" by auto
    have live: "\<forall>b \<in> set (st_slices st). blocks h1 b \<noteq> None" using st1 by (simp add: store_holds_def)
    note ap = takes_only_apart [OF t live]
    have "heap_ok h2" using st'(2) by (simp add: store_private_def store_holds_def)
    then have "store_holds st h2 es" using store_holds_frame [OF st1 _ ap(2)] by blast
    then show ?thesis using st' new_charvec_holds [OF st'(2), of R'] t ap(1) unfolding u prod.case Inr sum.case v by blast
  qed
qed

theorem charvec_serialize_roundtrip_witness:
  "\<exists>st h rb h1 v h2.
     charvec_Serialized_state True True demo_R None st h = (Inr (Rawsxp rb), h1) \<and>
     charvec_Unserialize False False (Rawsxp rb :: (u8 list \<times> cetype_t) option r_state) h1 = (Inr (Inr v), h2) \<and>
     charvec_holds demo_R v h2 [Inr (Some ([104, 105], CE_UTF8)), Inr None]"
proof -
  let ?es = "[Str [104, 105] CETYPE_EXT_UTF8, NA]"
  obtain st h where st: "store_holds st h ?es" "\<And>n m. can_alloc h n m" by (rule demo_string_store) blast
  have mk: "mkCharLenCE demo_R bs c \<noteq> Inl Undefined" for bs c by (simp add: demo_R_def)
  have len: "length (charvec_state True True ?es) \<le> 4503599627370496"
    by (simp add: length_charvec_state state_payload_def)
  have ok: "list_all storable ?es" by (simp add: cetype_defs valid_view_encoding_def)
  have nn: "\<not> has_native ?es" by (simp add: has_native_def cetype_defs)
  obtain r h1 where s: "charvec_Serialized_state True True demo_R None st h = (r, h1)" by fastforce
  from charvec_Serialized_state_spec [OF st(1) s mk] st(2) len nn obtain rb where r: "r = Inr (Rawsxp rb)"
    by (auto split: sum.splits r_state.splits)
  have al: "can_alloc h1 n m" for n m using charvec_Serialized_state_can_alloc [OF s] st(2) by simp
  obtain q h2 where q: "charvec_Unserialize False False (Rawsxp rb :: (u8 list \<times> cetype_t) option r_state) h1 = (q, h2)"
    by fastforce
  have strs: "map (charsxp_of demo_R) (map (as_read True False) ?es) = [Inr (Some ([104, 105], CE_UTF8)), Inr None]"
    by (simp add: demo_R_def to_base_encoding_def cetype_defs)
  from charvec_serialize_roundtrip [OF st(1) ok len s [unfolded r] mk, where le' = False and nu' = False and R' = demo_R,
      unfolded q strs] al
  obtain v where "q = Inr (Inr v)" "charvec_holds demo_R v h2 [Inr (Some ([104, 105], CE_UTF8)), Inr None]"
    by (auto split: sum.splits)
  with s r q show ?thesis by blast
qed

end
