(* ===== verification/Cp_Access.thy ===== *)
theory Cp_Access
  imports Cp_Charvec "HOL-Library.Multiset"
begin

text \<open>
  The reader ABI of \<open>inst/include/charport/interop/reader.h\<close>: the struct of callbacks a
  provider fills in, and the class \<open>Reader\<close> through which C++ code reads the elements of any
  character vector. The contract between them is the locale \<open>reader_provider\<close>; what every
  reader of a provider does is proved there once.
\<close>

section \<open>Callbacks and the reader struct\<close>

text \<open>
  A callback gets the borrow's state (\<open>None\<close> for a null pointer) and the output arrays, and
  returns a status with the arrays it wrote. Callbacks do not throw; \<open>Inl Undefined\<close> is the
  undefined behaviour of a request outside the preconditions.
\<close>

type_synonym str_out = "ptr list \<times> c_int list \<times> cetype_ext_t list"
type_synonym byte_out = "ptr list \<times> c_int list"
type_synonym ('s, 'o) range_fn = "'s option \<Rightarrow> heap \<Rightarrow> R_xlen_t \<Rightarrow> R_xlen_t \<Rightarrow> 'o \<Rightarrow> fault + c_int \<times> 'o"
type_synonym ('s, 'o) index_fn = "'s option \<Rightarrow> heap \<Rightarrow> R_xlen_t list \<Rightarrow> R_xlen_t \<Rightarrow> 'o \<Rightarrow> fault + c_int \<times> 'o"

record 's reader_range_fns =
  range_strviews :: "('s, str_out) range_fn option"
  range_byteviews :: "('s, byte_out) range_fn option"
  range_lengths :: "('s, c_int list) range_fn option"
  range_encodings :: "('s, cetype_ext_t list) range_fn option"

record 's reader_index_fns =
  index_strviews :: "('s, str_out) index_fn option"
  index_byteviews :: "('s, byte_out) index_fn option"
  index_lengths :: "('s, c_int list) index_fn option"
  index_encodings :: "('s, cetype_ext_t list) index_fn option"

record reader_capabilities =
  persistent_views :: bool
  concurrent_access :: bool

text \<open>\<open>'f\<close> is the type of the release callbacks, of which only the identity matters.\<close>

record ('s, 'f) charport_reader =
  rd_n :: R_xlen_t
  rd_state :: "'s option"
  rd_release :: "'f option"
  rd_range :: "'s reader_range_fns"
  rd_index :: "'s reader_index_fns"
  rd_capabilities :: reader_capabilities

definition reentrant :: "reader_capabilities \<Rightarrow> bool" where
  "reentrant c \<longleftrightarrow> persistent_views c \<and> concurrent_access c"

text \<open>The empty struct \<open>r_{}\<close> of a default-constructed \<open>Reader\<close>.\<close>

definition reader_default :: "('s, 'f) charport_reader" where
  "reader_default =
     \<lparr>rd_n = 0, rd_state = None, rd_release = None,
      rd_range = \<lparr>range_strviews = None, range_byteviews = None, range_lengths = None, range_encodings = None\<rparr>,
      rd_index = \<lparr>index_strviews = None, index_byteviews = None, index_lengths = None, index_encodings = None\<rparr>,
      rd_capabilities = \<lparr>persistent_views = False, concurrent_access = False\<rparr>\<rparr>"

section \<open>Accessors\<close>

text \<open>A call through a callback pointer, and the translation of its status.\<close>

definition access :: "'g option \<Rightarrow> ('g \<Rightarrow> fault + c_int \<times> 'o) \<Rightarrow> fault + 'o" where
  "access f call =
     (case f of
        None \<Rightarrow> Inl Undefined
      | Some g \<Rightarrow> and_then (call g) (\<lambda>(status, out). and_then (check_access status) (\<lambda>_. Inr out)))"

definition reader_byteview :: "('s, 'f) charport_reader \<Rightarrow> heap \<Rightarrow> R_xlen_t \<Rightarrow> fault + charport_byteview" where
  "reader_byteview r h i =
     and_then (access (range_byteviews (rd_range r)) (\<lambda>f. f (rd_state r) h i 1 ([Null], [NA_INTEGER])))
       (\<lambda>(ps, ls). and_then (elt_at ps 0) (\<lambda>p. and_then (elt_at ls 0) (\<lambda>l. Inr (make_byteview p l))))"

definition reader_length :: "('s, 'f) charport_reader \<Rightarrow> heap \<Rightarrow> R_xlen_t \<Rightarrow> fault + c_int" where
  "reader_length r h i =
     and_then (access (range_lengths (rd_range r)) (\<lambda>f. f (rd_state r) h i 1 [NA_INTEGER])) (\<lambda>ls. elt_at ls 0)"

definition reader_encoding :: "('s, 'f) charport_reader \<Rightarrow> heap \<Rightarrow> R_xlen_t \<Rightarrow> fault + cetype_ext_t" where
  "reader_encoding r h i =
     and_then (access (range_encodings (rd_range r)) (\<lambda>f. f (rd_state r) h i 1 [CETYPE_EXT_NA])) (\<lambda>es. elt_at es 0)"

definition reader_view :: "('s, 'f) charport_reader \<Rightarrow> heap \<Rightarrow> R_xlen_t \<Rightarrow> fault + charport_strview" where
  "reader_view r h i =
     and_then (access (range_strviews (rd_range r)) (\<lambda>f. f (rd_state r) h i 1 ([Null], [NA_INTEGER], [CETYPE_EXT_NA])))
       (\<lambda>(ps, ls, es). and_then (elt_at ps 0) (\<lambda>p. and_then (elt_at ls 0) (\<lambda>l. and_then (elt_at es 0) (\<lambda>c.
          Inr (make_strview p l c)))))"

text \<open>The overloads into arrays of the caller.\<close>

definition reader_views_range ::
    "('s, 'f) charport_reader \<Rightarrow> heap \<Rightarrow> R_xlen_t \<Rightarrow> R_xlen_t \<Rightarrow> str_out \<Rightarrow> fault + str_out" where
  "reader_views_range r h start n out =
     access (range_strviews (rd_range r)) (\<lambda>f. f (rd_state r) h start n out)"

definition reader_byteviews_range ::
    "('s, 'f) charport_reader \<Rightarrow> heap \<Rightarrow> R_xlen_t \<Rightarrow> R_xlen_t \<Rightarrow> byte_out \<Rightarrow> fault + byte_out" where
  "reader_byteviews_range r h start n out =
     access (range_byteviews (rd_range r)) (\<lambda>f. f (rd_state r) h start n out)"

definition reader_lengths_range ::
    "('s, 'f) charport_reader \<Rightarrow> heap \<Rightarrow> R_xlen_t \<Rightarrow> R_xlen_t \<Rightarrow> c_int list \<Rightarrow> fault + c_int list" where
  "reader_lengths_range r h start n out =
     access (range_lengths (rd_range r)) (\<lambda>f. f (rd_state r) h start n out)"

definition reader_encodings_range ::
    "('s, 'f) charport_reader \<Rightarrow> heap \<Rightarrow> R_xlen_t \<Rightarrow> R_xlen_t \<Rightarrow> cetype_ext_t list \<Rightarrow> fault + cetype_ext_t list" where
  "reader_encodings_range r h start n out =
     access (range_encodings (rd_range r)) (\<lambda>f. f (rd_state r) h start n out)"

definition reader_views_index ::
    "('s, 'f) charport_reader \<Rightarrow> heap \<Rightarrow> R_xlen_t list \<Rightarrow> R_xlen_t \<Rightarrow> str_out \<Rightarrow> fault + str_out" where
  "reader_views_index r h indices n out =
     access (index_strviews (rd_index r)) (\<lambda>f. f (rd_state r) h indices n out)"

definition reader_byteviews_index ::
    "('s, 'f) charport_reader \<Rightarrow> heap \<Rightarrow> R_xlen_t list \<Rightarrow> R_xlen_t \<Rightarrow> byte_out \<Rightarrow> fault + byte_out" where
  "reader_byteviews_index r h indices n out =
     access (index_byteviews (rd_index r)) (\<lambda>f. f (rd_state r) h indices n out)"

definition reader_lengths_index ::
    "('s, 'f) charport_reader \<Rightarrow> heap \<Rightarrow> R_xlen_t list \<Rightarrow> R_xlen_t \<Rightarrow> c_int list \<Rightarrow> fault + c_int list" where
  "reader_lengths_index r h indices n out =
     access (index_lengths (rd_index r)) (\<lambda>f. f (rd_state r) h indices n out)"

definition reader_encodings_index ::
    "('s, 'f) charport_reader \<Rightarrow> heap \<Rightarrow> R_xlen_t list \<Rightarrow> R_xlen_t \<Rightarrow> cetype_ext_t list \<Rightarrow> fault + cetype_ext_t list" where
  "reader_encodings_index r h indices n out =
     access (index_encodings (rd_index r)) (\<lambda>f. f (rd_state r) h indices n out)"

section \<open>StrViews and ByteViews\<close>

text \<open>
  The output buffers: parallel vectors. \<open>std::vector::resize\<close> keeps the common prefix and
  value-initialises the rest; growing may throw \<open>length_error\<close> or \<open>bad_alloc\<close> (an attempt to
  allocate is recorded for every growth; a growth within the capacity is one that succeeds).
\<close>

definition vector_resize :: "nat \<Rightarrow> 'a \<Rightarrow> R_xlen_t \<Rightarrow> 'a list \<Rightarrow> heap \<Rightarrow> (fault + 'a list) \<times> heap" where
  "vector_resize elem x n xs h =
     (if unat n \<le> length xs then (Inr (take (unat n) xs), h)
      else if 9223372036854775807 div elem < unat n then (Inl (Length_error ''vector::_M_default_append''), h)
      else let (ok, h1) = try_alloc (elem * unat n) h
           in if ok then (Inr (xs @ replicate (unat n - length xs) x), h1) else (Inl Bad_alloc, h1))"

definition byteviews_resize :: "R_xlen_t \<Rightarrow> byte_out \<Rightarrow> heap \<Rightarrow> (fault + unit) \<times> byte_out \<times> heap" where
  "byteviews_resize n out h =
     (case out of (ps, ls) \<Rightarrow>
        if sint n < 0 then (Inl (Runtime_error ''charport::ByteViews: negative size''), out, h)
        else
          (case vector_resize 8 Null n ps h of
             (Inl e, h1) \<Rightarrow> (Inl e, out, h1)
           | (Inr ps', h1) \<Rightarrow>
               (case vector_resize 4 0 n ls h1 of
                  (Inl e, h2) \<Rightarrow> (Inl e, (ps', ls), h2)
                | (Inr ls', h2) \<Rightarrow> (Inr (), (ps', ls'), h2))))"

definition strviews_resize :: "R_xlen_t \<Rightarrow> str_out \<Rightarrow> heap \<Rightarrow> (fault + unit) \<times> str_out \<times> heap" where
  "strviews_resize n out h =
     (case out of (ps, ls, es) \<Rightarrow>
        if sint n < 0 then (Inl (Runtime_error ''charport::StrViews: negative size''), out, h)
        else
          (case vector_resize 8 Null n ps h of
             (Inl e, h1) \<Rightarrow> (Inl e, out, h1)
           | (Inr ps', h1) \<Rightarrow>
               (case vector_resize 4 0 n ls h1 of
                  (Inl e, h2) \<Rightarrow> (Inl e, (ps', ls, es), h2)
                | (Inr ls', h2) \<Rightarrow>
                    (case vector_resize 1 (Cetype 0) n es h2 of
                       (Inl e, h3) \<Rightarrow> (Inl e, (ps', ls', es), h3)
                     | (Inr es', h3) \<Rightarrow> (Inr (), (ps', ls', es'), h3)))))"

definition byteviews_at :: "byte_out \<Rightarrow> R_xlen_t \<Rightarrow> fault + charport_byteview" where
  "byteviews_at out i =
     (case out of (ps, ls) \<Rightarrow>
        and_then (elt_at ps (unat i)) (\<lambda>p. and_then (elt_at ls (unat i)) (\<lambda>l. Inr (make_byteview p l))))"

definition strviews_at :: "str_out \<Rightarrow> R_xlen_t \<Rightarrow> fault + charport_strview" where
  "strviews_at out i =
     (case out of (ps, ls, es) \<Rightarrow>
        and_then (elt_at ps (unat i)) (\<lambda>p. and_then (elt_at ls (unat i)) (\<lambda>l.
          and_then (elt_at es (unat i)) (\<lambda>c. Inr (make_strview p l c)))))"

text \<open>The buffer overloads: resize, then the access; a thrown access leaves the resized buffer.\<close>

definition reader_views_into ::
    "('s, 'f) charport_reader \<Rightarrow> R_xlen_t \<Rightarrow> R_xlen_t \<Rightarrow> str_out \<Rightarrow> heap \<Rightarrow> (fault + unit) \<times> str_out \<times> heap" where
  "reader_views_into r start n out h =
     (case strviews_resize n out h of
        (Inl e, out1, h1) \<Rightarrow> (Inl e, out1, h1)
      | (Inr u, out1, h1) \<Rightarrow>
          (case reader_views_range r h1 start n out1 of
             Inl e \<Rightarrow> (Inl e, out1, h1) | Inr out2 \<Rightarrow> (Inr (), out2, h1)))"

definition reader_byteviews_into ::
    "('s, 'f) charport_reader \<Rightarrow> R_xlen_t \<Rightarrow> R_xlen_t \<Rightarrow> byte_out \<Rightarrow> heap \<Rightarrow> (fault + unit) \<times> byte_out \<times> heap" where
  "reader_byteviews_into r start n out h =
     (case byteviews_resize n out h of
        (Inl e, out1, h1) \<Rightarrow> (Inl e, out1, h1)
      | (Inr u, out1, h1) \<Rightarrow>
          (case reader_byteviews_range r h1 start n out1 of
             Inl e \<Rightarrow> (Inl e, out1, h1) | Inr out2 \<Rightarrow> (Inr (), out2, h1)))"

definition reader_views_at_into ::
    "('s, 'f) charport_reader \<Rightarrow> R_xlen_t list \<Rightarrow> R_xlen_t \<Rightarrow> str_out \<Rightarrow> heap \<Rightarrow> (fault + unit) \<times> str_out \<times> heap" where
  "reader_views_at_into r indices n out h =
     (case strviews_resize n out h of
        (Inl e, out1, h1) \<Rightarrow> (Inl e, out1, h1)
      | (Inr u, out1, h1) \<Rightarrow>
          (case reader_views_index r h1 indices n out1 of
             Inl e \<Rightarrow> (Inl e, out1, h1) | Inr out2 \<Rightarrow> (Inr (), out2, h1)))"

definition reader_byteviews_at_into ::
    "('s, 'f) charport_reader \<Rightarrow> R_xlen_t list \<Rightarrow> R_xlen_t \<Rightarrow> byte_out \<Rightarrow> heap \<Rightarrow> (fault + unit) \<times> byte_out \<times> heap" where
  "reader_byteviews_at_into r indices n out h =
     (case byteviews_resize n out h of
        (Inl e, out1, h1) \<Rightarrow> (Inl e, out1, h1)
      | (Inr u, out1, h1) \<Rightarrow>
          (case reader_byteviews_index r h1 indices n out1 of
             Inl e \<Rightarrow> (Inl e, out1, h1) | Inr out2 \<Rightarrow> (Inr (), out2, h1)))"

section \<open>Iteration\<close>

text \<open>\<open>const_iterator\<close>: the reader and a position.\<close>

type_synonym ('s, 'f) const_iterator = "('s, 'f) charport_reader \<times> R_xlen_t"

definition reader_begin :: "('s, 'f) charport_reader \<Rightarrow> ('s, 'f) const_iterator" where
  "reader_begin r = (r, 0)"

definition reader_end :: "('s, 'f) charport_reader \<Rightarrow> ('s, 'f) const_iterator" where
  "reader_end r = (r, rd_n r)"

definition iterator_deref :: "('s, 'f) const_iterator \<Rightarrow> heap \<Rightarrow> fault + charport_strview" where
  "iterator_deref it h = (case it of (r, i) \<Rightarrow> reader_view r h i)"

definition iterator_next :: "('s, 'f) const_iterator \<Rightarrow> ('s, 'f) const_iterator" where
  "iterator_next it = (case it of (r, i) \<Rightarrow> (r, i + 1))"

definition iterator_neq :: "('s, 'f) const_iterator \<Rightarrow> ('s, 'f) const_iterator \<Rightarrow> bool" where
  "iterator_neq a b \<longleftrightarrow> snd a \<noteq> snd b"

text \<open>The loop \<open>for(StrView v : reader)\<close>, collecting what it visits.\<close>

function iterate :: "('s, 'f) const_iterator \<Rightarrow> ('s, 'f) const_iterator \<Rightarrow> heap \<Rightarrow> fault + charport_strview list" where
  "iterate it stop h =
     (if iterator_neq it stop
      then and_then (iterator_deref it h) (\<lambda>v. and_then (iterate (iterator_next it) stop h) (\<lambda>vs. Inr (v # vs)))
      else Inr [])"
  by pat_completeness auto

termination
proof (relation "measure (\<lambda>(it, stop, h). unat (snd stop - snd it))")
  fix it stop :: "('s, 'f) const_iterator"
  assume "iterator_neq it stop"
  then have "snd stop - snd it \<noteq> 0" by (auto simp: iterator_neq_def)
  then have "unat (snd stop - snd it - 1) < unat (snd stop - snd it)"
    by (rule measure_unat)
  then show "((iterator_next it, stop, h), (it, stop, h)) \<in> measure (\<lambda>(it, stop, h). unat (snd stop - snd it))" for h :: heap
    by (simp add: iterator_next_def split_beta algebra_simps)
qed simp

declare iterate.simps [simp del]

section \<open>The contract\<close>

text \<open>Output arrays with room for \<open>n\<close> records, and the arrays after \<open>vs\<close> has been written.\<close>

fun str_fits :: "nat \<Rightarrow> str_out \<Rightarrow> bool" where
  "str_fits n (ps, ls, es) \<longleftrightarrow> n \<le> length ps \<and> n \<le> length ls \<and> n \<le> length es"

fun byte_fits :: "nat \<Rightarrow> byte_out \<Rightarrow> bool" where
  "byte_fits n (ps, ls) \<longleftrightarrow> n \<le> length ps \<and> n \<le> length ls"

fun str_written :: "str_out \<Rightarrow> charport_strview list \<Rightarrow> str_out" where
  "str_written (ps, ls, es) vs = (patch ps 0 (map sv_ptr vs), patch ls 0 (map sv_len vs), patch es 0 (map sv_enc vs))"

fun byte_written :: "byte_out \<Rightarrow> charport_strview list \<Rightarrow> byte_out" where
  "byte_written (ps, ls) vs = (patch ps 0 (map sv_ptr vs), patch ls 0 (map sv_len vs))"

definition indices_ok :: "R_xlen_t list \<Rightarrow> nat \<Rightarrow> charport_strview list \<Rightarrow> bool" where
  "indices_ok js n vs \<longleftrightarrow> n \<le> length js \<and> n < 2 ^ 63 \<and> (\<forall>j \<in> set (take n js). unat j < length vs)"

definition selected_views :: "R_xlen_t list \<Rightarrow> nat \<Rightarrow> charport_strview list \<Rightarrow> charport_strview list" where
  "selected_views js n vs = map (\<lambda>j. vs ! unat j) (take n js)"

text \<open>
  What a provider promises: while a borrow \<open>s\<close> stands for the records \<open>vs\<close>, a request within
  the documented bounds succeeds and writes exactly the records asked for.
\<close>

locale reader_provider =
  fixes rf :: "'s reader_range_fns" and xf :: "'s reader_index_fns"
    and serves :: "'s option \<Rightarrow> heap \<Rightarrow> charport_strview list \<Rightarrow> bool"
  assumes serves_small: "serves s h vs \<Longrightarrow> length vs < 2 ^ 63"
    and strviews_of_range: "serves s h vs \<Longrightarrow> i + n \<le> length vs \<Longrightarrow> str_fits n out \<Longrightarrow>
      access (range_strviews rf) (\<lambda>f. f s h (of_nat i) (of_nat n) out) = Inr (str_written out (take n (drop i vs)))"
    and byteviews_of_range: "serves s h vs \<Longrightarrow> i + n \<le> length vs \<Longrightarrow> byte_fits n bout \<Longrightarrow>
      access (range_byteviews rf) (\<lambda>f. f s h (of_nat i) (of_nat n) bout) = Inr (byte_written bout (take n (drop i vs)))"
    and lengths_of_range: "serves s h vs \<Longrightarrow> i + n \<le> length vs \<Longrightarrow> n \<le> length ls \<Longrightarrow>
      access (range_lengths rf) (\<lambda>f. f s h (of_nat i) (of_nat n) ls) = Inr (patch ls 0 (map sv_len (take n (drop i vs))))"
    and encodings_of_range: "serves s h vs \<Longrightarrow> i + n \<le> length vs \<Longrightarrow> n \<le> length es \<Longrightarrow>
      access (range_encodings rf) (\<lambda>f. f s h (of_nat i) (of_nat n) es) = Inr (patch es 0 (map sv_enc (take n (drop i vs))))"
    and strviews_of_index: "serves s h vs \<Longrightarrow> indices_ok js n vs \<Longrightarrow> str_fits n out \<Longrightarrow>
      access (index_strviews xf) (\<lambda>f. f s h js (of_nat n) out) = Inr (str_written out (selected_views js n vs))"
    and byteviews_of_index: "serves s h vs \<Longrightarrow> indices_ok js n vs \<Longrightarrow> byte_fits n bout \<Longrightarrow>
      access (index_byteviews xf) (\<lambda>f. f s h js (of_nat n) bout) = Inr (byte_written bout (selected_views js n vs))"
    and lengths_of_index: "serves s h vs \<Longrightarrow> indices_ok js n vs \<Longrightarrow> n \<le> length ls \<Longrightarrow>
      access (index_lengths xf) (\<lambda>f. f s h js (of_nat n) ls) = Inr (patch ls 0 (map sv_len (selected_views js n vs)))"
    and encodings_of_index: "serves s h vs \<Longrightarrow> indices_ok js n vs \<Longrightarrow> n \<le> length es \<Longrightarrow>
      access (index_encodings xf) (\<lambda>f. f s h js (of_nat n) es) = Inr (patch es 0 (map sv_enc (selected_views js n vs)))"

text \<open>
  What a client may rely on: the reader is the list \<open>vs\<close> through every accessor, each element
  alone, any range, any list of indices, and by iteration.
\<close>

definition reads_elements :: "('s, 'f) charport_reader \<Rightarrow> heap \<Rightarrow> charport_strview list \<Rightarrow> bool" where
  "reads_elements r h vs \<longleftrightarrow>
     rd_n r = of_nat (length vs) \<and> length vs < 2 ^ 63 \<and>
     (\<forall>i < length vs.
        reader_view r h (of_nat i) = Inr (vs ! i) \<and>
        reader_byteview r h (of_nat i) = Inr (make_byteview (sv_ptr (vs ! i)) (sv_len (vs ! i))) \<and>
        reader_length r h (of_nat i) = Inr (sv_len (vs ! i)) \<and>
        reader_encoding r h (of_nat i) = Inr (sv_enc (vs ! i))) \<and>
     iterate (reader_begin r) (reader_end r) h = Inr vs"

definition reads_ranges :: "('s, 'f) charport_reader \<Rightarrow> heap \<Rightarrow> charport_strview list \<Rightarrow> bool" where
  "reads_ranges r h vs \<longleftrightarrow>
     (\<forall>i n. i + n \<le> length vs \<longrightarrow>
        (\<forall>out. str_fits n out \<longrightarrow>
           reader_views_range r h (of_nat i) (of_nat n) out = Inr (str_written out (take n (drop i vs)))) \<and>
        (\<forall>out. byte_fits n out \<longrightarrow>
           reader_byteviews_range r h (of_nat i) (of_nat n) out = Inr (byte_written out (take n (drop i vs)))) \<and>
        (\<forall>out. n \<le> length out \<longrightarrow>
           reader_lengths_range r h (of_nat i) (of_nat n) out = Inr (patch out 0 (map sv_len (take n (drop i vs))))) \<and>
        (\<forall>out. n \<le> length out \<longrightarrow>
           reader_encodings_range r h (of_nat i) (of_nat n) out = Inr (patch out 0 (map sv_enc (take n (drop i vs))))))"

definition reads_indices :: "('s, 'f) charport_reader \<Rightarrow> heap \<Rightarrow> charport_strview list \<Rightarrow> bool" where
  "reads_indices r h vs \<longleftrightarrow>
     (\<forall>js n. indices_ok js n vs \<longrightarrow>
        (\<forall>out. str_fits n out \<longrightarrow>
           reader_views_index r h js (of_nat n) out = Inr (str_written out (selected_views js n vs))) \<and>
        (\<forall>out. byte_fits n out \<longrightarrow>
           reader_byteviews_index r h js (of_nat n) out = Inr (byte_written out (selected_views js n vs))) \<and>
        (\<forall>out. n \<le> length out \<longrightarrow>
           reader_lengths_index r h js (of_nat n) out = Inr (patch out 0 (map sv_len (selected_views js n vs)))) \<and>
        (\<forall>out. n \<le> length out \<longrightarrow>
           reader_encodings_index r h js (of_nat n) out = Inr (patch out 0 (map sv_enc (selected_views js n vs)))))"

definition reads :: "('s, 'f) charport_reader \<Rightarrow> heap \<Rightarrow> charport_strview list \<Rightarrow> bool" where
  "reads r h vs \<longleftrightarrow> reads_elements r h vs \<and> reads_ranges r h vs \<and> reads_indices r h vs"

lemma unat_small: "k < 2 ^ 63 \<Longrightarrow> unat (of_nat k :: 64 word) = k"
  by (simp add: unat_of_nat take_bit_nat_eq_self)

text \<open>A loop from position \<open>i\<close> visits the elements from \<open>i\<close> on.\<close>

lemma iterate_from:
  assumes "length vs < 2 ^ 63" and "rd_n r = of_nat (length vs)"
    and view: "\<And>i. i < length vs \<Longrightarrow> reader_view r h (of_nat i) = Inr (vs ! i)" and "i \<le> length vs"
  shows "iterate (r, of_nat i) (reader_end r) h = Inr (drop i vs)"
  using assms(4)
proof (induction "length vs - i" arbitrary: i)
  case 0
  then show ?case by (subst iterate.simps) (simp add: iterator_neq_def reader_end_def assms(2))
next
  case (Suc k)
  then have i: "i < length vs" by simp
  then have "(of_nat i :: R_xlen_t) \<noteq> of_nat (length vs)"
    using unat_small [of i] unat_small [OF assms(1)] assms(1) by (metis less_trans less_irrefl)
  moreover have "iterate (r, of_nat (Suc i)) (reader_end r) h = Inr (drop (Suc i) vs)"
    by (rule Suc.hyps(1)) (use Suc.hyps(2) i in simp_all)
  ultimately show ?case
    by (subst iterate.simps)
      (simp add: iterator_neq_def reader_end_def assms(2) iterator_deref_def iterator_next_def view [OF i]
        add.commute Cons_nth_drop_Suc [OF i])
qed

context reader_provider
begin

lemma view_at:
  assumes "serves s h vs" and "i < length vs"
  shows "access (range_strviews rf) (\<lambda>f. f s h (of_nat i) 1 ([p], [l], [c])) =
      Inr ([sv_ptr (vs ! i)], [sv_len (vs ! i)], [sv_enc (vs ! i)])"
    and "access (range_byteviews rf) (\<lambda>f. f s h (of_nat i) 1 ([p], [l])) = Inr ([sv_ptr (vs ! i)], [sv_len (vs ! i)])"
    and "access (range_lengths rf) (\<lambda>f. f s h (of_nat i) 1 [l]) = Inr [sv_len (vs ! i)]"
    and "access (range_encodings rf) (\<lambda>f. f s h (of_nat i) 1 [c]) = Inr [sv_enc (vs ! i)]"
proof -
  have one: "take 1 (drop i vs) = [vs ! i]" using assms(2) by (simp add: take_Suc_conv_app_nth take_Suc hd_drop_conv_nth)
  note laws = strviews_of_range [OF assms(1), where i = i and n = 1]
    byteviews_of_range [OF assms(1), where i = i and n = 1]
    lengths_of_range [OF assms(1), where i = i and n = 1] encodings_of_range [OF assms(1), where i = i and n = 1]
  show "access (range_strviews rf) (\<lambda>f. f s h (of_nat i) 1 ([p], [l], [c])) =
      Inr ([sv_ptr (vs ! i)], [sv_len (vs ! i)], [sv_enc (vs ! i)])"
    "access (range_byteviews rf) (\<lambda>f. f s h (of_nat i) 1 ([p], [l])) = Inr ([sv_ptr (vs ! i)], [sv_len (vs ! i)])"
    "access (range_lengths rf) (\<lambda>f. f s h (of_nat i) 1 [l]) = Inr [sv_len (vs ! i)]"
    "access (range_encodings rf) (\<lambda>f. f s h (of_nat i) 1 [c]) = Inr [sv_enc (vs ! i)]"
    using laws(1) [where out = "([p], [l], [c])"] laws(2) [where bout = "([p], [l])"] laws(3) [where ls = "[l]"]
      laws(4) [where es = "[c]"] assms(2) one by (simp_all add: patch_def)
qed

lemma reads_provided:
  assumes serves: "serves s h vs" and r: "rd_range r = rf" "rd_index r = xf" "rd_state r = s" "rd_n r = of_nat (length vs)"
  shows "reads r h vs"
proof -
  have view: "reader_view r h (of_nat i) = Inr (vs ! i)" if "i < length vs" for i
    using view_at(1) [OF serves that] by (simp add: reader_view_def r elt_at_def make_strview_def)
  have "reads_elements r h vs"
    using iterate_from [OF serves_small [OF serves] r(4) view, of 0] view serves_small [OF serves] view_at(2-) [OF serves]
    by (simp add: reads_elements_def r(4) reader_begin_def)
      (simp add: reader_byteview_def reader_length_def reader_encoding_def r elt_at_def)
  moreover have "reads_ranges r h vs"
    using strviews_of_range [OF serves] byteviews_of_range [OF serves] lengths_of_range [OF serves] encodings_of_range [OF serves]
    by (simp add: reads_ranges_def reader_views_range_def reader_byteviews_range_def reader_lengths_range_def
        reader_encodings_range_def r(1-3))
  moreover have "reads_indices r h vs"
    using strviews_of_index [OF serves] byteviews_of_index [OF serves] lengths_of_index [OF serves] encodings_of_index [OF serves]
    by (simp add: reads_indices_def reader_views_index_def reader_byteviews_index_def reader_lengths_index_def
        reader_encodings_index_def r(1-3))
  ultimately show ?thesis by (simp add: reads_def)
qed

end

end
