(* ===== verification/Cp_Provider.thy ===== *)
theory Cp_Provider
  imports Cp_Access
begin

text \<open>
  Two providers of readers: charvec (the callbacks of \<open>struct charvec_altrep\<close> in
  \<open>src/charvec_altrep.h\<close>, over the store) and R storage (the \<open>direct_\<close> callbacks of
  \<open>src/charport_registry.cpp\<close>, over the \<open>CHARSXP\<close>s of an ordinary character vector). Both
  are interpretations of \<open>reader_provider\<close>.
\<close>

section \<open>Borrowed states\<close>

text \<open>
  What a \<open>void *\<close> state points to: a store, the element array of a character vector, the bytes
  of a charpack, or data of a class of another package. A callback casts it to its own type, so
  another kind of state is undefined behaviour.
\<close>

datatype ('c, 's) provider_state = Store_state store | Storage_state "'c list" | Packed_state blk | Foreign_state 's

definition state_store :: "('c, 's) provider_state option \<Rightarrow> fault + store" where
  "state_store s = (case s of Some (Store_state st) \<Rightarrow> Inr st | _ \<Rightarrow> Inl Undefined)"

definition state_storage :: "('c, 's) provider_state option \<Rightarrow> fault + 'c list" where
  "state_storage s = (case s of Some (Storage_state xs) \<Rightarrow> Inr xs | _ \<Rightarrow> Inl Undefined)"

section \<open>Writing output arrays\<close>

definition put_byte :: "nat \<Rightarrow> ptr \<Rightarrow> c_int \<Rightarrow> byte_out \<Rightarrow> fault + byte_out" where
  "put_byte j p l out =
     (case out of (ps, ls) \<Rightarrow>
        and_then (set_elt_at ps j p) (\<lambda>ps'. and_then (set_elt_at ls j l) (\<lambda>ls'. Inr (ps', ls'))))"

definition put_str :: "nat \<Rightarrow> ptr \<Rightarrow> c_int \<Rightarrow> cetype_ext_t \<Rightarrow> str_out \<Rightarrow> fault + str_out" where
  "put_str j p l c out =
     (case out of (ps, ls, es) \<Rightarrow>
        and_then (set_elt_at ps j p) (\<lambda>ps'. and_then (set_elt_at ls j l) (\<lambda>ls'.
          and_then (set_elt_at es j c) (\<lambda>es'. Inr (ps', ls', es')))))"

text \<open>\<open>memcpy\<close> of \<open>count\<close> cells from \<open>offset\<close> on; reading an uninitialised cell is undefined.\<close>

definition copy_cells :: "'a option list \<Rightarrow> nat \<Rightarrow> nat \<Rightarrow> 'a list \<Rightarrow> fault + 'a list" where
  "copy_cells cells offset cnt out =
     (let xs = take cnt (drop offset cells)
      in if offset + cnt \<le> length cells \<and> None \<notin> set xs \<and> cnt \<le> length out
         then Inr (patch out 0 (map the xs)) else Inl Undefined)"

section \<open>charvec\<close>

definition charvec_reader_init :: "'c charvec \<Rightarrow> ('c, 's) provider_state option" where
  "charvec_reader_init v =
     (case cv_data2 v of Some xs \<Rightarrow> None | None \<Rightarrow> map_option Store_state (cv_store v))"

definition charvec_strviews_range :: "(('c, 's) provider_state, str_out) range_fn" where
  "charvec_strviews_range s h start n out =
     (if n = 0 then Inr (CHARPORT_STATUS_OK, out)
      else and_then (state_store s) (\<lambda>data.
        let offset = unat start; cnt = unat n
        in (case out of (ps, ls, es) \<Rightarrow>
              and_then (copy_cells (rt_ptrs (st_records data)) offset cnt ps) (\<lambda>ps'.
              and_then (copy_cells (rt_lens (st_records data)) offset cnt ls) (\<lambda>ls'.
              and_then (copy_cells (rt_encs (st_records data)) offset cnt es) (\<lambda>es'.
                Inr (CHARPORT_STATUS_OK, ps', ls', es')))))))"

definition charvec_byteviews_range :: "(('c, 's) provider_state, byte_out) range_fn" where
  "charvec_byteviews_range s h start n out =
     (if n = 0 then Inr (CHARPORT_STATUS_OK, out)
      else and_then (state_store s) (\<lambda>data.
        let offset = unat start; cnt = unat n
        in (case out of (ps, ls) \<Rightarrow>
              and_then (copy_cells (rt_ptrs (st_records data)) offset cnt ps) (\<lambda>ps'.
              and_then (copy_cells (rt_lens (st_records data)) offset cnt ls) (\<lambda>ls'.
                Inr (CHARPORT_STATUS_OK, ps', ls'))))))"

definition charvec_lengths_range :: "(('c, 's) provider_state, c_int list) range_fn" where
  "charvec_lengths_range s h start n out =
     (if n = 0 then Inr (CHARPORT_STATUS_OK, out)
      else and_then (state_store s) (\<lambda>data.
        and_then (copy_cells (rt_lens (st_records data)) (unat start) (unat n) out) (\<lambda>ls.
          Inr (CHARPORT_STATUS_OK, ls))))"

definition charvec_encodings_range :: "(('c, 's) provider_state, cetype_ext_t list) range_fn" where
  "charvec_encodings_range s h start n out =
     (if n = 0 then Inr (CHARPORT_STATUS_OK, out)
      else and_then (state_store s) (\<lambda>data.
        and_then (copy_cells (rt_encs (st_records data)) (unat start) (unat n) out) (\<lambda>es.
          Inr (CHARPORT_STATUS_OK, es))))"

text \<open>A loop \<open>for(R_xlen_t j = 0; j < size; ++j)\<close> over the output arrays.\<close>

definition fill_loop :: "R_xlen_t \<Rightarrow> (nat \<Rightarrow> 'o \<Rightarrow> fault + 'o) \<Rightarrow> 'o \<Rightarrow> fault + c_int \<times> 'o" where
  "fill_loop n body out =
     and_then (for_each body [0..<nat (sint n)] out) (\<lambda>out'. Inr (CHARPORT_STATUS_OK, out'))"

definition charvec_strviews_index :: "(('c, 's) provider_state, str_out) index_fn" where
  "charvec_strviews_index s h indices n out =
     fill_loop n (\<lambda>j out.
       and_then (elt_at indices j) (\<lambda>k. and_then (state_store s) (\<lambda>data.
       and_then (rt_view (st_records data) (unat k)) (\<lambda>v. put_str j (sv_ptr v) (sv_len v) (sv_enc v) out)))) out"

definition charvec_byteviews_index :: "(('c, 's) provider_state, byte_out) index_fn" where
  "charvec_byteviews_index s h indices n out =
     fill_loop n (\<lambda>j out.
       and_then (elt_at indices j) (\<lambda>k. and_then (state_store s) (\<lambda>data.
       and_then (rt_byteview (st_records data) (unat k)) (\<lambda>v. put_byte j (bv_ptr v) (bv_len v) out)))) out"

definition charvec_lengths_index :: "(('c, 's) provider_state, c_int list) index_fn" where
  "charvec_lengths_index s h indices n out =
     fill_loop n (\<lambda>j out.
       and_then (elt_at indices j) (\<lambda>k. and_then (state_store s) (\<lambda>data.
       and_then (rt_length (st_records data) (unat k)) (\<lambda>l. set_elt_at out j l)))) out"

definition charvec_encodings_index :: "(('c, 's) provider_state, cetype_ext_t list) index_fn" where
  "charvec_encodings_index s h indices n out =
     fill_loop n (\<lambda>j out.
       and_then (elt_at indices j) (\<lambda>k. and_then (state_store s) (\<lambda>data.
       and_then (rt_encoding (st_records data) (unat k)) (\<lambda>c. set_elt_at out j c)))) out"

definition charvec_range_fns :: "('c, 's) provider_state reader_range_fns" where
  "charvec_range_fns =
     \<lparr>range_strviews = Some charvec_strviews_range, range_byteviews = Some charvec_byteviews_range,
      range_lengths = Some charvec_lengths_range, range_encodings = Some charvec_encodings_range\<rparr>"

definition charvec_index_fns :: "('c, 's) provider_state reader_index_fns" where
  "charvec_index_fns =
     \<lparr>index_strviews = Some charvec_strviews_index, index_byteviews = Some charvec_byteviews_index,
      index_lengths = Some charvec_lengths_index, index_encodings = Some charvec_encodings_index\<rparr>"

section \<open>R storage\<close>

definition direct_fill_strview :: "'c r_strings \<Rightarrow> heap \<Rightarrow> 'c \<Rightarrow> nat \<Rightarrow> str_out \<Rightarrow> fault + str_out" where
  "direct_fill_strview R h cs j out =
     (if cs = NA_STRING R then put_str j Null NA_INTEGER CETYPE_EXT_NA out
      else and_then (classify_charsxp R h cs) (\<lambda>c. put_str j (CHAR_charsxp R cs) (LENGTH_charsxp R cs) c out))"

definition direct_fill_byteview :: "'c r_strings \<Rightarrow> 'c \<Rightarrow> nat \<Rightarrow> byte_out \<Rightarrow> fault + byte_out" where
  "direct_fill_byteview R cs j out =
     (if cs = NA_STRING R then put_byte j Null NA_INTEGER out
      else put_byte j (CHAR_charsxp R cs) (LENGTH_charsxp R cs) out)"

definition direct_length :: "'c r_strings \<Rightarrow> 'c \<Rightarrow> c_int" where
  "direct_length R cs = (if cs = NA_STRING R then NA_INTEGER else LENGTH_charsxp R cs)"

definition direct_encoding :: "'c r_strings \<Rightarrow> heap \<Rightarrow> 'c \<Rightarrow> fault + cetype_ext_t" where
  "direct_encoding R h cs = (if cs = NA_STRING R then Inr CETYPE_EXT_NA else classify_charsxp R h cs)"

text \<open>\<open>ptr[start + j]\<close> and \<open>ptr[indices[j]]\<close>.\<close>

definition storage_at :: "('c, 's) provider_state option \<Rightarrow> R_xlen_t \<Rightarrow> fault + 'c" where
  "storage_at s k = and_then (state_storage s) (\<lambda>xs. elt_at xs (unat k))"

definition direct_strviews_range :: "'c r_strings \<Rightarrow> (('c, 's) provider_state, str_out) range_fn" where
  "direct_strviews_range R s h start n out =
     fill_loop n (\<lambda>j out. and_then (storage_at s (start + of_nat j)) (\<lambda>cs. direct_fill_strview R h cs j out)) out"

definition direct_strviews_index :: "'c r_strings \<Rightarrow> (('c, 's) provider_state, str_out) index_fn" where
  "direct_strviews_index R s h indices n out =
     fill_loop n (\<lambda>j out. and_then (elt_at indices j) (\<lambda>k.
       and_then (storage_at s k) (\<lambda>cs. direct_fill_strview R h cs j out))) out"

definition direct_byteviews_range :: "'c r_strings \<Rightarrow> (('c, 's) provider_state, byte_out) range_fn" where
  "direct_byteviews_range R s h start n out =
     fill_loop n (\<lambda>j out. and_then (storage_at s (start + of_nat j)) (\<lambda>cs. direct_fill_byteview R cs j out)) out"

definition direct_byteviews_index :: "'c r_strings \<Rightarrow> (('c, 's) provider_state, byte_out) index_fn" where
  "direct_byteviews_index R s h indices n out =
     fill_loop n (\<lambda>j out. and_then (elt_at indices j) (\<lambda>k.
       and_then (storage_at s k) (\<lambda>cs. direct_fill_byteview R cs j out))) out"

definition direct_lengths_range :: "'c r_strings \<Rightarrow> (('c, 's) provider_state, c_int list) range_fn" where
  "direct_lengths_range R s h start n out =
     fill_loop n (\<lambda>j out. and_then (storage_at s (start + of_nat j)) (\<lambda>cs. set_elt_at out j (direct_length R cs))) out"

definition direct_lengths_index :: "'c r_strings \<Rightarrow> (('c, 's) provider_state, c_int list) index_fn" where
  "direct_lengths_index R s h indices n out =
     fill_loop n (\<lambda>j out. and_then (elt_at indices j) (\<lambda>k.
       and_then (storage_at s k) (\<lambda>cs. set_elt_at out j (direct_length R cs)))) out"

definition direct_encodings_range :: "'c r_strings \<Rightarrow> (('c, 's) provider_state, cetype_ext_t list) range_fn" where
  "direct_encodings_range R s h start n out =
     fill_loop n (\<lambda>j out. and_then (storage_at s (start + of_nat j)) (\<lambda>cs.
       and_then (direct_encoding R h cs) (\<lambda>c. set_elt_at out j c))) out"

definition direct_encodings_index :: "'c r_strings \<Rightarrow> (('c, 's) provider_state, cetype_ext_t list) index_fn" where
  "direct_encodings_index R s h indices n out =
     fill_loop n (\<lambda>j out. and_then (elt_at indices j) (\<lambda>k. and_then (storage_at s k) (\<lambda>cs.
       and_then (direct_encoding R h cs) (\<lambda>c. set_elt_at out j c)))) out"

definition direct_range_fns :: "'c r_strings \<Rightarrow> ('c, 's) provider_state reader_range_fns" where
  "direct_range_fns R =
     \<lparr>range_strviews = Some (direct_strviews_range R), range_byteviews = Some (direct_byteviews_range R),
      range_lengths = Some (direct_lengths_range R), range_encodings = Some (direct_encodings_range R)\<rparr>"

definition direct_index_fns :: "'c r_strings \<Rightarrow> ('c, 's) provider_state reader_index_fns" where
  "direct_index_fns R =
     \<lparr>index_strviews = Some (direct_strviews_index R), index_byteviews = Some (direct_byteviews_index R),
      index_lengths = Some (direct_lengths_index R), index_encodings = Some (direct_encodings_index R)\<rparr>"

definition direct_reader ::
    "'c r_strings \<Rightarrow> R_xlen_t \<Rightarrow> 'c list \<Rightarrow> (('c, 's) provider_state, 'f) charport_reader" where
  "direct_reader R n direct =
     \<lparr>rd_n = n, rd_state = Some (Storage_state direct), rd_release = None,
      rd_range = direct_range_fns R, rd_index = direct_index_fns R,
      rd_capabilities = \<lparr>persistent_views = True, concurrent_access = False\<rparr>\<rparr>"

section \<open>Loops that fill output arrays\<close>

lemma set_patch_step:
  "k < length ys \<Longrightarrow> length ys \<le> length xs \<Longrightarrow>
   (patch xs 0 (take k ys))[k := ys ! k] = patch xs 0 (take (Suc k) ys)"
  by (rule nth_equalityI) (auto simp: patch_def nth_append nth_list_update min_def less_Suc_eq)

lemma patch_Nil [simp]: "patch xs 0 [] = xs"
  by (simp add: patch_def)

lemma set_elt_patch:
  "k < length ys \<Longrightarrow> length ys \<le> length xs \<Longrightarrow>
   set_elt_at (patch xs 0 (take k ys)) k (ys ! k) = Inr (patch xs 0 (take (Suc k) ys))"
  by (simp add: set_elt_at_def set_patch_step min_def)

lemma put_str_patch:
  "k < length vs \<Longrightarrow> str_fits (length vs) out \<Longrightarrow>
   put_str k (sv_ptr (vs ! k)) (sv_len (vs ! k)) (sv_enc (vs ! k)) (str_written out (take k vs)) =
     Inr (str_written out (take (Suc k) vs))"
  using set_elt_patch [of k "map sv_ptr vs"] set_elt_patch [of k "map sv_len vs"] set_elt_patch [of k "map sv_enc vs"]
  by (cases out) (simp add: put_str_def take_map)

lemma put_byte_patch:
  "k < length vs \<Longrightarrow> byte_fits (length vs) out \<Longrightarrow>
   put_byte k (sv_ptr (vs ! k)) (sv_len (vs ! k)) (byte_written out (take k vs)) = Inr (byte_written out (take (Suc k) vs))"
  using set_elt_patch [of k "map sv_ptr vs"] set_elt_patch [of k "map sv_len vs"]
  by (cases out) (simp add: put_byte_def take_map)

lemma len_patch:
  "k < length vs \<Longrightarrow> length vs \<le> length ls \<Longrightarrow>
   set_elt_at (patch ls 0 (map sv_len (take k vs))) k (sv_len (vs ! k)) = Inr (patch ls 0 (map sv_len (take (Suc k) vs)))"
  using set_elt_patch [of k "map sv_len vs"] by (simp add: take_map)

lemma enc_patch:
  "k < length vs \<Longrightarrow> length vs \<le> length es \<Longrightarrow>
   set_elt_at (patch es 0 (map sv_enc (take k vs))) k (sv_enc (vs ! k)) = Inr (patch es 0 (map sv_enc (take (Suc k) vs)))"
  using set_elt_patch [of k "map sv_enc vs"] by (simp add: take_map)

lemma written_Nil [simp]: "str_written out [] = out" "byte_written bout [] = bout"
  by (cases out; cases bout; simp)+

text \<open>A loop whose \<open>j\<close>th step turns \<open>W (take j vs)\<close> into \<open>W (take (Suc j) vs)\<close> ends in \<open>W vs\<close>.\<close>

lemma fill_loop_writes:
  assumes "n = length vs" and "n < 2 ^ 63"
    and step: "\<And>j. j < n \<Longrightarrow> body j (W (take j vs)) = Inr (W (take (Suc j) vs))"
  shows "fill_loop (of_nat n) body (W []) = Inr (CHARPORT_STATUS_OK, W vs)"
proof -
  have "nat (sint (of_nat n :: R_xlen_t)) = n"
    using assms(2) by (simp add: sint_uint signed_take_bit_int_eq_self unsigned_of_nat take_bit_nat_eq_self)
  moreover have "\<exists>s'. for_each body [0..<n] (W []) = Inr s' \<and> s' = W (take n vs)"
    by (rule for_each_invariant) (use step in auto)
  ultimately show ?thesis using assms(1) by (simp add: fill_loop_def)
qed

section \<open>charvec keeps the contract\<close>

text \<open>The borrow is the store, which is not changed while the borrow lasts.\<close>

definition charvec_serves :: "('c, 's) provider_state option \<Rightarrow> heap \<Rightarrow> charport_strview list \<Rightarrow> bool" where
  "charvec_serves s h vs \<longleftrightarrow>
     (\<exists>st. s = Some (Store_state st) \<and> rt_ok (st_records st) \<and> vs = rt_views (st_records st))"

lemma charvec_servesE:
  assumes "charvec_serves s h vs"
  obtains st where "s = Some (Store_state st)" "rt_ok (st_records st)" "vs = rt_views (st_records st)"
    "state_store s = Inr st" "length vs < 2 ^ 63"
proof -
  obtain st where st: "s = Some (Store_state st)" "rt_ok (st_records st)" "vs = rt_views (st_records st)"
    using assms by (auto simp: charvec_serves_def)
  with rt_ok_bound [OF st(2)] show thesis by (intro that) (simp_all add: state_store_def)
qed

lemma copy_cells_ok:
  assumes "i + length xs \<le> length cells" and "length xs \<le> length out"
    and "\<And>k. k < length xs \<Longrightarrow> cells ! (i + k) = Some (xs ! k)"
  shows "copy_cells cells i (length xs) out = Inr (patch out 0 xs)"
proof -
  have "take (length xs) (drop i cells) = map Some xs"
    by (rule nth_equalityI) (use assms in auto)
  then show ?thesis using assms(1,2) by (auto simp: copy_cells_def Let_def)
qed

lemma copy_records:
  assumes ok: "rt_ok t" and "i + n \<le> vector_length t"
  shows "n \<le> length ps \<Longrightarrow>
      copy_cells (rt_ptrs t) i n ps = Inr (patch ps 0 (map sv_ptr (take n (drop i (rt_views t)))))"
    and "n \<le> length ls \<Longrightarrow>
      copy_cells (rt_lens t) i n ls = Inr (patch ls 0 (map sv_len (take n (drop i (rt_views t)))))"
    and "n \<le> length es \<Longrightarrow>
      copy_cells (rt_encs t) i n es = Inr (patch es 0 (map sv_enc (take n (drop i (rt_views t)))))"
proof -
  let ?vs = "take n (drop i (rt_views t))"
  have n: "n = length ?vs" using assms(2) by simp
  have cells: "rt_ptrs t ! (i + k) = Some (map sv_ptr ?vs ! k)" "rt_lens t ! (i + k) = Some (map sv_len ?vs ! k)"
    "rt_encs t ! (i + k) = Some (map sv_enc ?vs ! k)" if "k < n" for k
    using that assms by (auto simp: rt_ok_def rt_at_def)
  have l: "length (rt_ptrs t) = capacity t" "length (rt_lens t) = capacity t" "length (rt_encs t) = capacity t"
    "vector_length t \<le> capacity t" using ok by (simp_all add: rt_ok_def)
  show "copy_cells (rt_ptrs t) i n ps = Inr (patch ps 0 (map sv_ptr ?vs))" if "n \<le> length ps"
    using copy_cells_ok [of i "map sv_ptr ?vs" "rt_ptrs t" ps] cells(1) l that assms(2) by simp
  show "copy_cells (rt_lens t) i n ls = Inr (patch ls 0 (map sv_len ?vs))" if "n \<le> length ls"
    using copy_cells_ok [of i "map sv_len ?vs" "rt_lens t" ls] cells(2) l that assms(2) by simp
  show "copy_cells (rt_encs t) i n es = Inr (patch es 0 (map sv_enc ?vs))" if "n \<le> length es"
    using copy_cells_ok [of i "map sv_enc ?vs" "rt_encs t" es] cells(3) l that assms(2) by simp
qed

lemma of_nat_0_iff_small: "n < 2 ^ 63 \<Longrightarrow> (of_nat n :: 64 word) = 0 \<longleftrightarrow> n = 0"
  by (subst unat_eq_0 [symmetric]) (simp only: unat_small)

text \<open>A range is a copy of part of the arrays; a range of size 0 does not touch the state.\<close>

lemma charvec_range_ok:
  assumes "charvec_serves s h vs" and "i + n \<le> length vs"
  shows "str_fits n out \<Longrightarrow>
      charvec_strviews_range s h (of_nat i) (of_nat n) out = Inr (CHARPORT_STATUS_OK, str_written out (take n (drop i vs)))"
    and "byte_fits n bout \<Longrightarrow>
      charvec_byteviews_range s h (of_nat i) (of_nat n) bout = Inr (CHARPORT_STATUS_OK, byte_written bout (take n (drop i vs)))"
    and "n \<le> length ls \<Longrightarrow>
      charvec_lengths_range s h (of_nat i) (of_nat n) ls = Inr (CHARPORT_STATUS_OK, patch ls 0 (map sv_len (take n (drop i vs))))"
    and "n \<le> length es \<Longrightarrow>
      charvec_encodings_range s h (of_nat i) (of_nat n) es = Inr (CHARPORT_STATUS_OK, patch es 0 (map sv_enc (take n (drop i vs))))"
proof -
  obtain st where st: "rt_ok (st_records st)" "vs = rt_views (st_records st)" "state_store s = Inr st"
    "length vs < 2 ^ 63" using assms(1) by (rule charvec_servesE)
  have u: "unat (of_nat i :: 64 word) = i" "unat (of_nat n :: 64 word) = n" "(of_nat n :: 64 word) = 0 \<longleftrightarrow> n = 0"
    using assms(2) st(4) by (auto intro: unat_small simp: of_nat_0_iff_small)
  have "i + n \<le> vector_length (st_records st)" using assms(2) st(2) by simp
  note c = copy_records [OF st(1) this, folded st(2)]
  show "charvec_strviews_range s h (of_nat i) (of_nat n) out = Inr (CHARPORT_STATUS_OK, str_written out (take n (drop i vs)))"
    if "str_fits n out"
    using that by (cases out) (simp add: charvec_strviews_range_def u st(3) c Let_def)
  show "charvec_byteviews_range s h (of_nat i) (of_nat n) bout = Inr (CHARPORT_STATUS_OK, byte_written bout (take n (drop i vs)))"
    if "byte_fits n bout"
    using that by (cases bout) (simp add: charvec_byteviews_range_def u st(3) c Let_def)
  show "charvec_lengths_range s h (of_nat i) (of_nat n) ls = Inr (CHARPORT_STATUS_OK, patch ls 0 (map sv_len (take n (drop i vs))))"
    if "n \<le> length ls"
    using that by (simp add: charvec_lengths_range_def u st(3) c Let_def)
  show "charvec_encodings_range s h (of_nat i) (of_nat n) es = Inr (CHARPORT_STATUS_OK, patch es 0 (map sv_enc (take n (drop i vs))))"
    if "n \<le> length es"
    using that by (simp add: charvec_encodings_range_def u st(3) c Let_def)
qed

lemma indices_okD:
  assumes "indices_ok js n vs"
  shows "n < 2 ^ 63" and "length (selected_views js n vs) = n"
    and "\<And>j. j < n \<Longrightarrow> elt_at js j = Inr (js ! j)" and "\<And>j. j < n \<Longrightarrow> unat (js ! j) < length vs"
    and "\<And>j. j < n \<Longrightarrow> selected_views js n vs ! j = vs ! unat (js ! j)"
proof -
  note i = assms [unfolded indices_ok_def]
  show "n < 2 ^ 63" "length (selected_views js n vs) = n" using i by (simp_all add: selected_views_def)
  fix j assume j: "j < n"
  have "js ! j \<in> set (take n js)" using i j by (auto simp: in_set_conv_nth intro!: exI [of _ j])
  with i show "unat (js ! j) < length vs" by blast
  show "elt_at js j = Inr (js ! j)" "selected_views js n vs ! j = vs ! unat (js ! j)"
    using i j by (simp_all add: elt_at_def selected_views_def)
qed

lemma charvec_index_ok:
  assumes serves: "charvec_serves s h vs" and js: "indices_ok js n vs"
  shows "str_fits n out \<Longrightarrow>
      charvec_strviews_index s h js (of_nat n) out = Inr (CHARPORT_STATUS_OK, str_written out (selected_views js n vs))"
    and "byte_fits n bout \<Longrightarrow>
      charvec_byteviews_index s h js (of_nat n) bout = Inr (CHARPORT_STATUS_OK, byte_written bout (selected_views js n vs))"
    and "n \<le> length ls \<Longrightarrow>
      charvec_lengths_index s h js (of_nat n) ls = Inr (CHARPORT_STATUS_OK, patch ls 0 (map sv_len (selected_views js n vs)))"
    and "n \<le> length es \<Longrightarrow>
      charvec_encodings_index s h js (of_nat n) es = Inr (CHARPORT_STATUS_OK, patch es 0 (map sv_enc (selected_views js n vs)))"
proof -
  obtain st where st: "rt_ok (st_records st)" "vs = rt_views (st_records st)" "state_store s = Inr st"
    using serves by (rule charvec_servesE)
  let ?ws = "selected_views js n vs"
  note i = indices_okD [OF js]
  have at: "rt_view (st_records st) (unat (js ! j)) = Inr (?ws ! j)"
    "rt_byteview (st_records st) (unat (js ! j)) = Inr (make_byteview (sv_ptr (?ws ! j)) (sv_len (?ws ! j)))"
    "rt_length (st_records st) (unat (js ! j)) = Inr (sv_len (?ws ! j))"
    "rt_encoding (st_records st) (unat (js ! j)) = Inr (sv_enc (?ws ! j))" if "j < n" for j
    using i(4,5) [OF that] st(1,2)
    by (simp_all add: rt_view_ok rt_byteview_ok rt_length_ok rt_encoding_ok)
  show "charvec_strviews_index s h js (of_nat n) out = Inr (CHARPORT_STATUS_OK, str_written out ?ws)"
    if "str_fits n out"
    unfolding charvec_strviews_index_def
    by (rule fill_loop_writes [where W = "str_written out" and vs = ?ws, OF i(2) [symmetric] i(1), simplified])
      (use that in \<open>simp add: i(2,3) st(3) at put_str_patch\<close>)
  show "charvec_byteviews_index s h js (of_nat n) bout = Inr (CHARPORT_STATUS_OK, byte_written bout ?ws)"
    if "byte_fits n bout"
    unfolding charvec_byteviews_index_def
    by (rule fill_loop_writes [where W = "byte_written bout" and vs = ?ws, OF i(2) [symmetric] i(1), simplified])
      (use that in \<open>simp add: i(2,3) st(3) at make_byteview_def put_byte_patch\<close>)
  show "charvec_lengths_index s h js (of_nat n) ls = Inr (CHARPORT_STATUS_OK, patch ls 0 (map sv_len ?ws))"
    if "n \<le> length ls"
    unfolding charvec_lengths_index_def
    by (rule fill_loop_writes [where W = "\<lambda>vs. patch ls 0 (map sv_len vs)" and vs = ?ws, OF i(2) [symmetric] i(1), simplified])
      (use that in \<open>simp add: i(2,3) st(3) at len_patch\<close>)
  show "charvec_encodings_index s h js (of_nat n) es = Inr (CHARPORT_STATUS_OK, patch es 0 (map sv_enc ?ws))"
    if "n \<le> length es"
    unfolding charvec_encodings_index_def
    by (rule fill_loop_writes [where W = "\<lambda>vs. patch es 0 (map sv_enc vs)" and vs = ?ws, OF i(2) [symmetric] i(1), simplified])
      (use that in \<open>simp add: i(2,3) st(3) at enc_patch\<close>)
qed

interpretation charvec_provider: reader_provider charvec_range_fns charvec_index_fns charvec_serves
proof unfold_locales
  fix s :: "('a, 'b) provider_state option" and h vs
  assume s: "charvec_serves s h vs"
  show "length vs < 2 ^ 63" using s by (rule charvec_servesE)
  note ok = charvec_range_ok [OF s] charvec_index_ok [OF s]
  note defs = access_def charvec_range_fns_def charvec_index_fns_def check_access_def
  fix i n :: nat and out :: str_out and bout :: byte_out and ls :: "c_int list" and es :: "cetype_ext_t list"
    and js :: "R_xlen_t list"
  show "access (range_strviews charvec_range_fns) (\<lambda>f. f s h (of_nat i) (of_nat n) out) =
      Inr (str_written out (take n (drop i vs)))" if "i + n \<le> length vs" "str_fits n out"
    by (simp add: defs ok(1) [OF that])
  show "access (range_byteviews charvec_range_fns) (\<lambda>f. f s h (of_nat i) (of_nat n) bout) =
      Inr (byte_written bout (take n (drop i vs)))" if "i + n \<le> length vs" "byte_fits n bout"
    by (simp add: defs ok(2) [OF that])
  show "access (range_lengths charvec_range_fns) (\<lambda>f. f s h (of_nat i) (of_nat n) ls) =
      Inr (patch ls 0 (map sv_len (take n (drop i vs))))" if "i + n \<le> length vs" "n \<le> length ls"
    by (simp add: defs ok(3) [OF that])
  show "access (range_encodings charvec_range_fns) (\<lambda>f. f s h (of_nat i) (of_nat n) es) =
      Inr (patch es 0 (map sv_enc (take n (drop i vs))))" if "i + n \<le> length vs" "n \<le> length es"
    by (simp add: defs ok(4) [OF that])
  show "access (index_strviews charvec_index_fns) (\<lambda>f. f s h js (of_nat n) out) =
      Inr (str_written out (selected_views js n vs))" if "indices_ok js n vs" "str_fits n out"
    by (simp add: defs ok(5) [OF that])
  show "access (index_byteviews charvec_index_fns) (\<lambda>f. f s h js (of_nat n) bout) =
      Inr (byte_written bout (selected_views js n vs))" if "indices_ok js n vs" "byte_fits n bout"
    by (simp add: defs ok(6) [OF that])
  show "access (index_lengths charvec_index_fns) (\<lambda>f. f s h js (of_nat n) ls) =
      Inr (patch ls 0 (map sv_len (selected_views js n vs)))" if "indices_ok js n vs" "n \<le> length ls"
    by (simp add: defs ok(7) [OF that])
  show "access (index_encodings charvec_index_fns) (\<lambda>f. f s h js (of_nat n) es) =
      Inr (patch es 0 (map sv_enc (selected_views js n vs)))" if "indices_ok js n vs" "n \<le> length es"
    by (simp add: defs ok(8) [OF that])
qed

section \<open>R storage keeps the contract\<close>

text \<open>The borrow is the elements, each a live \<open>CHARSXP\<close>.\<close>

definition direct_serves :: "'c r_strings \<Rightarrow> ('c, 's) provider_state option \<Rightarrow> heap \<Rightarrow> charport_strview list \<Rightarrow> bool" where
  "direct_serves R s h vs \<longleftrightarrow>
     (\<exists>xs. s = Some (Storage_state xs) \<and> length xs < 2 ^ 63 \<and>
        list_all2 (\<lambda>x v. charsxp_to_view R h x = Inr v) xs vs)"

lemma direct_servesE:
  assumes "direct_serves R s h vs"
  obtains xs where "length vs < 2 ^ 63" "length vs = length xs"
    "\<And>k. unat k < length vs \<Longrightarrow> storage_at s k = Inr (xs ! unat k)"
    "\<And>k. k < length vs \<Longrightarrow> charsxp_to_view R h (xs ! k) = Inr (vs ! k)"
proof -
  obtain xs where xs: "s = Some (Storage_state xs)" "length xs < 2 ^ 63"
    "list_all2 (\<lambda>x v. charsxp_to_view R h x = Inr v) xs vs" using assms by (auto simp: direct_serves_def)
  have "length xs = length vs" using xs(3) by (rule list_all2_lengthD)
  with xs list_all2_nthD [OF xs(3)] show thesis
    by (intro that [of xs]) (simp_all add: storage_at_def state_storage_def elt_at_def)
qed

lemma direct_fill_view:
  assumes "charsxp_to_view R h cs = Inr v"
  shows "direct_fill_strview R h cs j out = put_str j (sv_ptr v) (sv_len v) (sv_enc v) out"
    and "direct_fill_byteview R cs j bout = put_byte j (sv_ptr v) (sv_len v) bout"
    and "direct_length R cs = sv_len v" and "direct_encoding R h cs = Inr (sv_enc v)"
  using assms
  by (auto simp: charsxp_to_view_def direct_fill_strview_def direct_fill_byteview_def direct_length_def
      direct_encoding_def split: if_splits sum.splits)

lemma direct_range_ok:
  assumes "direct_serves R s h vs" and fit: "i + n \<le> length vs"
  shows "str_fits n out \<Longrightarrow>
      direct_strviews_range R s h (of_nat i) (of_nat n) out = Inr (CHARPORT_STATUS_OK, str_written out (take n (drop i vs)))"
    and "byte_fits n bout \<Longrightarrow>
      direct_byteviews_range R s h (of_nat i) (of_nat n) bout = Inr (CHARPORT_STATUS_OK, byte_written bout (take n (drop i vs)))"
    and "n \<le> length ls \<Longrightarrow>
      direct_lengths_range R s h (of_nat i) (of_nat n) ls = Inr (CHARPORT_STATUS_OK, patch ls 0 (map sv_len (take n (drop i vs))))"
    and "n \<le> length es \<Longrightarrow>
      direct_encodings_range R s h (of_nat i) (of_nat n) es = Inr (CHARPORT_STATUS_OK, patch es 0 (map sv_enc (take n (drop i vs))))"
proof -
  obtain xs where xs: "length vs < 2 ^ 63" "\<And>k. unat k < length vs \<Longrightarrow> storage_at s k = Inr (xs ! unat k)"
    "\<And>k. k < length vs \<Longrightarrow> charsxp_to_view R h (xs ! k) = Inr (vs ! k)"
    using assms(1) by (rule direct_servesE) blast
  define ws where "ws = take n (drop i vs)"
  have n: "n = length ws" "n < 2 ^ 63" using fit xs(1) by (simp_all add: ws_def)
  have at: "storage_at s (of_nat i + of_nat j) = Inr (xs ! (i + j))" "charsxp_to_view R h (xs ! (i + j)) = Inr (ws ! j)"
    if "j < n" for j
  proof -
    have "unat (of_nat (i + j) :: 64 word) = i + j" using that fit xs(1) by (intro unat_small) simp
    then show "storage_at s (of_nat i + of_nat j) = Inr (xs ! (i + j))"
      using xs(2) [of "of_nat (i + j)"] that fit by simp
    show "charsxp_to_view R h (xs ! (i + j)) = Inr (ws ! j)" using xs(3) [of "i + j"] that fit by (simp add: ws_def)
  qed
  note fill = direct_fill_view [OF at(2)]
  show "direct_strviews_range R s h (of_nat i) (of_nat n) out = Inr (CHARPORT_STATUS_OK, str_written out (take n (drop i vs)))"
    if "str_fits n out"
    unfolding direct_strviews_range_def ws_def [symmetric]
    by (rule fill_loop_writes [where W = "str_written out" and vs = ws, OF n, simplified])
      (use that n(1) in \<open>simp add: at(1) fill(1) put_str_patch\<close>)
  show "direct_byteviews_range R s h (of_nat i) (of_nat n) bout = Inr (CHARPORT_STATUS_OK, byte_written bout (take n (drop i vs)))"
    if "byte_fits n bout"
    unfolding direct_byteviews_range_def ws_def [symmetric]
    by (rule fill_loop_writes [where W = "byte_written bout" and vs = ws, OF n, simplified])
      (use that n(1) in \<open>simp add: at(1) fill(2) put_byte_patch\<close>)
  show "direct_lengths_range R s h (of_nat i) (of_nat n) ls = Inr (CHARPORT_STATUS_OK, patch ls 0 (map sv_len (take n (drop i vs))))"
    if "n \<le> length ls"
    unfolding direct_lengths_range_def ws_def [symmetric]
    by (rule fill_loop_writes [where W = "\<lambda>vs. patch ls 0 (map sv_len vs)" and vs = ws, OF n, simplified])
      (use that n(1) in \<open>simp add: at(1) fill(3) len_patch\<close>)
  show "direct_encodings_range R s h (of_nat i) (of_nat n) es = Inr (CHARPORT_STATUS_OK, patch es 0 (map sv_enc (take n (drop i vs))))"
    if "n \<le> length es"
    unfolding direct_encodings_range_def ws_def [symmetric]
    by (rule fill_loop_writes [where W = "\<lambda>vs. patch es 0 (map sv_enc vs)" and vs = ws, OF n, simplified])
      (use that n(1) in \<open>simp add: at(1) fill(4) enc_patch\<close>)
qed

lemma direct_index_ok:
  assumes "direct_serves R s h vs" and js: "indices_ok js n vs"
  shows "str_fits n out \<Longrightarrow>
      direct_strviews_index R s h js (of_nat n) out = Inr (CHARPORT_STATUS_OK, str_written out (selected_views js n vs))"
    and "byte_fits n bout \<Longrightarrow>
      direct_byteviews_index R s h js (of_nat n) bout = Inr (CHARPORT_STATUS_OK, byte_written bout (selected_views js n vs))"
    and "n \<le> length ls \<Longrightarrow>
      direct_lengths_index R s h js (of_nat n) ls = Inr (CHARPORT_STATUS_OK, patch ls 0 (map sv_len (selected_views js n vs)))"
    and "n \<le> length es \<Longrightarrow>
      direct_encodings_index R s h js (of_nat n) es = Inr (CHARPORT_STATUS_OK, patch es 0 (map sv_enc (selected_views js n vs)))"
proof -
  obtain xs where xs: "\<And>k. unat k < length vs \<Longrightarrow> storage_at s k = Inr (xs ! unat k)"
    "\<And>k. k < length vs \<Longrightarrow> charsxp_to_view R h (xs ! k) = Inr (vs ! k)"
    using assms(1) by (rule direct_servesE) blast
  let ?ws = "selected_views js n vs"
  note i = indices_okD [OF js]
  have at: "storage_at s (js ! j) = Inr (xs ! unat (js ! j))" "charsxp_to_view R h (xs ! unat (js ! j)) = Inr (?ws ! j)"
    if "j < n" for j
    using xs i(4,5) [OF that] by simp_all
  note fill = direct_fill_view [OF at(2)]
  show "direct_strviews_index R s h js (of_nat n) out = Inr (CHARPORT_STATUS_OK, str_written out ?ws)"
    if "str_fits n out"
    unfolding direct_strviews_index_def
    by (rule fill_loop_writes [where W = "str_written out" and vs = ?ws, OF i(2) [symmetric] i(1), simplified])
      (use that in \<open>simp add: i(2,3) at(1) fill(1) put_str_patch\<close>)
  show "direct_byteviews_index R s h js (of_nat n) bout = Inr (CHARPORT_STATUS_OK, byte_written bout ?ws)"
    if "byte_fits n bout"
    unfolding direct_byteviews_index_def
    by (rule fill_loop_writes [where W = "byte_written bout" and vs = ?ws, OF i(2) [symmetric] i(1), simplified])
      (use that in \<open>simp add: i(2,3) at(1) fill(2) put_byte_patch\<close>)
  show "direct_lengths_index R s h js (of_nat n) ls = Inr (CHARPORT_STATUS_OK, patch ls 0 (map sv_len ?ws))"
    if "n \<le> length ls"
    unfolding direct_lengths_index_def
    by (rule fill_loop_writes [where W = "\<lambda>vs. patch ls 0 (map sv_len vs)" and vs = ?ws, OF i(2) [symmetric] i(1), simplified])
      (use that in \<open>simp add: i(2,3) at(1) fill(3) len_patch\<close>)
  show "direct_encodings_index R s h js (of_nat n) es = Inr (CHARPORT_STATUS_OK, patch es 0 (map sv_enc ?ws))"
    if "n \<le> length es"
    unfolding direct_encodings_index_def
    by (rule fill_loop_writes [where W = "\<lambda>vs. patch es 0 (map sv_enc vs)" and vs = ?ws, OF i(2) [symmetric] i(1), simplified])
      (use that in \<open>simp add: i(2,3) at(1) fill(4) enc_patch\<close>)
qed

interpretation direct_provider: reader_provider "direct_range_fns R" "direct_index_fns R" "direct_serves R"
  for R :: "'c r_strings"
proof unfold_locales
  fix s :: "('c, 's) provider_state option" and h vs
  assume s: "direct_serves R s h vs"
  show "length vs < 2 ^ 63" using s by (rule direct_servesE)
  note ok = direct_range_ok [OF s] direct_index_ok [OF s]
  note defs = access_def direct_range_fns_def direct_index_fns_def check_access_def
  fix i n :: nat and out :: str_out and bout :: byte_out and ls :: "c_int list" and es :: "cetype_ext_t list"
    and js :: "R_xlen_t list"
  show "access (range_strviews (direct_range_fns R)) (\<lambda>f. f s h (of_nat i) (of_nat n) out) =
      Inr (str_written out (take n (drop i vs)))" if "i + n \<le> length vs" "str_fits n out"
    by (simp add: defs ok(1) [OF that])
  show "access (range_byteviews (direct_range_fns R)) (\<lambda>f. f s h (of_nat i) (of_nat n) bout) =
      Inr (byte_written bout (take n (drop i vs)))" if "i + n \<le> length vs" "byte_fits n bout"
    by (simp add: defs ok(2) [OF that])
  show "access (range_lengths (direct_range_fns R)) (\<lambda>f. f s h (of_nat i) (of_nat n) ls) =
      Inr (patch ls 0 (map sv_len (take n (drop i vs))))" if "i + n \<le> length vs" "n \<le> length ls"
    by (simp add: defs ok(3) [OF that])
  show "access (range_encodings (direct_range_fns R)) (\<lambda>f. f s h (of_nat i) (of_nat n) es) =
      Inr (patch es 0 (map sv_enc (take n (drop i vs))))" if "i + n \<le> length vs" "n \<le> length es"
    by (simp add: defs ok(4) [OF that])
  show "access (index_strviews (direct_index_fns R)) (\<lambda>f. f s h js (of_nat n) out) =
      Inr (str_written out (selected_views js n vs))" if "indices_ok js n vs" "str_fits n out"
    by (simp add: defs ok(5) [OF that])
  show "access (index_byteviews (direct_index_fns R)) (\<lambda>f. f s h js (of_nat n) bout) =
      Inr (byte_written bout (selected_views js n vs))" if "indices_ok js n vs" "byte_fits n bout"
    by (simp add: defs ok(6) [OF that])
  show "access (index_lengths (direct_index_fns R)) (\<lambda>f. f s h js (of_nat n) ls) =
      Inr (patch ls 0 (map sv_len (selected_views js n vs)))" if "indices_ok js n vs" "n \<le> length ls"
    by (simp add: defs ok(7) [OF that])
  show "access (index_encodings (direct_index_fns R)) (\<lambda>f. f s h js (of_nat n) es) =
      Inr (patch es 0 (map sv_enc (selected_views js n vs)))" if "indices_ok js n vs" "n \<le> length es"
    by (simp add: defs ok(8) [OF that])
qed

text \<open>Readers of a live store and of live strings.\<close>

lemma charvec_serves_store:
  assumes "store_holds st h es"
  shows "charvec_serves (Some (Store_state st)) h (rt_views (st_records st))"
    and "list_all2 (\<lambda>v e. view_content h v = Some e) (rt_views (st_records st)) es"
  using assms by (auto simp: charvec_serves_def store_holds_def elim: list_all2_mono)

lemma direct_serves_live:
  assumes live: "\<forall>x \<in> set xs. charsxp_live R h x" and "length xs < 2 ^ 63"
  obtains vs where "direct_serves R (Some (Storage_state xs)) h vs" "length vs = length xs"
    "list_all2 (\<lambda>v e. view_content h v = Some e) vs (map (charsxp_element R h) xs)"
proof -
  have "\<forall>x \<in> set xs. \<exists>v. charsxp_to_view R h x = Inr v \<and> view_content h v = Some (charsxp_element R h x)"
  proof
    fix x assume "x \<in> set xs"
    then show "\<exists>v. charsxp_to_view R h x = Inr v \<and> view_content h v = Some (charsxp_element R h x)"
      using charsxp_to_view_live [of R h x] live by auto
  qed
  then obtain f where f: "\<And>x. x \<in> set xs \<Longrightarrow>
      charsxp_to_view R h x = Inr (f x) \<and> view_content h (f x) = Some (charsxp_element R h x)"
    by metis
  show thesis
    by (rule that [of "map f xs"]) (use f assms(2) in \<open>auto simp: direct_serves_def list_all2_conv_all_nth\<close>)
qed

end
