(* ===== verification/Cp_Registry.thy ===== *)
theory Cp_Registry
  imports Cp_Provider
begin

text \<open>
  The broker of \<open>src/charport_registry.cpp\<close>: the registry of ALTREP classes with their reader
  callbacks, and \<open>charport_resolve\<close>, which finds a reader for any character vector.
\<close>

section \<open>R's vectors\<close>

text \<open>
  The part of R's vector API the broker calls, over a type of objects \<open>'x\<close>, of ALTREP classes
  \<open>'k\<close> and of R states \<open>'w\<close>. Data pointers are given as the elements they show.
  \<open>STRING_PTR_RO\<close> materializes the vector when it has to, which may raise an R error. Class
  names are symbols.
\<close>

datatype r_atom = R_NilValue | SYMSXP string | CHARSXP string | Other_atom

record ('x, 'k, 'c, 'w) r_vectors =
  is_STRSXP :: "'w \<Rightarrow> 'x \<Rightarrow> bool"
  ALTREP :: "'w \<Rightarrow> 'x \<Rightarrow> bool"
  Rf_xlength :: "'w \<Rightarrow> 'x \<Rightarrow> R_xlen_t"
  DATAPTR_RO :: "'w \<Rightarrow> 'x \<Rightarrow> 'c list"
  DATAPTR_OR_NULL :: "'w \<Rightarrow> 'x \<Rightarrow> 'c list option"
  STRING_PTR_RO :: "'x \<Rightarrow> 'w \<Rightarrow> (fault + 'c list) \<times> 'w"
  R_altrep_inherits :: "'w \<Rightarrow> 'x \<Rightarrow> 'k option \<Rightarrow> bool"
  R_altrep_class_name :: "'w \<Rightarrow> 'x \<Rightarrow> r_atom"
  R_altrep_class_package :: "'w \<Rightarrow> 'x \<Rightarrow> r_atom"
  R_altrep_data1 :: "'w \<Rightarrow> 'x \<Rightarrow> 'x"
  heap_of :: "'w \<Rightarrow> heap"
  R_at_least_4_6 :: bool

section \<open>The registry\<close>

text \<open>
  A class handle is \<open>None\<close> when its \<open>SEXP\<close> is \<open>NULL\<close>, as is a callback that is missing. An
  \<open>init\<close> raises an R error, or returns \<open>NULL\<close> (\<open>None\<close>) to decline, or a state.
\<close>

record ('x, 'k, 'w, 's, 'f) altrep_entry =
  ae_cls :: "'k option"
  ae_init :: "('x \<Rightarrow> 'w \<Rightarrow> (fault + 's option) \<times> 'w) option"
  ae_release :: "'f option"
  ae_range :: "'s reader_range_fns"
  ae_index :: "'s reader_index_fns"
  ae_capabilities :: reader_capabilities

definition range_fns_complete :: "'s reader_range_fns \<Rightarrow> bool" where
  "range_fns_complete fns \<longleftrightarrow>
     range_strviews fns \<noteq> None \<and> range_byteviews fns \<noteq> None \<and>
     range_lengths fns \<noteq> None \<and> range_encodings fns \<noteq> None"

definition index_fns_complete :: "'s reader_index_fns \<Rightarrow> bool" where
  "index_fns_complete fns \<longleftrightarrow>
     index_strviews fns \<noteq> None \<and> index_byteviews fns \<noteq> None \<and>
     index_lengths fns \<noteq> None \<and> index_encodings fns \<noteq> None"

text \<open>
  Growing the vector of entries may throw \<open>bad_alloc\<close>, which becomes an R error (a growth
  within the capacity is an attempt that succeeds).
\<close>

definition charport_register_altrep ::
    "('x, 'k, 'w, 's, 'f) altrep_entry \<Rightarrow> ('x, 'k, 'w, 's, 'f) altrep_entry list \<Rightarrow> heap \<Rightarrow>
     (fault + unit) \<times> ('x, 'k, 'w, 's, 'f) altrep_entry list \<times> heap" where
  "charport_register_altrep entry reg h =
     (if ae_cls entry = None \<or> ae_init entry = None \<or>
         \<not> range_fns_complete (ae_range entry) \<or> \<not> index_fns_complete (ae_index entry)
      then (Inl (R_error ''charport_register_altrep: reader callbacks must be non-NULL''), reg, h)
      else if \<exists>e \<in> set reg. ae_cls e = ae_cls entry
      then (Inl (R_error ''charport_register_altrep: ALTREP class is already registered''), reg, h)
      else let (ok, h1) = try_alloc (96 * Suc (length reg)) h
           in if ok then (Inr (), reg @ [entry], h1)
              else (Inl (R_error (''charport_register_altrep: '' @ what Bad_alloc)), reg, h1))"

fun charport_unregister_altrep ::
    "'k option \<Rightarrow> ('x, 'k, 'w, 's, 'f) altrep_entry list \<Rightarrow> ('x, 'k, 'w, 's, 'f) altrep_entry list" where
  "charport_unregister_altrep cls [] = []"
| "charport_unregister_altrep cls (e # reg) =
     (if ae_cls e = cls then reg else e # charport_unregister_altrep cls reg)"

fun find_registered_altrep ::
    "('x, 'k, 'c, 'w) r_vectors \<Rightarrow> 'w \<Rightarrow> 'x \<Rightarrow> ('x, 'k, 'w, 's, 'f) altrep_entry list \<Rightarrow>
     ('x, 'k, 'w, 's, 'f) altrep_entry option" where
  "find_registered_altrep V w x [] = None"
| "find_registered_altrep V w x (e # reg) =
     (if R_altrep_inherits V w x (ae_cls e) then Some e else find_registered_altrep V w x reg)"

section \<open>Resolving a vector\<close>

text \<open>
  \<open>resolve_registered\<close>: the reader of the class, or \<open>False\<close> with the reader as it was; an R error of
  \<open>init\<close> leaves through the broker. The registry never holds a missing \<open>init\<close>; calling one would
  be undefined.
\<close>

definition resolve_registered ::
    "'x \<Rightarrow> ('x, 'k, 'w, 's, 'f) altrep_entry option \<Rightarrow> ('s, 'f) charport_reader \<Rightarrow> 'w \<Rightarrow>
     (fault + bool) \<times> ('s, 'f) charport_reader \<times> 'w" where
  "resolve_registered x registered r w =
     (case registered of
        None \<Rightarrow> (Inr False, r, w)
      | Some entry \<Rightarrow>
          (case ae_init entry of
             None \<Rightarrow> (Inl Undefined, r, w)
           | Some init \<Rightarrow>
               (case init x w of
                  (Inl e, w1) \<Rightarrow> (Inl e, r, w1)
                | (Inr None, w1) \<Rightarrow> (Inr False, r, w1)
                | (Inr (Some state), w1) \<Rightarrow>
                    (Inr True,
                     r\<lparr>rd_state := Some state, rd_release := ae_release entry, rd_range := ae_range entry,
                       rd_index := ae_index entry, rd_capabilities := ae_capabilities entry\<rparr>, w1))))"

definition wrap_string_name :: r_atom where "wrap_string_name = SYMSXP ''wrap_string''"
definition base_package_name :: r_atom where "base_package_name = SYMSXP ''base''"
definition max_unwrap_depth :: nat where "max_unwrap_depth = 8"

text \<open>One pass of the loop of \<open>resolve_wrapped\<close> for each unit of \<open>depth\<close>.\<close>

fun unwrap_loop ::
    "('x, 'k, 'c, 'w) r_vectors \<Rightarrow> 'c r_strings \<Rightarrow> ('x, 'k, 'w, ('c, 's) provider_state, 'f) altrep_entry list \<Rightarrow>
     'x \<Rightarrow> nat \<Rightarrow> 'x \<Rightarrow> (('c, 's) provider_state, 'f) charport_reader \<Rightarrow> 'w \<Rightarrow>
     (fault + bool) \<times> (('c, 's) provider_state, 'f) charport_reader \<times> 'w" where
  "unwrap_loop V R reg x 0 inner r w = (Inr False, r, w)"
| "unwrap_loop V R reg x (Suc depth) inner r w =
     (if R_altrep_class_name V w inner \<noteq> wrap_string_name \<or> R_altrep_class_package V w inner \<noteq> base_package_name
      then
        (if inner = x then (Inr False, r, w)
         else (case resolve_registered inner (find_registered_altrep V w inner reg) r w of
                 (Inl e, r1, w1) \<Rightarrow> (Inl e, r1, w1)
               | (Inr True, r1, w1) \<Rightarrow> (Inr True, r1, w1)
               | (Inr False, r1, w1) \<Rightarrow>
                   (case DATAPTR_OR_NULL V w1 inner of
                      Some direct \<Rightarrow> (Inr True, direct_reader R (rd_n r1) direct, w1)
                    | None \<Rightarrow> (Inr False, r1, w1))))
      else
        (let next = R_altrep_data1 V w inner
         in if \<not> is_STRSXP V w next \<or> Rf_xlength V w next \<noteq> rd_n r then (Inr False, r, w)
            else if \<not> ALTREP V w next then (Inr True, direct_reader R (rd_n r) (DATAPTR_RO V w next), w)
            else unwrap_loop V R reg x depth next r w))"

definition resolve_wrapped where
  "resolve_wrapped V R reg x r w = unwrap_loop V R reg x max_unwrap_depth x r w"

definition charport_resolve ::
    "('x, 'k, 'c, 'w) r_vectors \<Rightarrow> 'c r_strings \<Rightarrow> ('x, 'k, 'w, ('c, 's) provider_state, 'f) altrep_entry list \<Rightarrow>
     'x \<Rightarrow> 'w \<Rightarrow> (fault + (('c, 's) provider_state, 'f) charport_reader) \<times> 'w" where
  "charport_resolve V R reg x w =
     (if \<not> is_STRSXP V w x then (Inl (R_error ''charport_resolve: x must be a character vector''), w)
      else if \<not> ALTREP V w x then (Inr (direct_reader R (Rf_xlength V w x) (DATAPTR_RO V w x)), w)
      else
        let r = reader_default\<lparr>rd_n := Rf_xlength V w x\<rparr>;
            registered = find_registered_altrep V w x reg
        in (case (if R_at_least_4_6 V \<and> registered = None then resolve_wrapped V R reg x r w
                  else (Inr False, r, w)) of
              (Inl e, r1, w1) \<Rightarrow> (Inl e, w1)
            | (Inr True, r1, w1) \<Rightarrow> (Inr r1, w1)
            | (Inr False, r1, w1) \<Rightarrow>
                (case resolve_registered x registered r1 w1 of
                   (Inl e, r2, w2) \<Rightarrow> (Inl e, w2)
                 | (Inr True, r2, w2) \<Rightarrow> (Inr r2, w2)
                 | (Inr False, r2, w2) \<Rightarrow>
                     (case STRING_PTR_RO V x w2 of
                        (Inl e, w3) \<Rightarrow> (Inl e, w3)
                      | (Inr direct, w3) \<Rightarrow> (Inr (direct_reader R (rd_n r2) direct), w3)))))"

section \<open>charvec and the registry from R\<close>

text \<open>\<open>C_register_charvec\<close>; \<open>charvec_of\<close> is the instance behind an object of the class.\<close>

definition charvec_entry ::
    "'k \<Rightarrow> ('w \<Rightarrow> 'x \<Rightarrow> 'c charvec) \<Rightarrow> ('x, 'k, 'w, ('c, 's) provider_state, 'f) altrep_entry" where
  "charvec_entry cls charvec_of =
     \<lparr>ae_cls = Some cls, ae_init = Some (\<lambda>x w. (Inr (charvec_reader_init (charvec_of w x)), w)), ae_release = None,
      ae_range = charvec_range_fns, ae_index = charvec_index_fns,
      ae_capabilities = \<lparr>persistent_views = True, concurrent_access = True\<rparr>\<rparr>"

definition C_register_charvec where
  "C_register_charvec cls charvec_of reg h = charport_register_altrep (charvec_entry cls charvec_of) reg h"

definition C_unregister_charvec where
  "C_unregister_charvec cls reg = charport_unregister_altrep (Some cls) reg"

section \<open>What R can ask about a vector\<close>

definition atom_string :: "r_atom \<Rightarrow> string option" where
  "atom_string x =
     (case x of R_NilValue \<Rightarrow> None | SYMSXP s \<Rightarrow> Some s | CHARSXP s \<Rightarrow> Some s | Other_atom \<Rightarrow> None)"

record charport_sexp_info =
  si_is_strsxp :: bool
  si_length :: R_xlen_t
  si_is_altrep :: bool
  si_is_materialized :: bool
  si_is_registered :: bool
  si_capabilities :: reader_capabilities
  si_stateful_reader :: bool
  si_class_name :: "string option"
  si_class_package :: "string option"

definition charport_get_sexp_info ::
    "('x, 'k, 'c, 'w) r_vectors \<Rightarrow> ('x, 'k, 'w, 's, 'f) altrep_entry list \<Rightarrow> 'w \<Rightarrow> 'x \<Rightarrow> charport_sexp_info" where
  "charport_get_sexp_info V reg w x =
     (let strsxp = is_STRSXP V w x; altrep = strsxp \<and> ALTREP V w x;
          out = \<lparr>si_is_strsxp = strsxp, si_length = (if strsxp then Rf_xlength V w x else -1), si_is_altrep = altrep,
                 si_is_materialized = (strsxp \<and> DATAPTR_OR_NULL V w x \<noteq> None), si_is_registered = False,
                 si_capabilities = \<lparr>persistent_views = False, concurrent_access = False\<rparr>,
                 si_stateful_reader = False, si_class_name = None, si_class_package = None\<rparr>
      in if \<not> altrep then out
         else
           (let out1 = out\<lparr>si_class_name := atom_string (R_altrep_class_name V w x),
                           si_class_package := atom_string (R_altrep_class_package V w x)\<rparr>
            in case find_registered_altrep V w x reg of
                 None \<Rightarrow> out1
               | Some entry \<Rightarrow>
                   out1\<lparr>si_is_registered := True, si_capabilities := ae_capabilities entry,
                        si_stateful_reader := (ae_release entry \<noteq> None)\<rparr>))"

text \<open>\<open>C_charport_classes\<close>: the number of classes and three logical vectors.\<close>

definition C_charport_classes ::
    "('x, 'k, 'w, 's, 'f) altrep_entry list \<Rightarrow> nat \<times> bool list \<times> bool list \<times> bool list" where
  "C_charport_classes reg =
     (length reg, map (\<lambda>e. persistent_views (ae_capabilities e)) reg,
      map (\<lambda>e. concurrent_access (ae_capabilities e)) reg, map (\<lambda>e. reentrant (ae_capabilities e)) reg)"

text \<open>\<open>None\<close> stands for \<open>NA_STRING\<close>.\<close>

definition class_string_or_na :: "string option \<Rightarrow> string option \<Rightarrow> string option" where
  "class_string_or_na pkg cls =
     (case (pkg, cls) of (Some p, Some c) \<Rightarrow> Some (p @ ''::'' @ c) | _ \<Rightarrow> None)"

section \<open>What the broker relies on\<close>

text \<open>\<open>elems w x\<close> is the strings of the vector \<open>x\<close> in the state \<open>w\<close>; some storage shows them.\<close>

definition shows_elements ::
    "('x, 'k, 'c, 'w) r_vectors \<Rightarrow> 'c r_strings \<Rightarrow> ('w \<Rightarrow> 'x \<Rightarrow> element list) \<Rightarrow> 'w \<Rightarrow> 'x \<Rightarrow> 'c list \<Rightarrow> bool" where
  "shows_elements V R elems w x xs \<longleftrightarrow>
     map (charsxp_element R (heap_of V w)) xs = elems w x \<and> (\<forall>c \<in> set xs. charsxp_live R (heap_of V w) c)"

text \<open>Two states with the same character vectors, of the same classes.\<close>

definition same_vectors :: "('x, 'k, 'c, 'w) r_vectors \<Rightarrow> ('w \<Rightarrow> 'x \<Rightarrow> element list) \<Rightarrow> 'w \<Rightarrow> 'w \<Rightarrow> bool" where
  "same_vectors V elems w w' \<longleftrightarrow>
     (\<forall>x. is_STRSXP V w' x = is_STRSXP V w x \<and> ALTREP V w' x = ALTREP V w x \<and> elems w' x = elems w x)"

text \<open>
  R's documented behaviour: lengths and data pointers agree with the elements, and the data
  pointer of any character vector can be had, or R raises an error. Nothing is assumed of what the
  wrappers of base R hold.
\<close>

definition vectors_ok :: "('x, 'k, 'c, 'w) r_vectors \<Rightarrow> 'c r_strings \<Rightarrow> ('w \<Rightarrow> 'x \<Rightarrow> element list) \<Rightarrow> bool" where
  "vectors_ok V R elems \<longleftrightarrow>
     (\<forall>w x. is_STRSXP V w x \<longrightarrow>
        Rf_xlength V w x = of_nat (length (elems w x)) \<and> length (elems w x) < 2 ^ 63 \<and>
        (\<not> ALTREP V w x \<longrightarrow> shows_elements V R elems w x (DATAPTR_RO V w x)) \<and>
        (\<forall>xs. DATAPTR_OR_NULL V w x = Some xs \<longrightarrow> shows_elements V R elems w x xs) \<and>
        (case STRING_PTR_RO V x w of
           (Inl e, w') \<Rightarrow> \<exists>m. e = R_error m
         | (Inr xs, w') \<Rightarrow> same_vectors V elems w w' \<and> shows_elements V R elems w' x xs))"

text \<open>
  What a registered class promises of the \<open>init\<close> it gives, if it gives one: it raises an R error, or
  disturbs no vector, and a state it returns lets a reader of the vector's length with these callbacks
  read the vector's strings. The promise says nothing of which callbacks are there: that is
  the registry's to check.
\<close>

definition reads_strings ::
    "('x, 'k, 'c, 'w) r_vectors \<Rightarrow> ('w \<Rightarrow> 'x \<Rightarrow> element list) \<Rightarrow> 'w \<Rightarrow> 'x \<Rightarrow> ('s, 'f) charport_reader \<Rightarrow> bool" where
  "reads_strings V elems w x r \<longleftrightarrow>
     (\<exists>vs. reads r (heap_of V w) vs \<and> list_all2 (\<lambda>v e. view_content (heap_of V w) v = Some e) vs (elems w x))"

definition init_ok ::
    "('x, 'k, 'c, 'w) r_vectors \<Rightarrow> ('w \<Rightarrow> 'x \<Rightarrow> element list) \<Rightarrow> ('x, 'k, 'w, 's, 'f) altrep_entry \<Rightarrow>
     'w \<Rightarrow> 'x \<Rightarrow> (fault + 's option) \<times> 'w \<Rightarrow> bool" where
  "init_ok V elems e w x res \<longleftrightarrow>
     (case res of
        (Inl f, w') \<Rightarrow> \<exists>m. f = R_error m
      | (Inr None, w') \<Rightarrow> same_vectors V elems w w'
      | (Inr (Some s), w') \<Rightarrow>
          same_vectors V elems w w' \<and>
          (\<forall>r :: ('s, 'f) charport_reader.
             rd_n r = of_nat (length (elems w x)) \<and> rd_state r = Some s \<and>
             rd_range r = ae_range e \<and> rd_index r = ae_index e \<longrightarrow> reads_strings V elems w' x r))"

definition class_promise ::
    "('x, 'k, 'c, 'w) r_vectors \<Rightarrow> ('w \<Rightarrow> 'x \<Rightarrow> element list) \<Rightarrow> ('x, 'k, 'w, 's, 'f) altrep_entry \<Rightarrow> bool" where
  "class_promise V elems e \<longleftrightarrow>
     (\<forall>init w x. ae_init e = Some init \<and> is_STRSXP V w x \<and> R_altrep_inherits V w x (ae_cls e) \<longrightarrow>
        init_ok V elems e w x (init x w))"

definition entry_ok ::
    "('x, 'k, 'c, 'w) r_vectors \<Rightarrow> ('w \<Rightarrow> 'x \<Rightarrow> element list) \<Rightarrow> ('x, 'k, 'w, 's, 'f) altrep_entry \<Rightarrow> bool" where
  "entry_ok V elems e \<longleftrightarrow> ae_cls e \<noteq> None \<and> ae_init e \<noteq> None \<and> class_promise V elems e"

lemma same_vectors_refl [simp]: "same_vectors V elems w w"
  by (simp add: same_vectors_def)

lemma same_vectors_trans: "same_vectors V elems w w1 \<Longrightarrow> same_vectors V elems w1 w2 \<Longrightarrow> same_vectors V elems w w2"
  by (simp add: same_vectors_def)

lemma find_registered_in:
  "find_registered_altrep V w x reg = Some e \<Longrightarrow> e \<in> set reg \<and> R_altrep_inherits V w x (ae_cls e)"
  by (induction reg) (auto split: if_splits)

text \<open>A direct reader over storage that shows a vector reads its strings.\<close>

lemma direct_reader_reads:
  fixes V :: "('x, 'k, 'c, 'w) r_vectors"
  assumes xs: "shows_elements V R elems w x xs" and small: "length (elems w x) < 2 ^ 63"
    and n: "n = of_nat (length (elems w x))"
  shows "reads_strings V elems w x (direct_reader R n xs :: (('c, 's) provider_state, 'f) charport_reader)"
proof -
  have l: "length xs = length (elems w x)" "\<forall>c \<in> set xs. charsxp_live R (heap_of V w) c"
    "map (charsxp_element R (heap_of V w)) xs = elems w x"
    using xs by (auto simp: shows_elements_def dest: arg_cong [where f = length])
  obtain vs where vs: "direct_serves R (Some (Storage_state xs :: ('c, 's) provider_state)) (heap_of V w) vs" "length vs = length xs"
    "list_all2 (\<lambda>v e. view_content (heap_of V w) v = Some e) vs (elems w x)"
    using direct_serves_live [of xs R "heap_of V w"] l small by metis
  have "reads (direct_reader R n xs :: (('c, 's) provider_state, 'f) charport_reader) (heap_of V w) vs"
    by (rule direct_provider.reads_provided [OF vs(1)]) (use l(1) vs(2) n in \<open>simp_all add: direct_reader_def\<close>)
  with vs(3) show ?thesis by (auto simp: reads_strings_def)
qed

lemma vectors_okD:
  assumes "vectors_ok V R elems" and "is_STRSXP V w x"
  shows "Rf_xlength V w x = of_nat (length (elems w x))" and "length (elems w x) < 2 ^ 63"
    and "\<not> ALTREP V w x \<Longrightarrow> shows_elements V R elems w x (DATAPTR_RO V w x)"
    and "DATAPTR_OR_NULL V w x = Some xs \<Longrightarrow> shows_elements V R elems w x xs"
    and "STRING_PTR_RO V x w = (Inr xs, w') \<Longrightarrow> same_vectors V elems w w' \<and> shows_elements V R elems w' x xs"
    and "STRING_PTR_RO V x w = (Inl e, w') \<Longrightarrow> \<exists>m. e = R_error m"
  using assms unfolding vectors_ok_def by (auto split: prod.splits sum.splits)

lemma reads_strings_elsewhere:
  assumes "reads_strings V elems w' y r" and "same_vectors V elems w w'" and "elems w y = elems w x"
  shows "reads_strings V elems w' x r"
  using assms by (simp add: reads_strings_def same_vectors_def)

text \<open>An attempt to resolve: an R error, or the vectors stay, and on success the reader reads the strings of
  one of the vectors \<open>Y\<close>.\<close>

definition resolved ::
    "('x, 'k, 'c, 'w) r_vectors \<Rightarrow> ('w \<Rightarrow> 'x \<Rightarrow> element list) \<Rightarrow> 'w \<Rightarrow> 'x set \<Rightarrow> ('s, 'f) charport_reader \<Rightarrow>
     (fault + bool) \<times> ('s, 'f) charport_reader \<times> 'w \<Rightarrow> bool" where
  "resolved V elems w Y r res \<longleftrightarrow>
     (case res of
        (Inl e, r', w') \<Rightarrow> \<exists>m. e = R_error m
      | (Inr b, r', w') \<Rightarrow>
          same_vectors V elems w w' \<and> (if b then \<exists>y \<in> Y. reads_strings V elems w' y r' else r' = r))"

lemma resolved_mono: "resolved V elems w Y r res \<Longrightarrow> Y \<subseteq> Z \<Longrightarrow> resolved V elems w Z r res"
  unfolding resolved_def by (fastforce split: prod.splits sum.splits)

lemma resolve_registered_ok:
  fixes r :: "('s, 'f) charport_reader"
  assumes reg: "\<forall>e \<in> set reg. entry_ok V elems e" and x: "is_STRSXP V w x"
    and n: "rd_n r = of_nat (length (elems w x))"
  shows "resolved V elems w {x} r (resolve_registered x (find_registered_altrep V w x reg) r w)"
proof (cases "find_registered_altrep V w x reg")
  case None
  then show ?thesis by (simp add: resolved_def resolve_registered_def)
next
  case (Some e)
  have e: "entry_ok V elems e" "R_altrep_inherits V w x (ae_cls e)"
    using find_registered_in [OF Some] reg by blast+
  then obtain init where init: "ae_init e = Some init" and ok: "init_ok V elems e w x (init x w)"
    using x unfolding entry_ok_def class_promise_def by blast
  obtain q w' where q: "init x w = (q, w')" by fastforce
  show ?thesis
  proof (cases q)
    case (Inl f)
    then show ?thesis using ok by (simp add: init_ok_def resolved_def resolve_registered_def Some init q)
  next
    case (Inr so)
    then show ?thesis
      using ok n by (cases so) (simp_all add: init_ok_def resolved_def resolve_registered_def Some init q)
  qed
qed

section \<open>Towers of wrappers\<close>

definition base_wrapper :: "('x, 'k, 'c, 'w) r_vectors \<Rightarrow> 'w \<Rightarrow> 'x \<Rightarrow> bool" where
  "base_wrapper V w x \<longleftrightarrow>
     R_altrep_class_name V w x = wrap_string_name \<and> R_altrep_class_package V w x = base_package_name"

text \<open>A tower of \<open>k\<close> wrappers of base R over \<open>y\<close>, all of length \<open>n\<close>.\<close>

fun wraps :: "('x, 'k, 'c, 'w) r_vectors \<Rightarrow> 'w \<Rightarrow> R_xlen_t \<Rightarrow> nat \<Rightarrow> 'x \<Rightarrow> 'x \<Rightarrow> bool" where
  "wraps V w n 0 x y \<longleftrightarrow> x = y"
| "wraps V w n (Suc k) x y \<longleftrightarrow>
     is_STRSXP V w x \<and> ALTREP V w x \<and> Rf_xlength V w x = n \<and> base_wrapper V w x \<and>
     wraps V w n k (R_altrep_data1 V w x) y"

lemma wraps_top: "wraps V w n k x y \<Longrightarrow> is_STRSXP V w y \<Longrightarrow> Rf_xlength V w y = n \<Longrightarrow> is_STRSXP V w x \<and> Rf_xlength V w x = n"
  by (cases k) auto

lemma wraps_snoc:
  "wraps V w n k x y \<Longrightarrow> is_STRSXP V w y \<Longrightarrow> ALTREP V w y \<Longrightarrow> Rf_xlength V w y = n \<Longrightarrow> base_wrapper V w y \<Longrightarrow>
     wraps V w n (Suc k) x (R_altrep_data1 V w y)"
  by (induction k arbitrary: x) auto

text \<open>The vectors whose strings a reader of \<open>x\<close> may show: \<open>x\<close>, and on R 4.6, when no registered
  class takes \<open>x\<close>, a vector of the same length under at most eight wrappers.\<close>

definition stands_for ::
    "('x, 'k, 'c, 'w) r_vectors \<Rightarrow> ('x, 'k, 'w, 's, 'f) altrep_entry list \<Rightarrow> 'w \<Rightarrow> 'x \<Rightarrow> 'x \<Rightarrow> bool" where
  "stands_for V reg w x y \<longleftrightarrow>
     y = x \<or>
     R_at_least_4_6 V \<and> find_registered_altrep V w x reg = None \<and>
     is_STRSXP V w y \<and> Rf_xlength V w y = Rf_xlength V w x \<and>
     (\<exists>k. 0 < k \<and> k \<le> max_unwrap_depth \<and> wraps V w (Rf_xlength V w x) k x y)"

lemma stands_for_itself [simp]: "stands_for V reg w x x"
  by (simp add: stands_for_def)

lemma stands_for_not_wrapper: "stands_for V reg w x y \<Longrightarrow> \<not> base_wrapper V w x \<Longrightarrow> y = x"
  by (auto simp: stands_for_def gr0_conv_Suc)

text \<open>The loop after \<open>k\<close> wrappers: what it can reach stands for \<open>x\<close>.\<close>

lemma unwrap_loop_ok:
  assumes V: "vectors_ok V R elems" and reg: "\<forall>e \<in> set reg. entry_ok V elems e"
    and n: "rd_n r = Rf_xlength V w x" and first: "R_at_least_4_6 V" "find_registered_altrep V w x reg = None"
    and "is_STRSXP V w inner" and "ALTREP V w inner" and "Rf_xlength V w inner = rd_n r"
    and "wraps V w (rd_n r) k x inner" and "k + depth = max_unwrap_depth"
  shows "resolved V elems w {y. stands_for V reg w x y} r (unwrap_loop V R reg x depth inner r w)"
  using assms(6-)
proof (induction depth arbitrary: inner k)
  case 0
  then show ?case by (simp add: resolved_def)
next
  case (Suc depth)
  note inner = Suc.prems
  let ?Y = "{y. stands_for V reg w x y}"
  show ?case
  proof (cases "base_wrapper V w inner")
    case False
    show ?thesis
    proof (cases "inner = x")
      case True
      then show ?thesis using False by (auto simp: resolved_def base_wrapper_def)
    next
      case other: False
      have Y: "inner \<in> ?Y"
        using inner first n other by (cases k) (auto simp: stands_for_def intro!: exI [of _ k])
      have len: "rd_n r = of_nat (length (elems w inner))" using vectors_okD(1) [OF V inner(1)] inner(3) by simp
      let ?res = "resolve_registered inner (find_registered_altrep V w inner reg) r w"
      have res: "resolved V elems w ?Y r ?res"
        using resolved_mono [OF resolve_registered_ok [OF reg inner(1) len]] Y by simp
      obtain q r1 w1 where q: "?res = (q, r1, w1)" by (metis prod_cases3)
      have direct: "reads_strings V elems w1 inner (direct_reader R (rd_n r) direct)"
        if "DATAPTR_OR_NULL V w1 inner = Some direct" "same_vectors V elems w w1" for direct
      proof -
        have "is_STRSXP V w1 inner" "elems w1 inner = elems w inner" using that(2) inner(1) by (simp_all add: same_vectors_def)
        then show ?thesis
          using direct_reader_reads [OF vectors_okD(4) [OF V _ that(1)] vectors_okD(2) [OF V]] len by simp
      qed
      show ?thesis
      proof (cases "q = Inr False")
        case True
        then show ?thesis
          using res False other direct Y by (auto simp: q resolved_def base_wrapper_def split: option.split)
      next
        case False
        then have "unwrap_loop V R reg x (Suc depth) inner r w = ?res"
          using \<open>\<not> base_wrapper V w inner\<close> other q by (cases q) (auto simp: base_wrapper_def)
        then show ?thesis using res by simp
      qed
    qed
  next
    case True
    let ?next = "R_altrep_data1 V w inner"
    show ?thesis
    proof (cases "is_STRSXP V w ?next \<and> Rf_xlength V w ?next = rd_n r")
      case next_ok: True
      have w: "wraps V w (rd_n r) (Suc k) x ?next" by (rule wraps_snoc [OF inner(4,1,2,3) True])
      show ?thesis
      proof (cases "ALTREP V w ?next")
        case altrep: True
        then show ?thesis using True next_ok Suc.IH [of ?next "Suc k"] w inner(5) by (simp add: Let_def base_wrapper_def)
      next
        case storage: False
        have "reads_strings V elems w ?next (direct_reader R (rd_n r) (DATAPTR_RO V w ?next))"
          using next_ok vectors_okD(1-3) [OF V, of w ?next] storage by (intro direct_reader_reads) auto
        moreover have "stands_for V reg w x ?next"
          using next_ok w inner(5) first n unfolding stands_for_def by (intro disjI2 conjI exI [of _ "Suc k"]) simp_all
        ultimately show ?thesis using True next_ok storage by (auto simp: resolved_def Let_def base_wrapper_def)
      qed
    qed (use True in \<open>auto simp: resolved_def Let_def base_wrapper_def\<close>)
  qed
qed

text \<open>The loop over a tower that is too tall, over an ordinary vector, and down to an ALTREP vector.\<close>

lemma unwrap_loop_too_deep:
  assumes "wraps V w (rd_n r) k inner y" and "depth \<le> k" and "depth < k \<or> ALTREP V w y"
    and y: "is_STRSXP V w y" "Rf_xlength V w y = rd_n r"
  shows "unwrap_loop V R reg x depth inner r w = (Inr False, r, w)"
  using assms(1-3)
proof (induction depth arbitrary: k inner)
  case (Suc d)
  obtain m where k: "k = Suc m" using Suc.prems(2) by (cases k) auto
  let ?next = "R_altrep_data1 V w inner"
  have w: "wraps V w (rd_n r) m ?next y" "base_wrapper V w inner" using Suc.prems(1) k by simp_all
  have top: "is_STRSXP V w ?next" "Rf_xlength V w ?next = rd_n r" using wraps_top [OF w(1) y] by simp_all
  have "ALTREP V w ?next" using w(1) Suc.prems(2,3) k by (cases m) auto
  then show ?case using w top Suc.IH [OF w(1)] Suc.prems(2,3) k by (simp add: Let_def base_wrapper_def)
qed simp

lemma unwrap_loop_storage:
  assumes "wraps V w (rd_n r) k inner y" and "0 < k" and "k \<le> depth"
    and y: "is_STRSXP V w y" "Rf_xlength V w y = rd_n r" "\<not> ALTREP V w y"
  shows "unwrap_loop V R reg x depth inner r w = (Inr True, direct_reader R (rd_n r) (DATAPTR_RO V w y), w)"
  using assms(1-3)
proof (induction k arbitrary: inner depth)
  case (Suc k)
  obtain d where d: "depth = Suc d" using Suc.prems(3) by (cases depth) auto
  let ?next = "R_altrep_data1 V w inner"
  have w: "wraps V w (rd_n r) k ?next y" "base_wrapper V w inner" using Suc.prems(1) by simp_all
  have top: "is_STRSXP V w ?next" "Rf_xlength V w ?next = rd_n r" using wraps_top [OF w(1) y(1,2)] by simp_all
  show ?case
  proof (cases k)
    case 0
    then show ?thesis using w y by (simp add: d Let_def base_wrapper_def)
  next
    case (Suc m)
    then have "ALTREP V w ?next" using w(1) by simp
    then show ?thesis using w top Suc.IH [OF w(1), of d] Suc.prems(3) Suc by (simp add: d Let_def base_wrapper_def)
  qed
qed simp

lemma unwrap_loop_down:
  assumes "wraps V w (rd_n r) k inner y" and "k < depth"
    and y: "is_STRSXP V w y" "Rf_xlength V w y = rd_n r" "ALTREP V w y"
  shows "unwrap_loop V R reg x depth inner r w = unwrap_loop V R reg x (depth - k) y r w"
  using assms(1,2)
proof (induction k arbitrary: inner depth)
  case (Suc k)
  obtain d where d: "depth = Suc d" using Suc.prems(2) by (cases depth) auto
  let ?next = "R_altrep_data1 V w inner"
  have w: "wraps V w (rd_n r) k ?next y" "base_wrapper V w inner" using Suc.prems(1) by simp_all
  have top: "is_STRSXP V w ?next" "Rf_xlength V w ?next = rd_n r" using wraps_top [OF w(1) y(1,2)] by simp_all
  have "ALTREP V w ?next" using w(1) y(3) by (cases k) simp_all
  then show ?case using w top Suc.IH [OF w(1), of d] Suc.prems(2) by (simp add: d Let_def base_wrapper_def)
qed simp

section \<open>Properties of resolution\<close>

text \<open>The last resort of \<open>charport_resolve\<close>: the data pointer of the vector itself.\<close>

lemma direct_fallback:
  fixes V :: "('x, 'k, 'c, 'w) r_vectors" and r :: "(('c, 's) provider_state, 'f) charport_reader"
  assumes V: "vectors_ok V R elems" and x: "is_STRSXP V w x" and w2: "same_vectors V elems w w2"
    and n: "rd_n r = of_nat (length (elems w x))"
  shows "case STRING_PTR_RO V x w2 of
      (Inl e, w3) \<Rightarrow> \<exists>m. e = R_error m
    | (Inr direct, w3) \<Rightarrow>
        same_vectors V elems w w3 \<and>
        reads_strings V elems w3 x (direct_reader R (rd_n r) direct :: (('c, 's) provider_state, 'f) charport_reader)"
proof -
  have x2: "is_STRSXP V w2 x" using x w2 by (simp add: same_vectors_def)
  obtain res w3 where res: "STRING_PTR_RO V x w2 = (res, w3)" by fastforce
  show ?thesis
  proof (cases res)
    case (Inl e)
    then show ?thesis using vectors_okD(6) [OF V x2, of e w3] res by simp
  next
    case (Inr direct)
    note m = vectors_okD(5) [OF V x2 res [unfolded Inr]]
    have "reads_strings V elems w3 x (direct_reader R (rd_n r) direct :: (('c, 's) provider_state, 'f) charport_reader)"
      using m vectors_okD(2) [OF V x] n w2 by (intro direct_reader_reads) (simp_all add: same_vectors_def)
    moreover have "same_vectors V elems w w3" using w2 m by (blast intro: same_vectors_trans)
    ultimately show ?thesis using res Inr by simp
  qed
qed

text \<open>Reading a vector that stands for \<open>x\<close> is reading \<open>x\<close>, unless \<open>x\<close> is a wrapper with other strings.\<close>

lemma stands_for_reads:
  assumes "stands_for V reg w x y" and "reads_strings V elems w' y r" and "same_vectors V elems w w'"
  shows "\<not> base_wrapper V w x \<Longrightarrow> reads_strings V elems w' x r"
    and "\<forall>y. stands_for V reg w x y \<longrightarrow> elems w y = elems w x \<Longrightarrow> reads_strings V elems w' x r"
proof -
  show "reads_strings V elems w' x r" if "\<not> base_wrapper V w x"
    using assms(2) stands_for_not_wrapper [OF assms(1) that] by simp
  assume "\<forall>y. stands_for V reg w x y \<longrightarrow> elems w y = elems w x"
  with assms(1) have "elems w y = elems w x" by blast
  with assms(2,3) show "reads_strings V elems w' x r" by (rule reads_strings_elsewhere)
qed

text \<open>C18. For every character vector, whatever classes are registered (each keeping its own
  promise, and free to raise an R error from its \<open>init\<close>), \<open>charport_resolve\<close> either raises an R error
  or gives a reader and leaves all vectors as they were. Through every accessor the reader reads exactly
  the strings of the vector, or, for a wrapper of base R, of a vector of the same length under at most eight
  wrappers: nothing is assumed of what base R keeps in a wrapper. So it reads the vector's own strings when
  the vector is no such wrapper, and when the wrapped vectors have the wrapper's strings. It refuses
  anything that is not a character vector and touches nothing then.\<close>

theorem charport_resolve_reads:
  fixes V :: "('x, 'k, 'c, 'w) r_vectors" and reg :: "('x, 'k, 'w, ('c, 's) provider_state, 'f) altrep_entry list"
  assumes V: "vectors_ok V R elems" and reg: "\<forall>e \<in> set reg. entry_ok V elems e"
  shows "case charport_resolve V R reg x w of
      (Inl e, w') \<Rightarrow> (\<exists>m. e = R_error m) \<and> (is_STRSXP V w x \<longrightarrow> ALTREP V w x) \<and> (\<not> is_STRSXP V w x \<longrightarrow> w' = w)
    | (Inr r, w') \<Rightarrow>
        is_STRSXP V w x \<and> same_vectors V elems w w' \<and>
        (\<exists>y. stands_for V reg w x y \<and> reads_strings V elems w' y r) \<and>
        (\<not> base_wrapper V w x \<longrightarrow> reads_strings V elems w' x r) \<and>
        ((\<forall>y. stands_for V reg w x y \<longrightarrow> elems w y = elems w x) \<longrightarrow> reads_strings V elems w' x r)"
proof (cases "is_STRSXP V w x \<and> ALTREP V w x")
  case False
  show ?thesis
  proof (cases "is_STRSXP V w x")
    case True
    then have reads: "reads_strings V elems w x
        (direct_reader R (Rf_xlength V w x) (DATAPTR_RO V w x) :: (('c, 's) provider_state, 'f) charport_reader)"
      using False vectors_okD(1-3) [OF V True] by (intro direct_reader_reads) simp_all
    have run: "charport_resolve V R reg x w = (Inr (direct_reader R (Rf_xlength V w x) (DATAPTR_RO V w x)), w)"
      using True False by (simp add: charport_resolve_def)
    show ?thesis
      unfolding run prod.case sum.case using True reads by (intro conjI impI exI [of _ x]) simp_all
  qed (simp add: charport_resolve_def)
next
  case True
  then have x: "is_STRSXP V w x" "ALTREP V w x" by simp_all
  let ?r = "reader_default\<lparr>rd_n := Rf_xlength V w x\<rparr> :: (('c, 's) provider_state, 'f) charport_reader"
  let ?reg = "find_registered_altrep V w x reg" and ?Y = "{y. stands_for V reg w x y}"
  let ?first = "if R_at_least_4_6 V \<and> ?reg = None then resolve_wrapped V R reg x ?r w else (Inr False, ?r, w)"
  have n: "rd_n ?r = of_nat (length (elems w x))" using vectors_okD(1) [OF V x(1)] by simp
  have outcome: "case res of
      (Inl e, w') \<Rightarrow> (\<exists>m. e = R_error m) \<and> (is_STRSXP V w x \<longrightarrow> ALTREP V w x) \<and> (\<not> is_STRSXP V w x \<longrightarrow> w' = w)
    | (Inr r, w') \<Rightarrow>
        is_STRSXP V w x \<and> same_vectors V elems w w' \<and>
        (\<exists>y. stands_for V reg w x y \<and> reads_strings V elems w' y r) \<and>
        (\<not> base_wrapper V w x \<longrightarrow> reads_strings V elems w' x r) \<and>
        ((\<forall>y. stands_for V reg w x y \<longrightarrow> elems w y = elems w x) \<longrightarrow> reads_strings V elems w' x r)"
    if "case res of (Inl e, w') \<Rightarrow> \<exists>m. e = R_error m
      | (Inr r, w') \<Rightarrow> same_vectors V elems w w' \<and> (\<exists>y \<in> ?Y. reads_strings V elems w' y r)"
    for res :: "(fault + (('c, 's) provider_state, 'f) charport_reader) \<times> 'w"
    using that x stands_for_reads [of V reg w x] by (auto split: prod.splits sum.splits)
  have "resolved V elems w ?Y ?r ?first"
    using unwrap_loop_ok [OF V reg, of ?r w x x 0 max_unwrap_depth] x
    by (simp add: resolve_wrapped_def) (simp add: resolved_def)
  moreover obtain q r1 w1 where q: "?first = (q, r1, w1)" by (metis prod_cases3)
  ultimately have first: "resolved V elems w ?Y ?r (q, r1, w1)" by simp
  show ?thesis
  proof (rule outcome, cases q)
    case (Inl e)
    then show "case charport_resolve V R reg x w of (Inl e, w') \<Rightarrow> \<exists>m. e = R_error m
      | (Inr r, w') \<Rightarrow> same_vectors V elems w w' \<and> (\<exists>y \<in> ?Y. reads_strings V elems w' y r)"
      using first x q by (simp add: charport_resolve_def Let_def resolved_def)
  next
    case b: (Inr b)
    show "case charport_resolve V R reg x w of (Inl e, w') \<Rightarrow> \<exists>m. e = R_error m
      | (Inr r, w') \<Rightarrow> same_vectors V elems w w' \<and> (\<exists>y \<in> ?Y. reads_strings V elems w' y r)"
    proof (cases b)
      case True
      then show ?thesis using first x q b by (simp add: charport_resolve_def Let_def resolved_def)
    next
      case False
      then have w1: "same_vectors V elems w w1" "r1 = ?r" using first b by (simp_all add: resolved_def)
      let ?second = "resolve_registered x ?reg r1 w1"
      have "resolved V elems w {x} ?r ?second"
      proof (cases ?reg)
        case None
        then show ?thesis using w1 by (simp add: resolved_def resolve_registered_def)
      next
        case (Some e)
        then have "w1 = w" using q by simp
        then show ?thesis using resolve_registered_ok [OF reg x(1) n] w1(2) by simp
      qed
      moreover obtain c r2 w2 where c: "?second = (c, r2, w2)" by (metis prod_cases3)
      ultimately have second: "resolved V elems w {x} ?r (c, r2, w2)" by simp
      have step: "charport_resolve V R reg x w =
          (case c of Inl e \<Rightarrow> (Inl e, w2)
           | Inr True \<Rightarrow> (Inr r2, w2)
           | Inr False \<Rightarrow>
               (case STRING_PTR_RO V x w2 of
                  (Inl e, w3) \<Rightarrow> (Inl e, w3) | (Inr direct, w3) \<Rightarrow> (Inr (direct_reader R (rd_n r2) direct), w3)))"
        using x q b c False by (simp add: charport_resolve_def Let_def split: sum.split bool.split)
      consider (error) e where "c = Inl e" | (accepted) "c = Inr True" | (declined) "c = Inr False" by (cases c) auto
      then show ?thesis
      proof cases
        case error
        then show ?thesis using second by (simp add: step resolved_def)
      next
        case accepted
        then show ?thesis using second by (auto simp: step resolved_def intro!: exI [of _ x])
      next
        case declined
        then have "same_vectors V elems w w2" "r2 = ?r" using second by (simp_all add: resolved_def)
        with direct_fallback [OF V x(1), of w2 r2] n declined show ?thesis
          by (auto simp: step split: prod.splits sum.splits intro!: exI [of _ x])
      qed
    qed
  qed
qed

text \<open>A world for the witnesses: object 0 is a charvec, 1 a wrapper of 2, 2 an ordinary vector, all
  of the same two strings; class 0 is charvec.\<close>

definition demo_strs :: "(u8 list \<times> cetype_t) option list" where
  "demo_strs = [Some ([104, 105], CE_UTF8), None]"

definition demo_vectors :: "heap \<Rightarrow> (nat, nat, (u8 list \<times> cetype_t) option, unit) r_vectors" where
  "demo_vectors h =
     \<lparr>is_STRSXP = (\<lambda>w x. x < 3), ALTREP = (\<lambda>w x. x < 2), Rf_xlength = (\<lambda>w x. 2), DATAPTR_RO = (\<lambda>w x. demo_strs),
      DATAPTR_OR_NULL = (\<lambda>w x. if x = 2 then Some demo_strs else None), STRING_PTR_RO = (\<lambda>x w. (Inr demo_strs, w)),
      R_altrep_inherits = (\<lambda>w x cls. x = 0 \<and> cls = Some 0),
      R_altrep_class_name = (\<lambda>w x. if x = 1 then SYMSXP ''wrap_string'' else SYMSXP ''charvec''),
      R_altrep_class_package = (\<lambda>w x. if x = 1 then SYMSXP ''base'' else SYMSXP ''charport''),
      R_altrep_data1 = (\<lambda>w x. 2), heap_of = (\<lambda>w. h), R_at_least_4_6 = True\<rparr>"

definition demo_elems :: "unit \<Rightarrow> nat \<Rightarrow> element list" where
  "demo_elems w x = [Str [104, 105] CETYPE_EXT_UTF8, NA]"

lemma demo_vectors_ok:
  assumes "mem_read h (At 0 0) 2 = Some [104, 105]"
  shows "vectors_ok (demo_vectors h) demo_R demo_elems"
proof -
  have "charsxp_element demo_R h (Some ([104, 105], CE_UTF8)) = Str [104, 105] CETYPE_EXT_UTF8"
    "charsxp_element demo_R h None = NA" "charsxp_live demo_R h (Some ([104, 105], CE_UTF8))" "charsxp_live demo_R h None"
    using assms by (simp_all add: charsxp_element_def charsxp_live_def charsxp_bytes_def demo_R_def charsxp_tag_def)
  then have "shows_elements (demo_vectors h) demo_R demo_elems w x demo_strs" for w x
    by (simp add: shows_elements_def demo_strs_def demo_elems_def demo_vectors_def)
  then show ?thesis
    by (simp add: vectors_ok_def) (simp add: demo_vectors_def demo_elems_def wrap_string_name_def)
qed

text \<open>The charvec class keeps the promise of a registered class, for well-formed instances.\<close>

definition charvec_objects_ok ::
    "('x, 'k, 'c, 'w) r_vectors \<Rightarrow> ('w \<Rightarrow> 'x \<Rightarrow> element list) \<Rightarrow> 'k \<Rightarrow> ('w \<Rightarrow> 'x \<Rightarrow> 'c charvec) \<Rightarrow> bool" where
  "charvec_objects_ok V elems cls charvec_of \<longleftrightarrow>
     (\<forall>w x. is_STRSXP V w x \<and> R_altrep_inherits V w x (Some cls) \<and> cv_data2 (charvec_of w x) = None \<longrightarrow>
        (\<exists>st. cv_store (charvec_of w x) = Some st \<and> store_holds st (heap_of V w) (elems w x)))"

lemma charvec_reader_reads:
  assumes st: "store_holds st (heap_of V w) (elems w x)"
    and r: "rd_state r = Some (Store_state st)" "rd_range r = charvec_range_fns" "rd_index r = charvec_index_fns"
      "rd_n r = of_nat (length (elems w x))"
  shows "reads_strings V elems w x r"
proof -
  let ?vs = "rt_views (st_records st)"
  note s = charvec_serves_store [OF st]
  have "reads r (heap_of V w) ?vs"
    by (rule charvec_provider.reads_provided [OF s(1)])
      (use r list_all2_lengthD [OF s(2)] in simp_all)
  with s(2) show ?thesis by (auto simp: reads_strings_def)
qed

lemma charvec_entry_ok:
  fixes V :: "('x, 'k, 'c, 'w) r_vectors"
  assumes "charvec_objects_ok V elems cls charvec_of"
  shows "entry_ok V elems (charvec_entry cls charvec_of :: ('x, 'k, 'w, ('c, 's) provider_state, 'f) altrep_entry)"
    (is "entry_ok V elems ?e")
proof -
  have "init_ok V elems ?e w x (Inr (charvec_reader_init (charvec_of w x)), w)"
    if x: "is_STRSXP V w x" "R_altrep_inherits V w x (Some cls)" for w x
  proof (cases "cv_data2 (charvec_of w x)")
    case None
    then obtain st where st: "cv_store (charvec_of w x) = Some st" "store_holds st (heap_of V w) (elems w x)"
      using assms x unfolding charvec_objects_ok_def by blast
    then show ?thesis using None
      by (auto simp: init_ok_def charvec_reader_init_def charvec_entry_def
          intro: charvec_reader_reads [of st V w elems x, OF st(2)])
  qed (simp add: init_ok_def charvec_reader_init_def)
  then show ?thesis by (simp add: entry_ok_def class_promise_def charvec_entry_def)
qed

lemmas charvec_entry_promise = charvec_entry_ok [unfolded entry_ok_def, THEN conjunct2, THEN conjunct2]

type_synonym demo_state = "((u8 list \<times> cetype_t) option, unit) provider_state"

definition demo_registry :: "store \<Rightarrow> (nat, nat, unit, demo_state, unit) altrep_entry list" where
  "demo_registry st = [charvec_entry 0 (\<lambda>w x. \<lparr>cv_store = Some st, cv_chunks = None, cv_data2 = None\<rparr>)]"

lemma demo_objects_ok:
  "store_holds st h [Str [104, 105] CETYPE_EXT_UTF8, NA] \<Longrightarrow>
   charvec_objects_ok (demo_vectors h) demo_elems 0 (\<lambda>w x. \<lparr>cv_store = Some st, cv_chunks = None, cv_data2 = None\<rparr>)"
  by (simp add: charvec_objects_ok_def demo_elems_def demo_vectors_def)

lemma demo_registry_ok:
  assumes "store_holds st h [Str [104, 105] CETYPE_EXT_UTF8, NA]"
  shows "\<forall>e \<in> set (demo_registry st). entry_ok (demo_vectors h) demo_elems e"
  using charvec_entry_ok [OF demo_objects_ok [OF assms]] by (simp add: demo_registry_def)

text \<open>A class whose \<open>init\<close> raises an R error keeps the promise too.\<close>

definition refusing_registry :: "(nat, nat, unit, demo_state, unit) altrep_entry list" where
  "refusing_registry =
     [(charvec_entry 0 (\<lambda>w x. \<lparr>cv_store = None, cv_chunks = None, cv_data2 = None\<rparr>))\<lparr>ae_init := Some (\<lambda>x w. (Inl (R_error ''closed''), w))\<rparr>]"

lemma refusing_registry_ok: "\<forall>e \<in> set refusing_registry. entry_ok V elems e"
  by (simp add: refusing_registry_def charvec_entry_def entry_ok_def class_promise_def init_ok_def)

text \<open>A charvec read from its store, a wrapper read from the ordinary vector in it, and an \<open>init\<close> that
  raises.\<close>

theorem charport_resolve_reads_witness:
  "\<exists>h st r r'. charport_resolve (demo_vectors h) demo_R (demo_registry st) 0 () = (Inr r, ()) \<and>
     charport_resolve (demo_vectors h) demo_R (demo_registry st) 1 () = (Inr r', ()) \<and>
     rd_state r = Some (Store_state st) \<and> rd_state r' = Some (Storage_state demo_strs) \<and>
     reads_strings (demo_vectors h) demo_elems () 0 r \<and> reads_strings (demo_vectors h) demo_elems () 1 r' \<and>
     (\<exists>m. charport_resolve (demo_vectors h) demo_R refusing_registry 0 () = (Inl (R_error m), ()))"
proof -
  obtain st h where st: "store_private st h [Str [104, 105] CETYPE_EXT_UTF8, NA]"
    "mem_read h (At 0 0) 2 = Some [104, 105]" by (rule demo_private_store) blast
  have hold: "store_holds st h [Str [104, 105] CETYPE_EXT_UTF8, NA]" using st(1) by (simp add: store_private_def)
  note reads = charport_resolve_reads [OF demo_vectors_ok [OF st(2)] demo_registry_ok [OF hold], where w = "()"]
  note refused = charport_resolve_reads [OF demo_vectors_ok [OF st(2)] refusing_registry_ok, where w = "()" and x = 0]
  have same: "\<forall>y. stands_for (demo_vectors h) (demo_registry st) () x y \<longrightarrow> demo_elems () y = demo_elems () x" for x
    by (simp add: demo_elems_def)
  obtain r where r: "charport_resolve (demo_vectors h) demo_R (demo_registry st) 0 () = (Inr r, ())"
    "rd_state r = Some (Store_state st)"
    by (simp add: charport_resolve_def demo_registry_def demo_vectors_def charvec_entry_def resolve_registered_def
        charvec_reader_init_def)
  obtain r' where r': "charport_resolve (demo_vectors h) demo_R (demo_registry st) 1 () = (Inr r', ())"
    "rd_state r' = Some (Storage_state demo_strs)"
    by (simp add: charport_resolve_def demo_registry_def demo_vectors_def charvec_entry_def resolve_wrapped_def
        max_unwrap_depth_def numeral_eq_Suc wrap_string_name_def base_package_name_def Let_def direct_reader_def)
  obtain e where "charport_resolve (demo_vectors h) demo_R refusing_registry 0 () = (Inl e, ())"
    by (simp add: charport_resolve_def refusing_registry_def demo_vectors_def charvec_entry_def resolve_registered_def)
  with refused obtain m where "charport_resolve (demo_vectors h) demo_R refusing_registry 0 () = (Inl (R_error m), ())"
    by auto
  moreover have "reads_strings (demo_vectors h) demo_elems () 0 r" "reads_strings (demo_vectors h) demo_elems () 1 r'"
    using reads [of 0] reads [of 1] same unfolding r(1) r'(1) prod.case sum.case by blast+
  ultimately show ?thesis using r r' by blast
qed

text \<open>What the class of a vector makes of it, as a reader of \<open>n\<close> strings, and the last resort.\<close>

definition reader_of :: "('x, 'k, 'w, 's, 'f) altrep_entry \<Rightarrow> R_xlen_t \<Rightarrow> 's \<Rightarrow> ('s, 'f) charport_reader" where
  "reader_of e n s =
     \<lparr>rd_n = n, rd_state = Some s, rd_release = ae_release e, rd_range = ae_range e, rd_index = ae_index e,
      rd_capabilities = ae_capabilities e\<rparr>"

definition class_reader ::
    "('x, 'k, 'c, 'w) r_vectors \<Rightarrow> ('x, 'k, 'w, 's, 'f) altrep_entry list \<Rightarrow> R_xlen_t \<Rightarrow> 'x \<Rightarrow> 'w \<Rightarrow>
     (fault + ('s, 'f) charport_reader option) \<times> 'w" where
  "class_reader V reg n y w =
     (case find_registered_altrep V w y reg of
        None \<Rightarrow> (Inr None, w)
      | Some e \<Rightarrow>
          (case the (ae_init e) y w of
             (Inl f, w1) \<Rightarrow> (Inl f, w1)
           | (Inr so, w1) \<Rightarrow> (Inr (map_option (reader_of e n) so), w1)))"

definition data_pointer_reader where
  "data_pointer_reader V R n x w =
     (case STRING_PTR_RO V x w of
        (Inl e, w') \<Rightarrow> (Inl e, w')
      | (Inr direct, w') \<Rightarrow> (Inr (direct_reader R n direct), w'))"

lemma resolve_registered_class:
  assumes "\<forall>e \<in> set reg. ae_init e \<noteq> None"
  shows "resolve_registered y (find_registered_altrep V w y reg) (reader_default\<lparr>rd_n := n\<rparr>) w =
    (case class_reader V reg n y w of
       (Inl f, w1) \<Rightarrow> (Inl f, reader_default\<lparr>rd_n := n\<rparr>, w1)
     | (Inr None, w1) \<Rightarrow> (Inr False, reader_default\<lparr>rd_n := n\<rparr>, w1)
     | (Inr (Some r), w1) \<Rightarrow> (Inr True, r, w1))"
proof (cases "find_registered_altrep V w y reg")
  case (Some e)
  then obtain init where "ae_init e = Some init" using assms find_registered_in [OF Some] by auto
  then show ?thesis
    by (auto simp: Some resolve_registered_def class_reader_def reader_of_def reader_default_def
        split: prod.split sum.split option.split)
qed (simp add: resolve_registered_def class_reader_def)

lemma resolve_after_wrapped:
  assumes "is_STRSXP V w x" and "ALTREP V w x" and "R_at_least_4_6 V" and "find_registered_altrep V w x reg = None"
    and "resolve_wrapped V R reg x (reader_default\<lparr>rd_n := Rf_xlength V w x\<rparr>) w = (q, r1, w1)"
  shows "charport_resolve V R reg x w =
    (case q of
       Inl e \<Rightarrow> (Inl e, w1)
     | Inr b \<Rightarrow> if b then (Inr r1, w1) else data_pointer_reader V R (rd_n r1) x w1)"
  using assms
  by (simp add: charport_resolve_def resolve_registered_def data_pointer_reader_def Let_def split: sum.split bool.split)

text \<open>The loop at the vector under a tower.\<close>

lemma unwrap_loop_at_bottom:
  assumes "\<forall>e \<in> set reg. ae_init e \<noteq> None" and "\<not> base_wrapper V w y" and "y \<noteq> x"
  shows "unwrap_loop V R reg x (Suc d) y (reader_default\<lparr>rd_n := n\<rparr>) w =
    (case class_reader V reg n y w of
       (Inl f, w1) \<Rightarrow> (Inl f, reader_default\<lparr>rd_n := n\<rparr>, w1)
     | (Inr (Some r), w1) \<Rightarrow> (Inr True, r, w1)
     | (Inr None, w1) \<Rightarrow>
         (case DATAPTR_OR_NULL V w1 y of
            Some direct \<Rightarrow> (Inr True, direct_reader R n direct, w1)
          | None \<Rightarrow> (Inr False, reader_default\<lparr>rd_n := n\<rparr>, w1)))"
proof -
  have "R_altrep_class_name V w y \<noteq> wrap_string_name \<or> R_altrep_class_package V w y \<noteq> base_package_name"
    using assms(2) by (auto simp: base_wrapper_def)
  moreover obtain c w1 where c: "class_reader V reg n y w = (c, w1)" by fastforce
  moreover note res = resolve_registered_class [OF assms(1), of y V w n, unfolded c prod.case]
  ultimately show ?thesis
    using assms(3) by (cases c rule: sum.exhaust) (simp_all split: option.split)
qed

text \<open>C19. Resolution reads a vector where it is whenever it can. An ordinary vector is read through its
  data pointer, which changes nothing; a vector of a registered class through the state its \<open>init\<close>
  gives, and \<open>charport_get_sexp_info\<close> tells that reader's capabilities beforehand. Since R 4.6, a tower of up to
  eight base R wrappers over an ordinary vector is read from that vector, and a tower of up to
  seven over another ALTREP vector through that vector's own class, or its R storage if it has any; the
  wrapper's data pointer, which would copy and materialize, is asked for only when there is none, when
  the class declines, or when the tower is taller. An R error of \<open>init\<close> ends the resolution.\<close>

theorem charport_resolve_in_place:
  fixes V :: "('x, 'k, 'c, 'w) r_vectors" and reg :: "('x, 'k, 'w, ('c, 's) provider_state, 'f) altrep_entry list"
  assumes x: "is_STRSXP V w x" and n: "n = Rf_xlength V w x" and reg: "\<forall>e \<in> set reg. ae_init e \<noteq> None"
  shows "(\<not> ALTREP V w x \<longrightarrow> charport_resolve V R reg x w = (Inr (direct_reader R n (DATAPTR_RO V w x)), w)) \<and>
    (\<forall>e. ALTREP V w x \<and> find_registered_altrep V w x reg = Some e \<longrightarrow>
       charport_resolve V R reg x w =
         (case class_reader V reg n x w of
            (Inl f, w1) \<Rightarrow> (Inl f, w1)
          | (Inr (Some r), w1) \<Rightarrow> (Inr r, w1)
          | (Inr None, w1) \<Rightarrow> data_pointer_reader V R n x w1) \<and>
       si_is_registered (charport_get_sexp_info V reg w x) \<and>
       si_capabilities (charport_get_sexp_info V reg w x) = ae_capabilities e \<and>
       si_stateful_reader (charport_get_sexp_info V reg w x) = (ae_release e \<noteq> None)) \<and>
    (\<forall>k y. R_at_least_4_6 V \<and> find_registered_altrep V w x reg = None \<and> 0 < k \<and> wraps V w n k x y \<and>
         is_STRSXP V w y \<and> Rf_xlength V w y = n \<and> (ALTREP V w y \<longrightarrow> \<not> base_wrapper V w y) \<longrightarrow>
       charport_resolve V R reg x w =
         (if \<not> ALTREP V w y
          then (if k \<le> 8 then (Inr (direct_reader R n (DATAPTR_RO V w y)), w) else data_pointer_reader V R n x w)
          else if 8 \<le> k then data_pointer_reader V R n x w
          else (case class_reader V reg n y w of
                  (Inl f, w1) \<Rightarrow> (Inl f, w1)
                | (Inr (Some r), w1) \<Rightarrow> (Inr r, w1)
                | (Inr None, w1) \<Rightarrow>
                    (case DATAPTR_OR_NULL V w1 y of
                       Some direct \<Rightarrow> (Inr (direct_reader R n direct), w1)
                     | None \<Rightarrow> data_pointer_reader V R n x w1))))"
proof (intro conjI allI impI)
  assume "\<not> ALTREP V w x"
  with x show "charport_resolve V R reg x w = (Inr (direct_reader R n (DATAPTR_RO V w x)), w)"
    by (simp add: charport_resolve_def n)
next
  fix e
  assume a: "ALTREP V w x \<and> find_registered_altrep V w x reg = Some e"
  then show "charport_resolve V R reg x w =
      (case class_reader V reg n x w of
         (Inl f, w1) \<Rightarrow> (Inl f, w1)
       | (Inr (Some r), w1) \<Rightarrow> (Inr r, w1)
       | (Inr None, w1) \<Rightarrow> data_pointer_reader V R n x w1)"
    using x n resolve_registered_class [OF reg, of x V w n]
    by (auto simp: charport_resolve_def data_pointer_reader_def Let_def split: prod.split sum.split option.split)
  show "si_is_registered (charport_get_sexp_info V reg w x)"
    "si_capabilities (charport_get_sexp_info V reg w x) = ae_capabilities e"
    "si_stateful_reader (charport_get_sexp_info V reg w x) = (ae_release e \<noteq> None)"
    using a x by (simp_all add: charport_get_sexp_info_def Let_def)
next
  fix k y
  let ?r = "reader_default\<lparr>rd_n := n\<rparr> :: (('c, 's) provider_state, 'f) charport_reader"
  assume a: "R_at_least_4_6 V \<and> find_registered_altrep V w x reg = None \<and> 0 < k \<and> wraps V w n k x y \<and>
    is_STRSXP V w y \<and> Rf_xlength V w y = n \<and> (ALTREP V w y \<longrightarrow> \<not> base_wrapper V w y)"
  then have y: "is_STRSXP V w y" "Rf_xlength V w y = rd_n ?r" and w: "wraps V w (rd_n ?r) k x y" by simp_all
  have wx: "ALTREP V w x" "base_wrapper V w x" using a by (auto simp: gr0_conv_Suc)
  note resolve = resolve_after_wrapped [OF x wx(1) conjunct1 [OF a] conjunct1 [OF conjunct2 [OF a]], where R = R, folded n]
  note loop = resolve_wrapped_def max_unwrap_depth_def
  show "charport_resolve V R reg x w =
      (if \<not> ALTREP V w y
       then (if k \<le> 8 then (Inr (direct_reader R n (DATAPTR_RO V w y)), w) else data_pointer_reader V R n x w)
       else if 8 \<le> k then data_pointer_reader V R n x w
       else (case class_reader V reg n y w of
               (Inl f, w1) \<Rightarrow> (Inl f, w1)
             | (Inr (Some r), w1) \<Rightarrow> (Inr r, w1)
             | (Inr None, w1) \<Rightarrow>
                 (case DATAPTR_OR_NULL V w1 y of
                    Some direct \<Rightarrow> (Inr (direct_reader R n direct), w1)
                  | None \<Rightarrow> data_pointer_reader V R n x w1)))"
  proof (cases "ALTREP V w y")
    case False
    then show ?thesis
      using resolve [unfolded loop] unwrap_loop_storage [OF w _ _ y, of 8 R reg x] unwrap_loop_too_deep [OF w _ _ y, of 8 R reg x] a
      by (cases "k \<le> 8") simp_all
  next
    case True
    show ?thesis
    proof (cases "8 \<le> k")
      case tall: True
      then show ?thesis
        using resolve [unfolded loop] unwrap_loop_too_deep [OF w tall _ y, of R reg x] True by simp
    next
      case False
      then obtain d where d: "8 - k = Suc d" by (metis diff_is_0_eq not0_implies_Suc)
      have bottom: "\<not> base_wrapper V w y" "y \<noteq> x" using True a wx(2) by auto
      have "unwrap_loop V R reg x 8 x ?r w = unwrap_loop V R reg x (Suc d) y ?r w"
        using unwrap_loop_down [OF w _ y True, of 8 R reg x] False d by simp
      note l = this [unfolded unwrap_loop_at_bottom [OF reg bottom]]
      obtain c w1 where c: "class_reader V reg n y w = (c, w1)" by fastforce
      note r = resolve [unfolded loop l c prod.case]
      show ?thesis
      proof (cases c)
        case (Inl f)
        then show ?thesis using r True False c by simp
      next
        case (Inr ro)
        then show ?thesis using r True False c by (cases ro) (simp_all split: option.splits)
      qed
    qed
  qed
qed

text \<open>A charvec in a wrapper, read from its store through both.\<close>

definition wrapped_vectors :: "heap \<Rightarrow> (nat, nat, (u8 list \<times> cetype_t) option, unit) r_vectors" where
  "wrapped_vectors h = (demo_vectors h)\<lparr>R_altrep_data1 := (\<lambda>w x. 0)\<rparr>"

theorem charport_resolve_in_place_witness:
  "\<forall>st. charport_resolve (demo_vectors demo_heap) demo_R (demo_registry st) 1 () =
     (Inr (direct_reader demo_R 2 demo_strs), ()) \<and>
   (\<exists>r. charport_resolve (wrapped_vectors demo_heap) demo_R (demo_registry st) 1 () = (Inr r, ()) \<and>
      rd_state r = Some (Store_state st))"
proof
  fix st
  let ?V = "demo_vectors demo_heap" and ?W = "wrapped_vectors demo_heap" and ?reg = "demo_registry st"
  have x: "is_STRSXP ?V () 1" "is_STRSXP ?W () 1" and n: "2 = Rf_xlength ?V () 1" "2 = Rf_xlength ?W () 1"
    by (simp_all add: demo_vectors_def wrapped_vectors_def)
  have reg: "\<forall>e \<in> set ?reg. ae_init e \<noteq> None" by (simp add: demo_registry_def charvec_entry_def)
  note tower = conjunct2 [OF conjunct2 [OF charport_resolve_in_place [OF x(1) n(1) reg]], rule_format, of "Suc 0" 2]
    and wrapped = conjunct2 [OF conjunct2 [OF charport_resolve_in_place [OF x(2) n(2) reg]], rule_format, of "Suc 0" 0]
  have k: "(0 :: nat) < Suc 0" "Suc 0 \<le> 8" "\<not> 8 \<le> Suc 0" by simp_all
  have "wraps ?V () 2 (Suc 0) 1 2" "wraps ?W () 2 (Suc 0) 1 0" "\<not> base_wrapper ?W () 0"
    by (simp_all add: demo_vectors_def wrapped_vectors_def base_wrapper_def wrap_string_name_def base_package_name_def)
  moreover have "find_registered_altrep ?V () 1 ?reg = None" "find_registered_altrep ?W () 1 ?reg = None"
    by (simp_all add: demo_registry_def demo_vectors_def wrapped_vectors_def)
  moreover have "class_reader ?W ?reg 2 0 () = (Inr (Some (reader_of (hd ?reg) 2 (Store_state st))), ())"
    by (simp add: class_reader_def demo_registry_def demo_vectors_def wrapped_vectors_def charvec_entry_def
        charvec_reader_init_def)
  moreover have "R_at_least_4_6 ?V" "R_at_least_4_6 ?W" "is_STRSXP ?V () 2" "is_STRSXP ?W () 0"
    "Rf_xlength ?V () 2 = 2" "Rf_xlength ?W () 0 = 2" "\<not> ALTREP ?V () 2" "ALTREP ?W () 0" "DATAPTR_RO ?V () 2 = demo_strs"
    by (simp_all add: demo_vectors_def wrapped_vectors_def)
  ultimately show "charport_resolve (demo_vectors demo_heap) demo_R (demo_registry st) 1 () =
       (Inr (direct_reader demo_R 2 demo_strs), ()) \<and>
     (\<exists>r. charport_resolve (wrapped_vectors demo_heap) demo_R (demo_registry st) 1 () = (Inr r, ()) \<and>
        rd_state r = Some (Store_state st))"
    using tower wrapped k by (simp add: reader_of_def)
qed

section \<open>The registry stays well formed\<close>

definition registry_ok ::
    "('x, 'k, 'c, 'w) r_vectors \<Rightarrow> ('w \<Rightarrow> 'x \<Rightarrow> element list) \<Rightarrow> ('x, 'k, 'w, 's, 'f) altrep_entry list \<Rightarrow> bool" where
  "registry_ok V elems reg \<longleftrightarrow>
     distinct (map ae_cls reg) \<and>
     (\<forall>e \<in> set reg. entry_ok V elems e \<and> range_fns_complete (ae_range e) \<and> index_fns_complete (ae_index e))"

text \<open>What every entry must have.\<close>

definition entry_complete :: "('x, 'k, 'w, 's, 'f) altrep_entry \<Rightarrow> bool" where
  "entry_complete e \<longleftrightarrow>
     ae_cls e \<noteq> None \<and> ae_init e \<noteq> None \<and> range_fns_complete (ae_range e) \<and> index_fns_complete (ae_index e)"

text \<open>What a program does to the registry.\<close>

datatype ('x, 'k, 'w, 's, 'f) registry_call = Register "('x, 'k, 'w, 's, 'f) altrep_entry" | Unregister "'k option"

fun registry_run ::
    "('x, 'k, 'w, 's, 'f) registry_call list \<Rightarrow> ('x, 'k, 'w, 's, 'f) altrep_entry list \<Rightarrow> heap \<Rightarrow>
     ('x, 'k, 'w, 's, 'f) altrep_entry list \<times> heap" where
  "registry_run [] reg h = (reg, h)"
| "registry_run (Register e # cs) reg h =
     (case charport_register_altrep e reg h of (r, reg', h') \<Rightarrow> registry_run cs reg' h')"
| "registry_run (Unregister cls # cs) reg h = registry_run cs (charport_unregister_altrep cls reg) h"

lemma unregister_is_filter:
  "distinct (map ae_cls reg) \<Longrightarrow> charport_unregister_altrep cls reg = filter (\<lambda>e. ae_cls e \<noteq> cls) reg"
  by (induction reg) (auto intro!: filter_True [symmetric] simp: image_iff)

lemma find_registered_unique:
  assumes "distinct (map ae_cls reg)" and "e \<in> set reg"
    and "\<And>cls. R_altrep_inherits V w x cls \<longleftrightarrow> cls = ae_cls e"
  shows "find_registered_altrep V w x reg = Some e"
  using assms(1,2) by (induction reg) (auto simp: assms(3) image_iff)

lemma register_ok:
  assumes reg: "registry_ok V elems reg" and run: "charport_register_altrep e reg h = (r, reg', h')"
    and e: "entry_complete e \<Longrightarrow> class_promise V elems e"
  shows "registry_ok V elems reg' \<and>
    (case r of
       Inl f \<Rightarrow> reg' = reg \<and> (\<exists>m. f = R_error m) \<and>
         (\<not> entry_complete e \<or> (\<exists>e' \<in> set reg. ae_cls e' = ae_cls e) \<or> (\<exists>n m. \<not> can_alloc h n m))
     | Inr u \<Rightarrow> reg' = reg @ [e] \<and> entry_complete e \<and> (\<forall>e' \<in> set reg. ae_cls e' \<noteq> ae_cls e))"
proof (cases "entry_complete e \<and> (\<forall>e' \<in> set reg. ae_cls e' \<noteq> ae_cls e)")
  case True
  then have "ae_cls e \<notin> set (map ae_cls reg)" by force
  then have "registry_ok V elems (reg @ [e])"
    using reg e True by (auto simp: registry_ok_def entry_ok_def entry_complete_def)
  then show ?thesis
    using run True reg
    by (auto simp: charport_register_altrep_def entry_complete_def try_alloc_def Let_def split: if_splits) blast+
next
  case False
  then show ?thesis
    using run reg by (auto simp: charport_register_altrep_def entry_complete_def Let_def split: if_splits)
qed

lemma unregister_ok:
  "registry_ok V elems reg \<Longrightarrow> registry_ok V elems (charport_unregister_altrep c reg)"
  using unregister_is_filter [of reg c] by (auto simp: registry_ok_def distinct_map_filter)

lemma registry_run_ok:
  "registry_ok V elems reg \<Longrightarrow> (\<And>e. Register e \<in> set calls \<Longrightarrow> entry_complete e \<Longrightarrow> class_promise V elems e) \<Longrightarrow>
     registry_ok V elems (fst (registry_run calls reg h))"
proof (induction calls reg h rule: registry_run.induct)
  case (2 e cs reg h)
  obtain r reg' h' where r: "charport_register_altrep e reg h = (r, reg', h')" by (metis prod_cases3)
  then have "registry_ok V elems reg'" using register_ok [OF 2(2) r] 2(3) by simp
  with 2 r show ?case by simp
qed (simp_all add: unregister_ok)

lemma charvec_entry_complete: "entry_complete (charvec_entry cls charvec_of)"
  by (simp add: charvec_entry_def entry_complete_def range_fns_complete_def index_fns_complete_def charvec_range_fns_def
      charvec_index_fns_def)

text \<open>C21. Starting empty, and whatever a program gives the registry to register and unregister in
  whatever order, entries that lack a class, an \<open>init\<close> or a callback included (a complete one must keep its
  class's promise; of the others nothing is asked), the registry never holds a class twice, and every
  entry in it has its class, its \<open>init\<close> and all eight callbacks and keeps its promise. A further registration
  adds exactly the entry when it is complete, its class is new and memory is there, and otherwise raises an
  R error and changes nothing; unregistering removes just that class, and a vector of a registered class is
  found by its own entry. The package's own charvec class keeps the promise.\<close>

theorem registry_well_formed:
  fixes V :: "('x, 'k, 'c, 'w) r_vectors" and calls :: "('x, 'k, 'w, ('c, 's) provider_state, 'f) registry_call list"
  assumes calls: "\<And>e. Register e \<in> set calls \<Longrightarrow> entry_complete e \<Longrightarrow> class_promise V elems e"
    and charvec: "charvec_objects_ok V elems cls charvec_of"
  shows "case registry_run calls [] h of (reg, h') \<Rightarrow>
    registry_ok V elems reg \<and>
    (\<forall>e. case charport_register_altrep e reg h' of
           (Inl f, reg', h'') \<Rightarrow> reg' = reg \<and> (\<exists>m. f = R_error m) \<and>
             (\<not> entry_complete e \<or> (\<exists>e' \<in> set reg. ae_cls e' = ae_cls e) \<or> (\<exists>n m. \<not> can_alloc h' n m))
         | (Inr u, reg', h'') \<Rightarrow> reg' = reg @ [e] \<and> entry_complete e \<and> (\<forall>e' \<in> set reg. ae_cls e' \<noteq> ae_cls e)) \<and>
    (\<forall>c. charport_unregister_altrep c reg = filter (\<lambda>e. ae_cls e \<noteq> c) reg) \<and>
    (\<forall>e \<in> set reg. \<forall>w x. (\<forall>c. R_altrep_inherits V w x c \<longleftrightarrow> c = ae_cls e) \<longrightarrow>
       find_registered_altrep V w x reg = Some e) \<and>
    (case C_register_charvec cls charvec_of reg h' of (r, reg', h'') \<Rightarrow>
       registry_ok V elems reg' \<and> registry_ok V elems (C_unregister_charvec cls reg'))"
proof -
  obtain reg h' where rh: "registry_run calls [] h = (reg, h')" by fastforce
  have ok: "registry_ok V elems reg"
    using registry_run_ok [of V elems "[]" calls h] calls rh by (simp add: registry_ok_def)
  then have d: "distinct (map ae_cls reg)" by (simp add: registry_ok_def)
  have step: "case charport_register_altrep e reg h' of
      (Inl f, reg', h'') \<Rightarrow> reg' = reg \<and> (\<exists>m. f = R_error m) \<and>
        (\<not> entry_complete e \<or> (\<exists>e' \<in> set reg. ae_cls e' = ae_cls e) \<or> (\<exists>n m. \<not> can_alloc h' n m))
    | (Inr u, reg', h'') \<Rightarrow> reg' = reg @ [e] \<and> entry_complete e \<and> (\<forall>e' \<in> set reg. ae_cls e' \<noteq> ae_cls e)" for e
    by (auto simp: charport_register_altrep_def entry_complete_def try_alloc_def Let_def)
  obtain r reg' h'' where r: "C_register_charvec cls charvec_of reg h' = (r, reg', h'')" by (metis prod_cases3)
  have "class_promise V elems (charvec_entry cls charvec_of :: ('x, 'k, 'w, ('c, 's) provider_state, 'f) altrep_entry)"
    by (rule charvec_entry_promise [OF charvec])
  then have ok': "registry_ok V elems reg'" using register_ok [OF ok r [unfolded C_register_charvec_def]] by simp
  have found: "\<forall>e \<in> set reg. \<forall>w x. (\<forall>c. R_altrep_inherits V w x c \<longleftrightarrow> c = ae_cls e) \<longrightarrow>
      find_registered_altrep V w x reg = Some e"
    using find_registered_unique [OF d] by blast
  show ?thesis
    using ok ok' unregister_ok [OF ok', of "Some cls"] found step unregister_is_filter [OF d] rh r
    by (simp add: C_unregister_charvec_def)
qed

text \<open>Between two registrations of charvec the class is taken out; an entry whose class is \<open>NULL\<close> and one
  without a callback are refused.\<close>

definition broken_entries :: "(nat, nat, unit, demo_state, unit) altrep_entry list" where
  "broken_entries =
     (let e = charvec_entry 5 (\<lambda>w x. \<lparr>cv_store = Some store_empty, cv_chunks = None, cv_data2 = None\<rparr>)
      in [e\<lparr>ae_cls := None\<rparr>, e\<lparr>ae_init := None\<rparr>, e\<lparr>ae_range := charvec_range_fns\<lparr>range_lengths := None\<rparr>\<rparr>])"

theorem registry_well_formed_witness:
  "\<exists>st h h'. registry_run (map Register broken_entries @ map Register (demo_registry st) @ [Unregister (Some 0)] @
      map Register (demo_registry st)) [] h = (demo_registry st, h') \<and>
    registry_ok (demo_vectors h) demo_elems (demo_registry st)"
proof -
  obtain st h where st: "store_private st h [Str [104, 105] CETYPE_EXT_UTF8, NA]" "\<And>n m. can_alloc h n m"
    by (rule demo_private_store) blast
  have hold: "store_holds st h [Str [104, 105] CETYPE_EXT_UTF8, NA]" using st(1) by (simp add: store_private_def)
  let ?calls = "map Register broken_entries @ map Register (demo_registry st) @ [Unregister (Some 0)] @ map Register (demo_registry st)"
  have broken: "\<not> entry_complete e" if "e \<in> set broken_entries" for e
    using that by (auto simp: broken_entries_def entry_complete_def range_fns_complete_def Let_def)
  have ok: "class_promise (demo_vectors h) demo_elems e" if "Register e \<in> set ?calls" "entry_complete e" for e
    using that broken demo_registry_ok [OF hold] by (auto simp: entry_ok_def)
  obtain h' where run: "registry_run ?calls [] h = (demo_registry st, h')"
    using st(2) by (simp add: demo_registry_def broken_entries_def Let_def charport_register_altrep_def charvec_entry_def
        range_fns_complete_def index_fns_complete_def charvec_range_fns_def charvec_index_fns_def try_alloc_def)
  have "registry_ok (demo_vectors h) demo_elems (demo_registry st)"
    using registry_well_formed [OF ok demo_objects_ok [OF hold], where h = h and calls = ?calls, unfolded run] by simp
  with run show ?thesis by blast
qed

end
