(* ===== verification/Cp_Pack.thy ===== *)
theory Cp_Pack
  imports Cp_Registry
begin

unbundle bit_operations_syntax

text \<open>
  The layout of a charpack, \<open>namespace charpack_layout\<close> of \<open>src/charpack_altrep.h\<close>: all strings
  of a vector in one raw vector, as a head (the number of records and the width of the offsets),
  the end offset of each record, its encoding tag, and the bytes. Reads and writes are of words
  in the byte order of the host, which is little-endian when \<open>le\<close>.
\<close>

section \<open>The layout\<close>

definition header_bytes :: nat where "header_bytes = 8"
definition wide_bit :: u64 where "wide_bit = push_bit 63 1"

definition offset_bytes :: "bool \<Rightarrow> nat" where
  "offset_bytes wide = (if wide then 8 else 4)"

definition needs_wide :: "size_t \<Rightarrow> bool" where
  "needs_wide payload \<longleftrightarrow> payload > 4294967295"

definition total_bytes :: "size_t \<Rightarrow> size_t \<Rightarrow> bool \<Rightarrow> size_t" where
  "total_bytes n payload wide =
     (let max = R_XLEN_T_MAX; per_record = of_nat (offset_bytes wide) + 1
      in if n > (max - of_nat header_bytes) div per_record then 0
         else let meta = of_nat header_bytes + n * per_record
              in if payload > max - meta then 0 else meta + payload)"

text \<open>\<open>ends\<close>, \<open>tags\<close> and \<open>bytes\<close> are pointers into the raw vector, given as offsets.\<close>

record pack_view =
  pv_n :: nat
  pv_wide :: bool
  pv_ends :: nat
  pv_tags :: nat
  pv_bytes :: nat

definition pack_parse :: "bool \<Rightarrow> u8 list \<Rightarrow> fault + pack_view" where
  "pack_parse le raw =
     and_then (charvec_read_u64 le raw 0 False) (\<lambda>head.
       let wide = (head AND wide_bit \<noteq> 0); n = unat (head AND NOT wide_bit);
           ends = header_bytes; tags = ends + offset_bytes wide * n
       in Inr \<lparr>pv_n = n, pv_wide = wide, pv_ends = ends, pv_tags = tags, pv_bytes = tags + n\<rparr>)"

definition end_of_u64 :: "bool \<Rightarrow> u8 list \<Rightarrow> nat \<Rightarrow> nat \<Rightarrow> fault + u64" where
  "end_of_u64 le raw ends i = charvec_read_u64 le raw (ends + 8 * i) False"

definition end_of_u32 :: "bool \<Rightarrow> u8 list \<Rightarrow> nat \<Rightarrow> nat \<Rightarrow> fault + u64" where
  "end_of_u32 le raw ends i = and_then (charvec_read_u32 le raw (ends + 4 * i) False) (\<lambda>out. Inr (ucast out))"

definition pack_end_at :: "bool \<Rightarrow> u8 list \<Rightarrow> pack_view \<Rightarrow> nat \<Rightarrow> fault + u64" where
  "pack_end_at le raw v i =
     (if pv_wide v then end_of_u64 le raw (pv_ends v) i else end_of_u32 le raw (pv_ends v) i)"

definition pack_length :: "bool \<Rightarrow> u8 list \<Rightarrow> fault + nat" where
  "pack_length le raw = and_then (pack_parse le raw) (\<lambda>v. Inr (pv_n v))"

definition write_head :: "bool \<Rightarrow> u8 list \<Rightarrow> size_t \<Rightarrow> bool \<Rightarrow> fault + u8 list" where
  "write_head le raw n wide = put_bytes raw 0 (store_word le 8 (n OR (if wide then wide_bit else 0)))"

definition write_end :: "bool \<Rightarrow> u8 list \<Rightarrow> nat \<Rightarrow> bool \<Rightarrow> nat \<Rightarrow> u64 \<Rightarrow> fault + u8 list" where
  "write_end le raw ends wide i e =
     (if wide then put_bytes raw (ends + 8 * i) (store_word le 8 e)
      else put_bytes raw (ends + 4 * i) (store_word le 4 (ucast e :: u32)))"

definition tag_at :: "u8 list \<Rightarrow> pack_view \<Rightarrow> nat \<Rightarrow> fault + u8" where
  "tag_at raw v i = elt_at raw (pv_tags v + i)"

section \<open>The format\<close>

text \<open>
  The bytes of a charpack of the strings \<open>es\<close>: words with the least significant byte first when
  \<open>lsb\<close>, end offsets of eight bytes when \<open>wide\<close>.
\<close>

definition pack_end :: "element list \<Rightarrow> nat \<Rightarrow> nat" where
  "pack_end es i = before (\<lambda>k. length (elem_bytes (es ! k))) i"

definition end_field :: "bool \<Rightarrow> bool \<Rightarrow> nat \<Rightarrow> u8 list" where
  "end_field lsb wide e = (if wide then field lsb 8 (of_nat e :: u64) else field lsb 4 (of_nat e :: u32))"

definition pack_head :: "bool \<Rightarrow> nat \<Rightarrow> u64" where
  "pack_head wide n = of_nat n OR (if wide then wide_bit else 0)"

definition pack_ends :: "bool \<Rightarrow> bool \<Rightarrow> element list \<Rightarrow> u8 list" where
  "pack_ends lsb wide es = concat (map (\<lambda>i. end_field lsb wide (pack_end es (Suc i))) [0..<length es])"

definition pack_raw :: "bool \<Rightarrow> bool \<Rightarrow> element list \<Rightarrow> u8 list" where
  "pack_raw lsb wide es =
     field lsb 8 (pack_head wide (length es)) @ pack_ends lsb wide es @ map elem_tag es @ state_payload es"

text \<open>The raw vectors a charpack can have: every string can be one of R's, and all offsets fit.\<close>

definition pack_fits :: "bool \<Rightarrow> element list \<Rightarrow> bool" where
  "pack_fits wide es \<longleftrightarrow>
     list_all storable es \<and> (wide \<or> length (state_payload es) < 4294967296) \<and>
     header_bytes + length es * (offset_bytes wide + 1) + length (state_payload es) \<le> 4503599627370496"

lemma length_end_field [simp]: "length (end_field lsb wide e) = offset_bytes wide"
  by (simp add: end_field_def offset_bytes_def)

lemma length_pack_ends [simp]: "length (pack_ends lsb wide es) = offset_bytes wide * length es"
  by (simp add: pack_ends_def length_concat comp_def sum_list_triv)

lemma length_pack_raw:
  "length (pack_raw lsb wide es) = header_bytes + length es * (offset_bytes wide + 1) + length (state_payload es)"
  by (simp add: pack_raw_def header_bytes_def algebra_simps)

lemma pack_head_parts:
  assumes "n < 2 ^ 63"
  shows "(pack_head wide n AND wide_bit \<noteq> 0) = wide" and "pack_head wide n AND NOT wide_bit = of_nat n"
proof -
  have "take_bit 63 (of_nat n :: u64) = of_nat (take_bit 63 n)" by (rule take_bit_of_nat)
  also have "take_bit 63 n = n" using assms by (simp add: take_bit_nat_eq_self)
  finally have low: "take_bit 63 (of_nat n :: u64) = of_nat n" .
  have "bit (of_nat n :: u64) 63 \<longleftrightarrow> bit (take_bit 63 (of_nat n :: u64)) 63" by (simp only: low)
  then have b: "\<not> bit (of_nat n :: u64) 63" by (simp add: bit_take_bit_iff)
  have w: "bit wide_bit m \<longleftrightarrow> m = 63" for m
    unfolding wide_bit_def bit_push_bit_iff by (auto simp: bit_1_iff)
  have "bit (pack_head wide n AND wide_bit) m \<longleftrightarrow> m = 63 \<and> wide" for m
    using b by (auto simp: pack_head_def bit_and_iff bit_or_iff w)
  then show "(pack_head wide n AND wide_bit \<noteq> 0) = wide" by (metis bit_eqI bit_0_eq bot_apply bot_bool_def)
  show "pack_head wide n AND NOT wide_bit = of_nat n"
    by (rule bit_word_eqI) (use b in \<open>auto simp: pack_head_def bit_and_iff bit_or_iff bit_not_iff w\<close>)
qed

text \<open>The parts of a raw vector by position.\<close>

lemma pack_raw_drops:
  "drop header_bytes (pack_raw lsb wide es) = pack_ends lsb wide es @ map elem_tag es @ state_payload es"
  "drop (header_bytes + offset_bytes wide * length es) (pack_raw lsb wide es) = map elem_tag es @ state_payload es"
  "drop (header_bytes + (offset_bytes wide + 1) * length es) (pack_raw lsb wide es) = state_payload es"
proof -
  show 8: "drop header_bytes (pack_raw lsb wide es) = pack_ends lsb wide es @ map elem_tag es @ state_payload es"
    by (simp add: pack_raw_def header_bytes_def)
  have "drop (offset_bytes wide * length es) (drop header_bytes (pack_raw lsb wide es)) = map elem_tag es @ state_payload es"
    unfolding 8 by simp
  then show t: "drop (header_bytes + offset_bytes wide * length es) (pack_raw lsb wide es) = map elem_tag es @ state_payload es"
    by (simp add: add.commute)
  have "drop (length es) (drop (header_bytes + offset_bytes wide * length es) (pack_raw lsb wide es)) = state_payload es"
    unfolding t by simp
  then show "drop (header_bytes + (offset_bytes wide + 1) * length es) (pack_raw lsb wide es) = state_payload es"
    by (simp add: algebra_simps)
qed

lemma pack_end_total: "pack_end es (length es) = length (state_payload es)"
  using length_concat_before [of "length es" "map elem_bytes es"]
  by (simp add: pack_end_def state_payload_def cong: before_cong)

lemma pack_end_le: "i \<le> length es \<Longrightarrow> pack_end es i \<le> length (state_payload es)"
  unfolding pack_end_total [symmetric] by (simp add: pack_end_def before_mono)

lemma pack_end_0 [simp]: "pack_end es 0 = 0"
  and pack_end_Suc: "pack_end es (Suc i) = pack_end es i + length (elem_bytes (es ! i))"
  by (simp_all add: pack_end_def)

lemma pack_head_at: "take 8 (pack_raw lsb wide es) = field lsb 8 (pack_head wide (length es))"
  by (simp add: pack_raw_def)

lemma pack_end_field_at:
  assumes "i < length es"
  shows "take (offset_bytes wide) (drop (header_bytes + offset_bytes wide * i) (pack_raw lsb wide es)) =
    end_field lsb wide (pack_end es (Suc i))"
proof -
  let ?f = "\<lambda>i. end_field lsb wide (pack_end es (Suc i))"
  have "drop (header_bytes + offset_bytes wide * i) (pack_raw lsb wide es) =
      drop (offset_bytes wide * i) (drop header_bytes (pack_raw lsb wide es))"
    by (simp add: add.commute)
  also have "\<dots> = drop (offset_bytes wide * i) (pack_ends lsb wide es @ map elem_tag es @ state_payload es)"
    unfolding pack_raw_drops ..
  finally have "drop (header_bytes + offset_bytes wide * i) (pack_raw lsb wide es) =
      drop (offset_bytes wide * i) (pack_ends lsb wide es @ map elem_tag es @ state_payload es)" .
  then show ?thesis
    using piece_of_concat_map [of i "[0..<length es]" "\<lambda>k. offset_bytes wide" ?f "map elem_tag es @ state_payload es"] assms
    by (simp add: pack_ends_def del: take_append drop_append)
qed

lemma pack_tag_at:
  assumes "i < length es"
  shows "pack_raw lsb wide es ! (header_bytes + offset_bytes wide * length es + i) = elem_tag (es ! i)"
proof -
  have "pack_raw lsb wide es ! (header_bytes + offset_bytes wide * length es + i) =
      drop (header_bytes + offset_bytes wide * length es) (pack_raw lsb wide es) ! i"
    by (rule nth_drop [symmetric]) (simp add: length_pack_raw algebra_simps)
  then show ?thesis unfolding pack_raw_drops using assms by (simp add: nth_append)
qed

lemma pack_bytes_at:
  assumes "i < length es"
  shows "take (length (elem_bytes (es ! i)))
      (drop (header_bytes + (offset_bytes wide + 1) * length es + pack_end es i) (pack_raw lsb wide es)) = elem_bytes (es ! i)"
proof -
  have "drop (header_bytes + (offset_bytes wide + 1) * length es + pack_end es i) (pack_raw lsb wide es) =
      drop (pack_end es i) (state_payload es)"
    using pack_raw_drops(3) [of wide es lsb] by (simp add: add.commute flip: drop_drop)
  then show ?thesis
    using piece_of_concat_map [of i es "\<lambda>k. length (elem_bytes (es ! k))" elem_bytes "[]"] assms
    by (simp add: state_payload_def pack_end_def)
qed

section \<open>Reading the format\<close>

lemma pack_fitsD:
  assumes "pack_fits wide es"
  shows "length es < 2 ^ 63" and "\<And>i. i < length es \<Longrightarrow> storable (es ! i)"
    and "\<And>i. i \<le> length es \<Longrightarrow> pack_end es i \<le> 4503599627370496"
    and "\<And>i. \<not> wide \<Longrightarrow> i \<le> length es \<Longrightarrow> pack_end es i < 4294967296"
proof -
  have b: "length (state_payload es) \<le> 4503599627370496" "\<not> wide \<Longrightarrow> length (state_payload es) < 4294967296"
    "length es \<le> 4503599627370496"
    using assms by (auto simp: pack_fits_def header_bytes_def offset_bytes_def split: if_splits)
  then show "length es < 2 ^ 63" by simp
  show "i < length es \<Longrightarrow> storable (es ! i)" for i using assms by (simp add: pack_fits_def list_all_length)
  show "i \<le> length es \<Longrightarrow> pack_end es i \<le> 4503599627370496" for i using pack_end_le [of i es] b(1) by linarith
  show "\<not> wide \<Longrightarrow> i \<le> length es \<Longrightarrow> pack_end es i < 4294967296" for i
    using pack_end_le [of i es] b(2) by linarith
qed

text \<open>Reads of the words of the format by a host of either order, swapping when the orders differ.\<close>

lemma read_head:
  "charvec_read_u64 le (pack_raw lsb wide es) 0 (lsb \<noteq> le) = Inr (pack_head wide (length es))"
  using pack_head_at [of lsb wide es]
  by (simp only: read_u64_wire) (simp add: wire_word_field length_pack_raw header_bytes_def)

lemma end_word:
  assumes "pack_fits wide es" and "i \<le> length es"
  shows "wide \<Longrightarrow> wire_word lsb (end_field lsb wide (pack_end es i)) = (of_nat (pack_end es i) :: u64)"
    and "\<not> wide \<Longrightarrow> ucast (wire_word lsb (end_field lsb wide (pack_end es i)) :: u32) = (of_nat (pack_end es i) :: u64)"
proof -
  show "wide \<Longrightarrow> wire_word lsb (end_field lsb wide (pack_end es i)) = (of_nat (pack_end es i) :: u64)"
    by (simp add: end_field_def wire_word_field)
  assume "\<not> wide"
  then have "pack_end es i < 4294967296" using pack_fitsD(4) [OF assms(1)] assms(2) by blast
  then have "unat (ucast (of_nat (pack_end es i) :: u32) :: u64) = unat (of_nat (pack_end es i) :: u64)"
    by (simp add: unat_ucast_u64 unat_of_nat_u32 unat_of_nat_u64)
  then have "ucast (of_nat (pack_end es i) :: u32) = (of_nat (pack_end es i) :: u64)"
    by (simp only: word_unat_eq_iff)
  then show "ucast (wire_word lsb (end_field lsb wide (pack_end es i)) :: u32) = (of_nat (pack_end es i) :: u64)"
    using \<open>\<not> wide\<close> by (simp add: end_field_def wire_word_field)
qed

lemma read_end:
  assumes fits: "pack_fits wide es" and i: "i < length es"
  shows "wide \<Longrightarrow> charvec_read_u64 le (pack_raw lsb wide es) (header_bytes + 8 * i) (lsb \<noteq> le) =
      Inr (of_nat (pack_end es (Suc i)))"
    and "\<not> wide \<Longrightarrow> \<exists>x. charvec_read_u32 le (pack_raw lsb wide es) (header_bytes + 4 * i) (lsb \<noteq> le) = Inr x \<and>
      (ucast x :: u64) = of_nat (pack_end es (Suc i))"
proof -
  have "offset_bytes wide * i + offset_bytes wide \<le> offset_bytes wide * length es"
    using i by (metis Suc_leI mult.commute mult_Suc mult_le_mono1 add.commute)
  then have room: "header_bytes + offset_bytes wide * i + offset_bytes wide \<le> length (pack_raw lsb wide es)"
    by (simp add: length_pack_raw algebra_simps)
  note at = pack_end_field_at [OF i, of wide lsb] and word = end_word [OF fits, of "Suc i" lsb]
  show "wide \<Longrightarrow> charvec_read_u64 le (pack_raw lsb wide es) (header_bytes + 8 * i) (lsb \<noteq> le) =
      Inr (of_nat (pack_end es (Suc i)))"
    using room at word(1) i by (simp only: read_u64_wire) (simp add: offset_bytes_def)
  show "\<not> wide \<Longrightarrow> \<exists>x. charvec_read_u32 le (pack_raw lsb wide es) (header_bytes + 4 * i) (lsb \<noteq> le) = Inr x \<and>
      (ucast x :: u64) = of_nat (pack_end es (Suc i))"
    using room at word(2) i by (simp only: read_u32_wire) (simp add: offset_bytes_def)
qed

text \<open>The view of a charpack's raw vector, and what it reads.\<close>

definition pack_view_of :: "bool \<Rightarrow> element list \<Rightarrow> pack_view" where
  "pack_view_of wide es =
     \<lparr>pv_n = length es, pv_wide = wide, pv_ends = header_bytes, pv_tags = header_bytes + offset_bytes wide * length es,
      pv_bytes = header_bytes + (offset_bytes wide + 1) * length es\<rparr>"

lemma pack_parse_raw:
  assumes "pack_fits wide es"
  shows "pack_parse le (pack_raw le wide es) = Inr (pack_view_of wide es)"
proof -
  note n = pack_fitsD(1) [OF assms]
  have head: "charvec_read_u64 le (pack_raw le wide es) 0 False = Inr (pack_head wide (length es))"
    using read_head [of le le wide es] by simp
  show ?thesis
    unfolding pack_parse_def head and_then.simps Let_def pack_head_parts [OF n] unat_small [OF n] pack_view_of_def
    by simp
qed

lemma pack_reads:
  assumes fits: "pack_fits wide es" and i: "i < length es"
  shows "pack_end_at le (pack_raw le wide es) (pack_view_of wide es) i = Inr (of_nat (pack_end es (Suc i)))"
    and "tag_at (pack_raw le wide es) (pack_view_of wide es) i = Inr (elem_tag (es ! i))"
proof -
  show "pack_end_at le (pack_raw le wide es) (pack_view_of wide es) i = Inr (of_nat (pack_end es (Suc i)))"
    using read_end [OF fits i, of le le]
    by (auto simp: pack_end_at_def pack_view_of_def end_of_u64_def end_of_u32_def)
  show "tag_at (pack_raw le wide es) (pack_view_of wide es) i = Inr (elem_tag (es ! i))"
    using pack_tag_at [OF i, of le wide] i
    by (simp add: tag_at_def elt_at_def pack_view_of_def length_pack_raw algebra_simps)
qed

end
