(* ===== verification/Cp_Packread.thy ===== *)
theory Cp_Packread
  imports Cp_Pack
begin

text \<open>
  The charpack instance and its reader callbacks, \<open>struct charpack_altrep\<close> of
  \<open>src/charpack_altrep.h\<close>: a raw vector read in place. It is the third interpretation of
  \<open>reader_provider\<close>, and the class the package registers besides charvec.
\<close>

section \<open>The instance\<close>

text \<open>\<open>data1\<close> is the raw vector and \<open>data2\<close> the materialized vector, each \<open>None\<close> for \<open>R_NilValue\<close>.\<close>

record 'c charpack =
  cp_data1 :: "blk option"
  cp_data2 :: "'c list option"

definition charpack_is_unfilled :: "'c charpack \<Rightarrow> bool" where
  "charpack_is_unfilled x \<longleftrightarrow> cp_data1 x = None \<and> cp_data2 x = None"

definition charpack_reader_init :: "'c charpack \<Rightarrow> ('c, 's) provider_state option" where
  "charpack_reader_init x =
     (case cp_data2 x of Some xs \<Rightarrow> None | None \<Rightarrow> map_option Packed_state (cp_data1 x))"

definition state_view :: "bool \<Rightarrow> ('c, 's) provider_state option \<Rightarrow> heap \<Rightarrow> fault + blk \<times> pack_view" where
  "state_view le s h =
     (case s of
        Some (Packed_state rb) \<Rightarrow> and_then (pack_parse le (raw_bytes h rb)) (\<lambda>v. Inr (rb, v))
      | _ \<Rightarrow> Inl Undefined)"

section \<open>Records\<close>

text \<open>The tag of record \<open>i\<close> and where it begins and ends; record 0 has no previous end.\<close>

definition pack_record :: "bool \<Rightarrow> u8 list \<Rightarrow> pack_view \<Rightarrow> nat \<Rightarrow> fault + u8 \<times> u64 \<times> u64" where
  "pack_record le raw v i =
     and_then (if i = 0 then Inr 0 else pack_end_at le raw v (i - 1)) (\<lambda>b.
     and_then (pack_end_at le raw v i) (\<lambda>e.
     and_then (tag_at raw v i) (\<lambda>t. Inr (t, b, e))))"

text \<open>\<open>put\<close>: the parts of a record's view.\<close>

definition put_len :: "u8 \<Rightarrow> u64 \<Rightarrow> u64 \<Rightarrow> c_int" where
  "put_len tag b e = (if tag = tag_value CETYPE_EXT_NA then NA_INTEGER else ucast (e - b))"

definition put_ptr :: "blk \<Rightarrow> pack_view \<Rightarrow> u8 \<Rightarrow> u64 \<Rightarrow> u64 \<Rightarrow> ptr" where
  "put_ptr rb v tag b e =
     (if tag = tag_value CETYPE_EXT_NA then Null else if e = b then empty_data else At rb (pv_bytes v + unat b))"

text \<open>
  The instances of \<open>put\<close>: \<open>put<true, true>\<close> writes a string view, \<open>put<true, false>\<close> a byte
  view and \<open>put<false, false>\<close> a length, each to cell \<open>j\<close> of its output.
\<close>

definition put_strview :: "blk \<Rightarrow> pack_view \<Rightarrow> nat \<Rightarrow> u8 \<Rightarrow> u64 \<Rightarrow> u64 \<Rightarrow> str_out \<Rightarrow> fault + str_out" where
  "put_strview rb v j tag b e out = put_str j (put_ptr rb v tag b e) (put_len tag b e) (charport_cetype_ext tag) out"

definition put_byteview :: "blk \<Rightarrow> pack_view \<Rightarrow> nat \<Rightarrow> u8 \<Rightarrow> u64 \<Rightarrow> u64 \<Rightarrow> byte_out \<Rightarrow> fault + byte_out" where
  "put_byteview rb v j tag b e out = put_byte j (put_ptr rb v tag b e) (put_len tag b e) out"

definition put_length :: "blk \<Rightarrow> pack_view \<Rightarrow> nat \<Rightarrow> u8 \<Rightarrow> u64 \<Rightarrow> u64 \<Rightarrow> c_int list \<Rightarrow> fault + c_int list" where
  "put_length rb v j tag b e out = set_elt_at out j (put_len tag b e)"

section \<open>Callbacks\<close>

definition range_loop ::
    "bool \<Rightarrow> u8 list \<Rightarrow> pack_view \<Rightarrow> R_xlen_t \<Rightarrow> R_xlen_t \<Rightarrow> (nat \<Rightarrow> u8 \<Rightarrow> u64 \<Rightarrow> u64 \<Rightarrow> 'o \<Rightarrow> fault + 'o) \<Rightarrow> 'o \<Rightarrow>
     fault + c_int \<times> 'o" where
  "range_loop le raw v start n put out =
     fill_loop n (\<lambda>j out. and_then (pack_record le raw v (unat start + j)) (\<lambda>(tag, b, e). put j tag b e out)) out"

definition index_loop ::
    "bool \<Rightarrow> u8 list \<Rightarrow> pack_view \<Rightarrow> R_xlen_t list \<Rightarrow> R_xlen_t \<Rightarrow> (nat \<Rightarrow> u8 \<Rightarrow> u64 \<Rightarrow> u64 \<Rightarrow> 'o \<Rightarrow> fault + 'o) \<Rightarrow> 'o \<Rightarrow>
     fault + c_int \<times> 'o" where
  "index_loop le raw v indices n put out =
     fill_loop n (\<lambda>j out. and_then (elt_at indices j) (\<lambda>k.
       and_then (pack_record le raw v (unat k)) (\<lambda>(tag, b, e). put j tag b e out))) out"

definition range_access ::
    "bool \<Rightarrow> (blk \<Rightarrow> pack_view \<Rightarrow> nat \<Rightarrow> u8 \<Rightarrow> u64 \<Rightarrow> u64 \<Rightarrow> 'o \<Rightarrow> fault + 'o) \<Rightarrow> (('c, 's) provider_state, 'o) range_fn" where
  "range_access le put s h start n out =
     and_then (state_view le s h) (\<lambda>(rb, v). range_loop le (raw_bytes h rb) v start n (put rb v) out)"

definition index_access ::
    "bool \<Rightarrow> (blk \<Rightarrow> pack_view \<Rightarrow> nat \<Rightarrow> u8 \<Rightarrow> u64 \<Rightarrow> u64 \<Rightarrow> 'o \<Rightarrow> fault + 'o) \<Rightarrow> (('c, 's) provider_state, 'o) index_fn" where
  "index_access le put s h indices n out =
     and_then (state_view le s h) (\<lambda>(rb, v). index_loop le (raw_bytes h rb) v indices n (put rb v) out)"

definition charpack_strviews_range :: "bool \<Rightarrow> (('c, 's) provider_state, str_out) range_fn" where
  "charpack_strviews_range le = range_access le put_strview"

definition charpack_strviews_index :: "bool \<Rightarrow> (('c, 's) provider_state, str_out) index_fn" where
  "charpack_strviews_index le = index_access le put_strview"

definition charpack_byteviews_range :: "bool \<Rightarrow> (('c, 's) provider_state, byte_out) range_fn" where
  "charpack_byteviews_range le = range_access le put_byteview"

definition charpack_byteviews_index :: "bool \<Rightarrow> (('c, 's) provider_state, byte_out) index_fn" where
  "charpack_byteviews_index le = index_access le put_byteview"

definition charpack_lengths_range :: "bool \<Rightarrow> (('c, 's) provider_state, c_int list) range_fn" where
  "charpack_lengths_range le = range_access le put_length"

definition charpack_lengths_index :: "bool \<Rightarrow> (('c, 's) provider_state, c_int list) index_fn" where
  "charpack_lengths_index le = index_access le put_length"

text \<open>Encodings need only the tags.\<close>

definition charpack_encodings_range :: "bool \<Rightarrow> (('c, 's) provider_state, cetype_ext_t list) range_fn" where
  "charpack_encodings_range le s h start n out =
     and_then (state_view le s h) (\<lambda>(rb, v).
       fill_loop n (\<lambda>j out. and_then (tag_at (raw_bytes h rb) v (unat (start + of_nat j))) (\<lambda>t.
         set_elt_at out j (charport_cetype_ext t))) out)"

definition charpack_encodings_index :: "bool \<Rightarrow> (('c, 's) provider_state, cetype_ext_t list) index_fn" where
  "charpack_encodings_index le s h indices n out =
     and_then (state_view le s h) (\<lambda>(rb, v).
       fill_loop n (\<lambda>j out. and_then (elt_at indices j) (\<lambda>k. and_then (tag_at (raw_bytes h rb) v (unat k)) (\<lambda>t.
         set_elt_at out j (charport_cetype_ext t)))) out)"

definition charpack_range_fns :: "bool \<Rightarrow> ('c, 's) provider_state reader_range_fns" where
  "charpack_range_fns le =
     \<lparr>range_strviews = Some (charpack_strviews_range le), range_byteviews = Some (charpack_byteviews_range le),
      range_lengths = Some (charpack_lengths_range le), range_encodings = Some (charpack_encodings_range le)\<rparr>"

definition charpack_index_fns :: "bool \<Rightarrow> ('c, 's) provider_state reader_index_fns" where
  "charpack_index_fns le =
     \<lparr>index_strviews = Some (charpack_strviews_index le), index_byteviews = Some (charpack_byteviews_index le),
      index_lengths = Some (charpack_lengths_index le), index_encodings = Some (charpack_encodings_index le)\<rparr>"

text \<open>\<open>C_register_charpack\<close> and \<open>C_unregister_charpack\<close> of \<open>charpack_api.cpp\<close>.\<close>

definition charpack_entry ::
    "bool \<Rightarrow> 'k \<Rightarrow> ('w \<Rightarrow> 'x \<Rightarrow> 'c charpack) \<Rightarrow> ('x, 'k, 'w, ('c, 's) provider_state, 'f) altrep_entry" where
  "charpack_entry le cls charpack_of =
     \<lparr>ae_cls = Some cls, ae_init = Some (\<lambda>x w. (Inr (charpack_reader_init (charpack_of w x)), w)), ae_release = None,
      ae_range = charpack_range_fns le, ae_index = charpack_index_fns le,
      ae_capabilities = \<lparr>persistent_views = True, concurrent_access = True\<rparr>\<rparr>"

definition C_register_charpack where
  "C_register_charpack le cls charpack_of reg h = charport_register_altrep (charpack_entry le cls charpack_of) reg h"

definition C_unregister_charpack where
  "C_unregister_charpack cls reg = charport_unregister_altrep (Some cls) reg"

section \<open>The records of a charpack\<close>

fun pack_view_at :: "blk \<Rightarrow> bool \<Rightarrow> element list \<Rightarrow> nat \<Rightarrow> charport_strview" where
  "pack_view_at rb wide es i =
     (case es ! i of
        NA \<Rightarrow> na_record
      | Str bs c \<Rightarrow>
          make_strview (if bs = [] then empty_data
                        else At rb (header_bytes + (offset_bytes wide + 1) * length es + pack_end es i))
            (of_nat (length bs)) c)"

definition pack_views :: "blk \<Rightarrow> bool \<Rightarrow> element list \<Rightarrow> charport_strview list" where
  "pack_views rb wide es = map (pack_view_at rb wide es) [0..<length es]"

lemma length_pack_views [simp]: "length (pack_views rb wide es) = length es"
  by (simp add: pack_views_def)

lemma pack_record_ok:
  assumes fits: "pack_fits wide es" and i: "i < length es"
  shows "pack_record le (pack_raw le wide es) (pack_view_of wide es) i =
    Inr (elem_tag (es ! i), of_nat (pack_end es i), of_nat (pack_end es (Suc i)))"
  using pack_reads [OF fits i, of le] pack_reads(1) [OF fits, of "i - 1" le] i
  by (cases i) (simp_all add: pack_record_def)

lemma pack_parts:
  assumes fits: "pack_fits wide es" and i: "i < length es"
  shows "put_ptr rb (pack_view_of wide es) (elem_tag (es ! i)) (of_nat (pack_end es i)) (of_nat (pack_end es (Suc i))) =
      sv_ptr (pack_views rb wide es ! i)"
    and "put_len (elem_tag (es ! i)) (of_nat (pack_end es i)) (of_nat (pack_end es (Suc i))) =
      sv_len (pack_views rb wide es ! i)"
    and "charport_cetype_ext (elem_tag (es ! i)) = sv_enc (pack_views rb wide es ! i)"
proof -
  let ?b = "pack_end es i" and ?e = "pack_end es (Suc i)"
  have e: "?e = ?b + length (elem_bytes (es ! i))" by (rule pack_end_Suc)
  have ends: "unat (of_nat ?b :: u64) = ?b" "unat (of_nat ?e :: u64) = ?e"
    using pack_fitsD(3) [OF fits, of i] pack_fitsD(3) [OF fits, of "Suc i"] i by (simp_all add: unat_of_nat_u64)
  have neq: "(of_nat ?e :: u64) = of_nat ?b \<longleftrightarrow> elem_bytes (es ! i) = []"
    using ends e by (metis add_cancel_right_right length_0_conv)
  have "unat (of_nat (length (elem_bytes (es ! i))) :: u64) = length (elem_bytes (es ! i))"
    using ends e pack_fitsD(3) [OF fits, of "Suc i"] i by (simp add: unat_of_nat_u64)
  then have "(of_nat (length (elem_bytes (es ! i))) :: c_int) = ucast (of_nat (length (elem_bytes (es ! i))) :: u64)"
    by (metis of_nat_unat)
  then have len: "ucast (of_nat ?e - of_nat ?b :: u64) = (of_nat (length (elem_bytes (es ! i))) :: c_int)"
    by (simp add: e)
  have v: "pack_views rb wide es ! i = pack_view_at rb wide es i" using i by (simp add: pack_views_def)
  have s: "storable (es ! i)" using pack_fitsD(2) [OF fits i] .
  show "put_ptr rb (pack_view_of wide es) (elem_tag (es ! i)) (of_nat ?b) (of_nat ?e) = sv_ptr (pack_views rb wide es ! i)"
    using s neq ends(1) by (cases "es ! i") (auto simp: put_ptr_def v na_record_def pack_view_of_def cetype_ext_t.expand)
  show "put_len (elem_tag (es ! i)) (of_nat ?b) (of_nat ?e) = sv_len (pack_views rb wide es ! i)"
    using s len by (cases "es ! i") (auto simp: put_len_def v na_record_def cetype_ext_t.expand)
  show "charport_cetype_ext (elem_tag (es ! i)) = sv_enc (pack_views rb wide es ! i)"
    by (cases "es ! i") (auto simp: v na_record_def charport_cetype_ext_def)
qed

lemma pack_view_content:
  assumes raw: "blocks h rb = Some (pack_raw le wide es)" and fits: "pack_fits wide es"
  shows "list_all2 (\<lambda>v e. view_content h v = Some e) (pack_views rb wide es) es"
proof -
  have "view_content h (pack_view_at rb wide es i) = Some (es ! i)" if i: "i < length es" for i
  proof (cases "es ! i")
    case NA
    then show ?thesis by (simp add: na_record_def)
  next
    case (Str bs c)
    have s: "length bs \<le> 2147483647" "c \<noteq> CETYPE_EXT_NA" using pack_fitsD(2) [OF fits i] Str by simp_all
    let ?off = "header_bytes + (offset_bytes wide + 1) * length es + pack_end es i"
    have "take (length bs) (drop ?off (pack_raw le wide es)) = bs"
      using pack_bytes_at [OF i, of wide le] Str by simp
    moreover have "?off + length bs \<le> length (pack_raw le wide es)"
      using pack_end_le [of "Suc i" es] i Str by (simp add: pack_end_Suc length_pack_raw algebra_simps)
    ultimately have "mem_read h (At rb ?off) (length bs) = Some bs" using raw by simp
    moreover have "unat (of_nat (length bs) :: c_int) = length bs" using s(1) by (simp add: unat_of_nat_u32)
    moreover from this have "(of_nat (length bs) :: c_int) \<noteq> NA_INTEGER"
      using s(1) by (auto dest: arg_cong [where f = unat])
    ultimately show ?thesis
      using s Str unfolding pack_view_at.simps
      by (simp add: view_content_Str make_strview_def strview_is_na_def empty_data_def del: mem_read.simps(3))
  qed
  then show ?thesis by (simp add: pack_views_def list_all2_conv_all_nth)
qed


section \<open>charpack keeps the contract\<close>

text \<open>The borrow is the bytes of the raw vector, which hold the records of \<open>es\<close>.\<close>

definition charpack_serves ::
    "bool \<Rightarrow> ('c, 's) provider_state option \<Rightarrow> heap \<Rightarrow> charport_strview list \<Rightarrow> bool" where
  "charpack_serves le s h vs \<longleftrightarrow>
     (\<exists>rb wide es. s = Some (Packed_state rb) \<and> blocks h rb = Some (pack_raw le wide es) \<and> pack_fits wide es \<and>
        vs = pack_views rb wide es)"

text \<open>The state parses to a view whose record \<open>k\<close> has the parts of \<open>vs ! k\<close>.\<close>

lemma charpack_servesE:
  assumes "charpack_serves le s h vs"
  obtains rb v where "length vs < 2 ^ 63" "state_view le s h = Inr (rb, v)"
    "\<And>k. k < length vs \<Longrightarrow> \<exists>t b e. pack_record le (raw_bytes h rb) v k = Inr (t, b, e) \<and>
       tag_at (raw_bytes h rb) v k = Inr t \<and> put_ptr rb v t b e = sv_ptr (vs ! k) \<and>
       put_len t b e = sv_len (vs ! k) \<and> charport_cetype_ext t = sv_enc (vs ! k)"
proof -
  obtain rb wide es where c: "s = Some (Packed_state rb)" "blocks h rb = Some (pack_raw le wide es)"
    "pack_fits wide es" "vs = pack_views rb wide es"
    using assms by (auto simp: charpack_serves_def)
  have raw: "raw_bytes h rb = pack_raw le wide es" using c(2) by (simp add: raw_bytes_def)
  show thesis
  proof (rule that [of rb "pack_view_of wide es"])
    show "length vs < 2 ^ 63" using pack_fitsD(1) [OF c(3)] by (simp add: c(4))
    show "state_view le s h = Inr (rb, pack_view_of wide es)"
      by (simp add: state_view_def c(1) raw pack_parse_raw [OF c(3)])
    fix k assume "k < length vs"
    then have k: "k < length es" by (simp add: c(4))
    show "\<exists>t b e. pack_record le (raw_bytes h rb) (pack_view_of wide es) k = Inr (t, b, e) \<and>
       tag_at (raw_bytes h rb) (pack_view_of wide es) k = Inr t \<and>
       put_ptr rb (pack_view_of wide es) t b e = sv_ptr (vs ! k) \<and>
       put_len t b e = sv_len (vs ! k) \<and> charport_cetype_ext t = sv_enc (vs ! k)"
      unfolding raw pack_record_ok [OF c(3) k] pack_reads(2) [OF c(3) k] c(4)
      using pack_parts [OF c(3) k] by blast
  qed
qed

text \<open>
  The loops, for a way \<open>put\<close> of writing a record whose \<open>j\<close>th step extends what the output
  \<open>W\<close> holds by the \<open>j\<close>th view.
\<close>

definition puts_views ::
    "(blk \<Rightarrow> pack_view \<Rightarrow> nat \<Rightarrow> u8 \<Rightarrow> u64 \<Rightarrow> u64 \<Rightarrow> 'o \<Rightarrow> fault + 'o) \<Rightarrow> (charport_strview list \<Rightarrow> 'o) \<Rightarrow>
     charport_strview list \<Rightarrow> bool" where
  "puts_views put W ws \<longleftrightarrow>
     (\<forall>rb v j tag b e. j < length ws \<and> put_ptr rb v tag b e = sv_ptr (ws ! j) \<and> put_len tag b e = sv_len (ws ! j) \<and>
        charport_cetype_ext tag = sv_enc (ws ! j) \<longrightarrow>
        put rb v j tag b e (W (take j ws)) = Inr (W (take (Suc j) ws)))"

lemma puts_views_written:
  shows "str_fits (length ws) out \<Longrightarrow> puts_views put_strview (str_written out) ws"
    and "byte_fits (length ws) bout \<Longrightarrow> puts_views put_byteview (byte_written bout) ws"
    and "length ws \<le> length ls \<Longrightarrow> puts_views put_length (\<lambda>ws. patch ls 0 (map sv_len ws)) ws"
  by (simp_all add: puts_views_def put_strview_def put_str_patch put_byteview_def put_byte_patch put_length_def len_patch)

lemma range_access_ok:
  assumes "charpack_serves le s h vs" and fit: "i + n \<le> length vs" and put: "puts_views put W (take n (drop i vs))"
  shows "range_access le put s h (of_nat i) (of_nat n) (W []) = Inr (CHARPORT_STATUS_OK, W (take n (drop i vs)))"
proof -
  obtain rb v where st: "length vs < 2 ^ 63" "state_view le s h = Inr (rb, v)"
    and rec: "\<And>k. k < length vs \<Longrightarrow> \<exists>t b e. pack_record le (raw_bytes h rb) v k = Inr (t, b, e) \<and>
       tag_at (raw_bytes h rb) v k = Inr t \<and> put_ptr rb v t b e = sv_ptr (vs ! k) \<and>
       put_len t b e = sv_len (vs ! k) \<and> charport_cetype_ext t = sv_enc (vs ! k)"
    using assms(1) by (rule charpack_servesE) blast
  define ws where "ws = take n (drop i vs)"
  have n: "n = length ws" "n < 2 ^ 63" using fit st(1) by (simp_all add: ws_def)
  have start: "unat (of_nat i :: R_xlen_t) = i" using fit st(1) by (intro unat_small) simp
  have "and_then (pack_record le (raw_bytes h rb) v (i + j)) (\<lambda>(tag, b, e). put rb v j tag b e (W (take j ws))) =
      Inr (W (take (Suc j) ws))" if j: "j < n" for j
  proof -
    have "vs ! (i + j) = ws ! j" "i + j < length vs" using j fit by (simp_all add: ws_def)
    then obtain t b e where r: "pack_record le (raw_bytes h rb) v (i + j) = Inr (t, b, e)"
      "put_ptr rb v t b e = sv_ptr (ws ! j)" "put_len t b e = sv_len (ws ! j)" "charport_cetype_ext t = sv_enc (ws ! j)"
      using rec [of "i + j"] by auto
    then show ?thesis using put [folded ws_def] j n(1) by (simp add: puts_views_def)
  qed
  then show ?thesis
    unfolding range_access_def range_loop_def ws_def [symmetric] st(2) and_then.simps prod.case start
    by (intro fill_loop_writes [where W = W and vs = ws, OF n])
qed

lemma index_access_ok:
  assumes "charpack_serves le s h vs" and js: "indices_ok js n vs" and put: "puts_views put W (selected_views js n vs)"
  shows "index_access le put s h js (of_nat n) (W []) = Inr (CHARPORT_STATUS_OK, W (selected_views js n vs))"
proof -
  obtain rb v where st: "state_view le s h = Inr (rb, v)"
    and rec: "\<And>k. k < length vs \<Longrightarrow> \<exists>t b e. pack_record le (raw_bytes h rb) v k = Inr (t, b, e) \<and>
       tag_at (raw_bytes h rb) v k = Inr t \<and> put_ptr rb v t b e = sv_ptr (vs ! k) \<and>
       put_len t b e = sv_len (vs ! k) \<and> charport_cetype_ext t = sv_enc (vs ! k)"
    using assms(1) by (rule charpack_servesE) blast
  note i = indices_okD [OF js]
  have "and_then (pack_record le (raw_bytes h rb) v (unat (js ! j)))
      (\<lambda>(tag, b, e). put rb v j tag b e (W (take j (selected_views js n vs)))) =
      Inr (W (take (Suc j) (selected_views js n vs)))" if "j < n" for j
    using rec [OF i(4) [OF that]] put that by (auto simp: puts_views_def i(2) i(5) [OF that])
  then show ?thesis
    unfolding index_access_def index_loop_def st and_then.simps prod.case
    by (intro fill_loop_writes [where W = W and vs = "selected_views js n vs", OF i(2) [symmetric] i(1)]) (simp add: i(3))
qed

lemma charpack_encodings_ok:
  assumes "charpack_serves le s h vs" and m: "n \<le> length cs"
  shows "i + n \<le> length vs \<Longrightarrow>
      charpack_encodings_range le s h (of_nat i) (of_nat n) cs = Inr (CHARPORT_STATUS_OK, patch cs 0 (map sv_enc (take n (drop i vs))))"
    and "indices_ok js n vs \<Longrightarrow>
      charpack_encodings_index le s h js (of_nat n) cs = Inr (CHARPORT_STATUS_OK, patch cs 0 (map sv_enc (selected_views js n vs)))"
proof -
  obtain rb v where st: "length vs < 2 ^ 63" "state_view le s h = Inr (rb, v)"
    and rec: "\<And>k. k < length vs \<Longrightarrow> \<exists>t b e. pack_record le (raw_bytes h rb) v k = Inr (t, b, e) \<and>
       tag_at (raw_bytes h rb) v k = Inr t \<and> put_ptr rb v t b e = sv_ptr (vs ! k) \<and>
       put_len t b e = sv_len (vs ! k) \<and> charport_cetype_ext t = sv_enc (vs ! k)"
    using assms(1) by (rule charpack_servesE) blast
  have tag: "and_then (tag_at (raw_bytes h rb) v k) (\<lambda>t. set_elt_at out j (charport_cetype_ext t)) =
      set_elt_at out j (sv_enc (vs ! k))" if "k < length vs" for k j out
    using rec [OF that] by auto
  show "charpack_encodings_range le s h (of_nat i) (of_nat n) cs =
      Inr (CHARPORT_STATUS_OK, patch cs 0 (map sv_enc (take n (drop i vs))))" if fit: "i + n \<le> length vs"
  proof -
    define ws where "ws = take n (drop i vs)"
    have n: "n = length ws" "n < 2 ^ 63" using fit st(1) by (simp_all add: ws_def)
    have at: "unat (of_nat i + of_nat j :: R_xlen_t) = i + j" if "j < n" for j
      using unat_small [of "i + j"] that fit st(1) by simp
    have ws: "vs ! (i + j) = ws ! j" if "j < n" for j using that fit by (simp add: ws_def)
    show ?thesis
      unfolding charpack_encodings_range_def ws_def [symmetric] st(2) and_then.simps prod.case
      by (rule fill_loop_writes [where W = "\<lambda>vs. patch cs 0 (map sv_enc vs)" and vs = ws, OF n, simplified])
        (use m fit n(1) in \<open>simp add: at ws tag enc_patch\<close>)
  qed
  show "charpack_encodings_index le s h js (of_nat n) cs =
      Inr (CHARPORT_STATUS_OK, patch cs 0 (map sv_enc (selected_views js n vs)))" if js: "indices_ok js n vs"
  proof -
    note i = indices_okD [OF js]
    show ?thesis
      unfolding charpack_encodings_index_def st(2) and_then.simps prod.case
      by (rule fill_loop_writes [where W = "\<lambda>vs. patch cs 0 (map sv_enc vs)" and vs = "selected_views js n vs",
          OF i(2) [symmetric] i(1), simplified])
        (use m in \<open>simp add: i(2,3,4) i(5) [symmetric] tag enc_patch\<close>)
  qed
qed

interpretation charpack_provider: reader_provider "charpack_range_fns le" "charpack_index_fns le" "charpack_serves le"
  for le :: bool
proof unfold_locales
  fix s :: "('a, 'b) provider_state option" and h vs
  assume s: "charpack_serves le s h vs"
  show "length vs < 2 ^ 63" using s by (rule charpack_servesE)
  note range = range_access_ok [OF s] and index = index_access_ok [OF s]
  note defs = access_def charpack_range_fns_def charpack_index_fns_def check_access_def charpack_strviews_range_def
    charpack_byteviews_range_def charpack_lengths_range_def charpack_strviews_index_def charpack_byteviews_index_def
    charpack_lengths_index_def
  fix i n :: nat and out :: str_out and bout :: byte_out and ls :: "c_int list" and cs :: "cetype_ext_t list"
    and js :: "R_xlen_t list"
  show "access (range_strviews (charpack_range_fns le)) (\<lambda>f. f s h (of_nat i) (of_nat n) out) =
      Inr (str_written out (take n (drop i vs)))" if "i + n \<le> length vs" "str_fits n out"
    using range [OF that(1) puts_views_written(1)] that by (simp add: defs)
  show "access (range_byteviews (charpack_range_fns le)) (\<lambda>f. f s h (of_nat i) (of_nat n) bout) =
      Inr (byte_written bout (take n (drop i vs)))" if "i + n \<le> length vs" "byte_fits n bout"
    using range [OF that(1) puts_views_written(2)] that by (simp add: defs)
  show "access (range_lengths (charpack_range_fns le)) (\<lambda>f. f s h (of_nat i) (of_nat n) ls) =
      Inr (patch ls 0 (map sv_len (take n (drop i vs))))" if "i + n \<le> length vs" "n \<le> length ls"
    using range [OF that(1) puts_views_written(3)] that by (simp add: defs)
  show "access (range_encodings (charpack_range_fns le)) (\<lambda>f. f s h (of_nat i) (of_nat n) cs) =
      Inr (patch cs 0 (map sv_enc (take n (drop i vs))))" if "i + n \<le> length vs" "n \<le> length cs"
    by (simp add: defs charpack_encodings_ok(1) [OF s that(2,1)])
  show "access (index_strviews (charpack_index_fns le)) (\<lambda>f. f s h js (of_nat n) out) =
      Inr (str_written out (selected_views js n vs))" if "indices_ok js n vs" "str_fits n out"
    using index [OF that(1) puts_views_written(1)] that by (simp add: defs indices_okD)
  show "access (index_byteviews (charpack_index_fns le)) (\<lambda>f. f s h js (of_nat n) bout) =
      Inr (byte_written bout (selected_views js n vs))" if "indices_ok js n vs" "byte_fits n bout"
    using index [OF that(1) puts_views_written(2)] that by (simp add: defs indices_okD)
  show "access (index_lengths (charpack_index_fns le)) (\<lambda>f. f s h js (of_nat n) ls) =
      Inr (patch ls 0 (map sv_len (selected_views js n vs)))" if "indices_ok js n vs" "n \<le> length ls"
    using index [OF that(1) puts_views_written(3)] that by (simp add: defs indices_okD)
  show "access (index_encodings (charpack_index_fns le)) (\<lambda>f. f s h js (of_nat n) cs) =
      Inr (patch cs 0 (map sv_enc (selected_views js n vs)))" if "indices_ok js n vs" "n \<le> length cs"
    by (simp add: defs charpack_encodings_ok(2) [OF s that(2,1)])
qed

section \<open>charpack and the registry\<close>

text \<open>Well-formed instances: a filled one holds the bytes of its strings, an unfilled one has none.\<close>

definition charpack_objects_ok ::
    "bool \<Rightarrow> ('x, 'k, 'c, 'w) r_vectors \<Rightarrow> ('w \<Rightarrow> 'x \<Rightarrow> element list) \<Rightarrow> 'k \<Rightarrow> ('w \<Rightarrow> 'x \<Rightarrow> 'c charpack) \<Rightarrow> bool" where
  "charpack_objects_ok le V elems cls charpack_of \<longleftrightarrow>
     (\<forall>w x. is_STRSXP V w x \<and> R_altrep_inherits V w x (Some cls) \<and> cp_data2 (charpack_of w x) = None \<longrightarrow>
        (case cp_data1 (charpack_of w x) of
           None \<Rightarrow> elems w x = []
         | Some rb \<Rightarrow> \<exists>wide. blocks (heap_of V w) rb = Some (pack_raw le wide (elems w x)) \<and> pack_fits wide (elems w x)))"

lemma charpack_reader_reads:
  assumes raw: "blocks (heap_of V w) rb = Some (pack_raw le wide (elems w x))" "pack_fits wide (elems w x)"
    and r: "rd_state r = Some (Packed_state rb)" "rd_range r = charpack_range_fns le" "rd_index r = charpack_index_fns le"
      "rd_n r = of_nat (length (elems w x))"
  shows "reads_strings V elems w x r"
proof -
  have s: "charpack_serves le (Some (Packed_state rb)) (heap_of V w) (pack_views rb wide (elems w x))"
    using raw by (auto simp: charpack_serves_def)
  have "reads r (heap_of V w) (pack_views rb wide (elems w x))"
    by (rule charpack_provider.reads_provided [OF s]) (use r in simp_all)
  with pack_view_content [OF raw] show ?thesis by (auto simp: reads_strings_def)
qed

lemma charpack_entry_ok:
  fixes V :: "('x, 'k, 'c, 'w) r_vectors"
  assumes "charpack_objects_ok le V elems cls charpack_of"
  shows "entry_ok V elems (charpack_entry le cls charpack_of :: ('x, 'k, 'w, ('c, 's) provider_state, 'f) altrep_entry)"
    (is "entry_ok V elems ?e")
proof -
  have "init_ok V elems ?e w x (Inr (charpack_reader_init (charpack_of w x)), w)"
    if x: "is_STRSXP V w x" "R_altrep_inherits V w x (Some cls)" for w x
  proof (cases "cp_data2 (charpack_of w x) = None \<and> cp_data1 (charpack_of w x) \<noteq> None")
    case True
    then obtain rb wide where c: "cp_data1 (charpack_of w x) = Some rb"
      "blocks (heap_of V w) rb = Some (pack_raw le wide (elems w x))" "pack_fits wide (elems w x)"
      using assms x unfolding charpack_objects_ok_def by fastforce
    then show ?thesis using True
      by (auto simp: init_ok_def charpack_reader_init_def charpack_entry_def
          intro: charpack_reader_reads [of V w rb le wide elems x, OF c(2,3)])
  qed (auto simp: init_ok_def charpack_reader_init_def split: option.splits)
  then show ?thesis by (simp add: entry_ok_def class_promise_def charpack_entry_def)
qed

lemmas charpack_entry_promise = charpack_entry_ok [unfolded entry_ok_def, THEN conjunct2, THEN conjunct2]

lemma charpack_entry_complete: "entry_complete (charpack_entry le cls charpack_of)"
  by (simp add: charpack_entry_def entry_complete_def range_fns_complete_def index_fns_complete_def charpack_range_fns_def
      charpack_index_fns_def)

text \<open>C23. Registering the charpack class keeps the registry well formed, and from then on a
  filled charpack is read in place: resolving it changes nothing in R, gives a reader whose state is
  the raw vector, which allocates and owns nothing, and that reader reads exactly the strings. An
  unfilled or materialized one is read through R's data pointer.\<close>

theorem charpack_read_in_place:
  fixes V :: "('x, 'k, 'c, 'w) r_vectors" and reg :: "('x, 'k, 'w, ('c, 's) provider_state, 'f) altrep_entry list"
  assumes reg: "registry_ok V elems reg" and objects: "charpack_objects_ok le V elems cls charpack_of"
    and run: "C_register_charpack le cls charpack_of reg h = (Inr (), reg', h')"
    and n: "Rf_xlength V w x = of_nat (length (elems w x))"
    and x: "is_STRSXP V w x" "ALTREP V w x" "\<And>c. R_altrep_inherits V w x c \<longleftrightarrow> c = Some cls"
  shows "registry_ok V elems reg' \<and>
    (case (cp_data2 (charpack_of w x), cp_data1 (charpack_of w x)) of
       (None, Some rb) \<Rightarrow>
         \<exists>r. charport_resolve V R reg' x w = (Inr r, w) \<and> rd_state r = Some (Packed_state rb) \<and>
             rd_release r = None \<and> persistent_views (rd_capabilities r) \<and> concurrent_access (rd_capabilities r) \<and>
             reads_strings V elems w x r
     | _ \<Rightarrow>
         charport_resolve V R reg' x w =
           (case STRING_PTR_RO V x w of
              (Inl e, w') \<Rightarrow> (Inl e, w')
            | (Inr direct, w') \<Rightarrow> (Inr (direct_reader R (Rf_xlength V w x) direct), w')))"
proof -
  let ?e = "charpack_entry le cls charpack_of :: ('x, 'k, 'w, ('c, 's) provider_state, 'f) altrep_entry"
  have "registry_ok V elems reg' \<and> reg' = reg @ [?e]"
    using register_ok [OF reg run [unfolded C_register_charpack_def] charpack_entry_promise [OF objects]]
    unfolding sum.case by blast
  then have reg': "registry_ok V elems reg'" "reg' = reg @ [?e]" by blast+
  have "find_registered_altrep V w x reg' = Some ?e"
    by (rule find_registered_unique) (use reg' x(3) in \<open>auto simp: registry_ok_def charpack_entry_def\<close>)
  then have resolve: "charport_resolve V R reg' x w =
      (case charpack_reader_init (charpack_of w x) of
         Some s \<Rightarrow>
           (Inr \<lparr>rd_n = Rf_xlength V w x, rd_state = Some s, rd_release = None, rd_range = charpack_range_fns le,
                 rd_index = charpack_index_fns le,
                 rd_capabilities = \<lparr>persistent_views = True, concurrent_access = True\<rparr>\<rparr>, w)
       | None \<Rightarrow>
           (case STRING_PTR_RO V x w of
              (Inl e, w') \<Rightarrow> (Inl e, w')
            | (Inr direct, w') \<Rightarrow> (Inr (direct_reader R (Rf_xlength V w x) direct), w')))"
    using x(1,2)
    by (simp add: charport_resolve_def resolve_registered_def charpack_entry_def Let_def reader_default_def
        split: option.split sum.split prod.split)
  show ?thesis
  proof (cases "cp_data2 (charpack_of w x) = None \<and> cp_data1 (charpack_of w x) \<noteq> None")
    case True
    then obtain rb wide where c: "cp_data1 (charpack_of w x) = Some rb"
      "blocks (heap_of V w) rb = Some (pack_raw le wide (elems w x))" "pack_fits wide (elems w x)"
      using objects [unfolded charpack_objects_ok_def, rule_format, of w x] x(1,3) by auto
    have init: "charpack_reader_init (charpack_of w x) = (Some (Packed_state rb) :: ('c, 's) provider_state option)"
      using True c(1) by (simp add: charpack_reader_init_def)
    note reads = charpack_reader_reads [of V w rb le wide elems x, OF c(2,3)]
    show ?thesis
      unfolding resolve init using reg'(1) True c(1) n by (simp add: reads)
  next
    case False
    then have "charpack_reader_init (charpack_of w x) = (None :: ('c, 's) provider_state option)"
      by (cases "cp_data2 (charpack_of w x)") (simp_all add: charpack_reader_init_def)
    with False show ?thesis
      using reg'(1) by (cases "cp_data2 (charpack_of w x)") (simp_all add: resolve)
  qed
qed

definition demo_pack_heap :: heap where
  "demo_pack_heap = demo_heap\<lparr>blocks := [5 \<mapsto> pack_raw True False (demo_elems () 0)]\<rparr>"

definition demo_pack :: "unit \<Rightarrow> nat \<Rightarrow> (u8 list \<times> cetype_t) option charpack" where
  "demo_pack w x = \<lparr>cp_data1 = Some 5, cp_data2 = None\<rparr>"

theorem charpack_read_in_place_witness:
  "\<exists>reg h r. C_register_charpack True (0 :: nat) demo_pack [] demo_pack_heap = (Inr (), reg, h) \<and>
     charport_resolve (demo_vectors demo_pack_heap) demo_R (reg :: (nat, nat, unit, demo_state, unit) altrep_entry list) 0 () =
       (Inr r, ()) \<and>
     rd_state r = Some (Packed_state 5) \<and> reads_strings (demo_vectors demo_pack_heap) demo_elems () 0 r"
proof -
  have fits: "pack_fits False (demo_elems () 0)"
    by (simp add: demo_elems_def pack_fits_def state_payload_def header_bytes_def offset_bytes_def cetype_defs valid_view_encoding_def)
  have objects: "charpack_objects_ok True (demo_vectors demo_pack_heap) demo_elems 0 demo_pack"
    using fits unfolding charpack_objects_ok_def
    by (auto simp: demo_pack_def demo_vectors_def demo_pack_heap_def demo_elems_def
        simp del: One_nat_def intro!: exI [of _ False])
  obtain reg :: "(nat, nat, unit, demo_state, unit) altrep_entry list" and h where
    run: "C_register_charpack True 0 demo_pack [] demo_pack_heap = (Inr (), reg, h)"
    by (simp add: C_register_charpack_def charport_register_altrep_def charpack_entry_def range_fns_complete_def
        index_fns_complete_def charpack_range_fns_def charpack_index_fns_def try_alloc_def demo_pack_heap_def demo_heap_def)
  have "registry_ok (demo_vectors demo_pack_heap) demo_elems []" by (simp add: registry_ok_def)
  from charpack_read_in_place [OF this objects run, where w = "()" and x = 0 and R = demo_R] run
  show ?thesis by (auto simp: demo_vectors_def demo_elems_def demo_pack_def)
qed

end
