(* ===== verification/Cp_Packfill.thy ===== *)
theory Cp_Packfill
  imports Cp_Packread Cp_Wrap
begin

text \<open>
  Filling a charpack, \<open>src/charpack_api.cpp\<close>: an unfilled placeholder is given the strings of an
  array of views, or the bytes of a chain of slices with an array of lengths, in one raw vector
  that is installed last. Arguments that may be \<open>NULL\<close> are options; the instance is \<open>None\<close> for
  an object that is not a charpack, and what an operation leaves in it is returned beside its result.
\<close>

section \<open>Checks\<close>

definition fill_prefix :: string where "fill_prefix = ''charport charpack ''"

definition check_unfilled :: "'c charpack option \<Rightarrow> string \<Rightarrow> fault + 'c charpack" where
  "check_unfilled x op =
     (case x of
        None \<Rightarrow> Inl (R_error (fill_prefix @ op @ '': x must be a charpack''))
      | Some c \<Rightarrow>
          if \<not> charpack_is_unfilled c
          then Inl (R_error (fill_prefix @ op @ '': x is not an unfilled placeholder'')) else Inr c)"

definition record_is_na :: "c_int \<Rightarrow> cetype_ext_t \<Rightarrow> bool" where
  "record_is_na len enc \<longleftrightarrow> len = NA_INTEGER \<or> enc = CETYPE_EXT_NA"

text \<open>Whether record \<open>i\<close> is NA; without pointers only its length and encoding say so.\<close>

definition fill_is_na :: "ptr list option \<Rightarrow> c_int list \<Rightarrow> cetype_ext_t list \<Rightarrow> nat \<Rightarrow> fault + bool" where
  "fill_is_na ptrs lengths encodings i =
     and_then (elt_at lengths i) (\<lambda>len. and_then (elt_at encodings i) (\<lambda>enc.
       case ptrs of
         None \<Rightarrow> Inr (record_is_na len enc)
       | Some ps \<Rightarrow> and_then (elt_at ps i) (\<lambda>p. Inr (view_is_na p len enc))))"

definition checked_payload_step ::
    "ptr list option \<Rightarrow> c_int list \<Rightarrow> cetype_ext_t list \<Rightarrow> string \<Rightarrow> nat \<Rightarrow> size_t \<Rightarrow> fault + size_t" where
  "checked_payload_step ptrs lengths encodings op i tot =
     and_then (elt_at encodings i) (\<lambda>enc.
       if \<not> valid_view_encoding enc
       then Inl (R_error (fill_prefix @ op @ '': invalid encoding at index '' @ decimal i))
       else and_then (fill_is_na ptrs lengths encodings i) (\<lambda>na.
         if na then Inr tot
         else and_then (elt_at lengths i) (\<lambda>l.
           if sint l < 0 then Inl (R_error (fill_prefix @ op @ '': negative length at index '' @ decimal i))
           else let len = scast l :: size_t
                in if tot > SIZE_MAX - len then Inl (R_error (fill_prefix @ op @ '': total size overflows''))
                   else Inr (tot + len))))"

definition checked_payload ::
    "R_xlen_t \<Rightarrow> ptr list option \<Rightarrow> c_int list \<Rightarrow> cetype_ext_t list \<Rightarrow> string \<Rightarrow> fault + size_t" where
  "checked_payload n ptrs lengths encodings op =
     for_each (checked_payload_step ptrs lengths encodings op) [0..<nat (sint n)] 0"

section \<open>Writing the head, the end offsets and the tags\<close>

text \<open>
  One record: \<open>end\<close> is an \<open>Offset\<close>, of 64 bits when \<open>wide\<close> and otherwise of 32 (here zero
  extended), and grows at that width.
\<close>

definition next_end :: "bool \<Rightarrow> u64 \<Rightarrow> c_int \<Rightarrow> u64" where
  "next_end wide e len = (if wide then e + scast len else ucast ((ucast e :: u32) + len))"

definition write_record_step ::
    "bool \<Rightarrow> bool \<Rightarrow> ptr list option \<Rightarrow> c_int list \<Rightarrow> cetype_ext_t list \<Rightarrow> nat \<Rightarrow> nat \<Rightarrow> nat \<Rightarrow> u8 list \<times> u64 \<Rightarrow>
     fault + u8 list \<times> u64" where
  "write_record_step le wide ptrs lengths encodings ends encs i s =
     (case s of (raw, e) \<Rightarrow>
        and_then (fill_is_na ptrs lengths encodings i) (\<lambda>na.
        and_then (elt_at lengths i) (\<lambda>len. and_then (elt_at encodings i) (\<lambda>enc.
          let e' = (if na then e else next_end wide e len)
          in and_then (write_end le raw ends wide i e') (\<lambda>raw1.
             and_then (put_bytes raw1 (encs + i) [if na then tag_value CETYPE_EXT_NA else tag_value enc]) (\<lambda>raw2.
               Inr (raw2, e')))))))"

definition write_records ::
    "bool \<Rightarrow> bool \<Rightarrow> nat \<Rightarrow> ptr list option \<Rightarrow> c_int list \<Rightarrow> cetype_ext_t list \<Rightarrow> nat \<Rightarrow> nat \<Rightarrow> u8 list \<Rightarrow>
     fault + u8 list" where
  "write_records le wide cnt ptrs lengths encodings ends encs raw =
     and_then (for_each (write_record_step le wide ptrs lengths encodings ends encs) [0..<cnt] (raw, 0))
       (\<lambda>s. Inr (fst s))"

definition alloc_data1 ::
    "bool \<Rightarrow> R_xlen_t \<Rightarrow> ptr list option \<Rightarrow> c_int list \<Rightarrow> cetype_ext_t list \<Rightarrow> size_t \<Rightarrow> bool \<Rightarrow> string \<Rightarrow> heap \<Rightarrow>
     (fault + blk) \<times> heap" where
  "alloc_data1 le n ptrs lengths encodings payload force_wide op h =
     (let wide = (force_wide \<or> needs_wide payload); tot = total_bytes n payload wide
      in if tot = 0
         then (Inl (R_error (fill_prefix @ op @ '': vector exceeds the maximum raw vector size'')), h)
         else
           (case alloc_raw_vector (unat tot) h of
              (Inl e, h1) \<Rightarrow> (Inl e, h1)
            | (Inr rb, h1) \<Rightarrow>
                (case and_then (write_head le (raw_bytes h1 rb) n wide)
                        (write_records le wide (unat n) ptrs lengths encodings header_bytes
                           (header_bytes + offset_bytes wide * unat n)) of
                   Inl e \<Rightarrow> (Inl e, h1)
                 | Inr raw \<Rightarrow> (Inr rb, h1\<lparr>blocks := (blocks h1)(rb \<mapsto> raw)\<rparr>))))"

section \<open>Copying the bytes\<close>

definition payload_start :: "bool \<Rightarrow> u8 list \<Rightarrow> fault + nat" where
  "payload_start le raw = and_then (pack_parse le raw) (\<lambda>v. Inr (pv_bytes v))"

text \<open>\<open>memcpy(dest, src, n)\<close> into the raw vector at offset \<open>dest\<close>, then \<open>dest += n\<close>.\<close>

definition copy_in :: "heap \<Rightarrow> ptr \<Rightarrow> nat \<Rightarrow> u8 list \<times> nat \<Rightarrow> fault + u8 list \<times> nat" where
  "copy_in h src n s =
     (case s of (raw, dest) \<Rightarrow>
        (case mem_read h src n of
           None \<Rightarrow> Inl Undefined
         | Some bs \<Rightarrow> and_then (put_bytes raw dest bs) (\<lambda>raw'. Inr (raw', dest + n))))"

definition copy_view_step ::
    "heap \<Rightarrow> ptr list \<Rightarrow> c_int list \<Rightarrow> cetype_ext_t list \<Rightarrow> nat \<Rightarrow> u8 list \<times> nat \<Rightarrow> fault + u8 list \<times> nat" where
  "copy_view_step h ptrs lengths encodings i s =
     and_then (elt_at ptrs i) (\<lambda>p. and_then (elt_at lengths i) (\<lambda>len. and_then (elt_at encodings i) (\<lambda>enc.
       if view_is_na p len enc \<or> len = 0 then Inr s else copy_in h p (unat (scast len :: size_t)) s)))"

definition copy_slice_step ::
    "heap \<Rightarrow> ptr list \<Rightarrow> size_t list \<Rightarrow> nat \<Rightarrow> u8 list \<times> nat \<Rightarrow> fault + u8 list \<times> nat" where
  "copy_slice_step h slices nbytes k s =
     and_then (elt_at nbytes k) (\<lambda>n.
       if 0 < n then and_then (elt_at slices k) (\<lambda>p. copy_in h p (unat n) s) else Inr s)"

text \<open>A loop that fills the payload of the raw vector \<open>rb\<close>.\<close>

definition fill_payload ::
    "bool \<Rightarrow> blk \<Rightarrow> (nat \<Rightarrow> u8 list \<times> nat \<Rightarrow> fault + u8 list \<times> nat) \<Rightarrow> nat \<Rightarrow> heap \<Rightarrow> (fault + unit) \<times> heap" where
  "fill_payload le rb body n h =
     (case and_then (payload_start le (raw_bytes h rb)) (\<lambda>dest. for_each body [0..<n] (raw_bytes h rb, dest)) of
        Inl e \<Rightarrow> (Inl e, h)
      | Inr s \<Rightarrow> (Inr (), h\<lparr>blocks := (blocks h)(rb \<mapsto> fst s)\<rparr>))"

section \<open>The fills\<close>

definition fill_views ::
    "bool \<Rightarrow> 'c charpack option \<Rightarrow> R_xlen_t \<Rightarrow> ptr list option \<Rightarrow> c_int list option \<Rightarrow> cetype_ext_t list option \<Rightarrow>
     bool \<Rightarrow> heap \<Rightarrow> (fault + unit) \<times> 'c charpack option \<times> heap" where
  "fill_views le x n ptrs lengths encodings force_wide h =
     (let op = ''fill_views''
      in case check_unfilled x op of
           Inl e \<Rightarrow> (Inl e, x, h)
         | Inr c \<Rightarrow>
             if sint n < 0 then (Inl (R_error (fill_prefix @ op @ '': negative length'')), x, h)
             else if 0 < sint n \<and> (ptrs = None \<or> lengths = None \<or> encodings = None)
             then (Inl (R_error (fill_prefix @ op @ '': input arrays must not be NULL'')), x, h)
             else
               let ls = (case lengths of None \<Rightarrow> [] | Some xs \<Rightarrow> xs); cs = (case encodings of None \<Rightarrow> [] | Some xs \<Rightarrow> xs);
                   ps = (case ptrs of None \<Rightarrow> [] | Some xs \<Rightarrow> xs)
               in case checked_payload n ptrs ls cs op of
                    Inl e \<Rightarrow> (Inl e, x, h)
                  | Inr payload \<Rightarrow>
                      (case alloc_data1 le n ptrs ls cs payload force_wide op h of
                         (Inl e, h1) \<Rightarrow> (Inl e, x, h1)
                       | (Inr rb, h1) \<Rightarrow>
                           (case fill_payload le rb (copy_view_step h1 ps ls cs) (unat n) h1 of
                              (Inl e, h2) \<Rightarrow> (Inl e, x, h2)
                            | (Inr u, h2) \<Rightarrow> (Inr (), Some (c\<lparr>cp_data1 := Some rb\<rparr>), h2))))"

text \<open>The sum of the sizes of the slices.\<close>

definition sliced_step :: "ptr list \<Rightarrow> size_t list \<Rightarrow> string \<Rightarrow> nat \<Rightarrow> size_t \<Rightarrow> fault + size_t" where
  "sliced_step slices nbytes op k sliced =
     and_then (elt_at nbytes k) (\<lambda>n.
     and_then (if n > 0 then and_then (elt_at slices k) (\<lambda>p. Inr (p = Null)) else Inr False) (\<lambda>missing.
       if missing then Inl (R_error (fill_prefix @ op @ '': slice '' @ decimal k @ '' is NULL''))
       else if sliced > SIZE_MAX - n then Inl (R_error (fill_prefix @ op @ '': total slice size overflows''))
       else Inr (sliced + n)))"

definition fill_slices ::
    "bool \<Rightarrow> 'c charpack option \<Rightarrow> R_xlen_t \<Rightarrow> c_int list option \<Rightarrow> cetype_ext_t list option \<Rightarrow>
     R_xlen_t \<Rightarrow> ptr list option \<Rightarrow> size_t list option \<Rightarrow> bool \<Rightarrow> heap \<Rightarrow>
     (fault + unit) \<times> 'c charpack option \<times> heap" where
  "fill_slices le x n lengths encodings n_slices slices nbytes force_wide h =
     (let op = ''fill_slices''
      in case check_unfilled x op of
           Inl e \<Rightarrow> (Inl e, x, h)
         | Inr c \<Rightarrow>
             if sint n < 0 \<or> sint n_slices < 0 then (Inl (R_error (fill_prefix @ op @ '': negative length'')), x, h)
             else if 0 < sint n \<and> (lengths = None \<or> encodings = None)
             then (Inl (R_error (fill_prefix @ op @ '': input arrays must not be NULL'')), x, h)
             else if 0 < sint n_slices \<and> (slices = None \<or> nbytes = None)
             then (Inl (R_error (fill_prefix @ op @ '': slice arrays must not be NULL'')), x, h)
             else
               let ls = (case lengths of None \<Rightarrow> [] | Some xs \<Rightarrow> xs); cs = (case encodings of None \<Rightarrow> [] | Some xs \<Rightarrow> xs);
                   ss = (case slices of None \<Rightarrow> [] | Some xs \<Rightarrow> xs); bs = (case nbytes of None \<Rightarrow> [] | Some xs \<Rightarrow> xs)
               in case checked_payload n None ls cs op of
                    Inl e \<Rightarrow> (Inl e, x, h)
                  | Inr payload \<Rightarrow>
                      (case for_each (sliced_step ss bs op) [0..<unat n_slices] 0 of
                         Inl e \<Rightarrow> (Inl e, x, h)
                       | Inr sliced \<Rightarrow>
                           if sliced \<noteq> payload
                           then (Inl (R_error (fill_prefix @ op @ '': slices hold '' @ decimal (unat sliced) @
                                   '' bytes but the lengths need '' @ decimal (unat payload))), x, h)
                           else
                             (case alloc_data1 le n None ls cs payload force_wide op h of
                                (Inl e, h1) \<Rightarrow> (Inl e, x, h1)
                              | (Inr rb, h1) \<Rightarrow>
                                  (case fill_payload le rb (copy_slice_step h1 ss bs) (unat n_slices) h1 of
                                     (Inl e, h2) \<Rightarrow> (Inl e, x, h2)
                                   | (Inr u, h2) \<Rightarrow> (Inr (), Some (c\<lparr>cp_data1 := Some rb\<rparr>), h2)))))"

definition charport_charpack_placeholder_impl :: "heap \<Rightarrow> (fault + 'c charpack) \<times> heap" where
  "charport_charpack_placeholder_impl h =
     (case alloc_object h of
        (Inl e, h1) \<Rightarrow> (Inl e, h1)
      | (Inr u, h1) \<Rightarrow> (Inr \<lparr>cp_data1 = None, cp_data2 = None\<rparr>, h1))"

definition charport_charpack_fill_views_impl where
  "charport_charpack_fill_views_impl le x n ptrs lengths encodings h =
     fill_views le x n ptrs lengths encodings False h"

definition charport_charpack_fill_slices_impl where
  "charport_charpack_fill_slices_impl le x n lengths encodings n_slices slices nbytes h =
     fill_slices le x n lengths encodings n_slices slices nbytes False h"

definition charport_charpack_fill_materialized_na_impl ::
    "'c r_strings \<Rightarrow> 'c charpack option \<Rightarrow> R_xlen_t \<Rightarrow> heap \<Rightarrow> (fault + 'c list) \<times> 'c charpack option \<times> heap" where
  "charport_charpack_fill_materialized_na_impl R x n h =
     (let op = ''fill_materialized_na''
      in case check_unfilled x op of
           Inl e \<Rightarrow> (Inl e, x, h)
         | Inr c \<Rightarrow>
             if sint n < 0 then (Inl (R_error (fill_prefix @ op @ '': negative length'')), x, h)
             else (case allocVector (8 * unat n) h of
                     (Inl e, h1) \<Rightarrow> (Inl e, x, h1)
                   | (Inr u, h1) \<Rightarrow>
                       (let strings = replicate (unat n) (NA_STRING R)
                        in (Inr strings, Some (c\<lparr>cp_data2 := Some strings\<rparr>), h1))))"

section \<open>Partly written raw vectors\<close>

text \<open>\<open>raw\<close> already has the bytes of \<open>W\<close> at the positions \<open>S\<close>.\<close>

definition agrees :: "u8 list \<Rightarrow> u8 list \<Rightarrow> nat set \<Rightarrow> bool" where
  "agrees W raw S \<longleftrightarrow> length raw = length W \<and> (\<forall>k \<in> S. k < length W \<longrightarrow> raw ! k = W ! k)"

lemma agrees_subset: "agrees W raw S \<Longrightarrow> T \<subseteq> S \<Longrightarrow> agrees W raw T"
  by (auto simp: agrees_def)

lemma agrees_all: "agrees W raw {..<length W} \<Longrightarrow> raw = W"
  by (auto simp: agrees_def intro: nth_equalityI)

lemma put_bytes_agrees:
  assumes raw: "agrees W raw S" and fit: "off + length ys \<le> length W" and ys: "take (length ys) (drop off W) = ys"
  obtains raw' where "put_bytes raw off ys = Inr raw'" "agrees W raw' (S \<union> {off..<off + length ys})"
proof (rule that)
  have l: "length raw = length W" using raw by (simp add: agrees_def)
  then show "put_bytes raw off ys = Inr (patch raw off ys)" using fit by (simp add: put_bytes_def)
  have W: "W ! k = ys ! (k - off)" if "off \<le> k" "k < off + length ys" for k
  proof -
    have "W ! k = take (length ys) (drop off W) ! (k - off)" using that fit by simp
    then show ?thesis unfolding ys .
  qed
  show "agrees W (patch raw off ys) (S \<union> {off..<off + length ys})"
    using raw l fit by (auto simp: agrees_def nth_patch W)
qed

lemma pack_parse_agrees:
  assumes "agrees W raw {..<8}" and "8 \<le> length W"
  shows "pack_parse le raw = pack_parse le W"
proof -
  have "take 8 raw = take 8 W" using assms by (intro nth_equalityI) (auto simp: agrees_def)
  moreover have "length raw = length W" using assms(1) by (simp add: agrees_def)
  ultimately show ?thesis by (simp add: pack_parse_def charvec_read_u64_def get_bytes_def)
qed

section \<open>What the checks accept\<close>

text \<open>Arrays that describe the strings \<open>es\<close>, and what the checks ask of one record.\<close>

definition describes :: "ptr list option \<Rightarrow> c_int list \<Rightarrow> cetype_ext_t list \<Rightarrow> element list \<Rightarrow> bool" where
  "describes ptrs ls cs es \<longleftrightarrow>
     length ls = length es \<and> length cs = length es \<and> list_all storable es \<and>
     (\<forall>i < length es. fill_is_na ptrs ls cs i = Inr (es ! i = NA) \<and>
        (es ! i \<noteq> NA \<longrightarrow> tag_value (cs ! i) = elem_tag (es ! i) \<and> unat (ls ! i) = length (elem_bytes (es ! i))))"

definition record_fit :: "bool \<Rightarrow> c_int list \<Rightarrow> cetype_ext_t list \<Rightarrow> nat \<Rightarrow> bool" where
  "record_fit na ls cs i \<longleftrightarrow> valid_view_encoding (cs ! i) \<and> (na \<or> 0 \<le> sint (ls ! i))"

lemma sint_of_nat_small: "n < 2 ^ 63 \<Longrightarrow> nat (sint (of_nat n :: R_xlen_t)) = n"
  by (simp add: sint_uint signed_take_bit_int_eq_self unsigned_of_nat take_bit_nat_eq_self)

text \<open>The overflow test \<open>a > SIZE_MAX - b\<close>.\<close>

lemma sum_overflows: "a > SIZE_MAX - b \<longleftrightarrow> 18446744073709551616 \<le> unat a + unat b"
proof -
  have "unat (SIZE_MAX - b) = 18446744073709551615 - unat b"
    by (subst unat_sub_word) (simp_all add: word_le_nat_alt unat_u64_bound Suc_leI less_Suc_eq_le [symmetric])
  then show ?thesis using unat_u64_bound [of b] by (simp add: word_less_nat_alt) linarith
qed

lemma checked_payload_result:
  fixes na :: "nat \<Rightarrow> bool" and ls cs
  defines "sz \<equiv> \<lambda>i. if na i then 0 else unat (ls ! i)"
  assumes len: "length ls = n" "length cs = n" "n < 2 ^ 63"
    and na: "\<And>i. i < n \<Longrightarrow> fill_is_na ptrs ls cs i = Inr (na i)"
  shows "case checked_payload (of_nat n) ptrs ls cs op of
      Inl e \<Rightarrow> (\<exists>m. e = R_error m) \<and> ((\<exists>i < n. \<not> record_fit (na i) ls cs i) \<or> 18446744073709551616 \<le> before sz n)
    | Inr tot \<Rightarrow> (\<forall>i < n. record_fit (na i) ls cs i) \<and> unat tot = before sz n"
  unfolding checked_payload_def sint_of_nat_small [OF len(3)]
proof (rule for_each_result [where P = "\<lambda>k tot. (\<forall>i < k. record_fit (na i) ls cs i) \<and> unat tot = before sz k"])
  fix k and tot :: size_t
  assume k: "0 \<le> k" "k < n" and P: "(\<forall>i < k. record_fit (na i) ls cs i) \<and> unat tot = before sz k"
  have elts: "elt_at cs k = Inr (cs ! k)" "elt_at ls k = Inr (ls ! k)" using k len by (simp_all add: elt_at_def)
  have mono: "before sz k + sz k \<le> before sz n" using before_mono [of "Suc k" n sz] k by simp
  show "case checked_payload_step ptrs ls cs op k tot of
      Inl e \<Rightarrow> (\<exists>m. e = R_error m) \<and> ((\<exists>i < n. \<not> record_fit (na i) ls cs i) \<or> 18446744073709551616 \<le> before sz n)
    | Inr tot' \<Rightarrow> (\<forall>i < Suc k. record_fit (na i) ls cs i) \<and> unat tot' = before sz (Suc k)"
  proof (cases "record_fit (na k) ls cs k")
    case False
    then have "\<exists>m. checked_payload_step ptrs ls cs op k tot = Inl (R_error m)"
      using na [OF k(2)] elts by (auto simp: checked_payload_step_def record_fit_def)
    with False k(2) show ?thesis by auto
  next
    case True
    show ?thesis
    proof (cases "na k")
      case na': True
      then have "checked_payload_step ptrs ls cs op k tot = Inr tot"
        using na [OF k(2)] elts True by (simp add: checked_payload_step_def record_fit_def)
      then show ?thesis using P True na' by (auto simp: sz_def less_Suc_eq)
    next
      case False
      let ?l = "scast (ls ! k) :: size_t"
      have l: "unat ?l = unat (ls ! k)" using True False by (simp add: record_fit_def sint_nonneg_iff unat_scast_nonneg)
      have step: "checked_payload_step ptrs ls cs op k tot =
          (if tot > SIZE_MAX - ?l then Inl (R_error (fill_prefix @ op @ '': total size overflows'')) else Inr (tot + ?l))"
        using na [OF k(2)] elts True False by (simp add: checked_payload_step_def record_fit_def Let_def)
      have over: "tot > SIZE_MAX - ?l \<longleftrightarrow> 18446744073709551616 \<le> unat tot + unat ?l"
        by (rule sum_overflows)
      show ?thesis
      proof (cases "tot > SIZE_MAX - ?l")
        case True
        then show ?thesis using step over l P mono False by (simp add: sz_def)
      next
        case fit: False
        then have "unat (tot + ?l) = unat tot + unat ?l" using over by (intro unat_add_u64) simp
        then show ?thesis using step fit P l False \<open>record_fit (na k) ls cs k\<close>
          by (auto simp: sz_def less_Suc_eq)
      qed
    qed
  qed
qed simp_all

lemma total_bytes_spec:
  "total_bytes n payload wide =
     (if header_bytes + unat n * (offset_bytes wide + 1) + unat payload \<le> 4503599627370496
      then of_nat (header_bytes + unat n * (offset_bytes wide + 1) + unat payload) else 0)"
proof -
  define p where "p = offset_bytes wide + 1"
  have p: "p = 5 \<or> p = 9" "unat (of_nat (offset_bytes wide) + 1 :: size_t) = p"
    by (auto simp: p_def offset_bytes_def)
  have "unat ((R_XLEN_T_MAX - of_nat header_bytes) div (of_nat (offset_bytes wide) + 1)) = 4503599627370488 div p"
    unfolding unat_div p(2) by (simp add: header_bytes_def)
  then have many: "n > (R_XLEN_T_MAX - of_nat header_bytes) div (of_nat (offset_bytes wide) + 1) \<longleftrightarrow>
      4503599627370488 < unat n * p"
    using p(1) by (simp only: word_less_nat_alt) (auto simp: div_less_iff_less_mult)
  define meta :: size_t where "meta = of_nat header_bytes + n * (of_nat (offset_bytes wide) + 1)"
  show ?thesis
  proof (cases "4503599627370488 < unat n * p")
    case True
    then show ?thesis unfolding total_bytes_def Let_def many by (simp add: header_bytes_def p_def)
  next
    case False
    then have "unat (n * (of_nat (offset_bytes wide) + 1)) = unat n * p"
      using unat_mult_u64 [of n "of_nat (offset_bytes wide) + 1", unfolded p(2)] by simp
    then have meta: "unat meta = 8 + unat n * p"
      unfolding meta_def using False by (subst unat_add_u64) (simp_all add: header_bytes_def)
    then have "meta \<le> R_XLEN_T_MAX" using False by (simp add: word_le_nat_alt)
    then have "unat (R_XLEN_T_MAX - meta) = 4503599627370496 - (8 + unat n * p)"
      using meta by (subst unat_sub_word) simp_all
    then have "payload > R_XLEN_T_MAX - meta \<longleftrightarrow> 4503599627370496 < 8 + unat n * p + unat payload"
      using False by (simp add: word_less_nat_alt) linarith
    moreover have "meta + payload = of_nat (8 + unat n * p + unat payload)"
    proof -
      have "meta + payload = of_nat (unat meta + unat payload)" by (simp only: of_nat_add of_nat_unat ucast_id)
      then show ?thesis unfolding meta .
    qed
    ultimately show ?thesis
      using False unfolding total_bytes_def Let_def many meta_def [symmetric]
      by (simp add: header_bytes_def p_def)
  qed
qed

section \<open>What the writes leave\<close>

lemma store_word_field: "store_word le k x = field le k x"
  by (simp add: store_word_def field_def)

lemma ucast_of_nat_narrow: "ucast (of_nat n :: u64) = (of_nat n :: u32)"
  by (simp add: unsigned_of_nat word_of_nat_eq_iff)

lemma write_end_field:
  "write_end le raw ends wide i (of_nat e) = put_bytes raw (ends + offset_bytes wide * i) (end_field le wide e)"
  by (simp add: write_end_def end_field_def offset_bytes_def store_word_field ucast_of_nat_narrow)

lemma offsets_room:
  assumes "i < n"
  shows "offset_bytes wide * i + offset_bytes wide \<le> offset_bytes wide * n"
  using assms by (metis Suc_leI mult.commute mult_Suc mult_le_mono1 add.commute)

text \<open>The offset after a record that is not NA; without \<open>wide\<close> the sum does not pass 32 bits.\<close>

lemma next_end_ok:
  assumes fits: "pack_fits wide es" and i: "i < length es"
    and len: "unat len = length (elem_bytes (es ! i))" "unat len \<le> 2147483647"
  shows "next_end wide (of_nat (pack_end es i)) len = of_nat (pack_end es (Suc i))"
proof -
  note e = pack_end_Suc [of es i]
  show ?thesis
  proof (cases wide)
    case True
    have "(scast len :: u64) = of_nat (unat (scast len :: u64))" by (simp only: of_nat_unat ucast_id)
    then have "(scast len :: u64) = of_nat (length (elem_bytes (es ! i)))" using len by (simp add: unat_scast_nonneg)
    then show ?thesis using True e by (simp add: next_end_def)
  next
    case False
    have b: "pack_end es (Suc i) < 4294967296" using pack_fitsD(4) [OF fits False, of "Suc i"] i by simp
    then have "unat (ucast (of_nat (pack_end es i) :: u64) :: u32) = pack_end es i"
      using e by (simp add: unat_ucast_u32 unat_of_nat_u64)
    then have "unat ((ucast (of_nat (pack_end es i) :: u64) :: u32) + len) = pack_end es (Suc i)"
      using b e len(1) by (subst unat_add_u32) simp_all
    then have "unat (ucast ((ucast (of_nat (pack_end es i) :: u64) :: u32) + len) :: u64) =
        unat (of_nat (pack_end es (Suc i)) :: u64)"
      using b by (simp add: unat_ucast_u64 unat_of_nat_u64)
    then have "ucast ((ucast (of_nat (pack_end es i) :: u64) :: u32) + len) = (of_nat (pack_end es (Suc i)) :: u64)"
      by (simp only: word_unat_eq_iff)
    then show ?thesis using False by (simp add: next_end_def)
  qed
qed

text \<open>The positions written when the ends and tags of the first \<open>i\<close> of \<open>n\<close> records are.\<close>

definition written :: "bool \<Rightarrow> nat \<Rightarrow> nat \<Rightarrow> nat set" where
  "written wide n i =
     {..<header_bytes + offset_bytes wide * i} \<union>
     {header_bytes + offset_bytes wide * n..<header_bytes + offset_bytes wide * n + i}"

text \<open>Writing one end, one tag, the bytes of one record.\<close>

lemma write_end_agrees:
  assumes W: "W = pack_raw le wide es" and i: "i < length es" and raw: "agrees W raw S"
  obtains raw1 where
    "write_end le raw header_bytes wide i (of_nat (pack_end es (Suc i))) = Inr raw1"
    "agrees W raw1 (S \<union> {header_bytes + offset_bytes wide * i..<header_bytes + offset_bytes wide * i + offset_bytes wide})"
proof -
  let ?ys = "end_field le wide (pack_end es (Suc i))"
  have room: "header_bytes + offset_bytes wide * i + length ?ys \<le> length W"
    using offsets_room [OF i, of wide] by (simp add: W length_pack_raw algebra_simps)
  have "take (length ?ys) (drop (header_bytes + offset_bytes wide * i) W) = ?ys"
    unfolding W using pack_end_field_at [OF i, of wide le] by simp
  from put_bytes_agrees [OF raw room this, unfolded length_end_field] that show thesis
    unfolding write_end_field by blast
qed

lemma write_tag_agrees:
  assumes W: "W = pack_raw le wide es" and i: "i < length es" and raw: "agrees W raw S"
  obtains raw1 where
    "put_bytes raw (header_bytes + offset_bytes wide * length es + i) [elem_tag (es ! i)] = Inr raw1"
    "agrees W raw1 (S \<union> {header_bytes + offset_bytes wide * length es + i..<header_bytes + offset_bytes wide * length es + i + 1})"
proof -
  let ?t = "header_bytes + offset_bytes wide * length es + i"
  have t: "?t < length W" using i by (simp add: W length_pack_raw algebra_simps)
  have "take (length [elem_tag (es ! i)]) (drop ?t W) = [elem_tag (es ! i)]"
    using pack_tag_at [OF i, of le wide] t by (simp add: W Cons_nth_drop_Suc [symmetric])
  from put_bytes_agrees [OF raw _ this] show thesis using t that by auto
qed

lemma write_bytes_agrees:
  fixes wide es i
  defines "b \<equiv> header_bytes + (offset_bytes wide + 1) * length es + pack_end es i"
  assumes W: "W = pack_raw le wide es" and i: "i < length es" and raw: "agrees W raw S"
  obtains raw1 where
    "put_bytes raw b (elem_bytes (es ! i)) = Inr raw1"
    "agrees W raw1 (S \<union> {b..<b + length (elem_bytes (es ! i))})"
proof -
  have "b + length (elem_bytes (es ! i)) \<le> length W"
    using pack_end_le [of "Suc i" es] i by (simp add: b_def W length_pack_raw pack_end_Suc algebra_simps)
  moreover have "take (length (elem_bytes (es ! i))) (drop b W) = elem_bytes (es ! i)"
    unfolding b_def W by (rule pack_bytes_at [OF i])
  ultimately show thesis using put_bytes_agrees [OF raw] that by blast
qed

lemma write_meta_step:
  assumes W: "W = pack_raw le wide es" and i: "i < length es"
    and raw: "agrees W raw (written wide (length es) i)"
  obtains raw1 raw2 where
    "write_end le raw header_bytes wide i (of_nat (pack_end es (Suc i))) = Inr raw1"
    "put_bytes raw1 (header_bytes + offset_bytes wide * length es + i) [elem_tag (es ! i)] = Inr raw2"
    "agrees W raw2 (written wide (length es) (Suc i))"
proof -
  obtain raw1 where r1: "write_end le raw header_bytes wide i (of_nat (pack_end es (Suc i))) = Inr raw1"
    "agrees W raw1 (written wide (length es) i \<union>
       {header_bytes + offset_bytes wide * i..<header_bytes + offset_bytes wide * i + offset_bytes wide})"
    by (rule write_end_agrees [OF W i raw])
  obtain raw2 where r2: "put_bytes raw1 (header_bytes + offset_bytes wide * length es + i) [elem_tag (es ! i)] = Inr raw2"
    "agrees W raw2 (written wide (length es) i \<union>
       {header_bytes + offset_bytes wide * i..<header_bytes + offset_bytes wide * i + offset_bytes wide} \<union>
       {header_bytes + offset_bytes wide * length es + i..<header_bytes + offset_bytes wide * length es + i + 1})"
    by (rule write_tag_agrees [OF W i r1(2)])
  from r2(2) have "agrees W raw2 (written wide (length es) (Suc i))"
    by (rule agrees_subset) (auto simp: written_def)
  with r1(1) r2(1) show thesis by (rule that)
qed

lemma describes_nth:
  assumes "describes ptrs ls cs es" and "i < length es"
  shows "elt_at ls i = Inr (ls ! i)" and "elt_at cs i = Inr (cs ! i)" and "fill_is_na ptrs ls cs i = Inr (es ! i = NA)"
    and "es ! i \<noteq> NA \<Longrightarrow> tag_value (cs ! i) = elem_tag (es ! i)"
    and "es ! i \<noteq> NA \<Longrightarrow> unat (ls ! i) = length (elem_bytes (es ! i))"
    and "length (elem_bytes (es ! i)) \<le> 2147483647"
proof -
  have "storable (es ! i)" using assms by (simp add: describes_def list_all_length)
  then show "length (elem_bytes (es ! i)) \<le> 2147483647" by (cases "es ! i") simp_all
qed (use assms in \<open>simp_all add: describes_def elt_at_def\<close>)

lemma write_records_ok:
  assumes d: "describes ptrs ls cs es" and fits: "pack_fits wide es" and W: "W = pack_raw le wide es"
    and raw: "agrees W raw {..<header_bytes}"
  obtains raw' where
    "write_records le wide (length es) ptrs ls cs header_bytes (header_bytes + offset_bytes wide * length es) raw = Inr raw'"
    "agrees W raw' {..<header_bytes + (offset_bytes wide + 1) * length es}"
proof -
  let ?n = "length es" and ?encs = "header_bytes + offset_bytes wide * length es"
  let ?body = "write_record_step le wide ptrs ls cs header_bytes ?encs"
  have "\<exists>s. for_each ?body [0..<?n] (raw, 0) = Inr s \<and>
      (\<exists>raw'. s = (raw', of_nat (pack_end es ?n)) \<and> agrees W raw' (written wide ?n ?n))"
  proof (rule for_each_invariant [where P = "\<lambda>i (s :: u8 list \<times> u64). \<exists>raw'. s = (raw', of_nat (pack_end es i)) \<and> agrees W raw' (written wide ?n i)"])
    show "\<exists>raw'. (raw, 0) = (raw', of_nat (pack_end es 0)) \<and> agrees W raw' (written wide ?n 0)"
      using raw by (simp add: written_def)
    fix i and s :: "u8 list \<times> u64"
    assume i: "0 \<le> i" "i < ?n"
      and "\<exists>raw'. s = (raw', of_nat (pack_end es i)) \<and> agrees W raw' (written wide ?n i)"
    then obtain r where s: "s = (r, of_nat (pack_end es i))" "agrees W r (written wide ?n i)" by blast
    note nth = describes_nth [OF d i(2)]
    obtain r1 r2 where w: "write_end le r header_bytes wide i (of_nat (pack_end es (Suc i))) = Inr r1"
      "put_bytes r1 (?encs + i) [elem_tag (es ! i)] = Inr r2" "agrees W r2 (written wide ?n (Suc i))"
      by (rule write_meta_step [OF W i(2) s(2)])
    have e: "(if es ! i = NA then of_nat (pack_end es i) else next_end wide (of_nat (pack_end es i)) (ls ! i)) =
        (of_nat (pack_end es (Suc i)) :: u64)"
      using next_end_ok [OF fits i(2), of "ls ! i"] nth(5,6) by (simp add: pack_end_Suc)
    have t: "(if es ! i = NA then tag_value CETYPE_EXT_NA else tag_value (cs ! i)) = elem_tag (es ! i)"
      using nth(4) by simp
    show "\<exists>s'. ?body i s = Inr s' \<and>
        (\<exists>raw'. s' = (raw', of_nat (pack_end es (Suc i))) \<and> agrees W raw' (written wide ?n (Suc i)))"
      using w by (simp add: write_record_step_def s(1) nth(1-3) Let_def e t del: of_nat_Suc)
  qed simp
  then obtain raw' where "for_each ?body [0..<?n] (raw, 0) = Inr (raw', of_nat (pack_end es ?n))"
    "agrees W raw' (written wide ?n ?n)" by blast
  moreover have "{..<header_bytes + (offset_bytes wide + 1) * ?n} \<subseteq> written wide ?n ?n"
    by (auto simp: written_def)
  ultimately show thesis by (intro that [of raw']) (auto simp: write_records_def intro: agrees_subset)
qed

lemma write_head_ok:
  assumes W: "W = pack_raw le wide es" and "length raw = length W"
  obtains raw' where "write_head le raw (of_nat (length es)) wide = Inr raw'" "agrees W raw' {..<header_bytes}"
proof -
  let ?ys = "field le 8 (pack_head wide (length es))"
  have "write_head le raw (of_nat (length es)) wide = put_bytes raw 0 ?ys"
    by (simp add: write_head_def store_word_field pack_head_def)
  moreover have "agrees W raw {}" using assms(2) by (simp add: agrees_def)
  moreover have "0 + length ?ys \<le> length W" by (simp add: W length_pack_raw header_bytes_def)
  moreover have "take (length ?ys) (drop 0 W) = ?ys" using pack_head_at [of le wide es] by (simp add: W)
  ultimately show thesis
    using put_bytes_agrees [of W raw "{}" 0 ?ys] that by (auto simp: header_bytes_def atLeast0LessThan)
qed

section \<open>Allocation and payload\<close>

text \<open>The width the code chooses, and when the vector fits R's limit.\<close>

lemma pack_fits_iff:
  assumes "list_all storable es" and "unat payload = length (state_payload es)"
  shows "pack_fits (force_wide \<or> needs_wide payload) es \<longleftrightarrow>
    header_bytes + length es * (offset_bytes (force_wide \<or> needs_wide payload) + 1) + unat payload \<le> 4503599627370496"
  using assms by (auto simp: pack_fits_def needs_wide_def word_less_nat_alt)

lemma alloc_data1_ok:
  fixes es :: "element list"
  defines "n \<equiv> length es"
  assumes h: "heap_ok h" and d: "describes ptrs ls cs es" and n: "n < 2 ^ 63"
    and pay: "unat payload = length (state_payload es)" and wide: "wide = (force_wide \<or> needs_wide payload)"
    and a: "alloc_data1 le (of_nat n) ptrs ls cs payload force_wide op h = (r, h')"
  shows "case r of
      Inl e \<Rightarrow> (\<exists>m. e = R_error m) \<and> blocks h' = blocks h \<and> (\<not> pack_fits wide es \<or> (\<exists>k m. \<not> can_alloc h k m))
    | Inr rb \<Rightarrow> pack_fits wide es \<and> blocks h rb = None \<and>
        (\<exists>raw. blocks h' = (blocks h)(rb \<mapsto> raw) \<and>
           agrees (pack_raw le wide es) raw {..<header_bytes + (offset_bytes wide + 1) * n})"
proof -
  let ?W = "pack_raw le wide es" and ?tot = "total_bytes (of_nat n) payload wide"
  have un: "unat (of_nat n :: size_t) = n" using n by (intro unat_of_nat_u64) simp
  have st: "list_all storable es" using d by (simp add: describes_def)
  have fits: "pack_fits wide es \<longleftrightarrow> header_bytes + n * (offset_bytes wide + 1) + unat payload \<le> 4503599627370496"
    unfolding wide n_def by (rule pack_fits_iff [OF st pay])
  show ?thesis
  proof (cases "pack_fits wide es")
    case False
    then have "?tot = 0" using fits un by (simp add: total_bytes_spec)
    then show ?thesis using a False by (auto simp: alloc_data1_def Let_def simp flip: wide)
  next
    case True
    have tot: "?tot = of_nat (length ?W)" "unat ?tot = length ?W" "?tot \<noteq> 0"
    proof -
      have len: "length ?W = header_bytes + n * (offset_bytes wide + 1) + unat payload"
        by (simp add: length_pack_raw n_def pay)
      show t: "?tot = of_nat (length ?W)" using True fits un by (simp add: total_bytes_spec len)
      show u: "unat ?tot = length ?W" unfolding t using True fits len by (intro unat_of_nat_u64) simp
      show "?tot \<noteq> 0" using u by (auto simp: length_pack_raw header_bytes_def)
    qed
    obtain q h1 where al: "alloc_raw_vector (length ?W) h = (q, h1)" by fastforce
    note alloc = alloc_raw_vector_ok [OF al h]
    show ?thesis
    proof (cases q)
      case (Inl e)
      then have "r = Inl e" "h' = h1" using a al tot(2,3) by (auto simp: alloc_data1_def Let_def simp flip: wide)
      then show ?thesis using alloc Inl by simp
    next
      case (Inr rb)
      then obtain bs where b: "length bs = length ?W" "blocks h1 = (blocks h)(rb \<mapsto> bs)" "blocks h rb = None"
        using alloc by auto
      have raw: "raw_bytes h1 rb = bs" using b(2) by (simp add: raw_bytes_def)
      obtain r1 where r1: "write_head le bs (of_nat n) wide = Inr r1" "agrees ?W r1 {..<header_bytes}"
        using write_head_ok [OF refl b(1)] unfolding n_def by blast
      obtain r2 where r2: "write_records le wide n ptrs ls cs header_bytes (header_bytes + offset_bytes wide * n) r1 = Inr r2"
        "agrees ?W r2 {..<header_bytes + (offset_bytes wide + 1) * n}"
        using write_records_ok [OF d True refl r1(2)] unfolding n_def by blast
      have "r = Inr rb" "h' = h1\<lparr>blocks := (blocks h1)(rb \<mapsto> r2)\<rparr>"
        using a al tot(2,3) Inr raw r1(1) r2(1) un by (simp_all add: alloc_data1_def Let_def flip: wide)
      then show ?thesis using True b r2(2) by (auto intro!: exI [of _ r2])
    qed
  qed
qed

text \<open>
  A loop over pieces that together are the payload: its \<open>k\<close>th step copies the \<open>k\<close>th piece, or
  leaves out an empty one.
\<close>

definition copies_piece :: "(nat \<Rightarrow> u8 list \<times> nat \<Rightarrow> fault + u8 list \<times> nat) \<Rightarrow> nat \<Rightarrow> u8 list \<Rightarrow> bool" where
  "copies_piece body k ys \<longleftrightarrow>
     (\<forall>raw dest. body k (raw, dest) =
        (if ys = [] then Inr (raw, dest) else and_then (put_bytes raw dest ys) (\<lambda>raw'. Inr (raw', dest + length ys))))"

lemma fill_payload_ok:
  assumes fits: "pack_fits wide es" and pieces: "concat xs = state_payload es"
    and W: "W = pack_raw le wide es" and b: "b = header_bytes + (offset_bytes wide + 1) * length es"
    and body: "\<And>k. k < length xs \<Longrightarrow> copies_piece body k (xs ! k)"
    and raw: "raw_bytes h rb = raw" "agrees W raw {..<b}"
  shows "fill_payload le rb body (length xs) h = (Inr (), h\<lparr>blocks := (blocks h)(rb \<mapsto> W)\<rparr>)"
proof -
  let ?l = "before (\<lambda>k. length (xs ! k))"
  have len: "length W = b + length (concat xs)" by (simp add: W b length_pack_raw pieces algebra_simps)
  have drop: "drop b W = concat xs" unfolding W b pack_raw_drops(3) pieces ..
  have "\<exists>s. for_each body [0..<length xs] (raw, b) = Inr s \<and>
      (\<exists>raw'. s = (raw', b + ?l (length xs)) \<and> agrees W raw' {..<b + ?l (length xs)})"
  proof (rule for_each_invariant [where P = "\<lambda>k (s :: u8 list \<times> nat). \<exists>raw'. s = (raw', b + ?l k) \<and> agrees W raw' {..<b + ?l k}"])
    show "\<exists>raw'. (raw, b) = (raw', b + ?l 0) \<and> agrees W raw' {..<b + ?l 0}" using raw(2) by simp
    fix k and s :: "u8 list \<times> nat"
    assume k: "0 \<le> k" "k < length xs" and "\<exists>raw'. s = (raw', b + ?l k) \<and> agrees W raw' {..<b + ?l k}"
    then obtain r where s: "s = (r, b + ?l k)" "agrees W r {..<b + ?l k}" by blast
    show "\<exists>s'. body k s = Inr s' \<and> (\<exists>raw'. s' = (raw', b + ?l (Suc k)) \<and> agrees W raw' {..<b + ?l (Suc k)})"
    proof (cases "xs ! k = []")
      case True
      then show ?thesis using body [OF k(2)] s by (simp add: copies_piece_def)
    next
      case False
      have "?l (Suc k) \<le> ?l (length xs)" using k by (intro before_mono) simp
      then have room: "b + ?l k + length (xs ! k) \<le> length W"
        using length_concat_before [of "length xs" xs] by (simp add: len)
      have "drop (b + ?l k) W = drop (?l k) (drop b W)" by (simp add: add.commute)
      then have at: "take (length (xs ! k)) (drop (b + ?l k) W) = xs ! k"
        using piece_of_concat [OF k(2)] by (simp add: drop)
      obtain r' where "put_bytes r (b + ?l k) (xs ! k) = Inr r'"
        "agrees W r' ({..<b + ?l k} \<union> {b + ?l k..<b + ?l k + length (xs ! k)})"
        by (rule put_bytes_agrees [OF s(2) room at])
      moreover have "{..<b + ?l k} \<union> {b + ?l k..<b + ?l k + length (xs ! k)} = {..<b + ?l (Suc k)}" by auto
      ultimately show ?thesis using body [OF k(2)] False by (simp add: copies_piece_def s(1) add.assoc)
    qed
  qed simp
  then obtain raw' where loop: "for_each body [0..<length xs] (raw, b) = Inr (raw', b + ?l (length xs))"
    "agrees W raw' {..<b + ?l (length xs)}" by blast
  have "?l (length xs) = length (concat xs)" using length_concat_before [of "length xs" xs] by simp
  then have "raw' = W" using loop(2) len by (intro agrees_all) simp
  moreover have "payload_start le raw = Inr b"
  proof -
    have "agrees W raw {..<8}" using raw(2) by (rule agrees_subset) (auto simp: b header_bytes_def)
    moreover have "8 \<le> length W" by (simp add: len b header_bytes_def)
    ultimately have "pack_parse le raw = Inr (pack_view_of wide es)"
      using pack_parse_agrees pack_parse_raw [OF fits] W by metis
    then show ?thesis by (simp add: payload_start_def pack_view_of_def b)
  qed
  ultimately show ?thesis using loop(1) raw(1) by (simp add: fill_payload_def)
qed

text \<open>Allocation followed by the copying loop.\<close>

lemma alloc_and_fill:
  assumes h: "heap_ok h" and d: "describes ptrs ls cs es" and n: "length es < 2 ^ 63"
    and pay: "unat payload = length (state_payload es)" and wide: "wide = (force_wide \<or> needs_wide payload)"
    and a: "alloc_data1 le (of_nat (length es)) ptrs ls cs payload force_wide op h = (r, h1)"
    and pieces: "concat xs = state_payload es"
    and body: "\<And>k. keeps_live h h1 \<Longrightarrow> k < length xs \<Longrightarrow> copies_piece body k (xs ! k)"
  shows "case r of
      Inl e \<Rightarrow> (\<exists>m. e = R_error m) \<and> blocks h1 = blocks h \<and> (\<not> pack_fits wide es \<or> (\<exists>k m. \<not> can_alloc h k m))
    | Inr rb \<Rightarrow> pack_fits wide es \<and> blocks h rb = None \<and>
        (\<exists>h2. fill_payload le rb body (length xs) h1 = (Inr (), h2) \<and> blocks h2 = (blocks h)(rb \<mapsto> pack_raw le wide es))"
proof -
  note alloc = alloc_data1_ok [OF h d n pay wide a]
  show ?thesis
  proof (cases r)
    case (Inl e)
    then show ?thesis using alloc by simp
  next
    case (Inr rb)
    then obtain raw where raw: "pack_fits wide es" "blocks h rb = None" "blocks h1 = (blocks h)(rb \<mapsto> raw)"
      "agrees (pack_raw le wide es) raw {..<header_bytes + (offset_bytes wide + 1) * length es}"
      using alloc by auto
    have "keeps_live h h1" using raw(2,3) by (auto simp: keeps_live_def)
    then have bodies: "\<And>k. k < length xs \<Longrightarrow> copies_piece body k (xs ! k)" by (rule body)
    have "raw_bytes h1 rb = raw" using raw(3) by (simp add: raw_bytes_def)
    from fill_payload_ok [OF raw(1) pieces refl refl bodies this raw(4)] raw Inr show ?thesis by simp
  qed
qed

section \<open>fill_views\<close>

lemma record_fit_view_ok:
  "record_fit (view_is_na (ps ! i) (ls ! i) (cs ! i)) ls cs i \<longleftrightarrow> view_ok ls ps cs i"
  by (auto simp: record_fit_def view_ok_def)

text \<open>Acceptable views describe the strings they stand for.\<close>

text \<open>The record of a view that stands for an element.\<close>

lemma view_element:
  assumes ok: "view_ok ls ps cs i" and v: "view_content h (make_strview (ps ! i) (ls ! i) (cs ! i)) = Some e"
  shows "view_is_na (ps ! i) (ls ! i) (cs ! i) \<longleftrightarrow> e = NA"
    and "e = Str bs c \<Longrightarrow> cs ! i = c \<and> unat (ls ! i) = length bs \<and> length bs \<le> 2147483647 \<and>
      mem_read h (ps ! i) (length bs) = Some bs \<and> c \<noteq> CETYPE_EXT_NA \<and> valid_view_encoding c"
    and "(if view_is_na (ps ! i) (ls ! i) (cs ! i) then 0 else unat (ls ! i)) = length (elem_bytes e)"
proof -
  show na: "view_is_na (ps ! i) (ls ! i) (cs ! i) \<longleftrightarrow> e = NA"
    using v by (cases e) (auto simp: view_content_NA view_content_Str view_is_na_def strview_is_na_def)
  have str: "cs ! i = c \<and> unat (ls ! i) = length bs \<and> length bs \<le> 2147483647 \<and>
      mem_read h (ps ! i) (length bs) = Some bs \<and> c \<noteq> CETYPE_EXT_NA \<and> valid_view_encoding c"
    if "e = Str bs c" for bs c
    using ok v that length_mem_read [of h "ps ! i" "unat (ls ! i)" bs]
    by (auto simp: view_content_Str strview_is_na_def view_ok_def)
  show "e = Str bs c \<Longrightarrow> cs ! i = c \<and> unat (ls ! i) = length bs \<and> length bs \<le> 2147483647 \<and>
      mem_read h (ps ! i) (length bs) = Some bs \<and> c \<noteq> CETYPE_EXT_NA \<and> valid_view_encoding c" by (rule str)
  show "(if view_is_na (ps ! i) (ls ! i) (cs ! i) then 0 else unat (ls ! i)) = length (elem_bytes e)"
    using na str by (cases e) auto
qed

lemma views_describe:
  assumes len: "length ps = length es" "length ls = length es" "length cs = length es"
    and v: "\<And>i. i < length es \<Longrightarrow> view_ok ls ps cs i"
      "\<And>i. i < length es \<Longrightarrow> view_content h (make_strview (ps ! i) (ls ! i) (cs ! i)) = Some (es ! i)"
  shows "describes (Some ps) ls cs es"
    and "before (\<lambda>i. if view_is_na (ps ! i) (ls ! i) (cs ! i) then 0 else unat (ls ! i)) (length es) = length (state_payload es)"
    and "\<And>i h1. keeps_live h h1 \<Longrightarrow> i < length es \<Longrightarrow> copies_piece (copy_view_step h1 ps ls cs) i (elem_bytes (es ! i))"
proof -
  note elem = view_element [OF v(1) v(2)]
  have na: "view_is_na (ps ! i) (ls ! i) (cs ! i) \<longleftrightarrow> es ! i = NA" if "i < length es" for i by (rule elem(1) [OF that that])
  have str: "cs ! i = c \<and> unat (ls ! i) = length bs \<and> length bs \<le> 2147483647 \<and>
      mem_read h (ps ! i) (length bs) = Some bs \<and> c \<noteq> CETYPE_EXT_NA \<and> valid_view_encoding c"
    if "i < length es" "es ! i = Str bs c" for i bs c by (rule elem(2) [OF that(1,1,2)])
  have st: "storable (es ! i)" if "i < length es" for i using str [OF that] by (cases "es ! i") auto
  show "describes (Some ps) ls cs es"
    unfolding describes_def
  proof (intro conjI allI impI)
    fix i assume i: "i < length es"
    show "fill_is_na (Some ps) ls cs i = Inr (es ! i = NA)"
      using i len na [OF i] by (simp add: fill_is_na_def elt_at_def)
    assume "es ! i \<noteq> NA"
    then show "tag_value (cs ! i) = elem_tag (es ! i)" "unat (ls ! i) = length (elem_bytes (es ! i))"
      using str [OF i] by (cases "es ! i"; simp)+
  qed (use len st in \<open>simp_all add: list_all_length\<close>)
  show "before (\<lambda>i. if view_is_na (ps ! i) (ls ! i) (cs ! i) then 0 else unat (ls ! i)) (length es) = length (state_payload es)"
    unfolding pack_end_total [symmetric] pack_end_def by (rule before_cong) (rule elem(3))
  fix i h1 assume live: "keeps_live h h1" and i: "i < length es"
  show "copies_piece (copy_view_step h1 ps ls cs) i (elem_bytes (es ! i))"
  proof (cases "es ! i")
    case NA
    then show ?thesis
      using i len na [OF i] by (simp add: copies_piece_def copy_view_step_def elt_at_def)
  next
    case (Str bs c)
    note s = str [OF i Str]
    have "mem_read h1 (ps ! i) (length bs) = Some bs" using keeps_live_read [OF live] s by blast
    moreover have "unat (scast (ls ! i) :: size_t) = length bs" using s by (simp add: unat_scast_nonneg)
    moreover have "ls ! i = 0 \<longleftrightarrow> bs = []" using s by (metis length_0_conv unat_eq_zero)
    ultimately show ?thesis
      using i len na [OF i] s Str by (simp add: copies_piece_def copy_view_step_def copy_in_def elt_at_def)
  qed
qed

lemma fill_views_ok:
  assumes "heap_ok h" and "length es < 2 ^ 63"
    and "length ps = length es" "length ls = length es" "length cs = length es"
    and "\<And>i. i < length es \<Longrightarrow> view_ok ls ps cs i \<Longrightarrow>
          view_content h (make_strview (ps ! i) (ls ! i) (cs ! i)) = Some (es ! i)"
    and "wide = (force_wide \<or> 4294967295 < length (state_payload es))"
  shows "case fill_views le (Some x) (of_nat (length es)) (Some ps) (Some ls) (Some cs) force_wide h of
      (Inl e, x', h') \<Rightarrow> (\<exists>m. e = R_error m) \<and> x' = Some x \<and> blocks h' = blocks h \<and>
        (\<not> charpack_is_unfilled x \<or> (\<exists>i < length es. \<not> view_ok ls ps cs i) \<or> \<not> pack_fits wide es \<or>
         (\<exists>k m. \<not> can_alloc h k m))
    | (Inr u, x', h') \<Rightarrow> charpack_is_unfilled x \<and> (\<forall>i < length es. view_ok ls ps cs i) \<and> pack_fits wide es \<and>
        (\<exists>rb. x' = Some (x\<lparr>cp_data1 := Some rb\<rparr>) \<and> blocks h rb = None \<and>
           blocks h' = (blocks h)(rb \<mapsto> pack_raw le wide es))"
proof -
  let ?n = "length es" and ?na = "\<lambda>i. view_is_na (ps ! i) (ls ! i) (cs ! i)"
  let ?f = "fill_views le (Some x) (of_nat (length es)) (Some ps) (Some ls) (Some cs) force_wide h"
  let ?chk = "checked_payload (of_nat ?n) (Some ps) ls cs ''fill_views''"
  have un: "unat (of_nat ?n :: R_xlen_t) = ?n" using assms(2) by (intro unat_of_nat_u64) simp
  have "nat (sint (of_nat ?n :: R_xlen_t)) = ?n" by (rule sint_of_nat_small [OF assms(2)])
  have nn: "\<not> sint (of_nat ?n :: R_xlen_t) < 0" using sint_nonneg_small [of "of_nat ?n"] assms(2) un by simp
  have fill: "fill_is_na (Some ps) ls cs i = Inr (?na i)" if "i < ?n" for i
    using that assms(3-5) by (simp add: fill_is_na_def elt_at_def)
  note chk = checked_payload_result [OF assms(4,5,2) fill, where op = "''fill_views''", unfolded record_fit_view_ok]
  note desc = views_describe [OF assms(3-5) _ assms(6)]
  show ?thesis
  proof (cases "charpack_is_unfilled x")
    case False
    then show ?thesis by (simp add: fill_views_def check_unfilled_def Let_def)
  next
    case x: True
    show ?thesis
    proof (cases ?chk)
      case (Inl e)
      then have f: "?f = (Inl e, Some x, h)" using x nn by (simp add: fill_views_def check_unfilled_def Let_def)
      show ?thesis
      proof (cases "\<forall>i < ?n. view_ok ls ps cs i")
        case True
        then have "18446744073709551616 \<le> length (state_payload es)" "\<exists>m. e = R_error m"
          using chk Inl desc(2) by auto
        then show ?thesis using f by (auto simp: pack_fits_def)
      qed (use chk Inl f in auto)
    next
      case (Inr payload)
      then have ok: "\<forall>i < ?n. view_ok ls ps cs i" using chk by simp
      then have pay: "unat payload = length (state_payload es)" using chk Inr desc(2) by simp
      have wide: "wide = (force_wide \<or> needs_wide payload)"
        using assms(7) pay by (simp add: needs_wide_def word_less_nat_alt)
      have d: "describes (Some ps) ls cs es" using desc(1) ok by simp
      obtain q h1 where a: "alloc_data1 le (of_nat ?n) (Some ps) ls cs payload force_wide ''fill_views'' h = (q, h1)"
        by fastforce
      have body: "copies_piece (copy_view_step h1 ps ls cs) k (map elem_bytes es ! k)"
        if "keeps_live h h1" "k < length (map elem_bytes es)" for k
        using that ok by (simp, intro desc(3)) simp_all
      note filled = alloc_and_fill [OF assms(1) d assms(2) pay wide a state_payload_def [symmetric] body]
      show ?thesis
      proof (cases q)
        case (Inl e)
        then have "?f = (Inl e, Some x, h1)" using Inr x nn a by (simp add: fill_views_def check_unfilled_def Let_def)
        then show ?thesis using filled Inl by auto
      next
        case q: (Inr rb)
        then obtain h2 where h2: "pack_fits wide es" "blocks h rb = None" "blocks h2 = (blocks h)(rb \<mapsto> pack_raw le wide es)"
          "fill_payload le rb (copy_view_step h1 ps ls cs) ?n h1 = (Inr (), h2)"
          using filled by auto
        then have "?f = (Inr (), Some (x\<lparr>cp_data1 := Some rb\<rparr>), h2)"
          using Inr x nn a q un by (simp add: fill_views_def check_unfilled_def Let_def)
        then show ?thesis using x ok h2 by auto
      qed
    qed
  qed
qed

text \<open>C24. \<open>fill_views\<close> turns an unfilled charpack into a filled one whose raw vector is, byte
  for byte, the documented layout of exactly the strings the views stand for, in new memory, with
  the narrow offsets unless the payload needs wide ones or they are forced. On any error (a
  charpack that is not unfilled, a bad view, a vector over R's limit, no memory) an R error is
  raised, the charpack is still as it was and nothing is left allocated.\<close>

theorem charpack_fill_views_functional:
  assumes "heap_ok h" and "length es < 2 ^ 63"
    and "length ps = length es" "length ls = length es" "length cs = length es"
    and "\<And>i. i < length es \<Longrightarrow> view_ok ls ps cs i \<Longrightarrow>
          view_content h (make_strview (ps ! i) (ls ! i) (cs ! i)) = Some (es ! i)"
    and "wide = (force_wide \<or> 4294967295 < length (state_payload es))"
  shows "case fill_views le (Some x) (of_nat (length es)) (Some ps) (Some ls) (Some cs) force_wide h of
      (Inl e, x', h') \<Rightarrow> (\<exists>m. e = R_error m) \<and> x' = Some x \<and> blocks h' = blocks h \<and>
        (\<not> charpack_is_unfilled x \<or> (\<exists>i < length es. \<not> view_ok ls ps cs i) \<or> \<not> pack_fits wide es \<or>
         (\<exists>k m. \<not> can_alloc h k m))
    | (Inr u, x', h') \<Rightarrow> charpack_is_unfilled x \<and> (\<forall>i < length es. view_ok ls ps cs i) \<and> pack_fits wide es \<and>
        (\<exists>rb. x' = Some (x\<lparr>cp_data1 := Some rb\<rparr>) \<and> blocks h rb = None \<and>
           blocks h' = (blocks h)(rb \<mapsto> pack_raw le wide es))"
  by (rule fill_views_ok [OF assms])

definition demo_unfilled :: "nat charpack" where
  "demo_unfilled = \<lparr>cp_data1 = None, cp_data2 = None\<rparr>"

theorem charpack_fill_views_functional_witness:
  "\<exists>rb h'. fill_views True (Some demo_unfilled) 1 (Some [At 0 0]) (Some [2]) (Some [CETYPE_EXT_UTF8]) False demo_heap
      = (Inr (), Some (demo_unfilled\<lparr>cp_data1 := Some rb\<rparr>), h') \<and>
     blocks h' rb = Some (pack_raw True False [Str [104, 105] CETYPE_EXT_UTF8])"
proof -
  let ?es = "[Str [104, 105] CETYPE_EXT_UTF8]"
  have v: "view_content demo_heap (make_strview ([At 0 0] ! i) ([2] ! i) ([CETYPE_EXT_UTF8] ! i)) = Some (?es ! i)"
    if "i < length ?es" "view_ok [2] [At 0 0] [CETYPE_EXT_UTF8] i" for i
    using that demo_view_content by (simp add: demo_view_def)
  have len: "length ?es < 2 ^ 63" "length [At 0 0] = length ?es" "length [2 :: c_int] = length ?es"
    "length [CETYPE_EXT_UTF8] = length ?es" by simp_all
  have wide: "False = (False \<or> 4294967295 < length (state_payload ?es))" by (simp add: state_payload_def)
  have ok: "\<forall>i < length ?es. view_ok [2] [At 0 0] [CETYPE_EXT_UTF8] i" "charpack_is_unfilled demo_unfilled"
    "pack_fits False ?es" "can_alloc demo_heap k m" for k m
    by (simp_all add: view_ok_def valid_view_encoding_def sint_c_int charpack_is_unfilled_def demo_unfilled_def
        pack_fits_def state_payload_def header_bytes_def offset_bytes_def demo_heap_def cetype_defs)
  obtain r x' h' where r: "fill_views True (Some demo_unfilled) (of_nat (length ?es)) (Some [At 0 0]) (Some [2])
      (Some [CETYPE_EXT_UTF8]) False demo_heap = (r, x', h')" by (metis prod_cases3)
  from charpack_fill_views_functional [OF heap_ok_demo len v wide, where le = True and x = demo_unfilled, unfolded r] ok
  have "r = Inr () \<and> (\<exists>rb. x' = Some (demo_unfilled\<lparr>cp_data1 := Some rb\<rparr>) \<and> blocks h' rb = Some (pack_raw True False ?es))"
    by (cases r) auto
  with r show ?thesis by auto
qed

section \<open>fill_slices\<close>

text \<open>The strings that lengths and encodings cut out of a run of bytes, and the bytes they need.\<close>

fun cut_records :: "c_int list \<Rightarrow> cetype_ext_t list \<Rightarrow> u8 list \<Rightarrow> element list" where
  "cut_records (l # ls) (c # cs) bs =
     (if record_is_na l c then NA # cut_records ls cs bs
      else Str (take (unat l) bs) c # cut_records ls cs (drop (unat l) bs))"
| "cut_records ls cs bs = []"

definition record_size :: "c_int \<Rightarrow> cetype_ext_t \<Rightarrow> nat" where
  "record_size l c = (if record_is_na l c then 0 else unat l)"

definition records_total :: "c_int list \<Rightarrow> cetype_ext_t list \<Rightarrow> nat" where
  "records_total ls cs = sum_list (map2 record_size ls cs)"

definition slices_fit :: "c_int list \<Rightarrow> cetype_ext_t list \<Rightarrow> nat \<Rightarrow> bool" where
  "slices_fit ls cs i \<longleftrightarrow> record_fit (record_is_na (ls ! i) (cs ! i)) ls cs i"

lemma length_cut [simp]: "length ls = length cs \<Longrightarrow> length (cut_records ls cs bs) = length ls"
  by (induction ls cs arbitrary: bs rule: list_induct2) simp_all

lemma cut_records_nth:
  assumes "length ls = length cs" and "records_total ls cs = length bs" and "i < length ls"
  shows "cut_records ls cs bs ! i = NA \<longleftrightarrow> record_is_na (ls ! i) (cs ! i)"
    and "\<not> record_is_na (ls ! i) (cs ! i) \<Longrightarrow>
      \<exists>ys. cut_records ls cs bs ! i = Str ys (cs ! i) \<and> length ys = unat (ls ! i)"
proof -
  have "(cut_records ls cs bs ! i = NA \<longleftrightarrow> record_is_na (ls ! i) (cs ! i)) \<and>
      (\<not> record_is_na (ls ! i) (cs ! i) \<longrightarrow>
       (\<exists>ys. cut_records ls cs bs ! i = Str ys (cs ! i) \<and> length ys = unat (ls ! i)))"
    using assms
  proof (induction ls cs arbitrary: bs i rule: list_induct2)
    case (Cons l ls c cs)
    then show ?case by (cases i) (auto simp: records_total_def record_size_def)
  qed simp
  then show "cut_records ls cs bs ! i = NA \<longleftrightarrow> record_is_na (ls ! i) (cs ! i)"
    and "\<not> record_is_na (ls ! i) (cs ! i) \<Longrightarrow>
      \<exists>ys. cut_records ls cs bs ! i = Str ys (cs ! i) \<and> length ys = unat (ls ! i)" by blast+
qed

lemma cut_records_payload:
  "length ls = length cs \<Longrightarrow> records_total ls cs = length bs \<Longrightarrow> state_payload (cut_records ls cs bs) = bs"
proof (induction ls cs arbitrary: bs rule: list_induct2)
  case (Cons l ls c cs)
  then show ?case by (auto simp: records_total_def record_size_def state_payload_def)
qed (simp add: records_total_def state_payload_def)

lemma cut_records_describes:
  assumes len: "length ls = length cs" and tot: "records_total ls cs = length bs"
    and fit: "\<And>i. i < length ls \<Longrightarrow> slices_fit ls cs i"
  shows "describes None ls cs (cut_records ls cs bs)"
  unfolding describes_def list_all_length
proof (intro conjI allI impI)
  fix i assume "i < length (cut_records ls cs bs)"
  then have i: "i < length ls" using len by simp
  note nth = cut_records_nth [OF len tot i] and f = fit [OF i, unfolded slices_fit_def record_fit_def]
  have "unat (ls ! i) \<le> 2147483647 \<and> cs ! i \<noteq> CETYPE_EXT_NA" if "\<not> record_is_na (ls ! i) (cs ! i)"
    using that f by (simp add: sint_nonneg_iff record_is_na_def)
  then show "storable (cut_records ls cs bs ! i)"
    using nth f by (cases "cut_records ls cs bs ! i") auto
  show "fill_is_na None ls cs i = Inr (cut_records ls cs bs ! i = NA)"
    using nth(1) i len by (simp add: fill_is_na_def elt_at_def)
  assume "cut_records ls cs bs ! i \<noteq> NA"
  then show "tag_value (cs ! i) = elem_tag (cut_records ls cs bs ! i)"
    "unat (ls ! i) = length (elem_bytes (cut_records ls cs bs ! i))"
    using nth by auto
qed (use len in simp_all)

lemma records_total_before:
  assumes "length ls = n" "length cs = n"
  shows "before (\<lambda>i. if record_is_na (ls ! i) (cs ! i) then 0 else unat (ls ! i)) n = records_total ls cs"
proof -
  have "map (\<lambda>i. if record_is_na (ls ! i) (cs ! i) then 0 else unat (ls ! i)) [0..<n] = map2 record_size ls cs"
    by (rule nth_equalityI) (use assms in \<open>simp_all add: record_size_def\<close>)
  then show ?thesis by (simp add: before_def records_total_def)
qed

text \<open>The slices as the caller gives them: \<open>xs\<close> is what those that are not \<open>NULL\<close> hold.\<close>

definition slices_hold :: "heap \<Rightarrow> ptr list \<Rightarrow> size_t list \<Rightarrow> u8 list list \<Rightarrow> bool" where
  "slices_hold h ss ns xs \<longleftrightarrow>
     length ss = length xs \<and> length ns = length xs \<and>
     (\<forall>k < length xs. length (xs ! k) = unat (ns ! k) \<and>
        (xs ! k \<noteq> [] \<and> ss ! k \<noteq> Null \<longrightarrow> mem_read h (ss ! k) (length (xs ! k)) = Some (xs ! k)))"

lemma sliced_result:
  assumes s: "slices_hold h ss ns xs"
  shows "case for_each (sliced_step ss ns op) [0..<length xs] 0 of
      Inl e \<Rightarrow> (\<exists>m. e = R_error m) \<and>
        ((\<exists>k < length xs. xs ! k \<noteq> [] \<and> ss ! k = Null) \<or> 18446744073709551616 \<le> length (concat xs))
    | Inr tot \<Rightarrow> (\<forall>k < length xs. xs ! k \<noteq> [] \<longrightarrow> ss ! k \<noteq> Null) \<and> unat tot = length (concat xs)"
proof -
  let ?l = "before (\<lambda>k. length (xs ! k))"
  have all: "?l (length xs) = length (concat xs)" using length_concat_before [of "length xs" xs] by simp
  have "case for_each (sliced_step ss ns op) [0..<length xs] 0 of
      Inl e \<Rightarrow> (\<exists>m. e = R_error m) \<and>
        ((\<exists>k < length xs. xs ! k \<noteq> [] \<and> ss ! k = Null) \<or> 18446744073709551616 \<le> ?l (length xs))
    | Inr tot \<Rightarrow> (\<forall>k < length xs. xs ! k \<noteq> [] \<longrightarrow> ss ! k \<noteq> Null) \<and> unat tot = ?l (length xs)"
  proof (rule for_each_result [where P = "\<lambda>j tot. (\<forall>k < j. xs ! k \<noteq> [] \<longrightarrow> ss ! k \<noteq> Null) \<and> unat tot = ?l j"])
    fix k and tot :: size_t
    assume k: "0 \<le> k" "k < length xs" and P: "(\<forall>j < k. xs ! j \<noteq> [] \<longrightarrow> ss ! j \<noteq> Null) \<and> unat tot = ?l k"
    let ?n = "ns ! k"
    have n: "unat ?n = length (xs ! k)" using s k by (simp add: slices_hold_def)
    have pos: "?n > 0 \<longleftrightarrow> xs ! k \<noteq> []" using n by (metis length_0_conv unat_eq_zero word_gt_0)
    have mono: "?l k + length (xs ! k) \<le> ?l (length xs)" using before_mono [of "Suc k" "length xs"] k by simp
    have step: "sliced_step ss ns op k tot =
        (if xs ! k \<noteq> [] \<and> ss ! k = Null then Inl (R_error (fill_prefix @ op @ '': slice '' @ decimal k @ '' is NULL''))
         else if tot > SIZE_MAX - ?n then Inl (R_error (fill_prefix @ op @ '': total slice size overflows''))
         else Inr (tot + ?n))"
      using s k pos by (auto simp: sliced_step_def slices_hold_def elt_at_def)
    have over: "tot > SIZE_MAX - ?n \<longleftrightarrow> 18446744073709551616 \<le> unat tot + unat ?n"
      by (rule sum_overflows)
    show "case sliced_step ss ns op k tot of
        Inl e \<Rightarrow> (\<exists>m. e = R_error m) \<and>
          ((\<exists>k < length xs. xs ! k \<noteq> [] \<and> ss ! k = Null) \<or> 18446744073709551616 \<le> ?l (length xs))
      | Inr tot' \<Rightarrow> (\<forall>j < Suc k. xs ! j \<noteq> [] \<longrightarrow> ss ! j \<noteq> Null) \<and> unat tot' = ?l (Suc k)"
      unfolding step
      using k P n mono over by (auto simp: less_Suc_eq unat_add_u64)
  qed simp_all
  then show ?thesis unfolding all .
qed

lemma slices_copy:
  assumes s: "slices_hold h ss ns xs" and live: "keeps_live h h1" and k: "k < length xs"
    and null: "xs ! k \<noteq> [] \<Longrightarrow> ss ! k \<noteq> Null"
  shows "copies_piece (copy_slice_step h1 ss ns) k (xs ! k)"
proof -
  have n: "unat (ns ! k) = length (xs ! k)" using s k by (simp add: slices_hold_def)
  then have pos: "0 < ns ! k \<longleftrightarrow> xs ! k \<noteq> []" by (metis length_0_conv unat_eq_zero word_gt_0)
  have "mem_read h1 (ss ! k) (length (xs ! k)) = Some (xs ! k)" if "xs ! k \<noteq> []"
    using that null s k unfolding slices_hold_def by (intro keeps_live_read [OF live]) blast
  then show ?thesis
    using s k n pos by (auto simp: copies_piece_def copy_slice_step_def copy_in_def slices_hold_def elt_at_def)
qed

lemma fill_slices_ok:
  assumes "heap_ok h" and len: "length cs = length ls" "length ls < 2 ^ 63" "length xs < 2 ^ 63"
    and s: "slices_hold h ss ns xs"
    and es: "es = cut_records ls cs (concat xs)"
    and w: "wide = (force_wide \<or> 4294967295 < length (concat xs))"
  shows "case fill_slices le (Some x) (of_nat (length ls)) (Some ls) (Some cs) (of_nat (length xs)) (Some ss) (Some ns)
        force_wide h of
      (Inl e, x', h') \<Rightarrow> (\<exists>m. e = R_error m) \<and> x' = Some x \<and> blocks h' = blocks h \<and>
        (\<not> charpack_is_unfilled x \<or> (\<exists>i < length ls. \<not> slices_fit ls cs i) \<or>
         (\<exists>k < length xs. xs ! k \<noteq> [] \<and> ss ! k = Null) \<or> records_total ls cs \<noteq> length (concat xs) \<or>
         \<not> pack_fits wide es \<or> (\<exists>k m. \<not> can_alloc h k m))
    | (Inr u, x', h') \<Rightarrow> charpack_is_unfilled x \<and> (\<forall>i < length ls. slices_fit ls cs i) \<and>
        records_total ls cs = length (concat xs) \<and> pack_fits wide es \<and>
        (\<exists>rb. x' = Some (x\<lparr>cp_data1 := Some rb\<rparr>) \<and> blocks h rb = None \<and>
           blocks h' = (blocks h)(rb \<mapsto> pack_raw le wide es))"
proof -
  let ?n = "length ls" and ?m = "length xs" and ?op = "''fill_slices''"
  let ?f = "fill_slices le (Some x) (of_nat ?n) (Some ls) (Some cs) (of_nat ?m) (Some ss) (Some ns) force_wide h"
  have um: "unat (of_nat ?m :: R_xlen_t) = ?m" "unat (of_nat ?n :: R_xlen_t) = ?n"
    using len by (simp_all add: unat_of_nat_u64)
  have nn: "\<not> sint (of_nat ?n :: R_xlen_t) < 0" "\<not> sint (of_nat ?m :: R_xlen_t) < 0"
    using sint_nonneg_small [of "of_nat ?n"] sint_nonneg_small [of "of_nat ?m"] len um by simp_all
  have fill: "fill_is_na None ls cs i = Inr (record_is_na (ls ! i) (cs ! i))" if "i < ?n" for i
    using that len by (simp add: fill_is_na_def elt_at_def)
  note chk = checked_payload_result [OF refl len(1,2) fill, where op = ?op,
      unfolded records_total_before [OF refl len(1)], folded slices_fit_def]
  note sliced = sliced_result [OF s, where op = ?op]
  have lc: "length ls = length cs" using len by simp
  show ?thesis
  proof (cases "charpack_is_unfilled x")
    case False
    then show ?thesis by (simp add: fill_slices_def check_unfilled_def Let_def)
  next
    case x: True
    show ?thesis
    proof (cases "checked_payload (of_nat ?n) None ls cs ?op")
      case (Inl e)
      then have f: "?f = (Inl e, Some x, h)" using x nn by (simp add: fill_slices_def check_unfilled_def Let_def)
      have "\<not> pack_fits wide es"
        if "18446744073709551616 \<le> records_total ls cs" "records_total ls cs = length (concat xs)"
        using that cut_records_payload [OF lc, of "concat xs"] by (simp add: es pack_fits_def)
      then show ?thesis using chk Inl f by auto
    next
      case (Inr payload)
      then have ok: "\<forall>i < ?n. slices_fit ls cs i" "unat payload = records_total ls cs" using chk by simp_all
      show ?thesis
      proof (cases "for_each (sliced_step ss ns ?op) [0..<?m] 0")
        case (Inl e)
        then have "?f = (Inl e, Some x, h)" using Inr x nn um by (simp add: fill_slices_def check_unfilled_def Let_def)
        then show ?thesis using sliced Inl ok(2) unat_u64_bound [of payload] by auto
      next
        case t: (Inr tot)
        then have tot: "\<forall>k < ?m. xs ! k \<noteq> [] \<longrightarrow> ss ! k \<noteq> Null" "unat tot = length (concat xs)"
          using sliced by simp_all
        have same: "tot = payload \<longleftrightarrow> records_total ls cs = length (concat xs)"
          using tot(2) ok(2) by (auto simp: word_unat_eq_iff)
        show ?thesis
        proof (cases "records_total ls cs = length (concat xs)")
          case False
          then show ?thesis using Inr x nn um t same by (simp add: fill_slices_def check_unfilled_def Let_def)
        next
          case True
          then have d: "describes None ls cs es" "state_payload es = concat xs" "length es = ?n"
            using cut_records_describes [OF lc] cut_records_payload [OF lc] ok(1) lc by (simp_all add: es)
          have pay: "unat payload = length (state_payload es)" using ok(2) True d(2) by simp
          have wide: "wide = (force_wide \<or> needs_wide payload)"
            using w pay d(2) by (simp add: needs_wide_def word_less_nat_alt)
          obtain q h1 where a: "alloc_data1 le (of_nat (length es)) None ls cs payload force_wide ?op h = (q, h1)"
            by fastforce
          have body: "copies_piece (copy_slice_step h1 ss ns) k (xs ! k)" if "keeps_live h h1" "k < ?m" for k
            using slices_copy [OF s that] tot(1) that(2) by simp
          have n63: "length es < 2 ^ 63" using d(3) len by simp
          note filled = alloc_and_fill [OF assms(1) d(1) n63 pay wide a d(2) [symmetric] body]
          show ?thesis
          proof (cases q)
            case (Inl e)
            then have "?f = (Inl e, Some x, h1)"
              using Inr x nn a um t same True d(3) by (simp add: fill_slices_def check_unfilled_def Let_def)
            then show ?thesis using filled Inl by auto
          next
            case q: (Inr rb)
            then obtain h2 where h2: "pack_fits wide es" "blocks h rb = None" "blocks h2 = (blocks h)(rb \<mapsto> pack_raw le wide es)"
              "fill_payload le rb (copy_slice_step h1 ss ns) ?m h1 = (Inr (), h2)"
              using filled by auto
            then have "?f = (Inr (), Some (x\<lparr>cp_data1 := Some rb\<rparr>), h2)"
              using Inr x nn a q um t same True d(3) by (simp add: fill_slices_def check_unfilled_def Let_def)
            then show ?thesis using x ok True h2 by auto
          qed
        qed
      qed
    qed
  qed
qed

text \<open>C25. \<open>fill_slices\<close> fills an unfilled charpack with the strings that the lengths and
  encodings cut out of the bytes of the slices taken together, wherever the slices are cut, and the
  raw vector is the documented layout of those strings. It does so exactly when every record is
  acceptable, no slice that has bytes is \<open>NULL\<close>, the slices hold exactly the bytes the lengths
  need and the vector fits; otherwise (or without memory) it raises an R error and changes nothing.\<close>

theorem charpack_fill_slices_functional:
  assumes "heap_ok h" and len: "length cs = length ls" "length ls < 2 ^ 63" "length xs < 2 ^ 63"
    and s: "slices_hold h ss ns xs"
    and es: "es = cut_records ls cs (concat xs)"
    and w: "wide = (force_wide \<or> 4294967295 < length (concat xs))"
  shows "case fill_slices le (Some x) (of_nat (length ls)) (Some ls) (Some cs) (of_nat (length xs)) (Some ss) (Some ns)
        force_wide h of
      (Inl e, x', h') \<Rightarrow> (\<exists>m. e = R_error m) \<and> x' = Some x \<and> blocks h' = blocks h \<and>
        (\<not> charpack_is_unfilled x \<or> (\<exists>i < length ls. \<not> slices_fit ls cs i) \<or>
         (\<exists>k < length xs. xs ! k \<noteq> [] \<and> ss ! k = Null) \<or> records_total ls cs \<noteq> length (concat xs) \<or>
         \<not> pack_fits wide es \<or> (\<exists>k m. \<not> can_alloc h k m))
    | (Inr u, x', h') \<Rightarrow> charpack_is_unfilled x \<and> (\<forall>i < length ls. slices_fit ls cs i) \<and>
        records_total ls cs = length (concat xs) \<and> pack_fits wide es \<and>
        (\<exists>rb. x' = Some (x\<lparr>cp_data1 := Some rb\<rparr>) \<and> blocks h rb = None \<and>
           blocks h' = (blocks h)(rb \<mapsto> pack_raw le wide es))"
  by (rule fill_slices_ok [OF assms])

text \<open>Two slices cut in the middle of a string; the strings are \<open>"hi"\<close>, NA and \<open>"hi"\<close>.\<close>

theorem charpack_fill_slices_functional_witness:
  "\<exists>rb h'. fill_slices True (Some demo_unfilled) 3 (Some [2, NA_INTEGER, 2])
        (Some [CETYPE_EXT_UTF8, CETYPE_EXT_NA, CETYPE_EXT_ASCII]) 2 (Some [At 0 0, At 0 1]) (Some [1, 3]) False demo_heap
      = (Inr (), Some (demo_unfilled\<lparr>cp_data1 := Some rb\<rparr>), h') \<and>
     blocks h' rb = Some (pack_raw True False [Str [104, 105] CETYPE_EXT_UTF8, NA, Str [104, 105] CETYPE_EXT_ASCII])"
proof -
  let ?ls = "[2, NA_INTEGER, 2] :: c_int list" and ?cs = "[CETYPE_EXT_UTF8, CETYPE_EXT_NA, CETYPE_EXT_ASCII]"
    and ?xs = "[[104], [105, 104, 105]] :: u8 list list" and ?ss = "[At 0 0, At 0 1]" and ?ns = "[1, 3] :: size_t list"
  let ?es = "[Str [104, 105] CETYPE_EXT_UTF8, NA, Str [104, 105] CETYPE_EXT_ASCII]"
  have es: "?es = cut_records ?ls ?cs (concat ?xs)" by (simp add: record_is_na_def cetype_defs)
  have hold: "slices_hold demo_heap ?ss ?ns ?xs"
    by (simp add: slices_hold_def demo_heap_def All_less_Suc2 Ex_less_Suc2)
  have len: "length ?cs = length ?ls" "length ?ls < 2 ^ 63" "length ?xs < 2 ^ 63" by simp_all
  have wide: "False = (False \<or> 4294967295 < length (concat ?xs))" by simp
  have ok: "\<forall>i < length ?ls. slices_fit ?ls ?cs i" "charpack_is_unfilled demo_unfilled" "records_total ?ls ?cs = length (concat ?xs)"
    "pack_fits False ?es" "can_alloc demo_heap k m" "\<not> (\<exists>k < length ?xs. ?xs ! k \<noteq> [] \<and> ?ss ! k = Null)" for k m
    by (simp_all add: slices_fit_def record_fit_def record_is_na_def valid_view_encoding_def sint_c_int
        charpack_is_unfilled_def demo_unfilled_def records_total_def record_size_def
        pack_fits_def state_payload_def header_bytes_def offset_bytes_def demo_heap_def cetype_defs All_less_Suc2 Ex_less_Suc2)
  obtain r x' h' where r: "fill_slices True (Some demo_unfilled) (of_nat (length ?ls)) (Some ?ls) (Some ?cs)
      (of_nat (length ?xs)) (Some ?ss) (Some ?ns) False demo_heap = (r, x', h')" by (metis prod_cases3)
  from charpack_fill_slices_functional [OF heap_ok_demo len hold es wide, where le = True and x = demo_unfilled, unfolded r] ok
  have "r = Inr () \<and> (\<exists>rb. x' = Some (demo_unfilled\<lparr>cp_data1 := Some rb\<rparr>) \<and> blocks h' rb = Some (pack_raw True False ?es))"
    by (cases r) auto
  with r show ?thesis by auto
qed

end
