(* ===== verification/Cp_Packstate.thy ===== *)
theory Cp_Packstate
  imports Cp_Packfill
begin

unbundle bit_operations_syntax

text \<open>
  The serialized form of a charpack (\<open>src/charpack_altrep.h\<close>): the raw vector itself, with its
  words little-endian. \<open>state_error\<close> validates the bytes of a stream, \<open>swap_words\<close> converts between
  byte orders in place. Parameters: \<open>le\<close>, the host's byte order, and \<open>nu\<close>, whether R's native encoding
  is UTF-8. The theorems say that exactly the documented layouts are accepted, and what is made of them.
\<close>

section \<open>Words\<close>

definition read_word :: "bool \<Rightarrow> u8 list \<Rightarrow> nat \<Rightarrow> bool \<Rightarrow> bool \<Rightarrow> fault + u64" where
  "read_word le raw off wide swap =
     (if wide then charvec_read_u64 le raw off swap
      else and_then (get_bytes raw off 4) (\<lambda>bs.
        let out = load_word le bs :: u32 in Inr (ucast (if swap then charvec_bswap32 out else out))))"

section \<open>Validation\<close>

text \<open>The loop of \<open>state_error\<close> over the records left, and its last check; the result is what is wrong.\<close>

fun state_error_loop ::
    "bool \<Rightarrow> u8 list \<Rightarrow> bool \<Rightarrow> bool \<Rightarrow> u64 \<Rightarrow> nat \<Rightarrow> nat \<Rightarrow> nat list \<Rightarrow> u64 \<Rightarrow> fault + string option" where
  "state_error_loop le raw wide swap payload ends tags [] b =
     Inr (if b \<noteq> payload then Some ''state has trailing bytes'' else None)"
| "state_error_loop le raw wide swap payload ends tags (i # is) b =
     and_then (read_word le raw (ends + offset_bytes wide * i) wide swap) (\<lambda>e.
       if e < b \<or> e > payload then Inr (Some ''end offsets are out of order or past the payload'')
       else if \<not> check_r_string_len (e - b) then Inr (Some ''string size exceeds R string size'')
       else and_then (elt_at raw (tags + i)) (\<lambda>t.
         let tag = charport_cetype_ext t
         in if \<not> valid_view_encoding tag then Inr (Some ''invalid string encoding'')
            else if tag = CETYPE_EXT_NA \<and> e \<noteq> b then Inr (Some ''NA string must have zero length'')
            else state_error_loop le raw wide swap payload ends tags is e))"

definition state_error :: "bool \<Rightarrow> u8 list \<Rightarrow> size_t \<Rightarrow> bool \<Rightarrow> fault + string option" where
  "state_error le raw len swap =
     (if len < of_nat header_bytes then Inr (Some ''state is truncated'')
      else and_then (charvec_read_u64 le raw 0 swap) (\<lambda>head.
        let wide = (head AND wide_bit \<noteq> 0); n = head AND NOT wide_bit; width = of_nat (offset_bytes wide) :: size_t
        in if n > (len - of_nat header_bytes) div (width + 1) then Inr (Some ''state is truncated'')
           else
             let meta = of_nat header_bytes + n * (width + 1); payload = len - meta;
                 ends = header_bytes; tags = ends + unat (width * n)
             in state_error_loop le raw wide swap payload ends tags [0..<unat n] 0))"

section \<open>Byte order\<close>

definition swap_end_step :: "bool \<Rightarrow> bool \<Rightarrow> nat \<Rightarrow> u8 list \<Rightarrow> fault + u8 list" where
  "swap_end_step le wide i raw =
     and_then (read_word le raw (header_bytes + offset_bytes wide * i) wide True) (\<lambda>e.
       write_end le raw header_bytes wide i e)"

definition swap_words :: "bool \<Rightarrow> u8 list \<Rightarrow> bool \<Rightarrow> fault + u8 list" where
  "swap_words le raw head_native =
     and_then (charvec_read_u64 le raw 0 (\<not> head_native)) (\<lambda>head.
       let wide = (head AND wide_bit \<noteq> 0); n = unat (head AND NOT wide_bit)
       in and_then (charvec_read_u64 le raw 0 False) (\<lambda>h0.
          and_then (put_bytes raw 0 (store_word le 8 (charvec_bswap64 h0)))
            (for_each (swap_end_step le wide) [0..<n])))"

section \<open>Unserialize\<close>

text \<open>\<open>memchr\<close> for the native tag among the \<open>n\<close> tags.\<close>

definition pack_has_native :: "bool \<Rightarrow> u8 list \<Rightarrow> fault + bool" where
  "pack_has_native le raw =
     and_then (pack_parse le raw) (\<lambda>v.
       if pv_n v = 0 then Inr False
       else and_then (get_bytes raw (pv_tags v) (pv_n v)) (\<lambda>tags. Inr (tag_value CETYPE_EXT_NATIVE \<in> set tags)))"

definition retag_step :: "nat \<Rightarrow> nat \<Rightarrow> u8 list \<Rightarrow> fault + u8 list" where
  "retag_step tags i raw =
     and_then (elt_at raw (tags + i)) (\<lambda>t.
       if t = tag_value CETYPE_EXT_NATIVE then put_bytes raw (tags + i) [tag_value CETYPE_EXT_UTF8] else Inr raw)"

definition native_to_utf8 :: "bool \<Rightarrow> bool \<Rightarrow> u8 list \<Rightarrow> fault + u8 list" where
  "native_to_utf8 le nu raw =
     and_then (pack_has_native le raw) (\<lambda>native.
       if native \<and> \<not> nu
       then and_then (pack_parse le raw) (\<lambda>v. for_each (retag_step (pv_tags v)) [0..<pv_n v] raw)
       else Inr raw)"

text \<open>
  \<open>altrep\<close> tells whether a raw state is an ALTREP object. The result is a character vector, or a
  filled charpack whose raw vector is the state itself, changed in place.
\<close>

definition charpack_Unserialize ::
    "bool \<Rightarrow> bool \<Rightarrow> bool \<Rightarrow> 'c r_state \<Rightarrow> heap \<Rightarrow> (fault + 'c list + 'c charpack) \<times> heap" where
  "charpack_Unserialize le nu altrep state h =
     (case state of
        Strsxp xs \<Rightarrow> (Inr (Inl xs), h)
      | Other_sexp \<Rightarrow> (Inl (R_error ''charport charpack Unserialize: invalid serialized_state type''), h)
      | Rawsxp rb \<Rightarrow>
          if altrep
          then (Inl (R_error ''charport charpack Unserialize: serialized_state must be an ordinary raw vector''), h)
          else
            let raw = raw_bytes h rb; swap = (\<not> le)
            in (case state_error le raw (of_nat (length raw)) swap of
                  Inl e \<Rightarrow> (Inl e, h)
                | Inr (Some m) \<Rightarrow> (Inl (R_error (''charport charpack Unserialize: '' @ m)), h)
                | Inr None \<Rightarrow>
                    (case and_then (if swap then swap_words le raw False else Inr raw) (native_to_utf8 le nu) of
                       Inl e \<Rightarrow> (Inl e, h)
                     | Inr raw' \<Rightarrow>
                         (case alloc_object (h\<lparr>blocks := (blocks h)(rb \<mapsto> raw')\<rparr>) of
                            (Inl e, h1) \<Rightarrow> (Inl e, h1)
                          | (Inr u, h1) \<Rightarrow> (Inr (Inr \<lparr>cp_data1 = Some rb, cp_data2 = None\<rparr>), h1)))))"

section \<open>The words of a raw vector by position\<close>

definition wire_head :: "bool \<Rightarrow> u8 list \<Rightarrow> u64" where
  "wire_head lsb raw = wire_word lsb (take 8 raw)"

definition wire_wide :: "bool \<Rightarrow> u8 list \<Rightarrow> bool" where
  "wire_wide lsb raw \<longleftrightarrow> wire_head lsb raw AND wide_bit \<noteq> 0"

definition wire_n :: "bool \<Rightarrow> u8 list \<Rightarrow> nat" where
  "wire_n lsb raw = unat (wire_head lsb raw AND NOT wide_bit)"

definition wire_end :: "bool \<Rightarrow> bool \<Rightarrow> u8 list \<Rightarrow> nat \<Rightarrow> nat" where
  "wire_end lsb wide raw i =
     (let bs = take (offset_bytes wide) (drop (header_bytes + offset_bytes wide * i) raw)
      in if wide then unat (wire_word lsb bs :: u64) else unat (wire_word lsb bs :: u32))"

definition wire_begin :: "bool \<Rightarrow> bool \<Rightarrow> u8 list \<Rightarrow> nat \<Rightarrow> nat" where
  "wire_begin lsb wide raw i = (if i = 0 then 0 else wire_end lsb wide raw (i - 1))"

definition wire_tag :: "bool \<Rightarrow> u8 list \<Rightarrow> nat \<Rightarrow> nat \<Rightarrow> u8" where
  "wire_tag wide raw n i = raw ! (header_bytes + offset_bytes wide * n + i)"

definition pack_record_good :: "bool \<Rightarrow> bool \<Rightarrow> u8 list \<Rightarrow> nat \<Rightarrow> nat \<Rightarrow> nat \<Rightarrow> bool" where
  "pack_record_good lsb wide raw n payload i \<longleftrightarrow>
     wire_begin lsb wide raw i \<le> wire_end lsb wide raw i \<and> wire_end lsb wide raw i \<le> payload \<and>
     wire_end lsb wide raw i - wire_begin lsb wide raw i \<le> 2147483647 \<and>
     valid_view_encoding (Cetype (wire_tag wide raw n i)) \<and>
     (Cetype (wire_tag wide raw n i) = CETYPE_EXT_NA \<longrightarrow> wire_end lsb wide raw i = wire_begin lsb wide raw i)"

lemma read_word_narrow:
  "read_word le raw off False swap = and_then (charvec_read_u32 le raw off swap) (\<lambda>x. Inr (ucast x))"
  by (simp add: read_word_def charvec_read_u32_def Let_def split: sum.split)

lemma read_word_wire:
  assumes "off + offset_bytes wide \<le> length raw"
  shows "read_word le raw off wide (lsb \<noteq> le) =
     Inr (if wide then wire_word lsb (take (offset_bytes wide) (drop off raw))
          else ucast (wire_word lsb (take (offset_bytes wide) (drop off raw)) :: u32))"
proof (cases wide)
  case True
  then show ?thesis using assms unfolding True read_word_def if_True read_u64_wire by (simp add: offset_bytes_def)
next
  case False
  have "read_word le raw off False (lsb \<noteq> le) = Inr (ucast (wire_word lsb (take 4 (drop off raw)) :: u32))"
    unfolding read_word_narrow read_u32_wire using assms False by (simp add: offset_bytes_def)
  then show ?thesis using False by (simp add: offset_bytes_def)
qed

lemma read_word_end:
  assumes "header_bytes + offset_bytes wide * n \<le> length raw" and "i < n"
  shows "\<exists>e. read_word le raw (header_bytes + offset_bytes wide * i) wide (lsb \<noteq> le) = Inr e \<and>
    unat e = wire_end lsb wide raw i"
proof -
  have "header_bytes + offset_bytes wide * i + offset_bytes wide \<le> length raw"
    using offsets_room [OF assms(2), of wide] assms(1) by simp
  from read_word_wire [OF this, of le lsb] show ?thesis by (simp add: wire_end_def Let_def unat_ucast_u64 del: not_iff)
qed

lemma state_error_loop_spec:
  fixes payload :: u64
  assumes room: "header_bytes + (offset_bytes wide + 1) * n \<le> length raw"
    and "i \<le> n" and "unat b = wire_begin lsb wide raw i"
  shows "\<exists>r. state_error_loop le raw wide (lsb \<noteq> le) payload header_bytes (header_bytes + offset_bytes wide * n) [i..<n] b =
      Inr r \<and>
    (r = None \<longleftrightarrow> (\<forall>k. i \<le> k \<and> k < n \<longrightarrow> pack_record_good lsb wide raw n (unat payload) k) \<and>
       wire_begin lsb wide raw n = unat payload)"
  using assms(2,3)
proof (induction "n - i" arbitrary: i b)
  case 0
  then show ?case by (auto simp: word_unat_eq_iff)
next
  case (Suc m)
  then have i: "i < n" by simp
  let ?t = "header_bytes + offset_bytes wide * n"
  have tag: "elt_at raw (?t + i) = Inr (wire_tag wide raw n i)"
    using room i by (simp add: elt_at_def wire_tag_def)
  have "header_bytes + offset_bytes wide * n \<le> length raw" using room by simp
  then obtain e where e: "read_word le raw (header_bytes + offset_bytes wide * i) wide (lsb \<noteq> le) = Inr e"
    "unat e = wire_end lsb wide raw i"
    using read_word_end i by blast
  have good: "pack_record_good lsb wide raw n (unat payload) i \<longleftrightarrow>
      \<not> (e < b \<or> e > payload) \<and> check_r_string_len (e - b) \<and> valid_view_encoding (Cetype (wire_tag wide raw n i)) \<and>
      \<not> (Cetype (wire_tag wide raw n i) = CETYPE_EXT_NA \<and> e \<noteq> b)"
    using Suc.prems(2) e(2)
    by (auto simp: pack_record_good_def word_less_nat_alt unat_sub_word word_le_nat_alt word_unat_eq_iff)
  have rest: "\<exists>r. state_error_loop le raw wide (lsb \<noteq> le) payload header_bytes ?t [Suc i..<n] e = Inr r \<and>
      (r = None \<longleftrightarrow> (\<forall>k. Suc i \<le> k \<and> k < n \<longrightarrow> pack_record_good lsb wide raw n (unat payload) k) \<and>
         wire_begin lsb wide raw n = unat payload)"
    by (rule Suc.hyps(1)) (use Suc.hyps(2) i e(2) in \<open>auto simp: wire_begin_def\<close>)
  have split: "(\<forall>k. i \<le> k \<and> k < n \<longrightarrow> P k) \<longleftrightarrow> P i \<and> (\<forall>k. Suc i \<le> k \<and> k < n \<longrightarrow> P k)" for P
    using i by (metis Suc_leD Suc_le_eq le_eq_less_or_eq)
  let ?loop = "state_error_loop le raw wide (lsb \<noteq> le) payload header_bytes ?t"
  have step: "\<exists>m. ?loop [i..<n] b =
      (if pack_record_good lsb wide raw n (unat payload) i then ?loop [Suc i..<n] e else Inr (Some m))"
    unfolding good upt_conv_Cons [OF i] state_error_loop.simps e(1) and_then.simps tag Let_def charport_cetype_ext_def
    by (cases "e < b \<or> e > payload"; cases "check_r_string_len (e - b)";
        cases "valid_view_encoding (Cetype (wire_tag wide raw n i))") auto
  show ?case
    by (cases "pack_record_good lsb wide raw n (unat payload) i") (use step rest split in auto)
qed

section \<open>What is accepted\<close>

definition pack_state_ok :: "bool \<Rightarrow> u8 list \<Rightarrow> bool" where
  "pack_state_ok lsb raw \<longleftrightarrow>
     (let wide = wire_wide lsb raw; n = wire_n lsb raw; meta = header_bytes + (offset_bytes wide + 1) * n
      in header_bytes \<le> length raw \<and> meta \<le> length raw \<and>
         (\<forall>i < n. pack_record_good lsb wide raw n (length raw - meta) i) \<and>
         wire_begin lsb wide raw n = length raw - meta)"

lemma state_error_spec:
  assumes len: "length raw \<le> 4503599627370496"
  shows "\<exists>r. state_error le raw (of_nat (length raw)) (lsb \<noteq> le) = Inr r \<and> (r = None \<longleftrightarrow> pack_state_ok lsb raw)"
proof -
  let ?len = "of_nat (length raw) :: size_t"
  have ul: "unat ?len = length raw" using len by (intro unat_of_nat_u64) simp
  show ?thesis
  proof (cases "header_bytes \<le> length raw")
    case False
    then have "?len < of_nat header_bytes" using ul by (simp add: word_less_nat_alt header_bytes_def)
    then show ?thesis using False by (simp add: state_error_def pack_state_ok_def Let_def)
  next
    case True
    define wide where "wide = wire_wide lsb raw"
    define n where "n = wire_head lsb raw AND NOT wide_bit"
    define p where "p = offset_bytes wide + 1"
    have p: "p = 5 \<or> p = 9" "unat (of_nat (offset_bytes wide) + 1 :: size_t) = p"
      by (auto simp: p_def offset_bytes_def)
    have n: "unat n = wire_n lsb raw" by (simp add: n_def wire_n_def)
    have ge: "\<not> ?len < of_nat header_bytes" using ul True by (simp add: word_less_nat_alt header_bytes_def)
    have head: "charvec_read_u64 le raw 0 (lsb \<noteq> le) = Inr (wire_head lsb raw)"
      unfolding read_u64_wire using True by (simp add: wire_head_def header_bytes_def)
    have uh: "unat (?len - of_nat header_bytes) = length raw - 8"
      using ge ul by (subst unat_sub_word) (simp_all add: header_bytes_def not_less)
    then have "unat ((?len - of_nat header_bytes) div (of_nat (offset_bytes wide) + 1)) = (length raw - 8) div p"
      unfolding unat_div p(2) by simp
    then have many: "n > (?len - of_nat header_bytes) div (of_nat (offset_bytes wide) + 1) \<longleftrightarrow> length raw - 8 < unat n * p"
      using p(1) by (simp only: word_less_nat_alt) (auto simp: div_less_iff_less_mult)
    show ?thesis
    proof (cases "length raw - 8 < unat n * p")
      case over: True
      then have "state_error le raw ?len (lsb \<noteq> le) = Inr (Some ''state is truncated'')"
        using ge many by (simp add: state_error_def head Let_def flip: n_def wide_def wire_wide_def del: not_iff)
      moreover have "\<not> header_bytes + p * unat n \<le> length raw" using over by (simp add: header_bytes_def mult.commute)
      ultimately show ?thesis by (simp add: pack_state_ok_def Let_def p_def n flip: wide_def)
    next
      case False
      then have fit: "header_bytes + p * unat n \<le> length raw" using True by (simp add: header_bytes_def mult.commute)
      have "unat (n * (of_nat (offset_bytes wide) + 1)) = unat n * p"
        using unat_mult_u64 [of n "of_nat (offset_bytes wide) + 1", unfolded p(2)] False len by simp
      then have um: "unat (of_nat header_bytes + n * (of_nat (offset_bytes wide) + 1)) = header_bytes + p * unat n"
        using fit len by (subst unat_add_u64) (simp_all add: header_bytes_def mult.commute)
      then have pay: "unat (?len - (of_nat header_bytes + n * (of_nat (offset_bytes wide) + 1))) =
          length raw - (header_bytes + p * unat n)"
        using fit ul by (subst unat_sub_word) (simp_all add: word_le_nat_alt)
      have wn: "unat (of_nat (offset_bytes wide) * n) = offset_bytes wide * unat n"
      proof -
        have w: "unat (of_nat (offset_bytes wide) :: size_t) = offset_bytes wide" by (simp add: offset_bytes_def)
        have "offset_bytes wide * unat n \<le> length raw" using fit by (simp add: p_def)
        then show ?thesis using unat_mult_u64 [of "of_nat (offset_bytes wide)" n, unfolded w] len by simp
      qed
      have fit': "header_bytes + (offset_bytes wide + 1) * unat n \<le> length raw" using fit by (simp add: p_def)
      obtain r where "state_error le raw ?len (lsb \<noteq> le) = Inr r"
        "r = None \<longleftrightarrow> (\<forall>k. 0 \<le> k \<and> k < unat n \<longrightarrow>
            pack_record_good lsb wide raw (unat n) (length raw - (header_bytes + p * unat n)) k) \<and>
          wire_begin lsb wide raw (unat n) = length raw - (header_bytes + p * unat n)"
        using state_error_loop_spec [OF fit' le0, of 0 lsb le "?len - (of_nat header_bytes + n * (of_nat (offset_bytes wide) + 1))",
            unfolded pay] ge many False
        by (auto simp: state_error_def head Let_def wn wire_begin_def simp flip: n_def wide_def wire_wide_def simp del: not_iff)
      then show ?thesis using fit True by (simp add: pack_state_ok_def Let_def p_def n flip: wide_def)
    qed
  qed
qed

text \<open>An accepted state is the layout of the strings it holds.\<close>

definition pack_wire_element :: "bool \<Rightarrow> bool \<Rightarrow> u8 list \<Rightarrow> nat \<Rightarrow> nat \<Rightarrow> element" where
  "pack_wire_element lsb wide raw n i =
     element_of (Cetype (wire_tag wide raw n i))
       (take (wire_end lsb wide raw i - wire_begin lsb wide raw i)
          (drop (header_bytes + (offset_bytes wide + 1) * n + wire_begin lsb wide raw i) raw))"

definition pack_wire_elements :: "bool \<Rightarrow> u8 list \<Rightarrow> element list" where
  "pack_wire_elements lsb raw =
     map (pack_wire_element lsb (wire_wide lsb raw) raw (wire_n lsb raw)) [0..<wire_n lsb raw]"

lemma wire_head_parts: "pack_head (wire_wide lsb raw) (wire_n lsb raw) = wire_head lsb raw"
proof (rule bit_word_eqI)
  fix m :: nat assume m: "m < LENGTH(64)"
  have w: "bit wide_bit k \<longleftrightarrow> k = 63" for k
    unfolding wide_bit_def bit_push_bit_iff by (auto simp: bit_1_iff)
  have "wire_wide lsb raw \<longleftrightarrow> bit (wire_head lsb raw) 63"
  proof
    assume "wire_wide lsb raw"
    then obtain k where "bit (wire_head lsb raw AND wide_bit) k"
      unfolding wire_wide_def by (metis bit_eqI bit_0_eq bot_apply bot_bool_def)
    then show "bit (wire_head lsb raw) 63" by (auto simp: bit_and_iff w)
  next
    assume "bit (wire_head lsb raw) 63"
    then have "bit (wire_head lsb raw AND wide_bit) 63" by (simp add: bit_and_iff w)
    then show "wire_wide lsb raw" unfolding wire_wide_def by (metis bit_0_eq bot_apply bot_bool_def)
  qed
  then show "bit (pack_head (wire_wide lsb raw) (wire_n lsb raw)) m \<longleftrightarrow> bit (wire_head lsb raw) m"
    using m by (auto simp: pack_head_def wire_n_def bit_or_iff bit_and_iff bit_not_iff w)
qed

lemma four_pieces: "take a xs @ take b (drop a xs) @ take c (drop (a + b) xs) @ drop (a + b + c) xs = xs"
proof -
  have "take c (drop (a + b) xs) @ drop (a + b + c) xs = drop (a + b) xs"
    using append_take_drop_id [of c "drop (a + b) xs"] by (simp add: add.commute)
  moreover have "take b (drop a xs) @ drop (a + b) xs = drop a xs"
    using append_take_drop_id [of b "drop a xs"] by (simp add: add.commute)
  ultimately show ?thesis by simp
qed

lemma accepted_pack:
  assumes ok: "pack_state_ok lsb raw" and len: "length raw \<le> 4503599627370496"
  shows "raw = pack_raw lsb (wire_wide lsb raw) (pack_wire_elements lsb raw)"
    and "pack_fits (wire_wide lsb raw) (pack_wire_elements lsb raw)"
proof -
  define wide where "wide = wire_wide lsb raw"
  define n where "n = wire_n lsb raw"
  define es where "es = pack_wire_elements lsb raw"
  let ?w = "offset_bytes wide" and ?e = "wire_end lsb wide raw" and ?b = "wire_begin lsb wide raw"
  let ?meta = "header_bytes + (?w + 1) * n"
  let ?s = "\<lambda>i. ?e i - ?b i"
  have es: "es = map (pack_wire_element lsb wide raw n) [0..<n]" "length es = n"
    by (simp_all add: es_def pack_wire_elements_def wide_def n_def)
  have fit: "header_bytes \<le> length raw" "?meta \<le> length raw" "?b n = length raw - ?meta"
    and good: "\<And>i. i < n \<Longrightarrow> pack_record_good lsb wide raw n (length raw - ?meta) i"
    using ok unfolding pack_state_ok_def Let_def by (simp_all add: wide_def n_def)
  have before: "before ?s i = ?b i" if "i \<le> n" for i
    using that
  proof (induction i)
    case (Suc i)
    then show ?case using good [of i] by (simp add: pack_record_good_def wire_begin_def)
  qed (simp add: wire_begin_def)
  have room: "?meta + ?b i + ?s i \<le> length raw" if "i < n" for i
    using good [OF that] fit(2) by (auto simp: pack_record_good_def)
  have bytes: "elem_bytes (es ! i) = take (?s i) (drop (?meta + ?b i) raw)" if "i < n" for i
    using good [OF that] that by (auto simp: es pack_wire_element_def element_of_def pack_record_good_def)
  have lens: "length (elem_bytes (es ! i)) = ?s i" if "i < n" for i
    using bytes [OF that] room [OF that] by simp
  have tag: "elem_tag (es ! i) = wire_tag wide raw n i" if "i < n" for i
    using that by (auto simp: es pack_wire_element_def element_of_def cetype_defs)
  have st: "storable (es ! i)" if "i < n" for i
    using good [OF that] lens [OF that] that
    by (auto simp: es pack_wire_element_def element_of_def pack_record_good_def)
  have ends: "pack_end es (Suc i) = ?e i" if "i < n" for i
  proof -
    have "pack_end es (Suc i) = before ?s (Suc i)"
      unfolding pack_end_def by (rule before_cong) (use lens that in simp)
    then show ?thesis using before [of "Suc i"] that by (simp add: wire_begin_def)
  qed
  have payload: "drop ?meta raw = state_payload es"
  proof -
    have "state_payload es = concat (map (\<lambda>i. take (?s i) (drop (before ?s i) (drop ?meta raw))) [0..<n])"
      unfolding state_payload_def
      by (rule arg_cong [where f = concat], rule nth_equalityI) (use bytes before es(2) in \<open>simp_all add: add.commute\<close>)
    also have "\<dots> = drop ?meta raw"
      using concat_pieces [of ?s n "drop ?meta raw"] before [of n] fit(3) by simp
    finally show ?thesis ..
  qed
  have head: "take header_bytes raw = field lsb 8 (pack_head wide n)"
    unfolding wide_def n_def wire_head_parts wire_head_def using fit(1)
    by (subst field_wire_word) (simp_all add: header_bytes_def)
  have offsets: "take (?w * n) (drop header_bytes raw) = pack_ends lsb wide es"
  proof -
    have one: "end_field lsb wide (?e i) = take ?w (drop (?w * i) (drop header_bytes raw))" if "i < n" for i
    proof -
      let ?bs = "take ?w (drop (header_bytes + ?w * i) raw)"
      have l: "length ?bs = ?w" using offsets_room [OF that, of wide] fit(2) by simp
      then have "end_field lsb wide (?e i) = ?bs"
        by (cases wide) (simp_all add: wire_end_def end_field_def field_wire_word offset_bytes_def Let_def)
      then show ?thesis by (simp add: add.commute)
    qed
    have "pack_ends lsb wide es = concat (map (\<lambda>i. take ?w (drop (?w * i) (drop header_bytes raw))) [0..<n])"
      unfolding pack_ends_def es(2)
      by (rule arg_cong [where f = concat], rule map_cong [OF refl]) (use one ends in simp)
    also have "\<dots> = take (?w * n) (drop header_bytes raw)"
      using concat_pieces [of "\<lambda>i. ?w" n "drop header_bytes raw"] fit(2) by simp
    finally show ?thesis ..
  qed
  have tags: "take n (drop (header_bytes + ?w * n) raw) = map elem_tag es"
    by (rule nth_equalityI) (use fit(2) tag es(2) in \<open>auto simp: wire_tag_def\<close>)
  have "raw = take header_bytes raw @ take (?w * n) (drop header_bytes raw) @
      take n (drop (header_bytes + ?w * n) raw) @ drop ?meta raw"
    using four_pieces [of header_bytes raw "?w * n" n] by (simp add: algebra_simps)
  then have raw: "raw = pack_raw lsb wide es" unfolding pack_raw_def head offsets tags payload es(2) .
  then show "raw = pack_raw lsb (wire_wide lsb raw) (pack_wire_elements lsb raw)" unfolding wide_def es_def .
  have "length (state_payload es) < 4294967296" if "\<not> wide"
  proof (cases n)
    case 0
    then show ?thesis using es by (simp add: state_payload_def)
  next
    case (Suc m)
    then have "length (state_payload es) = ?e m" using ends [of m] pack_end_total [of es] es(2) by simp
    then show ?thesis using that unat_u32_bound by (simp add: wire_end_def Let_def)
  qed
  then show "pack_fits (wire_wide lsb raw) (pack_wire_elements lsb raw)"
    using len raw st es(2) unfolding wide_def [symmetric] es_def [symmetric]
    by (auto simp: pack_fits_def list_all_length length_pack_raw dest!: arg_cong [where f = length])
qed

text \<open>Every layout is accepted.\<close>

lemma pack_wire_parts:
  assumes fits: "pack_fits wide es" and raw: "raw = pack_raw lsb wide es"
  shows "wire_wide lsb raw = wide" and "wire_n lsb raw = length es"
    and "\<And>i. i < length es \<Longrightarrow> wire_end lsb wide raw i = pack_end es (Suc i)"
    and "\<And>i. i \<le> length es \<Longrightarrow> wire_begin lsb wide raw i = pack_end es i"
    and "\<And>i. i < length es \<Longrightarrow> wire_tag wide raw (length es) i = elem_tag (es ! i)"
proof -
  note n = pack_fitsD(1) [OF fits]
  have head: "wire_head lsb raw = pack_head wide (length es)"
    by (simp add: wire_head_def raw pack_head_at wire_word_field)
  show "wire_wide lsb raw = wide" "wire_n lsb raw = length es"
    using n by (simp_all add: wire_wide_def wire_n_def head pack_head_parts [OF n] unat_small)
  show e: "wire_end lsb wide raw i = pack_end es (Suc i)" if i: "i < length es" for i
  proof (cases wide)
    case True
    have "unat (of_nat (pack_end es (Suc i)) :: u64) = pack_end es (Suc i)"
      using pack_fitsD(3) [OF fits, of "Suc i"] i by (simp add: unat_of_nat_u64 del: of_nat_Suc)
    then show ?thesis
      using end_word(1) [OF fits, of "Suc i" lsb] i True pack_end_field_at [OF i, of wide lsb]
      by (simp add: wire_end_def raw Let_def)
  next
    case False
    have "unat (of_nat (pack_end es (Suc i)) :: u32) = pack_end es (Suc i)"
      using pack_fitsD(4) [OF fits False, of "Suc i"] i by (simp add: unat_of_nat_u32 del: of_nat_Suc)
    then show ?thesis
      using i False pack_end_field_at [OF i, of wide lsb]
      by (simp add: wire_end_def raw Let_def end_field_def wire_word_field)
  qed
  show "wire_begin lsb wide raw i = pack_end es i" if "i \<le> length es" for i
    using e [of "i - 1"] that by (cases i) (simp_all add: wire_begin_def)
  show "wire_tag wide raw (length es) i = elem_tag (es ! i)" if "i < length es" for i
    using pack_tag_at [OF that] by (simp add: wire_tag_def raw)
qed

lemma pack_accepted:
  assumes fits: "pack_fits wide es" and raw: "raw = pack_raw lsb wide es"
  shows "pack_state_ok lsb raw"
proof -
  note parts = pack_wire_parts [OF fits raw]
  let ?meta = "header_bytes + (offset_bytes wide + 1) * length es"
  have len: "length raw = ?meta + length (state_payload es)" by (simp add: raw length_pack_raw algebra_simps)
  have good: "pack_record_good lsb wide raw (length es) (length raw - ?meta) i" if i: "i < length es" for i
  proof -
    have "storable (es ! i)" using pack_fitsD(2) [OF fits i] .
    moreover have "pack_end es (Suc i) \<le> length (state_payload es)" using i by (intro pack_end_le) simp
    ultimately show ?thesis
      using parts(3-5) [of i] i pack_end_Suc [of es i] len
      by (cases "es ! i") (simp_all add: pack_record_good_def valid_view_encoding_def cetype_ext_t.expand)
  qed
  show ?thesis
    using good len parts(1,2,4) pack_end_total [of es] by (simp add: pack_state_ok_def Let_def)
qed

text \<open>So the bytes determine the strings.\<close>

lemma pack_wire_elements_raw:
  assumes fits: "pack_fits wide es" and raw: "raw = pack_raw lsb wide es"
  shows "pack_wire_elements lsb raw = es"
proof (rule nth_equalityI)
  note parts = pack_wire_parts [OF fits raw]
  show "length (pack_wire_elements lsb raw) = length es" by (simp add: pack_wire_elements_def parts(2))
  fix i assume "i < length (pack_wire_elements lsb raw)"
  then have i: "i < length es" by (simp add: pack_wire_elements_def parts(2))
  have "take (pack_end es (Suc i) - pack_end es i)
      (drop (header_bytes + (offset_bytes wide + 1) * length es + pack_end es i) raw) = elem_bytes (es ! i)"
    using pack_bytes_at [OF i, of wide lsb] by (simp add: raw pack_end_Suc)
  then show "pack_wire_elements lsb raw ! i = es ! i"
    using proper_element_of [OF storable_proper [OF pack_fitsD(2) [OF fits i]]] i parts(3-5) [of i]
    by (simp add: pack_wire_elements_def pack_wire_element_def parts(1,2))
qed

lemma pack_raw_inj:
  assumes "pack_raw lsb wide es = pack_raw lsb wide' es'" and "pack_fits wide es" and "pack_fits wide' es'"
  shows "wide = wide'" and "es = es'"
  using pack_wire_parts(1) [OF assms(2) refl, of lsb] pack_wire_parts(1) [OF assms(3) refl, of lsb]
    pack_wire_elements_raw [OF assms(2) refl, of lsb] pack_wire_elements_raw [OF assms(3) refl, of lsb] assms(1)
  by simp_all

section \<open>Byte order and tags\<close>

lemma rev_field: "rev (field lsb k x) = field (\<not> lsb) k x"
  by (simp add: field_def)

lemma ucast_ucast_u32: "ucast (ucast (x :: u32) :: u64) = x"
  using unat_u32_bound [of x] by (simp add: word_unat_eq_iff unat_ucast_u32 unat_ucast_u64)

lemma field_reversed:
  "length bs = k \<Longrightarrow> 8 * k \<le> LENGTH('a::len) \<Longrightarrow> field le k (wire_word (\<not> le) bs :: 'a word) = rev bs"
  using rev_field [of "\<not> le" k "wire_word (\<not> le) bs :: 'a word"] by (simp add: field_wire_word)

lemma pack_raw_same_after:
  assumes "header_bytes + offset_bytes wide * length es \<le> k"
  shows "pack_raw lsb wide es ! k = pack_raw lsb' wide es ! k"
proof -
  have "pack_raw b wide es ! k = (map elem_tag es @ state_payload es) ! (k - (header_bytes + offset_bytes wide * length es))" for b
    unfolding pack_raw_drops(2) [of wide es b, symmetric]
    using assms by (subst nth_drop) (simp_all add: length_pack_raw algebra_simps)
  then show ?thesis by simp
qed

text \<open>The bytes that writing a swapped word gives are the word's bytes reversed.\<close>

lemma swapped_end:
  assumes at: "take (offset_bytes wide) (drop (header_bytes + offset_bytes wide * i) raw) = end_field lsb wide e"
    and room: "header_bytes + offset_bytes wide * i + offset_bytes wide \<le> length raw"
  shows "swap_end_step le wide i raw =
    put_bytes raw (header_bytes + offset_bytes wide * i) (end_field (\<not> lsb) wide e)"
proof -
  have "read_word le raw (header_bytes + offset_bytes wide * i) wide True =
      Inr (if wide then wire_word (\<not> le) (end_field lsb wide e)
           else ucast (wire_word (\<not> le) (end_field lsb wide e) :: u32))"
    using read_word_wire [OF room, of le "\<not> le", unfolded at] by simp
  then show ?thesis
    by (cases wide) (simp_all add: swap_end_step_def write_end_def end_field_def store_word_field offset_bytes_def
        field_reversed rev_field ucast_ucast_u32)
qed

lemma swap_words_ok:
  assumes fits: "pack_fits wide es" and raw: "raw = pack_raw lsb wide es" and hn: "head_native = (lsb = le)"
  shows "swap_words le raw head_native = Inr (pack_raw (\<not> lsb) wide es)"
proof -
  let ?n = "length es" and ?w = "offset_bytes wide" and ?W = "pack_raw (\<not> lsb) wide es"
  note n = pack_fitsD(1) [OF fits]
  have len: "length raw = length ?W" "header_bytes + ?w * ?n \<le> length ?W" "8 \<le> length raw"
    by (simp_all add: raw length_pack_raw algebra_simps header_bytes_def)
  have head: "charvec_read_u64 le raw 0 (\<not> head_native) = Inr (pack_head wide ?n)"
    using read_head [of le lsb wide es] by (simp add: raw hn)
  define h0 where "h0 = (wire_word le (take 8 raw) :: u64)"
  have h0: "charvec_read_u64 le raw 0 False = Inr h0"
    using read_u64_wire [of le raw 0 le] len(3) by (simp add: h0_def)
  have "store_word le 8 (charvec_bswap64 h0) = field (\<not> lsb) 8 (pack_head wide ?n)"
  proof -
    have "charvec_read_u64 le raw 0 True = Inr (charvec_bswap64 h0)"
      using h0 by (auto simp: charvec_read_u64_def Let_def split: sum.splits)
    then have "charvec_bswap64 h0 = wire_word (\<not> le) (field lsb 8 (pack_head wide ?n))"
      using read_u64_wire [of le raw 0 "\<not> le"] len(3) pack_head_at [of lsb wide es] by (simp add: raw)
    then show ?thesis by (simp add: store_word_field field_reversed rev_field)
  qed
  moreover obtain raw1 where raw1: "put_bytes raw 0 (field (\<not> lsb) 8 (pack_head wide ?n)) = Inr raw1"
    "agrees ?W raw1 ({header_bytes + ?w * ?n..} \<union> {0..<8})" "agrees raw raw1 {8..}"
  proof -
    let ?ys = "field (\<not> lsb) 8 (pack_head wide ?n)"
    have "agrees ?W raw {header_bytes + ?w * ?n..}"
      using pack_raw_same_after [of wide es _ lsb "\<not> lsb"] len(1) by (simp add: agrees_def raw)
    moreover have "take (length ?ys) (drop 0 ?W) = ?ys" using pack_head_at [of "\<not> lsb" wide es] by simp
    moreover have "0 + length ?ys \<le> length ?W" using len(1,3) by simp
    ultimately obtain r where r: "put_bytes raw 0 ?ys = Inr r"
      "agrees ?W r ({header_bytes + ?w * ?n..} \<union> {0..<0 + length ?ys})"
      using put_bytes_agrees by blast
    then have "r = patch raw 0 ?ys" using len(3) by (simp add: put_bytes_def)
    then have "agrees raw r {8..}" using len(3) by (auto simp: agrees_def nth_patch)
    with r that show thesis by simp
  qed
  have "\<exists>s. for_each (swap_end_step le wide) [0..<?n] raw1 = Inr s \<and>
      agrees ?W s ({..<header_bytes + ?w * ?n} \<union> {header_bytes + ?w * ?n..}) \<and> agrees raw s {header_bytes + ?w * ?n..}"
  proof (rule for_each_invariant [where P = "\<lambda>i s. agrees ?W s ({..<header_bytes + ?w * i} \<union> {header_bytes + ?w * ?n..}) \<and>
      agrees raw s {header_bytes + ?w * i..}"])
    show "agrees ?W raw1 ({..<header_bytes + ?w * 0} \<union> {header_bytes + ?w * ?n..}) \<and> agrees raw raw1 {header_bytes + ?w * 0..}"
      using raw1(2,3) by (simp add: header_bytes_def Un_commute atLeast0LessThan)
    fix i s assume i: "0 \<le> i" "i < ?n"
      and s: "agrees ?W s ({..<header_bytes + ?w * i} \<union> {header_bytes + ?w * ?n..}) \<and> agrees raw s {header_bytes + ?w * i..}"
    let ?o = "header_bytes + ?w * i" and ?ys = "end_field (\<not> lsb) wide (pack_end es (Suc i))"
    have room: "?o + ?w \<le> length ?W" using offsets_room [OF i(2), of wide] len(2) by simp
    have ls: "length s = length ?W" using s by (simp add: agrees_def)
    have "take ?w (drop ?o s) = take ?w (drop ?o raw)"
      using s room ls len(1) by (intro nth_equalityI) (auto simp: agrees_def)
    then have "swap_end_step le wide i s = put_bytes s ?o ?ys"
      using pack_end_field_at [OF i(2), of wide lsb] room ls by (intro swapped_end) (simp_all add: raw)
    moreover have "take (length ?ys) (drop ?o ?W) = ?ys"
      using pack_end_field_at [OF i(2), of wide "\<not> lsb"] by simp
    ultimately obtain s' where s': "swap_end_step le wide i s = Inr s'"
      "agrees ?W s' ({..<?o} \<union> {header_bytes + ?w * ?n..} \<union> {?o..<?o + length ?ys})" "s' = patch s ?o ?ys"
      using put_bytes_agrees [OF conjunct1 [OF s], of ?o ?ys] room by (auto simp: put_bytes_def ls)
    have "agrees ?W s' ({..<header_bytes + ?w * Suc i} \<union> {header_bytes + ?w * ?n..})"
      using s'(2) by (rule agrees_subset) auto
    moreover have "agrees raw s' {header_bytes + ?w * Suc i..}"
      using s room ls len(1) unfolding s'(3) by (auto simp: agrees_def nth_patch)
    ultimately show "\<exists>s'. swap_end_step le wide i s = Inr s' \<and>
        agrees ?W s' ({..<header_bytes + ?w * Suc i} \<union> {header_bytes + ?w * ?n..}) \<and> agrees raw s' {header_bytes + ?w * Suc i..}"
      using s'(1) by blast
  qed simp
  then obtain s where s: "for_each (swap_end_step le wide) [0..<?n] raw1 = Inr s"
    "agrees ?W s ({..<header_bytes + ?w * ?n} \<union> {header_bytes + ?w * ?n..})" by blast
  from s(2) have "agrees ?W s {..<length ?W}" by (rule agrees_subset) auto
  then have "s = ?W" by (rule agrees_all)
  with s(1) raw1(1) calculation show ?thesis
    unfolding swap_words_def head h0 and_then.simps Let_def pack_head_parts [OF n] unat_small [OF n] by simp
qed

text \<open>Retagging.\<close>

lemma as_read_parts [simp]:
  "elem_bytes (as_read v2 nu e) = elem_bytes e"
  "elem_tag (as_read True nu e) = (if elem_tag e = tag_value CETYPE_EXT_NATIVE \<and> \<not> nu then tag_value CETYPE_EXT_UTF8 else elem_tag e)"
  "storable e \<Longrightarrow> storable (as_read v2 nu e)"
  by (cases e; simp add: cetype_ext_t.expand valid_view_encoding_def cetype_defs)+

lemma pack_raw_as_read:
  "pack_raw lsb wide (map (as_read v2 nu) es) =
     field lsb 8 (pack_head wide (length es)) @ pack_ends lsb wide es @ map (elem_tag \<circ> as_read v2 nu) es @ state_payload es"
proof -
  have "pack_end (map (as_read v2 nu) es) i = pack_end es i" if "i \<le> length es" for i
    unfolding pack_end_def by (rule before_cong) (use that in simp)
  then have "pack_ends lsb wide (map (as_read v2 nu) es) = pack_ends lsb wide es"
    unfolding pack_ends_def length_map
    by (intro arg_cong [where f = concat] map_cong refl) simp
  moreover have "state_payload (map (as_read v2 nu) es) = state_payload es"
    by (simp add: state_payload_def comp_def)
  ultimately show ?thesis by (simp add: pack_raw_def comp_def)
qed

lemma pack_fits_as_read: "pack_fits wide es \<Longrightarrow> pack_fits wide (map (as_read v2 nu) es)"
  by (auto simp: pack_fits_def list_all_iff state_payload_def comp_def)

lemma pack_has_native_ok:
  assumes "pack_fits wide es"
  shows "pack_has_native le (pack_raw le wide es) = Inr (has_native es)"
proof -
  have "take (length es) (drop (header_bytes + offset_bytes wide * length es) (pack_raw le wide es)) = map elem_tag es"
    unfolding pack_raw_drops(2) by simp
  then show ?thesis
    using pack_parse_raw [OF assms, of le]
    by (auto simp: pack_has_native_def pack_view_of_def get_bytes_def has_native_def length_pack_raw algebra_simps intro: rev_image_eqI)
qed

lemma agrees_update:
  "agrees W s S \<Longrightarrow> W ! k = t \<Longrightarrow> agrees W (s[k := t]) (insert k S)"
  "agrees W s S \<Longrightarrow> agrees W (s[k := t]) (S - {k})"
  by (cases "k < length s"; auto simp: agrees_def nth_list_update)+

lemma native_to_utf8_ok:
  assumes fits: "pack_fits wide es"
  shows "native_to_utf8 le nu (pack_raw le wide es) = Inr (pack_raw le wide (map (as_read True nu) es))"
proof (cases "has_native es \<and> \<not> nu")
  case False
  then have "map (elem_tag \<circ> as_read True nu) es = map elem_tag es" by (auto simp: has_native_def)
  then show ?thesis
    using False by (auto simp: native_to_utf8_def pack_has_native_ok [OF fits] pack_raw_as_read) (simp_all add: pack_raw_def)
next
  case True
  let ?n = "length es" and ?raw = "pack_raw le wide es" and ?W = "pack_raw le wide (map (as_read True nu) es)"
  let ?t = "header_bytes + offset_bytes wide * ?n"
  have len: "length ?raw = length ?W" "?t + ?n \<le> length ?W"
    by (simp_all add: length_pack_raw pack_raw_as_read state_payload_def header_bytes_def algebra_simps)
  have "agrees ?W ?raw ({..<?t} \<union> {?t + ?n..})"
  proof -
    define pre where "pre = field le 8 (pack_head wide ?n) @ pack_ends le wide es"
    have "?raw = pre @ map elem_tag es @ state_payload es" by (simp add: pack_raw_def pre_def)
    moreover have "?W = pre @ map (elem_tag \<circ> as_read True nu) es @ state_payload es"
      by (simp add: pack_raw_as_read pre_def)
    moreover have "length pre = ?t" by (simp add: pre_def header_bytes_def)
    ultimately show ?thesis by (auto simp: agrees_def nth_append simp del: list.map_comp)
  qed
  moreover have "agrees ?raw ?raw {?t..}" by (simp add: agrees_def)
  moreover have "\<exists>s. for_each (retag_step ?t) [0..<?n] ?raw = Inr s \<and>
      agrees ?W s ({..<?t + ?n} \<union> {?t + ?n..}) \<and> agrees ?raw s {?t + ?n..}"
  proof (rule for_each_invariant [where P = "\<lambda>i s. agrees ?W s ({..<?t + i} \<union> {?t + ?n..}) \<and> agrees ?raw s {?t + i..}"])
    show "agrees ?W ?raw ({..<?t + 0} \<union> {?t + ?n..}) \<and> agrees ?raw ?raw {?t + 0..}" using calculation by simp
    fix i s assume i: "0 \<le> i" "i < ?n"
      and s: "agrees ?W s ({..<?t + i} \<union> {?t + ?n..}) \<and> agrees ?raw s {?t + i..}"
    have ls: "length s = length ?W" "?t + i < length ?W" using s i len(2) by (simp_all add: agrees_def)
    have tag: "elt_at s (?t + i) = Inr (elem_tag (es ! i))"
      using s ls len(1) pack_tag_at [OF i(2), of le wide] by (auto simp: agrees_def elt_at_def)
    have Wt: "?W ! (?t + i) = elem_tag (as_read True nu (es ! i))"
      using pack_tag_at [of i "map (as_read True nu) es" le wide] i by simp
    define t where "t = elem_tag (as_read True nu (es ! i))"
    have s': "retag_step ?t i s = Inr (s[?t + i := t])"
    proof (cases "elem_tag (es ! i) = tag_value CETYPE_EXT_NATIVE")
      case nat: True
      then have "t = tag_value CETYPE_EXT_UTF8" using True by (simp add: t_def)
      then show ?thesis
        using nat ls tag by (simp add: retag_step_def put_bytes_def patch_def upd_conv_take_nth_drop)
    next
      case False
      then have "t = s ! (?t + i)" using tag ls by (simp add: t_def elt_at_def)
      then show ?thesis using False tag by (simp add: retag_step_def)
    qed
    have "agrees ?W (s[?t + i := t]) ({..<?t + Suc i} \<union> {?t + ?n..})"
      using agrees_update(1) [OF conjunct1 [OF s] Wt [folded t_def]] by (rule agrees_subset) auto
    moreover have "agrees ?raw (s[?t + i := t]) {?t + Suc i..}"
      using agrees_update(2) [OF conjunct2 [OF s]] by (rule agrees_subset) auto
    ultimately show "\<exists>s'. retag_step ?t i s = Inr s' \<and>
        agrees ?W s' ({..<?t + Suc i} \<union> {?t + ?n..}) \<and> agrees ?raw s' {?t + Suc i..}"
      using s' by blast
  qed simp
  ultimately obtain s where s: "for_each (retag_step ?t) [0..<?n] ?raw = Inr s"
    "agrees ?W s ({..<?t + ?n} \<union> {?t + ?n..})" by blast
  from s(2) have "agrees ?W s {..<length ?W}" by (rule agrees_subset) auto
  then have "s = ?W" by (rule agrees_all)
  then show ?thesis
    using True s(1) by (simp add: native_to_utf8_def pack_has_native_ok [OF fits] pack_parse_raw [OF fits] pack_view_of_def)
qed

section \<open>Unserialize accepts exactly the format\<close>

lemma charpack_Unserialize_raw:
  assumes h: "blocks h rb = Some raw" and len: "length raw \<le> 4503599627370496"
  shows "case charpack_Unserialize le nu False (Rawsxp rb :: 'c r_state) h of
      (Inl e, h') \<Rightarrow> (\<exists>m. e = R_error m) \<and> (\<forall>b. b \<noteq> rb \<longrightarrow> blocks h' b = blocks h b) \<and>
        ((\<nexists>wide es. raw = pack_raw True wide es \<and> pack_fits wide es) \<and> blocks h' = blocks h \<or>
         (\<exists>k m. \<not> can_alloc h k m))
    | (Inr (Inl xs), h') \<Rightarrow> False
    | (Inr (Inr x), h') \<Rightarrow>
        x = \<lparr>cp_data1 = Some rb, cp_data2 = None\<rparr> \<and>
        (\<exists>wide es. raw = pack_raw True wide es \<and> pack_fits wide es \<and>
           pack_fits wide (map (as_read True nu) es) \<and>
           blocks h' = (blocks h)(rb \<mapsto> pack_raw le wide (map (as_read True nu) es)))"
proof -
  let ?u = "charpack_Unserialize le nu False (Rawsxp rb :: 'c r_state) h"
  have rb: "raw_bytes h rb = raw" using h by (simp add: raw_bytes_def)
  obtain r where err: "state_error le raw (of_nat (length raw)) (\<not> le) = Inr r" "r = None \<longleftrightarrow> pack_state_ok True raw"
    using state_error_spec [OF len, of le True] by auto
  show ?thesis
  proof (cases r)
    case (Some m)
    then have "?u = (Inl (R_error (''charport charpack Unserialize: '' @ m)), h)"
      using rb err by (simp add: charpack_Unserialize_def Let_def)
    moreover have "\<nexists>wide es. raw = pack_raw True wide es \<and> pack_fits wide es"
      using err(2) Some pack_accepted by blast
    ultimately show ?thesis by simp
  next
    case None
    define wide where "wide = wire_wide True raw"
    define es where "es = pack_wire_elements True raw"
    have acc: "raw = pack_raw True wide es" "pack_fits wide es"
      using accepted_pack [of True raw] err(2) None len by (simp_all add: wide_def es_def)
    have host: "(if \<not> le then swap_words le raw False else Inr raw) = Inr (pack_raw le wide es)"
      using swap_words_ok [OF acc(2,1), of False le] acc(1) by (cases le) auto
    define h1 where "h1 = h\<lparr>blocks := (blocks h)(rb \<mapsto> pack_raw le wide (map (as_read True nu) es))\<rparr>"
    obtain q h2 where al: "alloc_object h1 = (q, h2)" by fastforce
    have u: "?u = (case q of Inl e \<Rightarrow> (Inl e, h2) | Inr u \<Rightarrow> (Inr (Inr \<lparr>cp_data1 = Some rb, cp_data2 = None\<rparr>), h2))"
      using rb err None host al native_to_utf8_ok [OF acc(2), of le nu]
      by (simp add: charpack_Unserialize_def Let_def h1_def [symmetric])
    note al' = allocVector_blocks [OF al [unfolded alloc_object_def]]
    show ?thesis
    proof (cases q)
      case (Inl e)
      then show ?thesis
        using u al' allocVector_fail [OF al [unfolded alloc_object_def Inl]] by (simp add: h1_def)
    next
      case (Inr w)
      then show ?thesis using u al' acc pack_fits_as_read [OF acc(2)] by (auto simp: h1_def)
    qed
  qed
qed

text \<open>C22. \<open>Unserialize\<close> on any bytes a raw vector can hold, on a host of either byte order, makes
  a charpack exactly when the bytes are the documented little-endian layout of some strings R can
  hold; the charpack then holds those strings (native text as UTF-8 outside a UTF-8 locale) in the
  layout of the host, converted in place in the raw vector itself, with nothing else changed. All
  other bytes, an ALTREP raw vector and other objects raise an R error; a character vector comes
  back as it is. Nothing is ever read or written outside the raw vector.\<close>

theorem charpack_unserialize_exact:
  assumes h: "blocks h rb = Some raw" and len: "length raw \<le> 4503599627370496"
  shows "(case charpack_Unserialize le nu False (Rawsxp rb :: 'c r_state) h of
      (Inl e, h') \<Rightarrow> (\<exists>m. e = R_error m) \<and> (\<forall>b. b \<noteq> rb \<longrightarrow> blocks h' b = blocks h b) \<and>
        ((\<nexists>wide es. raw = pack_raw True wide es \<and> pack_fits wide es) \<and> blocks h' = blocks h \<or>
         (\<exists>k m. \<not> can_alloc h k m))
    | (Inr (Inl xs), h') \<Rightarrow> False
    | (Inr (Inr x), h') \<Rightarrow>
        x = \<lparr>cp_data1 = Some rb, cp_data2 = None\<rparr> \<and>
        (\<exists>wide es. raw = pack_raw True wide es \<and> pack_fits wide es \<and>
           pack_fits wide (map (as_read True nu) es) \<and>
           blocks h' = (blocks h)(rb \<mapsto> pack_raw le wide (map (as_read True nu) es)))) \<and>
    (\<exists>m. charpack_Unserialize le nu True (Rawsxp rb :: 'c r_state) h = (Inl (R_error m), h)) \<and>
    (\<exists>m. charpack_Unserialize le nu altrep (Other_sexp :: 'c r_state) h = (Inl (R_error m), h)) \<and>
    charpack_Unserialize le nu altrep (Strsxp ss) h = (Inr (Inl ss), h)"
  by (intro conjI charpack_Unserialize_raw [OF assms]) (simp_all add: charpack_Unserialize_def)

theorem charpack_unserialize_exact_witness:
  "\<exists>h h'. blocks h 5 = Some (pack_raw True False [Str [104, 105] CETYPE_EXT_NATIVE, NA]) \<and>
     charpack_Unserialize False False False (Rawsxp 5 :: nat r_state) h =
       (Inr (Inr \<lparr>cp_data1 = Some 5, cp_data2 = None\<rparr>), h') \<and>
     blocks h' 5 = Some (pack_raw False False [Str [104, 105] CETYPE_EXT_UTF8, NA])"
proof -
  let ?es = "[Str [104, 105] CETYPE_EXT_NATIVE, NA]" and ?es' = "[Str [104, 105] CETYPE_EXT_UTF8, NA]"
  define h where "h = demo_heap\<lparr>blocks := [5 \<mapsto> pack_raw True False ?es]\<rparr>"
  have fits: "pack_fits False ?es"
    by (simp add: pack_fits_def state_payload_def header_bytes_def offset_bytes_def valid_view_encoding_def cetype_defs)
  have h: "blocks h 5 = Some (pack_raw True False ?es)" "can_alloc h k m" for k m
    by (simp_all add: h_def demo_heap_def)
  have len: "length (pack_raw True False ?es) \<le> 4503599627370496"
    by (simp add: length_pack_raw state_payload_def header_bytes_def offset_bytes_def)
  obtain r h' where r: "charpack_Unserialize False False False (Rawsxp 5 :: nat r_state) h = (r, h')" by fastforce
  note u = conjunct1 [OF charpack_unserialize_exact [OF h(1) len, where le = False and nu = False and 'c = nat], unfolded r]
  have "as_read True False (Str [104, 105] CETYPE_EXT_NATIVE) = Str [104, 105] CETYPE_EXT_UTF8" by simp
  then have as: "map (as_read True False) ?es = ?es'" by simp
  have "r = Inr (Inr \<lparr>cp_data1 = Some 5, cp_data2 = None\<rparr>) \<and> blocks h' 5 = Some (pack_raw False False ?es')"
  proof (cases r)
    case (Inl e)
    then show ?thesis using u fits h(2) by auto
  next
    case (Inr q)
    then obtain x where q: "q = Inr x" using u by (cases q) auto
    with u Inr obtain wide es where x: "x = \<lparr>cp_data1 = Some 5, cp_data2 = None\<rparr>"
      "pack_raw True False ?es = pack_raw True wide es" "pack_fits wide es"
      "blocks h' = (blocks h)(5 \<mapsto> pack_raw False wide (map (as_read True False) es))" by auto
    have "wide = False" "es = ?es" using pack_raw_inj [OF x(2) fits x(3)] by simp_all
    then show ?thesis using x Inr q as by simp
  qed
  with r h(1) show ?thesis by blast
qed

end
