(* ===== verification/Cp_Packvec.thy ===== *)
theory Cp_Packvec
  imports Cp_Packstate
begin

text \<open>
  The charpack as R sees it (\<open>struct charpack_altrep\<close> of \<open>src/charpack_altrep.h\<close>): length, elements,
  assignment, data pointer, NA query, duplication and serialization. The instance is unfilled, filled
  (\<open>cp_data1\<close> is the raw vector, which never changes) or materialized (\<open>cp_data2\<close> is a character
  vector); asking for an element materializes all of them. A character vector is the list of its
  \<open>CHARSXP\<close>s; indices are those R has checked.
\<close>

section \<open>Operations\<close>

definition charpack_Length :: "bool \<Rightarrow> 'c charpack \<Rightarrow> heap \<Rightarrow> fault + nat" where
  "charpack_Length le x h =
     (case cp_data2 x of
        Some xs \<Rightarrow> Inr (length xs)
      | None \<Rightarrow> (case cp_data1 x of None \<Rightarrow> Inr 0 | Some rb \<Rightarrow> pack_length le (raw_bytes h rb)))"

definition charpack_state_name :: "'c charpack \<Rightarrow> string" where
  "charpack_state_name x =
     (if cp_data2 x \<noteq> None then ''materialized'' else if cp_data1 x \<noteq> None then ''filled'' else ''unfilled'')"

text \<open>\<open>strings\<close>: one pass over the records; the state is the new vector and where the record begins.\<close>

definition strings_step ::
    "'c r_strings \<Rightarrow> bool \<Rightarrow> heap \<Rightarrow> blk \<Rightarrow> pack_view \<Rightarrow> nat \<Rightarrow> 'c list \<times> u64 \<Rightarrow> fault + 'c list \<times> u64" where
  "strings_step R le h rb v i s =
     (case s of (out, b) \<Rightarrow>
        and_then (tag_at (raw_bytes h rb) v i) (\<lambda>t.
        and_then (pack_end_at le (raw_bytes h rb) v i) (\<lambda>e.
          let enc = charport_cetype_ext t
          in if enc = CETYPE_EXT_NA then Inr (out[i := NA_STRING R], e)
             else (case mem_read h (At rb (pv_bytes v + unat b)) (unat (ucast (e - b) :: c_int)) of
                     None \<Rightarrow> Inl Undefined
                   | Some bs \<Rightarrow> and_then (mkCharLenCE R bs (to_base_encoding enc)) (\<lambda>x. Inr (out[i := x], e))))))"

definition charpack_strings :: "'c r_strings \<Rightarrow> bool \<Rightarrow> blk \<Rightarrow> heap \<Rightarrow> (fault + 'c list) \<times> heap" where
  "charpack_strings R le rb h =
     (case pack_length le (raw_bytes h rb) of
        Inl e \<Rightarrow> (Inl e, h)
      | Inr n \<Rightarrow>
          (case allocVector (8 * n) h of
             (Inl e, h1) \<Rightarrow> (Inl e, h1)
           | (Inr u, h1) \<Rightarrow>
               (and_then (pack_parse le (raw_bytes h1 rb)) (\<lambda>v.
                  and_then (for_each (strings_step R le h1 rb v) [0..<pv_n v] (replicate n (R_BlankString R), 0))
                    (\<lambda>s. Inr (fst s))), h1)))"

definition charpack_Materialize ::
    "'c r_strings \<Rightarrow> bool \<Rightarrow> 'c charpack \<Rightarrow> heap \<Rightarrow> (fault + 'c list) \<times> 'c charpack \<times> heap" where
  "charpack_Materialize R le x h =
     (case cp_data2 x of
        Some xs \<Rightarrow> (Inr xs, x, h)
      | None \<Rightarrow>
          (case (case cp_data1 x of
                   None \<Rightarrow> (case allocVector 0 h of (Inl e, h1) \<Rightarrow> (Inl e, h1) | (Inr u, h1) \<Rightarrow> (Inr [], h1))
                 | Some rb \<Rightarrow> charpack_strings R le rb h) of
             (Inl e, h1) \<Rightarrow> (Inl e, x, h1)
           | (Inr xs, h1) \<Rightarrow> (Inr xs, x\<lparr>cp_data1 := None, cp_data2 := Some xs\<rparr>, h1)))"

definition charpack_Elt ::
    "'c r_strings \<Rightarrow> bool \<Rightarrow> 'c charpack \<Rightarrow> nat \<Rightarrow> heap \<Rightarrow> (fault + 'c) \<times> 'c charpack \<times> heap" where
  "charpack_Elt R le x i h =
     (case charpack_Materialize R le x h of (r, x1, h1) \<Rightarrow> (and_then r (\<lambda>xs. elt_at xs i), x1, h1))"

definition charpack_Set_elt ::
    "'c r_strings \<Rightarrow> bool \<Rightarrow> 'c charpack \<Rightarrow> nat \<Rightarrow> 'c \<Rightarrow> heap \<Rightarrow> (fault + unit) \<times> 'c charpack \<times> heap" where
  "charpack_Set_elt R le x i c h =
     (case charpack_Materialize R le x h of
        (Inl e, x1, h1) \<Rightarrow> (Inl e, x1, h1)
      | (Inr xs, x1, h1) \<Rightarrow>
          (case set_elt_at xs i c of
             Inl e \<Rightarrow> (Inl e, x1, h1)
           | Inr xs' \<Rightarrow> (Inr (), x1\<lparr>cp_data2 := Some xs'\<rparr>, h1)))"

definition charpack_Dataptr ::
    "'c r_strings \<Rightarrow> bool \<Rightarrow> 'c charpack \<Rightarrow> heap \<Rightarrow> (fault + 'c list) \<times> 'c charpack \<times> heap" where
  "charpack_Dataptr R le x h = charpack_Materialize R le x h"

definition charpack_Dataptr_or_null :: "'c charpack \<Rightarrow> 'c list option" where
  "charpack_Dataptr_or_null x = cp_data2 x"

text \<open>A duplicate is a character vector, or a charpack that shares the raw vector.\<close>

definition charpack_Duplicate :: "'c charpack \<Rightarrow> heap \<Rightarrow> (fault + 'c list + 'c charpack) \<times> heap" where
  "charpack_Duplicate x h =
     (case cp_data2 x of
        Some xs \<Rightarrow>
          (case allocVector (8 * length xs) h of (Inl e, h1) \<Rightarrow> (Inl e, h1) | (Inr u, h1) \<Rightarrow> (Inr (Inl xs), h1))
      | None \<Rightarrow>
          (case cp_data1 x of
             None \<Rightarrow> (case allocVector 0 h of (Inl e, h1) \<Rightarrow> (Inl e, h1) | (Inr u, h1) \<Rightarrow> (Inr (Inl []), h1))
           | Some rb \<Rightarrow>
               (case alloc_object h of
                  (Inl e, h1) \<Rightarrow> (Inl e, h1)
                | (Inr u, h1) \<Rightarrow> (Inr (Inr \<lparr>cp_data1 = Some rb, cp_data2 = None\<rparr>), h1))))"

definition charpack_No_NA :: "'c r_strings \<Rightarrow> bool \<Rightarrow> 'c charpack \<Rightarrow> heap \<Rightarrow> fault + bool" where
  "charpack_No_NA R le x h =
     (case cp_data2 x of
        Some xs \<Rightarrow> Inr (no_NA_scan R xs)
      | None \<Rightarrow>
          (case cp_data1 x of
             None \<Rightarrow> Inr True
           | Some rb \<Rightarrow>
               and_then (pack_parse le (raw_bytes h rb)) (\<lambda>v.
                 if pv_n v = 0 then Inr True
                 else and_then (get_bytes (raw_bytes h rb) (pv_tags v) (pv_n v)) (\<lambda>tags.
                        Inr (tag_value CETYPE_EXT_NA \<notin> set tags)))))"

text \<open>The result is \<open>None\<close> for a null state.\<close>

definition charpack_Serialized_state ::
    "bool \<Rightarrow> bool \<Rightarrow> 'c r_strings \<Rightarrow> 'c charpack \<Rightarrow> heap \<Rightarrow> (fault + 'c r_state option) \<times> heap" where
  "charpack_Serialized_state le nu R x h =
     (case cp_data2 x of
        Some xs \<Rightarrow> (Inr (Some (Strsxp xs)), h)
      | None \<Rightarrow>
          (case cp_data1 x of
             None \<Rightarrow> (Inr None, h)
           | Some rb \<Rightarrow>
               (case pack_has_native le (raw_bytes h rb) of
                  Inl e \<Rightarrow> (Inl e, h)
                | Inr native \<Rightarrow>
                    if native \<and> \<not> nu
                    then (case charpack_strings R le rb h of
                            (Inl e, h1) \<Rightarrow> (Inl e, h1) | (Inr xs, h1) \<Rightarrow> (Inr (Some (Strsxp xs)), h1))
                    else if le then (Inr (Some (Rawsxp rb)), h)
                    else
                      (case alloc_raw_vector (length (raw_bytes h rb)) h of
                         (Inl e, h1) \<Rightarrow> (Inl e, h1)
                       | (Inr sb, h1) \<Rightarrow>
                           (case swap_words le (raw_bytes h1 rb) True of
                              Inl e \<Rightarrow> (Inl e, h1)
                            | Inr raw \<Rightarrow> (Inr (Some (Rawsxp sb)), h1\<lparr>blocks := (blocks h1)(sb \<mapsto> raw)\<rparr>))))))"

section \<open>The strings of a charpack\<close>

lemma pack_length_ok: "pack_fits wide es \<Longrightarrow> pack_length le (pack_raw le wide es) = Inr (length es)"
  by (simp add: pack_length_def pack_parse_raw pack_view_of_def)

text \<open>One pass makes the \<open>CHARSXP\<close>s of the strings, up to the first that cannot be made.\<close>

lemma strings_step_ok:
  assumes raw: "blocks h rb = Some (pack_raw le wide es)" and fits: "pack_fits wide es" and i: "i < length es"
  shows "strings_step R le h rb (pack_view_of wide es) i (out, of_nat (pack_end es i)) =
    and_then (charsxp_of R (es ! i)) (\<lambda>x. Inr (out[i := x], of_nat (pack_end es (Suc i))))"
proof -
  let ?v = "pack_views rb wide es ! i"
  have rb: "raw_bytes h rb = pack_raw le wide es" using raw by (simp add: raw_bytes_def)
  note reads = pack_reads [OF fits i, of le]
  note parts = pack_parts [OF fits i, of rb]
  have s: "storable (es ! i)" using pack_fitsD(2) [OF fits i] .
  show ?thesis
  proof (cases "es ! i")
    case NA
    then show ?thesis by (simp add: strings_step_def rb reads Let_def charport_cetype_ext_def)
  next
    case (Str bs c)
    have c: "c \<noteq> CETYPE_EXT_NA" "length bs \<le> 2147483647" using s Str by simp_all
    have e: "pack_end es (Suc i) = pack_end es i + length bs" using Str by (simp add: pack_end_Suc)
    have u: "unat (of_nat (pack_end es i) :: u64) = pack_end es i"
      using pack_fitsD(3) [OF fits, of i] i by (simp add: unat_of_nat_u64)
    have "unat (of_nat (length bs) :: u64) = length bs" using c(2) by (simp add: unat_of_nat_u64)
    then have "unat (ucast (of_nat (length bs) :: u64) :: c_int) = length bs" using c(2) by (simp add: unat_ucast_u32)
    then have len: "unat (ucast (of_nat (pack_end es (Suc i)) - of_nat (pack_end es i) :: u64) :: c_int) = length bs"
      by (simp add: e)
    let ?off = "header_bytes + (offset_bytes wide + 1) * length es + pack_end es i"
    have "?off + length bs \<le> length (pack_raw le wide es)"
      using pack_end_le [of "Suc i" es] i e by (simp add: length_pack_raw algebra_simps)
    moreover have "take (length bs) (drop ?off (pack_raw le wide es)) = bs"
      using pack_bytes_at [OF i, of wide le] Str by simp
    ultimately have "mem_read h (At rb ?off) (length bs) = Some bs" using raw by simp
    then have "mem_read h (At rb (pv_bytes (pack_view_of wide es) + unat (of_nat (pack_end es i) :: u64))) (length bs) = Some bs"
      unfolding u by (simp add: pack_view_of_def)
    then show ?thesis
      using Str c len reads unfolding strings_step_def prod.case rb
      by (simp add: Let_def charport_cetype_ext_def del: mem_read.simps)
  qed
qed

lemma charpack_strings_ok:
  assumes raw: "blocks h rb = Some (pack_raw le wide es)" and fits: "pack_fits wide es"
    and f: "charpack_strings R le rb h = (r, h')"
  shows "blocks h' = blocks h \<and> next_blk h' = next_blk h \<and> can_alloc h' = can_alloc h \<and>
    (r = collect (map (charsxp_of R) es) \<or> (\<exists>m. r = Inl (R_error m)) \<and> (\<exists>k m. \<not> can_alloc h k m))"
proof -
  let ?n = "length es" and ?vs = "map (charsxp_of R) es"
  have rb: "raw_bytes h rb = pack_raw le wide es" using raw by (simp add: raw_bytes_def)
  obtain q h1 where a: "allocVector (8 * ?n) h = (q, h1)" by fastforce
  note b = allocVector_blocks [OF a] allocVector_can_alloc [OF a]
  show ?thesis
  proof (cases q)
    case (Inl e)
    then have "r = Inl e" "h' = h1" using f a by (simp_all add: charpack_strings_def rb pack_length_ok [OF fits])
    then show ?thesis using b allocVector_fail [OF a [unfolded Inl]] by auto
  next
    case (Inr u)
    let ?body = "strings_step R le h1 rb (pack_view_of wide es)"
    have raw1: "blocks h1 rb = Some (pack_raw le wide es)" "raw_bytes h1 rb = pack_raw le wide es"
      using raw b by (simp_all add: raw_bytes_def)
    have all: "collect ?vs = Inr out" if "made ?vs ?n out" for out
      using made_all [of ?vs out] that by simp
    have "case for_each ?body [0..<?n] (replicate ?n (R_BlankString R), 0) of
        Inl e \<Rightarrow> collect ?vs = Inl e
      | Inr s \<Rightarrow> \<exists>out. s = (out, of_nat (pack_end es ?n)) \<and> length out = ?n \<and> made ?vs ?n out"
    proof (rule for_each_result [where P = "\<lambda>k (s :: 'a list \<times> u64). \<exists>out. s = (out, of_nat (pack_end es k)) \<and> length out = ?n \<and> made ?vs k out"])
      show "\<exists>out. (replicate ?n (R_BlankString R), 0) = (out, of_nat (pack_end es 0)) \<and> length out = ?n \<and> made ?vs 0 out"
        by (simp add: made_def)
      fix k and s :: "'a list \<times> u64"
      assume k: "0 \<le> k" "k < ?n" and "\<exists>out. s = (out, of_nat (pack_end es k)) \<and> length out = ?n \<and> made ?vs k out"
      then obtain out where s: "s = (out, of_nat (pack_end es k))" "length out = ?n" "made ?vs k out" by blast
      show "case ?body k s of Inl e \<Rightarrow> collect ?vs = Inl e
        | Inr s' \<Rightarrow> \<exists>out. s' = (out, of_nat (pack_end es (Suc k))) \<and> length out = ?n \<and> made ?vs (Suc k) out"
      proof (cases "charsxp_of R (es ! k)")
        case (Inl e)
        then show ?thesis using made_error [OF s(3)] k(2) by (simp add: s(1) strings_step_ok [OF raw1(1) fits k(2)])
      next
        case (Inr x)
        then show ?thesis using made_step [OF s(3)] k(2) s(2) by (simp add: s(1) strings_step_ok [OF raw1(1) fits k(2)])
      qed
    qed simp
    then have "and_then (for_each ?body [0..<?n] (replicate ?n (R_BlankString R), 0)) (\<lambda>s. Inr (fst s)) = collect ?vs"
      by (auto simp: all split: sum.splits)
    then have "r = collect ?vs" "h' = h1"
      using f a Inr raw1(2)
      by (simp_all add: charpack_strings_def rb pack_length_ok [OF fits] pack_parse_raw [OF fits] pack_view_of_def)
    then show ?thesis using b by simp
  qed
qed

section \<open>A charpack is a character vector\<close>

text \<open>What the elements of an instance are, as R's \<open>CHARSXP\<close>s.\<close>

definition charpack_holds :: "'c r_strings \<Rightarrow> bool \<Rightarrow> 'c charpack \<Rightarrow> heap \<Rightarrow> (fault + 'c) list \<Rightarrow> bool" where
  "charpack_holds R le x h vs \<longleftrightarrow>
     (case cp_data2 x of
        Some xs \<Rightarrow> cp_data1 x = None \<and> vs = map Inr xs
      | None \<Rightarrow>
          (case cp_data1 x of
             None \<Rightarrow> vs = []
           | Some rb \<Rightarrow>
               \<exists>wide es. blocks h rb = Some (pack_raw le wide es) \<and> pack_fits wide es \<and> vs = map (charsxp_of R) es))"

lemma charpack_holds_same: "blocks h' = blocks h \<Longrightarrow> charpack_holds R le x h' vs = charpack_holds R le x h vs"
  by (auto simp: charpack_holds_def split: option.splits)

lemma collect_map_Inr: "collect vs = Inr xs \<Longrightarrow> vs = map Inr xs"
proof (induction vs arbitrary: xs)
  case (Cons v vs)
  then show ?case by (cases v) (auto elim!: and_then_cases)
qed simp

text \<open>Materializing gives all elements, or the first error and leaves the instance as it was.\<close>

lemma charpack_Materialize_ok:
  assumes hold: "charpack_holds R le x h vs" and R: "r_strings_ok R"
    and f: "charpack_Materialize R le x h = (r, x', h')"
  shows "blocks h' = blocks h \<and> can_alloc h' = can_alloc h \<and>
    (case r of
       Inl e \<Rightarrow> (\<exists>m. e = R_error m) \<and> x' = x \<and> (collect vs = Inl e \<or> (\<exists>k m. \<not> can_alloc h k m))
     | Inr xs \<Rightarrow> vs = map Inr xs \<and> x' = \<lparr>cp_data1 = None, cp_data2 = Some xs\<rparr>)"
proof -
  have err: "\<exists>m. e = R_error m" if c: "collect (map (charsxp_of R) es) = Inl e" for e es
  proof -
    obtain y where y: "charsxp_of R y = Inl e" using collect_error [OF c] by auto
    then obtain bs c where m: "mkCharLenCE R bs (to_base_encoding c) = Inl e" by (cases y) auto
    have "case mkCharLenCE R bs (to_base_encoding c) of Inl e \<Rightarrow> (\<exists>m. e = R_error m) | Inr x \<Rightarrow> x \<noteq> NA_STRING R"
      using R unfolding r_strings_ok_def by blast
    then show ?thesis by (simp add: m)
  qed
  consider (mat) xs where "cp_data2 x = Some xs" | (unfilled) "cp_data2 x = None" "cp_data1 x = None"
    | (filled) rb where "cp_data2 x = None" "cp_data1 x = Some rb" by (cases "cp_data2 x"; cases "cp_data1 x") auto
  then show ?thesis
  proof cases
    case mat
    then show ?thesis using f hold by (cases x) (auto simp: charpack_Materialize_def charpack_holds_def)
  next
    case unfilled
    obtain q h1 where a: "allocVector 0 h = (q, h1)" by fastforce
    note b = allocVector_blocks [OF a] allocVector_can_alloc [OF a]
    show ?thesis
    proof (cases q)
      case (Inl e)
      then have "r = Inl e" "x' = x" "h' = h1" using f unfilled a by (simp_all add: charpack_Materialize_def)
      then show ?thesis using b allocVector_fail [OF a [unfolded Inl]] by simp
    next
      case (Inr u)
      then have "r = Inr []" "x' = x\<lparr>cp_data1 := None, cp_data2 := Some []\<rparr>" "h' = h1"
        using f unfilled a by (simp_all add: charpack_Materialize_def)
      then show ?thesis using b hold unfilled by (cases x) (simp add: charpack_holds_def)
    qed
  next
    case filled
    obtain wide es where raw: "blocks h rb = Some (pack_raw le wide es)" "pack_fits wide es" "vs = map (charsxp_of R) es"
      using hold filled by (auto simp: charpack_holds_def)
    obtain q h1 where s: "charpack_strings R le rb h = (q, h1)" by fastforce
    note ok = charpack_strings_ok [OF raw(1,2) s]
    show ?thesis
    proof (cases q)
      case (Inl e)
      then have "r = Inl e" "x' = x" "h' = h1" using f filled s by (simp_all add: charpack_Materialize_def)
      moreover have "(\<exists>m. e = R_error m) \<and> (collect vs = Inl e \<or> (\<exists>k m. \<not> can_alloc h k m))"
      proof (cases "collect vs = Inl e")
        case True
        then show ?thesis using err [of es e] unfolding raw(3) by blast
      next
        case False
        then have "(\<exists>m. q = Inl (R_error m)) \<and> (\<exists>k m. \<not> can_alloc h k m)" using ok Inl raw(3) by metis
        then show ?thesis using Inl by simp
      qed
      ultimately show ?thesis using ok by simp
    next
      case (Inr xs)
      then have "r = Inr xs" "x' = x\<lparr>cp_data1 := None, cp_data2 := Some xs\<rparr>" "h' = h1"
        using f filled s by (simp_all add: charpack_Materialize_def)
      moreover have "vs = map Inr xs"
        by (rule collect_map_Inr) (use ok Inr in \<open>simp add: raw(3)\<close>)
      ultimately show ?thesis using ok by (cases x) simp
    qed
  qed
qed

lemma charpack_No_NA_ok:
  assumes hold: "charpack_holds R le x h vs" and R: "r_strings_ok R"
  shows "charpack_No_NA R le x h = Inr (Inr (NA_STRING R) \<notin> set vs)"
proof (cases "cp_data2 x")
  case (Some xs)
  then show ?thesis using hold by (auto simp: charpack_No_NA_def charpack_holds_def no_NA_scan_iff)
next
  case None
  show ?thesis
  proof (cases "cp_data1 x")
    case None
    then show ?thesis using hold \<open>cp_data2 x = None\<close> by (simp add: charpack_No_NA_def charpack_holds_def)
  next
    case (Some rb)
    obtain wide es where raw: "blocks h rb = Some (pack_raw le wide es)" "pack_fits wide es" "vs = map (charsxp_of R) es"
      using hold Some \<open>cp_data2 x = None\<close> by (auto simp: charpack_holds_def)
    have rb: "raw_bytes h rb = pack_raw le wide es" using raw(1) by (simp add: raw_bytes_def)
    have tags: "take (length es) (drop (header_bytes + offset_bytes wide * length es) (pack_raw le wide es)) = map elem_tag es"
      unfolding pack_raw_drops(2) by simp
    have na: "elem_tag e = tag_value CETYPE_EXT_NA \<longleftrightarrow> e = NA" if "e \<in> set es" for e
      using raw(2) that by (cases e) (auto simp: pack_fits_def list_all_iff cetype_ext_t.expand)
    have "tag_value CETYPE_EXT_NA \<in> set (map elem_tag es) \<longleftrightarrow> NA \<in> set es" using na by force
    also have "\<dots> \<longleftrightarrow> Inr (NA_STRING R) \<in> set vs"
      unfolding raw(3) set_map image_iff using charsxp_of_NA_iff [OF R] by metis
    finally show ?thesis
      using Some \<open>cp_data2 x = None\<close> pack_parse_raw [OF raw(2), of le] tags raw(3)
      by (simp add: charpack_No_NA_def rb pack_view_of_def get_bytes_def length_pack_raw algebra_simps)
  qed
qed

lemma charpack_Length_ok: "charpack_holds R le x h vs \<Longrightarrow> charpack_Length le x h = Inr (length vs)"
  by (auto simp: charpack_holds_def charpack_Length_def raw_bytes_def pack_length_ok split: option.splits)

text \<open>What R calls on an instance, and the same on a plain vector, where every access to the
  elements asks for all of them.\<close>

fun charpack_run_op ::
    "'c r_strings \<Rightarrow> bool \<Rightarrow> 'c charvec_op \<Rightarrow> 'c charpack \<Rightarrow> heap \<Rightarrow> (fault + 'c charvec_ret) \<times> 'c charpack \<times> heap" where
  "charpack_run_op R le (Op_Elt i) x h = returning Ret_elt (charpack_Elt R le x i h)"
| "charpack_run_op R le (Op_Set_elt i c) x h = returning (\<lambda>u. Ret_unit) (charpack_Set_elt R le x i c h)"
| "charpack_run_op R le Op_Length x h = returning Ret_length (charpack_Length le x h, x, h)"
| "charpack_run_op R le Op_no_NA x h = returning Ret_no_NA (charpack_No_NA R le x h, x, h)"
| "charpack_run_op R le Op_Dataptr x h = returning Ret_elements (charpack_Dataptr R le x h)"

fun reads_elements_of :: "'c charvec_op \<Rightarrow> bool" where
  "reads_elements_of Op_Length = False"
| "reads_elements_of Op_no_NA = False"
| "reads_elements_of a = True"

definition whole_vec_op ::
    "'c r_strings \<Rightarrow> 'c charvec_op \<Rightarrow> (fault + 'c) list \<Rightarrow> (fault + 'c charvec_ret) \<times> (fault + 'c) list" where
  "whole_vec_op R a vs =
     (case (if reads_elements_of a then collect vs else Inr []) of Inl e \<Rightarrow> (Inl e, vs) | Inr xs \<Rightarrow> vec_op R a vs)"

fun op_index :: "'c charvec_op \<Rightarrow> nat option" where
  "op_index (Op_Elt i) = Some i"
| "op_index (Op_Set_elt i c) = Some i"
| "op_index a = None"

text \<open>C27. A charpack is a character vector: each element read, assignment, data pointer request,
  length or NA query R makes on an instance in any of its states returns what it returns on a plain
  vector whose elements are made all at once, and leaves the instance standing for the vector that
  results; or memory is refused and an R error leaves the instance as it was. The raw vector is never
  written. A duplicate stands for the same strings, and shares the raw vector instead of copying it.\<close>

theorem charpack_refines_vector:
  assumes hold: "charpack_holds R le x h vs" and R: "r_strings_ok R"
    and i: "\<And>i. op_index a = Some i \<Longrightarrow> i < length vs"
  shows "(case charpack_run_op R le a x h of (r, x', h') \<Rightarrow>
      blocks h' = blocks h \<and>
      (r = fst (whole_vec_op R a vs) \<and> charpack_holds R le x' h' (snd (whole_vec_op R a vs)) \<or>
       (\<exists>m. r = Inl (R_error m)) \<and> x' = x \<and> (\<exists>k m. \<not> can_alloc h k m))) \<and>
    (case charpack_Duplicate x h of (r, h') \<Rightarrow>
      blocks h' = blocks h \<and>
      (case r of
         Inl e \<Rightarrow> (\<exists>m. e = R_error m) \<and> (\<exists>k m. \<not> can_alloc h k m)
       | Inr (Inl xs) \<Rightarrow> vs = map Inr xs
       | Inr (Inr y) \<Rightarrow> charpack_holds R le y h' vs \<and> cp_data1 y = cp_data1 x \<and> \<not> charpack_is_unfilled y))"
proof (intro conjI)
  obtain m x1 h1 where mat: "charpack_Materialize R le x h = (m, x1, h1)" by (metis prod_cases3)
  note ok = charpack_Materialize_ok [OF hold R mat]
  show "case charpack_run_op R le a x h of (r, x', h') \<Rightarrow>
      blocks h' = blocks h \<and>
      (r = fst (whole_vec_op R a vs) \<and> charpack_holds R le x' h' (snd (whole_vec_op R a vs)) \<or>
       (\<exists>m. r = Inl (R_error m)) \<and> x' = x \<and> (\<exists>k m. \<not> can_alloc h k m))"
  proof (cases "reads_elements_of a")
    case False
    then show ?thesis
      using hold charpack_Length_ok [OF hold] charpack_No_NA_ok [OF hold R]
      by (cases a) (simp_all add: whole_vec_op_def returning_def)
  next
    case reads: True
    show ?thesis
    proof (cases m)
      case (Inl e)
      then have "charpack_run_op R le a x h = (Inl e, x, h1)"
        using reads mat ok by (cases a) (simp_all add: returning_def charpack_Elt_def charpack_Set_elt_def charpack_Dataptr_def)
      then show ?thesis
        using ok Inl hold reads charpack_holds_same [of h1 h R le x vs] by (auto simp: whole_vec_op_def)
    next
      case (Inr xs)
      then have vs: "vs = map Inr xs" "x1 = \<lparr>cp_data1 = None, cp_data2 = Some xs\<rparr>" "blocks h1 = blocks h"
        using ok by simp_all
      then have idx: "\<And>i. op_index a = Some i \<Longrightarrow> i < length xs" using i by simp
      show ?thesis
        using reads idx Inr mat vs
        by (cases a) (simp_all add: returning_def charpack_Elt_def charpack_Set_elt_def charpack_Dataptr_def
            whole_vec_op_def elt_at_def set_elt_at_def charpack_holds_def map_update)
    qed
  qed
  show "case charpack_Duplicate x h of (r, h') \<Rightarrow>
      blocks h' = blocks h \<and>
      (case r of
         Inl e \<Rightarrow> (\<exists>m. e = R_error m) \<and> (\<exists>k m. \<not> can_alloc h k m)
       | Inr (Inl xs) \<Rightarrow> vs = map Inr xs
       | Inr (Inr y) \<Rightarrow> charpack_holds R le y h' vs \<and> cp_data1 y = cp_data1 x \<and> \<not> charpack_is_unfilled y)"
    using hold
    by (auto simp: charpack_Duplicate_def charpack_holds_def charpack_is_unfilled_def alloc_object_def allocVector_def
        try_alloc_def Let_def split: option.splits)
qed

theorem charpack_refines_vector_witness:
  "\<exists>h x' h'. blocks h 5 = Some (pack_raw True False [Str [104, 105] CETYPE_EXT_UTF8, NA]) \<and>
     charpack_run_op demo_R True (Op_Elt 0) \<lparr>cp_data1 = Some 5, cp_data2 = None\<rparr> h =
       (Inr (Ret_elt (Some ([104, 105], CE_UTF8))), x', h') \<and>
     charpack_holds demo_R True x' h' [Inr (Some ([104, 105], CE_UTF8)), Inr None]"
proof -
  let ?es = "[Str [104, 105] CETYPE_EXT_UTF8, NA]" and ?x = "\<lparr>cp_data1 = Some 5, cp_data2 = None\<rparr>"
  let ?vs = "[Inr (Some ([104, 105], CE_UTF8)), Inr None] :: (fault + (u8 list \<times> cetype_t) option) list"
  define h where "h = demo_heap\<lparr>blocks := [5 \<mapsto> pack_raw True False ?es]\<rparr>"
  have fits: "pack_fits False ?es"
    by (simp add: pack_fits_def state_payload_def header_bytes_def offset_bytes_def valid_view_encoding_def cetype_defs)
  have h: "blocks h 5 = Some (pack_raw True False ?es)" "can_alloc h k m" for k m
    by (simp_all add: h_def demo_heap_def)
  have "map (charsxp_of demo_R) ?es = ?vs" by (simp add: demo_R_def to_base_encoding_def cetype_defs)
  then have hold: "charpack_holds demo_R True ?x h ?vs"
    using h(1) fits by (auto simp: charpack_holds_def intro!: exI [of _ False] exI [of _ ?es])
  obtain r x' h' where r: "charpack_run_op demo_R True (Op_Elt 0) ?x h = (r, x', h')" by (metis prod_cases3)
  have v: "whole_vec_op demo_R (Op_Elt 0) ?vs = (Inr (Ret_elt (Some ([104, 105], CE_UTF8))), ?vs)"
    by (simp add: whole_vec_op_def returning_def)
  have "i < length ?vs" if "op_index (Op_Elt 0 :: (u8 list \<times> cetype_t) option charvec_op) = Some i" for i
    using that by simp
  from conjunct1 [OF charpack_refines_vector [where a = "Op_Elt 0", OF hold demo_R_ok this]]
  have "r = Inr (Ret_elt (Some ([104, 105], CE_UTF8))) \<and> charpack_holds demo_R True x' h' ?vs"
    unfolding r v prod.case fst_conv snd_conv using h(2) by blast
  then show ?thesis using h(1) r by blast
qed

section \<open>Serialization\<close>

text \<open>Another host's reading of what a host sends.\<close>

lemma unserialize_sent:
  fixes h :: heap
  assumes h: "blocks h rb = Some (pack_raw True wide es)" and fits: "pack_fits wide es"
  shows "case charpack_Unserialize le nu False (Rawsxp rb :: 'c r_state) h of
      (Inl e, h') \<Rightarrow> (\<exists>m. e = R_error m) \<and> (\<exists>k m. \<not> can_alloc h k m)
    | (Inr (Inl xs), h') \<Rightarrow> False
    | (Inr (Inr y), h') \<Rightarrow> y = \<lparr>cp_data1 = Some rb, cp_data2 = None\<rparr> \<and>
        blocks h' = (blocks h)(rb \<mapsto> pack_raw le wide (map (as_read True nu) es))"
proof -
  have len: "length (pack_raw True wide es) \<le> 4503599627370496"
    using fits by (simp add: pack_fits_def length_pack_raw)
  obtain r h' where r: "charpack_Unserialize le nu False (Rawsxp rb :: 'c r_state) h = (r, h')" by fastforce
  note u = charpack_Unserialize_raw [OF h len, where le = le and nu = nu and 'c = 'c, unfolded r]
  show ?thesis
  proof (cases r)
    case (Inl e)
    then show ?thesis using u fits r by auto
  next
    case (Inr q)
    then obtain y where q: "q = Inr y" using u by (cases q) auto
    with u Inr obtain wide' es' where y: "y = \<lparr>cp_data1 = Some rb, cp_data2 = None\<rparr>"
      "pack_raw True wide es = pack_raw True wide' es'" "pack_fits wide' es'"
      "blocks h' = (blocks h)(rb \<mapsto> pack_raw le wide' (map (as_read True nu) es'))" by auto
    then have "wide' = wide" "es' = es" using pack_raw_inj [OF y(2) fits y(3)] by simp_all
    then show ?thesis using y Inr q r by simp
  qed
qed

text \<open>C33. What a filled charpack sends on one host, a host of either byte order and any native
  encoding reads back as the same strings: the stream gets the little-endian layout, so the receiver's
  charpack holds each string with its encoding (native text, which is UTF-8 by then, is tagged UTF-8 where
  that is not native); native text outside a UTF-8 locale is sent as a character vector instead. The
  source is not changed, and only a refused allocation or an unmakeable string raises an R error.\<close>

theorem charpack_serialize_roundtrip:
  fixes R :: "'c r_strings"
  assumes ok: "heap_ok h" and raw: "blocks h rb = Some (pack_raw le1 wide es)" and fits: "pack_fits wide es"
  shows "case charpack_Serialized_state le1 nu1 R \<lparr>cp_data1 = Some rb, cp_data2 = None\<rparr> h of
      (Inl e, h') \<Rightarrow> blocks h' = blocks h \<and>
        ((\<exists>m. e = R_error m) \<and> (\<exists>k m. \<not> can_alloc h k m) \<or> has_native es \<and> \<not> nu1 \<and> collect (map (charsxp_of R) es) = Inl e)
    | (Inr (Some (Strsxp xs)), h') \<Rightarrow> has_native es \<and> \<not> nu1 \<and> map (charsxp_of R) es = map Inr xs \<and> blocks h' = blocks h
    | (Inr (Some (Rawsxp sb)), h') \<Rightarrow>
        \<not> (has_native es \<and> \<not> nu1) \<and> keeps_live h h' \<and> blocks h' sb = Some (pack_raw True wide es) \<and>
        (\<forall>g rb2. blocks g rb2 = blocks h' sb \<longrightarrow>
           (case charpack_Unserialize le2 nu2 False (Rawsxp rb2 :: 'c r_state) g of
              (Inl e, g') \<Rightarrow> (\<exists>m. e = R_error m) \<and> (\<exists>k m. \<not> can_alloc g k m)
            | (Inr (Inl xs), g') \<Rightarrow> False
            | (Inr (Inr y), g') \<Rightarrow> y = \<lparr>cp_data1 = Some rb2, cp_data2 = None\<rparr> \<and>
                blocks g' = (blocks g)(rb2 \<mapsto> pack_raw le2 wide (map (as_read True nu2) es))))
    | (Inr _, h') \<Rightarrow> False"
proof -
  let ?x = "\<lparr>cp_data1 = Some rb, cp_data2 = None\<rparr> :: 'c charpack"
  let ?S = "charpack_Serialized_state le1 nu1 R ?x h"
  have rb: "raw_bytes h rb = pack_raw le1 wide es" using raw by (simp add: raw_bytes_def)
  note native = pack_has_native_ok [OF fits, of le1]
  have there: "\<forall>g rb2. blocks g rb2 = Some (pack_raw True wide es) \<longrightarrow>
      (case charpack_Unserialize le2 nu2 False (Rawsxp rb2 :: 'c r_state) g of
         (Inl e, g') \<Rightarrow> (\<exists>m. e = R_error m) \<and> (\<exists>k m. \<not> can_alloc g k m)
       | (Inr (Inl xs), g') \<Rightarrow> False
       | (Inr (Inr y), g') \<Rightarrow> y = \<lparr>cp_data1 = Some rb2, cp_data2 = None\<rparr> \<and>
           blocks g' = (blocks g)(rb2 \<mapsto> pack_raw le2 wide (map (as_read True nu2) es)))"
    by (intro allI impI) (rule unserialize_sent [OF _ fits])
  show ?thesis
  proof (cases "has_native es \<and> \<not> nu1")
    case True
    obtain q h1 where s: "charpack_strings R le1 rb h = (q, h1)" by fastforce
    have S: "?S = (case q of Inl e \<Rightarrow> (Inl e, h1) | Inr xs \<Rightarrow> (Inr (Some (Strsxp xs)), h1))"
      using True native s by (simp add: charpack_Serialized_state_def rb split: sum.split)
    note ok = charpack_strings_ok [OF raw fits s]
    show ?thesis
    proof (cases q)
      case (Inl e)
      then show ?thesis using S ok True by auto
    next
      case (Inr xs)
      then have "collect (map (charsxp_of R) es) = Inr xs" using ok by simp
      then have "map (charsxp_of R) es = map Inr xs" by (rule collect_map_Inr)
      then show ?thesis using S Inr ok True by simp
    qed
  next
    case sent: False
    show ?thesis
    proof (cases le1)
      case True
      then have "?S = (Inr (Some (Rawsxp rb)), h)" using sent native by (auto simp: charpack_Serialized_state_def rb)
      then show ?thesis using raw True sent there by simp
    next
      case False
      obtain q h1 where a: "alloc_raw_vector (length (pack_raw le1 wide es)) h = (q, h1)" by fastforce
      note al = alloc_raw_vector_ok [OF a ok]
      show ?thesis
      proof (cases q)
        case (Inl e)
        then have "?S = (Inl e, h1)" using sent native False a by (auto simp: charpack_Serialized_state_def rb)
        then show ?thesis using al Inl by simp
      next
        case (Inr sb)
        then obtain bs where b: "blocks h sb = None" "blocks h1 = (blocks h)(sb \<mapsto> bs)" "keeps_live h h1" using al by auto
        then have rb1: "raw_bytes h1 rb = pack_raw le1 wide es" using raw by (auto simp: raw_bytes_def)
        have sw: "swap_words le1 (pack_raw le1 wide es) True = Inr (pack_raw True wide es)"
          using swap_words_ok [OF fits refl, of True le1 le1] False by simp
        define h2 where "h2 = h1\<lparr>blocks := (blocks h1)(sb \<mapsto> pack_raw True wide es)\<rparr>"
        have "?S = (Inr (Some (Rawsxp sb)), h2)"
          using sent native False a Inr rb1 sw by (auto simp: charpack_Serialized_state_def rb h2_def)
        moreover have "keeps_live h h2" using b(1,2) by (auto simp: keeps_live_def h2_def)
        moreover have "blocks h2 sb = Some (pack_raw True wide es)" by (simp add: h2_def)
        ultimately show ?thesis using sent there by simp
      qed
    qed
  qed
qed

theorem charpack_serialize_roundtrip_witness:
  "\<exists>sb h'. charpack_Serialized_state False True demo_R \<lparr>cp_data1 = Some 5, cp_data2 = None\<rparr>
       (demo_heap\<lparr>blocks := [5 \<mapsto> pack_raw False False [Str [104, 105] CETYPE_EXT_NATIVE, NA]], next_blk := 6\<rparr>) =
       (Inr (Some (Rawsxp sb)), h') \<and>
     blocks h' sb = Some (pack_raw True False [Str [104, 105] CETYPE_EXT_NATIVE, NA]) \<and>
     fst (charpack_Unserialize True True False (Rawsxp sb :: (u8 list \<times> cetype_t) option r_state)
            (demo_heap\<lparr>blocks := [sb \<mapsto> pack_raw True False [Str [104, 105] CETYPE_EXT_NATIVE, NA]]\<rparr>)) =
       Inr (Inr \<lparr>cp_data1 = Some sb, cp_data2 = None\<rparr>)"
proof -
  let ?es = "[Str [104, 105] CETYPE_EXT_NATIVE, NA]" and ?x = "\<lparr>cp_data1 = Some 5, cp_data2 = None\<rparr>"
  define h where "h = demo_heap\<lparr>blocks := [5 \<mapsto> pack_raw False False ?es], next_blk := 6\<rparr>"
  have fits: "pack_fits False ?es"
    by (simp add: pack_fits_def state_payload_def header_bytes_def offset_bytes_def valid_view_encoding_def cetype_defs)
  have h: "blocks h 5 = Some (pack_raw False False ?es)" "heap_ok h" "can_alloc h k m" for k m
    by (simp_all add: h_def demo_heap_def heap_ok_def)
  obtain r h' where S: "charpack_Serialized_state False True demo_R ?x h = (r, h')" by fastforce
  note rt = charpack_serialize_roundtrip [OF h(2,1) fits, of True demo_R True True, unfolded S prod.case]
  obtain q where q: "r = Inr q"
  proof (cases r)
    case (Inl e)
    then show ?thesis using rt h(3) by (simp only: sum.case) blast
  qed
  obtain st where st: "q = Some st" using rt unfolding q by (cases q) simp_all
  obtain sb where sb: "st = Rawsxp sb" using rt unfolding q st by (cases st) simp_all
  have r: "r = Inr (Some (Rawsxp sb))" using q st sb by simp
  have sent: "blocks h' sb = Some (pack_raw True False ?es)"
    using rt unfolding r sum.case option.case r_state.case by blast
  define g where "g = demo_heap\<lparr>blocks := [sb \<mapsto> pack_raw True False ?es]\<rparr>"
  have g: "blocks g sb = blocks h' sb" "can_alloc g k m" for k m using sent by (simp_all add: g_def demo_heap_def)
  obtain u g' where U: "charpack_Unserialize True True False (Rawsxp sb :: (u8 list \<times> cetype_t) option r_state) g = (u, g')"
    by fastforce
  have read: "case u of
      Inl e \<Rightarrow> (\<exists>m. e = R_error m) \<and> (\<exists>k m. \<not> can_alloc g k m)
    | Inr (Inl xs) \<Rightarrow> False
    | Inr (Inr y) \<Rightarrow> y = \<lparr>cp_data1 = Some sb, cp_data2 = None\<rparr> \<and>
        blocks g' = (blocks g)(sb \<mapsto> pack_raw True False (map (as_read True True) ?es))"
    using rt g(1) unfolding r sum.case option.case r_state.case U [symmetric] by (fastforce simp: U)
  have "u = Inr (Inr \<lparr>cp_data1 = Some sb, cp_data2 = None\<rparr>)"
  proof (cases u)
    case (Inl e)
    then show ?thesis using read g(2) by (simp only: sum.case) blast
  next
    case (Inr w)
    then show ?thesis using read by (cases w) simp_all
  qed
  then have "fst (charpack_Unserialize True True False (Rawsxp sb :: (u8 list \<times> cetype_t) option r_state) g) =
      Inr (Inr \<lparr>cp_data1 = Some sb, cp_data2 = None\<rparr>)" by (simp add: U)
  then show ?thesis using S r sent unfolding h_def g_def by blast
qed

end
