(* ===== verification/Cp_Packsub.thy ===== *)
theory Cp_Packsub
  imports Cp_Packvec
begin

text \<open>
  Subsetting a charpack (\<open>Extract_subset\<close> of \<open>src/charpack_altrep.h\<close>): a filled charpack is
  subset record by record into a new raw vector, without making a string of R. The raw vector of
  the source is read through the layout, the new one is written in the order of the subscripts.
\<close>

section \<open>The code\<close>

text \<open>The zero-based record a subscript selects, or \<open>n\<close>.\<close>

fun charpack_selected :: "r_index \<Rightarrow> nat \<Rightarrow> nat \<Rightarrow> fault + nat" where
  "charpack_selected (Integer_indices xs) j n =
     (if j < length xs
      then let k = xs ! j
           in Inr (if k = NA_INTEGER \<or> sint k < 1 \<or> n < unat (scast k :: size_t) then n else unat (scast k :: size_t) - 1)
      else Inl Undefined)"
| "charpack_selected (Real_indices xs) j n =
     (if j < length xs
      then Inr (case xs ! j of
                  Not_finite \<Rightarrow> n
                | Finite k \<Rightarrow> if 1 \<le> k \<and> k < of_nat n + 1 then nat \<lfloor>k\<rfloor> - 1 else n)
      else Inl Undefined)"

text \<open>Where record \<open>i\<close> begins and its length, as both loops read them.\<close>

definition record_span :: "bool \<Rightarrow> u8 list \<Rightarrow> pack_view \<Rightarrow> nat \<Rightarrow> fault + u64 \<times> size_t" where
  "record_span le raw v i =
     and_then (if i = 0 then Inr 0 else pack_end_at le raw v (i - 1)) (\<lambda>b.
     and_then (pack_end_at le raw v i) (\<lambda>e. Inr (b, e - b)))"

definition subset_payload_step :: "bool \<Rightarrow> u8 list \<Rightarrow> pack_view \<Rightarrow> r_index \<Rightarrow> nat \<Rightarrow> size_t \<Rightarrow> fault + size_t" where
  "subset_payload_step le raw v indx j payload =
     and_then (charpack_selected indx j (pv_n v)) (\<lambda>i.
       if i = pv_n v then Inr payload
       else and_then (record_span le raw v i) (\<lambda>(b, len).
         if payload > SIZE_MAX - len then Inl (R_error ''charport charpack Extract_subset: total size overflows'')
         else Inr (payload + len)))"

text \<open>The state of the copying loop: the new raw vector, \<open>dest\<close> and \<open>end\<close>.\<close>

definition copy_record_step ::
    "bool \<Rightarrow> heap \<Rightarrow> blk \<Rightarrow> pack_view \<Rightarrow> r_index \<Rightarrow> bool \<Rightarrow> nat \<Rightarrow> nat \<Rightarrow> nat \<Rightarrow> u8 list \<times> nat \<times> u64 \<Rightarrow>
     fault + u8 list \<times> nat \<times> u64" where
  "copy_record_step le h rb v indx wide ends tags j s =
     (case s of (raw, dest, e) \<Rightarrow>
        and_then (charpack_selected indx j (pv_n v)) (\<lambda>i.
        and_then
          (if i = pv_n v
           then and_then (put_bytes raw (tags + j) [tag_value CETYPE_EXT_NA]) (\<lambda>raw1. Inr (raw1, dest, e))
           else
             and_then (record_span le (raw_bytes h rb) v i) (\<lambda>(b, len).
             and_then (tag_at (raw_bytes h rb) v i) (\<lambda>t.
             and_then (put_bytes raw (tags + j) [t]) (\<lambda>raw1.
             and_then (if len > 0 then copy_in h (At rb (pv_bytes v + unat b)) (unat len) (raw1, dest) else Inr (raw1, dest))
               (\<lambda>(raw2, dest'). Inr (raw2, dest', e + len))))))
          (\<lambda>(raw3, dest', e'). and_then (write_end le raw3 ends wide j e') (\<lambda>raw4. Inr (raw4, dest', e')))))"

text \<open>\<open>None\<close> is the null that sends R to its default method.\<close>

definition charpack_Extract_subset ::
    "bool \<Rightarrow> 'c charpack \<Rightarrow> r_index option \<Rightarrow> heap \<Rightarrow> (fault + 'c charpack option) \<times> heap" where
  "charpack_Extract_subset le x indx h =
     (case cp_data1 x of
        None \<Rightarrow> (Inr None, h)
      | Some rb \<Rightarrow>
          if cp_data2 x \<noteq> None then (Inr None, h)
          else
            (case indx of
               None \<Rightarrow> (Inr None, h)
             | Some idx \<Rightarrow>
                 let m = r_index_length idx
                 in case and_then (pack_parse le (raw_bytes h rb)) (\<lambda>v.
                           for_each (subset_payload_step le (raw_bytes h rb) v idx) [0..<m] 0) of
                      Inl e \<Rightarrow> (Inl e, h)
                    | Inr payload \<Rightarrow>
                        let wide = needs_wide payload; tot = total_bytes (of_nat m) payload wide
                        in if tot = 0
                           then (Inl (R_error ''charport charpack Extract_subset: vector exceeds the maximum raw vector size''), h)
                           else
                             (case alloc_raw_vector (unat tot) h of
                                (Inl e, h1) \<Rightarrow> (Inl e, h1)
                              | (Inr out, h1) \<Rightarrow>
                                  let ends = header_bytes; tags = ends + offset_bytes wide * m
                                  in case and_then (pack_parse le (raw_bytes h1 rb)) (\<lambda>v.
                                            and_then (write_head le (raw_bytes h1 out) (of_nat m) wide) (\<lambda>raw.
                                              for_each (copy_record_step le h1 rb v idx wide ends tags) [0..<m]
                                                (raw, tags + m, 0))) of
                                       Inl e \<Rightarrow> (Inl e, h1)
                                     | Inr s \<Rightarrow>
                                         let h2 = h1\<lparr>blocks := (blocks h1)(out \<mapsto> fst s)\<rparr>
                                         in case alloc_object h2 of
                                              (Inl e, h3) \<Rightarrow> (Inl e, h3)
                                            | (Inr u, h3) \<Rightarrow> (Inr (Some \<lparr>cp_data1 = Some out, cp_data2 = None\<rparr>), h3))))"

section \<open>What a subscript selects\<close>

lemma charpack_selected_subscript:
  assumes "j < r_index_length indx"
  shows "charpack_selected indx j n = Inr (case subscript n indx j of None \<Rightarrow> n | Some k \<Rightarrow> k)"
proof (cases indx)
  case (Integer_indices xs)
  let ?k = "xs ! j"
  have pos: "sint ?k \<ge> 1 \<Longrightarrow> unat (scast ?k :: size_t) = nat (sint ?k)"
    using sint_nonneg_iff [of ?k] unat_scast_nonneg [of ?k] by (simp add: sint_c_int split: if_splits)
  show ?thesis using assms Integer_indices sint_NA_INTEGER pos by (auto simp: Let_def)
next
  case (Real_indices xs)
  show ?thesis
  proof (cases "xs ! j")
    case (Finite x)
    have "1 \<le> x \<longleftrightarrow> 1 \<le> \<lfloor>x\<rfloor>" by linarith
    moreover have "x < of_nat n + 1 \<longleftrightarrow> \<lfloor>x\<rfloor> \<le> int n" by linarith
    ultimately show ?thesis using assms Real_indices Finite by simp
  qed (use assms Real_indices in simp)
qed

lemma record_span_ok:
  assumes fits: "pack_fits wide es" and i: "i < length es"
  shows "record_span le (pack_raw le wide es) (pack_view_of wide es) i =
    Inr (of_nat (pack_end es i), of_nat (length (elem_bytes (es ! i))))"
  using pack_reads [OF fits i, of le] pack_reads(1) [OF fits, of "i - 1" le] i
  by (cases i) (simp_all add: record_span_def pack_end_Suc)

text \<open>The case rule the loops share: a subscript selects nothing, or a record.\<close>

lemma selected_cases:
  assumes "j < r_index_length indx"
  obtains (none) "charpack_selected indx j (length es) = Inr (length es)" "selected es indx j = NA"
  | (rec) k where "k < length es" "charpack_selected indx j (length es) = Inr k" "selected es indx j = es ! k"
proof (cases "subscript (length es) indx j")
  case None
  then show ?thesis using none charpack_selected_subscript [OF assms] by (simp add: selected_def)
next
  case (Some k)
  then show ?thesis using rec [of k] subscript_bound [OF Some] charpack_selected_subscript [OF assms]
    by (simp add: selected_def)
qed

section \<open>The first pass\<close>

lemma fits_record:
  assumes "pack_fits wide es" and "i < length es"
  shows "unat (of_nat (length (elem_bytes (es ! i))) :: u64) = length (elem_bytes (es ! i))"
    and "unat (of_nat (pack_end es i) :: u64) = pack_end es i"
proof -
  have "length (elem_bytes (es ! i)) \<le> 2147483647" using pack_fitsD(2) [OF assms] by (cases "es ! i") simp_all
  then show "unat (of_nat (length (elem_bytes (es ! i))) :: u64) = length (elem_bytes (es ! i))"
    by (intro unat_of_nat_u64) simp
  show "unat (of_nat (pack_end es i) :: u64) = pack_end es i"
    using pack_fitsD(3) [OF assms(1), of i] assms(2) by (intro unat_of_nat_u64) simp
qed

definition selection :: "element list \<Rightarrow> r_index \<Rightarrow> element list" where
  "selection es indx = map (selected es indx) [0..<r_index_length indx]"

lemma selection_simps [simp]:
  "length (selection es indx) = r_index_length indx"
  "j < r_index_length indx \<Longrightarrow> selection es indx ! j = selected es indx j"
  by (simp_all add: selection_def)

lemma subset_payload_result:
  fixes es indx
  defines "es' \<equiv> selection es indx"
  assumes fits: "pack_fits wide es"
  shows "case for_each (subset_payload_step le (pack_raw le wide es) (pack_view_of wide es) indx) [0..<r_index_length indx] 0 of
      Inl e \<Rightarrow> (\<exists>m. e = R_error m) \<and> 18446744073709551616 \<le> length (state_payload es')
    | Inr payload \<Rightarrow> unat payload = length (state_payload es')"
proof -
  let ?body = "subset_payload_step le (pack_raw le wide es) (pack_view_of wide es) indx"
  have all: "pack_end es' (r_index_length indx) = length (state_payload es')"
    using pack_end_total [of es'] by (simp add: es'_def)
  have n: "pv_n (pack_view_of wide es) = length es" by (simp add: pack_view_of_def)
  have "case for_each ?body [0..<r_index_length indx] 0 of
      Inl e \<Rightarrow> (\<exists>m. e = R_error m) \<and> 18446744073709551616 \<le> length (state_payload es')
    | Inr payload \<Rightarrow> unat payload = pack_end es' (r_index_length indx)"
  proof (rule for_each_result [where P = "\<lambda>j payload. unat payload = pack_end es' j"])
    fix j and payload :: size_t
    assume j: "0 \<le> j" "j < r_index_length indx" and P: "unat payload = pack_end es' j"
    have E: "pack_end es' (Suc j) = pack_end es' j + length (elem_bytes (selected es indx j))"
      using j by (simp add: es'_def pack_end_Suc)
    have le: "pack_end es' (Suc j) \<le> length (state_payload es')"
      using pack_end_le [of "Suc j" es'] j by (simp add: es'_def)
    from j(2) show "case ?body j payload of
        Inl e \<Rightarrow> (\<exists>m. e = R_error m) \<and> 18446744073709551616 \<le> length (state_payload es')
      | Inr payload' \<Rightarrow> unat payload' = pack_end es' (Suc j)"
    proof (cases rule: selected_cases [where es = es])
      case none
      then show ?thesis using P E by (simp add: subset_payload_step_def n)
    next
      case (rec k)
      note len = fits_record(1) [OF fits rec(1)]
      have step: "?body j payload =
          (if payload > SIZE_MAX - of_nat (length (elem_bytes (es ! k)))
           then Inl (R_error ''charport charpack Extract_subset: total size overflows'')
           else Inr (payload + of_nat (length (elem_bytes (es ! k)))))"
        using rec by (simp add: subset_payload_step_def n record_span_ok [OF fits])
      show ?thesis
      proof (cases "payload > SIZE_MAX - of_nat (length (elem_bytes (es ! k)))")
        case True
        then show ?thesis using step P E le rec len by (simp add: sum_overflows)
      next
        case False
        then show ?thesis using step P E rec len by (simp add: sum_overflows unat_add_u64)
      qed
    qed
  qed simp_all
  then show ?thesis unfolding all .
qed

section \<open>The copying loop\<close>

lemma copy_record_step_ok:
  fixes es indx wide'
  defines "es' \<equiv> selection es indx" and "m \<equiv> r_index_length indx"
  defines "b \<equiv> header_bytes + (offset_bytes wide' + 1) * m"
  assumes src: "blocks h rb = Some (pack_raw le wide es)" and fits: "pack_fits wide es"
    and W: "W = pack_raw le wide' es'" and j: "j < m"
    and raw: "agrees W raw (written wide' m j \<union> {b..<b + pack_end es' j})"
  obtains raw' where
    "copy_record_step le h rb (pack_view_of wide es) indx wide' header_bytes (header_bytes + offset_bytes wide' * m) j
       (raw, b + pack_end es' j, of_nat (pack_end es' j)) =
       Inr (raw', b + pack_end es' (Suc j), of_nat (pack_end es' (Suc j)))"
    "agrees W raw' (written wide' m (Suc j) \<union> {b..<b + pack_end es' (Suc j)})"
proof -
  let ?t = "header_bytes + offset_bytes wide' * m" and ?e = "header_bytes + offset_bytes wide' * j"
    and ?b = "b + pack_end es' j" and ?x = "selected es indx j"
  have rb: "raw_bytes h rb = pack_raw le wide es" using src by (simp add: raw_bytes_def)
  have m: "length es' = m" "es' ! j = ?x" "j < length es'" using j by (simp_all add: es'_def m_def)
  have E: "pack_end es' (Suc j) = pack_end es' j + length (elem_bytes ?x)" using m by (simp add: pack_end_Suc)
  have n: "pv_n (pack_view_of wide es) = length es" by (simp add: pack_view_of_def)
  obtain raw1 where r1: "put_bytes raw (?t + j) [elem_tag ?x] = Inr raw1"
    "agrees W raw1 (written wide' m j \<union> {b..<?b} \<union> {?t + j..<?t + j + 1})"
    using write_tag_agrees [OF W m(3) raw] unfolding m(1,2) by blast
  obtain raw2 where r2: "put_bytes raw1 ?b (elem_bytes ?x) = Inr raw2"
    "agrees W raw2 (written wide' m j \<union> {b..<?b} \<union> {?t + j..<?t + j + 1} \<union> {?b..<?b + length (elem_bytes ?x)})"
    using write_bytes_agrees [OF W m(3) r1(2)] unfolding m(1,2) b_def by blast
  obtain raw3 where r3: "write_end le raw2 header_bytes wide' j (of_nat (pack_end es' (Suc j))) = Inr raw3"
    "agrees W raw3 (written wide' m j \<union> {b..<?b} \<union> {?t + j..<?t + j + 1} \<union> {?b..<?b + length (elem_bytes ?x)} \<union>
       {?e..<?e + offset_bytes wide'})"
    by (rule write_end_agrees [OF W m(3) r2(2)])
  have agree: "agrees W raw3 (written wide' m (Suc j) \<union> {b..<b + pack_end es' (Suc j)})"
    by (rule agrees_subset [OF r3(2)]) (auto simp: written_def E)
  have empty: "raw2 = raw1" if "elem_bytes ?x = []"
    using r2(1) that by (auto simp: put_bytes_def patch_def split: if_splits)
  from j have "j < r_index_length indx" by (simp add: m_def)
  then show thesis
  proof (cases rule: selected_cases [where es = es])
    case none
    then have "raw2 = raw1" "?x = NA" using empty by simp_all
    with none show thesis
      using r1(1) r3(1) E by (intro that [OF _ agree]) (simp add: copy_record_step_def n)
  next
    case (rec k)
    note len = fits_record [OF fits rec(1)]
    let ?bs = "elem_bytes (es ! k)" and ?off = "header_bytes + (offset_bytes wide + 1) * length es + pack_end es k"
    have "?off + length ?bs \<le> length (pack_raw le wide es)"
      using pack_end_le [of "Suc k" es] rec(1) by (simp add: length_pack_raw pack_end_Suc algebra_simps)
    then have "mem_read h (At rb ?off) (length ?bs) = Some ?bs"
      using pack_bytes_at [OF rec(1), of wide le] src by simp
    then have copy: "copy_in h (At rb (pv_bytes (pack_view_of wide es) + unat (of_nat (pack_end es k) :: u64)))
        (unat (of_nat (length ?bs) :: u64)) (raw1, ?b) = Inr (raw2, ?b + length ?bs)"
      unfolding copy_in_def len using r2(1) rec(3) by (simp add: pack_view_of_def del: mem_read.simps)
    have pos: "(of_nat (length ?bs) :: u64) > 0 \<longleftrightarrow> ?bs \<noteq> []"
      using len(1) by (metis length_0_conv unat_eq_zero word_gt_0)
    have "(if (of_nat (length ?bs) :: u64) > 0
           then copy_in h (At rb (pv_bytes (pack_view_of wide es) + unat (of_nat (pack_end es k) :: u64)))
             (unat (of_nat (length ?bs) :: u64)) (raw1, ?b)
           else Inr (raw1, ?b)) = Inr (raw2, ?b + length ?bs)"
      unfolding pos copy using empty rec(3) by simp
    then show thesis
      using rec r1(1) r3(1) E
      by (intro that [OF _ agree]) (simp add: copy_record_step_def n rb record_span_ok [OF fits] pack_reads(2) [OF fits])
  qed
qed

lemma copy_records_ok:
  fixes es indx wide'
  defines "es' \<equiv> selection es indx" and "m \<equiv> r_index_length indx"
  assumes src: "blocks h rb = Some (pack_raw le wide es)" and fits: "pack_fits wide es"
    and W: "W = pack_raw le wide' es'" and raw: "agrees W raw {..<header_bytes}"
  shows "\<exists>s. for_each (copy_record_step le h rb (pack_view_of wide es) indx wide' header_bytes (header_bytes + offset_bytes wide' * m))
      [0..<m] (raw, header_bytes + offset_bytes wide' * m + m, 0) = Inr (W, s)"
proof -
  let ?body = "copy_record_step le h rb (pack_view_of wide es) indx wide' header_bytes (header_bytes + offset_bytes wide' * m)"
  let ?b = "header_bytes + (offset_bytes wide' + 1) * m"
  let ?P = "\<lambda>j (s :: u8 list \<times> nat \<times> u64). \<exists>raw'. s = (raw', ?b + pack_end es' j, of_nat (pack_end es' j)) \<and>
    agrees W raw' (written wide' m j \<union> {?b..<?b + pack_end es' j})"
  have start: "?P 0 (raw, header_bytes + offset_bytes wide' * m + m, 0)" using raw by (simp add: written_def)
  have "\<exists>s. for_each ?body [0..<m] (raw, header_bytes + offset_bytes wide' * m + m, 0) = Inr s \<and> ?P m s"
  proof (rule for_each_invariant [where P = ?P, OF start])
    fix j and s :: "u8 list \<times> nat \<times> u64"
    assume j: "0 \<le> j" "j < m" and "?P j s"
    then obtain r where s: "s = (r, ?b + pack_end es' j, of_nat (pack_end es' j))"
      "agrees W r (written wide' m j \<union> {?b..<?b + pack_end es' j})" by blast
    show "\<exists>s'. ?body j s = Inr s' \<and> ?P (Suc j) s'"
      using copy_record_step_ok [OF src fits W [unfolded es'_def] j(2) [unfolded m_def] s(2) [unfolded m_def es'_def]]
      unfolding s(1) m_def es'_def by metis
  qed simp
  then obtain raw' where loop: "for_each ?body [0..<m] (raw, header_bytes + offset_bytes wide' * m + m, 0) =
      Inr (raw', ?b + pack_end es' m, of_nat (pack_end es' m))"
    "agrees W raw' (written wide' m m \<union> {?b..<?b + pack_end es' m})" by blast
  have "length es' = m" by (simp add: es'_def m_def)
  then have "length W = ?b + pack_end es' m"
    using pack_end_total [of es'] by (simp add: W length_pack_raw algebra_simps)
  moreover have "{..<?b + pack_end es' m} \<subseteq> written wide' m m \<union> {?b..<?b + pack_end es' m}"
    by (auto simp: written_def)
  ultimately have "raw' = W" using agrees_subset [OF loop(2)] agrees_all by metis
  then show ?thesis using loop(1) by blast
qed

lemma selection_storable:
  assumes "pack_fits wide es"
  shows "list_all storable (selection es indx)"
  unfolding list_all_length
proof (intro allI impI)
  fix j assume "j < length (selection es indx)"
  then have "j < r_index_length indx" by simp
  then show "storable (selection es indx ! j)"
  proof (cases rule: selected_cases [where es = es])
    case none
    then show ?thesis using \<open>j < r_index_length indx\<close> by simp
  next
    case (rec k)
    then show ?thesis using \<open>j < r_index_length indx\<close> pack_fitsD(2) [OF assms] by simp
  qed
qed

text \<open>C28. Subsetting a filled charpack gives a new charpack whose raw vector is, byte for byte, the
  documented layout of the strings R's subscripts select (NA for NA and for an index past the end; a
  real index truncates), so reading it gives R's subset of the source; the source is not changed and no
  string of R is made. An index that is neither integer nor double, or a charpack that is not filled,
  goes to R's default method. Only a subset that fits no raw vector, or a refused allocation, raises
  an R error.\<close>

theorem charpack_subset_functional:
  assumes src: "\<And>b. cp_data1 x = Some b \<Longrightarrow> b = rb \<and> blocks h rb = Some (pack_raw le wide es) \<and> pack_fits wide es"
    and ok: "heap_ok h" and len: "\<And>idx. indx = Some idx \<Longrightarrow> r_index_length idx \<le> 4503599627370496"
    and es': "es' = selection es (the indx)" and w: "wide' = (4294967295 < length (state_payload es'))"
  shows "case charpack_Extract_subset le x indx h of
      (Inl e, h') \<Rightarrow> (\<exists>m. e = R_error m) \<and> keeps_live h h' \<and>
        (\<not> pack_fits wide' es' \<or> (\<exists>k m. \<not> can_alloc h k m))
    | (Inr None, h') \<Rightarrow> h' = h \<and> (cp_data1 x = None \<or> cp_data2 x \<noteq> None \<or> indx = None)
    | (Inr (Some y), h') \<Rightarrow> cp_data1 x = Some rb \<and> cp_data2 x = None \<and>
        charpack_holds R le y h' (vec_subset R (map (charsxp_of R) es) (the indx)) \<and>
        (\<exists>out. y = \<lparr>cp_data1 = Some out, cp_data2 = None\<rparr> \<and> blocks h out = None \<and>
           blocks h' = (blocks h)(out \<mapsto> pack_raw le wide' es'))"
proof (cases "cp_data1 x = None \<or> cp_data2 x \<noteq> None \<or> indx = None")
  case True
  then show ?thesis by (auto simp: charpack_Extract_subset_def split: option.splits)
next
  case False
  then obtain idx b where b: "cp_data1 x = Some b" and d2: "cp_data2 x = None" and idx: "indx = Some idx" by auto
  have d: "cp_data1 x = Some rb" "cp_data2 x = None" using src [OF b] b d2 by simp_all
  let ?m = "r_index_length idx" and ?W = "pack_raw le wide' es'"
  note raw = conjunct2 [OF src [OF d(1)]] and m = len [OF idx]
  have fits: "pack_fits wide es" using raw ..
  have rb: "raw_bytes h rb = pack_raw le wide es" using raw by (simp add: raw_bytes_def)
  note parse = pack_parse_raw [OF fits, of le]
  have E: "es' = selection es idx" "length es' = ?m" using es' idx by simp_all
  let ?sum = "for_each (subset_payload_step le (pack_raw le wide es) (pack_view_of wide es) idx) [0..<?m] 0"
  note pass = subset_payload_result [OF fits, where indx = idx and le = le, folded E(1)]
  show ?thesis
  proof (cases ?sum)
    case (Inl e)
    then have "charpack_Extract_subset le x indx h = (Inl e, h)"
      by (simp add: charpack_Extract_subset_def d idx Let_def rb parse)
    moreover have "\<not> pack_fits wide' es'" using pass Inl by (auto simp: pack_fits_def)
    ultimately show ?thesis using pass Inl by simp
  next
    case (Inr payload)
    then have pay: "unat payload = length (state_payload es')" using pass by simp
    have wide: "needs_wide payload = wide'" using w pay by (simp add: needs_wide_def word_less_nat_alt)
    have um: "unat (of_nat ?m :: size_t) = ?m" using m by (intro unat_of_nat_u64) simp
    have iff: "pack_fits wide' es' \<longleftrightarrow> header_bytes + ?m * (offset_bytes wide' + 1) + unat payload \<le> 4503599627370496"
      using pack_fits_iff [OF selection_storable [OF fits, of idx], of payload False] pay wide E by simp
    define tot where "tot = total_bytes (of_nat ?m) payload wide'"
    have f: "charpack_Extract_subset le x indx h =
      (if tot = 0 then (Inl (R_error ''charport charpack Extract_subset: vector exceeds the maximum raw vector size''), h)
       else (case alloc_raw_vector (unat tot) h of
         (Inl e, h1) \<Rightarrow> (Inl e, h1)
       | (Inr out, h1) \<Rightarrow>
          (case and_then (pack_parse le (raw_bytes h1 rb)) (\<lambda>v.
                and_then (write_head le (raw_bytes h1 out) (of_nat ?m) wide') (\<lambda>raw.
                  for_each (copy_record_step le h1 rb v idx wide' header_bytes (header_bytes + offset_bytes wide' * ?m)) [0..<?m]
                    (raw, header_bytes + offset_bytes wide' * ?m + ?m, 0))) of
             Inl e \<Rightarrow> (Inl e, h1)
           | Inr s \<Rightarrow>
               (case alloc_object (h1\<lparr>blocks := (blocks h1)(out \<mapsto> fst s)\<rparr>) of
                  (Inl e, h3) \<Rightarrow> (Inl e, h3)
                | (Inr u, h3) \<Rightarrow> (Inr (Some \<lparr>cp_data1 = Some out, cp_data2 = None\<rparr>), h3)))))"
      unfolding charpack_Extract_subset_def Let_def tot_def wide [symmetric] using Inr by (simp add: d idx rb parse)
    show ?thesis
    proof (cases "pack_fits wide' es'")
      case False
      then have "tot = 0" using iff um by (simp add: tot_def total_bytes_spec)
      then show ?thesis using f False by simp
    next
      case fit: True
      have len: "length ?W = header_bytes + ?m * (offset_bytes wide' + 1) + unat payload"
        by (simp add: length_pack_raw E(2) pay)
      have "unat tot = unat (of_nat (length ?W) :: u64)" using fit iff um len by (simp add: tot_def total_bytes_spec)
      also have "\<dots> = length ?W" using fit iff len by (intro unat_of_nat_u64) simp
      finally have tot: "unat tot = length ?W" "tot \<noteq> 0" by (auto simp: length_pack_raw header_bytes_def)
      obtain q h1 where a: "alloc_raw_vector (length ?W) h = (q, h1)" by fastforce
      note al = alloc_raw_vector_ok [OF a ok]
      show ?thesis
      proof (cases q)
        case (Inl e)
        then show ?thesis using f a tot al keeps_live_same [of h1 h] by simp
      next
        case (Inr out)
        then obtain bs where b: "length bs = length ?W" "blocks h1 = (blocks h)(out \<mapsto> bs)" "blocks h out = None"
          using al by auto
        have ne: "out \<noteq> rb" using b(3) raw by auto
        have h1: "blocks h1 rb = Some (pack_raw le wide es)" "raw_bytes h1 rb = pack_raw le wide es" "raw_bytes h1 out = bs"
          using raw b(2) ne by (simp_all add: raw_bytes_def)
        obtain r1 where r1: "write_head le bs (of_nat ?m) wide' = Inr r1" "agrees ?W r1 {..<header_bytes}"
          using write_head_ok [OF refl b(1)] unfolding E(2) by blast
        obtain s where loop: "for_each (copy_record_step le h1 rb (pack_view_of wide es) idx wide' header_bytes
            (header_bytes + offset_bytes wide' * ?m)) [0..<?m] (r1, header_bytes + offset_bytes wide' * ?m + ?m, 0) = Inr (?W, s)"
          using copy_records_ok [OF h1(1) fits refl] r1(2) unfolding E(1) by blast
        define h2 where "h2 = h1\<lparr>blocks := (blocks h1)(out \<mapsto> ?W)\<rparr>"
        obtain u h3 where o: "alloc_object h2 = (u, h3)" by fastforce
        note ob = o [unfolded alloc_object_def]
        have h2: "blocks h2 = (blocks h)(out \<mapsto> ?W)" "blocks h3 = blocks h2" "keeps_live h h3"
          using b allocVector_blocks [OF ob] by (auto simp: h2_def keeps_live_def)
        have F: "charpack_Extract_subset le x indx h =
            (case u of Inl e \<Rightarrow> (Inl e, h3) | Inr v \<Rightarrow> (Inr (Some \<lparr>cp_data1 = Some out, cp_data2 = None\<rparr>), h3))"
          using f tot a Inr h1 r1(1) loop parse o by (simp add: h2_def split: sum.split)
        show ?thesis
        proof (cases u)
          case (Inl e)
          have "can_alloc h2 = can_alloc h" using alloc_raw_vector_can_alloc [OF a] by (simp add: h2_def)
          then show ?thesis using F Inl h2(3) allocVector_fail [OF ob [unfolded Inl]] by simp
        next
          case (Inr v)
          have "charpack_holds R le \<lparr>cp_data1 = Some out, cp_data2 = None\<rparr> h3 (vec_subset R (map (charsxp_of R) es) idx)"
            unfolding vec_subset_selected selection_def [symmetric] E(1) [symmetric] using fit h2
            by (auto simp: charpack_holds_def)
          then show ?thesis using F Inr d idx b(3) h2(1,2) by simp
        qed
      qed
    qed
  qed
qed

text \<open>Subscripts 2, NA and 9 of a charpack of two strings.\<close>

theorem charpack_subset_functional_witness:
  "\<exists>out h'. charpack_Extract_subset True \<lparr>cp_data1 = Some 5, cp_data2 = None\<rparr>
       (Some (Integer_indices [2, NA_INTEGER, 9]))
       (demo_heap\<lparr>blocks := [5 \<mapsto> pack_raw True False [NA, Str [104, 105] CETYPE_EXT_UTF8]], next_blk := 6\<rparr>) =
       (Inr (Some \<lparr>cp_data1 = Some out, cp_data2 = None :: (u8 list \<times> cetype_t) option list option\<rparr>), h') \<and>
     blocks h' out = Some (pack_raw True False [Str [104, 105] CETYPE_EXT_UTF8, NA, NA])"
proof -
  let ?es = "[NA, Str [104, 105] CETYPE_EXT_UTF8]" and ?idx = "Integer_indices [2, NA_INTEGER, 9]"
  let ?x = "\<lparr>cp_data1 = Some 5, cp_data2 = None\<rparr> :: (u8 list \<times> cetype_t) option charpack"
  define h where "h = demo_heap\<lparr>blocks := [5 \<mapsto> pack_raw True False ?es], next_blk := 6\<rparr>"
  have sel: "selection ?es ?idx = [Str [104, 105] CETYPE_EXT_UTF8, NA, NA]"
    by (simp add: selection_def upt_rec selected_def sint_c_int)
  have fits: "pack_fits False ?es" "pack_fits False (selection ?es ?idx)" unfolding sel
    by (simp_all add: pack_fits_def state_payload_def header_bytes_def offset_bytes_def valid_view_encoding_def cetype_defs)
  have h: "blocks h 5 = Some (pack_raw True False ?es)" "heap_ok h" "can_alloc h k m" for k m
    by (simp_all add: h_def demo_heap_def heap_ok_def)
  have src: "\<And>b. cp_data1 ?x = Some b \<Longrightarrow> b = 5 \<and> blocks h 5 = Some (pack_raw True False ?es) \<and> pack_fits False ?es"
    using h(1) fits(1) by simp
  have len: "\<And>idx. Some ?idx = Some idx \<Longrightarrow> r_index_length idx \<le> 4503599627370496" by auto
  have w: "False = (4294967295 < length (state_payload (selection ?es ?idx)))" by (simp add: sel state_payload_def)
  obtain r h' where r: "charpack_Extract_subset True ?x (Some ?idx) h = (r, h')" by fastforce
  have e: "selection ?es ?idx = selection ?es (the (Some ?idx))" by simp
  note spec = charpack_subset_functional [where x = ?x and R = demo_R, OF src h(2) len e w, unfolded r prod.case]
  obtain q where q: "r = Inr q"
  proof (cases r)
    case (Inl e)
    then show ?thesis using spec h(3) fits(2) by (simp only: sum.case) blast
  qed
  obtain y where y: "q = Some y" using spec unfolding q by (cases q) simp_all
  then show ?thesis using spec r unfolding q y sum.case option.case sel h_def by auto
qed

end
