(* ===== verification/Cp_Entry.thy ===== *)
theory Cp_Entry
  imports Cp_Packsub
begin

text \<open>
  The entry points R code calls on charpacks (\<open>src/charpack_api.cpp\<close>, from \<open>C_charpack_placeholder\<close>
  on): fills from an ordinary character vector, through views or through slices cut at arbitrary
  byte offsets, and the queries. An object that is not a charpack is \<open>None\<close>.
\<close>

section \<open>C_charpack_fill_from\<close>

text \<open>
  \<open>R_alloc\<close>: memory R takes back when the entry point ends, by a return or an error. The arrays of
  pointers, lengths, encodings and sizes lie outside the byte heap, and are written in order.
\<close>

fun R_allocs :: "nat list \<Rightarrow> heap \<Rightarrow> (fault + unit) \<times> heap" where
  "R_allocs [] h = (Inr (), h)"
| "R_allocs (n # ns) h = (case allocVector n h of (Inl e, h1) \<Rightarrow> (Inl e, h1) | (Inr u, h1) \<Rightarrow> R_allocs ns h1)"

definition collect_view_step ::
    "'c r_strings \<Rightarrow> heap \<Rightarrow> 'c list \<Rightarrow> nat \<Rightarrow> ptr list \<times> c_int list \<times> cetype_ext_t list \<times> size_t \<Rightarrow>
     fault + ptr list \<times> c_int list \<times> cetype_ext_t list \<times> size_t" where
  "collect_view_step R h src i s =
     (case s of (ptrs, lengths, encodings, payload) \<Rightarrow>
        and_then (elt_at src i) (\<lambda>x. and_then (charsxp_to_view R h x) (\<lambda>view.
          Inr (ptrs @ [sv_ptr view], lengths @ [sv_len view], encodings @ [sv_enc view],
               if \<not> strview_is_na view then payload + scast (sv_len view) else payload))))"

text \<open>The state is the memory and the offset of \<open>p\<close> in the joined bytes.\<close>

definition join_step ::
    "blk \<Rightarrow> ptr list \<Rightarrow> c_int list \<Rightarrow> cetype_ext_t list \<Rightarrow> nat \<Rightarrow> heap \<times> nat \<Rightarrow> fault + heap \<times> nat" where
  "join_step joined ptrs lengths encodings i s =
     (case s of (h, p) \<Rightarrow>
        and_then (elt_at ptrs i) (\<lambda>q. and_then (elt_at lengths i) (\<lambda>len. and_then (elt_at encodings i) (\<lambda>enc.
          if \<not> view_is_na q len enc \<and> 0 < sint len
          then (case memcpy h (At joined p) q (unat (scast len :: size_t)) of
                  (Inl e, h1) \<Rightarrow> Inl e
                | (Inr u, h1) \<Rightarrow> Inr (h1, p + nat (sint len)))
          else Inr (h, p)))))"

definition cut_step ::
    "blk \<Rightarrow> size_t \<Rightarrow> c_int \<Rightarrow> nat \<Rightarrow> ptr list \<times> size_t list \<times> size_t \<Rightarrow> fault + ptr list \<times> size_t list \<times> size_t" where
  "cut_step joined payload n_slices k s =
     (case s of (slices, nbytes, offset) \<Rightarrow>
        let e = payload * of_nat (k + 1) div scast n_slices
        in Inr (slices @ [At joined (unat offset)], nbytes @ [e - offset], e))"

text \<open>From the joined bytes on.\<close>

definition fill_from_joined ::
    "bool \<Rightarrow> 'c charpack option \<Rightarrow> ptr list \<Rightarrow> c_int list \<Rightarrow> cetype_ext_t list \<Rightarrow> size_t \<Rightarrow> c_int \<Rightarrow> bool \<Rightarrow> heap \<Rightarrow>
     (fault + unit) \<times> 'c charpack option \<times> heap" where
  "fill_from_joined le x ptrs lengths encodings payload n_slices wide h1 =
     (let n = length ptrs; m = unat n_slices in
      (case alloc_raw_vector (unat (payload + 1)) h1 of
         (Inl e, h2) \<Rightarrow> (Inl e, x, h2)
       | (Inr joined, h2) \<Rightarrow>
           (case for_each (join_step joined ptrs lengths encodings) [0..<n] (h2, 0) of
              Inl e \<Rightarrow> (Inl e, x, h2)
            | Inr (h3, p) \<Rightarrow>
                (case R_allocs [8 * m, 8 * m] h3 of
                   (Inl e, h4) \<Rightarrow> (Inl e, x, free_block joined h4)
                 | (Inr u, h4) \<Rightarrow>
                     (case for_each (cut_step joined payload n_slices) [0..<m] ([], [], 0) of
                        Inl e \<Rightarrow> (Inl e, x, h4)
                      | Inr (slices, nbytes, offset) \<Rightarrow>
                          (case fill_slices le x (of_nat n) (Some lengths) (Some encodings) (scast n_slices)
                                  (Some slices) (Some nbytes) wide h4 of
                             (r, x', h5) \<Rightarrow> (r, x', free_block joined h5)))))))"

definition C_charpack_fill_from ::
    "'c r_strings \<Rightarrow> bool \<Rightarrow> 'c charpack option \<Rightarrow> 'c list option \<Rightarrow> c_int \<Rightarrow> bool \<Rightarrow> heap \<Rightarrow>
     (fault + unit) \<times> 'c charpack option \<times> heap" where
  "C_charpack_fill_from R le x strings n_slices wide h =
     (case strings of
        None \<Rightarrow> (Inl (R_error ''charport charpack fill_from: strings must be a character vector''), x, h)
      | Some src \<Rightarrow>
          let n = length src in
          (case R_allocs [8 * (n + 1), 4 * (n + 1), n + 1] h of
             (Inl e, h1) \<Rightarrow> (Inl e, x, h1)
           | (Inr u, h1) \<Rightarrow>
               (case for_each (collect_view_step R h1 src) [0..<n] ([], [], [], 0) of
                  Inl e \<Rightarrow> (Inl e, x, h1)
                | Inr (ptrs, lengths, encodings, payload) \<Rightarrow>
                    if sint n_slices \<le> 0 \<or> n_slices = NA_INTEGER
                    then fill_views le x (of_nat n) (Some ptrs) (Some lengths) (Some encodings) wide h1
                    else fill_from_joined le x ptrs lengths encodings payload n_slices wide h1)))"

section \<open>The other entry points\<close>

definition C_charpack_placeholder :: "heap \<Rightarrow> (fault + 'c charpack) \<times> heap" where
  "C_charpack_placeholder h = charport_charpack_placeholder_impl h"

text \<open>The cast of a double that does not fit the integer type is undefined.\<close>

definition C_charpack_fill_materialized_na ::
    "'c r_strings \<Rightarrow> 'c charpack option \<Rightarrow> double \<Rightarrow> heap \<Rightarrow> (fault + 'c list) \<times> 'c charpack option \<times> heap" where
  "C_charpack_fill_materialized_na R x n h =
     (case n of
        Finite q \<Rightarrow>
          let k = (if q < 0 then \<lceil>q\<rceil> else \<lfloor>q\<rfloor>)
          in if - (2 ^ 63) \<le> k \<and> k < 2 ^ 63 then charport_charpack_fill_materialized_na_impl R x (of_int k) h
             else (Inl Undefined, x, h)
      | Not_finite \<Rightarrow> (Inl Undefined, x, h))"

definition C_is_charpack :: "'c charpack option \<Rightarrow> bool" where
  "C_is_charpack x \<longleftrightarrow> x \<noteq> None"

text \<open>\<open>None\<close> is \<open>NA_character_\<close>.\<close>

definition C_charpack_state :: "'c charpack option \<Rightarrow> string option" where
  "C_charpack_state x = (case x of None \<Rightarrow> None | Some c \<Rightarrow> Some (charpack_state_name c))"

definition C_charpack_data1 :: "'c charpack option \<Rightarrow> blk option" where
  "C_charpack_data1 x = (case x of None \<Rightarrow> None | Some c \<Rightarrow> cp_data1 c)"

definition C_charpack_serialized_state ::
    "bool \<Rightarrow> bool \<Rightarrow> 'c r_strings \<Rightarrow> 'c charpack option \<Rightarrow> heap \<Rightarrow> (fault + 'c r_state option) \<times> heap" where
  "C_charpack_serialized_state le nu R x h =
     (case x of
        Some c \<Rightarrow>
          if cp_data1 c = None
          then (Inl (R_error ''charport charpack serialized_state: x must be a filled charpack''), h)
          else charpack_Serialized_state le nu R c h
      | None \<Rightarrow> (Inl (R_error ''charport charpack serialized_state: x must be a filled charpack''), h))"

text \<open>\<open>Rf_duplicate\<close> of a raw vector is a new one, which is not an ALTREP object.\<close>

definition C_charpack_from_state :: "bool \<Rightarrow> bool \<Rightarrow> 'c r_state \<Rightarrow> heap \<Rightarrow> (fault + 'c list + 'c charpack) \<times> heap" where
  "C_charpack_from_state le nu state h =
     (case state of
        Rawsxp rb \<Rightarrow>
          (case alloc_raw_vector (length (raw_bytes h rb)) h of
             (Inl e, h1) \<Rightarrow> (Inl e, h1)
           | (Inr copy, h1) \<Rightarrow>
               charpack_Unserialize le nu False (Rawsxp copy :: 'c r_state) (h1\<lparr>blocks := (blocks h1)(copy \<mapsto> raw_bytes h rb)\<rparr>))
      | _ \<Rightarrow> (Inl (R_error ''charport charpack from_state: state must be a raw vector''), h))"

section \<open>The views of a character vector\<close>

lemma R_allocs_ok:
  assumes "R_allocs ns h = (r, h')"
  shows "blocks h' = blocks h \<and> next_blk h' = next_blk h \<and> can_alloc h' = can_alloc h \<and>
    (\<forall>e. r = Inl e \<longrightarrow> (\<exists>m. e = R_error m) \<and> (\<exists>k m. \<not> can_alloc h k m))"
  using assms
proof (induction ns arbitrary: h)
  case (Cons n ns)
  obtain q h1 where a: "allocVector n h = (q, h1)" by fastforce
  note al = allocVector_blocks [OF a] allocVector_can_alloc [OF a]
  show ?case
  proof (cases q)
    case (Inl e)
    then show ?thesis using Cons.prems a al allocVector_fail [OF a [unfolded Inl]] by auto
  next
    case (Inr u)
    then show ?thesis using Cons.prems a al Cons.IH [of h1] by simp
  qed
qed auto

declare R_allocs.simps [simp del]

definition charsxp_view :: "'c r_strings \<Rightarrow> heap \<Rightarrow> 'c \<Rightarrow> charport_strview" where
  "charsxp_view R h x =
     (if x = NA_STRING R then make_strview Null NA_INTEGER CETYPE_EXT_NA
      else make_strview (CHAR_charsxp R x) (LENGTH_charsxp R x) (charsxp_tag (getCharCE R x) (charsxp_bytes R h x)))"

lemma charsxp_view_live:
  assumes "charsxp_live R h x"
  shows "charsxp_to_view R h x = Inr (charsxp_view R h x)"
    and "view_content h (charsxp_view R h x) = Some (charsxp_element R h x)"
    and "strview_is_na (charsxp_view R h x) \<longleftrightarrow> x = NA_STRING R"
    and "\<not> strview_is_na (charsxp_view R h x) \<Longrightarrow>
      (scast (sv_len (charsxp_view R h x)) :: size_t) = of_nat (length (elem_bytes (charsxp_element R h x)))"
    and "strview_is_na (charsxp_view R h x) \<Longrightarrow> elem_bytes (charsxp_element R h x) = []"
proof -
  show to: "charsxp_to_view R h x = Inr (charsxp_view R h x)"
    using classify_charsxp_live [OF assms] by (simp add: charsxp_to_view_def charsxp_view_def)
  then show v: "view_content h (charsxp_view R h x) = Some (charsxp_element R h x)"
    using charsxp_to_view_live [OF assms] by auto
  show na: "strview_is_na (charsxp_view R h x) \<longleftrightarrow> x = NA_STRING R"
    using assms by (auto simp: charsxp_view_def strview_is_na_def charsxp_live_def)
  show "elem_bytes (charsxp_element R h x) = []" if "strview_is_na (charsxp_view R h x)"
    using that na by (simp add: charsxp_element_def)
  assume "\<not> strview_is_na (charsxp_view R h x)"
  then have n: "x \<noteq> NA_STRING R" using na by simp
  then have l: "unat (LENGTH_charsxp R x) \<le> 2147483647" using assms by (simp add: charsxp_live_def)
  have "length (charsxp_bytes R h x) = unat (LENGTH_charsxp R x)"
    using assms n length_mem_read by (auto simp: charsxp_bytes_def charsxp_live_def split: option.splits)
  then have "(of_nat (length (charsxp_bytes R h x)) :: size_t) = of_nat (unat (scast (LENGTH_charsxp R x) :: size_t))"
    using unat_scast_nonneg [OF l] by simp
  then show "(scast (sv_len (charsxp_view R h x)) :: size_t) = of_nat (length (elem_bytes (charsxp_element R h x)))"
    using n by (simp add: charsxp_element_def charsxp_view_def)
qed

abbreviation "view_ptrs R h src \<equiv> map (\<lambda>x. sv_ptr (charsxp_view R h x)) src"
abbreviation "view_lens R h src \<equiv> map (\<lambda>x. sv_len (charsxp_view R h x)) src"
abbreviation "view_encs R h src \<equiv> map (\<lambda>x. sv_enc (charsxp_view R h x)) src"

lemma collect_views:
  assumes live: "\<And>x. x \<in> set src \<Longrightarrow> charsxp_live R h x"
  shows "for_each (collect_view_step R h src) [0..<length src] ([], [], [], 0) =
    Inr (view_ptrs R h src, view_lens R h src, view_encs R h src,
         of_nat (length (state_payload (map (charsxp_element R h) src))))"
proof -
  let ?P = "\<lambda>i s. s = (view_ptrs R h (take i src), view_lens R h (take i src), view_encs R h (take i src),
         of_nat (length (state_payload (map (charsxp_element R h) (take i src)))) :: size_t)"
  have "\<exists>s. for_each (collect_view_step R h src) [0..<length src] ([], [], [], 0) = Inr s \<and> ?P (length src) s"
  proof (rule for_each_invariant [where P = ?P])
    fix k s assume k: "0 \<le> k" "k < length src" and P: "?P k s"
    then have l: "charsxp_live R h (src ! k)" using live by simp
    show "\<exists>s'. collect_view_step R h src k s = Inr s' \<and> ?P (Suc k) s'"
      using k P charsxp_view_live(1,4,5) [OF l]
      by (simp add: collect_view_step_def elt_at_def take_Suc_conv_app_nth state_payload_def)
  qed (simp_all add: state_payload_def)
  then show ?thesis by simp
qed

lemma views_of_chars:
  assumes live: "\<And>x. x \<in> set src \<Longrightarrow> charsxp_live R h x" and i: "i < length src"
  shows "view_ok (view_lens R h src) (view_ptrs R h src) (view_encs R h src) i"
    and "view_content h (make_strview (view_ptrs R h src ! i) (view_lens R h src ! i) (view_encs R h src ! i)) =
      Some (map (charsxp_element R h) src ! i)"
proof -
  have l: "charsxp_live R h (src ! i)" using live i by simp
  show "view_ok (view_lens R h src) (view_ptrs R h src) (view_encs R h src) i"
    using l i charsxp_tag_valid
    by (auto simp: view_ok_def charsxp_view_def view_is_na_def charsxp_live_def valid_view_encoding_def sint_nonneg_iff cetype_defs)
  show "view_content h (make_strview (view_ptrs R h src ! i) (view_lens R h src ! i) (view_encs R h src ! i)) =
      Some (map (charsxp_element R h) src ! i)"
    using charsxp_view_live(2) [OF l] i by (cases "charsxp_view R h (src ! i)") (simp add: make_strview_def)
qed

section \<open>Joining and cutting\<close>

text \<open>After the loop the joined block holds the strings one after the other, and no other byte changed.\<close>

lemma join_ok:
  assumes len: "length ps = length es" "length ls = length es" "length cs = length es"
    and v: "\<And>i. i < length es \<Longrightarrow> view_ok ls ps cs i"
      "\<And>i. i < length es \<Longrightarrow> view_content h (make_strview (ps ! i) (ls ! i) (cs ! i)) = Some (es ! i)"
    and live: "keeps_live h h2" "blocks h jb = None" and jb: "blocks h2 jb = Some zs" "length (state_payload es) \<le> length zs"
  obtains h3 p bs where "for_each (join_step jb ps ls cs) [0..<length es] (h2, 0) = Inr (h3, p)"
    and "blocks h3 = (blocks h2)(jb \<mapsto> bs)" and "take (length (state_payload es)) bs = state_payload es"
    and "next_blk h3 = next_blk h2" and "can_alloc h3 = can_alloc h2"
proof -
  let ?pay = "state_payload es"
  let ?P = "\<lambda>i (g :: heap, p). p = pack_end es i \<and> next_blk g = next_blk h2 \<and> can_alloc g = can_alloc h2 \<and>
    (\<exists>bs. blocks g = (blocks h2)(jb \<mapsto> bs) \<and> length bs = length zs \<and> take (pack_end es i) bs = take (pack_end es i) ?pay)"
  have "\<exists>s. for_each (join_step jb ps ls cs) [0..<length es] (h2, 0) = Inr s \<and> ?P (length es) s"
  proof (rule for_each_invariant [where P = ?P])
    show "?P 0 (h2, 0)" using jb(1) by (auto simp: pack_end_def fun_eq_iff)
  next
    fix k s assume k: "0 \<le> k" "k < length es" and P: "?P k s"
    then obtain g bs where s: "s = (g, pack_end es k)" and g: "next_blk g = next_blk h2" "can_alloc g = can_alloc h2"
      "blocks g = (blocks h2)(jb \<mapsto> bs)" "length bs = length zs" "take (pack_end es k) bs = take (pack_end es k) ?pay"
      by auto
    note elem = view_element [OF v(1) [OF k(2)] v(2) [OF k(2)]]
    have piece: "take (length (elem_bytes (es ! k))) (drop (pack_end es k) ?pay) = elem_bytes (es ! k)"
      using piece_of_concat [of k "map elem_bytes es"] k(2)
      by (simp add: pack_end_def state_payload_def cong: before_cong)
    have room: "pack_end es k + length (elem_bytes (es ! k)) \<le> length zs"
      using pack_end_le [of "Suc k" es] k(2) jb(2) by (simp add: pack_end_Suc)
    show "\<exists>s'. join_step jb ps ls cs k s = Inr s' \<and> ?P (Suc k) s'"
    proof (cases "elem_bytes (es ! k) = []")
      case True
      have "\<not> (\<not> view_is_na (ps ! k) (ls ! k) (cs ! k) \<and> 0 < sint (ls ! k))"
      proof (cases "es ! k")
        case (Str bs c)
        then have "ls ! k = 0" using elem(2) [OF Str] True by (simp add: unat_eq_zero)
        then show ?thesis by simp
      qed (use elem(1) in simp)
      then show ?thesis
        using True k len s g by (auto simp: join_step_def elt_at_def pack_end_Suc)
    next
      case False
      then obtain ys c where e: "es ! k = Str ys c" "ys \<noteq> []" by (cases "es ! k") auto
      note str = elem(2) [OF e(1)]
      have na: "\<not> view_is_na (ps ! k) (ls ! k) (cs ! k)" using elem(1) e(1) by simp
      have sz: "unat (scast (ls ! k) :: size_t) = length ys" using str by (simp add: unat_scast_nonneg)
      have pos: "0 < sint (ls ! k)" "nat (sint (ls ! k)) = length ys"
        using str e(2) sint_c_int [of "ls ! k"] by simp_all
      have src: "mem_read g (ps ! k) (length ys) = Some ys"
      proof -
        have "mem_read h2 (ps ! k) (length ys) = Some ys" using keeps_live_read [OF live(1)] str by blast
        moreover have "ptr_blk (ps ! k) \<noteq> Some jb" using str live(2) e(2) by (cases "ps ! k") (auto split: option.splits)
        ultimately show ?thesis using mem_read_cong [of "ps ! k" g h2 "length ys"] g(3) by (metis fun_upd_other option.inject)
      qed
      have dis: "disjoint (At jb (pack_end es k)) (length ys) (ps ! k) (length ys)"
      proof (rule disjoint_blk)
        show "ptr_blk (At jb (pack_end es k)) \<noteq> ptr_blk (ps ! k)"
          using str live(2) e(2) by (cases "ps ! k") (auto split: option.splits)
      qed
      have b: "blocks g jb = Some bs" "pack_end es k + length ys \<le> length bs" using g(3,4) room e(1) by simp_all
      obtain g' where m: "memcpy g (At jb (pack_end es k)) (ps ! k) (length ys) = (Inr (), g')"
        and w: "mem_write g (At jb (pack_end es k)) ys = Some g'"
        using memcpy_ok [OF src b dis] by blast
      have g': "g' = g\<lparr>blocks := (blocks g)(jb \<mapsto> patch bs (pack_end es k) ys)\<rparr>" using w b by simp
      have "take (pack_end es k + length ys) (patch bs (pack_end es k) ys) = take (pack_end es k) ?pay @ ys"
        using b(2) g(5) pack_end_le [of k es] k(2) by (simp add: patch_def)
      also have "\<dots> = take (pack_end es (Suc k)) ?pay"
        using piece e(1) by (simp add: pack_end_Suc take_add)
      finally have t: "take (pack_end es (Suc k)) (patch bs (pack_end es k) ys) = take (pack_end es (Suc k)) ?pay"
        using e(1) by (simp add: pack_end_Suc)
      have "join_step jb ps ls cs k s = Inr (g', pack_end es (Suc k))"
        using k len na pos sz m e(1) by (simp add: s join_step_def elt_at_def pack_end_Suc)
      moreover have "?P (Suc k) (g', pack_end es (Suc k))"
        using g b t by (auto simp: g')
      ultimately show ?thesis by blast
    qed
  qed simp
  then show thesis using that by (auto simp: pack_end_total)
qed

text \<open>Where slice \<open>k\<close> of \<open>m\<close> begins.\<close>

abbreviation cut_at :: "nat \<Rightarrow> nat \<Rightarrow> nat \<Rightarrow> nat" where
  "cut_at tot m k \<equiv> tot * k div m"

lemma cut_ok:
  assumes pos: "0 < sint n_slices" and wrap: "unat payload * unat n_slices < 18446744073709551616"
  shows "for_each (cut_step jb payload n_slices) [0..<unat n_slices] ([], [], 0) =
    Inr (map (\<lambda>k. At jb (cut_at (unat payload) (unat n_slices) k)) [0..<unat n_slices],
         map (\<lambda>k. of_nat (cut_at (unat payload) (unat n_slices) (Suc k) - cut_at (unat payload) (unat n_slices) k)) [0..<unat n_slices],
         of_nat (cut_at (unat payload) (unat n_slices) (unat n_slices)))"
proof -
  let ?m = "unat n_slices" and ?e = "cut_at (unat payload) (unat n_slices)"
  let ?P = "\<lambda>k s. s = (map (\<lambda>k. At jb (?e k)) [0..<k], map (\<lambda>k. of_nat (?e (Suc k) - ?e k) :: size_t) [0..<k], of_nat (?e k) :: size_t)"
  have small: "?m \<le> 2147483647" using pos sint_nonneg_iff [of n_slices] by simp
  have m: "unat (scast n_slices :: size_t) = ?m" using small by (rule unat_scast_nonneg)
  have bound: "?e k < 18446744073709551616" if "k \<le> ?m" for k
  proof -
    have "unat payload * k \<le> unat payload * ?m" using that by simp
    then show ?thesis using wrap by (metis div_le_dividend le_less_trans)
  qed
  have at: "payload * of_nat (k + 1) div scast n_slices = of_nat (?e (Suc k))" if k: "k < ?m" for k
  proof -
    have le: "unat payload * (k + 1) \<le> unat payload * ?m" using k by (intro mult_le_mono2) simp
    have "unat (of_nat (k + 1) :: size_t) = k + 1" using k small by (intro unat_of_nat_u64) simp
    then have "unat (payload * of_nat (k + 1)) = unat payload * (k + 1)"
      using le wrap by (subst unat_mult_u64) simp_all
    then have "unat (payload * of_nat (k + 1) div scast n_slices) = ?e (Suc k)" by (simp add: unat_div m)
    then have "of_nat (unat (payload * of_nat (k + 1) div scast n_slices)) = (of_nat (?e (Suc k)) :: size_t)" by simp
    then show ?thesis by simp
  qed
  have "\<exists>s. for_each (cut_step jb payload n_slices) [0..<?m] ([], [], 0) = Inr s \<and> ?P ?m s"
  proof (rule for_each_invariant [where P = ?P])
    fix k s assume k: "0 \<le> k" "k < ?m" and s: "?P k s"
    have "?e k \<le> ?e (Suc k)" by (simp add: div_le_mono)
    then have "of_nat (?e (Suc k)) - of_nat (?e k) = (of_nat (?e (Suc k) - ?e k) :: size_t)" by (simp add: of_nat_diff)
    moreover have "unat (of_nat (?e k) :: size_t) = ?e k" using bound [of k] k by (intro unat_of_nat_u64) simp
    ultimately show "\<exists>s'. cut_step jb payload n_slices k s = Inr s' \<and> ?P (Suc k) s'"
      using at [OF k(2)] by (simp add: s cut_step_def Let_def)
  qed simp_all
  then show ?thesis by simp
qed

text \<open>The slices hold the joined bytes, cut into consecutive pieces.\<close>

lemma cut_holds:
  assumes b: "blocks h jb = Some bs" "take (length ys) bs = ys" and m: "0 < m"
    and wrap: "length ys * m < 18446744073709551616"
  obtains xs where "slices_hold h (map (\<lambda>k. At jb (cut_at (length ys) m k)) [0..<m])
      (map (\<lambda>k. of_nat (cut_at (length ys) m (Suc k) - cut_at (length ys) m k)) [0..<m]) xs"
    and "concat xs = ys" and "length xs = m"
proof -
  let ?e = "cut_at (length ys) m"
  let ?s = "\<lambda>k. ?e (Suc k) - ?e k"
  let ?xs = "map (\<lambda>k. take (?s k) (drop (?e k) ys)) [0..<m]"
  have mono: "?e k \<le> ?e (Suc k)" for k by (simp add: div_le_mono)
  have e: "before ?s k = ?e k" for k by (induction k) (use mono in \<open>simp_all add: le_add_diff_inverse\<close>)
  have top: "?e m = length ys" using m by simp
  have le: "?e k \<le> length ys" if "k \<le> m" for k
  proof -
    have "length ys * k div m \<le> length ys * m div m" using that by (intro div_le_mono) simp
    then show ?thesis using m by simp
  qed
  have "concat ?xs = ys" using concat_pieces [of ?s m ys] unfolding e top by simp
  moreover have "slices_hold h (map (\<lambda>k. At jb (?e k)) [0..<m]) (map (\<lambda>k. of_nat (?s k)) [0..<m]) ?xs"
    unfolding slices_hold_def
  proof (intro conjI allI impI)
    fix k assume "k < length ?xs"
    then have k: "k < m" by simp
    note up = le [of "Suc k"] and lo = mono [of k]
    have len: "length (?xs ! k) = ?s k" using k up by simp
    have "length ys \<le> length ys * m" using m by simp
    then have "?s k < 18446744073709551616" using up k wrap by linarith
    then show "length (?xs ! k) = unat (map (\<lambda>k. of_nat (?s k) :: size_t) [0..<m] ! k)"
      using len k by (simp add: unat_of_nat_u64)
    have cut: "?s k \<le> length ys - ?e k" using up k by (intro diff_le_mono) simp
    have "take (?s k) (drop (?e k) (take (length ys) bs)) = take (?s k) (drop (?e k) bs)"
      using cut by (simp only: drop_take take_take min_absorb1)
    moreover have "?e k + ?s k \<le> length bs" using up lo k b(2) by (metis Suc_leI le_add_diff_inverse length_take min.boundedE order_refl)
    ultimately show "mem_read h (map (\<lambda>k. At jb (?e k)) [0..<m] ! k) (length (?xs ! k)) = Some (?xs ! k)"
      using len k b by simp
  qed simp_all
  ultimately show thesis using that [of ?xs] by simp
qed

lemma charsxp_record_na:
  assumes "charsxp_live R h x"
  shows "record_is_na (sv_len (charsxp_view R h x)) (sv_enc (charsxp_view R h x)) \<longleftrightarrow> x = NA_STRING R"
  using assms by (auto simp: record_is_na_def charsxp_view_def charsxp_live_def)

lemma cut_views:
  assumes "\<And>x. x \<in> set src \<Longrightarrow> charsxp_live R h x"
  shows "cut_records (view_lens R h src) (view_encs R h src) (state_payload (map (charsxp_element R h) src)) =
      map (charsxp_element R h) src"
    and "records_total (view_lens R h src) (view_encs R h src) = length (state_payload (map (charsxp_element R h) src))"
proof -
  have "cut_records (view_lens R h src) (view_encs R h src) (state_payload (map (charsxp_element R h) src)) =
      map (charsxp_element R h) src \<and>
    records_total (view_lens R h src) (view_encs R h src) = length (state_payload (map (charsxp_element R h) src))"
    using assms
  proof (induction src)
    case (Cons x src)
    have l: "charsxp_live R h x" using Cons.prems by simp
    note na = charsxp_record_na [OF l]
    have "length (charsxp_bytes R h x) = unat (LENGTH_charsxp R x)" if "x \<noteq> NA_STRING R"
      using l that length_mem_read by (auto simp: charsxp_bytes_def charsxp_live_def split: option.splits)
    then show ?case
      using Cons na
      by (cases "x = NA_STRING R")
        (auto simp: charsxp_element_def charsxp_view_def state_payload_def records_total_def record_size_def)
  qed (simp add: state_payload_def records_total_def)
  then show "cut_records (view_lens R h src) (view_encs R h src) (state_payload (map (charsxp_element R h) src)) =
      map (charsxp_element R h) src"
    and "records_total (view_lens R h src) (view_encs R h src) = length (state_payload (map (charsxp_element R h) src))"
    by simp_all
qed

section \<open>What fill_from does\<close>

text \<open>
  The outcome that does not depend on the way the strings take: the documented layout in a new raw
  vector, or an R error that changes nothing.
\<close>

definition filled_from :: "bool \<Rightarrow> bool \<Rightarrow> 'c charpack \<Rightarrow> element list \<Rightarrow> heap \<Rightarrow> (fault + unit) \<times> 'c charpack option \<times> heap \<Rightarrow> bool" where
  "filled_from le wide x es h out \<longleftrightarrow>
     (case out of
        (Inl e, x', h') \<Rightarrow> (\<exists>m. e = R_error m) \<and> x' = Some x \<and> blocks h' = blocks h \<and>
          (\<not> charpack_is_unfilled x \<or> \<not> pack_fits wide es \<or> (\<exists>k m. \<not> can_alloc h k m))
      | (Inr u, x', h') \<Rightarrow> charpack_is_unfilled x \<and> pack_fits wide es \<and>
          (\<exists>rb. x' = Some (x\<lparr>cp_data1 := Some rb\<rparr>) \<and> blocks h rb = None \<and>
             blocks h' = (blocks h)(rb \<mapsto> pack_raw le wide es)))"

lemma fill_from_views:
  assumes ok: "heap_ok h" and live: "\<And>x. x \<in> set src \<Longrightarrow> charsxp_live R h x" and n: "length src < 2 ^ 63"
    and es: "es = map (charsxp_element R h) src" and w: "wide' = (wide \<or> 4294967295 < length (state_payload es))"
  shows "filled_from le wide' x es h
    (fill_views le (Some x) (of_nat (length src)) (Some (view_ptrs R h src)) (Some (view_lens R h src)) (Some (view_encs R h src)) wide h)"
proof -
  note v = views_of_chars [OF live]
  have "case fill_views le (Some x) (of_nat (length es)) (Some (view_ptrs R h src)) (Some (view_lens R h src))
        (Some (view_encs R h src)) wide h of
      (Inl e, x', h') \<Rightarrow> (\<exists>m. e = R_error m) \<and> x' = Some x \<and> blocks h' = blocks h \<and>
        (\<not> charpack_is_unfilled x \<or> (\<exists>i < length es. \<not> view_ok (view_lens R h src) (view_ptrs R h src) (view_encs R h src) i) \<or>
         \<not> pack_fits wide' es \<or> (\<exists>k m. \<not> can_alloc h k m))
    | (Inr u, x', h') \<Rightarrow> charpack_is_unfilled x \<and>
        (\<forall>i < length es. view_ok (view_lens R h src) (view_ptrs R h src) (view_encs R h src) i) \<and> pack_fits wide' es \<and>
        (\<exists>rb. x' = Some (x\<lparr>cp_data1 := Some rb\<rparr>) \<and> blocks h rb = None \<and>
           blocks h' = (blocks h)(rb \<mapsto> pack_raw le wide' es))"
    by (rule fill_views_ok [OF ok _ _ _ _ _ w]) (use n v in \<open>simp_all add: es\<close>)
  moreover have "\<forall>i < length es. view_ok (view_lens R h src) (view_ptrs R h src) (view_encs R h src) i" using v(1) by (simp add: es)
  ultimately show ?thesis unfolding filled_from_def by (auto simp: es split: prod.splits sum.splits)
qed

text \<open>\<open>h4\<close> is \<open>h\<close> with the joined block.\<close>

lemma fill_from_slices:
  fixes n_slices :: c_int
  assumes ok: "heap_ok h4" and live: "\<And>x. x \<in> set src \<Longrightarrow> charsxp_live R h x" and n: "length src < 2 ^ 63"
    and es: "es = map (charsxp_element R h) src" and w: "wide' = (wide \<or> 4294967295 < length (state_payload es))"
    and jb: "blocks h jb = None" "blocks h4 = (blocks h)(jb \<mapsto> bs)" "can_alloc h4 = can_alloc h"
    and b: "take (length (state_payload es)) bs = state_payload es"
    and m: "0 < sint n_slices" and wrap: "length (state_payload es) * unat n_slices < 18446744073709551616"
    and s: "fill_slices le (Some x) (of_nat (length src)) (Some (view_lens R h src)) (Some (view_encs R h src)) (scast n_slices)
        (Some (map (\<lambda>k. At jb (cut_at (length (state_payload es)) (unat n_slices) k)) [0..<unat n_slices]))
        (Some (map (\<lambda>k. of_nat (cut_at (length (state_payload es)) (unat n_slices) (Suc k) -
           cut_at (length (state_payload es)) (unat n_slices) k)) [0..<unat n_slices])) wide h4 = (r, x', h5)"
  shows "filled_from le wide' x es h (r, x', free_block jb h5)"
proof -
  let ?ls = "view_lens R h src" and ?cs = "view_encs R h src" and ?m = "unat n_slices" and ?T = "length (state_payload es)"
  have small: "?m \<le> 2147483647" using m sint_nonneg_iff [of n_slices] by simp
  have pos: "0 < ?m" using m by (metis less_irrefl sint_0 unat_0 unat_eq_zero neq0_conv)
  have cast: "(scast n_slices :: R_xlen_t) = of_nat ?m"
  proof -
    have "of_nat (unat (scast n_slices :: R_xlen_t)) = (of_nat ?m :: R_xlen_t)" using unat_scast_nonneg [OF small] by simp
    then show ?thesis by simp
  qed
  have jb4: "blocks h4 jb = Some bs" using jb by simp
  obtain xs where xs: "slices_hold h4 (map (\<lambda>k. At jb (cut_at ?T ?m k)) [0..<?m])
      (map (\<lambda>k. of_nat (cut_at ?T ?m (Suc k) - cut_at ?T ?m k)) [0..<?m]) xs"
    and cat: "concat xs = state_payload es" and lx: "length xs = ?m"
    using cut_holds [OF jb4 b pos wrap] by blast
  have cut: "es = cut_records ?ls ?cs (concat xs)" "records_total ?ls ?cs = length (concat xs)"
    using cut_views [OF live] by (simp_all add: cat es)
  have wide: "wide' = (wide \<or> 4294967295 < length (concat xs))" using w cat by simp
  have l: "length ?cs = length ?ls" "length ?ls < 2 ^ 63" "length xs < 2 ^ 63" using n lx small by simp_all
  have fit: "slices_fit ?ls ?cs i" if "i < length ?ls" for i
    using that views_of_chars(1) [OF live, of src i] live [of "src ! i"]
    by (auto simp: slices_fit_def record_fit_def view_ok_def view_is_na_def charsxp_view_def record_is_na_def charsxp_live_def)
  have nonnull: "\<not> (\<exists>k < length xs. xs ! k \<noteq> [] \<and> map (\<lambda>k. At jb (cut_at ?T ?m k)) [0..<?m] ! k = Null)" using lx by simp
  note spec = fill_slices_ok [OF ok l xs cut(1) wide, where le = le and x = x, unfolded lx, folded cast, unfolded length_map s prod.case]
  show ?thesis
  proof (cases r)
    case (Inl e)
    then show ?thesis using spec nonnull fit cut(2) lx jb
      unfolding Inl filled_from_def by (auto simp: free_block_def fun_eq_iff)
  next
    case (Inr u)
    have f: "charpack_is_unfilled x" "pack_fits wide' es"
      "\<exists>rb. x' = Some (x\<lparr>cp_data1 := Some rb\<rparr>) \<and> blocks h4 rb = None \<and> blocks h5 = (blocks h4)(rb \<mapsto> pack_raw le wide' es)"
      using spec unfolding Inr sum.case by blast+
    then obtain rb where rb: "x' = Some (x\<lparr>cp_data1 := Some rb\<rparr>)" "blocks h4 rb = None"
      "blocks h5 = (blocks h4)(rb \<mapsto> pack_raw le wide' es)" by blast
    have "rb \<noteq> jb" using rb(2) jb4 by auto
    then have "blocks h rb = None" "blocks (free_block jb h5) = (blocks h)(rb \<mapsto> pack_raw le wide' es)"
      using rb jb by (auto simp: free_block_def fun_eq_iff)
    then show ?thesis using f rb(1) unfolding Inr filled_from_def by auto
  qed
qed

lemma filled_from_same:
  assumes "filled_from le wide x es h1 out" and "blocks h1 = blocks h" and "can_alloc h1 = can_alloc h"
  shows "filled_from le wide x es h out"
  using assms(1) unfolding filled_from_def assms(2,3) .

lemma refused_from:
  assumes "\<exists>m. e = R_error m" and "\<exists>k m. \<not> can_alloc h k m" and "blocks h' = blocks h"
  shows "filled_from le wide x es h (Inl e, Some x, h')"
  using assms by (simp add: filled_from_def)

lemma fill_from_joined_ok:
  assumes ok1: "heap_ok h1" and live1: "\<And>x. x \<in> set src \<Longrightarrow> charsxp_live R h1 x" and n: "length src < 2 ^ 63"
    and es: "es = map (charsxp_element R h1) src" and w: "wide' = (wide \<or> 4294967295 < length (state_payload es))"
    and pos: "0 < sint n_slices" and lim: "Suc (length (state_payload es)) * unat n_slices < 18446744073709551616"
  shows "filled_from le wide' x es h1 (fill_from_joined le (Some x) (view_ptrs R h1 src) (view_lens R h1 src) (view_encs R h1 src)
    (of_nat (length (state_payload es))) n_slices wide h1)"
proof -
  let ?m = "unat n_slices" and ?T = "length (state_payload es)" and ?ps = "view_ptrs R h1 src" and ?ls = "view_lens R h1 src"
    and ?cs = "view_encs R h1 src"
  let ?f = "fill_from_joined le (Some x) ?ps ?ls ?cs (of_nat ?T) n_slices wide h1"
  have "n_slices \<noteq> 0" using pos by auto
  then have m: "0 < ?m" by (simp add: unat_gt_0)
  have "?T * ?m \<le> Suc ?T * ?m" by (rule mult_le_mono1) simp
  then have T2: "?T * ?m < 18446744073709551616" using lim by (rule le_less_trans)
  have "Suc ?T * 1 \<le> Suc ?T * ?m" using m by (intro mult_le_mono2) simp
  then have "Suc ?T \<le> Suc ?T * ?m" by (simp only: mult_1_right)
  then have T1: "Suc ?T < 18446744073709551616" using lim by (rule le_less_trans)
  have tot: "unat (of_nat ?T :: size_t) = ?T" using T1 by (intro unat_of_nat_u64) simp
  have "unat (of_nat (Suc ?T) :: size_t) = Suc ?T" using T1 by (rule unat_of_nat_u64)
  then have tot1: "unat (of_nat ?T + 1 :: size_t) = Suc ?T" by (simp add: add.commute)
  note defs = fill_from_joined_def Let_def length_map tot1
  obtain q2 h2 where raw: "alloc_raw_vector (Suc ?T) h1 = (q2, h2)" by fastforce
  note al2 = alloc_raw_vector_ok [OF raw ok1] and can2 = alloc_raw_vector_can_alloc [OF raw]
  show ?thesis
  proof (cases q2)
    case (Inl e)
    then have "?f = (Inl e, Some x, h2)" by (simp only: defs raw prod.case sum.case)
    moreover have "filled_from le wide' x es h1 (Inl e, Some x, h2)"
      using al2 unfolding Inl sum.case by (intro refused_from) blast+
    ultimately show ?thesis by simp
  next
    case jb: (Inr jb)
    obtain zs where jb1: "blocks h1 jb = None" and keep2: "keeps_live h1 h2"
      and h2: "length zs = Suc ?T" "blocks h2 = (blocks h1)(jb \<mapsto> zs)" "heap_ok h2"
      using al2 unfolding jb sum.case by blast
    obtain h3 p bs where j: "for_each (join_step jb ?ps ?ls ?cs) [0..<length es] (h2, 0) = Inr (h3, p)"
      and h3: "blocks h3 = (blocks h2)(jb \<mapsto> bs)" "take ?T bs = state_payload es"
        "next_blk h3 = next_blk h2" "can_alloc h3 = can_alloc h2"
    proof (rule join_ok [where es = es and h = h1 and ?h2.0 = h2 and jb = jb and zs = zs and ps = ?ps and ls = ?ls and cs = ?cs])
      show "view_ok ?ls ?ps ?cs i" if "i < length es" for i
        using views_of_chars(1) [OF live1, of src i] that by (simp add: es)
      show "view_content h1 (make_strview (?ps ! i) (?ls ! i) (?cs ! i)) = Some (es ! i)" if "i < length es" for i
        using views_of_chars(2) [OF live1, of src i] that by (simp add: es)
    qed (use jb1 keep2 h2 in \<open>simp_all add: es\<close>)
    have n_es: "length es = length src" by (simp add: es)
    obtain q4 h4 where a4: "R_allocs [8 * ?m, 8 * ?m] h3 = (q4, h4)" by fastforce
    note al4 = R_allocs_ok [OF a4]
    have fr: "blocks (free_block jb h4) = blocks h1" "can_alloc h3 = can_alloc h1"
      using al4 h2 h3 can2 jb1 by (simp_all add: free_block_def fun_eq_iff)
    show ?thesis
    proof (cases q4)
      case (Inl e)
      then have "?f = (Inl e, Some x, free_block jb h4)"
        by (simp only: defs raw jb j [unfolded n_es] a4 prod.case sum.case)
      moreover have "filled_from le wide' x es h1 (Inl e, Some x, free_block jb h4)"
        using al4 Inl fr by (intro refused_from) (blast, metis, blast)
      ultimately show ?thesis by simp
    next
      case u4: (Inr u)
      note cut = cut_ok [OF pos, where payload = "of_nat ?T" and jb = jb, unfolded tot, OF T2]
      obtain r x' h5 where s: "fill_slices le (Some x) (of_nat (length src)) (Some ?ls) (Some ?cs) (scast n_slices)
          (Some (map (\<lambda>k. At jb (cut_at ?T ?m k)) [0..<?m]))
          (Some (map (\<lambda>k. of_nat (cut_at ?T ?m (Suc k) - cut_at ?T ?m k)) [0..<?m])) wide h4 = (r, x', h5)"
        by (rule prod_cases3)
      have f: "?f = (r, x', free_block jb h5)"
        by (simp only: defs raw jb j [unfolded n_es] a4 u4 cut s prod.case sum.case)
      have jb4: "blocks h4 = (blocks h1)(jb \<mapsto> bs)" "can_alloc h4 = can_alloc h1" using al4 h2 h3 fr by simp_all
      have ok4: "heap_ok h4" using al4 h2 h3 by (auto simp: heap_ok_def)
      show ?thesis unfolding f by (rule fill_from_slices [OF ok4 live1 n es w jb1 jb4 h3(2) pos T2 s])
    qed
  qed
qed

text \<open>C26. \<open>C_charpack_fill_from\<close> fills an unfilled charpack with the strings of a character vector,
  through views or through any number of slices cut at arbitrary byte offsets (of a total for which
  \<open>payload * n_slices\<close> does not wrap): either way the result is the documented layout of exactly the
  strings in a new raw vector, and the joined bytes are given back; or an R error, for a charpack
  that is not unfilled, a layout beyond R's limits or a refused allocation, and nothing changed.\<close>

theorem charpack_fill_from_any_slices:
  assumes "heap_ok h" and "\<And>x. x \<in> set src \<Longrightarrow> charsxp_live R h x" and "length src < 2 ^ 63"
    and "es = map (charsxp_element R h) src" and "wide' = (wide \<or> 4294967295 < length (state_payload es))"
    and "0 < sint n_slices \<Longrightarrow> Suc (length (state_payload es)) * unat n_slices < 18446744073709551616"
  shows "filled_from le wide' x es h (C_charpack_fill_from R le (Some x) (Some src) n_slices wide h)"
proof -
  let ?f = "C_charpack_fill_from R le (Some x) (Some src) n_slices wide h" and ?n = "length src"
  obtain q h1 where a: "R_allocs [8 * (?n + 1), 4 * (?n + 1), ?n + 1] h = (q, h1)" by fastforce
  note al = R_allocs_ok [OF a]
  show ?thesis
  proof (cases q)
    case (Inl e)
    then have "?f = (Inl e, Some x, h1)"
      by (simp only: C_charpack_fill_from_def Let_def option.case a prod.case sum.case)
    moreover have "filled_from le wide' x es h (Inl e, Some x, h1)" using al Inl by (intro refused_from) blast+
    ultimately show ?thesis by simp
  next
    case (Inr u)
    have ok1: "heap_ok h1" using assms(1) al by (simp add: heap_ok_def)
    have keep: "keeps_live h h1" using al by (simp add: keeps_live_same)
    have live1: "charsxp_live R h1 x" if "x \<in> set src" for x by (rule charsxp_live_later(1) [OF assms(2) [OF that] keep])
    have es1: "es = map (charsxp_element R h1) src"
      unfolding assms(4) by (intro map_cong refl) (rule charsxp_live_later(2) [OF assms(2) keep, symmetric])
    note views = collect_views [where R = R and h = h1 and src = src, OF live1, folded es1]
    have f: "?f = (if sint n_slices \<le> 0 \<or> n_slices = NA_INTEGER
        then fill_views le (Some x) (of_nat ?n) (Some (view_ptrs R h1 src)) (Some (view_lens R h1 src)) (Some (view_encs R h1 src)) wide h1
        else fill_from_joined le (Some x) (view_ptrs R h1 src) (view_lens R h1 src) (view_encs R h1 src)
          (of_nat (length (state_payload es))) n_slices wide h1)"
      by (simp only: C_charpack_fill_from_def Let_def option.case a Inr views prod.case sum.case)
    have "filled_from le wide' x es h1 ?f"
    proof (cases "0 < sint n_slices")
      case True
      then show ?thesis unfolding f
        using fill_from_joined_ok [OF ok1 live1 assms(3) es1 assms(5) True assms(6) [OF True]] by auto
    next
      case False
      then show ?thesis unfolding f using fill_from_views [OF ok1 live1 assms(3) es1 assms(5)] by simp
    qed
    from filled_from_same [OF this] show ?thesis using al by blast
  qed
qed

theorem charpack_fill_from_any_slices_witness:
  "\<exists>rb h'. C_charpack_fill_from demo_chars True (Some \<lparr>cp_data1 = None, cp_data2 = None\<rparr>)
        (Some [([104, 105], CE_UTF8), ([], CE_BYTES), ([104, 105], CE_UTF8)]) 3 False demo_heap =
       (Inr (), Some \<lparr>cp_data1 = Some rb, cp_data2 = None\<rparr>, h') \<and>
     blocks h' rb = Some (pack_raw True False [Str [104, 105] CETYPE_EXT_UTF8, NA, Str [104, 105] CETYPE_EXT_UTF8])"
proof -
  let ?xs = "[([104, 105], CE_UTF8), ([], CE_BYTES), ([104, 105], CE_UTF8)] :: (u8 list \<times> cetype_t) list"
    and ?x = "\<lparr>cp_data1 = None, cp_data2 = None\<rparr> :: (u8 list \<times> cetype_t) charpack"
    and ?es = "[Str [104, 105] CETYPE_EXT_UTF8, NA, Str [104, 105] CETYPE_EXT_UTF8]"
  have live: "x \<in> set ?xs \<Longrightarrow> charsxp_live demo_chars demo_heap x" for x
    by (auto simp: charsxp_live_def demo_chars_def demo_strings_def demo_heap_def)
  have es: "?es = map (charsxp_element demo_chars demo_heap) ?xs"
    by (simp add: charsxp_element_def demo_chars_def demo_strings_def demo_heap_def charsxp_bytes_def charsxp_tag_def)
  have len: "length ?xs < 2 ^ 63" "False = (False \<or> 4294967295 < length (state_payload ?es))"
    "0 < sint (3 :: c_int) \<Longrightarrow> Suc (length (state_payload ?es)) * unat (3 :: c_int) < 18446744073709551616"
    by (simp_all add: state_payload_def)
  have ok: "charpack_is_unfilled ?x" "pack_fits False ?es" "can_alloc demo_heap k m" for k m
    by (simp_all add: charpack_is_unfilled_def pack_fits_def state_payload_def header_bytes_def offset_bytes_def
        demo_heap_def valid_view_encoding_def cetype_defs)
  obtain r x' h' where r: "C_charpack_fill_from demo_chars True (Some ?x) (Some ?xs) 3 False demo_heap = (r, x', h')"
    by (rule prod_cases3)
  note spec = charpack_fill_from_any_slices [OF heap_ok_demo live len(1) es len(2,3), where le = True and x = ?x,
      unfolded r filled_from_def prod.case]
  show ?thesis
  proof (cases r)
    case (Inl e)
    then show ?thesis using spec ok by (simp only: sum.case) blast
  next
    case (Inr u)
    obtain rb where "x' = Some (?x\<lparr>cp_data1 := Some rb\<rparr>)" "blocks h' = (blocks demo_heap)(rb \<mapsto> pack_raw True False ?es)"
      using spec unfolding Inr sum.case by blast
    then show ?thesis using r Inr by auto
  qed
qed

end
