(* ===== verification/Cp_Query.thy ===== *)
theory Cp_Query
  imports Cp_Packvec Cp_Registry
begin

text \<open>
  Entry points over objects of either class or of none: \<open>C_charport_materialize\<close> of
  \<open>src/charvec_api.cpp\<close>, \<open>C_charport_info\<close> and the probe of the native encoding of
  \<open>src/charport_registry.cpp\<close>, and the byte swap of a packed body in \<open>src/charvec_altrep.h\<close>.
\<close>

section \<open>C_charport_materialize\<close>

text \<open>What the function tells apart: instances of the two classes, other character vectors, the rest.\<close>

datatype 'c vector_object =
    Charvec_object "'c charvec"
  | Charpack_object "'c charpack"
  | Strings_object "'c list"
  | Not_strings

definition materialize_object ::
    "'c r_strings \<Rightarrow> bool \<Rightarrow> 'c vector_object \<Rightarrow> heap \<Rightarrow> (fault + unit) \<times> 'c vector_object \<times> heap" where
  "materialize_object R le x h =
     (case x of
        Charvec_object v \<Rightarrow>
          (case charvec_Materialize R v h of (r, v', h') \<Rightarrow> (and_then r (\<lambda>xs. Inr ()), Charvec_object v', h'))
      | Charpack_object p \<Rightarrow>
          (case charpack_Materialize R le p h of (r, p', h') \<Rightarrow> (and_then r (\<lambda>xs. Inr ()), Charpack_object p', h'))
      | Strings_object xs \<Rightarrow> (Inr (), x, h)
      | Not_strings \<Rightarrow> (Inl (Runtime_error ''x must be a character vector''), x, h))"

definition C_charport_materialize ::
    "'c r_strings \<Rightarrow> bool \<Rightarrow> 'c vector_object \<Rightarrow> heap \<Rightarrow> (fault + unit) \<times> 'c vector_object \<times> heap" where
  "C_charport_materialize R le x h =
     (case materialize_object R le x h of (r, x', h') \<Rightarrow> (charport_sexp_guard ''charport_materialize'' r, x', h'))"

section \<open>C_charport_info\<close>

text \<open>\<open>None\<close> is \<open>NA_STRING\<close>. The list has one element of length one for each name.\<close>

datatype r_scalar = R_logical bool | R_real int | R_string "string option"

definition string_or_na :: "string option \<Rightarrow> r_scalar" where
  "string_or_na x = R_string x"

definition C_charport_info ::
    "('x, 'k, 'c, 'w) r_vectors \<Rightarrow> ('x, 'k, 'w, 's, 'f) altrep_entry list \<Rightarrow> 'w \<Rightarrow> 'x \<Rightarrow> (string \<times> r_scalar) list" where
  "C_charport_info V reg w x =
     (let info = charport_get_sexp_info V reg w x; caps = si_capabilities info
      in [(''is_strsxp'', R_logical (si_is_strsxp info)),
          (''length'', R_real (sint (si_length info))),
          (''is_altrep'', R_logical (si_is_altrep info)),
          (''is_materialized'', R_logical (si_is_materialized info)),
          (''is_registered'', R_logical (si_is_registered info)),
          (''persistent_views'', R_logical (persistent_views caps)),
          (''concurrent_access'', R_logical (concurrent_access caps)),
          (''stateful_reader'', R_logical (si_stateful_reader info)),
          (''reentrant'', R_logical (reentrant caps)),
          (''altrep_class_name'', string_or_na (si_class_name info)),
          (''altrep_class_package'', string_or_na (si_class_package info)),
          (''altrep_class'', R_string (class_string_or_na (si_class_package info) (si_class_name info)))])"

section \<open>The native encoding\<close>

text \<open>
  Since R 4.5 the answer is R's \<open>Rf_charIsUTF8\<close> of a kept unmarked string. Before, R's iconv is asked to
  convert the UTF-8 bytes of U+00E9 from the native encoding to UTF-8: \<open>open_conv\<close> is \<open>Riconv_open\<close> and
  \<open>conv\<close> is \<open>Riconv\<close>, which gets the input and the room for the output and gives its status, the
  input left over and the bytes written. Both are parameters.
\<close>

definition native_probe_bytes :: "u8 list" where "native_probe_bytes = [0xc3, 0xa9]"

definition native_is_utf8_since_4_5 :: "(u8 list \<Rightarrow> bool) \<Rightarrow> bool" where
  "native_is_utf8_since_4_5 Rf_charIsUTF8 = Rf_charIsUTF8 native_probe_bytes"

definition native_is_utf8_iconv ::
    "(string \<Rightarrow> string \<Rightarrow> 'cd option) \<Rightarrow> ('cd \<Rightarrow> u8 list \<Rightarrow> nat \<Rightarrow> size_t \<times> nat \<times> u8 list) \<Rightarrow> bool" where
  "native_is_utf8_iconv open_conv conv =
     (case open_conv ''UTF-8'' '''' of
        None \<Rightarrow> False
      | Some cd \<Rightarrow>
          (case conv cd native_probe_bytes 8 of
             (status, in_left, out) \<Rightarrow> status \<noteq> -1 \<and> in_left = 0 \<and> length out = 2 \<and> out = native_probe_bytes))"

section \<open>charvec_bswap_packed\<close>

text \<open>\<open>memcpy\<close> out of the body, the swap, \<open>memcpy\<close> back.\<close>

definition swap_u32_at :: "bool \<Rightarrow> nat \<Rightarrow> nat \<Rightarrow> u8 list \<Rightarrow> fault + u8 list" where
  "swap_u32_at le sizes i body =
     and_then (get_bytes body (sizes + 4 * i) 4) (\<lambda>bs.
       put_bytes body (sizes + 4 * i) (store_word le 4 (charvec_bswap32 (load_word le bs))))"

definition charvec_bswap_packed :: "bool \<Rightarrow> u8 list \<Rightarrow> nat \<Rightarrow> fault + u8 list" where
  "charvec_bswap_packed le body n =
     and_then (get_bytes body 0 8) (\<lambda>bs.
     and_then (put_bytes body 0 (store_word le 8 (charvec_bswap64 (load_word le bs)))) (\<lambda>body1.
       for_each (swap_u32_at le 8) [0..<n] body1))"

section \<open>What materializing does\<close>

text \<open>What an object shows R: the elements that can be made of it, or those it has.\<close>

definition object_holds :: "'c r_strings \<Rightarrow> bool \<Rightarrow> 'c vector_object \<Rightarrow> heap \<Rightarrow> (fault + 'c) list \<Rightarrow> bool" where
  "object_holds R le x h vs \<longleftrightarrow>
     (case x of
        Charvec_object v \<Rightarrow> charvec_holds R v h vs
      | Charpack_object p \<Rightarrow> charpack_holds R le p h vs
      | Strings_object xs \<Rightarrow> vs = map Inr xs
      | Not_strings \<Rightarrow> False)"

fun object_materialized :: "'c vector_object \<Rightarrow> 'c list option" where
  "object_materialized (Charvec_object v) = cv_data2 v"
| "object_materialized (Charpack_object p) = cp_data2 p"
| "object_materialized (Strings_object xs) = Some xs"
| "object_materialized Not_strings = None"

text \<open>It changes no element; when it returns, the object has all of them as R strings.\<close>

lemma materialize_object_ok:
  assumes x: "object_holds R le x h vs" and R: "r_strings_ok R" and f: "materialize_object R le x h = (r, x', h')"
  shows "case r of
      Inl e \<Rightarrow> object_holds R le x' h' vs \<and> blocks h' = blocks h \<and> (collect vs = Inl e \<or> (\<exists>k m. \<not> can_alloc h k m))
    | Inr u \<Rightarrow> object_holds R le x' h' vs \<and> (\<exists>xs. vs = map Inr xs \<and> object_materialized x' = Some xs)"
proof (cases x)
  case (Charvec_object v)
  then have hold: "charvec_holds R v h vs" using x by (simp add: object_holds_def)
  obtain q v' h1 where m: "charvec_Materialize R v h = (q, v', h1)" by (rule prod_cases3)
  note ok = charvec_Materialize_ok [OF hold m]
  have e: "r = and_then q (\<lambda>xs. Inr ())" "x' = Charvec_object v'" "h' = h1"
    using f m by (simp_all add: materialize_object_def Charvec_object)
  show ?thesis using ok by (cases q) (auto simp: e object_holds_def)
next
  case (Charpack_object p)
  then have hold: "charpack_holds R le p h vs" using x by (simp add: object_holds_def)
  obtain q p' h1 where m: "charpack_Materialize R le p h = (q, p', h1)" by (rule prod_cases3)
  note ok = charpack_Materialize_ok [OF hold R m]
  have e: "r = and_then q (\<lambda>xs. Inr ())" "x' = Charpack_object p'" "h' = h1"
    using f m by (simp_all add: materialize_object_def Charpack_object)
  show ?thesis
  proof (cases q)
    case (Inl a)
    have "charpack_holds R le p h1 vs" using hold ok by (simp add: charpack_holds_def split: option.splits)
    then show ?thesis using ok Inl by (auto simp: e object_holds_def)
  next
    case (Inr xs)
    then show ?thesis using ok by (auto simp: e object_holds_def charpack_holds_def)
  qed
next
  case (Strings_object xs)
  then show ?thesis using x f by (auto simp: materialize_object_def object_holds_def)
next
  case Not_strings
  then show ?thesis using x by (simp add: object_holds_def)
qed

text \<open>Of any character vector \<open>C_charport_materialize\<close> returns only with all elements made, in order, or it raises
  an R error and every element is as it was.\<close>

lemma C_charport_materialize_ok:
  assumes "object_holds R le x h vs" and "r_strings_ok R" and "C_charport_materialize R le x h = (r, x', h')"
  shows "object_holds R le x' h' vs \<and>
    (case r of Inl e \<Rightarrow> blocks h' = blocks h | Inr u \<Rightarrow> (\<exists>xs. vs = map Inr xs \<and> object_materialized x' = Some xs))"
proof -
  obtain q where q: "materialize_object R le x h = (q, x', h')" "r = charport_sexp_guard ''charport_materialize'' q"
    using assms(3) by (auto simp: C_charport_materialize_def split: prod.splits)
  note ok = materialize_object_ok [OF assms(1,2) q(1)]
  show ?thesis
  proof (cases q)
    case (Inl e)
    then have "\<exists>e'. r = Inl e'" using q(2) by (cases e) auto
    then show ?thesis using ok Inl by auto
  next
    case (Inr u)
    then show ?thesis using ok q(2) by simp
  qed
qed

lemma info_names:
  "map fst (C_charport_info V reg w x) =
     [''is_strsxp'', ''length'', ''is_altrep'', ''is_materialized'', ''is_registered'', ''persistent_views'',
      ''concurrent_access'', ''stateful_reader'', ''reentrant'', ''altrep_class_name'', ''altrep_class_package'', ''altrep_class'']"
  by (simp add: C_charport_info_def Let_def)

end
