(* ===== verification/Cp_Load.thy ===== *)
theory Cp_Load
  imports Cp_Packsub
begin

text \<open>
  Loading the package (\<open>src/charport_init.cpp\<close> and \<open>charport_registry_init\<close> of
  \<open>src/charport_registry.cpp\<close>) and calling it from another package: R's table of C callables,
  the wrappers of \<open>inst/include/charport/\<close> that look a callable up once and then call it, and the
  charpack constructors built on them. R's table is R API; a function in it is the model of the
  implementation, which a wrapper casts to the type it expects.
\<close>

section \<open>The class registry after loading\<close>

text \<open>charpack is registered first. An R error while loading ends it.\<close>

definition R_init_charport where
  "R_init_charport le pack_cls charpack_of vec_cls charvec_of reg h =
     (case C_register_charpack le pack_cls charpack_of reg h of
        (Inl e, reg1, h1) \<Rightarrow> (Inl e, reg1, h1)
      | (Inr u, reg1, h1) \<Rightarrow> C_register_charvec vec_cls charvec_of reg1 h1)"

lemma resolve_accepted:
  fixes V :: "('x, 'k, 'c, 'w) r_vectors" and reg :: "('x, 'k, 'w, ('c, 's) provider_state, 'f) altrep_entry list"
  assumes x: "is_STRSXP V w x" "ALTREP V w x" and found: "find_registered_altrep V w x reg = Some e"
    and init: "ae_init e = Some f" "f x w = (Inr (Some s), w)"
  shows "charport_resolve V R reg x w =
    (Inr \<lparr>rd_n = Rf_xlength V w x, rd_state = Some s, rd_release = ae_release e, rd_range = ae_range e,
          rd_index = ae_index e, rd_capabilities = ae_capabilities e\<rparr>, w)"
  using assms by (simp add: charport_resolve_def resolve_registered_def Let_def reader_default_def)

lemma register_from_empty:
  "registry_ok V elems ([] :: ('x, 'k, 'w, 's, 'f) altrep_entry list)"
  by (simp add: registry_ok_def)

lemma package_classes:
  "ae_cls (charpack_entry le cls f) = Some cls" "ae_cls (charvec_entry cls g) = Some cls"
  by (simp_all add: charpack_entry_def charvec_entry_def)

lemma register_can_alloc: "charport_register_altrep e reg h = (r, reg', h') \<Longrightarrow> can_alloc h' = can_alloc h"
  by (auto simp: charport_register_altrep_def try_alloc_def Let_def split: if_splits)

text \<open>C30. Loading the package registers both classes or raises an R error because memory was
  refused, and in either case leaves a well-formed registry. After it has loaded, every filled charpack
  and every charvec that is not materialized is resolved in place, without changing R: the reader's state
  is the raw vector or the store, nothing has to be released, and it reads exactly the strings.\<close>

theorem charport_load_serves:
  fixes V :: "('x, 'k, 'c, 'w) r_vectors" and reg' :: "('x, 'k, 'w, ('c, 's) provider_state, 'f) altrep_entry list"
  assumes pack: "charpack_objects_ok le V elems pack_cls charpack_of"
    and vec: "charvec_objects_ok V elems vec_cls charvec_of" and ne: "pack_cls \<noteq> vec_cls"
    and n: "\<And>w x. Rf_xlength V w x = of_nat (length (elems w x))"
    and load: "R_init_charport le pack_cls charpack_of vec_cls charvec_of [] h = (res, reg', h')"
  shows "registry_ok V elems reg' \<and>
    (case res of
       Inl e \<Rightarrow> (\<exists>m. e = R_error m) \<and> (\<exists>k m. \<not> can_alloc h k m)
     | Inr u \<Rightarrow>
         (\<forall>w x. is_STRSXP V w x \<longrightarrow> ALTREP V w x \<longrightarrow>
            (\<forall>rb. (\<forall>c. R_altrep_inherits V w x c \<longleftrightarrow> c = Some pack_cls) \<longrightarrow>
               charpack_of w x = \<lparr>cp_data1 = Some rb, cp_data2 = None\<rparr> \<longrightarrow>
               (\<exists>r. charport_resolve V R reg' x w = (Inr r, w) \<and> rd_state r = Some (Packed_state rb) \<and>
                    rd_release r = None \<and> reads_strings V elems w x r)) \<and>
            (\<forall>st. (\<forall>c. R_altrep_inherits V w x c \<longleftrightarrow> c = Some vec_cls) \<longrightarrow>
               cv_store (charvec_of w x) = Some st \<longrightarrow> cv_data2 (charvec_of w x) = None \<longrightarrow>
               (\<exists>r. charport_resolve V R reg' x w = (Inr r, w) \<and> rd_state r = Some (Store_state st) \<and>
                    rd_release r = None \<and> reads_strings V elems w x r))))"
proof -
  let ?p = "charpack_entry le pack_cls charpack_of :: ('x, 'k, 'w, ('c, 's) provider_state, 'f) altrep_entry"
  let ?v = "charvec_entry vec_cls charvec_of :: ('x, 'k, 'w, ('c, 's) provider_state, 'f) altrep_entry"
  obtain r1 reg1 h1 where one: "charport_register_altrep ?p [] h = (r1, reg1, h1)" by (metis prod_cases3)
  note ok1 = register_ok [OF register_from_empty [of V elems] one charpack_entry_promise [OF pack]]
  note one' = one [folded C_register_charpack_def]
  show ?thesis
  proof (cases r1)
    case (Inl e)
    then have "res = Inl e" "reg' = reg1" using load one' by (simp_all add: R_init_charport_def)
    then show ?thesis using ok1 Inl by (auto simp: charpack_entry_complete package_classes)
  next
    case (Inr u)
    have "registry_ok V elems reg1 \<and> reg1 = [] @ [?p]" using ok1 unfolding Inr sum.case by blast
    then have "reg1 = [] @ [?p]" and reg1_ok: "registry_ok V elems reg1" by blast+
    then have reg1: "reg1 = [?p]" by simp
    have two: "charport_register_altrep ?v reg1 h1 = (res, reg', h')"
      using load one' Inr by (simp add: R_init_charport_def C_register_charvec_def)
    note ok2 = register_ok [OF reg1_ok two charvec_entry_promise [OF vec]]
    show ?thesis
    proof (cases res)
      case (Inl e)
      then show ?thesis using ok2 register_can_alloc [OF one] ne
        by (auto simp: reg1 charvec_entry_complete package_classes)
    next
      case (Inr u')
      have "registry_ok V elems reg' \<and> reg' = reg1 @ [?v]" using ok2 unfolding Inr sum.case by blast
      then have reg': "registry_ok V elems reg'" "reg' = reg1 @ [?v]" by blast+
      have d: "distinct (map ae_cls reg')" "?p \<in> set reg'" "?v \<in> set reg'"
        using reg' unfolding registry_ok_def by (simp_all add: reg1)
      have packs: "\<exists>r. charport_resolve V R reg' x w = (Inr r, w) \<and> rd_state r = Some (Packed_state rb) \<and>
          rd_release r = None \<and> reads_strings V elems w x r"
        if x: "is_STRSXP V w x" "ALTREP V w x" "\<And>c. R_altrep_inherits V w x c \<longleftrightarrow> c = Some pack_cls"
          and c: "charpack_of w x = \<lparr>cp_data1 = Some rb, cp_data2 = None\<rparr>" for w x rb
      proof -
        obtain wide where raw: "blocks (heap_of V w) rb = Some (pack_raw le wide (elems w x))" "pack_fits wide (elems w x)"
          using pack [unfolded charpack_objects_ok_def, rule_format, of w x] x c by auto
        have "find_registered_altrep V w x reg' = Some ?p"
          by (rule find_registered_unique [OF d(1,2)]) (simp add: x(3) package_classes)
        from resolve_accepted [OF x(1,2) this, of "\<lambda>x w. (Inr (charpack_reader_init (charpack_of w x)), w)" "Packed_state rb", where R = R]
        show ?thesis
          by (simp add: charpack_entry_def charpack_reader_init_def c) (rule charpack_reader_reads [of V w rb le wide elems x, OF raw]; simp add: n)
      qed
      have vecs: "\<exists>r. charport_resolve V R reg' x w = (Inr r, w) \<and> rd_state r = Some (Store_state st) \<and>
          rd_release r = None \<and> reads_strings V elems w x r"
        if x: "is_STRSXP V w x" "ALTREP V w x" "\<And>c. R_altrep_inherits V w x c \<longleftrightarrow> c = Some vec_cls"
          and c: "cv_store (charvec_of w x) = Some st" "cv_data2 (charvec_of w x) = None" for w x st
      proof -
        have st: "store_holds st (heap_of V w) (elems w x)"
          using vec [unfolded charvec_objects_ok_def, rule_format, of w x] x c by auto
        have "find_registered_altrep V w x reg' = Some ?v"
          by (rule find_registered_unique [OF d(1,3)]) (simp add: x(3) package_classes)
        from resolve_accepted [OF x(1,2) this, of "\<lambda>x w. (Inr (charvec_reader_init (charvec_of w x)), w)" "Store_state st", where R = R]
        show ?thesis
          by (simp add: charvec_entry_def charvec_reader_init_def c) (rule charvec_reader_reads [of st V w elems x, OF st]; simp add: n)
      qed
      show ?thesis using reg'(1) packs vecs unfolding Inr sum.case by blast
    qed
  qed
qed

theorem charport_load_serves_witness:
  "\<exists>reg h r. R_init_charport True (0 :: nat) demo_pack 1 (\<lambda>w x. new_charvec None) [] demo_pack_heap = (Inr (), reg, h) \<and>
     charport_resolve (demo_vectors demo_pack_heap) demo_R (reg :: (nat, nat, unit, demo_state, unit) altrep_entry list) 0 () =
       (Inr r, ()) \<and>
     rd_state r = Some (Packed_state 5) \<and> reads_strings (demo_vectors demo_pack_heap) demo_elems () 0 r"
proof -
  let ?V = "demo_vectors demo_pack_heap" and ?vec = "\<lambda>w x. new_charvec None :: (u8 list \<times> cetype_t) option charvec"
  have fits: "pack_fits False (demo_elems () 0)"
    by (simp add: demo_elems_def pack_fits_def state_payload_def header_bytes_def offset_bytes_def cetype_defs valid_view_encoding_def)
  have objects: "charpack_objects_ok True ?V demo_elems 0 demo_pack" "charvec_objects_ok ?V demo_elems 1 ?vec"
    using fits unfolding charpack_objects_ok_def charvec_objects_ok_def
    by (auto simp: demo_pack_def demo_vectors_def demo_pack_heap_def demo_elems_def
        simp del: One_nat_def intro!: exI [of _ False])
  have n: "Rf_xlength ?V w x = of_nat (length (demo_elems w x))" for w x by (simp add: demo_vectors_def demo_elems_def)
  obtain res and reg :: "(nat, nat, unit, demo_state, unit) altrep_entry list" and h where
    load: "R_init_charport True 0 demo_pack 1 ?vec [] demo_pack_heap = (res, reg, h)" by (metis prod_cases3)
  note serves = charport_load_serves [OF objects _ n load, where R = demo_R]
  have "can_alloc demo_pack_heap k m" for k m by (simp add: demo_pack_heap_def demo_heap_def)
  with serves have res: "res = Inr ()" by (cases res) auto
  have x: "is_STRSXP ?V () 0" "ALTREP ?V () 0" "\<forall>c. R_altrep_inherits ?V () 0 c \<longleftrightarrow> c = Some 0"
    "demo_pack () 0 = \<lparr>cp_data1 = Some 5, cp_data2 = None\<rparr>" by (auto simp: demo_vectors_def demo_pack_def)
  from serves have "\<exists>r. charport_resolve ?V demo_R reg 0 () = (Inr r, ()) \<and> rd_state r = Some (Packed_state 5) \<and>
      rd_release r = None \<and> reads_strings ?V demo_elems () 0 r"
    using x unfolding res sum.case by simp
  then show ?thesis using load res by blast
qed

section \<open>C callables\<close>

text \<open>
  A function pointer, by the type the headers give it. The registry's functions depend on the model of
  R; they are type parameters here, as is the probe of the native encoding.
\<close>

datatype ('c, 'n, 'g, 'u, 'r, 'i) dl_func =
    is_Native_is_utf8: Native_is_utf8_fn (the_Native_is_utf8: 'n)
  | is_Register_altrep: Register_altrep_fn (the_Register_altrep: 'g)
  | is_Unregister_altrep: Unregister_altrep_fn (the_Unregister_altrep: 'u)
  | is_Resolve: Resolve_fn (the_Resolve: 'r)
  | is_Sexp_info: Sexp_info_fn (the_Sexp_info: 'i)
  | is_Abi_version: Abi_version_fn (the_Abi_version: nat)
  | is_Charvec_wrap: Charvec_wrap_fn (the_Charvec_wrap: "store option \<Rightarrow> heap \<Rightarrow> (fault + 'c charvec) \<times> store option \<times> heap")
  | is_Charvec_from_views: Charvec_from_views_fn (the_Charvec_from_views: "R_xlen_t \<Rightarrow> ptr list option \<Rightarrow> c_int list option \<Rightarrow> cetype_ext_t list option \<Rightarrow> heap \<Rightarrow> (fault + 'c charvec) \<times> heap")
  | is_Charvec_alloc_na: Charvec_alloc_na_fn (the_Charvec_alloc_na: "R_xlen_t \<Rightarrow> heap \<Rightarrow> (fault + 'c charvec) \<times> heap")
  | is_Charvec_get_store: Charvec_get_store_fn (the_Charvec_get_store: "'c sexp \<Rightarrow> store option")
  | is_Charpack_placeholder: Charpack_placeholder_fn (the_Charpack_placeholder: "heap \<Rightarrow> (fault + 'c charpack) \<times> heap")
  | is_Charpack_fill_views: Charpack_fill_views_fn (the_Charpack_fill_views: "'c charpack option \<Rightarrow> R_xlen_t \<Rightarrow> ptr list option \<Rightarrow> c_int list option \<Rightarrow> cetype_ext_t list option \<Rightarrow> heap \<Rightarrow>
       (fault + unit) \<times> 'c charpack option \<times> heap")
  | is_Charpack_fill_slices: Charpack_fill_slices_fn (the_Charpack_fill_slices: "'c charpack option \<Rightarrow> R_xlen_t \<Rightarrow> c_int list option \<Rightarrow> cetype_ext_t list option \<Rightarrow> R_xlen_t \<Rightarrow> ptr list option \<Rightarrow>
       size_t list option \<Rightarrow> heap \<Rightarrow> (fault + unit) \<times> 'c charpack option \<times> heap")
  | is_Charpack_fill_na: Charpack_fill_na_fn (the_Charpack_fill_na: "'c charpack option \<Rightarrow> R_xlen_t \<Rightarrow> heap \<Rightarrow> (fault + 'c list) \<times> 'c charpack option \<times> heap")
  | is_Is_charpack: Is_charpack_fn (the_Is_charpack: "'c charpack option \<Rightarrow> bool")

text \<open>
  \<open>registered\<close> is R's table of callables, by package and name; \<open>statics\<close> are the static function
  pointers of the wrappers, by the name each looks up.
\<close>

record 'f callables =
  registered :: "string \<times> string \<Rightarrow> 'f option"
  statics :: "string \<Rightarrow> 'f option"

definition R_RegisterCCallable :: "string \<Rightarrow> string \<Rightarrow> 'f \<Rightarrow> 'f callables \<Rightarrow> 'f callables" where
  "R_RegisterCCallable package name f C = C\<lparr>registered := (registered C)((package, name) \<mapsto> f)\<rparr>"

definition R_GetCCallable :: "string \<Rightarrow> string \<Rightarrow> 'f callables \<Rightarrow> fault + 'f" where
  "R_GetCCallable package name C =
     (case registered C (package, name) of
        None \<Rightarrow> Inl (R_error (''function '' @ name @ '' not provided by package '' @ package))
      | Some f \<Rightarrow> Inr f)"

definition CHARPORT_ABI_VERSION :: nat where "CHARPORT_ABI_VERSION = 1"

definition charport_abi_version :: nat where "charport_abi_version = CHARPORT_ABI_VERSION"

definition charport_is_charpack_impl :: "'c charpack option \<Rightarrow> bool" where
  "charport_is_charpack_impl x \<longleftrightarrow> x \<noteq> None"

text \<open>The wrapper of \<open>charvec_api.cpp\<close> moves out of the store it is given.\<close>

definition charport_charvec_wrap :: "store option \<Rightarrow> heap \<Rightarrow> (fault + 'c charvec) \<times> store option \<times> heap" where
  "charport_charvec_wrap source h = MoveStore source h"

definition charport_registry_init ::
    "'c r_strings \<Rightarrow> bool \<Rightarrow> 'n \<Rightarrow> 'g \<Rightarrow> 'u \<Rightarrow> 'r \<Rightarrow> 'i \<Rightarrow> ('c, 'n, 'g, 'u, 'r, 'i) dl_func callables \<Rightarrow>
     ('c, 'n, 'g, 'u, 'r, 'i) dl_func callables" where
  "charport_registry_init R le native reg unreg res info C =
     (let C = R_RegisterCCallable ''charport'' ''charport_native_is_utf8_v1'' (Native_is_utf8_fn native) C;
          C = R_RegisterCCallable ''charport'' ''charport_register_altrep_v1'' (Register_altrep_fn reg) C;
          C = R_RegisterCCallable ''charport'' ''charport_unregister_altrep_v1'' (Unregister_altrep_fn unreg) C;
          C = R_RegisterCCallable ''charport'' ''charport_resolve_v1'' (Resolve_fn res) C;
          C = R_RegisterCCallable ''charport'' ''charport_sexp_info_v1'' (Sexp_info_fn info) C;
          C = R_RegisterCCallable ''charport'' ''charport_abi_version'' (Abi_version_fn charport_abi_version) C;
          C = R_RegisterCCallable ''charport'' ''charport_charvec_wrap_v1'' (Charvec_wrap_fn charport_charvec_wrap) C;
          C = R_RegisterCCallable ''charport'' ''charport_charvec_from_views_v1''
                (Charvec_from_views_fn charport_charvec_from_views_impl) C;
          C = R_RegisterCCallable ''charport'' ''charport_charvec_alloc_na_v1''
                (Charvec_alloc_na_fn charport_charvec_alloc_na_impl) C;
          C = R_RegisterCCallable ''charport'' ''charport_charvec_get_store_v1''
                (Charvec_get_store_fn charport_charvec_get_store_impl) C;
          C = R_RegisterCCallable ''charport'' ''charport_charpack_placeholder_v1''
                (Charpack_placeholder_fn charport_charpack_placeholder_impl) C;
          C = R_RegisterCCallable ''charport'' ''charport_charpack_fill_views_v1''
                (Charpack_fill_views_fn (charport_charpack_fill_views_impl le)) C;
          C = R_RegisterCCallable ''charport'' ''charport_charpack_fill_slices_v1''
                (Charpack_fill_slices_fn (charport_charpack_fill_slices_impl le)) C;
          C = R_RegisterCCallable ''charport'' ''charport_charpack_fill_materialized_na_v1''
                (Charpack_fill_na_fn (charport_charpack_fill_materialized_na_impl R)) C
      in R_RegisterCCallable ''charport'' ''charport_is_charpack_v1'' (Is_charpack_fn charport_is_charpack_impl) C)"

end
