(* ===== verification/Cp_Client.thy ===== *)
theory Cp_Client
  imports Cp_Load
begin

text \<open>
  What another package calls: the wrappers of \<open>inst/include/charport/\<close> around the C callables, each
  with a static function pointer it looks up on its first call, and the charpack constructors
  (\<open>charpack.h\<close>) built on them. Every wrapper returns its result and the static pointers beside it.
\<close>

section \<open>Looking a callable up\<close>

definition callable :: "string \<Rightarrow> 'f callables \<Rightarrow> (fault + 'f) \<times> 'f callables" where
  "callable name C =
     (case statics C name of
        Some f \<Rightarrow> (Inr f, C)
      | None \<Rightarrow>
          (case R_GetCCallable ''charport'' name C of
             Inl e \<Rightarrow> (Inl e, C)
           | Inr f \<Rightarrow> (Inr f, C\<lparr>statics := (statics C)(name \<mapsto> f)\<rparr>)))"

text \<open>Calling a function through a pointer of another type is undefined.\<close>

definition fetched :: "('f \<Rightarrow> bool) \<Rightarrow> ('f \<Rightarrow> 'a) \<Rightarrow> string \<Rightarrow> 'f callables \<Rightarrow> (fault + 'a) \<times> 'f callables" where
  "fetched is_fn the_fn name C =
     (case callable name C of
        (Inl e, C1) \<Rightarrow> (Inl e, C1)
      | (Inr f, C1) \<Rightarrow> (if is_fn f then Inr (the_fn f) else Inl Undefined, C1))"

text \<open>The wrappers of \<open>reader.h\<close>; of those whose target depends on the model of R, the function they call.\<close>

definition resolve_wrapper where
  "resolve_wrapper C = fetched is_Resolve the_Resolve ''charport_resolve_v1'' C"

definition sexp_info_wrapper where
  "sexp_info_wrapper C = fetched is_Sexp_info the_Sexp_info ''charport_sexp_info_v1'' C"

definition register_altrep_wrapper where
  "register_altrep_wrapper C = fetched is_Register_altrep the_Register_altrep ''charport_register_altrep_v1'' C"

definition unregister_altrep_wrapper where
  "unregister_altrep_wrapper C = fetched is_Unregister_altrep the_Unregister_altrep ''charport_unregister_altrep_v1'' C"

definition native_is_utf8_wrapper where
  "native_is_utf8_wrapper C = fetched is_Native_is_utf8 the_Native_is_utf8 ''charport_native_is_utf8_v1'' C"

definition loaded_abi_version where
  "loaded_abi_version C = fetched is_Abi_version the_Abi_version ''charport_abi_version'' C"

definition check_abi where
  "check_abi C = (case loaded_abi_version C of (r, C1) \<Rightarrow> (and_then r (\<lambda>v. Inr (v = CHARPORT_ABI_VERSION)), C1))"

definition charport_charvec_from_views where
  "charport_charvec_from_views C n ptrs lengths encodings h =
     (case fetched is_Charvec_from_views the_Charvec_from_views ''charport_charvec_from_views_v1'' C of
        (Inl e, C1) \<Rightarrow> (Inl e, C1, h)
      | (Inr f, C1) \<Rightarrow> (case f n ptrs lengths encodings h of (r, h1) \<Rightarrow> (r, C1, h1)))"

definition charport_charvec_alloc_na where
  "charport_charvec_alloc_na C n h =
     (case fetched is_Charvec_alloc_na the_Charvec_alloc_na ''charport_charvec_alloc_na_v1'' C of
        (Inl e, C1) \<Rightarrow> (Inl e, C1, h)
      | (Inr f, C1) \<Rightarrow> (case f n h of (r, h1) \<Rightarrow> (r, C1, h1)))"

text \<open>\<open>builder.h\<close>: \<open>wrap_store\<close> also returns what is left of the store.\<close>

definition wrap_callable where
  "wrap_callable C = fetched is_Charvec_wrap the_Charvec_wrap ''charport_charvec_wrap_v1'' C"

definition wrap_store where
  "wrap_store C source h =
     (case wrap_callable C of
        (Inl e, C1) \<Rightarrow> (Inl e, source, C1, h)
      | (Inr wrap, C1) \<Rightarrow> (case wrap (Some source) h of (r, source', h1) \<Rightarrow> (r, the source', C1, h1)))"

text \<open>\<open>writer.h\<close>: \<open>get_store\<close>.\<close>

definition get_store where
  "get_store C x =
     (case fetched is_Charvec_get_store the_Charvec_get_store ''charport_charvec_get_store_v1'' C of
        (r, C1) \<Rightarrow> (and_then r (\<lambda>f. Inr (f x)), C1))"

section \<open>charpack.h\<close>

definition charport_charpack_placeholder where
  "charport_charpack_placeholder C h =
     (case fetched is_Charpack_placeholder the_Charpack_placeholder ''charport_charpack_placeholder_v1'' C of
        (Inl e, C1) \<Rightarrow> (Inl e, C1, h)
      | (Inr f, C1) \<Rightarrow> (case f h of (r, h1) \<Rightarrow> (r, C1, h1)))"

definition charport_charpack_fill_views where
  "charport_charpack_fill_views C x n ptrs lengths encodings h =
     (case fetched is_Charpack_fill_views the_Charpack_fill_views ''charport_charpack_fill_views_v1'' C of
        (Inl e, C1) \<Rightarrow> (Inl e, x, C1, h)
      | (Inr f, C1) \<Rightarrow> (case f x n ptrs lengths encodings h of (r, x1, h1) \<Rightarrow> (r, x1, C1, h1)))"

definition charport_charpack_fill_slices where
  "charport_charpack_fill_slices C x n lengths encodings n_slices slices nbytes h =
     (case fetched is_Charpack_fill_slices the_Charpack_fill_slices ''charport_charpack_fill_slices_v1'' C of
        (Inl e, C1) \<Rightarrow> (Inl e, x, C1, h)
      | (Inr f, C1) \<Rightarrow>
          (case f x n lengths encodings n_slices slices nbytes h of (r, x1, h1) \<Rightarrow> (r, x1, C1, h1)))"

definition charport_charpack_fill_materialized_na where
  "charport_charpack_fill_materialized_na C x n h =
     (case fetched is_Charpack_fill_na the_Charpack_fill_na ''charport_charpack_fill_materialized_na_v1'' C of
        (Inl e, C1) \<Rightarrow> (Inl e, x, C1, h)
      | (Inr f, C1) \<Rightarrow> (case f x n h of (r, x1, h1) \<Rightarrow> (r, x1, C1, h1)))"

definition charport_is_charpack where
  "charport_is_charpack C x =
     (case fetched is_Is_charpack the_Is_charpack ''charport_is_charpack_v1'' C of
        (r, C1) \<Rightarrow> (and_then r (\<lambda>f. Inr (f x)), C1))"

definition charport_charpack_from_views where
  "charport_charpack_from_views C n ptrs lengths encodings h =
     (case charport_charpack_placeholder C h of
        (Inl e, C1, h1) \<Rightarrow> (Inl e, C1, h1)
      | (Inr x, C1, h1) \<Rightarrow>
          (case charport_charpack_fill_views C1 (Some x) n ptrs lengths encodings h1 of
             (Inl e, x1, C2, h2) \<Rightarrow> (Inl e, C2, h2)
           | (Inr u, x1, C2, h2) \<Rightarrow> (Inr x1, C2, h2)))"

definition charport_charpack_from_slices where
  "charport_charpack_from_slices C n lengths encodings n_slices slices nbytes h =
     (case charport_charpack_placeholder C h of
        (Inl e, C1, h1) \<Rightarrow> (Inl e, C1, h1)
      | (Inr x, C1, h1) \<Rightarrow>
          (case charport_charpack_fill_slices C1 (Some x) n lengths encodings n_slices slices nbytes h1 of
             (Inl e, x1, C2, h2) \<Rightarrow> (Inl e, C2, h2)
           | (Inr u, x1, C2, h2) \<Rightarrow> (Inr x1, C2, h2)))"

text \<open>
  An array of the record table as a function called with it can read it: its initialised elements
  (reading further is undefined). A table without capacity has null pointers.
\<close>

definition record_array :: "record_table \<Rightarrow> 'a option list \<Rightarrow> 'a list option" where
  "record_array t xs =
     (if capacity t = 0 then None else Some (map the (takeWhile (\<lambda>c. c \<noteq> None) (take (vector_length t) xs))))"

definition charpack_from_store where
  "charpack_from_store C st h =
     (let t = st_records st
      in charport_charpack_from_views C (of_nat (store_size st)) (record_array t (rt_ptrs t)) (record_array t (rt_lens t))
           (record_array t (rt_encs t)) h)"

section \<open>Every wrapper calls the function the package registers\<close>

text \<open>The pointers looked up so far are those of R's table, which is the one after loading.\<close>

definition linked :: "'f callables \<Rightarrow> 'f callables \<Rightarrow> bool" where
  "linked C0 C \<longleftrightarrow>
     registered C = registered C0 \<and> (\<forall>name f. statics C name = Some f \<longrightarrow> registered C0 (''charport'', name) = Some f)"

text \<open>The interface between a wrapper and the table: its name is registered, with a function of its type.\<close>

locale header_wrapper =
  fixes C0 :: "'f callables" and name :: string and is_fn :: "'f \<Rightarrow> bool" and the_fn :: "'f \<Rightarrow> 'a" and impl :: 'a
  assumes provided: "\<exists>f. registered C0 (''charport'', name) = Some f \<and> is_fn f \<and> the_fn f = impl"
begin

text \<open>On the first call and on every later one.\<close>

lemma reaches:
  assumes "linked C0 C"
  obtains C1 where "fetched is_fn the_fn name C = (Inr impl, C1)" and "linked C0 C1"
proof -
  obtain f where f: "registered C0 (''charport'', name) = Some f" "is_fn f" "the_fn f = impl" using provided by blast
  show thesis
  proof (cases "statics C name")
    case None
    then show thesis
      using assms f
      by (intro that [of "C\<lparr>statics := (statics C)(name \<mapsto> f)\<rparr>"]) (auto simp: fetched_def callable_def R_GetCCallable_def linked_def)
  next
    case (Some g)
    then have "g = f" using assms f(1) by (simp add: linked_def)
    with Some show thesis using assms f by (intro that [of C]) (auto simp: fetched_def callable_def)
  qed
qed

end

text \<open>Each wrapper's name is in the table the package registers.\<close>

lemmas registered_callable = charport_registry_init_def R_RegisterCCallable_def Let_def

interpretation placeholder_wrapper: header_wrapper "charport_registry_init R le native reg unreg res info C"
  "''charport_charpack_placeholder_v1''" is_Charpack_placeholder the_Charpack_placeholder "charport_charpack_placeholder_impl"
  for R le native reg unreg res info C
  by unfold_locales (simp add: registered_callable)

interpretation fill_views_wrapper: header_wrapper "charport_registry_init R le native reg unreg res info C"
  "''charport_charpack_fill_views_v1''" is_Charpack_fill_views the_Charpack_fill_views "charport_charpack_fill_views_impl le"
  for R le native reg unreg res info C
  by unfold_locales (simp add: registered_callable)

interpretation fill_slices_wrapper: header_wrapper "charport_registry_init R le native reg unreg res info C"
  "''charport_charpack_fill_slices_v1''" is_Charpack_fill_slices the_Charpack_fill_slices "charport_charpack_fill_slices_impl le"
  for R le native reg unreg res info C
  by unfold_locales (simp add: registered_callable)

interpretation fill_na_wrapper: header_wrapper "charport_registry_init R le native reg unreg res info C"
  "''charport_charpack_fill_materialized_na_v1''" is_Charpack_fill_na the_Charpack_fill_na "charport_charpack_fill_materialized_na_impl R"
  for R le native reg unreg res info C
  by unfold_locales (simp add: registered_callable)

interpretation is_pack_wrapper: header_wrapper "charport_registry_init R le native reg unreg res info C"
  "''charport_is_charpack_v1''" is_Is_charpack the_Is_charpack "charport_is_charpack_impl"
  for R le native reg unreg res info C
  by unfold_locales (simp add: registered_callable)

interpretation from_views_wrapper: header_wrapper "charport_registry_init R le native reg unreg res info C"
  "''charport_charvec_from_views_v1''" is_Charvec_from_views the_Charvec_from_views "charport_charvec_from_views_impl"
  for R le native reg unreg res info C
  by unfold_locales (simp add: registered_callable)

interpretation alloc_na_wrapper: header_wrapper "charport_registry_init R le native reg unreg res info C"
  "''charport_charvec_alloc_na_v1''" is_Charvec_alloc_na the_Charvec_alloc_na "charport_charvec_alloc_na_impl"
  for R le native reg unreg res info C
  by unfold_locales (simp add: registered_callable)

interpretation get_store_wrapper: header_wrapper "charport_registry_init R le native reg unreg res info C"
  "''charport_charvec_get_store_v1''" is_Charvec_get_store the_Charvec_get_store "charport_charvec_get_store_impl"
  for R le native reg unreg res info C
  by unfold_locales (simp add: registered_callable)

interpretation wrap_wrapper: header_wrapper "charport_registry_init R le native reg unreg res info C"
  "''charport_charvec_wrap_v1''" is_Charvec_wrap the_Charvec_wrap "charport_charvec_wrap"
  for R le native reg unreg res info C
  by unfold_locales (simp add: registered_callable)

interpretation abi_wrapper: header_wrapper "charport_registry_init R le native reg unreg res info C"
  "''charport_abi_version''" is_Abi_version the_Abi_version "charport_abi_version"
  for R le native reg unreg res info C
  by unfold_locales (simp add: registered_callable)

interpretation native_wrapper: header_wrapper "charport_registry_init R le native reg unreg res info C"
  "''charport_native_is_utf8_v1''" is_Native_is_utf8 the_Native_is_utf8 "native"
  for R le native reg unreg res info C
  by unfold_locales (simp add: registered_callable)

interpretation register_wrapper: header_wrapper "charport_registry_init R le native reg unreg res info C"
  "''charport_register_altrep_v1''" is_Register_altrep the_Register_altrep "reg"
  for R le native reg unreg res info C
  by unfold_locales (simp add: registered_callable)

interpretation unregister_wrapper: header_wrapper "charport_registry_init R le native reg unreg res info C"
  "''charport_unregister_altrep_v1''" is_Unregister_altrep the_Unregister_altrep "unreg"
  for R le native reg unreg res info C
  by unfold_locales (simp add: registered_callable)

interpretation resolve_wrapper: header_wrapper "charport_registry_init R le native reg unreg res info C"
  "''charport_resolve_v1''" is_Resolve the_Resolve "res"
  for R le native reg unreg res info C
  by unfold_locales (simp add: registered_callable)

interpretation sexp_info_wrapper: header_wrapper "charport_registry_init R le native reg unreg res info C"
  "''charport_sexp_info_v1''" is_Sexp_info the_Sexp_info "info"
  for R le native reg unreg res info C
  by unfold_locales (simp add: registered_callable)

section \<open>From a store to a charpack\<close>

lemma placeholder_calls:
  assumes "linked (charport_registry_init R le native reg unreg res info C0) C"
  obtains C1 where "charport_charpack_placeholder C h = (case charport_charpack_placeholder_impl h of (r, h1) \<Rightarrow> (r, C1, h1))"
    and "linked (charport_registry_init R le native reg unreg res info C0) C1"
proof -
  obtain C1 where "fetched is_Charpack_placeholder the_Charpack_placeholder ''charport_charpack_placeholder_v1'' C =
      (Inr charport_charpack_placeholder_impl, C1)"
    and C1: "linked (charport_registry_init R le native reg unreg res info C0) C1"
    by (rule placeholder_wrapper.reaches [OF assms])
  then show thesis by (intro that [OF _ C1]) (simp add: charport_charpack_placeholder_def)
qed

lemma fill_views_calls:
  assumes "linked (charport_registry_init R le native reg unreg res info C0) C"
  obtains C1 where
    "charport_charpack_fill_views C x n ps ls cs h =
      (case fill_views le x n ps ls cs False h of (r, x1, h1) \<Rightarrow> (r, x1, C1, h1))"
    and "linked (charport_registry_init R le native reg unreg res info C0) C1"
proof -
  obtain C1 where "fetched is_Charpack_fill_views the_Charpack_fill_views ''charport_charpack_fill_views_v1'' C =
      (Inr (charport_charpack_fill_views_impl le), C1)"
    and C1: "linked (charport_registry_init R le native reg unreg res info C0) C1"
    by (rule fill_views_wrapper.reaches [OF assms])
  then show thesis
    by (intro that [OF _ C1]) (simp add: charport_charpack_fill_views_def charport_charpack_fill_views_impl_def)
qed

lemma placeholder_impl_ok:
  assumes "charport_charpack_placeholder_impl h = (r, h1)"
  shows "blocks h1 = blocks h \<and> next_blk h1 = next_blk h \<and> can_alloc h1 = can_alloc h \<and>
    (case r of Inl e \<Rightarrow> (\<exists>m. e = R_error m) \<and> (\<exists>k m. \<not> can_alloc h k m) | Inr x \<Rightarrow> x = \<lparr>cp_data1 = None, cp_data2 = None\<rparr>)"
proof -
  obtain q h2 where a: "allocVector 56 h = (q, h2)" by fastforce
  note b = allocVector_blocks [OF a] allocVector_can_alloc [OF a]
  show ?thesis
  proof (cases q)
    case (Inl e)
    then have "r = Inl e" "h1 = h2" using assms a by (simp_all add: charport_charpack_placeholder_impl_def alloc_object_def)
    then show ?thesis using b allocVector_fail [OF a [unfolded Inl]] by simp
  next
    case (Inr u)
    then show ?thesis using assms a b by (auto simp: charport_charpack_placeholder_impl_def alloc_object_def)
  qed
qed

lemma record_array_ok:
  assumes t: "rt_ok t" and xs: "length xs = capacity t" "\<And>i. i < vector_length t \<Longrightarrow> xs ! i \<noteq> None"
  shows "record_array t xs = (if capacity t = 0 then None else Some (map the (take (vector_length t) xs)))"
proof -
  have "vector_length t \<le> capacity t" using t by (simp add: rt_ok_def)
  then have "takeWhile (\<lambda>c. c \<noteq> None) (take (vector_length t) xs) = take (vector_length t) xs"
    unfolding takeWhile_eq_all_conv using xs by (metis in_set_conv_nth length_take min.absorb2 nth_take)
  then show ?thesis by (simp only: record_array_def)
qed

lemma fill_views_null:
  "fill_views le x 0 None None None force_wide h = fill_views le x 0 (Some []) (Some []) (Some []) force_wide h"
proof -
  have checked: "checked_payload 0 ps ls cs op = Inr 0" for ps ls cs op by (simp add: checked_payload_def)
  have records: "write_records le wide 0 ps ls cs ends encs = Inr" for wide ps ls cs ends encs
    by (rule ext) (simp add: write_records_def)
  have alloc: "alloc_data1 le 0 (Some ps) ls cs payload force_wide op h = alloc_data1 le 0 None [] [] payload force_wide op h"
    for ps ls cs payload op unfolding alloc_data1_def unat_0 records ..
  have pos: "(0 < sint (0 :: R_xlen_t)) = False" by simp
  show ?thesis unfolding fill_views_def Let_def option.case checked alloc pos simp_thms if_False ..
qed

text \<open>A store's records have valid encodings when its strings do.\<close>

lemma held_encodings:
  assumes st: "store_holds st h es" and i: "i < length es" and s: "storable (es ! i)"
  shows "valid_view_encoding (sv_enc (rt_at (st_records st) i))"
proof (cases "strview_is_na (rt_at (st_records st) i)")
  case True
  then show ?thesis
    using store_holds_nth(2) [OF st i]
    by (auto simp: rec_in_def strview_is_na_def na_record_def make_strview_def valid_view_encoding_def cetype_defs)
next
  case False
  then show ?thesis
    using store_holds_nth(1) [OF st i] s by (cases "es ! i") (auto simp: view_content_NA view_content_Str)
qed

text \<open>C29. \<open>charpack::from_store\<close>, called by a package through R's table of callables, makes a new
  filled charpack whose raw vector is the documented layout of exactly the strings of the store, in memory
  of its own, and leaves the store as it was; or it raises an R error (strings with an invalid encoding
  or more than a raw vector holds, or a refused allocation) and nothing has changed.\<close>

theorem charpack_from_store_functional:
  fixes R :: "'c r_strings"
  assumes C: "linked (charport_registry_init R le native reg unreg res info C0) C"
    and st: "store_holds st h es" and w: "wide = (4294967295 < length (state_payload es))"
  shows "case charpack_from_store C st h of
      (r, C', h') \<Rightarrow> linked (charport_registry_init R le native reg unreg res info C0) C' \<and>
        (case r of
           Inl e \<Rightarrow> (\<exists>m. e = R_error m) \<and> blocks h' = blocks h \<and>
             (\<not> pack_fits wide es \<or> (\<exists>k m. \<not> can_alloc h k m))
         | Inr None \<Rightarrow> False
         | Inr (Some y) \<Rightarrow> charpack_holds R le y h' (map (charsxp_of R) es) \<and>
             (\<exists>rb. y = \<lparr>cp_data1 = Some rb, cp_data2 = None\<rparr> \<and> blocks h rb = None \<and>
                blocks h' = (blocks h)(rb \<mapsto> pack_raw le wide es)))"
proof -
  let ?C0 = "charport_registry_init R le native reg unreg res info C0" and ?t = "st_records st" and ?n = "length es"
  have t: "rt_ok ?t" "vector_length ?t = ?n" "store_size st = ?n" "?n \<le> capacity ?t" "capacity ?t \<le> 4503599627370496" "heap_ok h"
    using st store_holds_size [OF st] by (auto simp: store_holds_def store_size_def rt_ok_def max_capacity_value)
  obtain q h1 where p: "charport_charpack_placeholder_impl h = (q :: fault + 'c charpack, h1)" by fastforce
  note pl = placeholder_impl_ok [OF p]
  obtain C1 where C1: "charport_charpack_placeholder C h = (q, C1, h1)" "linked ?C0 C1"
    using placeholder_calls [OF C, of h] p by auto
  show ?thesis
  proof (cases q)
    case (Inl e)
    then show ?thesis using C1 pl by (simp add: charpack_from_store_def charport_charpack_from_views_def Let_def)
  next
    case (Inr x)
    let ?ps = "map the (take ?n (rt_ptrs ?t))" and ?ls = "map the (take ?n (rt_lens ?t))" and ?cs = "map the (take ?n (rt_encs ?t))"
    have x: "x = \<lparr>cp_data1 = None, cp_data2 = None\<rparr>" "blocks h1 = blocks h" "can_alloc h1 = can_alloc h" "heap_ok h1"
      using pl Inr t(6) by (simp_all add: heap_ok_def)
    have len: "length (rt_ptrs ?t) = capacity ?t" "length (rt_lens ?t) = capacity ?t" "length (rt_encs ?t) = capacity ?t"
      and cells: "\<And>i. i < ?n \<Longrightarrow> rt_ptrs ?t ! i \<noteq> None \<and> rt_lens ?t ! i \<noteq> None \<and> rt_encs ?t ! i \<noteq> None"
      using t(1,2) by (simp_all add: rt_ok_def)
    have lens: "length ?ps = ?n" "length ?ls = ?n" "length ?cs = ?n" using t(4) len by simp_all
    have at: "make_strview (?ps ! i) (?ls ! i) (?cs ! i) = rt_at ?t i" if "i < ?n" for i
      using that t(4) len by (simp add: rt_at_def)
    have content: "view_content h1 (make_strview (?ps ! i) (?ls ! i) (?cs ! i)) = Some (es ! i)" if "i < ?n" for i
      unfolding at [OF that]
      using view_content_keeps_live [OF keeps_live_same [OF x(2)]] store_holds_nth(1) [OF st that] by blast
    have bad: "\<not> pack_fits wide es" if i: "i < ?n" and v: "\<not> view_ok ?ls ?ps ?cs i" for i
    proof -
      have "sv_enc (rt_at ?t i) = ?cs ! i" using at [OF i] by (metis charport_strview.select_convs(3) make_strview_def)
      then have "\<not> valid_view_encoding (sv_enc (rt_at ?t i))"
        using content [OF i] v
        by (auto simp: view_ok_def view_content_def view_is_na_def strview_is_na_def make_strview_def split: if_splits)
      then show ?thesis using held_encodings [OF st i] i by (auto simp: pack_fits_def list_all_length)
    qed
    obtain C2 where C2: "charport_charpack_fill_views C1 (Some x) (of_nat ?n) (record_array ?t (rt_ptrs ?t))
        (record_array ?t (rt_lens ?t)) (record_array ?t (rt_encs ?t)) h1 =
        (case fill_views le (Some x) (of_nat ?n) (record_array ?t (rt_ptrs ?t)) (record_array ?t (rt_lens ?t))
           (record_array ?t (rt_encs ?t)) False h1 of (r, x1, h1) \<Rightarrow> (r, x1, C2, h1))" "linked ?C0 C2"
      by (rule fill_views_calls [OF C1(2)])
    have "fill_views le (Some x) (of_nat ?n) (record_array ?t (rt_ptrs ?t)) (record_array ?t (rt_lens ?t))
        (record_array ?t (rt_encs ?t)) False h1 =
      fill_views le (Some x) (of_nat ?n) (Some ?ps) (Some ?ls) (Some ?cs) False h1"
    proof (cases "capacity ?t = 0")
      case True
      then show ?thesis using t(4) fill_views_null by (simp add: record_array_def)
    next
      case False
      then show ?thesis using cells t(2) by (simp add: record_array_ok [OF t(1)] len)
    qed
    moreover obtain r x1 h2 where f: "fill_views le (Some x) (of_nat ?n) (Some ?ps) (Some ?ls) (Some ?cs) False h1 = (r, x1, h2)"
      by (metis prod_cases3)
    ultimately have F: "charpack_from_store C st h = (case r of Inl e \<Rightarrow> (Inl e, C2, h2) | Inr u \<Rightarrow> (Inr x1, C2, h2))"
      using C1 C2 Inr t(3)
      by (simp add: charpack_from_store_def charport_charpack_from_views_def Let_def split: sum.split)
    have n: "?n < 2 ^ 63" using t(4,5) by simp
    have w': "wide = (False \<or> 4294967295 < length (state_payload es))" using w by simp
    note fill = fill_views_ok [OF x(4) n lens content w', where x = x and le = le, unfolded f]
    show ?thesis
    proof (cases r)
      case (Inl e)
      then show ?thesis using fill F C2(2) bad x(1-3) by (auto simp: charpack_is_unfilled_def)
    next
      case (Inr u)
      then obtain rb where "x1 = Some \<lparr>cp_data1 = Some rb, cp_data2 = None\<rparr>" "blocks h rb = None" "pack_fits wide es"
        "blocks h2 = (blocks h)(rb \<mapsto> pack_raw le wide es)" using fill x(1,2) by auto
      then show ?thesis using F Inr C2(2) by (auto simp: charpack_holds_def)
    qed
  qed
qed

definition demo_callables :: "((u8 list \<times> cetype_t) option, unit, unit, unit, unit, unit) dl_func callables" where
  "demo_callables =
     charport_registry_init demo_R True () () () () () \<lparr>registered = (\<lambda>x. None), statics = (\<lambda>name. None)\<rparr>"

lemma demo_linked:
  "linked (charport_registry_init demo_R True () () () () () \<lparr>registered = (\<lambda>x. None), statics = (\<lambda>name. None)\<rparr>) demo_callables"
  unfolding demo_callables_def by (simp add: linked_def registered_callable)

text \<open>A store of one string in one slice.\<close>

definition demo_one_store :: store where
  "demo_one_store =
     \<lparr>st_slices = [7],
      st_records = \<lparr>rt_ptrs = [Some (At 7 0)], rt_lens = [Some 2], rt_encs = [Some CETYPE_EXT_UTF8], vector_length = 1, capacity = 1\<rparr>\<rparr>"

definition demo_one_heap :: heap where
  "demo_one_heap = demo_heap\<lparr>blocks := [7 \<mapsto> [104, 105]], next_blk := 8\<rparr>"

lemma demo_one_holds: "store_holds demo_one_store demo_one_heap [Str [104, 105] CETYPE_EXT_UTF8]"
  by (simp add: store_holds_def demo_one_store_def demo_one_heap_def demo_heap_def heap_ok_def rt_ok_def max_capacity_value
      rt_views_def rt_at_def view_content_def strview_is_na_def make_strview_def rec_in_def sint_c_int cetype_defs)

theorem charpack_from_store_functional_witness:
  "\<exists>rb C' h'. charpack_from_store demo_callables demo_one_store demo_one_heap = (Inr (Some \<lparr>cp_data1 = Some rb, cp_data2 = None\<rparr>), C', h') \<and>
     blocks h' rb = Some (pack_raw True False [Str [104, 105] CETYPE_EXT_UTF8])"
proof -
  let ?es = "[Str [104, 105] CETYPE_EXT_UTF8]"
  have alloc: "can_alloc demo_one_heap n m" for n m by (simp add: demo_one_heap_def demo_heap_def)
  have fits: "pack_fits False ?es"
    by (simp add: pack_fits_def state_payload_def header_bytes_def offset_bytes_def valid_view_encoding_def cetype_defs)
  obtain r C' h' where r: "charpack_from_store demo_callables demo_one_store demo_one_heap = (r, C', h')" by (metis prod_cases3)
  have w: "False = (4294967295 < length (state_payload ?es))" by (simp add: state_payload_def)
  note spec = charpack_from_store_functional [OF demo_linked demo_one_holds w, unfolded r prod.case]
  obtain q where q: "r = Inr q"
  proof (cases r)
    case (Inl e)
    then show ?thesis using spec alloc fits by (simp only: sum.case) blast
  qed
  obtain y where y: "q = Some y" using spec unfolding q by (cases q) simp_all
  have "\<exists>rb. y = \<lparr>cp_data1 = Some rb, cp_data2 = None\<rparr> \<and> blocks h' rb = Some (pack_raw True False ?es)"
    using spec unfolding q y sum.case option.case by auto
  then show ?thesis using r unfolding q y by blast
qed

end
