(* ===== verification/Cp_Borrow.thy ===== *)
theory Cp_Borrow
  imports Cp_Access
begin

text \<open>
  Ownership of a borrow: the constructors, assignments and destructor of \<open>Reader\<close> in
  \<open>inst/include/charport/interop/reader.h\<close>, and the C helper \<open>charport_reader_release\<close>. A call
  of a release callback is an entry of the trace: the callback and the state it got.
\<close>

section \<open>Operations\<close>

type_synonym ('s, 'f) release_trace = "('f \<times> 's option) list"

definition release_owned :: "('s, 'f) charport_reader \<Rightarrow> ('s, 'f) release_trace \<Rightarrow> ('s, 'f) release_trace" where
  "release_owned r t = (case rd_release r of None \<Rightarrow> t | Some f \<Rightarrow> t @ [(f, rd_state r)])"

definition disown :: "('s, 'f) charport_reader \<Rightarrow> ('s, 'f) charport_reader" where
  "disown r = r\<lparr>rd_state := None, rd_release := None\<rparr>"

text \<open>The C helper does nothing on a null pointer.\<close>

definition charport_reader_release ::
    "('s, 'f) charport_reader option \<Rightarrow> ('s, 'f) release_trace \<Rightarrow> ('s, 'f) charport_reader option \<times> ('s, 'f) release_trace" where
  "charport_reader_release p t =
     (case p of None \<Rightarrow> (None, t) | Some r \<Rightarrow> (Some (disown r), release_owned r t))"

text \<open>\<open>Reader(Reader &&)\<close> and \<open>operator=(Reader &&)\<close>: the new \<open>this\<close>, the new \<open>other\<close>.\<close>

definition reader_move_construct ::
    "('s, 'f) charport_reader \<Rightarrow> ('s, 'f) charport_reader \<times> ('s, 'f) charport_reader" where
  "reader_move_construct other = (other, disown other)"

definition reader_move_assign ::
    "('s, 'f) charport_reader \<Rightarrow> ('s, 'f) charport_reader \<Rightarrow> ('s, 'f) release_trace \<Rightarrow>
     ('s, 'f) charport_reader \<times> ('s, 'f) charport_reader \<times> ('s, 'f) release_trace" where
  "reader_move_assign this other t = (other, disown other, release_owned this t)"

text \<open>
  \<open>reset\<close>: the new reader is resolved first, so an R error leaves \<open>this\<close> alone; then it is moved
  in, and the moved-from temporary is destroyed.
\<close>

definition reader_reset ::
    "('s, 'f) charport_reader \<Rightarrow> fault + ('s, 'f) charport_reader \<Rightarrow> ('s, 'f) release_trace \<Rightarrow>
     (fault + unit) \<times> ('s, 'f) charport_reader \<times> ('s, 'f) release_trace" where
  "reader_reset this resolved t =
     (case resolved of
        Inl e \<Rightarrow> (Inl e, this, t)
      | Inr next \<Rightarrow>
          (case reader_move_assign this next t of
             (this', next', t') \<Rightarrow> (Inr (), this', release_owned next' t')))"

section \<open>Programs over several readers\<close>

text \<open>Variables hold readers until they are destroyed.\<close>

type_synonym ('s, 'f) reader_vars = "('s, 'f) charport_reader option list"

datatype ('s, 'f) reader_op =
    Construct "('s, 'f) charport_reader"
  | Move_construct nat
  | Move_assign nat nat
  | Reset nat "fault + ('s, 'f) charport_reader"
  | Release nat
  | Destroy nat

definition live :: "('s, 'f) reader_vars \<Rightarrow> nat \<Rightarrow> bool" where
  "live vars i \<longleftrightarrow> i < length vars \<and> vars ! i \<noteq> None"

fun reader_step ::
    "('s, 'f) reader_op \<Rightarrow> ('s, 'f) reader_vars \<Rightarrow> ('s, 'f) release_trace \<Rightarrow> ('s, 'f) reader_vars \<times> ('s, 'f) release_trace" where
  "reader_step (Construct r) vars t = (vars @ [Some r], t)"
| "reader_step (Move_construct i) vars t =
     (case reader_move_construct (the (vars ! i)) of (new, other) \<Rightarrow> (vars[i := Some other] @ [Some new], t))"
| "reader_step (Move_assign i j) vars t =
     (if i = j then (vars, t)
      else (case reader_move_assign (the (vars ! i)) (the (vars ! j)) t of
              (this, other, t') \<Rightarrow> (vars[i := Some this, j := Some other], t')))"
| "reader_step (Reset i resolved) vars t =
     (case reader_reset (the (vars ! i)) resolved t of (res, this, t') \<Rightarrow> (vars[i := Some this], t'))"
| "reader_step (Release i) vars t =
     (case charport_reader_release (vars ! i) t of (r, t') \<Rightarrow> (vars[i := r], t'))"
| "reader_step (Destroy i) vars t = (vars[i := None], release_owned (the (vars ! i)) t)"

text \<open>An operation on a variable that is not live would be undefined: the rest does not run.\<close>

fun op_vars :: "('s, 'f) reader_op \<Rightarrow> nat list" where
  "op_vars (Construct r) = []"
| "op_vars (Move_construct i) = [i]"
| "op_vars (Move_assign i j) = [i, j]"
| "op_vars (Reset i resolved) = [i]"
| "op_vars (Release i) = [i]"
| "op_vars (Destroy i) = [i]"

fun reader_run ::
    "('s, 'f) reader_op list \<Rightarrow> ('s, 'f) reader_vars \<Rightarrow> ('s, 'f) release_trace \<Rightarrow>
     fault + ('s, 'f) reader_vars \<times> ('s, 'f) release_trace" where
  "reader_run [] vars t = Inr (vars, t)"
| "reader_run (a # as) vars t =
     (if \<forall>i \<in> set (op_vars a). live vars i
      then (case reader_step a vars t of (vars', t') \<Rightarrow> reader_run as vars' t')
      else Inl Undefined)"

section \<open>Every borrow is released once\<close>

text \<open>The borrows a reader owns, the variables hold, and a program takes.\<close>

definition borrow :: "('s, 'f) charport_reader \<Rightarrow> ('f \<times> 's option) multiset" where
  "borrow r = (case rd_release r of None \<Rightarrow> {#} | Some f \<Rightarrow> {#(f, rd_state r)#})"

fun var_borrow :: "('s, 'f) charport_reader option \<Rightarrow> ('f \<times> 's option) multiset" where
  "var_borrow None = {#}"
| "var_borrow (Some r) = borrow r"

definition held :: "('s, 'f) reader_vars \<Rightarrow> ('f \<times> 's option) multiset" where
  "held vars = sum_list (map var_borrow vars)"

fun op_takes :: "('s, 'f) reader_op \<Rightarrow> ('f \<times> 's option) multiset" where
  "op_takes (Construct r) = borrow r"
| "op_takes (Reset i (Inr r)) = borrow r"
| "op_takes a = {#}"

lemma mset_release_owned [simp]: "mset (release_owned r t) = mset t + borrow r"
  by (simp add: release_owned_def borrow_def split: option.split)

lemma borrow_disown [simp]: "borrow (disown r) = {#}"
  by (simp add: borrow_def disown_def)

lemma held_append [simp]: "held (vars @ vars') = held vars + held vars'"
  by (simp add: held_def)

lemma held_simps [simp]: "held [] = {#}" "held [v] = var_borrow v"
  by (simp_all add: held_def)

lemma held_update: "i < length vars \<Longrightarrow> held (vars[i := v]) + var_borrow (vars ! i) = held vars + var_borrow v"
  unfolding held_def by (induction vars arbitrary: i) (auto simp: nth_Cons ac_simps split: nat.split)

lemma held_live: "live vars i \<Longrightarrow> held (vars[i := v]) + borrow (the (vars ! i)) = held vars + var_borrow v"
  using held_update [of i vars v] by (auto simp: live_def)

lemma live_same [simp]: "live vars i \<Longrightarrow> vars[i := Some (the (vars ! i))] = vars"
  by (auto simp: live_def list_update_same_conv)

lemma reader_step_conserves:
  assumes "\<forall>i \<in> set (op_vars a). live vars i" and "reader_step a vars t = (vars', t')"
  shows "mset t' + held vars' = mset t + held vars + op_takes a"
proof (cases a)
  case (Move_construct i)
  then show ?thesis
    using assms held_live [of vars i "Some (disown (the (vars ! i)))"]
    by (auto simp: reader_move_construct_def ac_simps)
next
  case (Move_assign i j)
  show ?thesis
  proof (cases "i = j")
    case False
    let ?this = "the (vars ! i)" and ?other = "the (vars ! j)"
    have l: "live vars i" "live vars j" using assms(1) Move_assign by simp_all
    then have j: "live (vars[i := Some ?other]) j" using False by (simp add: live_def)
    from held_live [OF l(1), of "Some ?other"] held_live [OF j, of "Some (disown ?other)"] False l assms(2) Move_assign
    show ?thesis
      by (auto simp: reader_move_assign_def live_def ac_simps) (metis add.left_commute add_left_cancel)
  qed (use assms Move_assign in simp)
next
  case (Reset i resolved)
  then show ?thesis
    using assms held_live [of vars i] by (cases resolved) (auto simp: reader_reset_def reader_move_assign_def ac_simps)
next
  case (Release i)
  then show ?thesis
    using assms held_live [of vars i] by (auto simp: charport_reader_release_def live_def ac_simps)
next
  case (Destroy i)
  then show ?thesis using assms held_live [of vars i None] by (auto simp: ac_simps)
qed (use assms in \<open>auto simp: ac_simps\<close>)

lemma reader_run_conserves:
  "reader_run as vars t = Inr (vars', t') \<Longrightarrow>
   mset t' + held vars' = mset t + held vars + sum_list (map op_takes as)"
proof (induction as arbitrary: vars t)
  case (Cons a as)
  obtain vars1 t1 where s: "reader_step a vars t = (vars1, t1)" by fastforce
  have live: "\<forall>i \<in> set (op_vars a). live vars i" and run: "reader_run as vars1 t1 = Inr (vars', t')"
    using Cons.prems s by (auto split: if_splits)
  show ?case using Cons.IH [OF run] reader_step_conserves [OF live s] by (simp add: ac_simps)
qed simp

lemma held_all_destroyed: "set vars \<subseteq> {None} \<Longrightarrow> held vars = {#}"
  by (induction vars) (auto simp: held_def)

lemma release_owned_once: "release_owned (disown r) t = t"
  by (simp add: release_owned_def disown_def)

text \<open>C20. Through any sequence of constructions, moves (onto themselves too), resets (failing or not),
  explicit releases and destructions of readers, no borrow is released twice or lost: the release
  calls made and the borrows still held are exactly the borrows taken. So once every reader is destroyed
  each borrow has been released exactly once.\<close>

theorem reader_releases_once:
  fixes as :: "('s, 'f) reader_op list"
  assumes "reader_run as [] [] = Inr (vars, t)"
  shows "mset t + held vars = sum_list (map op_takes as) \<and>
    (set vars \<subseteq> {None} \<longrightarrow> mset t = sum_list (map op_takes as))"
proof -
  have "mset t + held vars = sum_list (map op_takes as)" using reader_run_conserves [OF assms] by simp
  then show ?thesis using held_all_destroyed [of vars] by (metis add_0_right)
qed

definition demo_borrow :: "nat \<Rightarrow> (nat, nat) charport_reader" where
  "demo_borrow s = reader_default\<lparr>rd_state := Some s, rd_release := Some 7\<rparr>"

theorem reader_releases_once_witness:
  "reader_run [Construct (demo_borrow 1), Move_construct 0, Construct (demo_borrow 2), Move_assign 1 2, Move_assign 1 1,
       Reset 0 (Inr (demo_borrow 3)), Reset 0 (Inl Bad_alloc), Release 0, Destroy 0, Destroy 1, Destroy 2] [] [] =
     Inr ([None, None, None], [(7, Some 1), (7, Some 3), (7, Some 2)]) \<and>
   mset [(7, Some 1), (7, Some 3), (7, Some 2)] =
     {#(7, Some 1)#} + {#(7, Some 2)#} + {#(7 :: nat, Some (3 :: nat))#}"
proof -
  let ?as = "[Construct (demo_borrow 1), Move_construct 0, Construct (demo_borrow 2), Move_assign 1 2, Move_assign 1 1,
    Reset 0 (Inr (demo_borrow 3)), Reset 0 (Inl Bad_alloc), Release 0, Destroy 0, Destroy 1, Destroy 2]"
  have run: "reader_run ?as [] [] = Inr ([None, None, None], [(7, Some 1), (7, Some 3), (7, Some 2)])"
    by (simp add: live_def reader_move_construct_def reader_move_assign_def reader_reset_def charport_reader_release_def
        release_owned_def disown_def demo_borrow_def nth_Cons' eval_nat_numeral)
  from reader_releases_once [OF run] show ?thesis using run by (simp add: borrow_def demo_borrow_def)
qed

end
