(* ===== verification/Cp_Growable.thy ===== *)
theory Cp_Growable
  imports Cp_Builder
begin

text \<open>
  \<open>GrowableBuilder\<close> of \<open>inst/include/charport/charvec/builder.h\<close>: a store that grows by
  appending. \<open>append_reserve\<close> makes room in the record table before it takes payload bytes,
  so an append that throws leaves the strings appended so far.
\<close>

record growable =
  gb_store :: store
  gb_shard :: shard

definition growable_new :: growable where
  "growable_new = \<lparr>gb_store = store_empty, gb_shard = shard_new\<rparr>"

definition growable_put :: "growable \<Rightarrow> record_table \<Rightarrow> shard \<Rightarrow> growable" where
  "growable_put g t s = \<lparr>gb_store = (gb_store g)\<lparr>st_records := t\<rparr>, gb_shard = s\<rparr>"

definition growable_append_reserve ::
    "growable \<Rightarrow> size_t \<Rightarrow> cetype_ext_t \<Rightarrow> heap \<Rightarrow> (fault + ptr) \<times> growable \<times> heap" where
  "growable_append_reserve g l c h =
     (case checked_string_size l ''stored string length'' of
        Inl e \<Rightarrow> (Inl e, g, h)
      | Inr stored_len \<Rightarrow>
          (case rt_reserve_for_append (st_records (gb_store g)) h of
             (Inl e, t, h') \<Rightarrow> (Inl e, growable_put g t (gb_shard g), h')
           | (Inr u, t, h') \<Rightarrow>
               if c = CETYPE_EXT_NA then
                 (case rt_push_back_reserved t na_record of
                    Inl e \<Rightarrow> (Inl e, growable_put g t (gb_shard g), h')
                  | Inr t' \<Rightarrow> (Inr Null, growable_put g t' (gb_shard g), h'))
               else if stored_len = 0 then
                 (case rt_push_back_reserved t (empty_record c) of
                    Inl e \<Rightarrow> (Inl e, growable_put g t (gb_shard g), h')
                  | Inr t' \<Rightarrow> (Inr empty_data, growable_put g t' (gb_shard g), h'))
               else
                 (case allocate_bytes (gb_shard g) h' stored_len 0 of
                    (Inl e, s, h'') \<Rightarrow> (Inl e, growable_put g t s, h'')
                  | (Inr dest, s, h'') \<Rightarrow>
                      (case rt_push_back_reserved t (make_strview dest stored_len c) of
                         Inl e \<Rightarrow> (Inl e, growable_put g t s, h'')
                       | Inr t' \<Rightarrow> (Inr dest, growable_put g t' s, h'')))))"

definition growable_append ::
    "growable \<Rightarrow> ptr \<Rightarrow> size_t \<Rightarrow> cetype_ext_t \<Rightarrow> heap \<Rightarrow> (fault + unit) \<times> growable \<times> heap" where
  "growable_append g src l c h =
     (if src = Null \<or> c = CETYPE_EXT_NA
      then (case growable_append_reserve g 0 CETYPE_EXT_NA h of
              (Inl e, g', h') \<Rightarrow> (Inl e, g', h')
            | (Inr p, g', h') \<Rightarrow> (Inr (), g', h'))
      else (case growable_append_reserve g l c h of
              (Inl e, g', h') \<Rightarrow> (Inl e, g', h')
            | (Inr dest, g', h') \<Rightarrow>
                if 0 < l
                then (case memcpy h' dest src (unat l) of (r, h'') \<Rightarrow> (r, g', h''))
                else (Inr (), g', h')))"

definition growable_append_view ::
    "growable \<Rightarrow> charport_strview \<Rightarrow> heap \<Rightarrow> (fault + unit) \<times> growable \<times> heap" where
  "growable_append_view g v h =
     (if strview_is_na v then growable_append g Null 0 CETYPE_EXT_NA h
      else growable_append g (sv_ptr v) (scast (sv_len v)) (sv_enc v) h)"

definition growable_size :: "growable \<Rightarrow> nat" where
  "growable_size g = vector_length (st_records (gb_store g))"

definition growable_finish_store :: "growable \<Rightarrow> growable" where
  "growable_finish_store g =
     (case slice_prepend (sh_slices (gb_shard g)) (st_slices (gb_store g)) of
        (ss, rest) \<Rightarrow> \<lparr>gb_store = (gb_store g)\<lparr>st_slices := ss\<rparr>, gb_shard = shard_new\<rparr>)"

definition growable_release_store :: "growable \<Rightarrow> store \<times> growable" where
  "growable_release_store g =
     (let g' = growable_finish_store g in (gb_store g', g'\<lparr>gb_store := store_empty\<rparr>))"

section \<open>The contract\<close>

definition growable_holds :: "growable \<Rightarrow> heap \<Rightarrow> element list \<Rightarrow> bool" where
  "growable_holds g h es \<longleftrightarrow>
     st_slices (gb_store g) = [] \<and> pool_denotes [gb_shard g] (st_records (gb_store g)) h es"

text \<open>A throwing append may have grown the table's capacity, and nothing else. A string that
  fits an R string can only fail to be appended for lack of memory or at the maximum size.\<close>

definition growable_fails ::
    "growable \<Rightarrow> growable \<Rightarrow> heap \<Rightarrow> heap \<Rightarrow> element list \<Rightarrow> bool \<Rightarrow> fault \<Rightarrow> bool" where
  "growable_fails g g' h h' es fits e \<longleftrightarrow>
     (fits \<longrightarrow> length es < max_capacity \<longrightarrow> (\<exists>n m. \<not> can_alloc h n m)) \<and>
     e \<noteq> Undefined \<and> gb_shard g' = gb_shard g \<and> blocks h' = blocks h \<and>
     growable_size g' = growable_size g \<and> growable_holds g' h' es"

lemma growable_holds_new: "heap_ok h \<Longrightarrow> growable_holds growable_new h []"
  by (simp add: growable_holds_def growable_new_def store_empty_def pool_denotes_empty)

lemma growable_size_holds: "growable_holds g h es \<Longrightarrow> growable_size g = length es"
  using pool_denotesD(4) by (auto simp: growable_holds_def growable_size_def)

lemma pool_denotes_same_blocks:
  "pool_denotes ss t h es \<Longrightarrow> same_shape h h' \<Longrightarrow> blocks h' = blocks h \<Longrightarrow> pool_denotes ss t h' es"
  using pool.good_same_blocks by (auto simp: pool_denotes_def)

text \<open>Growing the table keeps the contents.\<close>

lemma reserve_for_append_denotes:
  assumes d: "pool_denotes ss t h es" and r: "rt_reserve_for_append t h = (r, t', h')"
  shows "pool_denotes ss t' h' es \<and> vector_length t' = vector_length t \<and> blocks h' = blocks h \<and>
    same_shape h h' \<and>
    (case r of Inl e \<Rightarrow> e \<noteq> Undefined | Inr u \<Rightarrow> rt_ok t' \<and> vector_length t' < capacity t')"
proof -
  have bl: "blocks h' = blocks h" "same_shape h h'"
    using rt_reserve_for_append_blocks [OF r] by (simp_all add: same_shape_def)
  note d' = pool_denotes_same_blocks [OF d bl(2,1)]
  show ?thesis
  proof (cases r)
    case (Inl e)
    with rt_reserve_for_append_fail [of t h e t' h'] r d' bl show ?thesis by auto
  next
    case (Inr u)
    note v = rt_reserve_for_append_views [OF pool_denotesD(1) [OF d] r [unfolded Inr]]
    have "vector_length t' = vector_length t" using v by (metis length_rt_views)
    with v d' bl Inr show ?thesis by (simp add: pool_denotes_def)
  qed
qed

lemma push_back_denotes:
  assumes t: "rt_ok t" "vector_length t < capacity t" and g: "pool.good ss h (rt_views t) es"
    and ap: "apart (rt_views t)" and v: "view_content h v = Some e" "pool.rec_held ss h v"
    and new: "\<And>w. w \<in> set (rt_views t) \<Longrightarrow> rec_apart v w"
  obtains t' where "rt_push_back_reserved t v = Inr t'" and "pool_denotes ss t' h (es @ [e])"
    and "rt_views t' = rt_views t @ [v]"
proof -
  obtain t' where t': "rt_push_back_reserved t v = Inr t'" "rt_ok t'"
    "rt_views t' = rt_views t @ [make_strview (sv_ptr v) (sv_len v) (sv_enc v)]"
    using rt_push_back_reserved_views [OF t] by metis
  have "make_strview (sv_ptr v) (sv_len v) (sv_enc v) = v" by (simp add: make_strview_def)
  with t' that show ?thesis
    using pool.good_append [OF g v] apart_append [OF ap new] by (simp add: pool_denotes_def)
qed

text \<open>The branches of \<open>append_reserve\<close>, with the state each leaves.\<close>

lemma growable_append_reserve_cases:
  assumes g: "growable_holds g h es" and f: "growable_append_reserve g l c h = (r, g', h')"
  obtains
    (fail) e where "r = Inl e" "growable_fails g g' h h' es (unat l \<le> 2147483647) e"
  | (plain) e p where "r = Inr p" "element_of c [] = e" "c = CETYPE_EXT_NA \<or> l = 0"
      "unat l \<le> 2147483647" "growable_holds g' h' (es @ [e])" "blocks h' = blocks h"
      "c = CETYPE_EXT_NA \<and> p = Null \<or> c \<noteq> CETYPE_EXT_NA \<and> p = Empty"
  | (room) p t h1 s t' where "r = Inr p" "c \<noteq> CETYPE_EXT_NA" "0 < unat l" "unat l \<le> 2147483647"
      "pool_denotes [gb_shard g] t h1 es" "rt_ok t" "vector_length t < capacity t"
      "blocks h1 = blocks h" "same_shape h h1"
      "allocate_bytes (gb_shard g) h1 (ucast l) 0 = (Inr p, s, h')"
      "rt_push_back_reserved t (make_strview p (ucast l) c) = Inr t'" "g' = growable_put g t' s"
proof -
  let ?t = "st_records (gb_store g)" and ?s = "gb_shard g"
  have d: "pool_denotes [?s] ?t h es" and sl: "st_slices (gb_store g) = []"
    using g by (simp_all add: growable_holds_def)
  obtain q t h1 where q: "rt_reserve_for_append ?t h = (q, t, h1)" by (metis prod_cases3)
  note grow = reserve_for_append_denotes [OF d q]
  note f' = f [unfolded growable_append_reserve_def checked_string_size_cases q]
  note len_es = pool_denotesD(4) [OF d]
  have fails: "growable_fails g (growable_put g t ?s) h h1 es True e" if "q = Inl e" for e
    using that grow sl rt_reserve_for_append_oom [OF pool_denotesD(1) [OF d] q [unfolded that]] len_es
    by (simp add: growable_fails_def growable_put_def growable_size_def growable_holds_def)
  have holds: "growable_holds (growable_put g t' s') h'' es'" if "pool_denotes [s'] t' h'' es'" for t' s' h'' es'
    using that sl by (simp add: growable_holds_def growable_put_def)
  show ?thesis
  proof (cases "unat l \<le> 2147483647")
    case False
    with f' g show ?thesis
      by (intro fail [of "Runtime_error ''stored string length exceeds R string size''"])
        (auto simp: growable_fails_def)
  next
    case len: True
    show ?thesis
    proof (cases q)
      case (Inl e)
      with len f' fails [OF Inl] show ?thesis by (intro fail [of e]) auto
    next
      case (Inr u)
      with grow have t: "rt_ok t" "vector_length t < capacity t" and d1: "pool_denotes [?s] t h1 es"
        by simp_all
      note g1 = pool_denotesD(2,3) [OF d1]
      consider "c = CETYPE_EXT_NA" | "c \<noteq> CETYPE_EXT_NA" "l = 0" | "c \<noteq> CETYPE_EXT_NA" "l \<noteq> 0" by blast
      then show ?thesis
      proof cases
        case 1
        obtain t' where "rt_push_back_reserved t na_record = Inr t'" "pool_denotes [?s] t' h1 (es @ [NA])"
          using push_back_denotes [OF t g1 pool.good_na rec_apart_na] by metis
        with 1 len Inr f' grow holds show ?thesis by (intro plain [of Null NA]) auto
      next
        case 2
        obtain t' where "rt_push_back_reserved t (empty_record c) = Inr t'"
          "pool_denotes [?s] t' h1 (es @ [Str [] c])"
          using push_back_denotes [OF t g1 pool.good_empty(1) [OF 2(1)]
              pool.good_empty(2) rec_apart_empty] by metis
        with 2 len Inr f' grow holds show ?thesis
          by (intro plain [of Empty "Str [] c"]) (auto simp: element_of_Str empty_data_def)
      next
        case 3
        have nz: "(ucast l :: u32) \<noteq> 0" and pos: "0 < unat l"
          using len 3(2) ucast_len_0_iff by (auto simp: unat_gt_0)
        obtain x s h2 where al: "allocate_bytes ?s h1 (ucast l) 0 = (x, s, h2)" by (metis prod_cases3)
        show ?thesis
        proof (cases x)
          case x: (Inl e)
          have k: "(0::nat) < length [?s]" by simp
          note no = fill_no_memory [OF d1 k len 3(2), of 0 e s h2]
          from al x have no': "fails_safely [?s] [s] t t h1 h2 es e" using no by simp
          moreover have "\<exists>n m. \<not> can_alloc h n m"
            using allocate_bytes_oom [of "ucast l" ?s h1 0 e s h2] al x pos len
              rt_reserve_for_append_can_alloc [OF q] by (simp add: unat_ucast_len)
          ultimately have "growable_fails g (growable_put g t s) h h2 es True e"
            using grow sl by (auto simp: fails_safely_def growable_fails_def growable_put_def
                growable_size_def growable_holds_def)
          with 3 len Inr f' nz al x show ?thesis by (intro fail [of e]) auto
        next
          case x: (Inr p)
          obtain t' where "rt_push_back_reserved t (make_strview p (ucast l) c) = Inr t'"
            using rt_push_back_reserved_views [OF t] by metis
          with 3 len Inr f' nz pos al x d1 t grow show ?thesis
            by (intro room [of p t h1 s t']) auto
        qed
      qed
    qed
  qed
qed

text \<open>The outcome of an append of the element \<open>e\<close>.\<close>

definition growable_frame :: "growable \<Rightarrow> heap \<Rightarrow> heap \<Rightarrow> bool" where
  "growable_frame g h h' \<longleftrightarrow>
     (\<forall>x. x \<notin> shard_owned (gb_shard g) \<longrightarrow> blocks h x \<noteq> None \<longrightarrow> blocks h' x = blocks h x)"

definition growable_appends ::
    "growable \<Rightarrow> heap \<Rightarrow> element list \<Rightarrow> element \<Rightarrow> bool \<Rightarrow> (fault + unit) \<times> growable \<times> heap \<Rightarrow> bool" where
  "growable_appends g h es e fits res \<longleftrightarrow>
     (case res of
        (Inl f, g', h') \<Rightarrow> growable_fails g g' h h' es fits f
      | (Inr u, g', h') \<Rightarrow> growable_holds g' h' (es @ [e]) \<and> growable_frame g h h')"

lemma growable_put_holds:
  "growable_holds g h es \<Longrightarrow> pool_denotes [s] t h' es' \<Longrightarrow> growable_holds (growable_put g t s) h' es'"
  by (simp add: growable_holds_def growable_put_def)

lemma growable_append_reserve_ok:
  assumes g: "growable_holds g h es" and f: "growable_append_reserve g l c h = (r, g', h')"
  shows "case r of
      Inl e \<Rightarrow> growable_fails g g' h h' es (unat l \<le> 2147483647) e
    | Inr p \<Rightarrow> unat l \<le> 2147483647 \<and>
        (\<exists>ys. growable_holds g' h' (es @ [element_of c ys]) \<and>
          (c = CETYPE_EXT_NA \<and> p = Null \<or> c \<noteq> CETYPE_EXT_NA \<and> length ys = unat l \<and>
           p = sv_ptr (rt_at (st_records (gb_store g')) (length es)))) \<and>
        growable_frame g h h'"
  using g f
proof (cases rule: growable_append_reserve_cases)
  case (fail e)
  then show ?thesis by simp
next
  case (plain e p)
  have "p = sv_ptr (rt_at (st_records (gb_store g')) (length es))" if "c \<noteq> CETYPE_EXT_NA"
  proof -
    have d: "pool_denotes [gb_shard g'] (st_records (gb_store g')) h' (es @ [e])"
      using plain by (simp add: growable_holds_def)
    note pd = pool_denotesD [OF d]
    have e: "e = Str [] c" using plain that by (simp add: element_of_Str)
    define v where "v = rt_at (st_records (gb_store g')) (length es)"
    have vc: "view_content h' v = Some e" and vh: "pool.rec_held [gb_shard g'] h' v"
      using pd(2,4) by (auto simp: pool.good_def list_all2_conv_all_nth v_def)
    then have na: "\<not> strview_is_na v" and rd: "mem_read h' (sv_ptr v) (unat (sv_len v)) = Some []"
      by (auto simp: e view_content_Str)
    have "sv_len v = 0" using length_mem_read [OF rd] by (simp add: unat_eq_zero)
    with vh na have "sv_ptr v = Empty" by (auto simp: pool.rec_held_def)
    with plain that show ?thesis by (simp add: v_def)
  qed
  with plain show ?thesis
    by (auto simp: growable_frame_def intro!: exI [of _ "[]"])
next
  case (room p t h1 s t')
  note g1 = pool_denotesD(2,3) [OF room(5)]
  have k: "(0 :: nat) < length [gb_shard g]" by simp
  note a = shards_alloc_at [OF k, simplified, OF room(10)]
  obtain ys where ys: "length ys = unat l" "pool.good [s] h' (rt_views t) es"
    "view_content h' (make_strview p (ucast l) c) = Some (Str ys c)"
    "pool.rec_held [s] h' (make_strview p (ucast l) c)"
    using pool.good_alloc_reserve [OF g1(1) room(3,4) a room(2)] by auto
  obtain t2 where t2: "rt_push_back_reserved t (make_strview p (ucast l) c) = Inr t2"
    "pool_denotes [s] t2 h' (es @ [Str ys c])" "rt_views t2 = rt_views t @ [make_strview p (ucast l) c]"
    using push_back_denotes [OF room(6,7) ys(2) g1(2) ys(3,4)] pool.alloc_apart [OF g1(1) room(3,4) a]
    by metis
  with room have g': "g' = growable_put g t2 s" by simp
  have len: "length es = vector_length t" using pool_denotesD(4) [OF room(5)] .
  have vl: "vector_length t2 = Suc (vector_length t)" using t2(3) by (metis length_append_singleton length_rt_views)
  have "rt_at t2 (length es) = make_strview p (ucast l) c"
    using t2(3) len vl by (metis length_rt_views lessI nth_append_length nth_rt_views)
  then have "p = sv_ptr (rt_at (st_records (gb_store g')) (length es))"
    by (simp add: g' growable_put_def)
  moreover have "keeps_live h1 h'" using pool.alloc_ok [OF pool.good_inv [OF g1(1)] room(3,4) a] by simp
  then have "growable_frame g h h'" using room(8) by (auto simp: growable_frame_def keeps_live_def)
  ultimately show ?thesis
    using growable_put_holds [OF g t2(2)] g' room ys(1) by (auto simp: element_of_Str)
qed

lemma source_ok_same:
  assumes "source_ok ss h src l ys" and "shards_inv ss h" and "blocks h1 = blocks h" and "same_shape h h1"
  shows "source_ok ss h1 src l ys"
proof -
  have "mem_read h1 src n = mem_read h src n" for n by (rule mem_read_cong) (simp add: assms(3))
  with assms pool.shape [OF assms(2,4)] show ?thesis by (auto simp: source_ok_def pool.src_ok_def)
qed

lemma growable_append_ok:
  assumes g: "growable_holds g h es"
    and src: "src = Null \<or> c = CETYPE_EXT_NA \<or> source_ok [gb_shard g] h src l ys"
  shows "growable_appends g h es (if src = Null then NA else element_of c ys)
    (src = Null \<or> c = CETYPE_EXT_NA \<or> unat l \<le> 2147483647) (growable_append g src l c h)"
proof (cases "src = Null \<or> c = CETYPE_EXT_NA")
  case True
  obtain r g' h' where f: "growable_append_reserve g 0 CETYPE_EXT_NA h = (r, g', h')" by (metis prod_cases3)
  from growable_append_reserve_ok [OF g f] True f show ?thesis
    by (auto simp: growable_append_def growable_appends_def split: sum.splits)
next
  case False
  obtain r g' h' where f: "growable_append_reserve g l c h = (r, g', h')" by (metis prod_cases3)
  from g f show ?thesis
  proof (cases rule: growable_append_reserve_cases)
    case (fail e)
    with f False show ?thesis by (simp add: growable_append_def growable_appends_def)
  next
    case (plain e p)
    with False have "l = 0" by simp
    with src False have "ys = []" by (simp add: source_ok_def)
    with plain f False \<open>l = 0\<close> show ?thesis
      by (auto simp: growable_append_def growable_appends_def growable_frame_def)
  next
    case (room p t h1 s t')
    note g1 = pool_denotesD(2,3) [OF room(5)]
    have k: "(0 :: nat) < length [gb_shard g]" by simp
    note a = shards_alloc_at [OF k, simplified, OF room(10)]
    have pos: "0 < l" "l \<noteq> 0" using room(3) by (auto simp: word_gt_0)
    have inv: "shards_inv [gb_shard g] h" using g pool_denotesD(5) by (auto simp: growable_holds_def)
    have "source_ok [gb_shard g] h src l ys" using src False by simp
    from source_ok_same [OF this inv room(8,9)]
    have src1: "mem_read h1 src (unat l) = Some ys" "pool.src_ok [gb_shard g] h1 src (unat l)"
      using pos(2) by (simp_all add: source_ok_def)
    obtain h2 where m: "memcpy h' p src (unat l) = (Inr (), h2)"
      and g2: "pool.good [s] h2 (rt_views t) es"
      and v: "view_content h2 (make_strview p (ucast l) c) = Some (Str ys c)"
        "pool.rec_held [s] h2 (make_strview p (ucast l) c)"
      and fr: "\<forall>b. b \<notin> shards_owned [gb_shard g] \<longrightarrow> blocks h1 b \<noteq> None \<longrightarrow> blocks h2 b = blocks h1 b"
      using pool.good_alloc_copy [OF g1(1) room(3,4) a room(2) src1] by auto
    obtain t2 where "rt_push_back_reserved t (make_strview p (ucast l) c) = Inr t2"
      "pool_denotes [s] t2 h2 (es @ [Str ys c])"
      using push_back_denotes [OF room(6,7) g2 g1(2) v] pool.alloc_apart [OF g1(1) room(3,4) a] by metis
    with room growable_put_holds [OF g] have "growable_holds g' h2 (es @ [Str ys c])" by simp
    moreover have "growable_frame g h h2" using fr room(8) by (simp add: growable_frame_def)
    ultimately show ?thesis
      using f False room pos m by (simp add: growable_append_def growable_appends_def element_of_Str)
  qed
qed

lemma growable_append_view_ok:
  assumes g: "growable_holds g h es" and v: "view_content h v = Some e"
    and fo: "foreign (shard_owned (gb_shard g)) v"
  shows "growable_appends g h es e True (growable_append_view g v h)"
proof (cases "strview_is_na v")
  case True
  with v have "e = NA" by (simp add: view_content_def)
  with growable_append_ok [OF g, of Null CETYPE_EXT_NA 0 "[]"] True show ?thesis
    by (simp add: growable_append_view_def)
next
  case False
  have "foreign (shards_owned [gb_shard g]) v" using fo by simp
  from view_source [OF v this False] obtain ys where "e = Str ys (sv_enc v)"
    "source_ok [gb_shard g] h (sv_ptr v) (scast (sv_len v)) ys" "sv_ptr v \<noteq> Null"
    "sv_enc v \<noteq> CETYPE_EXT_NA" by metis
  moreover have "unat (scast (sv_len v) :: size_t) \<le> 2147483647"
    using v \<open>e = Str ys (sv_enc v)\<close> by (simp add: view_content_Str unat_scast_nonneg)
  ultimately show ?thesis
    using growable_append_ok [OF g, of "sv_ptr v" "sv_enc v" "scast (sv_len v)" ys] False
    by (simp add: growable_append_view_def element_of_Str)
qed

text \<open>A view of the builder's own record may be appended.\<close>

lemma growable_append_own_view:
  assumes g: "growable_holds g h es" and j: "j < length es"
    and v: "view_content h (rt_at (st_records (gb_store g)) j) = Some e"
  shows "growable_appends g h es e True (growable_append_view g (rt_at (st_records (gb_store g)) j) h)"
proof -
  let ?v = "rt_at (st_records (gb_store g)) j"
  have d: "pool_denotes [gb_shard g] (st_records (gb_store g)) h es"
    using g by (simp add: growable_holds_def)
  note pd = pool_denotesD [OF d]
  have held: "pool.rec_held [gb_shard g] h ?v"
    using pd(2,4) j by (simp add: pool.good_def list_all2_conv_all_nth)
  show ?thesis
  proof (cases "strview_is_na ?v")
    case True
    with v have "e = NA" by (simp add: view_content_def)
    with growable_append_ok [OF g, of Null CETYPE_EXT_NA 0 "[]"] True show ?thesis
      by (simp add: growable_append_view_def)
  next
    case False
    then obtain ys where ys: "e = Str ys (sv_enc ?v)" "unat (sv_len ?v) \<le> 2147483647"
      "mem_read h (sv_ptr ?v) (unat (sv_len ?v)) = Some ys"
      using v by (cases e) (auto simp: view_content_NA view_content_Str)
    have l: "unat (scast (sv_len ?v) :: size_t) = unat (sv_len ?v)" using ys(2) by (rule unat_scast_nonneg)
    have "source_ok [gb_shard g] h (sv_ptr ?v) (scast (sv_len ?v)) ys"
    proof (cases "sv_len ?v = 0")
      case True
      with ys(3) show ?thesis using length_mem_read [OF ys(3)] by (simp add: source_ok_def)
    next
      case nz: False
      with held False have "shards_held [gb_shard g] h (sv_ptr ?v) (unat (sv_len ?v))"
        by (auto simp: pool.rec_held_def)
      moreover have "(scast (sv_len ?v) :: size_t) \<noteq> 0" using l nz by (metis unat_0 unat_eq_zero)
      ultimately show ?thesis using ys(3) l by (simp add: source_ok_def pool.src_ok_def)
    qed
    moreover have "sv_ptr ?v \<noteq> Null" "sv_enc ?v \<noteq> CETYPE_EXT_NA"
      using False by (simp_all add: strview_is_na_def)
    ultimately show ?thesis
      using growable_append_ok [OF g, of "sv_ptr ?v" "sv_enc ?v" "scast (sv_len ?v)" ys] False ys l
      by (simp add: growable_append_view_def element_of_Str)
  qed
qed

lemma growable_release_ok:
  assumes g: "growable_holds g h es" and r: "growable_release_store g = (st, g')"
  shows "store_holds st h es \<and> set (st_slices st) = shard_owned (gb_shard g) \<and> growable_holds g' h []"
proof -
  have d: "pool_denotes [gb_shard g] (st_records (gb_store g)) h es" and sl: "st_slices (gb_store g) = []"
    using g by (simp_all add: growable_holds_def)
  have i: "shard_inv (gb_shard g) h" using pool_denotesD(5) [OF d] by (simp add: shards_inv_def)
  have st: "st = \<lparr>st_slices = sh_slices (gb_shard g), st_records = st_records (gb_store g)\<rparr>"
    and g': "g' = growable_new"
    using r sl by (auto simp: growable_release_store_def growable_finish_store_def slice_prepend_def growable_new_def)
  have "store_holds st h es"
    unfolding st using i by (intro pool_store_holds [OF d]) (simp_all add: shard_owned_def shard_inv_def)
  moreover have "heap_ok h" using i by (simp add: shard_inv_def)
  ultimately show ?thesis by (simp add: st g' growable_holds_new shard_owned_def)
qed

section \<open>Properties\<close>

text \<open>C5. \<open>GrowableBuilder::append\<close> of a view appends exactly the element it stands for, even
  when the view points into the builder's own payload (earlier strings never move). A call that
  throws leaves the contents, the size and every byte as they were, and it throws only when the
  allocator refuses a request or the builder already has the maximum number of records.\<close>

theorem growable_append_strong_guarantee:
  assumes "growable_holds g h es" and "view_content h v = Some e"
    and "strview_is_na v \<or> (\<forall>x. ptr_blk (sv_ptr v) = Some x \<longrightarrow> x \<notin> shard_owned (gb_shard g)) \<or>
      (\<exists>j < length es. v = rt_at (st_records (gb_store g)) j)"
  shows "case growable_append_view g v h of
      (Inl f, g', h') \<Rightarrow> f \<noteq> Undefined \<and> growable_holds g' h' es \<and> growable_size g' = length es \<and>
        blocks h' = blocks h \<and> (max_capacity \<le> length es \<or> (\<exists>n m. \<not> can_alloc h n m))
    | (Inr u, g', h') \<Rightarrow> growable_holds g' h' (es @ [e]) \<and> growable_size g' = Suc (length es)"
proof -
  have "growable_appends g h es e True (growable_append_view g v h)"
    using assms(3)
  proof (elim disjE exE conjE)
    assume "strview_is_na v"
    then have "growable_append_view g v h = growable_append_view g na_record h" "e = NA"
      using assms(2) by (simp_all add: growable_append_view_def view_content_def na_record_def strview_is_na_def)
    with growable_append_view_ok [OF assms(1), of na_record NA] show ?thesis
      by (simp add: na_record_def foreign_def)
  next
    assume "\<forall>x. ptr_blk (sv_ptr v) = Some x \<longrightarrow> x \<notin> shard_owned (gb_shard g)"
    with growable_append_view_ok [OF assms(1,2)] show ?thesis by (simp add: foreign_def)
  next
    fix j
    assume "j < length es" "v = rt_at (st_records (gb_store g)) j"
    with growable_append_own_view [OF assms(1)] assms(2) show ?thesis by blast
  qed
  with growable_size_holds [OF assms(1)] show ?thesis
    by (auto simp: growable_appends_def growable_fails_def not_le growable_size_holds
        split: prod.splits sum.splits)
qed

theorem growable_append_strong_guarantee_witness:
  "\<exists>g' h'. growable_append_view growable_new demo_view demo_heap = (Inr (), g', h') \<and>
     growable_holds g' h' [Str [104, 105] CETYPE_EXT_UTF8]"
proof -
  obtain r g' h' where f: "growable_append_view growable_new demo_view demo_heap = (r, g', h')"
    by (metis prod_cases3)
  have "strview_is_na demo_view \<or>
      (\<forall>x. ptr_blk (sv_ptr demo_view) = Some x \<longrightarrow> x \<notin> shard_owned (gb_shard growable_new)) \<or>
      (\<exists>j < length []. demo_view = rt_at (st_records (gb_store growable_new)) j)"
    by (simp add: growable_new_def)
  note s = growable_append_strong_guarantee [OF growable_holds_new [OF heap_ok_demo] demo_view_content this,
      unfolded f prod.case]
  have alloc: "can_alloc demo_heap n m" for n m by (simp add: demo_heap_def)
  show ?thesis
  proof (cases r)
    case (Inl e)
    with s alloc show ?thesis by (simp add: max_capacity_value)
  next
    case (Inr u)
    with s f show ?thesis by simp
  qed
qed

end
