(* ===== verification/Cp_Parallel.thy ===== *)
theory Cp_Parallel
  imports Cp_Builder
begin

text \<open>
  \<open>ParallelBuilder\<close> of \<open>inst/include/charport/charvec/builder.h\<close>: one store, one shard per
  worker. The operations come first; then the workers run as a transition system whose steps
  are the two halves of \<open>set\<close> (take room and set the record, then copy the bytes), in any
  order. Whatever the schedule, the finished store is the same.
\<close>

section \<open>Operations\<close>

record par_builder =
  pb_store :: store
  pb_shards :: "shard list"

definition par_empty :: par_builder where
  "par_empty = \<lparr>pb_store = store_empty, pb_shards = []\<rparr>"

text \<open>\<open>std::vector<ShardCell>::reserve\<close>: 128 bytes per cell.\<close>

definition shard_cells_reserve :: "size_t \<Rightarrow> heap \<Rightarrow> (fault + unit) \<times> heap" where
  "shard_cells_reserve n h =
     (if unat n > 9223372036854775807 div 128 then (Inl (Length_error ''vector::reserve''), h)
      else (case try_alloc (128 * unat n) h of
              (ok, h') \<Rightarrow> (if ok then Inr () else Inl Bad_alloc, h')))"

definition par_clear :: "par_builder \<Rightarrow> heap \<Rightarrow> heap" where
  "par_clear p h =
     fold (\<lambda>s h. snd (slice_clear (sh_slices s) h)) (pb_shards p)
       (snd (slice_clear (st_slices (pb_store p)) h))"

definition par_reset :: "par_builder \<Rightarrow> R_xlen_t \<Rightarrow> size_t \<Rightarrow> heap \<Rightarrow> (fault + unit) \<times> par_builder \<times> heap" where
  "par_reset p n n_shards h =
     (if n_shards = 0 then (Inl (Runtime_error ''charvec builder: n_shards must be >= 1''), p, h)
      else
        (case checked_vector_size n of
           Inl e \<Rightarrow> (Inl e, p, h)
         | Inr k \<Rightarrow>
             (case store_new (unat k) 0 h of
                (Inl e, h') \<Rightarrow> (Inl e, p, h')
              | (Inr st, h') \<Rightarrow>
                  (case shard_cells_reserve n_shards h' of
                     (Inl e, h'') \<Rightarrow> (Inl e, p, h'')
                   | (Inr u, h'') \<Rightarrow>
                       (Inr (), \<lparr>pb_store = st, pb_shards = replicate (unat n_shards) shard_new\<rparr>,
                        par_clear p h'')))))"

definition par_new :: "R_xlen_t \<Rightarrow> size_t \<Rightarrow> heap \<Rightarrow> (fault + par_builder) \<times> heap" where
  "par_new n n_shards h =
     (case par_reset par_empty n n_shards h of
        (Inl e, p, h') \<Rightarrow> (Inl e, h')
      | (Inr u, p, h') \<Rightarrow> (Inr p, h'))"

definition par_n_shards :: "par_builder \<Rightarrow> nat" where
  "par_n_shards p = length (pb_shards p)"

definition par_shard_at :: "par_builder \<Rightarrow> size_t \<Rightarrow> fault + shard" where
  "par_shard_at p k =
     (if length (pb_shards p) \<le> unat k
      then Inl (Runtime_error ''charvec builder: shard index out of range'')
      else Inr (pb_shards p ! unat k))"

definition par_put :: "par_builder \<Rightarrow> size_t \<Rightarrow> shard \<Rightarrow> record_table \<Rightarrow> par_builder" where
  "par_put p k s t =
     \<lparr>pb_store = (pb_store p)\<lparr>st_records := t\<rparr>, pb_shards = (pb_shards p)[unat k := s]\<rparr>"

definition par_set ::
    "par_builder \<Rightarrow> size_t \<Rightarrow> R_xlen_t \<Rightarrow> ptr \<Rightarrow> size_t \<Rightarrow> cetype_ext_t \<Rightarrow> heap
     \<Rightarrow> (fault + unit) \<times> par_builder \<times> heap" where
  "par_set p k i src l c h =
     (case par_shard_at p k of
        Inl e \<Rightarrow> (Inl e, p, h)
      | Inr s \<Rightarrow>
          (case (if src = Null \<or> c = CETYPE_EXT_NA
                 then copy_record s (st_records (pb_store p)) h i Null 0 CETYPE_EXT_NA
                 else copy_record s (st_records (pb_store p)) h i src l c) of
             (r, s', t, h') \<Rightarrow> (r, par_put p k s' t, h')))"

definition par_set_na ::
    "par_builder \<Rightarrow> size_t \<Rightarrow> R_xlen_t \<Rightarrow> heap \<Rightarrow> (fault + unit) \<times> par_builder \<times> heap" where
  "par_set_na p k i h = par_set p k i Null 0 CETYPE_EXT_NA h"

definition par_set_view ::
    "par_builder \<Rightarrow> size_t \<Rightarrow> R_xlen_t \<Rightarrow> charport_strview \<Rightarrow> heap
     \<Rightarrow> (fault + unit) \<times> par_builder \<times> heap" where
  "par_set_view p k i v h =
     (if strview_is_na v then par_set_na p k i h
      else par_set p k i (sv_ptr v) (scast (sv_len v)) (sv_enc v) h)"

definition par_reserve ::
    "par_builder \<Rightarrow> size_t \<Rightarrow> R_xlen_t \<Rightarrow> size_t \<Rightarrow> cetype_ext_t \<Rightarrow> heap
     \<Rightarrow> (fault + ptr) \<times> par_builder \<times> heap" where
  "par_reserve p k i l c h =
     (case par_shard_at p k of
        Inl e \<Rightarrow> (Inl e, p, h)
      | Inr s \<Rightarrow>
          (case fill_record s (st_records (pb_store p)) h i l c of
             (r, s', t, h') \<Rightarrow> (r, par_put p k s' t, h')))"

fun splice_cells :: "shard list \<Rightarrow> blk list \<Rightarrow> blk list" where
  "splice_cells [] slices = slices"
| "splice_cells (s # ss) slices = splice_cells ss (fst (slice_prepend (sh_slices s) slices))"

definition par_finish_store :: "par_builder \<Rightarrow> par_builder" where
  "par_finish_store p =
     \<lparr>pb_store = (pb_store p)\<lparr>st_slices := splice_cells (pb_shards p) (st_slices (pb_store p))\<rparr>,
      pb_shards = map (\<lambda>s. shard_new) (pb_shards p)\<rparr>"

definition par_release_store :: "par_builder \<Rightarrow> store \<times> par_builder" where
  "par_release_store p =
     (let p' = par_finish_store p in (pb_store p', p'\<lparr>pb_store := store_empty\<rparr>))"

section \<open>The contract\<close>

definition par_holds :: "par_builder \<Rightarrow> heap \<Rightarrow> element list \<Rightarrow> bool" where
  "par_holds p h es \<longleftrightarrow>
     st_slices (pb_store p) = [] \<and> pool_denotes (pb_shards p) (st_records (pb_store p)) h es"

lemma par_holdsD:
  assumes "par_holds p h es"
  shows "pool_denotes (pb_shards p) (st_records (pb_store p)) h es" and "st_slices (pb_store p) = []"
    and "length es = vector_length (st_records (pb_store p))"
  using assms pool_denotesD(4) by (auto simp: par_holds_def)

lemma par_put_holds:
  "par_holds p h es \<Longrightarrow> pool_denotes ((pb_shards p)[unat k := s]) t h' es' \<Longrightarrow> par_holds (par_put p k s t) h' es'"
  by (simp add: par_holds_def par_put_def)

lemma par_put_same [simp]:
  "unat k < length (pb_shards p) \<Longrightarrow> par_put p k (pb_shards p ! unat k) (st_records (pb_store p)) = p"
  by (simp add: par_put_def)

lemma par_reserve_ok:
  assumes p: "par_holds p h es" and f: "par_reserve p k i l c h = (r, p', h')"
  shows "case r of
      Inl e \<Rightarrow> e \<noteq> Undefined \<and> p' = p \<and> blocks h' = blocks h \<and> par_holds p' h' es \<and>
        (unat k < length (pb_shards p) \<and> unat i < length es \<and> unat l \<le> 2147483647 \<longrightarrow>
           (\<exists>n m. \<not> can_alloc h n m))
    | Inr q \<Rightarrow> unat k < length (pb_shards p) \<and> unat i < length es \<and> unat l \<le> 2147483647 \<and>
        length (pb_shards p') = length (pb_shards p) \<and>
        (\<exists>ys. length ys = unat l \<and> par_holds p' h' (es[unat i := element_of c ys])) \<and>
        (c = CETYPE_EXT_NA \<and> q = Null \<or>
         c \<noteq> CETYPE_EXT_NA \<and> q \<noteq> Null \<and> q = sv_ptr (rt_at (st_records (pb_store p')) (unat i))) \<and>
        (\<forall>b. b \<notin> shards_owned (pb_shards p) \<longrightarrow> blocks h b \<noteq> None \<longrightarrow> blocks h' b = blocks h b) \<and>
        (\<forall>b \<in> shards_owned (pb_shards p'). b \<in> shards_owned (pb_shards p) \<or> blocks h b = None) \<and>
        (\<forall>j < length es. j \<noteq> unat i \<longrightarrow>
           rt_at (st_records (pb_store p')) j = rt_at (st_records (pb_store p)) j)"
proof (cases "unat k < length (pb_shards p)")
  case k: True
  let ?t = "st_records (pb_store p)" and ?ss = "pb_shards p"
  obtain s t where q: "fill_record (?ss ! unat k) ?t h i l c = (r, s, t, h')" and p': "p' = par_put p k s t"
    using f k by (auto simp: par_reserve_def par_shard_at_def not_le split: prod.splits)
  note g = fill_record_good [OF par_holdsD(1) [OF p] k q]
  show ?thesis
  proof (cases r)
    case (Inl e)
    have same: "?ss[unat k := s] = ?ss" "t = ?t" using g Inl by (auto simp: fails_safely_def)
    then have "s = ?ss ! unat k" using nth_list_update_eq [OF k, of s] by simp
    with p' k same(2) have "p' = p" by simp
    moreover have "pool_denotes ?ss ?t h' es" "e \<noteq> Undefined" "blocks h' = blocks h"
      using g Inl by (auto simp: fails_safely_def)
    moreover have "unat i < length es \<longrightarrow> unat l \<le> 2147483647 \<longrightarrow> (\<exists>n m. \<not> can_alloc h n m)"
      using g Inl par_holdsD(3) [OF p] by (simp add: fill_in_range_def)
    ultimately show ?thesis using Inl p by (simp add: par_holds_def)
  next
    case (Inr x)
    from g Inr have g': "fill_in_range ?t i l" "vector_length t = vector_length ?t"
      "\<exists>ys. length ys = unat l \<and> pool_denotes (?ss[unat k := s]) t h' (es[unat i := element_of c ys])"
      "c = CETYPE_EXT_NA \<and> x = Null \<or> c \<noteq> CETYPE_EXT_NA \<and> x = sv_ptr (rt_views t ! unat i) \<and> x \<noteq> Null"
      by simp_all
    have i: "unat i < length es" "unat l \<le> 2147483647"
      using g'(1) par_holdsD(3) [OF p] by (simp_all add: fill_in_range_def)
    then have "rt_views t ! unat i = rt_at (st_records (pb_store p')) (unat i)"
      using g'(2) par_holdsD(3) [OF p] p' by (simp add: par_put_def)
    moreover obtain ys where "length ys = unat l" "par_holds p' h' (es[unat i := element_of c ys])"
      using g'(3) par_put_holds [OF p] p' by blast
    moreover have "pb_shards p' = ?ss[unat k := s]" "st_records (pb_store p') = t"
      using p' by (simp_all add: par_put_def)
    ultimately show ?thesis using Inr g g'(4) i k par_holdsD(3) [OF p] by auto
  qed
next
  case False
  with f p show ?thesis by (auto simp: par_reserve_def par_shard_at_def)
qed

lemma par_write_late:
  assumes p: "par_holds p h es" and i: "i < length es" "es ! i = Str xs c" and ys: "length ys = length xs"
  shows "\<exists>h'. mem_write h (sv_ptr (rt_at (st_records (pb_store p)) i)) ys = Some h' \<and>
    par_holds p h' (es[i := Str ys c])"
  using pool_write_late [OF par_holdsD(1) [OF p] i ys] par_holdsD(2,3) [OF p] i(1)
  by (simp add: par_holds_def)

text \<open>\<open>set\<close> is \<open>reserve\<close> followed by the copy.\<close>

lemma par_set_split:
  assumes "src \<noteq> Null" and "c \<noteq> CETYPE_EXT_NA"
  shows "par_set p k i src l c h =
     (case par_reserve p k i l c h of
        (Inl e, p', h') \<Rightarrow> (Inl e, p', h')
      | (Inr dest, p', h') \<Rightarrow>
          if dest \<noteq> Null \<and> 0 < l
          then (case memcpy h' dest src (unat l) of (r, h'') \<Rightarrow> (r, p', h''))
          else (Inr (), p', h'))"
  using assms
  by (auto simp: par_set_def par_reserve_def copy_record_def split: sum.splits prod.splits)

section \<open>Finishing\<close>

text \<open>The loop of \<open>finish_store\<close> is the splice of the slice-chain contract.\<close>

lemma splice_cells_listed:
  "listed.splice_all (map sh_slices cells) slices s = Some (splice_cells cells slices, s)"
  by (induction cells arbitrary: slices) simp_all

lemma splice_cells_set: "set (splice_cells cells slices) = shards_owned cells \<union> set slices"
  by (induction cells arbitrary: slices) (auto simp: slice_prepend_def shards_owned_def shard_owned_def)

lemma shards_inv_tail: "shards_inv (s # ss) h \<Longrightarrow> shards_inv ss h"
  unfolding shards_inv_def by (fastforce simp: nth_Cons')

lemma shards_inv_head:
  assumes "shards_inv (s # ss) h"
  shows "shard_owned s \<inter> shards_owned ss = {}"
proof -
  have "shard_owned s \<inter> shard_owned (ss ! j) = {}" if "j < length ss" for j
    using shards_owned_disjoint [OF assms, of 0 "Suc j"] that by auto
  then have "shard_owned s \<inter> shard_owned s' = {}" if "s' \<in> set ss" for s'
    using that by (metis in_set_conv_nth)
  then show ?thesis unfolding shards_owned_def by blast
qed

lemma splice_cells_distinct:
  assumes "shards_inv cells h" and "distinct slices" and "shards_owned cells \<inter> set slices = {}"
  shows "distinct (splice_cells cells slices)"
  using assms
proof (induction cells arbitrary: slices)
  case Nil
  then show ?case by simp
next
  case (Cons s ss)
  have "distinct (sh_slices s)" using Cons.prems(1) by (simp add: shards_inv_def shard_inv_def)
  moreover have "set (sh_slices s) \<inter> set slices = {}"
    using Cons.prems(3) by (auto simp: shards_owned_def shard_owned_def)
  ultimately have "distinct (sh_slices s @ slices)" using Cons.prems(2) by simp
  moreover have "shards_owned ss \<inter> set (sh_slices s @ slices) = {}"
    using shards_inv_head [OF Cons.prems(1)] Cons.prems(3)
    by (auto simp: shards_owned_def shard_owned_def)
  ultimately show ?case
    using Cons.IH [OF shards_inv_tail [OF Cons.prems(1)]] by (simp add: slice_prepend_def)
qed

lemma par_release_ok:
  assumes p: "par_holds p h es" and r: "par_release_store p = (st, p')"
  shows "store_holds st h es \<and> set (st_slices st) = shards_owned (pb_shards p) \<and> par_holds p' h []"
proof -
  note d = par_holdsD(1) [OF p] and sl = par_holdsD(2) [OF p]
  note inv = pool_denotesD(5) [OF d]
  have st: "st = \<lparr>st_slices = splice_cells (pb_shards p) [], st_records = st_records (pb_store p)\<rparr>"
    and p': "p' = \<lparr>pb_store = store_empty, pb_shards = map (\<lambda>s. shard_new) (pb_shards p)\<rparr>"
    using r sl by (auto simp: par_release_store_def par_finish_store_def Let_def)
  have "store_holds st h es"
    unfolding st using splice_cells_distinct [OF inv] by (intro pool_store_holds [OF d]) (simp_all add: splice_cells_set)
  moreover have "heap_ok h" using inv by (simp add: shards_inv_def)
  then have "par_holds p' h []" by (simp add: p' par_holds_def store_empty_def pool_denotes_empty)
  ultimately show ?thesis by (simp add: st splice_cells_set)
qed

lemma par_clear_empty [simp]: "par_clear par_empty h = h"
  by (simp add: par_clear_def par_empty_def store_empty_def)

lemma par_new_ok:
  assumes "heap_ok h" and "par_new n n_shards h = (Inr p, h')"
  shows "par_holds p h' (replicate (unat n) NA) \<and> length (pb_shards p) = unat n_shards \<and>
    blocks h' = blocks h \<and> shards_owned (pb_shards p) = {}"
proof -
  obtain st h1 where st: "store_new (unat n) 0 h = (Inr st, h1)"
    and c: "shard_cells_reserve n_shards h1 = (Inr (), h')"
    and p: "p = \<lparr>pb_store = st, pb_shards = replicate (unat n_shards) shard_new\<rparr>"
    using assms(2)
    by (auto simp: par_new_def par_reset_def checked_vector_size_def split: if_splits prod.splits sum.splits)
  from store_new_empty [OF st] have n: "st_slices st = []" "rt_new (unat n) h = (Inr (st_records st), h1)"
    by simp_all
  have bl: "blocks h' = blocks h1" "same_shape h1 h'"
    using c by (auto simp: shard_cells_reserve_def try_alloc_def same_shape_def split: if_splits)
  have "pool_denotes (pb_shards p) (st_records st) h1 (replicate (unat n) NA)"
    by (rule pool_denotes_new [OF n(2) assms(1)]) (simp add: p)
  then have "pool_denotes (pb_shards p) (st_records st) h' (replicate (unat n) NA)"
    using pool.good_same_blocks bl by (auto simp: pool_denotes_def)
  moreover have "shards_owned (pb_shards p) = {}" by (simp add: p shards_owned_def)
  ultimately show ?thesis using n(1) rt_new_blocks [OF n(2)] bl by (simp add: par_holds_def p)
qed

end
