(* ===== verification/Cp_Schedule.thy ===== *)
theory Cp_Schedule
  imports Cp_Parallel
begin

text \<open>
  Workers on a \<open>ParallelBuilder\<close>. Worker \<open>k\<close> runs \<open>set(k, i, view)\<close> for the entries of its
  list of jobs. A step is one half of a call of one worker: \<open>begin\<close> (checks, room from the
  worker's own shard, the record) or \<open>copy\<close> (the bytes). Any worker may take the next step,
  so the reachable states are those of every interleaving. (Finer interleavings add nothing:
  a \<open>begin\<close> touches only the worker's shard, its record and the thread-safe allocator.)
\<close>

type_synonym job = "R_xlen_t \<times> charport_strview"

text \<open>The first half of \<open>par_set_view\<close>.\<close>

definition par_begin ::
    "par_builder \<Rightarrow> size_t \<Rightarrow> R_xlen_t \<Rightarrow> charport_strview \<Rightarrow> heap \<Rightarrow> (fault + ptr) \<times> par_builder \<times> heap" where
  "par_begin p k i v h =
     (if strview_is_na v then par_reserve p k i 0 CETYPE_EXT_NA h
      else par_reserve p k i (scast (sv_len v)) (sv_enc v) h)"

definition copy_due :: "ptr \<Rightarrow> charport_strview \<Rightarrow> bool" where
  "copy_due dest v \<longleftrightarrow> dest \<noteq> Null \<and> (0 :: size_t) < scast (sv_len v)"

record worker =
  w_pc :: nat
  w_dest :: "ptr option"

record system =
  sys_builder :: par_builder
  sys_heap :: heap
  sys_workers :: "worker list"

inductive par_step :: "job list list \<Rightarrow> system \<Rightarrow> system \<Rightarrow> bool" for jobs where
  step_begin:
    "k < length jobs \<Longrightarrow> sys_workers s ! k = \<lparr>w_pc = pc, w_dest = None\<rparr> \<Longrightarrow>
     pc < length (jobs ! k) \<Longrightarrow> jobs ! k ! pc = (i, v) \<Longrightarrow>
     par_begin (sys_builder s) (of_nat k) i v (sys_heap s) = (Inr dest, p', h') \<Longrightarrow>
     w' = (if copy_due dest v then \<lparr>w_pc = pc, w_dest = Some dest\<rparr>
           else \<lparr>w_pc = Suc pc, w_dest = None\<rparr>) \<Longrightarrow>
     par_step jobs s \<lparr>sys_builder = p', sys_heap = h', sys_workers = (sys_workers s)[k := w']\<rparr>"
| step_copy:
    "k < length jobs \<Longrightarrow> sys_workers s ! k = \<lparr>w_pc = pc, w_dest = Some dest\<rparr> \<Longrightarrow>
     pc < length (jobs ! k) \<Longrightarrow> jobs ! k ! pc = (i, v) \<Longrightarrow>
     memcpy (sys_heap s) dest (sv_ptr v) (unat (scast (sv_len v) :: size_t)) = (Inr (), h') \<Longrightarrow>
     par_step jobs s
       \<lparr>sys_builder = sys_builder s, sys_heap = h',
        sys_workers = (sys_workers s)[k := \<lparr>w_pc = Suc pc, w_dest = None\<rparr>]\<rparr>"

inductive_cases par_stepE: "par_step jobs s s'"

definition sys_start :: "job list list \<Rightarrow> par_builder \<Rightarrow> heap \<Rightarrow> system" where
  "sys_start jobs p h =
     \<lparr>sys_builder = p, sys_heap = h, sys_workers = replicate (length jobs) \<lparr>w_pc = 0, w_dest = None\<rparr>\<rparr>"

definition sys_finished :: "job list list \<Rightarrow> system \<Rightarrow> bool" where
  "sys_finished jobs s \<longleftrightarrow>
     (\<forall>k < length jobs. sys_workers s ! k = \<lparr>w_pc = length (jobs ! k), w_dest = None\<rparr>)"

text \<open>Jobs the builder can serve: indices in range and all different, views of live memory
  outside the builder.\<close>

definition jobs_ok :: "job list list \<Rightarrow> nat \<Rightarrow> heap \<Rightarrow> blk set \<Rightarrow> bool" where
  "jobs_ok jobs n h B \<longleftrightarrow>
     (\<forall>k < length jobs. \<forall>j < length (jobs ! k).
        unat (fst (jobs ! k ! j)) < n \<and> view_content h (snd (jobs ! k ! j)) \<noteq> None \<and>
        (strview_is_na (snd (jobs ! k ! j)) \<or> foreign B (snd (jobs ! k ! j)))) \<and>
     (\<forall>k < length jobs. \<forall>j < length (jobs ! k). \<forall>k' < length jobs. \<forall>j' < length (jobs ! k').
        fst (jobs ! k ! j) = fst (jobs ! k' ! j') \<longrightarrow> k = k' \<and> j = j')"

text \<open>The contents the jobs describe: the job for an index gives the element there.\<close>

definition jobs_result :: "job list list \<Rightarrow> heap \<Rightarrow> element list \<Rightarrow> element list" where
  "jobs_result jobs h es =
     map (\<lambda>m. case List.find (\<lambda>job. unat (fst job) = m) (concat jobs) of
                None \<Rightarrow> es ! m
              | Some (i, v) \<Rightarrow> (case view_content h v of None \<Rightarrow> NA | Some e \<Rightarrow> e))
       [0..<length es]"

text \<open>The number of half calls left.\<close>

definition sys_left :: "job list list \<Rightarrow> system \<Rightarrow> nat" where
  "sys_left jobs s =
     (\<Sum>k < length jobs. 2 * (length (jobs ! k) - w_pc (sys_workers s ! k)) -
        (if w_dest (sys_workers s ! k) = None then 0 else 1))"

section \<open>A call is its two halves\<close>

lemma fill_record_na: "fill_record s t h i l CETYPE_EXT_NA = (Inr q, s', t', h') \<Longrightarrow> q = Null"
  by (auto simp: fill_record_def split: if_splits sum.splits)

lemma par_reserve_na: "par_reserve p k i l CETYPE_EXT_NA h = (Inr q, p', h') \<Longrightarrow> q = Null"
  by (auto simp: par_reserve_def dest: fill_record_na split: sum.splits prod.splits)

lemma par_set_na_split:
  "par_set p k i Null 0 CETYPE_EXT_NA h =
     (case par_reserve p k i 0 CETYPE_EXT_NA h of
        (Inl e, p', h') \<Rightarrow> (Inl e, p', h') | (Inr q, p', h') \<Rightarrow> (Inr (), p', h'))"
  by (simp add: par_set_def par_reserve_def copy_record_def split: sum.splits prod.splits)

lemma par_set_view_halves:
  "par_set_view p k i v h =
     (case par_begin p k i v h of
        (Inl e, p', h') \<Rightarrow> (Inl e, p', h')
      | (Inr dest, p', h') \<Rightarrow>
          if copy_due dest v
          then (case memcpy h' dest (sv_ptr v) (unat (scast (sv_len v) :: size_t)) of
                  (r, h'') \<Rightarrow> (r, p', h''))
          else (Inr (), p', h'))"
proof (cases "strview_is_na v")
  case True
  obtain r p' h' where f: "par_reserve p k i 0 CETYPE_EXT_NA h = (r, p', h')" by (metis prod_cases3)
  have set: "par_set_view p k i v h = (case r of Inl e \<Rightarrow> (Inl e, p', h') | Inr q \<Rightarrow> (Inr (), p', h'))"
    unfolding par_set_view_def par_set_na_def if_P [OF True] par_set_na_split f
    by (simp split: sum.split)
  have beg: "par_begin p k i v h = (r, p', h')" unfolding par_begin_def if_P [OF True] by (rule f)
  show ?thesis
  proof (cases r)
    case (Inl e)
    with set beg show ?thesis by simp
  next
    case (Inr q)
    with f have "q = Null" using par_reserve_na by blast
    then have "\<not> copy_due q v" by (simp add: copy_due_def)
    with Inr set beg show ?thesis by simp
  qed
next
  case False
  then have n: "sv_ptr v \<noteq> Null" "sv_enc v \<noteq> CETYPE_EXT_NA" by (simp_all add: strview_is_na_def)
  show ?thesis
    unfolding par_set_view_def par_begin_def copy_due_def if_not_P [OF False] par_set_split [OF n] ..
qed

section \<open>The invariant\<close>

text \<open>Element \<open>e\<close> is being written at \<open>i\<close>: the record has the right shape and room at \<open>dest\<close>.\<close>

definition half_set :: "par_builder \<Rightarrow> element list \<Rightarrow> R_xlen_t \<Rightarrow> charport_strview \<Rightarrow> ptr \<Rightarrow> bool" where
  "half_set p es i v dest \<longleftrightarrow>
     \<not> strview_is_na v \<and> (\<exists>xs. es ! unat i = Str xs (sv_enc v) \<and> length xs = unat (sv_len v)) \<and>
     dest = sv_ptr (rt_at (st_records (pb_store p)) (unat i))"

definition sys_inv :: "job list list \<Rightarrow> heap \<Rightarrow> element list \<Rightarrow> system \<Rightarrow> element list \<Rightarrow> bool" where
  "sys_inv jobs h0 es0 s es \<longleftrightarrow>
     (let p = sys_builder s; h = sys_heap s; ws = sys_workers s in
      par_holds p h es \<and> length es = length es0 \<and> length ws = length jobs \<and>
      length jobs \<le> length (pb_shards p) \<and> length jobs < 2 ^ 64 \<and>
      jobs_ok jobs (length es0) h (shards_owned (pb_shards p)) \<and>
      (\<forall>k < length jobs. \<forall>j < length (jobs ! k).
         view_content h (snd (jobs ! k ! j)) = view_content h0 (snd (jobs ! k ! j)) \<and>
         (j < w_pc (ws ! k) \<longrightarrow>
            Some (es ! unat (fst (jobs ! k ! j))) = view_content h0 (snd (jobs ! k ! j))) \<and>
         (w_pc (ws ! k) = j \<longrightarrow> (\<forall>dest. w_dest (ws ! k) = Some dest \<longrightarrow>
            half_set p es (fst (jobs ! k ! j)) (snd (jobs ! k ! j)) dest))) \<and>
      (\<forall>k < length jobs. w_pc (ws ! k) \<le> length (jobs ! k) \<and>
         (w_dest (ws ! k) \<noteq> None \<longrightarrow> w_pc (ws ! k) < length (jobs ! k))) \<and>
      (\<forall>m < length es0. (\<forall>k < length jobs. \<forall>j < length (jobs ! k). unat (fst (jobs ! k ! j)) \<noteq> m) \<longrightarrow>
         es ! m = es0 ! m))"

lemma jobs_okD:
  assumes "jobs_ok jobs n h B" and "k < length jobs" and "j < length (jobs ! k)" and "jobs ! k ! j = (i, v)"
  shows "unat i < n" and "view_content h v \<noteq> None" and "strview_is_na v \<or> foreign B v"
proof -
  have "unat (fst (jobs ! k ! j)) < n \<and> view_content h (snd (jobs ! k ! j)) \<noteq> None \<and>
      (strview_is_na (snd (jobs ! k ! j)) \<or> foreign B (snd (jobs ! k ! j)))"
    using assms(1-3) unfolding jobs_ok_def by blast
  with assms(4) show "unat i < n" and "view_content h v \<noteq> None" and "strview_is_na v \<or> foreign B v"
    by simp_all
qed

lemma jobs_ok_distinct:
  assumes "jobs_ok jobs n h B" and "k < length jobs" and "j < length (jobs ! k)"
    and "k' < length jobs" and "j' < length (jobs ! k')"
    and "unat (fst (jobs ! k ! j)) = unat (fst (jobs ! k' ! j'))"
  shows "k = k' \<and> j = j'"
proof -
  have "fst (jobs ! k ! j) = fst (jobs ! k' ! j')" using assms(6) by (simp add: word_unat_eq_iff)
  with assms(1-5) show ?thesis unfolding jobs_ok_def by blast
qed

text \<open>A view of foreign memory survives what the builder writes.\<close>

lemma view_stays:
  assumes v: "view_content h v = Some e" and f: "strview_is_na v \<or> foreign B v"
    and frame: "\<forall>b. b \<notin> B \<longrightarrow> blocks h b \<noteq> None \<longrightarrow> blocks h' b = blocks h b"
    and grow: "\<forall>b \<in> B'. b \<in> B \<or> blocks h b = None"
  shows "view_content h' v = Some e \<and> (strview_is_na v \<or> foreign B' v)"
proof (cases "strview_is_na v")
  case True
  with v show ?thesis by (simp add: view_content_def)
next
  case False
  then obtain ys where rd: "mem_read h (sv_ptr v) (unat (sv_len v)) = Some ys"
    using v by (cases e) (auto simp: view_content_NA view_content_Str)
  have live: "b \<notin> B \<and> blocks h b \<noteq> None" if "ptr_blk (sv_ptr v) = Some b" for b
    using that f False rd by (cases "sv_ptr v") (auto simp: foreign_def split: option.splits)
  then have "mem_read h' (sv_ptr v) (unat (sv_len v)) = mem_read h (sv_ptr v) (unat (sv_len v))"
    using frame by (intro mem_read_cong) auto
  then have "view_content h' v = view_content h v" by (intro view_content_cong)
  moreover have "foreign B' v" unfolding foreign_def using live grow by blast
  ultimately show ?thesis using v by simp
qed

lemma jobs_ok_stays:
  assumes ok: "jobs_ok jobs n h B"
    and frame: "\<forall>b. b \<notin> B \<longrightarrow> blocks h b \<noteq> None \<longrightarrow> blocks h' b = blocks h b"
    and grow: "\<forall>b \<in> B'. b \<in> B \<or> blocks h b = None"
  shows "jobs_ok jobs n h' B'"
    and "\<And>k j. k < length jobs \<Longrightarrow> j < length (jobs ! k) \<Longrightarrow>
      view_content h' (snd (jobs ! k ! j)) = view_content h (snd (jobs ! k ! j))"
proof -
  have st: "view_content h' (snd (jobs ! k ! j)) = view_content h (snd (jobs ! k ! j)) \<and>
      view_content h' (snd (jobs ! k ! j)) \<noteq> None \<and>
      (strview_is_na (snd (jobs ! k ! j)) \<or> foreign B' (snd (jobs ! k ! j)))"
    if kj: "k < length jobs" "j < length (jobs ! k)" for k j
  proof -
    have d: "view_content h (snd (jobs ! k ! j)) \<noteq> None"
      "strview_is_na (snd (jobs ! k ! j)) \<or> foreign B (snd (jobs ! k ! j))"
      using ok kj unfolding jobs_ok_def by blast+
    from d(1) obtain e where "view_content h (snd (jobs ! k ! j)) = Some e" by blast
    from view_stays [OF this d(2) frame grow] this show ?thesis by simp
  qed
  then show "\<And>k j. k < length jobs \<Longrightarrow> j < length (jobs ! k) \<Longrightarrow>
      view_content h' (snd (jobs ! k ! j)) = view_content h (snd (jobs ! k ! j))" by blast
  from st ok show "jobs_ok jobs n h' B'" unfolding jobs_ok_def by blast
qed

lemma sys_inv_start:
  assumes "par_holds p h es" and "length jobs \<le> length (pb_shards p)" and "length jobs < 2 ^ 64"
    and "jobs_ok jobs (length es) h (shards_owned (pb_shards p))"
  shows "sys_inv jobs h es (sys_start jobs p h) es"
  using assms by (simp add: sys_inv_def sys_start_def Let_def)

section \<open>Every step keeps it\<close>

lemma par_begin_ok:
  assumes p: "par_holds p h es" and v: "view_content h v = Some e"
    and f: "par_begin p k i v h = (Inr dest, p', h')"
  shows "unat i < length es \<and> length (pb_shards p') = length (pb_shards p) \<and>
    (\<exists>x. par_holds p' h' (es[unat i := x]) \<and>
       (if copy_due dest v then half_set p' (es[unat i := x]) i v dest else x = e)) \<and>
    (\<forall>b. b \<notin> shards_owned (pb_shards p) \<longrightarrow> blocks h b \<noteq> None \<longrightarrow> blocks h' b = blocks h b) \<and>
    (\<forall>b \<in> shards_owned (pb_shards p'). b \<in> shards_owned (pb_shards p) \<or> blocks h b = None) \<and>
    (\<forall>j < length es. j \<noteq> unat i \<longrightarrow>
       rt_at (st_records (pb_store p')) j = rt_at (st_records (pb_store p)) j)"
proof (cases "strview_is_na v")
  case True
  with f have f': "par_reserve p k i 0 CETYPE_EXT_NA h = (Inr dest, p', h')" by (simp add: par_begin_def)
  have e: "e = NA" using v True by (simp add: view_content_def)
  have "\<not> copy_due dest v" using par_reserve_na [OF f'] by (simp add: copy_due_def)
  note r = par_reserve_ok [OF p f', unfolded sum.case element_of_NA]
  have "par_holds p' h' (es[unat i := NA])" using r by (elim conjE exE)
  then have "\<exists>x. par_holds p' h' (es[unat i := x]) \<and>
       (if copy_due dest v then half_set p' (es[unat i := x]) i v dest else x = e)"
    using \<open>\<not> copy_due dest v\<close> e by auto
  with r show ?thesis by (elim conjE) (intro conjI)
next
  case False
  with f have f': "par_reserve p k i (scast (sv_len v)) (sv_enc v) h = (Inr dest, p', h')"
    by (simp add: par_begin_def)
  obtain bs where bs: "e = Str bs (sv_enc v)" "unat (sv_len v) \<le> 2147483647"
    "mem_read h (sv_ptr v) (unat (sv_len v)) = Some bs"
    using v False by (cases e) (auto simp: view_content_NA view_content_Str)
  have l: "unat (scast (sv_len v) :: size_t) = unat (sv_len v)" using bs(2) by (rule unat_scast_nonneg)
  have na: "sv_enc v \<noteq> CETYPE_EXT_NA" using False by (simp add: strview_is_na_def)
  note r = par_reserve_ok [OF p f', unfolded sum.case]
  have "\<exists>ys. length ys = unat (sv_len v) \<and> par_holds p' h' (es[unat i := Str ys (sv_enc v)])"
    using r unfolding element_of_Str [OF na] l by (elim conjE)
  then obtain ys where ys: "length ys = unat (sv_len v)" "par_holds p' h' (es[unat i := Str ys (sv_enc v)])"
    by blast
  have i: "unat i < length es" using r by (elim conjE)
  have "sv_enc v = CETYPE_EXT_NA \<and> dest = Null \<or> sv_enc v \<noteq> CETYPE_EXT_NA \<and> dest \<noteq> Null \<and>
      dest = sv_ptr (rt_at (st_records (pb_store p')) (unat i))"
    using r by (elim conjE)
  with na have d: "dest \<noteq> Null" "dest = sv_ptr (rt_at (st_records (pb_store p')) (unat i))" by blast+
  have "if copy_due dest v then half_set p' (es[unat i := Str ys (sv_enc v)]) i v dest
    else Str ys (sv_enc v) = e"
  proof (cases "copy_due dest v")
    case True
    with False ys(1) i d show ?thesis by (simp add: half_set_def)
  next
    case no: False
    then have "(scast (sv_len v) :: size_t) = 0" using d(1) by (simp add: copy_due_def word_gt_0)
    with l have "unat (sv_len v) = 0" by simp
    with ys(1) bs length_mem_read [OF bs(3)] no show ?thesis by simp
  qed
  with ys(2) have "\<exists>x. par_holds p' h' (es[unat i := x]) \<and>
       (if copy_due dest v then half_set p' (es[unat i := x]) i v dest else x = e)" by blast
  with r show ?thesis by (elim conjE) (intro conjI)
qed

text \<open>What the workers other than the one stepping rely on.\<close>

lemma sys_invD:
  assumes "sys_inv jobs h0 es0 s es"
  shows "par_holds (sys_builder s) (sys_heap s) es" and "length es = length es0"
    and "length (sys_workers s) = length jobs" and "length jobs \<le> length (pb_shards (sys_builder s))"
    and "length jobs < 2 ^ 64"
    and "jobs_ok jobs (length es0) (sys_heap s) (shards_owned (pb_shards (sys_builder s)))"
    and "\<And>k j. k < length jobs \<Longrightarrow> j < length (jobs ! k) \<Longrightarrow>
      view_content (sys_heap s) (snd (jobs ! k ! j)) = view_content h0 (snd (jobs ! k ! j))"
    and "\<And>k j. k < length jobs \<Longrightarrow> j < length (jobs ! k) \<Longrightarrow> j < w_pc (sys_workers s ! k) \<Longrightarrow>
      Some (es ! unat (fst (jobs ! k ! j))) = view_content h0 (snd (jobs ! k ! j))"
    and "\<And>k j dest. k < length jobs \<Longrightarrow> j < length (jobs ! k) \<Longrightarrow> w_pc (sys_workers s ! k) = j \<Longrightarrow>
      w_dest (sys_workers s ! k) = Some dest \<Longrightarrow>
      half_set (sys_builder s) es (fst (jobs ! k ! j)) (snd (jobs ! k ! j)) dest"
    and "\<And>k. k < length jobs \<Longrightarrow> w_pc (sys_workers s ! k) \<le> length (jobs ! k)"
    and "\<And>m. m < length es0 \<Longrightarrow>
      (\<And>k j. k < length jobs \<Longrightarrow> j < length (jobs ! k) \<Longrightarrow> unat (fst (jobs ! k ! j)) \<noteq> m) \<Longrightarrow> es ! m = es0 ! m"
    and "\<And>k. k < length jobs \<Longrightarrow> w_dest (sys_workers s ! k) \<noteq> None \<Longrightarrow>
      w_pc (sys_workers s ! k) < length (jobs ! k)"
  using assms unfolding sys_inv_def Let_def by simp_all

text \<open>A state that differs from one with the invariant in the record, the element and the
  counter of one worker's current job.\<close>

lemma sys_inv_update:
  assumes inv: "sys_inv jobs h0 es0 s es" and k: "k < length jobs" and pc: "w_pc (sys_workers s ! k) = pc"
    and j: "pc < length (jobs ! k)" "jobs ! k ! pc = (i, v)"
    and p': "par_holds p' h' (es[unat i := x])" "length (pb_shards p') = length (pb_shards (sys_builder s))"
    and frame: "\<forall>b. b \<notin> shards_owned (pb_shards (sys_builder s)) \<longrightarrow> blocks (sys_heap s) b \<noteq> None \<longrightarrow>
      blocks h' b = blocks (sys_heap s) b"
    and grow: "\<forall>b \<in> shards_owned (pb_shards p').
      b \<in> shards_owned (pb_shards (sys_builder s)) \<or> blocks (sys_heap s) b = None"
    and rec: "\<forall>m < length es. m \<noteq> unat i \<longrightarrow>
      rt_at (st_records (pb_store p')) m = rt_at (st_records (pb_store (sys_builder s))) m"
    and w: "w' = \<lparr>w_pc = pc, w_dest = Some dest\<rparr> \<and> half_set p' (es[unat i := x]) i v dest \<or>
      w' = \<lparr>w_pc = Suc pc, w_dest = None\<rparr> \<and> view_content h0 v = Some x"
  shows "sys_inv jobs h0 es0
    \<lparr>sys_builder = p', sys_heap = h', sys_workers = (sys_workers s)[k := w']\<rparr> (es[unat i := x])"
proof -
  let ?ws = "(sys_workers s)[k := w']" and ?es = "es[unat i := x]"
  note I = sys_invD [OF inv]
  note stay = jobs_ok_stays [OF I(6) frame grow]
  have kw: "k < length (sys_workers s)" using I(3) k by simp
  have i: "unat i < length es" using jobs_okD(1) [OF I(6) k j] I(2) by simp
  have other: "unat (fst (jobs ! k' ! j')) \<noteq> unat i"
    if "k' < length jobs" "j' < length (jobs ! k')" "k' \<noteq> k \<or> j' \<noteq> pc" for k' j'
    using jobs_ok_distinct [OF I(6) that(1,2) k j(1)] that(3) j(2) by auto
  have range: "unat (fst (jobs ! k' ! j')) < length es" if "k' < length jobs" "j' < length (jobs ! k')" for k' j'
    using jobs_okD(1) [OF I(6) that] I(2) by (metis prod.collapse)
  have view: "view_content h' (snd (jobs ! k' ! j')) = view_content h0 (snd (jobs ! k' ! j'))"
    if "k' < length jobs" "j' < length (jobs ! k')" for k' j'
    using stay(2) [OF that] I(7) [OF that] by simp
  have "done": "Some (?es ! unat (fst (jobs ! k' ! j'))) = view_content h0 (snd (jobs ! k' ! j'))"
    if kj: "k' < length jobs" "j' < length (jobs ! k')" and lt: "j' < w_pc (?ws ! k')" for k' j'
  proof (cases "k' = k \<and> j' = pc")
    case True
    with lt kw w have "view_content h0 v = Some x" by auto
    with True j(2) i show ?thesis by simp
  next
    case False
    have "j' < w_pc (sys_workers s ! k')"
      using lt kw False w pc by (cases "k' = k") (auto simp: less_Suc_eq)
    from I(8) [OF kj this] other [OF kj] False show ?thesis by auto
  qed
  moreover have half: "half_set p' ?es (fst (jobs ! k' ! j')) (snd (jobs ! k' ! j')) d"
    if kj: "k' < length jobs" "j' < length (jobs ! k')" and at: "w_pc (?ws ! k') = j'" "w_dest (?ws ! k') = Some d"
    for k' j' d
  proof (cases "k' = k")
    case True
    with at kw w have "w' = \<lparr>w_pc = pc, w_dest = Some dest\<rparr>" "d = dest" "j' = pc" "half_set p' ?es i v dest"
      by auto
    with True j(2) show ?thesis by simp
  next
    case False
    with at have "half_set (sys_builder s) es (fst (jobs ! k' ! j')) (snd (jobs ! k' ! j')) d"
      using I(9) [OF kj] by simp
    moreover have "unat (fst (jobs ! k' ! j')) \<noteq> unat i" using other [OF kj] False by blast
    moreover have "rt_at (st_records (pb_store p')) (unat (fst (jobs ! k' ! j'))) =
        rt_at (st_records (pb_store (sys_builder s))) (unat (fst (jobs ! k' ! j')))"
      using rec range [OF kj] calculation(2) by blast
    ultimately show ?thesis by (simp add: half_set_def)
  qed
  moreover have "w_pc (?ws ! k') \<le> length (jobs ! k') \<and>
      (w_dest (?ws ! k') \<noteq> None \<longrightarrow> w_pc (?ws ! k') < length (jobs ! k'))" if "k' < length jobs" for k'
    using I(10,12) [OF that] kw w j(1) by (cases "k' = k") auto
  moreover have "?es ! m = es0 ! m"
    if "m < length es0" "\<forall>k < length jobs. \<forall>j < length (jobs ! k). unat (fst (jobs ! k ! j)) \<noteq> m" for m
  proof -
    have "m \<noteq> unat i" using that(2) k j by (metis fst_conv)
    moreover have "es ! m = es0 ! m" using I(11) [OF that(1)] that(2) by blast
    ultimately show ?thesis by simp
  qed
  ultimately show ?thesis
    using p' I(2-5) stay(1) view by (simp add: sys_inv_def Let_def)
qed

lemma par_copy_ok:
  assumes p: "par_holds p h es" and hs: "half_set p es i v dest" and i: "unat i < length es"
    and v: "view_content h v = Some e" and fo: "foreign (shards_owned (pb_shards p)) v"
  shows "\<exists>h'. memcpy h dest (sv_ptr v) (unat (scast (sv_len v) :: size_t)) = (Inr (), h') \<and>
    par_holds p h' (es[unat i := e]) \<and>
    (\<forall>b. b \<notin> shards_owned (pb_shards p) \<longrightarrow> blocks h b \<noteq> None \<longrightarrow> blocks h' b = blocks h b)"
proof -
  let ?w = "rt_at (st_records (pb_store p)) (unat i)" and ?ss = "pb_shards p"
  obtain xs where na: "\<not> strview_is_na v" and xs: "es ! unat i = Str xs (sv_enc v)" "length xs = unat (sv_len v)"
    and dest: "dest = sv_ptr ?w" using hs by (auto simp: half_set_def)
  obtain ys where ys: "e = Str ys (sv_enc v)" "unat (sv_len v) \<le> 2147483647"
    "mem_read h (sv_ptr v) (unat (sv_len v)) = Some ys"
    using v na by (cases e) (auto simp: view_content_NA view_content_Str)
  have l: "unat (scast (sv_len v) :: size_t) = unat (sv_len v)" using ys(2) by (rule unat_scast_nonneg)
  have "length ys = length xs" using length_mem_read [OF ys(3)] xs(2) by simp
  from par_write_late [OF p i xs(1) this] obtain h'
    where w: "mem_write h dest ys = Some h'" and p': "par_holds p h' (es[unat i := e])"
    unfolding dest ys(1) by blast
  have d: "pool_denotes ?ss (st_records (pb_store p)) h es" and len: "length es = vector_length (st_records (pb_store p))"
    using par_holdsD [OF p] by simp_all
  have "view_content h ?w = Some (es ! unat i) \<and> pool.rec_held ?ss h ?w"
    using pool_denotesD(2) [OF d] i len by (simp add: pool.good_def list_all2_conv_all_nth)
  then have "\<not> strview_is_na ?w" "rec_in (shards_owned ?ss) ?w"
    using xs(1) rec_held_in [OF pool_denotesD(5) [OF d]] by (auto simp: view_content_Str)
  then have own: "b \<in> shards_owned ?ss" if "ptr_blk dest = Some b" for b
    using that by (auto simp: rec_in_def dest)
  have "disjoint dest (unat (sv_len v)) (sv_ptr v) (unat (sv_len v))"
  proof (cases "ptr_blk dest")
    case None
    then show ?thesis by (cases dest) simp_all
  next
    case (Some b)
    then have "ptr_blk dest \<noteq> ptr_blk (sv_ptr v)" using own fo by (auto simp: foreign_def)
    then show ?thesis by (rule disjoint_blk)
  qed
  then have "memcpy h dest (sv_ptr v) (unat (scast (sv_len v) :: size_t)) = (Inr (), h')"
    using ys(3) w by (simp add: memcpy_def memmove_def l)
  moreover have "blocks h' b = blocks h b" if "b \<notin> shards_owned ?ss" for b
    using mem_write_frame [OF w] own that by blast
  ultimately show ?thesis using p' by blast
qed

lemma par_step_inv:
  assumes inv: "sys_inv jobs h0 es0 s es" and st: "par_step jobs s s'"
  shows "\<exists>es'. sys_inv jobs h0 es0 s' es'"
  using st
proof (cases rule: par_step.cases)
  case (step_begin k pc i v dest p' h' w')
  note I = sys_invD [OF inv]
  obtain e where e: "view_content (sys_heap s) v = Some e" "view_content h0 v = Some e"
    using jobs_okD(2) [OF I(6) step_begin(2,4,5)] I(7) [OF step_begin(2,4)] step_begin(5) by auto
  obtain x where x: "par_holds p' h' (es[unat i := x])"
    "if copy_due dest v then half_set p' (es[unat i := x]) i v dest else x = e"
    using par_begin_ok [OF I(1) e(1) step_begin(6)] by blast
  note b = par_begin_ok [OF I(1) e(1) step_begin(6)]
  have w: "w' = \<lparr>w_pc = pc, w_dest = Some dest\<rparr> \<and> half_set p' (es[unat i := x]) i v dest \<or>
      w' = \<lparr>w_pc = Suc pc, w_dest = None\<rparr> \<and> view_content h0 v = Some x"
    using x(2) e(2) step_begin(7) by (cases "copy_due dest v") simp_all
  have pc: "w_pc (sys_workers s ! k) = pc" using step_begin(3) by simp
  have "sys_inv jobs h0 es0 s' (es[unat i := x])"
    unfolding step_begin(1)
    by (rule sys_inv_update [OF inv step_begin(2) pc step_begin(4,5) x(1) _ _ _ _ w])
      (insert b, (elim conjE, assumption)+)
  then show ?thesis by blast
next
  case (step_copy k pc dest i v h')
  note I = sys_invD [OF inv]
  obtain e where e: "view_content (sys_heap s) v = Some e" "view_content h0 v = Some e"
    using jobs_okD(2) [OF I(6) step_copy(2,4,5)] I(7) [OF step_copy(2,4)] step_copy(5) by auto
  have pc: "w_pc (sys_workers s ! k) = pc" using step_copy(3) by simp
  have hs: "half_set (sys_builder s) es i v dest"
    using I(9) [OF step_copy(2,4) pc, of dest] step_copy(3,5) by simp
  have i: "unat i < length es" using jobs_okD(1) [OF I(6) step_copy(2,4,5)] I(2) by simp
  have "foreign (shards_owned (pb_shards (sys_builder s))) v"
    using jobs_okD(3) [OF I(6) step_copy(2,4,5)] hs by (simp add: half_set_def)
  from par_copy_ok [OF I(1) hs i e(1) this] step_copy(6)
  have p': "par_holds (sys_builder s) h' (es[unat i := e])"
    and fr: "\<forall>b. b \<notin> shards_owned (pb_shards (sys_builder s)) \<longrightarrow> blocks (sys_heap s) b \<noteq> None \<longrightarrow>
      blocks h' b = blocks (sys_heap s) b" by auto
  have "sys_inv jobs h0 es0 s' (es[unat i := e])"
    unfolding step_copy(1)
    by (rule sys_inv_update [OF inv step_copy(2) pc step_copy(4,5) p' _ fr, where dest = dest])
      (simp_all add: e)
  then show ?thesis by blast
qed

lemma par_steps_inv:
  "(par_step jobs)\<^sup>*\<^sup>* s s' \<Longrightarrow> sys_inv jobs h0 es0 s es \<Longrightarrow> \<exists>es'. sys_inv jobs h0 es0 s' es'"
  by (induction rule: rtranclp_induct) (auto dest: par_step_inv)

section \<open>What finished schedules produce\<close>

lemma sys_finished_result:
  assumes inv: "sys_inv jobs h0 es0 s es" and fin: "sys_finished jobs s"
  shows "es = jobs_result jobs h0 es0"
proof (rule nth_equalityI)
  note I = sys_invD [OF inv]
  show "length es = length (jobs_result jobs h0 es0)" using I(2) by (simp add: jobs_result_def)
  fix m
  assume "m < length es"
  then have m: "m < length es0" using I(2) by simp
  show "es ! m = jobs_result jobs h0 es0 ! m"
  proof (cases "List.find (\<lambda>job. unat (fst job) = m) (concat jobs)")
    case None
    have no: "unat (fst job) \<noteq> m" if "job \<in> set (concat jobs)" for job
      using None that unfolding find_None_iff by blast
    have "unat (fst (jobs ! k ! j)) \<noteq> m" if "k < length jobs" "j < length (jobs ! k)" for k j
      by (rule no) (use that nth_mem in \<open>fastforce\<close>)
    with I(11) [OF m] None m show ?thesis by (simp add: jobs_result_def)
  next
    case (Some job)
    then have job: "job \<in> set (concat jobs)" "unat (fst job) = m"
      by (auto simp: find_Some_iff dest: nth_mem)
    then obtain js where "js \<in> set jobs" "job \<in> set js" by auto
    then obtain k j where kj: "k < length jobs" "j < length (jobs ! k)" "jobs ! k ! j = job"
      by (metis in_set_conv_nth)
    have "j < w_pc (sys_workers s ! k)" using fin kj by (simp add: sys_finished_def)
    from I(8) [OF kj(1,2) this] kj(3) job(2) have "view_content h0 (snd job) = Some (es ! m)" by simp
    with Some m show ?thesis by (cases job) (simp add: jobs_result_def)
  qed
qed

section \<open>Progress and termination\<close>

lemma par_begin_fail:
  assumes p: "par_holds p h es" and v: "view_content h v = Some e" and k: "unat k < length (pb_shards p)"
    and i: "unat i < length es" and f: "par_begin p k i v h = (Inl e', p', h')"
  shows "\<exists>n m. \<not> can_alloc h n m"
proof (cases "strview_is_na v")
  case True
  with f have "par_reserve p k i 0 CETYPE_EXT_NA h = (Inl e', p', h')" by (simp add: par_begin_def)
  from par_reserve_ok [OF p this] k i show ?thesis by simp
next
  case False
  with f have f': "par_reserve p k i (scast (sv_len v)) (sv_enc v) h = (Inl e', p', h')"
    by (simp add: par_begin_def)
  have "unat (sv_len v) \<le> 2147483647"
    using v False by (cases e) (auto simp: view_content_NA view_content_Str)
  then have "unat (scast (sv_len v) :: size_t) \<le> 2147483647" by (simp add: unat_scast_nonneg)
  with par_reserve_ok [OF p f'] k i show ?thesis by simp
qed

lemma sum_strict_mono2_at:
  fixes f g :: "nat \<Rightarrow> nat"
  assumes "k < n" and "f k < g k" and "\<And>j. j < n \<Longrightarrow> j \<noteq> k \<Longrightarrow> f j = g j"
  shows "(\<Sum>j < n. f j) < (\<Sum>j < n. g j)"
  by (rule sum_strict_mono_ex1) (use assms in \<open>force+\<close>)

lemma sys_progress:
  assumes inv: "sys_inv jobs h0 es0 s es" and unfin: "\<not> sys_finished jobs s"
  shows "(\<exists>s'. par_step jobs s s') \<or> (\<exists>n m. \<not> can_alloc (sys_heap s) n m)"
proof -
  note I = sys_invD [OF inv]
  obtain k where k: "k < length jobs" "sys_workers s ! k \<noteq> \<lparr>w_pc = length (jobs ! k), w_dest = None\<rparr>"
    using unfin by (auto simp: sys_finished_def)
  obtain pc d where w: "sys_workers s ! k = \<lparr>w_pc = pc, w_dest = d\<rparr>" by (metis worker.surjective unit.exhaust)
  have pc: "pc < length (jobs ! k)"
  proof (rule ccontr)
    assume "\<not> pc < length (jobs ! k)"
    with I(10) [OF k(1)] w have "pc = length (jobs ! k)" by simp
    with k(2) w have "d \<noteq> None" by simp
    with I(12) [OF k(1)] w \<open>pc = length (jobs ! k)\<close> show False by simp
  qed
  obtain i v where iv: "jobs ! k ! pc = (i, v)" by fastforce
  obtain e where e: "view_content (sys_heap s) v = Some e" using jobs_okD(2) [OF I(6) k(1) pc iv] by blast
  have i: "unat i < length es" using jobs_okD(1) [OF I(6) k(1) pc iv] I(2) by simp
  show ?thesis
  proof (cases d)
    case None
    obtain r p' h' where b: "par_begin (sys_builder s) (of_nat k) i v (sys_heap s) = (r, p', h')"
      by (metis prod_cases3)
    show ?thesis
    proof (cases r)
      case (Inl e')
      have "k < 2 ^ 64" using k(1) I(5) by linarith
      then have "unat (of_nat k :: size_t) = k" by (simp add: unat_of_nat_u64)
      then have "unat (of_nat k :: size_t) < length (pb_shards (sys_builder s))" using k(1) I(4) by linarith
      from par_begin_fail [OF I(1) e this i b [unfolded Inl]] show ?thesis by blast
    next
      case (Inr dest)
      from step_begin [OF k(1) _ pc iv b [unfolded Inr] refl] w None show ?thesis by blast
    qed
  next
    case (Some dest)
    have hs: "half_set (sys_builder s) es i v dest"
      using I(9) [OF k(1) pc, of dest] w Some iv by simp
    have "foreign (shards_owned (pb_shards (sys_builder s))) v"
      using jobs_okD(3) [OF I(6) k(1) pc iv] hs by (simp add: half_set_def)
    from par_copy_ok [OF I(1) hs i e this] step_copy [OF k(1) _ pc iv, of s dest] w Some show ?thesis by blast
  qed
qed

lemma sys_left_decreases:
  assumes inv: "sys_inv jobs h0 es0 s es" and st: "par_step jobs s s'"
  shows "sys_left jobs s' < sys_left jobs s"
proof -
  note I = sys_invD [OF inv]
  have dec: "sys_left jobs s' < sys_left jobs s"
    if k: "k < length jobs" and ws: "sys_workers s' = (sys_workers s)[k := w']"
      and lt: "2 * (length (jobs ! k) - w_pc w') - (if w_dest w' = None then 0 else 1) <
        2 * (length (jobs ! k) - w_pc (sys_workers s ! k)) - (if w_dest (sys_workers s ! k) = None then 0 else 1)"
    for k w'
    unfolding sys_left_def
  proof (rule sum_strict_mono2_at [OF k])
    show "2 * (length (jobs ! j) - w_pc (sys_workers s' ! j)) - (if w_dest (sys_workers s' ! j) = None then 0 else 1) =
      2 * (length (jobs ! j) - w_pc (sys_workers s ! j)) - (if w_dest (sys_workers s ! j) = None then 0 else 1)"
      if "j < length jobs" "j \<noteq> k" for j using that by (simp add: ws)
  qed (use ws lt k I(3) in simp)
  from st show ?thesis
  proof (cases rule: par_step.cases)
    case (step_begin k pc i v dest p' h' w')
    show ?thesis by (rule dec [OF step_begin(2), of w']) (use step_begin in auto)
  next
    case (step_copy k pc dest i v h')
    show ?thesis by (rule dec [OF step_copy(2), of "\<lparr>w_pc = Suc pc, w_dest = None\<rparr>"]) (use step_copy in auto)
  qed
qed

section \<open>Properties\<close>

text \<open>C8. Schedule independence of \<open>ParallelBuilder\<close>: whatever order the workers' half calls
  take, once all jobs are done \<open>release_store\<close> gives a store with exactly the elements the
  jobs describe (the same for every schedule), owning all the shards' slices.\<close>

theorem parallel_schedule_independent:
  assumes "par_holds p h es" and "length jobs \<le> length (pb_shards p)" and "length jobs < 2 ^ 64"
    and "jobs_ok jobs (length es) h (shards_owned (pb_shards p))"
    and "(par_step jobs)\<^sup>*\<^sup>* (sys_start jobs p h) s" and "sys_finished jobs s"
  shows "store_holds (fst (par_release_store (sys_builder s))) (sys_heap s) (jobs_result jobs h es) \<and>
    set (st_slices (fst (par_release_store (sys_builder s)))) = shards_owned (pb_shards (sys_builder s))"
proof -
  obtain es' where inv: "sys_inv jobs h es s es'"
    using par_steps_inv [OF assms(5) sys_inv_start [OF assms(1-4)]] by blast
  obtain st p' where r: "par_release_store (sys_builder s) = (st, p')" by fastforce
  from par_release_ok [OF sys_invD(1) [OF inv] r] r sys_finished_result [OF inv assms(6)]
  show ?thesis by simp
qed

lemma par_begin_can_alloc: "par_begin p k i v h = (r, p', h') \<Longrightarrow> can_alloc h' = can_alloc h"
  by (auto simp: par_begin_def par_reserve_def dest: fill_record_can_alloc split: if_splits sum.splits prod.splits)

lemma par_step_can_alloc: "par_step jobs s s' \<Longrightarrow> can_alloc (sys_heap s') = can_alloc (sys_heap s)"
  by (induction rule: par_step.induct) (auto dest: par_begin_can_alloc memcpy_can_alloc)

lemma par_steps_can_alloc:
  "(par_step jobs)\<^sup>*\<^sup>* s s' \<Longrightarrow> can_alloc (sys_heap s') = can_alloc (sys_heap s)"
  by (induction rule: rtranclp_induct) (simp_all add: par_step_can_alloc)

lemma sys_can_finish:
  assumes "sys_inv jobs h0 es0 s es" and "\<And>n m. can_alloc (sys_heap s) n m"
  shows "\<exists>s'. (par_step jobs)\<^sup>*\<^sup>* s s' \<and> sys_finished jobs s'"
  using assms
proof (induction "sys_left jobs s" arbitrary: s es rule: less_induct)
  case less
  show ?case
  proof (cases "sys_finished jobs s")
    case True
    then show ?thesis by blast
  next
    case False
    then obtain s1 where s1: "par_step jobs s s1" using sys_progress [OF less.prems(1)] less.prems(2) by blast
    obtain es1 where "sys_inv jobs h0 es0 s1 es1" using par_step_inv [OF less.prems(1) s1] by blast
    moreover have "can_alloc (sys_heap s1) n m" for n m using less.prems(2) par_step_can_alloc [OF s1] by simp
    ultimately obtain s' where "(par_step jobs)\<^sup>*\<^sup>* s1 s'" "sys_finished jobs s'"
      using less.hyps [OF sys_left_decreases [OF less.prems(1) s1]] by blast
    with s1 show ?thesis by (meson converse_rtranclp_into_rtranclp)
  qed
qed

definition demo_par :: par_builder where
  "demo_par = \<lparr>pb_store = bd_store demo_builder, pb_shards = [shard_new, shard_new]\<rparr>"

definition demo_jobs :: "job list list" where
  "demo_jobs = [[(1, demo_view)], [(0, na_record)]]"

lemma demo_par_holds: "par_holds demo_par demo_heap [NA, NA]"
  by (simp add: par_holds_def demo_par_def demo_builder_def pool_denotes_def rt_ok_def max_capacity_value
      less_Suc_eq numeral_2_eq_2 pool.good_def shards_inv_def shard_inv_new rt_views_def rt_at_def
      pool.rec_held_def strview_is_na_def view_content_NA apart_def rec_apart_def na_record_def)

lemma demo_jobs_ok: "jobs_ok demo_jobs (length [NA, NA]) demo_heap (shards_owned (pb_shards demo_par))"
  by (simp add: jobs_ok_def demo_jobs_def less_Suc_eq demo_view_content demo_par_def
      shards_owned_def foreign_def na_record_def)

lemma demo_jobs_length: "length demo_jobs \<le> length (pb_shards demo_par)" "length demo_jobs < 2 ^ 64"
  by (simp_all add: demo_jobs_def demo_par_def)

lemma demo_can_alloc: "can_alloc demo_heap n m"
  by (simp add: demo_heap_def)

lemma demo_schedule:
  obtains s where "(par_step demo_jobs)\<^sup>*\<^sup>* (sys_start demo_jobs demo_par demo_heap) s"
    and "sys_finished demo_jobs s"
proof -
  have "can_alloc (sys_heap (sys_start demo_jobs demo_par demo_heap)) n m" for n m
    by (simp add: sys_start_def demo_can_alloc)
  from sys_can_finish [OF sys_inv_start [OF demo_par_holds demo_jobs_length demo_jobs_ok] this] that
  show ?thesis by blast
qed

theorem parallel_schedule_independent_witness:
  "\<exists>s. sys_finished demo_jobs s \<and>
     store_holds (fst (par_release_store (sys_builder s))) (sys_heap s) [NA, Str [104, 105] CETYPE_EXT_UTF8]"
proof -
  obtain s where s: "(par_step demo_jobs)\<^sup>*\<^sup>* (sys_start demo_jobs demo_par demo_heap) s"
    "sys_finished demo_jobs s" by (rule demo_schedule)
  have "jobs_result demo_jobs demo_heap [NA, NA] = [NA, Str [104, 105] CETYPE_EXT_UTF8]"
    by (simp add: jobs_result_def demo_jobs_def demo_view_content na_record_def upt_rec)
  with parallel_schedule_independent [OF demo_par_holds demo_jobs_length demo_jobs_ok s] s(2)
  show ?thesis by auto
qed

text \<open>C9. Liveness of the workers: each step leaves fewer half calls to do, so every schedule
  ends; while jobs are left some worker can step unless the allocator refuses a request (a copy
  never overlaps, never leaves its room and never faults); and if the allocator grants every
  request, every reachable state can be run to the end of all jobs.\<close>

theorem parallel_progress:
  assumes "par_holds p h es" and "length jobs \<le> length (pb_shards p)" and "length jobs < 2 ^ 64"
    and "jobs_ok jobs (length es) h (shards_owned (pb_shards p))"
    and "(par_step jobs)\<^sup>*\<^sup>* (sys_start jobs p h) s"
  shows "{s'. par_step jobs s s' \<and> sys_left jobs s \<le> sys_left jobs s'} = {} \<and>
    (sys_finished jobs s \<or> (\<exists>s'. par_step jobs s s') \<or> (\<exists>n m. \<not> can_alloc (sys_heap s) n m)) \<and>
    ((\<exists>n m. \<not> can_alloc h n m) \<or> (\<exists>s'. (par_step jobs)\<^sup>*\<^sup>* s s' \<and> sys_finished jobs s'))"
proof -
  obtain es' where inv: "sys_inv jobs h es s es'"
    using par_steps_inv [OF assms(5) sys_inv_start [OF assms(1-4)]] by blast
  have "can_alloc (sys_heap s) = can_alloc h"
    using par_steps_can_alloc [OF assms(5)] by (simp add: sys_start_def)
  then have "(\<exists>n m. \<not> can_alloc h n m) \<or> (\<exists>s'. (par_step jobs)\<^sup>*\<^sup>* s s' \<and> sys_finished jobs s')"
    using sys_can_finish [OF inv] by metis
  moreover have "{s'. par_step jobs s s' \<and> sys_left jobs s \<le> sys_left jobs s'} = {}"
    using sys_left_decreases [OF inv] by (auto simp: not_le)
  ultimately show ?thesis using sys_progress [OF inv] by blast
qed

theorem parallel_progress_witness:
  "\<exists>s'. (par_step demo_jobs)\<^sup>*\<^sup>* (sys_start demo_jobs demo_par demo_heap) s' \<and> sys_finished demo_jobs s'"
  using parallel_progress [OF demo_par_holds demo_jobs_length demo_jobs_ok rtranclp.rtrancl_refl] demo_can_alloc
  by blast

end
