(* ===== verification/Cp_Framework.thy ===== *)
theory Cp_Framework
  imports Cp_Client Cp_Borrow Cp_Growable Cp_Schedule
begin

text \<open>
  Crossing R's C frames: the adapters of \<open>interop/reader.h\<close> and \<open>charvec/builder.h\<close> for packages
  written with Rcpp or cpp11. Both frameworks run a callback below R's C frames and let R
  conditions through, but no C++ exception may leave the callback; the adapters catch it there,
  keep a description of it and raise that again above those frames.
\<close>

section \<open>Describing an exception\<close>

text \<open>
  The handler of \<open>describe_current_exception\<close> that takes an exception, in the order it tries them,
  and the class of each exception the modelled code throws. What \<open>std::bad_alloc\<close> says is the
  standard library's affair: \<open>oom\<close> below.
\<close>

datatype exception_class =
    Bad_alloc_class | Out_of_range_class | Logic_error_class | Runtime_error_class | Exception_class | Unknown_class

fun class_of :: "fault \<Rightarrow> exception_class" where
  "class_of Bad_alloc = Bad_alloc_class"
| "class_of (Out_of_range m) = Out_of_range_class"
| "class_of (Length_error m) = Logic_error_class"
| "class_of (Runtime_error m) = Runtime_error_class"
| "class_of f = Unknown_class"

fun exception_what :: "string \<Rightarrow> fault \<Rightarrow> string" where
  "exception_what oom (Out_of_range m) = m"
| "exception_what oom (Length_error m) = m"
| "exception_what oom (Runtime_error m) = m"
| "exception_what oom f = oom"

text \<open>A long jump of R is not an exception, and undefined behaviour cannot be caught.\<close>

fun catchable :: "fault \<Rightarrow> bool" where
  "catchable (R_error m) = False"
| "catchable Undefined = False"
| "catchable f = True"

text \<open>\<open>snprintf\<close> keeps what fits the buffer with its terminator.\<close>

definition snprintf_buffer :: "nat \<Rightarrow> string \<Rightarrow> string" where
  "snprintf_buffer sz s = take (sz - 1) s"

fun describe_current_exception :: "nat \<Rightarrow> exception_class \<Rightarrow> string \<Rightarrow> string" where
  "describe_current_exception sz Bad_alloc_class m = snprintf_buffer sz (''std::bad_alloc: '' @ m)"
| "describe_current_exception sz Out_of_range_class m = snprintf_buffer sz (''std::out_of_range: '' @ m)"
| "describe_current_exception sz Logic_error_class m = snprintf_buffer sz (''std::logic_error: '' @ m)"
| "describe_current_exception sz Runtime_error_class m = snprintf_buffer sz (''std::runtime_error: '' @ m)"
| "describe_current_exception sz Exception_class m = snprintf_buffer sz (''std::exception: '' @ m)"
| "describe_current_exception sz Unknown_class m = snprintf_buffer sz ''unknown C++ exception''"

section \<open>A call below R's frames\<close>

text \<open>The called function is \<open>fn\<close>, from the state \<open>'t\<close> it captures; \<open>nil\<close> is \<open>R_NilValue\<close>.\<close>

record framework_call_state =
  fc_failed :: bool
  fc_message :: string

definition framework_call_state_new :: framework_call_state where
  "framework_call_state_new = \<lparr>fc_failed = False, fc_message = ''''\<rparr>"

definition framework_call_body ::
    "string \<Rightarrow> 'v \<Rightarrow> ('t \<Rightarrow> (fault + 'v) \<times> 't) \<Rightarrow>
     framework_call_state \<times> 't \<Rightarrow> (fault + 'v) \<times> framework_call_state \<times> 't" where
  "framework_call_body oom nil fn = (\<lambda>(s, t).
     case fn t of
       (Inr v, t') \<Rightarrow> (Inr v, s, t')
     | (Inl e, t') \<Rightarrow>
         if \<not> catchable e then (Inl e, s, t')
         else
           (Inr nil,
            s\<lparr>fc_failed := True,
              fc_message := describe_current_exception 512 (class_of e) (exception_what oom e)\<rparr>,
            t'))"

definition finish_framework_call :: "framework_call_state \<Rightarrow> fault + unit" where
  "finish_framework_call s = (if fc_failed s then Inl (Runtime_error (fc_message s)) else Inr ())"

text \<open>
  \<open>Rcpp::unwindProtect\<close> and \<open>cpp11::unwind_protect\<close> are parameters of the model. Each runs its
  callback, returns the callback's value and continues an R condition raised in it. Nothing is
  relied on for a callback that lets a C++ exception out.
\<close>

type_synonym ('s, 'v) unwind_protector = "('s \<Rightarrow> (fault + 'v) \<times> 's) \<Rightarrow> 's \<Rightarrow> (fault + 'v) \<times> 's"

definition unwind_ok :: "('s, 'v) unwind_protector \<Rightarrow> bool" where
  "unwind_ok protect \<longleftrightarrow>
     (\<forall>body s. (case fst (body s) of Inr v \<Rightarrow> True | Inl e \<Rightarrow> (\<exists>m. e = R_error m)) \<longrightarrow> protect body s = body s)"

definition call_with_rcpp ::
    "(framework_call_state \<times> 't, 'v) unwind_protector \<Rightarrow> string \<Rightarrow> 'v \<Rightarrow> ('t \<Rightarrow> (fault + 'v) \<times> 't) \<Rightarrow> 't \<Rightarrow> (fault + 'v) \<times> 't" where
  "call_with_rcpp unwindProtect oom nil fn t =
     (case unwindProtect (framework_call_body oom nil fn) (framework_call_state_new, t) of
        (Inl e, s, t') \<Rightarrow> (Inl e, t')
      | (Inr out, s, t') \<Rightarrow> (and_then (finish_framework_call s) (\<lambda>u. Inr out), t'))"

definition call_with_cpp11 ::
    "(framework_call_state \<times> 't, 'v) unwind_protector \<Rightarrow> string \<Rightarrow> 'v \<Rightarrow> ('t \<Rightarrow> (fault + 'v) \<times> 't) \<Rightarrow> 't \<Rightarrow> (fault + 'v) \<times> 't" where
  "call_with_cpp11 unwind_protect oom nil fn t =
     (case unwind_protect (\<lambda>c. framework_call_body oom nil fn c) (framework_call_state_new, t) of
        (Inl e, s, t') \<Rightarrow> (Inl e, t')
      | (Inr out, s, t') \<Rightarrow> (and_then (finish_framework_call s) (\<lambda>u. Inr out), t'))"

section \<open>The adapters\<close>

text \<open>\<open>resolve\<close> of \<open>reader.h\<close>, from the static pointers and the state of R.\<close>

definition resolve ::
    "'x \<Rightarrow> ('c, 'n, 'g, 'u, 'x \<Rightarrow> 'w \<Rightarrow> (fault + ('s, 'f) charport_reader) \<times> 'w, 'i) dl_func callables \<times> 'w \<Rightarrow>
     (fault + ('s, 'f) charport_reader) \<times> ('c, 'n, 'g, 'u, 'x \<Rightarrow> 'w \<Rightarrow> (fault + ('s, 'f) charport_reader) \<times> 'w, 'i) dl_func callables \<times> 'w" where
  "resolve x = (\<lambda>(C, w).
     case resolve_wrapper C of
       (Inl e, C1) \<Rightarrow> (Inl e, C1, w)
     | (Inr fn, C1) \<Rightarrow> (case fn x w of (r, w1) \<Rightarrow> (r, C1, w1)))"

text \<open>The lambda assigns to the captured \<open>out\<close>.\<close>

definition resolve_into ::
    "('t \<Rightarrow> (fault + 'r) \<times> 't) \<Rightarrow> 'r \<times> 't \<Rightarrow> (fault + unit) \<times> 'r \<times> 't" where
  "resolve_into res = (\<lambda>(out, t).
     case res t of (Inl e, t') \<Rightarrow> (Inl e, out, t') | (Inr r, t') \<Rightarrow> (Inr (), r, t'))"

definition resolve_with_rcpp where
  "resolve_with_rcpp unwindProtect oom x t =
     (case call_with_rcpp unwindProtect oom () (resolve_into (resolve x)) (reader_default, t) of
        (Inl e, out, t') \<Rightarrow> (Inl e, t')
      | (Inr u, out, t') \<Rightarrow> (Inr out, t'))"

definition resolve_with_cpp11 where
  "resolve_with_cpp11 unwind_protect oom x t =
     (case call_with_cpp11 unwind_protect oom () (resolve_into (resolve x)) (reader_default, t) of
        (Inl e, out, t') \<Rightarrow> (Inl e, t')
      | (Inr u, out, t') \<Rightarrow> (Inr out, t'))"

text \<open>\<open>Reader::with_rcpp\<close> and \<open>Reader::with_cpp11\<close> construct a reader that owns the borrow.\<close>

definition reader_with_rcpp where
  "reader_with_rcpp unwindProtect oom x t = resolve_with_rcpp unwindProtect oom x t"

definition reader_with_cpp11 where
  "reader_with_cpp11 unwind_protect oom x t = resolve_with_cpp11 unwind_protect oom x t"

text \<open>
  \<open>to_sexp\<close> of the three builders as another package calls it: the finished store goes to the wrap
  callable. The state is the builder, the static pointers and the heap.
\<close>

definition wrap_finished ::
    "store \<times> ('c, 'n, 'g, 'u, 'r, 'i) dl_func callables \<times> heap \<Rightarrow>
     (fault + 'c charvec) \<times> store \<times> ('c, 'n, 'g, 'u, 'r, 'i) dl_func callables \<times> heap" where
  "wrap_finished = (\<lambda>(st, C, h). wrap_store C st h)"

definition client_builder_to_sexp where
  "client_builder_to_sexp = (\<lambda>(b, C, h).
     let b1 = builder_finish_store b
     in case wrap_finished (bd_store b1, C, h) of (r, st, C1, h1) \<Rightarrow> (r, b1\<lparr>bd_store := st\<rparr>, C1, h1))"

definition par_to_sexp where
  "par_to_sexp = (\<lambda>(p, C, h).
     let p1 = par_finish_store p
     in case wrap_finished (pb_store p1, C, h) of (r, st, C1, h1) \<Rightarrow> (r, p1\<lparr>pb_store := st\<rparr>, C1, h1))"

definition growable_to_sexp where
  "growable_to_sexp = (\<lambda>(g, C, h).
     let g1 = growable_finish_store g
     in case wrap_finished (gb_store g1, C, h) of (r, st, C1, h1) \<Rightarrow> (r, g1\<lparr>gb_store := st\<rparr>, C1, h1))"

definition wrap_with_rcpp where
  "wrap_with_rcpp unwindProtect oom nil t = call_with_rcpp unwindProtect oom nil wrap_finished t"

definition wrap_with_cpp11 where
  "wrap_with_cpp11 unwind_protect oom nil t = call_with_cpp11 unwind_protect oom nil wrap_finished t"

definition builder_to_sexp_with_rcpp where
  "builder_to_sexp_with_rcpp unwindProtect oom nil t = call_with_rcpp unwindProtect oom nil client_builder_to_sexp t"

definition par_to_sexp_with_rcpp where
  "par_to_sexp_with_rcpp unwindProtect oom nil t = call_with_rcpp unwindProtect oom nil par_to_sexp t"

definition growable_to_sexp_with_rcpp where
  "growable_to_sexp_with_rcpp unwindProtect oom nil t = call_with_rcpp unwindProtect oom nil growable_to_sexp t"

definition builder_to_sexp_with_cpp11 where
  "builder_to_sexp_with_cpp11 unwind_protect oom nil t = call_with_cpp11 unwind_protect oom nil client_builder_to_sexp t"

definition par_to_sexp_with_cpp11 where
  "par_to_sexp_with_cpp11 unwind_protect oom nil t = call_with_cpp11 unwind_protect oom nil par_to_sexp t"

definition growable_to_sexp_with_cpp11 where
  "growable_to_sexp_with_cpp11 unwind_protect oom nil t = call_with_cpp11 unwind_protect oom nil growable_to_sexp t"

section \<open>What a call gives\<close>

text \<open>The outcome of \<open>fn\<close> as the caller above R's frames sees it.\<close>

fun seen_above :: "string \<Rightarrow> fault + 'v \<Rightarrow> fault + 'v" where
  "seen_above oom (Inr v) = Inr v"
| "seen_above oom (Inl e) =
     (if \<not> catchable e then Inl e
      else Inl (Runtime_error (describe_current_exception 512 (class_of e) (exception_what oom e))))"

lemma catchable_cases:
  obtains "e = Undefined" "\<not> catchable e" | m where "e = R_error m" "\<not> catchable e" | "catchable e"
  by (cases e) auto

text \<open>The body lets no C++ exception out.\<close>

lemma framework_call_body_noexcept:
  assumes "fst (fn t) \<noteq> Inl Undefined"
  shows "case fst (framework_call_body oom nil fn (s, t)) of Inr v \<Rightarrow> True | Inl e \<Rightarrow> (\<exists>m. e = R_error m)"
proof (cases "fst (fn t)")
  case (Inl e)
  then show ?thesis
    using assms by (cases e rule: catchable_cases) (auto simp: framework_call_body_def split: prod.splits)
qed (auto simp: framework_call_body_def split: prod.splits)

lemma call_with_rcpp_contained:
  assumes p: "unwind_ok protect" and u: "fst (fn t) \<noteq> Inl Undefined"
  shows "call_with_rcpp protect oom nil fn t = (seen_above oom (fst (fn t)), snd (fn t))"
proof -
  let ?b = "framework_call_body oom nil fn" and ?s = "(framework_call_state_new, t)"
  have "protect ?b ?s = ?b ?s"
    using p framework_call_body_noexcept [where fn = fn and t = t and oom = oom and nil = nil and s = framework_call_state_new] u by (simp add: unwind_ok_def)
  then show ?thesis
    by (auto simp: call_with_rcpp_def framework_call_body_def finish_framework_call_def framework_call_state_new_def
        split: prod.splits sum.splits)
qed

lemma call_with_cpp11_rcpp: "call_with_cpp11 protect oom nil fn t = call_with_rcpp protect oom nil fn t"
  by (simp add: call_with_cpp11_def call_with_rcpp_def)

lemma describe_fits: "length (describe_current_exception sz c m) \<le> sz - 1"
  by (cases c) (simp_all add: snprintf_buffer_def del: append.simps append_Cons)

text \<open>A framework that undoes nothing: the callback's result, and undefined when an exception leaves it.\<close>

definition demo_protect :: "('s, 'v) unwind_protector" where
  "demo_protect body s =
     (case body s of
        (Inr v, s') \<Rightarrow> (Inr v, s')
      | (Inl e, s') \<Rightarrow> (Inl (if catchable e then Undefined else e), s'))"

lemma demo_protect_ok: "unwind_ok demo_protect"
  by (auto simp: unwind_ok_def demo_protect_def split: prod.splits sum.splits)

text \<open>C32. A call through either framework, whose callback cannot let a C++ exception out into R's C
  frames: it gives the value of the function, continues the R condition it raises, and turns the C++
  exception it throws into a \<open>std::runtime_error\<close> that describes it in at most 511 characters. The
  state is the one the function left.\<close>

theorem framework_call_contains:
  assumes "unwind_ok unwindProtect" and "unwind_ok unwind_protect" and "fn t = (r, t')" and "r \<noteq> Inl Undefined"
  shows "call_with_rcpp unwindProtect oom nil fn t = call_with_cpp11 unwind_protect oom nil fn t \<and>
    (case fst (framework_call_body oom nil fn (s, t)) of Inr v \<Rightarrow> True | Inl e \<Rightarrow> (\<exists>m. e = R_error m)) \<and>
    (case call_with_rcpp unwindProtect oom nil fn t of (r1, t1) \<Rightarrow>
       t1 = t' \<and>
       (case r of
          Inr v \<Rightarrow> r1 = Inr v
        | Inl e \<Rightarrow> (if \<exists>m. e = R_error m then r1 = Inl e
                   else \<exists>m. r1 = Inl (Runtime_error m) \<and> length m \<le> 511 \<and>
                     m = describe_current_exception 512 (class_of e) (exception_what oom e))))"
proof (intro conjI)
  have u: "fst (fn t) \<noteq> Inl Undefined" using assms(3,4) by simp
  note calls = call_with_rcpp_contained [where fn = fn and t = t, OF assms(1) u]
    call_with_rcpp_contained [where fn = fn and t = t, OF assms(2) u]
  show "call_with_rcpp unwindProtect oom nil fn t = call_with_cpp11 unwind_protect oom nil fn t"
    by (simp add: call_with_cpp11_rcpp calls)
  show "case fst (framework_call_body oom nil fn (s, t)) of Inr v \<Rightarrow> True | Inl e \<Rightarrow> (\<exists>m. e = R_error m)"
    by (rule framework_call_body_noexcept [where fn = fn and t = t, OF u])
  note bound = describe_fits [of 512, simplified]
  show "case call_with_rcpp unwindProtect oom nil fn t of (r1, t1) \<Rightarrow>
       t1 = t' \<and>
       (case r of
          Inr v \<Rightarrow> r1 = Inr v
        | Inl e \<Rightarrow> (if \<exists>m. e = R_error m then r1 = Inl e
                   else \<exists>m. r1 = Inl (Runtime_error m) \<and> length m \<le> 511 \<and>
                     m = describe_current_exception 512 (class_of e) (exception_what oom e)))"
  proof (cases r)
    case (Inl e)
    with assms(3,4) calls(1) bound show ?thesis
      by (cases e rule: catchable_cases) auto
  qed (use assms(3) calls(1) in simp)
qed

theorem framework_call_contains_witness:
  "call_with_rcpp demo_protect ''std::bad_alloc'' (0 :: nat) (\<lambda>n. (Inl (Out_of_range ''row 7''), Suc n)) 3 =
     (Inl (Runtime_error ''std::out_of_range: row 7''), 4 :: nat)"
  using framework_call_contains [OF demo_protect_ok demo_protect_ok, of "\<lambda>n. (Inl (Out_of_range ''row 7''), Suc n)" 3
      "Inl (Out_of_range ''row 7'')" 4 "''std::bad_alloc''" "0 :: nat" framework_call_state_new]
  by (simp add: snprintf_buffer_def case_prod_beta prod_eq_iff call_with_cpp11_rcpp)

text \<open>A reader through either framework is the one \<open>charport_resolve\<close> gives, or its failure as seen above.\<close>

lemma reader_with_resolves:
  assumes l: "linked (charport_registry_init R le native reg unreg res info T) C" and p: "unwind_ok protect"
    and r: "res x w = (r, w')" and u: "r \<noteq> Inl Undefined"
  obtains C' where "linked (charport_registry_init R le native reg unreg res info T) C'"
    and "reader_with_rcpp protect oom x (C, w) = (seen_above oom r, C', w')"
    and "reader_with_cpp11 protect oom x (C, w) = (seen_above oom r, C', w')"
proof -
  obtain C' where f: "resolve_wrapper C = (Inr res, C')"
    and l': "linked (charport_registry_init R le native reg unreg res info T) C'"
    using resolve_wrapper.reaches [OF l] unfolding resolve_wrapper_def by blast
  have s: "resolve x (C, w) = (r, C', w')" using r by (simp add: resolve_def f)
  have body: "resolve_into (resolve x) (reader_default, C, w) =
      (case r of Inl e \<Rightarrow> (Inl e, reader_default, C', w') | Inr v \<Rightarrow> (Inr (), v, C', w'))"
    using s by (simp add: resolve_into_def)
  have "fst (resolve_into (resolve x) (reader_default, C, w)) \<noteq> Inl Undefined"
    unfolding body using u by (auto split: sum.splits)
  note call = call_with_rcpp_contained [where fn = "resolve_into (resolve x)" and t = "(reader_default, C, w)", OF p this]
  have "reader_with_rcpp protect oom x (C, w) = (seen_above oom r, C', w')"
    by (cases r) (auto simp: reader_with_rcpp_def resolve_with_rcpp_def call body)
  moreover have "reader_with_cpp11 protect oom x (C, w) = (seen_above oom r, C', w')"
    by (cases r) (auto simp: reader_with_cpp11_def resolve_with_cpp11_def call_with_cpp11_rcpp call body)
  ultimately show thesis using that l' by blast
qed

section \<open>Handing a finished builder over\<close>

text \<open>
  The outcome of \<open>to_sexp\<close> on a builder whose finished store \<open>st\<close> holds \<open>es\<close>: an instance of those
  strings that owns the store, which is left empty, or an R error (an allocation was refused) that
  leaves the store with the builder.
\<close>

definition hands_over where
  "hands_over R C0 st h es r st' C' h' \<longleftrightarrow>
     linked C0 C' \<and> blocks h' = blocks h \<and> can_alloc h' = can_alloc h \<and>
     (case r of
        Inl e \<Rightarrow> (\<exists>m. e = R_error m) \<and> (\<exists>k m. \<not> can_alloc h k m) \<and> st' = st \<and> store_private st h' es
      | Inr v \<Rightarrow> v = new_charvec (Some st) \<and> st' = store_empty \<and> charvec_holds R v h' (map (charsxp_of R) es))"

lemma MoveStore_hands_over:
  assumes p: "store_private st h es" and m: "MoveStore (Some st) h = (r, st', h')" and l: "linked C0 C'"
  shows "hands_over R C0 st h es r (the st') C' h'"
proof -
  obtain q h1 where s: "make_shell h = (q, h1)" by fastforce
  note sh = make_shell_ok [OF s]
  note kept = private_same [OF p]
  show ?thesis
  proof (cases q)
    case (Inl e)
    then show ?thesis using m s sh l kept [of h1] by (auto simp: MoveStore_def hands_over_def) blast
  next
    case (Inr u)
    obtain ok h2 where a: "try_alloc 48 h1 = (ok, h2)" by fastforce
    then have h2: "blocks h2 = blocks h" "next_blk h2 = next_blk h" "can_alloc h2 = can_alloc h" "ok = can_alloc h (attempts h1) 48"
      using sh by (auto simp: try_alloc_def)
    note new = new_charvec_holds [OF kept [OF h2(1,2)], of R] 
    show ?thesis
    proof (cases ok)
      case True
      then show ?thesis using m s Inr a h2 l new by (auto simp: MoveStore_def hands_over_def)
    next
      case False
      then have "\<exists>k m. \<not> can_alloc h k m" using h2(4) by blast
      then show ?thesis using False m s Inr a h2 l kept [OF h2(1,2)] by (auto simp: MoveStore_def hands_over_def) blast
    qed
  qed
qed

lemma wrap_finished_hands_over:
  fixes R :: "'c r_strings"
  assumes "linked (charport_registry_init R le native reg unreg res info T) C" and "store_private st h es"
  shows "case wrap_finished (st, C, h) of
      (r, st', C', h') \<Rightarrow> hands_over R (charport_registry_init R le native reg unreg res info T) st h es r st' C' h'"
proof -
  obtain C1 where f: "wrap_callable C = (Inr charport_charvec_wrap, C1)"
    and l: "linked (charport_registry_init R le native reg unreg res info T) C1"
    using wrap_wrapper.reaches [OF assms(1)] unfolding wrap_callable_def by blast
  obtain r :: "fault + 'c charvec" and st' h' where m: "MoveStore (Some st) h = (r, st', h')" by (metis prod_cases3)
  show ?thesis
    using MoveStore_hands_over [OF assms(2) m l] m by (simp add: wrap_finished_def wrap_store_def f charport_charvec_wrap_def)
qed

text \<open>The store a builder finishes with is private.\<close>

lemma pool_finished_private:
  assumes d: "pool_denotes ss t h es" and s: "store_holds st h es" and t: "st_records st = t"
  shows "store_private st h es"
  using pool_denotesD(3) [OF d] s t by (simp add: store_private_def)

lemma growable_finished_private:
  assumes g: "growable_holds g h es"
  shows "store_private (gb_store (growable_finish_store g)) h es"
proof -
  have d: "pool_denotes [gb_shard g] (st_records (gb_store g)) h es" using g by (simp add: growable_holds_def)
  show ?thesis
    using growable_release_ok [OF g] by (intro pool_finished_private [OF d])
      (auto simp: growable_release_store_def growable_finish_store_def Let_def split: prod.splits)
qed

lemma par_finished_private:
  assumes p: "par_holds p h es"
  shows "store_private (pb_store (par_finish_store p)) h es"
  using par_release_ok [OF p] by (intro pool_finished_private [OF par_holdsD(1) [OF p]])
    (auto simp: par_release_store_def par_finish_store_def Let_def)

lemma builder_finished_private:
  assumes b: "builder_holds b h es"
  shows "store_private (bd_store (builder_finish_store b)) h es"
  using builder_release_private [OF b] by (simp add: builder_release_store_def Let_def)

lemma handed_over_passes: "hands_over R C0 st h es r st' C' h' \<Longrightarrow> seen_above oom r = r \<and> r \<noteq> Inl Undefined"
  by (cases r) (auto simp: hands_over_def)

lemma growable_to_sexp_hands_over:
  assumes l: "linked (charport_registry_init R le native reg unreg res info T) C" and g: "growable_holds g h es"
    and s: "growable_to_sexp (g, C, h) = (r, g', C', h')"
  shows "gb_shard g' = shard_new \<and>
    hands_over R (charport_registry_init R le native reg unreg res info T) (gb_store (growable_finish_store g)) h es r
      (gb_store g') C' h'"
  using wrap_finished_hands_over [OF l growable_finished_private [OF g]] s
  by (auto simp: growable_to_sexp_def growable_finish_store_def Let_def split: prod.splits)

lemma par_to_sexp_hands_over:
  assumes l: "linked (charport_registry_init R le native reg unreg res info T) C" and p: "par_holds p h es"
    and s: "par_to_sexp (p, C, h) = (r, p', C', h')"
  shows "pb_shards p' = replicate (length (pb_shards p)) shard_new \<and>
    hands_over R (charport_registry_init R le native reg unreg res info T) (pb_store (par_finish_store p)) h es r
      (pb_store p') C' h'"
  using wrap_finished_hands_over [OF l par_finished_private [OF p]] s
  by (auto simp: par_to_sexp_def par_finish_store_def Let_def map_replicate_const split: prod.splits)

lemma builder_to_sexp_hands_over:
  assumes l: "linked (charport_registry_init R le native reg unreg res info T) C" and b: "builder_holds b h es"
    and s: "client_builder_to_sexp (b, C, h) = (r, b', C', h')"
  shows "bd_shard b' = shard_new \<and>
    hands_over R (charport_registry_init R le native reg unreg res info T) (bd_store (builder_finish_store b)) h es r
      (bd_store b') C' h'"
  using wrap_finished_hands_over [OF l builder_finished_private [OF b]] s
  by (auto simp: client_builder_to_sexp_def builder_finish_store_def Let_def split: prod.splits)

text \<open>Either framework passes such a call on.\<close>

lemma frameworks_pass:
  assumes "unwind_ok unwindProtect" and "unwind_ok unwind_protect"
    and "fn t = (r, t')" and "seen_above oom r = r \<and> r \<noteq> Inl Undefined"
  shows "call_with_rcpp unwindProtect oom nil fn t = fn t \<and> call_with_cpp11 unwind_protect oom nil fn t = fn t"
proof -
  have "fst (fn t) \<noteq> Inl Undefined" using assms(3,4) by simp
  note calls = call_with_rcpp_contained [where fn = fn and t = t, OF assms(1) this]
    call_with_rcpp_contained [where fn = fn and t = t, OF assms(2) this]
  show ?thesis using assms(3,4) by (simp add: call_with_cpp11_rcpp calls)
qed

text \<open>C31. Handing a builder of any of the three kinds over from another package, through Rcpp or through
  cpp11: either framework call gives what \<open>to_sexp\<close> itself gives, and that is a charvec of exactly
  the builder's elements which owns its finished store, the builder being left empty; or an R error,
  only when an allocation is refused, after which the builder's store still holds every element
  and no byte changed. (The frameworks' functions are templates: one instance per kind of callback.)\<close>

theorem to_sexp_hands_over:
  assumes "linked (charport_registry_init R le native reg unreg res info T) C"
    and "builder_holds b h ds" and "growable_holds g h es" and "par_holds p h fs"
    and "unwind_ok unwindProtect_b" and "unwind_ok unwind_protect_b" and "unwind_ok unwindProtect_g"
    and "unwind_ok unwind_protect_g" and "unwind_ok unwindProtect_p" and "unwind_ok unwind_protect_p"
  shows "(case client_builder_to_sexp (b, C, h) of (r, b', C', h') \<Rightarrow>
      builder_to_sexp_with_rcpp unwindProtect_b oom nil (b, C, h) = (r, b', C', h') \<and>
      builder_to_sexp_with_cpp11 unwind_protect_b oom nil (b, C, h) = (r, b', C', h') \<and> bd_shard b' = shard_new \<and>
      hands_over R (charport_registry_init R le native reg unreg res info T) (bd_store (builder_finish_store b)) h ds r
        (bd_store b') C' h') \<and>
    (case growable_to_sexp (g, C, h) of (r, g', C', h') \<Rightarrow>
      growable_to_sexp_with_rcpp unwindProtect_g oom nil (g, C, h) = (r, g', C', h') \<and>
      growable_to_sexp_with_cpp11 unwind_protect_g oom nil (g, C, h) = (r, g', C', h') \<and> gb_shard g' = shard_new \<and>
      hands_over R (charport_registry_init R le native reg unreg res info T) (gb_store (growable_finish_store g)) h es r
        (gb_store g') C' h') \<and>
    (case par_to_sexp (p, C, h) of (r, p', C', h') \<Rightarrow>
      par_to_sexp_with_rcpp unwindProtect_p oom nil (p, C, h) = (r, p', C', h') \<and>
      par_to_sexp_with_cpp11 unwind_protect_p oom nil (p, C, h) = (r, p', C', h') \<and>
      pb_shards p' = replicate (length (pb_shards p)) shard_new \<and>
      hands_over R (charport_registry_init R le native reg unreg res info T) (pb_store (par_finish_store p)) h fs r
        (pb_store p') C' h')"
proof (intro conjI)
  obtain r b' C' h' where s: "client_builder_to_sexp (b, C, h) = (r, b', C', h')" by (metis prod_cases4)
  note ok = builder_to_sexp_hands_over [OF assms(1,2) s]
  show "case client_builder_to_sexp (b, C, h) of (r, b', C', h') \<Rightarrow>
      builder_to_sexp_with_rcpp unwindProtect_b oom nil (b, C, h) = (r, b', C', h') \<and>
      builder_to_sexp_with_cpp11 unwind_protect_b oom nil (b, C, h) = (r, b', C', h') \<and> bd_shard b' = shard_new \<and>
      hands_over R (charport_registry_init R le native reg unreg res info T) (bd_store (builder_finish_store b)) h ds r
        (bd_store b') C' h'"
    using ok frameworks_pass [where fn = client_builder_to_sexp, OF assms(5,6) s handed_over_passes [OF conjunct2 [OF ok]]]
    by (simp add: s builder_to_sexp_with_rcpp_def builder_to_sexp_with_cpp11_def)
next
  obtain r g' C' h' where s: "growable_to_sexp (g, C, h) = (r, g', C', h')" by (metis prod_cases4)
  note ok = growable_to_sexp_hands_over [OF assms(1,3) s]
  show "case growable_to_sexp (g, C, h) of (r, g', C', h') \<Rightarrow>
      growable_to_sexp_with_rcpp unwindProtect_g oom nil (g, C, h) = (r, g', C', h') \<and>
      growable_to_sexp_with_cpp11 unwind_protect_g oom nil (g, C, h) = (r, g', C', h') \<and> gb_shard g' = shard_new \<and>
      hands_over R (charport_registry_init R le native reg unreg res info T) (gb_store (growable_finish_store g)) h es r
        (gb_store g') C' h'"
    using ok frameworks_pass [where fn = growable_to_sexp, OF assms(7,8) s handed_over_passes [OF conjunct2 [OF ok]]]
    by (simp add: s growable_to_sexp_with_rcpp_def growable_to_sexp_with_cpp11_def)
next
  obtain r p' C' h' where s: "par_to_sexp (p, C, h) = (r, p', C', h')" by (metis prod_cases4)
  note ok = par_to_sexp_hands_over [OF assms(1,4) s]
  show "case par_to_sexp (p, C, h) of (r, p', C', h') \<Rightarrow>
      par_to_sexp_with_rcpp unwindProtect_p oom nil (p, C, h) = (r, p', C', h') \<and>
      par_to_sexp_with_cpp11 unwind_protect_p oom nil (p, C, h) = (r, p', C', h') \<and>
      pb_shards p' = replicate (length (pb_shards p)) shard_new \<and>
      hands_over R (charport_registry_init R le native reg unreg res info T) (pb_store (par_finish_store p)) h fs r
        (pb_store p') C' h'"
    using ok frameworks_pass [where fn = par_to_sexp, OF assms(9,10) s handed_over_passes [OF conjunct2 [OF ok]]]
    by (simp add: s par_to_sexp_with_rcpp_def par_to_sexp_with_cpp11_def)
qed

text \<open>A builder of each kind in one heap, the growable one with a string.\<close>

lemma demo_holds_any:
  assumes "heap_ok h"
  shows "builder_holds demo_builder h [NA, NA]" and "par_holds demo_par h [NA, NA]"
  using assms
  by (simp_all add: builder_holds_def par_holds_def demo_par_def demo_builder_def pool_denotes_def rt_ok_def max_capacity_value
      less_Suc_eq numeral_2_eq_2 pool.good_def shards_inv_def shard_inv_new rt_views_def rt_at_def
      pool.rec_held_def strview_is_na_def view_content_NA apart_def rec_apart_def na_record_def)

lemma growable_append_reserve_can_alloc:
  "growable_append_reserve g l c h = (r, g', h') \<Longrightarrow> can_alloc h' = can_alloc h"
  by (auto simp: growable_append_reserve_def dest!: rt_reserve_for_append_can_alloc allocate_bytes_can_alloc
      split: sum.splits prod.splits if_splits)

lemma growable_append_view_can_alloc:
  "growable_append_view g v h = (r, g', h') \<Longrightarrow> can_alloc h' = can_alloc h"
  by (auto simp: growable_append_view_def growable_append_def dest!: growable_append_reserve_can_alloc memcpy_can_alloc
      split: sum.splits prod.splits if_splits)

lemma demo_growable:
  obtains g h where "growable_holds g h [Str [104, 105] CETYPE_EXT_UTF8]" and "\<And>n m. can_alloc h n m"
proof -
  obtain r g h where f: "growable_append_view growable_new demo_view demo_heap = (r, g, h)" by (metis prod_cases3)
  have alloc: "can_alloc demo_heap n m" for n m by (simp add: demo_heap_def)
  then have alloc': "can_alloc h n m" for n m using growable_append_view_can_alloc [OF f] by simp
  have "foreign (shard_owned (gb_shard growable_new)) demo_view" by (simp add: growable_new_def foreign_def)
  from growable_append_view_ok [OF growable_holds_new [OF heap_ok_demo] demo_view_content this] f alloc
  have "growable_holds g h [Str [104, 105] CETYPE_EXT_UTF8]"
    by (cases r) (auto simp: growable_appends_def growable_fails_def max_capacity_value)
  then show ?thesis using that alloc' by blast
qed

theorem to_sexp_hands_over_witness:
  "\<exists>g h v g' C' h' v2 p' C2 h2 v3 b' C3 h3.
     growable_to_sexp_with_rcpp demo_protect ''std::bad_alloc'' (new_charvec None) (g, demo_callables, h) =
       (Inr v, g', C', h') \<and>
     charvec_holds demo_R v h' (map (charsxp_of demo_R) [Str [104, 105] CETYPE_EXT_UTF8]) \<and> gb_store g' = store_empty \<and>
     par_to_sexp_with_cpp11 demo_protect ''std::bad_alloc'' (new_charvec None) (demo_par, demo_callables, h) =
       (Inr v2, p', C2, h2) \<and> charvec_holds demo_R v2 h2 (map (charsxp_of demo_R) [NA, NA]) \<and> pb_store p' = store_empty \<and>
     builder_to_sexp_with_cpp11 demo_protect ''std::bad_alloc'' (new_charvec None) (demo_builder, demo_callables, h) =
       (Inr v3, b', C3, h3) \<and> charvec_holds demo_R v3 h3 (map (charsxp_of demo_R) [NA, NA]) \<and> bd_store b' = store_empty"
proof -
  obtain g h where g: "growable_holds g h [Str [104, 105] CETYPE_EXT_UTF8]" and alloc: "\<And>n m. can_alloc h n m"
    by (rule demo_growable) blast
  have h: "heap_ok h" using g pool_denotesD(5) by (auto simp: growable_holds_def shards_inv_def)
  note prot = demo_protect_ok demo_protect_ok demo_protect_ok demo_protect_ok demo_protect_ok demo_protect_ok
  note spec = to_sexp_hands_over [OF demo_linked demo_holds_any(1) [OF h] g demo_holds_any(2) [OF h] prot,
      where oom = "''std::bad_alloc''" and nil = "new_charvec None"]
  have given: "\<exists>v. r = Inr v \<and> charvec_holds demo_R v h' (map (charsxp_of demo_R) es) \<and> st' = store_empty"
    if "hands_over demo_R C0 st h es r st' C' h'" for C0 st es r st' C' h'
    using that alloc by (cases r) (auto simp: hands_over_def)
  obtain r g' C1 h1 where g1: "growable_to_sexp (g, demo_callables, h) = (r, g', C1, h1)" by (metis prod_cases4)
  obtain q p' C2 h2 where p1: "par_to_sexp (demo_par, demo_callables, h) = (q, p', C2, h2)" by (metis prod_cases4)
  obtain t b' C3 h3 where b1: "client_builder_to_sexp (demo_builder, demo_callables, h) = (t, b', C3, h3)"
    by (metis prod_cases4)
  note spec = spec [unfolded g1 p1 b1 prod.case]
  obtain v v2 v3 where v: "r = Inr v" "q = Inr v2" "t = Inr v3"
    and held: "charvec_holds demo_R v h1 (map (charsxp_of demo_R) [Str [104, 105] CETYPE_EXT_UTF8])" "gb_store g' = store_empty"
      "charvec_holds demo_R v2 h2 (map (charsxp_of demo_R) [NA, NA])" "pb_store p' = store_empty"
      "charvec_holds demo_R v3 h3 (map (charsxp_of demo_R) [NA, NA])" "bd_store b' = store_empty"
    using spec given by metis
  show ?thesis
    using spec held unfolding v by (intro exI conjI) blast+
qed

end
