(* ===== verification/Spec2Isabelle.thy ===== *)
theory Spec2Isabelle
  imports Cp_Moves Cp_Writer Cp_Room Cp_Sharing Cp_Unserialize Cp_Entry Cp_Query Cp_Framework
begin

text \<open>
  A verification development of charport, an R package (C++ below \<open>src/src/\<close> and header-only client
  code below \<open>src/inst/include/charport/\<close>, here \<open>INC/\<close>) that lets packages read and build
  character vectors without making R strings of them.

  \<^bold>\<open>The program.\<close> A \<^emph>\<open>store\<close> (\<open>INC/charvec/store.h\<close>) is a table of records (pointer, length,
  encoding) over a chain of payload slices. \<^emph>\<open>Builders\<close> (\<open>INC/charvec/builder.h\<close>) and a
  \<^emph>\<open>writer\<close> (\<open>INC/charvec/writer.h\<close>) fill stores. \<^emph>\<open>charvec\<close> (\<open>src/charvec_altrep.h\<close>,
  \<open>src/charvec_api.cpp\<close>) is the ALTREP class that shows R a store as a character vector: it makes
  elements on demand into a chunked cache, assigns, subsets, duplicates, compacts, serializes, and
  at the latest when R asks for a data pointer becomes an ordinary vector. \<^emph>\<open>charpack\<close>
  (\<open>src/charpack_altrep.h\<close>, \<open>src/charpack_api.cpp\<close>, \<open>INC/charpack.h\<close>) is a second class, whose
  strings are one raw vector that is also its serialized form. The \<^emph>\<open>broker\<close>
  (\<open>src/charport_registry.cpp\<close>) keeps the registered classes with their callbacks and resolves a
  character vector to a \<^emph>\<open>reader\<close> (\<open>INC/interop/reader.h\<close>): callbacks of a registered class, or
  R's own storage. Other packages reach all of it through C callables and the inline wrappers of the
  headers, and through adapters for the frameworks Rcpp and cpp11.

  \<^bold>\<open>How it is modelled.\<close> Machine integers are words (\<open>size_t\<close> and \<open>R_xlen_t\<close> of 64 bits, \<open>int\<close> of
  32); \<open>fault\<close> has a constructor for each kind of exception the code throws, one for R errors and
  \<open>Undefined\<close> for undefined behaviour, and operations return \<open>fault + 'a\<close> with the state they leave.
  Byte memory is a heap of blocks (\<open>Cp_Heap\<close>); every read and write is checked, and \<open>can_alloc\<close>, a
  parameter of the heap, says which request of the run is refused, so the theorems hold for every
  pattern of allocation failures. R's strings (\<open>r_strings\<close>), R's vectors and classes (\<open>r_vectors\<close>) and
  the frameworks' unwind functions are parameters; what the code relies on of them is a named
  hypothesis in the theory that introduces them (\<open>r_strings_ok\<close>, \<open>unwind_ok\<close>, ...).

  \<^bold>\<open>Theories, in the order of the code.\<close>
  \<^item> \<open>Cp_Prelude\<close>: machine integers, \<open>fault\<close>, loops that may throw, lemmas on words and lists.
  \<^item> \<open>Cp_Heap\<close>: blocks, pointers, \<open>memcpy\<close>, \<open>memmove\<close>, \<open>operator new\<close>; framing lemmas.
  \<^item> \<open>Cp_Types\<close> (\<open>INC/interop/types.h\<close>): status codes, encoding tags, byte and string views and
    their equality; \<open>element\<close>, the meaning of a view.
  \<^item> \<open>Cp_Detail\<close> (\<open>INC/charvec/detail.h\<close>): both ASCII scans and their agreement, checked sizes,
    \<open>next_power_of_two\<close> with its termination.
  \<^item> \<open>Cp_Slices\<close> (\<open>SliceChain\<close>): the pointer code over \<open>next\<close> fields, the locale \<open>slice_chain\<close>, and
    its interpretations by that code (\<open>linked\<close>) and by lists (\<open>listed\<close>): every later theory uses lists.
  \<^item> \<open>Cp_Records\<close> (\<open>RecordTable\<close>): the three arrays, growth, geometric capacity.
  \<^item> \<open>Cp_Store\<close> (\<open>Store\<close>): construction, access, what a store holds; the locale \<open>region_allocator\<close>,
    the contract under which records stay apart, proved once and interpreted by every allocator.
    \<open>Cp_Moves\<close>: moves and copies of stores and their members.
  \<^item> \<open>Cp_Shard\<close>, \<open>Cp_Fill\<close> (\<open>builder_detail\<close>): slice sizes, \<open>allocate_bytes\<close>, \<open>fill_record\<close>,
    \<open>copy_record\<close>, and what they do to a pool of shards (interpretations \<open>shard\<close>, \<open>pool\<close>).
  \<^item> \<open>Cp_Builder\<close>, \<open>Cp_Growable\<close>, \<open>Cp_Parallel\<close>: the three builders. \<open>Cp_Room\<close>: what a caller of
    \<open>Builder::reserve\<close> may rely on while it makes other calls. \<open>Cp_Schedule\<close>: one thread per
    shard as a step relation; every interleaving ends in the same contents, and some step is
    possible until all jobs are done.
  \<^item> \<open>Cp_Writer\<close> (\<open>Writer\<close>): room, sets, copies between stores (interpretation \<open>wr\<close>).
  \<^item> \<open>Cp_Wire\<close>: byte swaps and words in either byte order. \<open>Cp_Charsxp\<close>: R strings as views.
  \<^item> \<open>Cp_Serialize\<close>, \<open>Cp_Roundtrip\<close>: charvec's two serialized formats; parsing any bytes, rebuilding
    the store, writing.
  \<^item> \<open>Cp_Rebuild\<close>, \<open>Cp_Assign\<close>, \<open>Cp_Subset\<close>: copying and compacting stores, assigning an element
    (interpretation \<open>chain\<close>), building from R strings and by subscripts. \<open>Cp_Sharing\<close>: assignment when
    records share their bytes.
  \<^item> \<open>Cp_Charvec\<close>: the instance and its refinement of a plain list of strings. \<open>Cp_Wrap\<close>: handing
    stores to R and taking them back, and the entry points of \<open>charvec_api.cpp\<close>. \<open>Cp_Unserialize\<close>:
    \<open>Unserialize\<close> up to the wrapped instance, and the round trip between hosts.
  \<^item> \<open>Cp_Access\<close>: the reader ABI, \<open>Reader\<close>'s accessors and iteration, and the locale
    \<open>reader_provider\<close>, what a provider of callbacks promises. \<open>Cp_Borrow\<close>: who releases a borrow.
  \<^item> \<open>Cp_Provider\<close>: charvec and R storage as providers. \<open>Cp_Registry\<close>: registering, resolving,
    unwrapping of base R wrappers, queries. A class's \<open>init\<close> may raise an R error, and nothing is
    assumed of what base R keeps in its wrappers. \<open>Cp_Query\<close>: materializing an object of either class, the
    info list and the probe of the native encoding.
  \<^item> \<open>Cp_Pack\<close>, \<open>Cp_Packread\<close>: charpack's layout, its reader callbacks and its registration.
    \<open>Cp_Packfill\<close>: \<open>fill_views\<close>, \<open>fill_slices\<close>. \<open>Cp_Packstate\<close>: validating and converting a state.
    \<open>Cp_Packvec\<close>: the instance as R sees it. \<open>Cp_Packsub\<close>: subsetting. \<open>Cp_Entry\<close>: the entry points of
    \<open>charpack_api.cpp\<close> that R code calls.
  \<^item> \<open>Cp_Load\<close>: loading the package, the table of C callables. \<open>Cp_Client\<close>: the inline wrappers, each
    an interpretation of the locale \<open>header_wrapper\<close>, and \<open>charpack.h\<close>. \<open>Cp_Framework\<close>: calls through
    Rcpp and cpp11, and \<open>to_sexp\<close> of the three builders from another package.

  \<^bold>\<open>What is shown.\<close> Each container denotes a list of elements (\<open>store_holds\<close>, \<open>builder_holds\<close>,
  \<open>growable_holds\<close>, \<open>par_holds\<close>, \<open>charvec_holds\<close>, \<open>charpack_holds\<close>); each operation is shown to do to
  that list what it promises, on every branch, to touch no byte but its own, never to reach
  \<open>Undefined\<close>, and to fail only where the code says so or where an allocation was refused, leaving
  the contents. charvec and charpack refine a plain vector under any sequence of ALTREP calls;
  parsing accepts exactly the documented formats on arbitrary bytes; serializing and unserializing
  give the elements back across byte orders and locales; a resolved reader reads exactly the
  strings, in place where it should; borrows are released exactly once; what the broker and the
  headers compose to is stated end to end, from loading the package to a reader of its strings and
  from another package's builder to a vector of R.

  \<^bold>\<open>Bounds and termination.\<close> \<open>resolve_wrapped\<close> follows at most \<open>max_unwrap_depth\<close> = 8 wrappers, the
  code's own bound. Loops over indices are structural or have a measure (what is left of the table,
  of the range an iterator walks); the doubling loop is a \<open>while\<close> with a measure. No fuel is used.

  \<^bold>\<open>Not modelled.\<close> R itself: its API is a parameter (R's answer about the native encoding and its
  iconv included), and the routine table, the ALTREP method tables and \<open>Inspect\<close> (which prints) are
  left out; entry points box their results in R vectors of length one, which the model leaves out
  too. The R functions, tests, scripts, benchmarks and the allocation-failure harness of
  \<open>tools/native-cleanup\<close> are not part of the program proper. Finalizers run by R's collector, and
  data races outside the one-thread-per-shard discipline of \<open>ParallelBuilder\<close>, are outside the model.
\<close>

end
